(* ===== verification/Prelude.thy ===== *)
theory Prelude
  imports Main "HOL-Library.Word" "HOL-Library.Sublist" "HOL-Library.Code_Target_Numeral"
begin

unbundle bit_operations_syntax

text \<open>
  Shared vocabulary of the development: Unicode scalar values and the UTF-8 byte length
  of a string slice, 32-bit unsigned arithmetic written out on the natural numbers, and
  the generic list lemmas the component theories use.

  A Rust \<open>char\<close> is its code point, a natural number; a Rust \<open>&str\<close> is the list
  of its characters, and the byte length \<open>str::len\<close> is the sum of the UTF-8 lengths.
  The ASCII characters of the source are written with \<open>ch\<close>, for example
  \<open>ch CHR ''/''\<close>.
\<close>

named_theorems adv_intros \<open>every lexer operation only moves the cursor forward\<close>
named_theorems assert_simps \<open>every lexer operation keeps the debug assertions\<close>

type_synonym uchar = nat

abbreviation ch :: "char \<Rightarrow> uchar" where
  "ch \<equiv> of_char"

text \<open>The double quote, the single quote, the backslash and the newline.\<close>

abbreviation dquote :: uchar where "dquote \<equiv> 0x22"
abbreviation squote :: uchar where "squote \<equiv> 0x27"
abbreviation backslash :: uchar where "backslash \<equiv> 0x5C"
abbreviation newline :: uchar where "newline \<equiv> 0x0A"

definition str :: "string \<Rightarrow> uchar list" where
  "str s = map of_char s"

text \<open>\<open>char::len_utf8\<close> and \<open>str::len\<close> of the standard library.\<close>

definition len_utf8 :: "uchar \<Rightarrow> nat" where
  "len_utf8 c = (if c < 0x80 then 1 else if c < 0x800 then 2 else if c < 0x10000 then 3 else 4)"

definition str_len :: "uchar list \<Rightarrow> nat" where
  "str_len s = sum_list (map len_utf8 s)"

text \<open>
  The \<open>u32\<close> arithmetic of the source, on natural numbers below \<open>2 ^ 32\<close>: the cast
  \<open>as u32\<close> and wrapping subtraction.
\<close>

definition as_u32 :: "nat \<Rightarrow> nat" where
  "as_u32 n = n mod 2 ^ 32"

definition sub_u32 :: "nat \<Rightarrow> nat \<Rightarrow> nat" where
  "sub_u32 a b = (a + 2 ^ 32 - b) mod 2 ^ 32"

text \<open>\<open>char::is_ascii\<close>, \<open>char::is_digit(10)\<close> and \<open>char::to_digit(16)\<close>.\<close>

definition is_ascii_char :: "uchar \<Rightarrow> bool" where
  "is_ascii_char c \<longleftrightarrow> c < 128"

definition is_digit10 :: "uchar \<Rightarrow> bool" where
  "is_digit10 c \<longleftrightarrow> ch CHR ''0'' \<le> c \<and> c \<le> ch CHR ''9''"

definition to_digit16 :: "uchar \<Rightarrow> nat option" where
  "to_digit16 c =
     (let digit = sub_u32 c (ch CHR ''0'')
      in if digit < 10 then Some digit
         else let digit' = min (2 ^ 32 - 1) (sub_u32 (c OR 32) (ch CHR ''a'') + 10)
              in if digit' < 16 then Some digit' else None)"

text \<open>The code points that are Unicode scalar values: what a Rust \<open>char\<close> can hold.\<close>

definition is_scalar :: "uchar \<Rightarrow> bool" where
  "is_scalar c \<longleftrightarrow> c < 0xD800 \<or> (0xE000 \<le> c \<and> c \<le> 0x10FFFF)"

text \<open>
  \<open>char::is_whitespace\<close> of the standard library, with the table of
  \<open>library/core/src/unicode/unicode_data.rs\<close>.
\<close>

definition WHITESPACE_MAP :: "nat list" where
  "WHITESPACE_MAP =
     [2, 2, 2, 2, 2, 2, 2, 2, 2, 3, 3, 1, 1, 1, 0, 0, 0, 0, 0, 0, 0, 0, 0, 0, 0, 0, 0, 0, 0, 0, 0, 0,
      1, 0, 0, 0, 0, 0, 0, 0, 2, 2, 0, 0, 0, 0, 0, 2, 0, 0, 0, 0, 0, 0, 0, 0, 0, 0, 0, 0, 0, 0, 0, 0,
      0, 0, 0, 0, 0, 0, 0, 0, 0, 0, 0, 0, 0, 0, 0, 0, 0, 0, 0, 0, 0, 0, 0, 0, 0, 0, 0, 0, 0, 0, 0, 2,
      0, 0, 0, 0, 0, 0, 0, 0, 0, 0, 0, 0, 0, 0, 0, 0, 0, 0, 0, 0, 0, 0, 0, 0, 0, 0, 0, 0, 0, 0, 0, 0,
      0, 0, 0, 0, 0, 1, 0, 0, 0, 0, 0, 0, 0, 0, 0, 0, 0, 0, 0, 0, 0, 0, 0, 0, 0, 0, 0, 0, 0, 0, 0, 0,
      1, 0, 0, 0, 0, 0, 0, 0, 0, 0, 0, 0, 0, 0, 0, 0, 0, 0, 0, 0, 0, 0, 0, 0, 0, 0, 0, 0, 0, 0, 0, 0,
      0, 0, 0, 0, 0, 0, 0, 0, 0, 0, 0, 0, 0, 0, 0, 0, 0, 0, 0, 0, 0, 0, 0, 0, 0, 0, 0, 0, 0, 0, 0, 0,
      0, 0, 0, 0, 0, 0, 0, 0, 0, 0, 0, 0, 0, 0, 0, 0, 0, 0, 0, 0, 0, 0, 0, 0, 0, 0, 0, 0, 0, 0, 0, 0]"

definition White_Space :: "uchar \<Rightarrow> bool" where
  "White_Space c =
     (if c div 256 = 0 then odd (WHITESPACE_MAP ! (c mod 256))
      else if c div 256 = 22 then c = 0x1680
      else if c div 256 = 32 then odd (WHITESPACE_MAP ! (c mod 256) div 2)
      else if c div 256 = 48 then c = 0x3000
      else False)"

definition char_is_whitespace :: "uchar \<Rightarrow> bool" where
  "char_is_whitespace c \<longleftrightarrow>
     c = 0x20 \<or> 0x09 \<le> c \<and> c \<le> 0x0D \<or> (c > 0x7F \<and> White_Space c)"

lemma len_utf8_pos [simp]: "0 < len_utf8 c"
  by (simp add: len_utf8_def)

lemma len_utf8_le_4: "len_utf8 c \<le> 4"
  by (simp add: len_utf8_def)

lemma len_utf8_ascii [simp]: "c < 128 \<Longrightarrow> len_utf8 c = 1"
  by (simp add: len_utf8_def)

lemma str_len_Nil [simp]: "str_len [] = 0"
  by (simp add: str_len_def)

lemma str_len_Cons [simp]: "str_len (c # s) = len_utf8 c + str_len s"
  by (simp add: str_len_def)

lemma str_len_append [simp]: "str_len (s @ t) = str_len s + str_len t"
  by (simp add: str_len_def)

lemma str_len_concat: "str_len (concat ws) = sum_list (map str_len ws)"
  by (induction ws) simp_all

lemma str_len_replicate [simp]: "str_len (replicate n c) = n * len_utf8 c"
  by (induction n) simp_all

lemma str_len_eq_0_iff [simp]: "str_len s = 0 \<longleftrightarrow> s = []"
  by (cases s) (simp_all add: len_utf8_def)

lemma str_len_pos_iff [simp]: "0 < str_len s \<longleftrightarrow> s \<noteq> []"
  by (metis neq0_conv str_len_eq_0_iff)

lemma length_le_str_len: "length s \<le> str_len s"
proof (induction s)
  case (Cons c s)
  have "1 \<le> len_utf8 c" by (simp add: len_utf8_def)
  with Cons show ?case by simp
qed simp

lemma str_len_ascii: "(\<forall>c \<in> set s. c < 128) \<Longrightarrow> str_len s = length s"
  by (induction s) simp_all

lemma as_u32_id [simp]: "n < 2 ^ 32 \<Longrightarrow> as_u32 n = n"
  by (simp add: as_u32_def)

lemma sub_u32_id:
  assumes "b \<le> a" and "a < 2 ^ 32"
  shows "sub_u32 a b = a - b"
proof -
  have "a + 2 ^ 32 - b = (a - b) + 2 ^ 32" using assms(1) by (rule add_diff_assoc2 [symmetric])
  moreover have "a - b < 2 ^ 32" using assms(2) by (rule less_imp_diff_less)
  ultimately show ?thesis by (simp only: sub_u32_def mod_add_self2 mod_less)
qed

text \<open>Splitting a list where a predicate stops holding.\<close>

lemma takeWhile_append_stop:
  "list_all P xs \<Longrightarrow> (ys = [] \<or> \<not> P (hd ys)) \<Longrightarrow> takeWhile P (xs @ ys) = xs"
proof (induction xs)
  case Nil
  then show ?case by (cases ys) simp_all
qed simp

lemma dropWhile_append_stop:
  "list_all P xs \<Longrightarrow> (ys = [] \<or> \<not> P (hd ys)) \<Longrightarrow> dropWhile P (xs @ ys) = ys"
proof (induction xs)
  case Nil
  then show ?case by (cases ys) simp_all
qed simp

end
