(* ===== verification/Lexer_Cursor.thy ===== *)
theory Lexer_Cursor
  imports Prelude
begin

text \<open>
  The character cursor of the lexer, \<open>compiler/rustc_lexer/src/cursor.rs\<close>, built with
  debug assertions. A cursor is a record: \<open>chars\<close> is the text not yet consumed,
  \<open>len_remaining\<close> its byte length when the current token started, \<open>prev\<close> the last
  character eaten. A \<open>debug_assert!\<close> of the lexer that fails is recorded in
  \<open>asserts_ok\<close>; the flag is only ever cleared, so a run that ends with the flag set
  passed every assertion.
\<close>

record cursor =
  len_remaining :: nat
  chars :: "uchar list"
  prev :: uchar
  asserts_ok :: bool

definition EOF_CHAR :: uchar where
  "EOF_CHAR = 0"

definition new_cursor :: "uchar list \<Rightarrow> cursor" where
  "new_cursor input =
     \<lparr>len_remaining = str_len input, chars = input, prev = EOF_CHAR, asserts_ok = True\<rparr>"

definition debug_assert :: "bool \<Rightarrow> cursor \<Rightarrow> cursor" where
  "debug_assert b c = c\<lparr>asserts_ok := asserts_ok c \<and> b\<rparr>"

definition first :: "cursor \<Rightarrow> uchar" where
  "first c = (case chars c of [] \<Rightarrow> EOF_CHAR | x # _ \<Rightarrow> x)"

definition second :: "cursor \<Rightarrow> uchar" where
  "second c = (case chars c of _ # y # _ \<Rightarrow> y | _ \<Rightarrow> EOF_CHAR)"

definition is_eof :: "cursor \<Rightarrow> bool" where
  "is_eof c \<longleftrightarrow> chars c = []"

definition pos_within_token :: "cursor \<Rightarrow> nat" where
  "pos_within_token c = as_u32 (len_remaining c - str_len (chars c))"

definition reset_pos_within_token :: "cursor \<Rightarrow> cursor" where
  "reset_pos_within_token c = c\<lparr>len_remaining := str_len (chars c)\<rparr>"

definition bump :: "cursor \<Rightarrow> uchar option \<times> cursor" where
  "bump c = (case chars c of
       [] \<Rightarrow> (None, c)
     | x # xs \<Rightarrow> (Some x, c\<lparr>chars := xs, prev := x\<rparr>))"

text \<open>A call of \<open>bump\<close> as a statement, its result dropped.\<close>

abbreviation bump_ign :: "cursor \<Rightarrow> cursor" where
  "bump_ign c \<equiv> snd (bump c)"

lemma bump_eof [simp]: "chars c = [] \<Longrightarrow> bump c = (None, c)"
  by (simp add: bump_def)

lemma bump_Cons [simp]: "chars c = x # xs \<Longrightarrow> bump c = (Some x, c\<lparr>chars := xs, prev := x\<rparr>)"
  by (simp add: bump_def)

lemma bump_Some_length: "bump c = (Some x, c') \<Longrightarrow> length (chars c') < length (chars c)"
  by (cases "chars c") auto

lemma length_bump_ign: "\<not> is_eof c \<Longrightarrow> length (chars (bump_ign c)) < length (chars c)"
  by (cases "chars c") (simp_all add: is_eof_def)

function eat_while :: "(uchar \<Rightarrow> bool) \<Rightarrow> cursor \<Rightarrow> cursor" where
  "eat_while predicate c =
     (if predicate (first c) \<and> \<not> is_eof c then eat_while predicate (bump_ign c) else c)"
  by pat_completeness auto
termination
  by (relation "measure (\<lambda>(p, c). length (chars c))") (auto simp: length_bump_ign)

declare eat_while.simps [simp del]

subsection \<open>The cursor only moves forward\<close>

text \<open>
  \<open>adv c c'\<close>: the cursor \<open>c'\<close> is \<open>c\<close> with some characters eaten; the token start
  is the same.
\<close>

definition adv :: "cursor \<Rightarrow> cursor \<Rightarrow> bool" where
  "adv c c' \<longleftrightarrow> suffix (chars c') (chars c) \<and> len_remaining c' = len_remaining c"

lemma adv_refl [simp, intro!]: "adv c c"
  by (simp add: adv_def)

lemma adv_trans [trans]: "adv c c' \<Longrightarrow> adv c' c'' \<Longrightarrow> adv c c''"
  by (auto simp: adv_def intro: suffix_order.trans)

lemma adv_bump_ign [adv_intros, simp]: "adv c (bump_ign c)"
  by (cases "chars c") (auto simp: adv_def bump_def suffix_Cons)

lemma adv_debug_assert [adv_intros, simp]: "adv c (debug_assert b c)"
  by (simp add: adv_def debug_assert_def)

lemma adv_of_debug_assert [simp]: "adv (debug_assert b c) c' \<longleftrightarrow> adv c c'"
  by (simp add: adv_def debug_assert_def)

lemma adv_eat_while [adv_intros, simp]: "adv c (eat_while p c)"
proof (induction p c rule: eat_while.induct)
  case (1 p c)
  then show ?case
    by (subst eat_while.simps) (auto intro: adv_trans [OF adv_bump_ign])
qed

lemma adv_length: "adv c c' \<Longrightarrow> length (chars c') \<le> length (chars c)"
  by (auto simp: adv_def suffix_def)

lemma adv_str_len: "adv c c' \<Longrightarrow> str_len (chars c') \<le> str_len (chars c)"
  by (auto simp: adv_def suffix_def)

lemma adv_len_remaining: "adv c c' \<Longrightarrow> len_remaining c' = len_remaining c"
  by (simp add: adv_def)

subsection \<open>What the primitive operations compute\<close>

lemma debug_assert_simps [simp]:
  "chars (debug_assert b c) = chars c"
  "len_remaining (debug_assert b c) = len_remaining c"
  "prev (debug_assert b c) = prev c"
  "asserts_ok (debug_assert b c) \<longleftrightarrow> asserts_ok c \<and> b"
  "first (debug_assert b c) = first c"
  "second (debug_assert b c) = second c"
  "is_eof (debug_assert b c) = is_eof c"
  by (simp_all add: debug_assert_def first_def second_def is_eof_def)

lemma peek_prev_update [simp]:
  "first (c\<lparr>prev := x\<rparr>) = first c" "second (c\<lparr>prev := x\<rparr>) = second c"
  "is_eof (c\<lparr>prev := x\<rparr>) = is_eof c"
  by (simp_all add: first_def second_def is_eof_def)

lemma first_Cons [simp]: "chars c = x # xs \<Longrightarrow> first c = x"
  by (simp add: first_def)

lemma first_Nil [simp]: "chars c = [] \<Longrightarrow> first c = EOF_CHAR"
  by (simp add: first_def)

lemma second_Cons [simp]: "chars c = x # y # xs \<Longrightarrow> second c = y"
  by (simp add: second_def)

lemma chars_bump_ign [simp]: "chars (bump_ign c) = tl (chars c)"
  by (cases "chars c") simp_all

lemma len_remaining_bump_ign [simp]: "len_remaining (bump_ign c) = len_remaining c"
  by (cases "chars c") simp_all

lemma asserts_ok_bump_ign [simp, assert_simps]: "asserts_ok (bump_ign c) = asserts_ok c"
  by (cases "chars c") simp_all

lemma prev_bump_ign: "\<not> is_eof c \<Longrightarrow> prev (bump_ign c) = first c"
  by (cases "chars c") (simp_all add: is_eof_def)

lemma first_nonzero_not_eof: "first c \<noteq> EOF_CHAR \<Longrightarrow> \<not> is_eof c"
  by (auto simp: is_eof_def)

lemma eat_while_chars: "chars (eat_while p c) = dropWhile p (chars c)"
proof (induction p c rule: eat_while.induct)
  case (1 p c)
  show ?case
  proof (cases "chars c")
    case Nil
    then show ?thesis by (subst eat_while.simps) (simp add: is_eof_def)
  next
    case (Cons x xs)
    with 1 show ?thesis by (subst eat_while.simps) (simp add: is_eof_def)
  qed
qed

lemma eat_while_asserts_ok [simp, assert_simps]: "asserts_ok (eat_while p c) = asserts_ok c"
proof (induction p c rule: eat_while.induct)
  case (1 p c)
  then show ?case by (subst eat_while.simps) simp
qed

lemma eat_while_stops: "\<not> is_eof (eat_while p c) \<Longrightarrow> \<not> p (first (eat_while p c))"
proof -
  assume "\<not> is_eof (eat_while p c)"
  then obtain x xs where eq: "dropWhile p (chars c) = x # xs"
    by (cases "dropWhile p (chars c)") (auto simp: is_eof_def eat_while_chars simp del: dropWhile_eq_Nil_conv)
  then have "\<not> p x" using hd_dropWhile [of p "chars c"] by simp
  then show ?thesis using eq by (simp add: eat_while_chars)
qed

subsection \<open>Positions within a token\<close>

text \<open>
  \<open>cursor_ok c\<close>: the byte count of a cursor is sound, so the subtraction in
  \<open>pos_within_token\<close> does not underflow.
\<close>

definition cursor_ok :: "cursor \<Rightarrow> bool" where
  "cursor_ok c \<longleftrightarrow> str_len (chars c) \<le> len_remaining c"

lemma new_cursor_simps [simp]:
  "chars (new_cursor input) = input"
  "len_remaining (new_cursor input) = str_len input"
  "asserts_ok (new_cursor input)"
  by (simp_all add: new_cursor_def)

lemma cursor_ok_new [simp]: "cursor_ok (new_cursor input)"
  by (simp add: cursor_ok_def new_cursor_def)

lemma cursor_ok_adv: "cursor_ok c \<Longrightarrow> adv c c' \<Longrightarrow> cursor_ok c'"
  using adv_str_len [of c c'] by (simp add: cursor_ok_def adv_def)

lemma pos_within_token_consumed:
  assumes "chars c = w @ chars c'" and "len_remaining c' = len_remaining c"
    and "len_remaining c = str_len (chars c)"
  shows "pos_within_token c' = as_u32 (str_len w)"
  using assms by (simp add: pos_within_token_def)

end
