(* ===== verification/Lexer.thy ===== *)
theory Lexer
  imports Lexer_Cursor
begin

text \<open>
  The token lexer, \<open>compiler/rustc_lexer/src/lib.rs\<close>: the token types, one definition
  per method of \<open>Cursor\<close>, \<open>advance_token\<close> and \<open>tokenize\<close>. A method that
  returns a value and moves the cursor is a function from the cursor to the pair of both.
  A loop is a recursive function on the cursor.

  The Unicode tables come from the crates \<open>unicode_xid\<close> and \<open>unicode_properties\<close>;
  they are the parameter \<open>u\<close> of every definition that consults them.
\<close>

subsection \<open>Tokens\<close>

datatype doc_style = Outer | Inner

datatype lit_base = Binary | Octal | Decimal | Hexadecimal

datatype literal_kind =
    IntLit lit_base bool
  | Float lit_base bool
  | FieldLit lit_base bool
  | CharLit bool
  | Byte bool
  | Str bool
  | ByteStr bool
  | CStr bool
  | RawStr "nat option"
  | RawByteStr "nat option"
  | RawCStr "nat option"

datatype token_kind =
    LineComment "doc_style option"
  | BlockComment "doc_style option" bool
  | Whitespace
  | Ident
  | InvalidIdent
  | RawIdent
  | UnknownPrefix
  | Literal literal_kind nat
  | Lifetime bool
  | Semi | Comma | Dot | OpenParen | CloseParen | OpenBrace | CloseBrace
  | OpenBracket | CloseBracket | At | Pound | Tilde | Question | Colon | Dollar
  | Eq | Bang | Lt | Gt | Minus | And | Or | Plus | Star | Slash | Caret | Percent
  | Unknown
  | Eof

record token =
  kind :: token_kind
  len :: nat

datatype raw_str_error =
    InvalidStarter uchar
  | NoTerminator nat nat "nat option"
  | TooManyDelimiters nat

record unicode_tables =
  is_xid_start :: "uchar \<Rightarrow> bool"
  is_xid_continue :: "uchar \<Rightarrow> bool"
  is_emoji_char :: "uchar \<Rightarrow> bool"

subsection \<open>Character classes\<close>

definition is_whitespace :: "uchar \<Rightarrow> bool" where
  "is_whitespace c \<longleftrightarrow>
     c = 0x0009 \<or> c = 0x000A \<or> c = 0x000B \<or> c = 0x000C \<or> c = 0x000D \<or> c = 0x0020 \<or>
     c = 0x0085 \<or> c = 0x200E \<or> c = 0x200F \<or> c = 0x2028 \<or> c = 0x2029"

definition is_id_start :: "unicode_tables \<Rightarrow> uchar \<Rightarrow> bool" where
  "is_id_start u c \<longleftrightarrow> c = ch CHR ''_'' \<or> is_xid_start u c"

definition is_id_continue :: "unicode_tables \<Rightarrow> uchar \<Rightarrow> bool" where
  "is_id_continue u c \<longleftrightarrow> is_xid_continue u c"

definition is_ident :: "unicode_tables \<Rightarrow> uchar list \<Rightarrow> bool" where
  "is_ident u s \<longleftrightarrow> (case s of
       start # rest \<Rightarrow> is_id_start u start \<and> list_all (is_id_continue u) rest
     | [] \<Rightarrow> False)"

subsection \<open>Digits, identifiers, suffixes\<close>

function eat_decimal_digits_loop :: "bool \<Rightarrow> cursor \<Rightarrow> bool \<times> cursor" where
  "eat_decimal_digits_loop has_digits c =
     (if first c = ch CHR ''_'' then eat_decimal_digits_loop has_digits (bump_ign c)
      else if ch CHR ''0'' \<le> first c \<and> first c \<le> ch CHR ''9''
        then eat_decimal_digits_loop True (bump_ign c)
      else (has_digits, c))"
  by pat_completeness auto
termination
  by (relation "measure (\<lambda>(b, c). length (chars c))")
    (auto intro!: length_bump_ign first_nonzero_not_eof simp: EOF_CHAR_def simp del: chars_bump_ign)

definition eat_decimal_digits :: "cursor \<Rightarrow> bool \<times> cursor" where
  "eat_decimal_digits c = eat_decimal_digits_loop False c"

definition is_hex_digit :: "uchar \<Rightarrow> bool" where
  "is_hex_digit x \<longleftrightarrow> ch CHR ''0'' \<le> x \<and> x \<le> ch CHR ''9'' \<or>
     ch CHR ''a'' \<le> x \<and> x \<le> ch CHR ''f'' \<or> ch CHR ''A'' \<le> x \<and> x \<le> ch CHR ''F''"

function eat_hexadecimal_digits_loop :: "bool \<Rightarrow> cursor \<Rightarrow> bool \<times> cursor" where
  "eat_hexadecimal_digits_loop has_digits c =
     (if first c = ch CHR ''_'' then eat_hexadecimal_digits_loop has_digits (bump_ign c)
      else if is_hex_digit (first c) then eat_hexadecimal_digits_loop True (bump_ign c)
      else (has_digits, c))"
  by pat_completeness auto
termination
  by (relation "measure (\<lambda>(b, c). length (chars c))")
    (auto intro!: length_bump_ign first_nonzero_not_eof simp: EOF_CHAR_def is_hex_digit_def
      simp del: chars_bump_ign)

definition eat_hexadecimal_digits :: "cursor \<Rightarrow> bool \<times> cursor" where
  "eat_hexadecimal_digits c = eat_hexadecimal_digits_loop False c"

declare eat_decimal_digits_loop.simps [simp del] eat_hexadecimal_digits_loop.simps [simp del]

definition eat_float_exponent :: "cursor \<Rightarrow> bool \<times> cursor" where
  "eat_float_exponent c0 =
     (let c1 = debug_assert (prev c0 = ch CHR ''e'' \<or> prev c0 = ch CHR ''E'') c0;
          c2 = (if first c1 = ch CHR ''-'' \<or> first c1 = ch CHR ''+'' then bump_ign c1 else c1)
      in eat_decimal_digits c2)"

definition eat_identifier :: "unicode_tables \<Rightarrow> cursor \<Rightarrow> cursor" where
  "eat_identifier u c =
     (if \<not> is_id_start u (first c) then c
      else eat_while (is_id_continue u) (bump_ign c))"

definition eat_literal_suffix :: "unicode_tables \<Rightarrow> cursor \<Rightarrow> cursor" where
  "eat_literal_suffix u c = eat_identifier u c"

subsection \<open>Comments and whitespace\<close>

definition line_comment :: "cursor \<Rightarrow> token_kind \<times> cursor" where
  "line_comment c0 =
     (let c1 = debug_assert (prev c0 = ch CHR ''/'' \<and> first c0 = ch CHR ''/'') c0;
          c2 = bump_ign c1;
          style = (if first c2 = ch CHR ''!'' then Some Inner
                   else if first c2 = ch CHR ''/'' \<and> second c2 \<noteq> ch CHR ''/'' then Some Outer
                   else None);
          c3 = eat_while (\<lambda>x. x \<noteq> newline) c2
      in (LineComment style, c3))"

function block_comment_loop :: "nat \<Rightarrow> cursor \<Rightarrow> nat \<times> cursor" where
  "block_comment_loop depth c =
     (case bump c of
        (None, c1) \<Rightarrow> (depth, c1)
      | (Some x, c1) \<Rightarrow>
          if x = ch CHR ''/'' \<and> first c1 = ch CHR ''*''
            then block_comment_loop (depth + 1) (bump_ign c1)
          else if x = ch CHR ''*'' \<and> first c1 = ch CHR ''/''
            then (if depth - 1 = 0 then (depth - 1, bump_ign c1)
                  else block_comment_loop (depth - 1) (bump_ign c1))
          else block_comment_loop depth c1)"
  by pat_completeness auto
termination
  by (relation "measure (\<lambda>(d, c). length (chars c))") (auto dest!: sym [THEN bump_Some_length])

declare block_comment_loop.simps [simp del]

definition block_comment :: "cursor \<Rightarrow> token_kind \<times> cursor" where
  "block_comment c0 =
     (let c1 = debug_assert (prev c0 = ch CHR ''/'' \<and> first c0 = ch CHR ''*'') c0;
          c2 = bump_ign c1;
          style = (if first c2 = ch CHR ''!'' then Some Inner
                   else if first c2 = ch CHR ''*'' \<and>
                     \<not> (second c2 = ch CHR ''*'' \<or> second c2 = ch CHR ''/'') then Some Outer
                   else None);
          (depth, c3) = block_comment_loop 1 c2
      in (BlockComment style (depth = 0), c3))"

definition whitespace :: "cursor \<Rightarrow> token_kind \<times> cursor" where
  "whitespace c0 =
     (let c1 = debug_assert (is_whitespace (prev c0)) c0
      in (Whitespace, eat_while is_whitespace c1))"

subsection \<open>Identifiers\<close>

definition raw_ident :: "unicode_tables \<Rightarrow> cursor \<Rightarrow> token_kind \<times> cursor" where
  "raw_ident u c0 =
     (let c1 = debug_assert (prev c0 = ch CHR ''r'' \<and> first c0 = ch CHR ''#'' \<and>
                 is_id_start u (second c0)) c0;
          c2 = bump_ign c1
      in (RawIdent, eat_identifier u c2))"

definition fake_ident_or_unknown_prefix :: "unicode_tables \<Rightarrow> cursor \<Rightarrow> token_kind \<times> cursor" where
  "fake_ident_or_unknown_prefix u c0 =
     (let c1 = eat_while (\<lambda>x. is_xid_continue u x \<or>
                 (\<not> is_ascii_char x \<and> is_emoji_char u x) \<or> x = 0x200D) c0
      in if first c1 = ch CHR ''#'' \<or> first c1 = dquote \<or> first c1 = squote
         then (UnknownPrefix, c1) else (InvalidIdent, c1))"

definition ident_or_unknown_prefix :: "unicode_tables \<Rightarrow> cursor \<Rightarrow> token_kind \<times> cursor" where
  "ident_or_unknown_prefix u c0 =
     (let c1 = debug_assert (is_id_start u (prev c0)) c0;
          c2 = eat_while (is_id_continue u) c1
      in if first c2 = ch CHR ''#'' \<or> first c2 = dquote \<or> first c2 = squote
           then (UnknownPrefix, c2)
         else if \<not> is_ascii_char (first c2) \<and> is_emoji_char u (first c2)
           then fake_ident_or_unknown_prefix u c2
         else (Ident, c2))"

subsection \<open>Quoted literals\<close>

function single_quoted_loop :: "cursor \<Rightarrow> bool \<times> cursor" where
  "single_quoted_loop c =
     (if first c = squote then (True, bump_ign c)
      else if first c = ch CHR ''/'' then (False, c)
      else if first c = newline \<and> second c \<noteq> squote then (False, c)
      else if first c = EOF_CHAR \<and> is_eof c then (False, c)
      else if first c = backslash then single_quoted_loop (bump_ign (bump_ign c))
      else single_quoted_loop (bump_ign c))"
  by pat_completeness auto
termination
proof (relation "measure (\<lambda>c. length (chars c))")
  fix c
  assume "\<not> (first c = EOF_CHAR \<and> is_eof c)"
  then have ne: "chars c \<noteq> []" by (auto simp: is_eof_def)
  then show "(bump_ign (bump_ign c), c) \<in> measure (\<lambda>c. length (chars c))"
    and "(bump_ign c, c) \<in> measure (\<lambda>c. length (chars c))"
    by (auto simp: neq_Nil_conv)
qed simp

definition single_quoted_string :: "cursor \<Rightarrow> bool \<times> cursor" where
  "single_quoted_string c0 =
     (let c1 = debug_assert (prev c0 = squote) c0
      in if second c1 = squote \<and> first c1 \<noteq> backslash
         then (True, bump_ign (bump_ign c1))
         else single_quoted_loop c1)"

function double_quoted_loop :: "cursor \<Rightarrow> bool \<times> cursor" where
  "double_quoted_loop c =
     (case bump c of
        (None, c1) \<Rightarrow> (False, c1)
      | (Some x, c1) \<Rightarrow>
          if x = dquote then (True, c1)
          else if x = backslash \<and> (first c1 = backslash \<or> first c1 = dquote)
            then double_quoted_loop (bump_ign c1)
          else double_quoted_loop c1)"
  by pat_completeness auto
termination
  by (relation "measure (\<lambda>c. length (chars c))") (auto dest!: sym [THEN bump_Some_length])

definition double_quoted_string :: "cursor \<Rightarrow> bool \<times> cursor" where
  "double_quoted_string c0 =
     (let c1 = debug_assert (prev c0 = dquote) c0 in double_quoted_loop c1)"

declare single_quoted_loop.simps [simp del] double_quoted_loop.simps [simp del]

subsection \<open>Raw strings\<close>

text \<open>
  The counters of hashes are \<open>u32\<close> in the source, where the addition overflows after
  \<open>2 ^ 32 - 1\<close> hashes; here they wrap, as they do in a build without overflow checks.
\<close>

function eat_hashes :: "nat \<Rightarrow> cursor \<Rightarrow> nat \<times> cursor" where
  "eat_hashes eaten c =
     (if first c = ch CHR ''#'' then eat_hashes (as_u32 (eaten + 1)) (bump_ign c) else (eaten, c))"
  by pat_completeness auto
termination
  by (relation "measure (\<lambda>(n, c). length (chars c))")
    (auto intro!: length_bump_ign first_nonzero_not_eof simp: EOF_CHAR_def simp del: chars_bump_ign)

function eat_end_hashes :: "nat \<Rightarrow> nat \<Rightarrow> cursor \<Rightarrow> nat \<times> cursor" where
  "eat_end_hashes n_start_hashes n_end_hashes c =
     (if first c = ch CHR ''#'' \<and> n_end_hashes < n_start_hashes
      then eat_end_hashes n_start_hashes (as_u32 (n_end_hashes + 1)) (bump_ign c)
      else (n_end_hashes, c))"
  by pat_completeness auto
termination
  by (relation "measure (\<lambda>(m, n, c). length (chars c))")
    (auto intro!: length_bump_ign first_nonzero_not_eof simp: EOF_CHAR_def simp del: chars_bump_ign)

declare eat_hashes.simps [simp del] eat_end_hashes.simps [simp del]

lemma adv_eat_hashes [adv_intros, simp]: "adv c (snd (eat_hashes n c))"
proof (induction n c rule: eat_hashes.induct)
  case (1 n c)
  then show ?case by (subst eat_hashes.simps) (auto intro: adv_trans [OF adv_bump_ign])
qed

lemma adv_eat_end_hashes [adv_intros, simp]: "adv c (snd (eat_end_hashes m n c))"
proof (induction m n c rule: eat_end_hashes.induct)
  case (1 m n c)
  then show ?case by (subst eat_end_hashes.simps) (auto intro: adv_trans [OF adv_bump_ign])
qed

lemma raw_string_progress:
  assumes "\<not> is_eof (eat_while p c)"
  shows "length (chars (snd (eat_end_hashes m n (bump_ign (eat_while p c))))) < length (chars c)"
proof -
  have "length (chars (snd (eat_end_hashes m n (bump_ign (eat_while p c)))))
      \<le> length (chars (bump_ign (eat_while p c)))"
    by (rule adv_length) simp
  also have "\<dots> < length (chars (eat_while p c))"
    using assms by (rule length_bump_ign)
  also have "\<dots> \<le> length (chars c)"
    by (rule adv_length) simp
  finally show ?thesis .
qed

function raw_string_loop ::
  "nat \<Rightarrow> nat \<Rightarrow> nat \<Rightarrow> nat option \<Rightarrow> nat \<Rightarrow> cursor \<Rightarrow> (raw_str_error + nat) \<times> cursor" where
  "raw_string_loop prefix_len start_pos n_start_hashes possible_terminator_offset max_hashes c =
     (let c1 = eat_while (\<lambda>x. x \<noteq> dquote) c
      in if is_eof c1
         then (Inl (NoTerminator n_start_hashes max_hashes possible_terminator_offset), c1)
         else
           let n_end_hashes = fst (eat_end_hashes n_start_hashes 0 (bump_ign c1));
               c3 = snd (eat_end_hashes n_start_hashes 0 (bump_ign c1))
           in if n_end_hashes = n_start_hashes then (Inr n_start_hashes, c3)
              else if n_end_hashes > max_hashes
                then raw_string_loop prefix_len start_pos n_start_hashes
                  (Some (as_u32 (sub_u32 (sub_u32 (pos_within_token c3) start_pos) n_end_hashes
                     + prefix_len)))
                  n_end_hashes c3
              else raw_string_loop prefix_len start_pos n_start_hashes
                  possible_terminator_offset max_hashes c3)"
  by pat_completeness auto
termination
  by (relation "measure (\<lambda>(p, s, n, o', m, c). length (chars c))") (auto simp: raw_string_progress case_prod_unfold)

declare raw_string_loop.simps [simp del]

definition raw_string_unvalidated :: "nat \<Rightarrow> cursor \<Rightarrow> (raw_str_error + nat) \<times> cursor" where
  "raw_string_unvalidated prefix_len c0 =
     (let c1 = debug_assert (prev c0 = ch CHR ''r'') c0;
          start_pos = pos_within_token c1;
          (n_start_hashes, c2) = eat_hashes 0 c1;
          (b, c3) = bump c2
      in if b = Some dquote
         then raw_string_loop prefix_len start_pos n_start_hashes None 0 c3
         else (Inl (InvalidStarter (case b of Some x \<Rightarrow> x | None \<Rightarrow> EOF_CHAR)), c3))"

definition raw_double_quoted_string :: "nat \<Rightarrow> cursor \<Rightarrow> (raw_str_error + nat) \<times> cursor" where
  "raw_double_quoted_string prefix_len c =
     (case raw_string_unvalidated prefix_len c of
        (Inl e, c') \<Rightarrow> (Inl e, c')
      | (Inr n_hashes, c') \<Rightarrow>
          (if n_hashes \<le> 255 then (Inr n_hashes, c') else (Inl (TooManyDelimiters n_hashes), c')))"

text \<open>\<open>Result::ok\<close> and \<open>Result::is_ok\<close>.\<close>

definition result_ok :: "'e + 'a \<Rightarrow> 'a option" where
  "result_ok r = (case r of Inl _ \<Rightarrow> None | Inr x \<Rightarrow> Some x)"

definition result_is_ok :: "'e + 'a \<Rightarrow> bool" where
  "result_is_ok r = (case r of Inl _ \<Rightarrow> False | Inr _ \<Rightarrow> True)"

subsection \<open>Numbers\<close>

text \<open>The early return of \<open>number\<close> for a base prefix with no digit after it.\<close>

definition empty_number :: "lit_base \<Rightarrow> cursor \<Rightarrow> literal_kind" where
  "empty_number b c =
     (if first c = ch CHR ''g'' \<or> first c = ch CHR ''G'' then FieldLit b True else IntLit b True)"

text \<open>The final \<open>match\<close> of \<open>number\<close>, after the digits.\<close>

definition number_tail :: "unicode_tables \<Rightarrow> lit_base \<Rightarrow> cursor \<Rightarrow> literal_kind \<times> cursor" where
  "number_tail u b c =
     (if first c = ch CHR ''.'' \<and> second c \<noteq> ch CHR ''.'' \<and> \<not> is_id_start u (second c) then
        (let c1 = bump_ign c
         in if is_digit10 (first c1) then
              (let c2 = snd (eat_decimal_digits c1)
               in if first c2 = ch CHR ''e'' \<or> first c2 = ch CHR ''E''
                  then (let (has_digits, c3) = eat_float_exponent (bump_ign c2)
                        in (Float b (\<not> has_digits), c3))
                  else (Float b False, c2))
            else (Float b False, c1))
      else if first c = ch CHR ''e'' \<or> first c = ch CHR ''E'' then
        (let (has_digits, c1) = eat_float_exponent (bump_ign c)
         in (Float b (\<not> has_digits), c1))
      else if first c = ch CHR ''g'' \<or> first c = ch CHR ''G'' then (FieldLit b False, c)
      else (IntLit b False, c))"

definition number :: "unicode_tables \<Rightarrow> uchar \<Rightarrow> cursor \<Rightarrow> literal_kind \<times> cursor" where
  "number u first_digit c0 =
     (let c = debug_assert (ch CHR ''0'' \<le> prev c0 \<and> prev c0 \<le> ch CHR ''9'') c0
      in if first_digit = ch CHR ''0'' then
           if first c = ch CHR ''b'' then
             (let (has_digits, c1) = eat_decimal_digits (bump_ign c)
              in if \<not> has_digits then (empty_number Binary c1, c1) else number_tail u Binary c1)
           else if first c = ch CHR ''o'' then
             (let (has_digits, c1) = eat_decimal_digits (bump_ign c)
              in if \<not> has_digits then (empty_number Octal c1, c1) else number_tail u Octal c1)
           else if first c = ch CHR ''x'' then
             (let (has_digits, c1) = eat_hexadecimal_digits (bump_ign c)
              in if \<not> has_digits then (empty_number Hexadecimal c1, c1)
                 else number_tail u Hexadecimal c1)
           else if ch CHR ''0'' \<le> first c \<and> first c \<le> ch CHR ''9'' \<or> first c = ch CHR ''_'' then
             number_tail u Decimal (snd (eat_decimal_digits c))
           else if first c = ch CHR ''.'' \<or> first c = ch CHR ''e'' \<or> first c = ch CHR ''E'' then
             number_tail u Decimal c
           else if first c = ch CHR ''g'' \<or> first c = ch CHR ''G'' then (FieldLit Decimal False, c)
           else (IntLit Decimal False, c)
         else number_tail u Decimal (snd (eat_decimal_digits c)))"

subsection \<open>Lifetimes, characters, byte and C strings\<close>

definition lifetime_or_char :: "unicode_tables \<Rightarrow> cursor \<Rightarrow> token_kind \<times> cursor" where
  "lifetime_or_char u c0 =
     (let c = debug_assert (prev c0 = squote) c0;
          can_be_a_lifetime =
            (if second c = squote then False
             else is_id_start u (first c) \<or> is_digit10 (first c))
      in if \<not> can_be_a_lifetime then
           (let (terminated, c1) = single_quoted_string c;
                suffix_start = pos_within_token c1;
                c2 = (if terminated then eat_literal_suffix u c1 else c1)
            in (Literal (CharLit terminated) suffix_start, c2))
         else
           (let starts_with_number = is_digit10 (first c);
                c1 = bump_ign c;
                c2 = eat_while (is_id_continue u) c1
            in if first c2 = squote then
                 (let c3 = bump_ign c2 in (Literal (CharLit True) (pos_within_token c3), c3))
               else (Lifetime starts_with_number, c2)))"

definition c_or_byte_string ::
  "unicode_tables \<Rightarrow> (bool \<Rightarrow> literal_kind) \<Rightarrow> (nat option \<Rightarrow> literal_kind) \<Rightarrow>
   (bool \<Rightarrow> literal_kind) option \<Rightarrow> cursor \<Rightarrow> token_kind \<times> cursor" where
  "c_or_byte_string u mk_kind mk_kind_raw single_quoted c =
     (if first c = squote \<and> single_quoted \<noteq> None then
        (let (terminated, c1) = single_quoted_string (bump_ign c);
             suffix_start = pos_within_token c1;
             c2 = (if terminated then eat_literal_suffix u c1 else c1)
         in (Literal (the single_quoted terminated) suffix_start, c2))
      else if first c = dquote then
        (let (terminated, c1) = double_quoted_string (bump_ign c);
             suffix_start = pos_within_token c1;
             c2 = (if terminated then eat_literal_suffix u c1 else c1)
         in (Literal (mk_kind terminated) suffix_start, c2))
      else if first c = ch CHR ''r'' \<and> (second c = dquote \<or> second c = ch CHR ''#'') then
        (let (res, c1) = raw_double_quoted_string 2 (bump_ign c);
             suffix_start = pos_within_token c1;
             c2 = (if result_is_ok res then eat_literal_suffix u c1 else c1)
         in (Literal (mk_kind_raw (result_ok res)) suffix_start, c2))
      else ident_or_unknown_prefix u c)"

subsection \<open>One token\<close>

definition one_symbol_tokens :: "(uchar \<times> token_kind) list" where
  "one_symbol_tokens =
     [(ch CHR '';'', Semi), (ch CHR '','', Comma), (ch CHR ''.'', Dot),
      (ch CHR ''('', OpenParen), (ch CHR '')'', CloseParen),
      (ch CHR ''{'', OpenBrace), (ch CHR ''}'', CloseBrace),
      (ch CHR ''['', OpenBracket), (ch CHR '']'', CloseBracket),
      (ch CHR ''@'', At), (ch CHR ''#'', Pound), (ch CHR ''~'', Tilde),
      (ch CHR ''?'', Question), (ch CHR '':'', Colon), (ch CHR ''$'', Dollar),
      (ch CHR ''='', Eq), (ch CHR ''!'', Bang), (ch CHR ''<'', Lt), (ch CHR ''>'', Gt),
      (ch CHR ''-'', Minus), (ch CHR ''&'', And), (ch CHR ''|'', Or), (ch CHR ''+'', Plus),
      (ch CHR ''*'', Star), (ch CHR ''^'', Caret), (ch CHR ''%'', Percent)]"

text \<open>The \<open>match first_char\<close> of \<open>advance_token\<close>, its arms in the source's order.\<close>

definition lex_first_char :: "unicode_tables \<Rightarrow> uchar \<Rightarrow> cursor \<Rightarrow> token_kind \<times> cursor" where
  "lex_first_char u first_char c =
     (if first_char = ch CHR ''/'' then
        (if first c = ch CHR ''/'' then line_comment c
         else if first c = ch CHR ''*'' then block_comment c
         else (Slash, c))
      else if is_whitespace first_char then whitespace c
      else if first_char = ch CHR ''r'' then
        (if first c = ch CHR ''#'' \<and> is_id_start u (second c) then raw_ident u c
         else if first c = ch CHR ''#'' \<or> first c = dquote then
           (let (res, c1) = raw_double_quoted_string 1 c;
                suffix_start = pos_within_token c1;
                c2 = (if result_is_ok res then eat_literal_suffix u c1 else c1)
            in (Literal (RawStr (result_ok res)) suffix_start, c2))
         else ident_or_unknown_prefix u c)
      else if first_char = ch CHR ''b'' then
        c_or_byte_string u ByteStr RawByteStr (Some Byte) c
      else if first_char = ch CHR ''c'' then
        c_or_byte_string u CStr RawCStr None c
      else if is_id_start u first_char then ident_or_unknown_prefix u c
      else if ch CHR ''0'' \<le> first_char \<and> first_char \<le> ch CHR ''9'' then
        (let (literal_kind, c1) = number u first_char c;
             suffix_start = pos_within_token c1;
             c2 = eat_literal_suffix u c1
         in (Literal literal_kind suffix_start, c2))
      else if map_of one_symbol_tokens first_char \<noteq> None then
        (the (map_of one_symbol_tokens first_char), c)
      else if first_char = squote then lifetime_or_char u c
      else if first_char = dquote then
        (let (terminated, c1) = double_quoted_string c;
             suffix_start = pos_within_token c1;
             c2 = (if terminated then eat_literal_suffix u c1 else c1)
         in (Literal (Str terminated) suffix_start, c2))
      else if \<not> is_ascii_char first_char \<and> is_emoji_char u first_char then
        fake_ident_or_unknown_prefix u c
      else (Unknown, c))"

definition advance_token :: "unicode_tables \<Rightarrow> cursor \<Rightarrow> token \<times> cursor" where
  "advance_token u c0 =
     (case bump c0 of
        (None, c1) \<Rightarrow> (\<lparr>kind = Eof, len = 0\<rparr>, c1)
      | (Some first_char, c1) \<Rightarrow>
          (let (token_kind, c2) = lex_first_char u first_char c1
           in (\<lparr>kind = token_kind, len = pos_within_token c2\<rparr>, reset_pos_within_token c2)))"

end
