(* ===== verification/Lexer_Tokenize.thy ===== *)
theory Lexer_Tokenize
  imports Lexer
begin

text \<open>
  Every method of the lexer keeps one contract, the locale \<open>sub_lexer\<close>: it only moves
  the cursor forward, and under its precondition (what the calling arm of
  \<open>advance_token\<close> has established) none of its debug assertions fails. Each method
  of \<open>Lexer\<close> is an interpretation. From the contract of the arms follow the progress
  of \<open>advance_token\<close> and the termination of \<open>tokenize\<close>, which is defined here
  with the entry points \<open>strip_shebang\<close> and \<open>validate_raw_str\<close>.
\<close>

subsection \<open>The contract of a lexing method\<close>

locale sub_lexer =
  fixes lex :: "cursor \<Rightarrow> 'a \<times> cursor"
    and pre :: "cursor \<Rightarrow> bool"
  assumes moves: "adv c (snd (lex c))"
    and asserts: "pre c \<Longrightarrow> asserts_ok (snd (lex c)) = asserts_ok c"
begin

lemma moves_from: "adv c d \<Longrightarrow> adv c (snd (lex d))"
  using moves adv_trans by blast

lemma shrinks: "length (chars (snd (lex c))) \<le> length (chars c)"
  by (rule adv_length [OF moves])

lemma keeps_cursor_ok: "cursor_ok c \<Longrightarrow> cursor_ok (snd (lex c))"
  by (rule cursor_ok_adv [OF _ moves])

end

lemma adv_bump_from [adv_intros]: "adv c d \<Longrightarrow> adv c (bump_ign d)"
  using adv_bump_ign adv_trans by blast

lemma adv_eat_while_from [adv_intros]: "adv c d \<Longrightarrow> adv c (eat_while p d)"
  using adv_eat_while adv_trans by blast

lemma adv_debug_assert_from [adv_intros]: "adv c d \<Longrightarrow> adv c (debug_assert b d)"
  using adv_debug_assert adv_trans by blast

lemma adv_if [adv_intros]: "adv c d \<Longrightarrow> adv c e \<Longrightarrow> adv c (if b then d else e)"
  by simp

lemma prev_bump_nonzero: "first c = x \<Longrightarrow> 0 < x \<Longrightarrow> prev (bump_ign c) = x"
  by (metis EOF_CHAR_def first_nonzero_not_eof less_irrefl prev_bump_ign)

lemma bump_fst_Some: "fst (bump c) = Some x \<Longrightarrow> prev (bump_ign c) = x"
  by (cases "chars c") simp_all

subsection \<open>The loops\<close>

interpretation hashes: sub_lexer "eat_hashes n" "\<lambda>_. True" for n
proof unfold_locales
  fix c
  show "adv c (snd (eat_hashes n c))" by simp
  show "asserts_ok (snd (eat_hashes n c)) = asserts_ok c"
  proof (induction n c rule: eat_hashes.induct)
    case (1 n c)
    then show ?case by (subst eat_hashes.simps) simp
  qed
qed

interpretation end_hashes: sub_lexer "eat_end_hashes m n" "\<lambda>_. True" for m n
proof unfold_locales
  fix c
  show "adv c (snd (eat_end_hashes m n c))" by simp
  show "asserts_ok (snd (eat_end_hashes m n c)) = asserts_ok c"
  proof (induction m n c rule: eat_end_hashes.induct)
    case (1 m n c)
    then show ?case by (subst eat_end_hashes.simps) simp
  qed
qed

interpretation dec_loop: sub_lexer "eat_decimal_digits_loop b" "\<lambda>_. True" for b
proof unfold_locales
  fix c
  show "adv c (snd (eat_decimal_digits_loop b c))"
  proof (induction b c rule: eat_decimal_digits_loop.induct)
    case (1 b c)
    then show ?case
      by (subst eat_decimal_digits_loop.simps) (auto intro: adv_trans [OF adv_bump_ign])
  qed
  show "asserts_ok (snd (eat_decimal_digits_loop b c)) = asserts_ok c"
  proof (induction b c rule: eat_decimal_digits_loop.induct)
    case (1 b c)
    then show ?case by (subst eat_decimal_digits_loop.simps) simp
  qed
qed

interpretation hex_loop: sub_lexer "eat_hexadecimal_digits_loop b" "\<lambda>_. True" for b
proof unfold_locales
  fix c
  show "adv c (snd (eat_hexadecimal_digits_loop b c))"
  proof (induction b c rule: eat_hexadecimal_digits_loop.induct)
    case (1 b c)
    then show ?case
      by (subst eat_hexadecimal_digits_loop.simps) (auto intro: adv_trans [OF adv_bump_ign])
  qed
  show "asserts_ok (snd (eat_hexadecimal_digits_loop b c)) = asserts_ok c"
  proof (induction b c rule: eat_hexadecimal_digits_loop.induct)
    case (1 b c)
    then show ?case by (subst eat_hexadecimal_digits_loop.simps) simp
  qed
qed

lemma bump_result: "bump c = (r, c') \<Longrightarrow> adv c c' \<and> asserts_ok c' = asserts_ok c"
  by (metis adv_bump_ign asserts_ok_bump_ign snd_conv)

interpretation comment_loop: sub_lexer "block_comment_loop d" "\<lambda>_. True" for d
proof unfold_locales
  fix c
  have "adv c (snd (block_comment_loop d c)) \<and> asserts_ok (snd (block_comment_loop d c)) = asserts_ok c"
  proof (induction d c rule: block_comment_loop.induct)
    case (1 d c)
    obtain r c1 where b: "bump c = (r, c1)" by (cases "bump c")
    show ?case
    proof (cases r)
      case None
      then show ?thesis using b bump_result [OF b] by (subst (1 2) block_comment_loop.simps) simp
    next
      case (Some x)
      note IH = 1 [OF b [symmetric] Some]
      show ?thesis
        using b Some bump_result [OF b] IH
        by (subst (1 2) block_comment_loop.simps) (auto intro: adv_trans adv_intros)
    qed
  qed
  then show "adv c (snd (block_comment_loop d c))"
    and "asserts_ok (snd (block_comment_loop d c)) = asserts_ok c" by simp_all
qed

interpretation single_loop: sub_lexer single_quoted_loop "\<lambda>_. True"
proof unfold_locales
  fix c
  have "adv c (snd (single_quoted_loop c)) \<and> asserts_ok (snd (single_quoted_loop c)) = asserts_ok c"
  proof (induction c rule: single_quoted_loop.induct)
    case (1 c)
    then show ?case
      by (subst (1 2) single_quoted_loop.simps)
        (auto intro: adv_trans [OF adv_bump_ign] adv_trans [OF adv_trans [OF adv_bump_ign adv_bump_ign]])
  qed
  then show "adv c (snd (single_quoted_loop c))"
    and "asserts_ok (snd (single_quoted_loop c)) = asserts_ok c" by simp_all
qed

interpretation double_loop: sub_lexer double_quoted_loop "\<lambda>_. True"
proof unfold_locales
  fix c
  have "adv c (snd (double_quoted_loop c)) \<and> asserts_ok (snd (double_quoted_loop c)) = asserts_ok c"
  proof (induction c rule: double_quoted_loop.induct)
    case (1 c)
    obtain r c1 where b: "bump c = (r, c1)" by (cases "bump c")
    show ?case
    proof (cases r)
      case None
      then show ?thesis using b bump_result [OF b] by (subst (1 2) double_quoted_loop.simps) simp
    next
      case (Some x)
      note IH = 1 [OF b [symmetric] Some]
      show ?thesis
        using b Some bump_result [OF b] IH
        by (subst (1 2) double_quoted_loop.simps) (auto intro: adv_trans adv_intros)
    qed
  qed
  then show "adv c (snd (double_quoted_loop c))"
    and "asserts_ok (snd (double_quoted_loop c)) = asserts_ok c" by simp_all
qed

lemmas loop_moves [adv_intros] =
  hashes.moves_from end_hashes.moves_from dec_loop.moves_from hex_loop.moves_from
  comment_loop.moves_from single_loop.moves_from double_loop.moves_from

lemmas loop_asserts [simp] =
  hashes.asserts [OF TrueI] end_hashes.asserts [OF TrueI] dec_loop.asserts [OF TrueI]
  hex_loop.asserts [OF TrueI] comment_loop.asserts [OF TrueI] single_loop.asserts [OF TrueI]
  double_loop.asserts [OF TrueI]

interpretation raw_loop: sub_lexer "raw_string_loop p s n po m" "\<lambda>_. True" for p s n po m
proof unfold_locales
  fix c
  have "adv c (snd (raw_string_loop p s n po m c))
      \<and> asserts_ok (snd (raw_string_loop p s n po m c)) = asserts_ok c"
  proof (induction p s n po m c rule: raw_string_loop.induct)
    case (1 p s n po m c)
    let ?c1 = "eat_while (\<lambda>x. x \<noteq> dquote) c"
    let ?c3 = "snd (eat_end_hashes n 0 (bump_ign ?c1))"
    have c3: "adv c ?c3" "asserts_ok ?c3 = asserts_ok c" by (auto intro!: adv_intros)
    show ?case
    proof (cases "is_eof ?c1")
      case True
      then show ?thesis by (subst (1 2) raw_string_loop.simps) simp
    next
      case False
      note IH = 1(1,2) [OF refl False refl refl]
      show ?thesis
        using False c3 IH
        by (subst (1 2) raw_string_loop.simps) (auto simp: Let_def intro: adv_trans [OF c3(1)])
    qed
  qed
  then show "adv c (snd (raw_string_loop p s n po m c))"
    and "asserts_ok (snd (raw_string_loop p s n po m c)) = asserts_ok c" by simp_all
qed

subsection \<open>The methods\<close>

interpretation decimal_digits: sub_lexer eat_decimal_digits "\<lambda>_. True"
  by unfold_locales (simp_all add: eat_decimal_digits_def dec_loop.moves)

interpretation hexadecimal_digits: sub_lexer eat_hexadecimal_digits "\<lambda>_. True"
  by unfold_locales (simp_all add: eat_hexadecimal_digits_def hex_loop.moves)

lemmas digit_moves [adv_intros] =
  decimal_digits.moves_from hexadecimal_digits.moves_from raw_loop.moves_from

lemmas digit_asserts [simp] =
  decimal_digits.asserts [OF TrueI] hexadecimal_digits.asserts [OF TrueI] raw_loop.asserts [OF TrueI]

interpretation float_exponent:
  sub_lexer eat_float_exponent "\<lambda>c. prev c = ch CHR ''e'' \<or> prev c = ch CHR ''E''"
  by unfold_locales (auto simp: eat_float_exponent_def Let_def intro!: adv_intros)

lemma adv_eat_identifier [adv_intros]: "adv c d \<Longrightarrow> adv c (eat_identifier u d)"
  by (auto simp: eat_identifier_def intro!: adv_intros)

lemma adv_eat_literal_suffix [adv_intros]: "adv c d \<Longrightarrow> adv c (eat_literal_suffix u d)"
  by (simp add: eat_literal_suffix_def adv_eat_identifier)

lemma asserts_eat_identifier [simp, assert_simps]:
  "asserts_ok (eat_identifier u c) = asserts_ok c"
  "asserts_ok (eat_literal_suffix u c) = asserts_ok c"
  by (simp_all add: eat_identifier_def eat_literal_suffix_def)

interpretation line_comment: sub_lexer line_comment
  "\<lambda>c. prev c = ch CHR ''/'' \<and> first c = ch CHR ''/''"
  by unfold_locales (auto simp: line_comment_def Let_def intro!: adv_intros)

interpretation block_comment: sub_lexer block_comment
  "\<lambda>c. prev c = ch CHR ''/'' \<and> first c = ch CHR ''*''"
  by unfold_locales (auto simp: block_comment_def Let_def case_prod_unfold intro!: adv_intros)

interpretation whitespace: sub_lexer whitespace "\<lambda>c. is_whitespace (prev c)"
  by unfold_locales (auto simp: whitespace_def Let_def intro!: adv_intros)

interpretation raw_ident: sub_lexer "raw_ident u"
  "\<lambda>c. prev c = ch CHR ''r'' \<and> first c = ch CHR ''#'' \<and> is_id_start u (second c)" for u
  by unfold_locales (auto simp: raw_ident_def Let_def intro!: adv_intros)

interpretation fake_ident: sub_lexer "fake_ident_or_unknown_prefix u" "\<lambda>_. True" for u
  by unfold_locales (auto simp: fake_ident_or_unknown_prefix_def Let_def intro!: adv_intros)

interpretation ident: sub_lexer "ident_or_unknown_prefix u" "\<lambda>c. is_id_start u (prev c)" for u
  by unfold_locales
    (auto simp: ident_or_unknown_prefix_def Let_def fake_ident.asserts
      intro!: adv_intros fake_ident.moves_from)

interpretation single_quoted: sub_lexer single_quoted_string "\<lambda>c. prev c = squote"
  by unfold_locales (auto simp: single_quoted_string_def Let_def intro!: adv_intros)

interpretation double_quoted: sub_lexer double_quoted_string "\<lambda>c. prev c = dquote"
  by unfold_locales (auto simp: double_quoted_string_def Let_def intro!: adv_intros)

interpretation raw_unvalidated: sub_lexer "raw_string_unvalidated p" "\<lambda>c. prev c = ch CHR ''r''" for p
  by unfold_locales
    (auto simp: raw_string_unvalidated_def Let_def case_prod_unfold intro!: adv_intros)

lemma snd_raw_double_quoted_string:
  "snd (raw_double_quoted_string p c) = snd (raw_string_unvalidated p c)"
  by (auto simp: raw_double_quoted_string_def split: prod.splits sum.splits)

interpretation raw_double_quoted: sub_lexer "raw_double_quoted_string p" "\<lambda>c. prev c = ch CHR ''r''" for p
  by unfold_locales
    (simp_all add: snd_raw_double_quoted_string raw_unvalidated.moves raw_unvalidated.asserts)

interpretation number_tail: sub_lexer "number_tail u b" "\<lambda>_. True" for u b
  by unfold_locales
    (auto simp: number_tail_def Let_def case_prod_unfold prev_bump_nonzero float_exponent.asserts
      intro!: adv_intros float_exponent.moves_from)

interpretation number: sub_lexer "number u d" "\<lambda>c. ch CHR ''0'' \<le> prev c \<and> prev c \<le> ch CHR ''9''"
  for u d
  by unfold_locales
    (auto simp: number_def Let_def case_prod_unfold number_tail.asserts
      intro!: adv_intros number_tail.moves_from)

lemmas method_moves [adv_intros] =
  line_comment.moves_from block_comment.moves_from whitespace.moves_from raw_ident.moves_from
  fake_ident.moves_from ident.moves_from single_quoted.moves_from double_quoted.moves_from
  raw_double_quoted.moves_from number.moves_from

lemmas method_asserts =
  line_comment.asserts block_comment.asserts whitespace.asserts raw_ident.asserts
  fake_ident.asserts ident.asserts single_quoted.asserts double_quoted.asserts
  raw_double_quoted.asserts number.asserts

interpretation lifetime_or_char: sub_lexer "lifetime_or_char u" "\<lambda>c. prev c = squote" for u
  by unfold_locales
    (auto simp: lifetime_or_char_def Let_def case_prod_unfold single_quoted.asserts intro!: adv_intros)

interpretation c_or_byte: sub_lexer "c_or_byte_string u k kr sq" "\<lambda>c. is_id_start u (prev c)" for u k kr sq
  by unfold_locales
    (auto simp: c_or_byte_string_def Let_def case_prod_unfold method_asserts prev_bump_nonzero
      intro!: adv_intros)

subsection \<open>One token\<close>

text \<open>
  What the lexer's assertions rely on in the Unicode tables: on ASCII, \<open>XID_Start\<close> is
  the letters and \<open>XID_Continue\<close> is the letters, the digits and the underscore.
\<close>

definition is_ascii_letter :: "uchar \<Rightarrow> bool" where
  "is_ascii_letter c \<longleftrightarrow>
     ch CHR ''a'' \<le> c \<and> c \<le> ch CHR ''z'' \<or> ch CHR ''A'' \<le> c \<and> c \<le> ch CHR ''Z''"

definition ascii_tables :: "unicode_tables \<Rightarrow> bool" where
  "ascii_tables u \<longleftrightarrow> (\<forall>c < 128.
     is_xid_start u c = is_ascii_letter c \<and>
     is_xid_continue u c = (is_ascii_letter c \<or> is_digit10 c \<or> c = ch CHR ''_''))"

lemma ascii_tables_id_start:
  "ascii_tables u \<Longrightarrow> c < 128 \<Longrightarrow> is_id_start u c \<longleftrightarrow> is_ascii_letter c \<or> c = ch CHR ''_''"
  by (auto simp: ascii_tables_def is_id_start_def)

lemma ascii_tables_id_continue:
  "ascii_tables u \<Longrightarrow> c < 128 \<Longrightarrow>
     is_id_continue u c \<longleftrightarrow> is_ascii_letter c \<or> is_digit10 c \<or> c = ch CHR ''_''"
  by (simp add: ascii_tables_def is_id_continue_def)

lemma map_of_one_symbol_tokens:
  "map_of one_symbol_tokens x = Some k \<Longrightarrow> k \<noteq> Eof \<and> (\<forall>l n. k \<noteq> Literal l n)"
  by (drule map_of_SomeD) (auto simp: one_symbol_tokens_def)

interpretation lex_first: sub_lexer "lex_first_char u x" "\<lambda>c. ascii_tables u \<and> prev c = x" for u x
proof unfold_locales
  fix c :: cursor
  show "adv c (snd (lex_first_char u x c))"
    by (auto simp: lex_first_char_def Let_def case_prod_unfold
      intro!: adv_intros lifetime_or_char.moves c_or_byte.moves)
next
  fix c :: cursor
  assume pre: "ascii_tables u \<and> prev c = x"
  then have rbc: "is_id_start u 114" "is_id_start u 98" "is_id_start u 99"
    by (auto simp: ascii_tables_id_start is_ascii_letter_def)
  then show "asserts_ok (snd (lex_first_char u x c)) = asserts_ok c"
    using pre
    by (auto simp: lex_first_char_def Let_def case_prod_unfold method_asserts
      lifetime_or_char.asserts c_or_byte.asserts)
qed

lemma ident_kind: "fst (ident_or_unknown_prefix u c) \<in> {Ident, UnknownPrefix, InvalidIdent}"
  by (simp add: ident_or_unknown_prefix_def fake_ident_or_unknown_prefix_def Let_def)

lemma method_not_Eof:
  "fst (line_comment c) \<noteq> Eof" "fst (block_comment c) \<noteq> Eof" "fst (whitespace c) \<noteq> Eof"
  "fst (raw_ident u c) \<noteq> Eof" "fst (ident_or_unknown_prefix u c) \<noteq> Eof"
  "fst (fake_ident_or_unknown_prefix u c) \<noteq> Eof" "fst (lifetime_or_char u c) \<noteq> Eof"
  using ident_kind [of u c]
  by (auto simp: line_comment_def block_comment_def whitespace_def raw_ident_def
    fake_ident_or_unknown_prefix_def lifetime_or_char_def Let_def case_prod_unfold)

lemma c_or_byte_string_not_Eof: "fst (c_or_byte_string u k kr sq c) \<noteq> Eof"
  by (simp add: c_or_byte_string_def Let_def case_prod_unfold method_not_Eof)

lemma lex_first_char_not_Eof: "fst (lex_first_char u x c) \<noteq> Eof"
proof (cases "map_of one_symbol_tokens x")
  case None
  then show ?thesis
    by (simp add: lex_first_char_def Let_def case_prod_unfold method_not_Eof c_or_byte_string_not_Eof)
next
  case (Some k)
  then have "k \<noteq> Eof" by (simp add: map_of_one_symbol_tokens)
  with Some show ?thesis
    by (simp add: lex_first_char_def Let_def case_prod_unfold method_not_Eof c_or_byte_string_not_Eof)
qed

text \<open>
  One call of \<open>advance_token\<close> on a cursor at the start of a token: at the end of the
  input the token is \<open>Eof\<close>; otherwise it covers a non-empty piece \<open>w\<close> of the input,
  its length is that of \<open>w\<close>, and the cursor is at the start of the next token.
\<close>

definition at_token_start :: "cursor \<Rightarrow> bool" where
  "at_token_start c \<longleftrightarrow> len_remaining c = str_len (chars c)"

lemma at_token_start_new [simp]: "at_token_start (new_cursor s)"
  by (simp add: at_token_start_def new_cursor_def)

lemma advance_token_eof: "chars c = [] \<Longrightarrow> advance_token u c = (\<lparr>kind = Eof, len = 0\<rparr>, c)"
  by (simp add: advance_token_def)

lemma advance_token_Cons:
  assumes "chars c = x # xs"
  shows "advance_token u c =
    (let (k, c2) = lex_first_char u x (c\<lparr>chars := xs, prev := x\<rparr>)
     in (\<lparr>kind = k, len = pos_within_token c2\<rparr>, reset_pos_within_token c2))"
  using assms by (simp add: advance_token_def)

lemma advance_token_shrinks:
  assumes "chars c \<noteq> []"
  shows "length (chars (snd (advance_token u c))) < length (chars c)"
proof -
  obtain x xs where eq: "chars c = x # xs" using assms by (cases "chars c") auto
  let ?c1 = "c\<lparr>chars := xs, prev := x\<rparr>"
  have "chars (snd (advance_token u c)) = chars (snd (lex_first_char u x ?c1))"
    by (simp add: advance_token_Cons [OF eq] case_prod_unfold Let_def reset_pos_within_token_def)
  also have "length \<dots> \<le> length (chars ?c1)" by (rule lex_first.shrinks)
  finally show ?thesis by (simp add: eq)
qed

lemma advance_token_Eof_iff: "kind (fst (advance_token u c)) = Eof \<longleftrightarrow> chars c = []"
proof (cases "chars c")
  case (Cons x xs)
  then show ?thesis
    by (simp add: advance_token_Cons case_prod_unfold Let_def lex_first_char_not_Eof)
qed (simp add: advance_token_eof)

lemma advance_token_covers:
  assumes "chars c \<noteq> []" and "at_token_start c"
  obtains w where "w \<noteq> []" and "chars c = w @ chars (snd (advance_token u c))"
    and "len (fst (advance_token u c)) = as_u32 (str_len w)"
    and "at_token_start (snd (advance_token u c))"
proof -
  obtain x xs where eq: "chars c = x # xs" using assms(1) by (cases "chars c") auto
  let ?c1 = "c\<lparr>chars := xs, prev := x\<rparr>"
  let ?c2 = "snd (lex_first_char u x ?c1)"
  have adv: "adv ?c1 ?c2" by (rule lex_first.moves)
  then obtain v where v: "xs = v @ chars ?c2" by (auto simp: adv_def suffix_def)
  have lr: "len_remaining ?c2 = str_len (chars c)"
    using adv assms(2) by (simp add: adv_def at_token_start_def)
  have res: "snd (advance_token u c) = reset_pos_within_token ?c2"
    "len (fst (advance_token u c)) = pos_within_token ?c2"
    by (simp_all add: advance_token_Cons [OF eq] case_prod_unfold Let_def)
  have split: "chars c = (x # v) @ chars ?c2" using eq v by simp
  have "len_remaining ?c2 - str_len (chars ?c2) = str_len (x # v)"
    unfolding lr by (subst split) simp
  with split res show thesis
    by (intro that [of "x # v"])
      (simp_all add: reset_pos_within_token_def pos_within_token_def at_token_start_def)
qed

subsection \<open>The token stream\<close>

function tokenize_from :: "unicode_tables \<Rightarrow> cursor \<Rightarrow> token list" where
  "tokenize_from u c =
     (let token = fst (advance_token u c); c' = snd (advance_token u c)
      in if kind token \<noteq> Eof then token # tokenize_from u c' else [])"
  by pat_completeness auto
termination
  by (relation "measure (\<lambda>(u, c). length (chars c))")
    (auto simp: advance_token_shrinks advance_token_Eof_iff)

declare tokenize_from.simps [simp del]

definition tokenize :: "unicode_tables \<Rightarrow> uchar list \<Rightarrow> token list" where
  "tokenize u input = tokenize_from u (new_cursor input)"

text \<open>
  \<open>str::lines().next().unwrap_or_default()\<close>: the text before the first newline, without
  a carriage return directly before that newline.
\<close>

definition first_line :: "uchar list \<Rightarrow> uchar list" where
  "first_line s =
     (let l = takeWhile (\<lambda>x. x \<noteq> newline) s
      in if length l < length s \<and> l \<noteq> [] \<and> last l = 0x0D then butlast l else l)"

definition is_trivia :: "token_kind \<Rightarrow> bool" where
  "is_trivia k = (case k of
       Whitespace \<Rightarrow> True
     | LineComment None \<Rightarrow> True
     | BlockComment None _ \<Rightarrow> True
     | _ \<Rightarrow> False)"

definition strip_shebang :: "unicode_tables \<Rightarrow> uchar list \<Rightarrow> nat option" where
  "strip_shebang u input = (case input of
       a # b # input_tail \<Rightarrow>
         (if a = ch CHR ''#'' \<and> b = ch CHR ''!'' then
            (let next_non_whitespace_token =
               List.find (\<lambda>k. \<not> is_trivia k) (map kind (tokenize u input_tail))
             in if next_non_whitespace_token \<noteq> Some OpenBracket
                then Some (2 + str_len (first_line input_tail))
                else None)
          else None)
     | _ \<Rightarrow> None)"

text \<open>
  \<open>validate_raw_str\<close>: the outer \<open>None\<close> is the panic of \<open>cursor.bump().unwrap()\<close>
  on a prefix longer than the input, and of the assertion that the input is not empty.
\<close>

fun bump_unwrap_n :: "nat \<Rightarrow> cursor \<Rightarrow> cursor option" where
  "bump_unwrap_n 0 c = Some c"
| "bump_unwrap_n (Suc n) c = (case bump c of (None, _) \<Rightarrow> None | (Some _, c') \<Rightarrow> bump_unwrap_n n c')"

definition validate_raw_str :: "uchar list \<Rightarrow> nat \<Rightarrow> (raw_str_error + unit) option" where
  "validate_raw_str input prefix_len =
     (if input = [] then None
      else case bump_unwrap_n prefix_len (new_cursor input) of
        None \<Rightarrow> None
      | Some c \<Rightarrow> Some (map_sum id (\<lambda>_. ()) (fst (raw_double_quoted_string prefix_len c))))"

end
