(* ===== verification/Lexer_Props.thy ===== *)
theory Lexer_Props
  imports Lexer_Tokenize
begin

text \<open>
  Properties of the token stream: the tokens partition the source text, the debug
  assertions hold on every reachable cursor, literal suffixes lie inside their token, and
  whitespace and identifier tokens are maximal.
\<close>

subsection \<open>A table for the witnesses\<close>

text \<open>The Unicode tables restricted to ASCII, a concrete instance for the witnesses.\<close>

definition ascii_only :: unicode_tables where
  "ascii_only = \<lparr>is_xid_start = is_ascii_letter,
     is_xid_continue = (\<lambda>c. is_ascii_letter c \<or> is_digit10 c \<or> c = ch CHR ''_''),
     is_emoji_char = (\<lambda>c. False)\<rparr>"

lemma ascii_tables_ascii_only [simp]: "ascii_tables ascii_only"
  by (simp add: ascii_tables_def ascii_only_def)

subsection \<open>The stream partitions the source\<close>

lemma tokenize_from_eof: "chars c = [] \<Longrightarrow> tokenize_from u c = []"
  by (subst tokenize_from.simps) (simp add: advance_token_Eof_iff)

lemma tokenize_from_Cons:
  "chars c \<noteq> [] \<Longrightarrow>
     tokenize_from u c = fst (advance_token u c) # tokenize_from u (snd (advance_token u c))"
  by (subst tokenize_from.simps) (simp add: advance_token_Eof_iff Let_def)

lemma tokenize_from_induct [case_names eof more]:
  assumes "\<And>c. chars c = [] \<Longrightarrow> P c"
    and "\<And>c. chars c \<noteq> [] \<Longrightarrow> P (snd (advance_token u c)) \<Longrightarrow> P c"
  shows "P c"
proof (induction "length (chars c)" arbitrary: c rule: less_induct)
  case less
  show ?case
    using assms advance_token_shrinks [of c u] less by (cases "chars c = []") auto
qed

lemma tokenize_from_partition:
  "at_token_start c \<Longrightarrow>
     \<exists>ws. concat ws = chars c \<and>
       list_all2 (\<lambda>w t. w \<noteq> [] \<and> len t = as_u32 (str_len w)) ws (tokenize_from u c)"
proof (induction c rule: tokenize_from_induct [of _ u])
  case (eof c)
  then show ?case by (intro exI [of _ "[]"]) (simp add: tokenize_from_eof)
next
  case (more c)
  obtain w where w: "w \<noteq> []" "chars c = w @ chars (snd (advance_token u c))"
    "len (fst (advance_token u c)) = as_u32 (str_len w)" "at_token_start (snd (advance_token u c))"
    using advance_token_covers [OF more.hyps more.prems] by blast
  obtain ws where ws: "concat ws = chars (snd (advance_token u c))"
    "list_all2 (\<lambda>w t. w \<noteq> [] \<and> len t = as_u32 (str_len w)) ws (tokenize_from u (snd (advance_token u c)))"
    using more.IH [OF w(4)] by blast
  show ?case
  proof (intro exI [of _ "w # ws"] conjI)
    show "concat (w # ws) = chars c" using w(2) ws(1) by simp
  qed (use w ws in \<open>simp add: tokenize_from_Cons [OF more.hyps]\<close>)
qed

text \<open>
  C1: the tokens of \<open>tokenize\<close> cover the source text exactly. The text splits into
  non-empty pieces, one per token and in order, whose concatenation is the text, and the
  \<open>len\<close> of each token is the byte length of its piece, for every text that is shorter
  than \<open>2 ^ 32\<close> bytes (the limit of \<open>Token::len\<close>).
\<close>

theorem tokenize_partition:
  assumes "str_len input < 2 ^ 32"
  shows "\<exists>ws. concat ws = input \<and>
    list_all2 (\<lambda>w t. w \<noteq> [] \<and> len t = str_len w) ws (tokenize u input)"
proof -
  obtain ws where ws: "concat ws = input"
    "list_all2 (\<lambda>w t. w \<noteq> [] \<and> len t = as_u32 (str_len w)) ws (tokenize u input)"
    using tokenize_from_partition [of "new_cursor input" u]
    by (auto simp: tokenize_def)
  have "str_len w \<le> str_len (concat ws)" if "w \<in> set ws" for w
    using that by (auto simp: str_len_concat intro: member_le_sum_list)
  with ws assms have "\<forall>w \<in> set ws. as_u32 (str_len w) = str_len w"
    by (metis as_u32_id le_less_trans)
  then have "list_all2 (\<lambda>w t. w \<noteq> [] \<and> len t = str_len w) ws (tokenize u input)"
    using ws(2) by (auto simp: list_all2_conv_all_nth)
  with ws(1) show ?thesis by blast
qed

theorem tokenize_partition_witness:
  "str_len (str ''a = 5g;'') < 2 ^ 32 \<and>
   map len (tokenize ascii_only (str ''a = 5g;'')) = [1, 1, 1, 1, 2, 1] \<and>
   (\<exists>ws. concat ws = str ''a = 5g;'' \<and>
      list_all2 (\<lambda>w t. w \<noteq> [] \<and> len t = str_len w) ws (tokenize ascii_only (str ''a = 5g;'')))"
proof (intro conjI)
  show small: "str_len (str ''a = 5g;'') < 2 ^ 32" by code_simp
  show "map len (tokenize ascii_only (str ''a = 5g;'')) = [1, 1, 1, 1, 2, 1]" by code_simp
  show "\<exists>ws. concat ws = str ''a = 5g;'' \<and>
      list_all2 (\<lambda>w t. w \<noteq> [] \<and> len t = str_len w) ws (tokenize ascii_only (str ''a = 5g;''))"
    by (rule tokenize_partition [OF small])
qed

subsection \<open>Reachable cursors\<close>

text \<open>The cursors \<open>tokenize\<close> goes through on a source text.\<close>

inductive lexer_reach :: "unicode_tables \<Rightarrow> uchar list \<Rightarrow> cursor \<Rightarrow> bool"
  for u :: unicode_tables and input :: "uchar list" where
  start: "lexer_reach u input (new_cursor input)"
| token: "lexer_reach u input c \<Longrightarrow> lexer_reach u input (snd (advance_token u c))"

lemma advance_token_at_token_start: "at_token_start c \<Longrightarrow> at_token_start (snd (advance_token u c))"
  by (cases "chars c = []") (auto simp: advance_token_eof elim: advance_token_covers)

lemma advance_token_asserts:
  assumes "ascii_tables u"
  shows "asserts_ok (snd (advance_token u c)) = asserts_ok c"
proof (cases "chars c")
  case (Cons x xs)
  then show ?thesis
    using assms lex_first.asserts [of u "c\<lparr>chars := xs, prev := x\<rparr>" x]
    by (simp add: advance_token_Cons case_prod_unfold Let_def reset_pos_within_token_def)
qed (simp add: advance_token_eof)

text \<open>
  C2: no \<open>debug_assert!\<close> of the lexer can fail. On every cursor \<open>tokenize\<close> goes
  through, all assertions so far have passed and the cursor stands at the start of a token
  (so that the subtraction of \<open>pos_within_token\<close> starts from the exact byte count),
  given tables that agree with Unicode on ASCII.
\<close>

theorem lexer_assertions_hold:
  assumes "ascii_tables u" and "lexer_reach u input c"
  shows "asserts_ok c \<and> at_token_start c"
  using assms(2)
proof (induction rule: lexer_reach.induct)
  case start
  show ?case by (simp add: new_cursor_def at_token_start_def)
next
  case (token c)
  then show ?case by (simp add: advance_token_asserts [OF assms(1)] advance_token_at_token_start)
qed

theorem lexer_assertions_hold_witness:
  "lexer_reach ascii_only (str ''1.5e3'') (snd (advance_token ascii_only (new_cursor (str ''1.5e3'')))) \<and>
   asserts_ok (snd (advance_token ascii_only (new_cursor (str ''1.5e3'')))) \<and>
   chars (snd (advance_token ascii_only (new_cursor (str ''1.5e3'')))) = []"
proof (intro conjI)
  show r: "lexer_reach ascii_only (str ''1.5e3'')
      (snd (advance_token ascii_only (new_cursor (str ''1.5e3''))))"
    by (intro lexer_reach.intros)
  show "asserts_ok (snd (advance_token ascii_only (new_cursor (str ''1.5e3''))))"
    using lexer_assertions_hold [OF ascii_tables_ascii_only r] by simp
  show "chars (snd (advance_token ascii_only (new_cursor (str ''1.5e3'')))) = []" by code_simp
qed

subsection \<open>Literal suffixes\<close>

text \<open>
  \<open>lit_spec c r\<close>: if the result \<open>r\<close> of lexing from \<open>c\<close> is a literal, its suffix
  starts at a cursor between \<open>c\<close> and the end of the token.
\<close>

definition lit_spec :: "cursor \<Rightarrow> token_kind \<times> cursor \<Rightarrow> bool" where
  "lit_spec c r \<longleftrightarrow> (\<forall>k s. fst r = Literal k s \<longrightarrow>
     (\<exists>c1. adv c c1 \<and> adv c1 (snd r) \<and> s = pos_within_token c1))"

lemma lit_specI:
  "adv c d \<Longrightarrow> lit_spec c (Literal k (pos_within_token d), if b then eat_literal_suffix u d else d)"
  "adv c d \<Longrightarrow> lit_spec c (Literal k (pos_within_token d), eat_literal_suffix u d)"
  "adv c d \<Longrightarrow> lit_spec c (Literal k (pos_within_token d), d)"
  by (auto simp: lit_spec_def intro: adv_eat_literal_suffix)

lemma lit_spec_if: "lit_spec c r \<Longrightarrow> lit_spec c r' \<Longrightarrow> lit_spec c (if b then r else r')"
  by simp

lemma lit_spec_other: "(\<And>k s. fst r \<noteq> Literal k s) \<Longrightarrow> lit_spec c r"
  by (simp add: lit_spec_def)

lemma lit_spec_methods:
  "lit_spec c (line_comment c)" "lit_spec c (block_comment c)" "lit_spec c (whitespace c)"
  "lit_spec c (raw_ident u c)" "lit_spec c (fake_ident_or_unknown_prefix u c)"
  by (rule lit_spec_other, simp add: line_comment_def block_comment_def whitespace_def
    raw_ident_def fake_ident_or_unknown_prefix_def Let_def case_prod_unfold)+

lemma lit_spec_ident: "lit_spec c (ident_or_unknown_prefix u c)"
  using ident_kind [of u c] by (intro lit_spec_other) auto

lemma lit_spec_lifetime_or_char: "lit_spec c (lifetime_or_char u c)"
  unfolding lifetime_or_char_def Let_def case_prod_unfold
  by (intro lit_spec_if lit_specI adv_intros adv_refl lit_spec_other) simp

lemma lit_spec_c_or_byte_string: "lit_spec c (c_or_byte_string u k kr sq c)"
  unfolding c_or_byte_string_def Let_def case_prod_unfold
  by (intro lit_spec_if lit_specI adv_intros adv_refl lit_spec_ident)

lemma lit_spec_one_symbol:
  "lit_spec c r \<Longrightarrow>
     lit_spec c (if map_of one_symbol_tokens x \<noteq> None then (the (map_of one_symbol_tokens x), c) else r)"
  by (auto simp: map_of_one_symbol_tokens intro!: lit_spec_other)

lemma lit_spec_lex_first_char: "lit_spec c (lex_first_char u x c)"
  unfolding lex_first_char_def Let_def case_prod_unfold
  by (intro lit_spec_one_symbol lit_spec_methods lit_spec_ident lit_spec_lifetime_or_char
    lit_spec_c_or_byte_string lit_spec_if lit_specI adv_intros adv_refl)
    (simp_all add: lit_spec_other)

lemma advance_token_suffix:
  assumes "kind (fst (advance_token u c)) = Literal k s"
    and "at_token_start c" and "str_len (chars c) < 2 ^ 32"
  shows "s \<le> len (fst (advance_token u c))"
proof -
  obtain x xs where eq: "chars c = x # xs"
    using assms(1) by (cases "chars c") (auto simp: advance_token_eof)
  let ?c1 = "c\<lparr>chars := xs, prev := x\<rparr>"
  let ?r = "lex_first_char u x ?c1"
  have r: "fst ?r = Literal k s" "len (fst (advance_token u c)) = pos_within_token (snd ?r)"
    using assms(1) by (simp_all add: advance_token_Cons [OF eq] case_prod_unfold Let_def)
  then obtain d where d: "adv ?c1 d" "adv d (snd ?r)" "s = pos_within_token d"
    using lit_spec_lex_first_char [of ?c1 u x] by (auto simp: lit_spec_def)
  have "len_remaining d - str_len (chars d) \<le> len_remaining (snd ?r) - str_len (chars (snd ?r))"
    using adv_str_len [OF d(2)] adv_len_remaining [OF d(2)] by simp
  moreover have "len_remaining d < 2 ^ 32" "len_remaining (snd ?r) < 2 ^ 32"
    using adv_len_remaining [OF d(1)] adv_len_remaining [OF d(2)] assms(2,3)
    by (simp_all add: at_token_start_def)
  ultimately show ?thesis
    unfolding r(2) d(3) pos_within_token_def by (simp add: less_imp_diff_less)
qed

lemma tokenize_from_suffix:
  "at_token_start c \<Longrightarrow> str_len (chars c) < 2 ^ 32 \<Longrightarrow> t \<in> set (tokenize_from u c) \<Longrightarrow>
     kind t = Literal k s \<Longrightarrow> s \<le> len t"
proof (induction c rule: tokenize_from_induct [of _ u])
  case (eof c)
  then show ?case by (simp add: tokenize_from_eof)
next
  case (more c)
  obtain w where w: "chars c = w @ chars (snd (advance_token u c))" "at_token_start (snd (advance_token u c))"
    using advance_token_covers [OF more.hyps more.prems(1)] by metis
  then have "str_len (chars (snd (advance_token u c))) < 2 ^ 32"
    using more.prems(2) by (metis add_lessD1 add.commute str_len_append)
  then show ?case
    using more w(2) advance_token_suffix [of u c k s] by (auto simp: tokenize_from_Cons)
qed

text \<open>
  The suffix of a literal token lies inside the token: \<open>suffix_start\<close> never
  exceeds the token's length, so slicing the token's text at \<open>suffix_start\<close> is in
  range.
\<close>

theorem literal_suffix_in_token:
  assumes "str_len input < 2 ^ 32" and "t \<in> set (tokenize u input)" and "kind t = Literal k s"
  shows "s \<le> len t"
  using tokenize_from_suffix [of "new_cursor input" t u k s] assms by (simp add: tokenize_def)

theorem literal_suffix_in_token_witness:
  "tokenize ascii_only (str ''17u8'') = [\<lparr>kind = Literal (IntLit Decimal False) 2, len = 4\<rparr>] \<and>
   (2::nat) \<le> len \<lparr>kind = Literal (IntLit Decimal False) 2, len = 4\<rparr>"
proof (intro conjI)
  show tok: "tokenize ascii_only (str ''17u8'') = [\<lparr>kind = Literal (IntLit Decimal False) 2, len = 4\<rparr>]"
    by code_simp
  have small: "str_len (str ''17u8'') < 2 ^ 32" by code_simp
  show "(2::nat) \<le> len \<lparr>kind = Literal (IntLit Decimal False) 2, len = 4\<rparr>"
    by (rule literal_suffix_in_token [OF small, where u = ascii_only]) (simp_all add: tok)
qed

subsection \<open>Whitespace tokens are maximal\<close>

lemma method_not_Whitespace:
  "fst (line_comment c) \<noteq> Whitespace" "fst (block_comment c) \<noteq> Whitespace"
  "fst (raw_ident u c) \<noteq> Whitespace" "fst (ident_or_unknown_prefix u c) \<noteq> Whitespace"
  "fst (fake_ident_or_unknown_prefix u c) \<noteq> Whitespace" "fst (lifetime_or_char u c) \<noteq> Whitespace"
  using ident_kind [of u c]
  by (auto simp: line_comment_def block_comment_def raw_ident_def
    fake_ident_or_unknown_prefix_def lifetime_or_char_def Let_def case_prod_unfold)

lemma c_or_byte_string_not_Whitespace: "fst (c_or_byte_string u k kr sq c) \<noteq> Whitespace"
  by (simp add: c_or_byte_string_def Let_def case_prod_unfold method_not_Whitespace)

lemma map_of_one_symbol_not_Whitespace: "map_of one_symbol_tokens x = Some k \<Longrightarrow> k \<noteq> Whitespace"
  by (drule map_of_SomeD) (auto simp: one_symbol_tokens_def)

lemma lex_first_char_Whitespace_iff:
  "fst (lex_first_char u x c) = Whitespace \<longleftrightarrow> is_whitespace x"
proof (cases "is_whitespace x")
  case True
  then have "x \<noteq> 47" by (auto simp: is_whitespace_def)
  with True show ?thesis by (simp add: lex_first_char_def whitespace_def Let_def)
next
  case False
  then show ?thesis
    using map_of_one_symbol_not_Whitespace [of x]
    by (cases "map_of one_symbol_tokens x")
      (simp_all add: lex_first_char_def Let_def case_prod_unfold method_not_Whitespace
        c_or_byte_string_not_Whitespace)
qed

lemma chars_lex_first_whitespace:
  assumes "is_whitespace x"
  shows "chars (snd (lex_first_char u x c)) = dropWhile is_whitespace (chars c)"
proof -
  have "x \<noteq> 47" using assms by (auto simp: is_whitespace_def)
  with assms show ?thesis by (simp add: lex_first_char_def whitespace_def Let_def eat_while_chars)
qed

lemma advance_token_Whitespace:
  assumes "kind (fst (advance_token u c)) = Whitespace"
  shows "chars (snd (advance_token u c)) = dropWhile is_whitespace (chars c)"
    and "\<exists>x xs. chars c = x # xs \<and> is_whitespace x"
proof -
  obtain x xs where eq: "chars c = x # xs"
    using assms by (cases "chars c") (auto simp: advance_token_eof)
  then have x: "is_whitespace x"
    using assms by (simp add: advance_token_Cons case_prod_unfold Let_def lex_first_char_Whitespace_iff)
  then show "chars (snd (advance_token u c)) = dropWhile is_whitespace (chars c)"
    using eq by (simp add: advance_token_Cons case_prod_unfold Let_def reset_pos_within_token_def
      chars_lex_first_whitespace)
  show "\<exists>x xs. chars c = x # xs \<and> is_whitespace x" using eq x by blast
qed

lemma tokenize_from_Whitespace:
  "Suc i < length (tokenize_from u c) \<Longrightarrow> kind (tokenize_from u c ! i) = Whitespace \<Longrightarrow>
     kind (tokenize_from u c ! Suc i) \<noteq> Whitespace"
proof (induction c arbitrary: i rule: tokenize_from_induct [of _ u])
  case (eof c)
  then show ?case by (simp add: tokenize_from_eof)
next
  case (more c)
  let ?c' = "snd (advance_token u c)"
  note ts = tokenize_from_Cons [OF more.hyps, of u]
  show ?case
  proof (cases i)
    case (Suc j)
    then show ?thesis using more.IH [of j] more.prems by (simp add: ts)
  next
    case 0
    then have ws: "kind (fst (advance_token u c)) = Whitespace" using more.prems by (simp add: ts)
    have ne: "chars ?c' \<noteq> []" using more.prems 0 by (auto simp: ts tokenize_from_eof)
    have "\<not> is_whitespace (hd (chars ?c'))"
      using ne advance_token_Whitespace(1) [OF ws] by (metis hd_dropWhile)
    then show ?thesis
      using advance_token_Whitespace(2) [of u ?c'] 0 ne by (auto simp: ts tokenize_from_Cons)
  qed
qed

text \<open>
  Whitespace tokens are maximal: a whitespace token is never directly followed by
  another one.
\<close>

theorem whitespace_tokens_maximal:
  assumes "Suc i < length (tokenize u input)" and "kind (tokenize u input ! i) = Whitespace"
  shows "kind (tokenize u input ! Suc i) \<noteq> Whitespace"
  using assms tokenize_from_Whitespace [of i u "new_cursor input"] by (simp add: tokenize_def)

theorem whitespace_tokens_maximal_witness:
  "tokenize ascii_only [0x20, 0x0A, 0x61] = [\<lparr>kind = Whitespace, len = 2\<rparr>, \<lparr>kind = Ident, len = 1\<rparr>] \<and>
   kind (tokenize ascii_only [0x20, 0x0A, 0x61] ! Suc 0) \<noteq> Whitespace"
proof (intro conjI)
  show tok: "tokenize ascii_only [0x20, 0x0A, 0x61] =
      [\<lparr>kind = Whitespace, len = 2\<rparr>, \<lparr>kind = Ident, len = 1\<rparr>]" by code_simp
  show "kind (tokenize ascii_only [0x20, 0x0A, 0x61] ! Suc 0) \<noteq> Whitespace"
    by (rule whitespace_tokens_maximal) (simp_all add: tok)
qed

subsection \<open>Identifiers\<close>

text \<open>
  What the identifier rule relies on in the Unicode tables beside ASCII: every
  \<open>XID_Start\<close> character is \<open>XID_Continue\<close> and no white space.
\<close>

definition ident_tables :: "unicode_tables \<Rightarrow> bool" where
  "ident_tables u \<longleftrightarrow> ascii_tables u \<and>
     (\<forall>c. is_xid_start u c \<longrightarrow> is_xid_continue u c \<and> \<not> is_whitespace c)"

lemma not_id_continue_delims:
  assumes "ascii_tables u"
  shows "\<not> is_id_continue u 0x23" "\<not> is_id_continue u dquote" "\<not> is_id_continue u squote"
  using assms by (auto simp: ascii_tables_id_continue is_ascii_letter_def is_digit10_def)

lemma first_second_id_continue:
  assumes "ascii_tables u" and "list_all (is_id_continue u) (chars c)"
  shows "first c \<noteq> 0x23" "first c \<noteq> dquote" "first c \<noteq> squote"
    "second c \<noteq> 0x23" "second c \<noteq> dquote" "second c \<noteq> squote"
  using assms(2) not_id_continue_delims [OF assms(1)]
  by (auto simp: first_def second_def EOF_CHAR_def split: list.splits)

lemma ident_or_unknown_prefix_ident:
  assumes "list_all (is_id_continue u) (chars c)"
  shows "fst (ident_or_unknown_prefix u c) = Ident" "chars (snd (ident_or_unknown_prefix u c)) = []"
proof -
  have "dropWhile (is_id_continue u) (chars c) = []"
    using assms by (simp add: list_all_iff)
  then have e: "chars (eat_while (is_id_continue u) (debug_assert b c)) = []" for b
    by (simp add: eat_while_chars)
  show "fst (ident_or_unknown_prefix u c) = Ident" "chars (snd (ident_or_unknown_prefix u c)) = []"
    using e by (simp_all add: ident_or_unknown_prefix_def Let_def EOF_CHAR_def is_ascii_char_def)
qed

lemma lex_first_char_ident:
  assumes "ident_tables u" and "is_id_start u x" and "list_all (is_id_continue u) (chars c)"
  shows "lex_first_char u x c = ident_or_unknown_prefix u c"
proof -
  have ascii: "ascii_tables u" using assms(1) by (simp add: ident_tables_def)
  have "x \<noteq> 47"
    using ascii_tables_id_start [OF ascii, of 47] assms(2) by (auto simp: is_ascii_letter_def)
  moreover have "\<not> is_whitespace x"
    using assms(1,2) by (auto simp: ident_tables_def is_id_start_def is_whitespace_def)
  ultimately show ?thesis
    using assms(2) first_second_id_continue [OF ascii assms(3)]
    by (simp add: lex_first_char_def c_or_byte_string_def)
qed

text \<open>
  A string that \<open>is_ident\<close> accepts is lexed as exactly one token, an identifier
  that covers the whole string, given tables that agree with Unicode on ASCII and in which
  an identifier start continues an identifier and is no white space.
\<close>

theorem is_ident_single_token:
  assumes "ident_tables u" and "is_ident u s" and "str_len s < 2 ^ 32"
  shows "tokenize u s = [\<lparr>kind = Ident, len = str_len s\<rparr>]"
proof -
  obtain x xs where s: "s = x # xs" and x: "is_id_start u x" and xs: "list_all (is_id_continue u) xs"
    using assms(2) by (cases s) (auto simp: is_ident_def)
  let ?c1 = "(new_cursor s)\<lparr>chars := xs, prev := x\<rparr>"
  have lex: "lex_first_char u x ?c1 = ident_or_unknown_prefix u ?c1"
    using lex_first_char_ident [OF assms(1) x] xs by simp
  have k: "kind (fst (advance_token u (new_cursor s))) = Ident"
    "chars (snd (advance_token u (new_cursor s))) = []"
    using ident_or_unknown_prefix_ident [of u ?c1] xs lex s
    by (simp_all add: advance_token_Cons case_prod_unfold Let_def reset_pos_within_token_def)
  obtain w where "chars (new_cursor s) = w @ chars (snd (advance_token u (new_cursor s)))"
    "len (fst (advance_token u (new_cursor s))) = as_u32 (str_len w)"
    using advance_token_covers [of "new_cursor s" u] s by auto
  with k assms(3) have "fst (advance_token u (new_cursor s)) = \<lparr>kind = Ident, len = str_len s\<rparr>"
    by (simp add: as_u32_id)
  then show ?thesis
    using k(2) s by (simp add: tokenize_def tokenize_from_Cons tokenize_from_eof)
qed

theorem is_ident_single_token_witness:
  "ident_tables ascii_only \<and> is_ident ascii_only (str ''br_1'') \<and>
   tokenize ascii_only (str ''br_1'') = [\<lparr>kind = Ident, len = 4\<rparr>]"
proof (intro conjI)
  show t: "ident_tables ascii_only"
    by (auto simp: ident_tables_def) (auto simp: ascii_only_def is_ascii_letter_def is_whitespace_def)
  show i: "is_ident ascii_only (str ''br_1'')" by code_simp
  have l: "str_len (str ''br_1'') = 4" by code_simp
  show "tokenize ascii_only (str ''br_1'') = [\<lparr>kind = Ident, len = 4\<rparr>]"
    using is_ident_single_token [OF t i] by (simp add: l)
qed

end
