(* ===== verification/Lexer_Comments.thy ===== *)
theory Lexer_Comments
  imports Lexer_Props
begin

text \<open>
  What the delimited tokens mean: block comments against a grammar of nested comments, raw
  strings against the terminator they stop at, and the extent of a shebang line.
\<close>

subsection \<open>Nested block comments\<close>

text \<open>
  \<open>comment_tail w\<close>: the text \<open>w\<close> closes one open block comment, at its very end. It
  ends with the closing delimiter, and every comment opened inside it is closed inside it.
\<close>

inductive comment_tail :: "uchar list \<Rightarrow> bool" where
  close: "comment_tail [ch CHR ''*'', ch CHR ''/'']"
| nested: "comment_tail a \<Longrightarrow> comment_tail b \<Longrightarrow> comment_tail (ch CHR ''/'' # ch CHR ''*'' # a @ b)"
| other: "comment_tail w \<Longrightarrow> \<not> (x = ch CHR ''/'' \<and> hd w = ch CHR ''*'') \<Longrightarrow>
    \<not> (x = ch CHR ''*'' \<and> hd w = ch CHR ''/'') \<Longrightarrow> comment_tail (x # w)"

lemma comment_tail_nonempty: "comment_tail w \<Longrightarrow> w \<noteq> []"
  by (auto elim: comment_tail.cases)

lemma block_comment_loop_step:
  assumes "chars c = x # xs"
  shows "block_comment_loop depth c =
    (let c1 = c\<lparr>chars := xs, prev := x\<rparr> in
     if x = 47 \<and> first c1 = 42 then block_comment_loop (Suc depth) (bump_ign c1)
     else if x = 42 \<and> first c1 = 47
       then (if depth - 1 = 0 then (0, bump_ign c1) else block_comment_loop (depth - 1) (bump_ign c1))
     else block_comment_loop depth c1)"
  using assms by (subst block_comment_loop.simps) (auto simp: Let_def)

lemma block_comment_loop_eof: "chars c = [] \<Longrightarrow> block_comment_loop depth c = (depth, c)"
  by (subst block_comment_loop.simps) simp

lemma block_comment_loop_complete:
  "comment_tail w \<Longrightarrow> chars c = w @ rest \<Longrightarrow>
     \<exists>c'. chars c' = rest \<and>
       block_comment_loop (Suc d) c = (if d = 0 then (0, c') else block_comment_loop d c')"
proof (induction w arbitrary: c rest d rule: comment_tail.induct)
  case close
  let ?c1 = "c\<lparr>chars := 47 # rest, prev := 42\<rparr>"
  have "chars c = 42 # 47 # rest" using close by simp
  then have "block_comment_loop (Suc d) c =
      (if d = 0 then (0, bump_ign ?c1) else block_comment_loop d (bump_ign ?c1))"
    by (subst block_comment_loop_step) (auto simp: Let_def)
  then show ?case by (intro exI [of _ "bump_ign ?c1"]) simp
next
  case (nested a b)
  let ?c1 = "c\<lparr>chars := 42 # a @ b @ rest, prev := 47\<rparr>"
  have "chars c = 47 # 42 # a @ b @ rest" using nested.prems by simp
  then have step: "block_comment_loop (Suc d) c = block_comment_loop (Suc (Suc d)) (bump_ign ?c1)"
    by (subst block_comment_loop_step) (auto simp: Let_def)
  obtain c2 where c2: "chars c2 = b @ rest"
    "block_comment_loop (Suc (Suc d)) (bump_ign ?c1) = block_comment_loop (Suc d) c2"
    using nested.IH(1) [of "bump_ign ?c1" "b @ rest" "Suc d"] by auto
  show ?case using nested.IH(2) [OF c2(1), of d] step c2(2) by simp
next
  case (other w x)
  let ?c1 = "c\<lparr>chars := w @ rest, prev := x\<rparr>"
  have w: "first ?c1 = hd w"
    using comment_tail_nonempty [OF other.hyps(1)] by (cases w) simp_all
  have "block_comment_loop (Suc d) c = block_comment_loop (Suc d) ?c1"
    using other.hyps(2,3) other.prems w by (subst block_comment_loop_step) (auto simp: Let_def)
  then show ?case using other.IH [of ?c1 rest d] by simp
qed

lemma block_comment_loop_sound:
  "block_comment_loop (Suc d) c = (0, c') \<Longrightarrow>
     \<exists>ws. length ws = Suc d \<and> list_all comment_tail ws \<and> chars c = concat ws @ chars c'"
proof (induction "length (chars c)" arbitrary: d c rule: less_induct)
  case less
  obtain x xs where eq: "chars c = x # xs"
    using less.prems by (cases "chars c") (auto simp: block_comment_loop_eof)
  let ?c1 = "c\<lparr>chars := xs, prev := x\<rparr>"
  note step = less.prems [unfolded block_comment_loop_step [OF eq] Let_def]
  consider (op) "x = 47" "first ?c1 = 42" | (cl) "x = 42" "first ?c1 = 47"
    | (ot) "\<not> (x = 47 \<and> first ?c1 = 42)" "\<not> (x = 42 \<and> first ?c1 = 47)" by blast
  then show ?case
  proof cases
    case op
    obtain ys where ys: "xs = 42 # ys" using op by (cases xs) (auto simp: EOF_CHAR_def)
    have "block_comment_loop (Suc (Suc d)) (bump_ign ?c1) = (0, c')" using step op by simp
    then obtain ws where ws: "length ws = Suc (Suc d)" "list_all comment_tail ws"
      "ys = concat ws @ chars c'"
      using less.hyps [of "bump_ign ?c1" "Suc d"] ys eq by auto
    then obtain a b r where r: "ws = a # b # r" by (auto simp: length_Suc_conv)
    show ?thesis
      by (intro exI [of _ "(47 # 42 # a @ b) # r"])
        (use ws r eq ys op comment_tail.nested [of a b] in simp)
  next
    case cl
    obtain ys where ys: "xs = 47 # ys" using cl by (cases xs) (auto simp: EOF_CHAR_def)
    show ?thesis
    proof (cases d)
      case 0
      then have "c' = bump_ign ?c1" using step cl by simp
      then show ?thesis
        by (intro exI [of _ "[[42, 47]]"]) (use eq ys cl 0 comment_tail.close in simp)
    next
      case (Suc e)
      then have "block_comment_loop (Suc e) (bump_ign ?c1) = (0, c')" using step cl by simp
      then obtain ws where "length ws = Suc e" "list_all comment_tail ws" "ys = concat ws @ chars c'"
        using less.hyps [of "bump_ign ?c1" e] ys eq by auto
      then show ?thesis
        by (intro exI [of _ "[42, 47] # ws"]) (use eq ys cl Suc comment_tail.close in simp)
    qed
  next
    case ot
    then have "block_comment_loop (Suc d) ?c1 = (0, c')" using step by (simp split: if_splits)
    then obtain ws where ws: "length ws = Suc d" "list_all comment_tail ws" "xs = concat ws @ chars c'"
      using less.hyps [of ?c1 d] eq by auto
    then obtain w r where w: "ws = w # r" by (auto simp: length_Suc_conv)
    have "w \<noteq> []" using ws(2) w comment_tail_nonempty by simp
    then have "first ?c1 = hd w" using ws(3) w by (cases w) simp_all
    then have "comment_tail (x # w)" using ot ws(2) w by (simp add: comment_tail.other)
    then show ?thesis by (intro exI [of _ "(x # w) # r"]) (use ws w eq in simp)
  qed
qed

lemma block_comment_loop_open:
  "block_comment_loop (Suc d) c = (Suc e, c') \<Longrightarrow> chars c' = []"
proof (induction "length (chars c)" arbitrary: d c rule: less_induct)
  case less
  show ?case
  proof (cases "chars c")
    case Nil
    then show ?thesis using less.prems by (simp add: block_comment_loop_eof)
  next
    case (Cons x xs)
    let ?c1 = "c\<lparr>chars := xs, prev := x\<rparr>"
    have IH: "block_comment_loop (Suc d') (bump_ign ?c1) = (Suc e, c') \<Longrightarrow> chars c' = []"
      "block_comment_loop (Suc d') ?c1 = (Suc e, c') \<Longrightarrow> chars c' = []" for d'
      using less.hyps [of "bump_ign ?c1" d'] less.hyps [of ?c1 d'] Cons by simp_all
    show ?thesis
      using less.prems IH unfolding block_comment_loop_step [OF Cons] Let_def
      by (cases d) (auto split: if_splits)
  qed
qed

text \<open>
  C6: \<open>block_comment\<close> recognises exactly the nested block comments. After the opening
  delimiter, a comment token is terminated exactly when the text continues with a
  \<open>comment_tail\<close>, and then it ends at the end of that tail; otherwise it is not
  terminated and runs to the end of the input.
\<close>

theorem block_comment_nested:
  assumes "chars c = ch CHR ''*'' # t"
  shows "(\<exists>st w. fst (block_comment c) = BlockComment st True \<and> comment_tail w \<and>
            t = w @ chars (snd (block_comment c)))
       \<or> (\<exists>st. fst (block_comment c) = BlockComment st False \<and> chars (snd (block_comment c)) = [] \<and>
            (\<nexists>w rest. comment_tail w \<and> t = w @ rest))"
proof -
  let ?c2 = "bump_ign (debug_assert (prev c = 47 \<and> first c = 42) c)"
  have t: "chars ?c2 = t" using assms by simp
  obtain depth c3 where loop: "block_comment_loop (Suc 0) ?c2 = (depth, c3)" by fastforce
  then obtain st where st: "block_comment c = (BlockComment st (depth = 0), c3)"
    by (simp add: block_comment_def Let_def)
  show ?thesis
  proof (cases depth)
    case 0
    then obtain ws where "length ws = Suc 0" "list_all comment_tail ws" "t = concat ws @ chars c3"
      using block_comment_loop_sound [of 0 ?c2 c3] loop t by auto
    then show ?thesis using st 0 by (auto simp: length_Suc_conv)
  next
    case (Suc e)
    have "\<nexists>w rest. comment_tail w \<and> t = w @ rest"
      using block_comment_loop_complete [of _ ?c2 _ 0] t loop Suc by fastforce
    then show ?thesis using st Suc block_comment_loop_open [of 0 ?c2 e c3] loop by auto
  qed
qed

theorem block_comment_nested_witness:
  "chars (snd (bump (new_cursor (str ''/*a/*b*/c*/ d'')))) = ch CHR ''*'' # str ''a/*b*/c*/ d'' \<and>
   (\<exists>st w. fst (block_comment (snd (bump (new_cursor (str ''/*a/*b*/c*/ d''))))) = BlockComment st True \<and>
      comment_tail w \<and> str ''a/*b*/c*/ d'' = w @ str '' d'')"
proof (intro conjI)
  let ?c = "snd (bump (new_cursor (str ''/*a/*b*/c*/ d'')))"
  show c: "chars ?c = ch CHR ''*'' # str ''a/*b*/c*/ d''" by code_simp
  have f: "fst (block_comment ?c) = BlockComment None True" by code_simp
  have r: "chars (snd (block_comment ?c)) = str '' d''" by code_simp
  show "\<exists>st w. fst (block_comment ?c) = BlockComment st True \<and> comment_tail w \<and>
      str ''a/*b*/c*/ d'' = w @ str '' d''"
    using block_comment_nested [OF c] unfolding f r by auto
qed

end
