(* ===== verification/Lexer_Literals.thy ===== *)
theory Lexer_Literals
  imports Lexer_Props
begin

text \<open>
  What the literal tokens mean: raw strings end at the first occurrence of their
  terminator, number literals are classified by what follows their digits (the field
  element literals of this compiler among them), and the extent of a shebang line.
\<close>

subsection \<open>Raw strings\<close>

abbreviation hash :: uchar where "hash \<equiv> 0x23"

text \<open>
  The counter of opening hashes counts modulo \<open>2 ^ 32\<close>; the counter of closing hashes does not
  pass the first one, so it does not wrap.
\<close>

lemma eat_hashes_spec:
  "k < 2 ^ 32 \<Longrightarrow> fst (eat_hashes k c) = as_u32 (k + length (takeWhile (\<lambda>x. x = hash) (chars c))) \<and>
   chars (snd (eat_hashes k c)) = dropWhile (\<lambda>x. x = hash) (chars c)"
proof (induction k c rule: eat_hashes.induct)
  case (1 k c)
  show ?case
  proof (cases "first c = hash")
    case True
    then obtain xs where xs: "chars c = hash # xs" by (cases "chars c") (auto simp: EOF_CHAR_def)
    have "as_u32 (as_u32 (k + 1) + n) = as_u32 (k + Suc n)" for n by (simp add: as_u32_def mod_simps)
    moreover have "as_u32 (k + 1) < 2 ^ 32" by (simp add: as_u32_def)
    ultimately show ?thesis using "1.IH" True xs by (simp add: eat_hashes.simps [of k c])
  next
    case False
    then show ?thesis using 1(2) by (cases "chars c") (simp_all add: eat_hashes.simps [of k c])
  qed
qed

lemma eat_end_hashes_spec:
  "k \<le> n \<Longrightarrow> n < 2 ^ 32 \<Longrightarrow> \<exists>j. fst (eat_end_hashes n k c) = k + j \<and>
     chars c = replicate j hash @ chars (snd (eat_end_hashes n k c)) \<and>
     (k + j = n \<or> k + j < n \<and> first (snd (eat_end_hashes n k c)) \<noteq> hash)"
proof (induction n k c rule: eat_end_hashes.induct)
  case (1 n k c)
  show ?case
  proof (cases "first c = hash \<and> k < n")
    case True
    then have ne: "chars c = hash # tl (chars c)" by (cases "chars c") (auto simp: EOF_CHAR_def)
    have u32: "as_u32 (k + 1) = k + 1" using 1(3) True by simp
    obtain j where j: "fst (eat_end_hashes n (k + 1) (bump_ign c)) = k + 1 + j"
      "chars (bump_ign c) = replicate j hash @ chars (snd (eat_end_hashes n (k + 1) (bump_ign c)))"
      "k + 1 + j = n \<or> k + 1 + j < n \<and> first (snd (eat_end_hashes n (k + 1) (bump_ign c))) \<noteq> hash"
      using 1 True u32 by auto
    show ?thesis
      by (intro exI [of _ "Suc j"]) (use True j ne u32 in \<open>simp add: eat_end_hashes.simps [of n k c]\<close>)
  next
    case False
    then show ?thesis
      using 1(2) by (intro exI [of _ 0]) (auto simp: eat_end_hashes.simps [of n k c])
  qed
qed

text \<open>The terminator of a raw string with \<open>n\<close> hashes: a quote and \<open>n\<close> hashes.\<close>

definition raw_terminator :: "nat \<Rightarrow> uchar list" where
  "raw_terminator n = dquote # replicate n hash"

lemma sublist_terminator_skip:
  "dquote \<notin> set pre \<Longrightarrow> sublist (raw_terminator n) (pre @ xs) = sublist (raw_terminator n) xs"
  by (induction pre) (auto simp: sublist_Cons_right raw_terminator_def)

lemma prefix_replicate_append:
  assumes "j < n" and "xs = [] \<or> hd xs \<noteq> h"
  shows "\<not> prefix (replicate n h) (replicate j h @ xs)"
proof
  assume p: "prefix (replicate n h) (replicate j h @ xs)"
  have "n = j + Suc (n - Suc j)" using assms(1) by simp
  then have "replicate n h = replicate j h @ h # replicate (n - Suc j) h"
    by (metis replicate_Suc replicate_add)
  with p show False using assms(2) by (cases xs) auto
qed

lemma no_terminator_extend:
  assumes "dquote \<notin> set pre" and "j < n" and "body = [] \<or> hd body \<noteq> hash"
    and "\<not> sublist (raw_terminator n) body"
  shows "\<not> sublist (raw_terminator n) (pre @ dquote # replicate j hash @ body)"
proof -
  have "\<not> prefix (raw_terminator n) (dquote # replicate j hash @ body)"
    using prefix_replicate_append [OF assms(2,3)] by (simp add: raw_terminator_def)
  then show ?thesis
    using assms sublist_terminator_skip [of "replicate j hash" n body]
    by (simp add: sublist_terminator_skip sublist_Cons_right)
qed

lemma eat_while_not_dquote:
  assumes "\<not> is_eof (eat_while (\<lambda>x. x \<noteq> dquote) c)"
  obtains pre t where "chars c = pre @ dquote # t" and "dquote \<notin> set pre"
    and "chars (bump_ign (eat_while (\<lambda>x. x \<noteq> dquote) c)) = t"
proof -
  let ?c1 = "eat_while (\<lambda>x. x \<noteq> dquote) c"
  obtain x t where xt: "chars ?c1 = x # t" using assms by (auto simp: is_eof_def neq_Nil_conv)
  moreover have "x = dquote" using eat_while_stops [OF assms] xt by simp
  ultimately have eq: "dropWhile (\<lambda>x. x \<noteq> dquote) (chars c) = dquote # t" by (simp add: eat_while_chars)
  show thesis
  proof
    show "chars c = takeWhile (\<lambda>x. x \<noteq> dquote) (chars c) @ dquote # t"
      using takeWhile_dropWhile_id [of "\<lambda>x. x \<noteq> dquote" "chars c"] eq by simp
    show "dquote \<notin> set (takeWhile (\<lambda>x. x \<noteq> dquote) (chars c))" by (auto dest: set_takeWhileD)
    show "chars (bump_ign ?c1) = t" using xt by simp
  qed
qed

lemma raw_string_loop_sound:
  "raw_string_loop p s n po m c = (Inr k, c') \<Longrightarrow> n < 2 ^ 32 \<Longrightarrow>
     k = n \<and> (\<exists>body. chars c = body @ raw_terminator n @ chars c' \<and> \<not> sublist (raw_terminator n) body)"
proof (induction p s n po m c rule: raw_string_loop.induct)
  case (1 p s n po m c)
  let ?c1 = "eat_while (\<lambda>x. x \<noteq> dquote) c"
  let ?e = "eat_end_hashes n 0 (bump_ign ?c1)"
  have ne: "\<not> is_eof ?c1"
    using 1(3) by (auto simp: raw_string_loop.simps [of p s n po m c] Let_def)
  obtain pre t where pt: "chars c = pre @ dquote # t" "dquote \<notin> set pre" "chars (bump_ign ?c1) = t"
    using eat_while_not_dquote [OF ne] .
  obtain j where j: "fst ?e = j" "t = replicate j hash @ chars (snd ?e)"
    "j = n \<or> j < n \<and> first (snd ?e) \<noteq> hash"
    using eat_end_hashes_spec [of 0 n "bump_ign ?c1"] pt(3) 1(4) by auto
  show ?case
  proof (cases "j = n")
    case True
    then have "k = n" "c' = snd ?e"
      using 1(3) ne j by (auto simp: raw_string_loop.simps [of p s n po m c] Let_def)
    moreover have "\<not> sublist (raw_terminator n) pre"
      using sublist_terminator_skip [OF pt(2), of n "[]"] by (simp add: raw_terminator_def)
    ultimately show ?thesis using pt j True by (auto simp: raw_terminator_def)
  next
    case False
    have "k = n \<and> (\<exists>body. chars (snd ?e) = body @ raw_terminator n @ chars c' \<and>
        \<not> sublist (raw_terminator n) body)"
      using 1(1) [OF refl ne refl refl] 1(2) [OF refl ne refl refl] 1(3,4) ne False j(1)
      by (auto simp: raw_string_loop.simps [of p s n po m c] Let_def split: if_splits)
    then obtain body where b: "k = n" "chars (snd ?e) = body @ raw_terminator n @ chars c'"
      "\<not> sublist (raw_terminator n) body" by blast
    have "body = [] \<or> hd body \<noteq> hash" using j(3) False b(2) by (cases body) auto
    then have "\<not> sublist (raw_terminator n) (pre @ dquote # replicate j hash @ body)"
      using no_terminator_extend [OF pt(2) _ _ b(3)] j(3) False by blast
    then show ?thesis using pt(1) j(2) b by (metis append.assoc append_Cons)
  qed
qed

lemma first_quote_split:
  assumes "pre @ dquote # t = body @ dquote # r" and "dquote \<notin> set pre"
  shows "(body = pre \<and> t = r) \<or> (\<exists>b. body = pre @ dquote # b \<and> t = b @ dquote # r)"
proof -
  consider us where "pre @ us = body" "dquote # t = us @ dquote # r"
    | us where "pre = body @ us" "us @ dquote # t = dquote # r"
    using assms(1) by (auto simp: append_eq_append_conv2)
  then show ?thesis
  proof cases
    case 1
    then show ?thesis by (cases us) auto
  next
    case 2
    then show ?thesis using assms(2) by (cases us) auto
  qed
qed

lemma replicate_before_quote:
  assumes "replicate j hash @ z = b @ dquote # r"
  obtains b' where "b = replicate j hash @ b'" and "z = b' @ dquote # r"
proof -
  consider us where "replicate j hash @ us = b" "z = us @ dquote # r"
    | us where "replicate j hash = b @ us" "us @ z = dquote # r"
    using assms by (auto simp: append_eq_append_conv2)
  then show thesis
  proof cases
    case 1
    then show thesis using that by blast
  next
    case 2
    then have "set us \<subseteq> {hash}" by (metis Un_upper2 set_append set_replicate_conv_if order.trans empty_subsetI subset_refl)
    then have "us = []" using 2(2) by (cases us) auto
    then show thesis using 2 that [of "[]"] by simp
  qed
qed

lemma raw_string_loop_complete:
  "chars c = body @ raw_terminator n @ rest \<Longrightarrow> \<not> sublist (raw_terminator n) body \<Longrightarrow> n < 2 ^ 32 \<Longrightarrow>
     \<exists>c'. raw_string_loop p s n po m c = (Inr n, c') \<and> chars c' = rest"
proof (induction "length (chars c)" arbitrary: c body po m rule: less_induct)
  case less
  let ?c1 = "eat_while (\<lambda>x. x \<noteq> dquote) c"
  let ?e = "eat_end_hashes n 0 (bump_ign ?c1)"
  have "dquote \<in> set (chars c)" using less.prems(1) by (simp add: raw_terminator_def)
  then have ne: "\<not> is_eof ?c1" by (auto simp: is_eof_def eat_while_chars)
  obtain pre t where pt: "chars c = pre @ dquote # t" "dquote \<notin> set pre" "chars (bump_ign ?c1) = t"
    using eat_while_not_dquote [OF ne] .
  obtain j where j: "fst ?e = j" "t = replicate j hash @ chars (snd ?e)"
    "j = n \<or> j < n \<and> first (snd ?e) \<noteq> hash"
    using eat_end_hashes_spec [of 0 n "bump_ign ?c1"] pt(3) less.prems(3) by auto
  have "pre @ dquote # t = body @ dquote # replicate n hash @ rest"
    using less.prems(1) pt(1) by (simp add: raw_terminator_def)
  then consider "body = pre" "t = replicate n hash @ rest"
    | b where "body = pre @ dquote # b" "t = b @ dquote # replicate n hash @ rest"
    using first_quote_split [OF _ pt(2)] by blast
  then show ?case
  proof cases
    case 1
    have "j = n"
    proof (rule ccontr)
      assume "j \<noteq> n"
      then have "j < n" "chars (snd ?e) = [] \<or> hd (chars (snd ?e)) \<noteq> hash"
        using j(3) by (auto simp: first_def split: list.splits)
      then have "\<not> prefix (replicate n hash) t" using j(2) prefix_replicate_append by metis
      then show False using 1(2) by simp
    qed
    then show ?thesis
      using 1(2) j(1,2) ne by (auto simp: raw_string_loop.simps [of p s n po m c] Let_def)
  next
    case 2
    obtain b' where b': "b = replicate j hash @ b'" "chars (snd ?e) = b' @ dquote # replicate n hash @ rest"
      using replicate_before_quote j(2) 2(2) by metis
    have "j \<noteq> n"
      using less.prems(2) 2(1) b'(1) sublist_appendI [of "raw_terminator n" pre b']
      by (auto simp: raw_terminator_def)
    have "sublist b' body" using 2(1) b'(1) by (simp add: sublist_def) (metis append.assoc append_Cons append_Nil2)
    then have "\<not> sublist (raw_terminator n) b'" using less.prems(2) sublist_order.order_trans by blast
    moreover have "length (chars (snd ?e)) < length (chars c)" by (rule raw_string_progress [OF ne])
    ultimately have "\<exists>c'. raw_string_loop p s n po' m' (snd ?e) = (Inr n, c') \<and> chars c' = rest" for po' m'
      using less.hyps [of "snd ?e" b' po' m'] b'(2) less.prems(3) by (simp add: raw_terminator_def)
    then show ?thesis
      using \<open>j \<noteq> n\<close> j(1) ne by (auto simp: raw_string_loop.simps [of p s n po m c] Let_def)
  qed
qed

lemma raw_string_unvalidated_iff:
  assumes small: "length (takeWhile (\<lambda>x. x = hash) (chars c)) < 2 ^ 32"
  shows "(\<exists>c'. raw_string_unvalidated p c = (Inr n, c') \<and> chars c' = rest) \<longleftrightarrow>
   (\<exists>body. chars c = replicate n hash @ dquote # body @ raw_terminator n @ rest \<and>
      \<not> sublist (raw_terminator n) body)"
proof
  let ?c1 = "debug_assert (prev c = ch CHR ''r'') c"
  let ?k = "fst (eat_hashes 0 ?c1)"
  let ?c2 = "snd (eat_hashes 0 ?c1)"
  let ?loop = "raw_string_loop p (pos_within_token ?c1) ?k None 0"
  have k: "?k = length (takeWhile (\<lambda>x. x = hash) (chars c))" "chars ?c2 = dropWhile (\<lambda>x. x = hash) (chars c)"
    using eat_hashes_spec [of 0 ?c1] small by simp_all
  have hashes: "takeWhile (\<lambda>x. x = hash) (chars c) = replicate ?k hash"
    unfolding k(1) by (rule replicate_eqI) (auto dest: set_takeWhileD)
  { assume "\<exists>c'. raw_string_unvalidated p c = (Inr n, c') \<and> chars c' = rest"
    then obtain c' where c': "fst (bump ?c2) = Some dquote" "?loop (bump_ign ?c2) = (Inr n, c')" "chars c' = rest"
      by (auto simp: raw_string_unvalidated_def Let_def case_prod_unfold split: if_splits)
    then obtain body where "n = ?k" "tl (chars ?c2) = body @ raw_terminator n @ rest"
      "\<not> sublist (raw_terminator n) body"
      using raw_string_loop_sound [OF c'(2)] k(1) small by auto
    moreover have "chars ?c2 = dquote # tl (chars ?c2)" using c'(1) by (cases "chars ?c2") auto
    ultimately show "\<exists>body. chars c = replicate n hash @ dquote # body @ raw_terminator n @ rest \<and>
        \<not> sublist (raw_terminator n) body"
      using hashes k(2) by (metis takeWhile_dropWhile_id) }
  { assume "\<exists>body. chars c = replicate n hash @ dquote # body @ raw_terminator n @ rest \<and>
        \<not> sublist (raw_terminator n) body"
    then obtain body where b: "chars c = replicate n hash @ dquote # body @ raw_terminator n @ rest"
      "\<not> sublist (raw_terminator n) body" by blast
    have "?k = n" "chars ?c2 = dquote # body @ raw_terminator n @ rest"
      unfolding k b(1) by (subst takeWhile_append_stop dropWhile_append_stop, simp_all add: list_all_iff)+
    moreover have "\<exists>c'. raw_string_loop p s n None 0 (bump_ign ?c2) = (Inr n, c') \<and> chars c' = rest" for s
      using raw_string_loop_complete [OF _ b(2), of "bump_ign ?c2" rest p s None 0] calculation k(1) small by simp
    ultimately show "\<exists>c'. raw_string_unvalidated p c = (Inr n, c') \<and> chars c' = rest"
      by (simp add: raw_string_unvalidated_def Let_def case_prod_unfold) }
qed

text \<open>
  C7: a raw string literal that fewer than \<open>2 ^ 32\<close> hashes open, so that the \<open>u32\<close> counter does
  not overflow, is accepted with \<open>n\<close> hashes, leaving the text \<open>rest\<close>,
  exactly when at most 255 hashes open it and \<open>rest\<close> is what follows the first
  occurrence of its terminator (a quote and \<open>n\<close> hashes) after the opening quote.
\<close>

theorem raw_string_first_terminator:
  assumes "length (takeWhile (\<lambda>x. x = hash) (chars c)) < 2 ^ 32"
  shows "(\<exists>c'. raw_double_quoted_string p c = (Inr n, c') \<and> chars c' = rest) \<longleftrightarrow>
   n \<le> 255 \<and> (\<exists>body. chars c = replicate n hash @ dquote # body @ raw_terminator n @ rest \<and>
      \<not> sublist (raw_terminator n) body)"
proof -
  have "(\<exists>c'. raw_double_quoted_string p c = (Inr n, c') \<and> chars c' = rest) \<longleftrightarrow>
      n \<le> 255 \<and> (\<exists>c'. raw_string_unvalidated p c = (Inr n, c') \<and> chars c' = rest)"
    by (auto simp: raw_double_quoted_string_def split: prod.splits sum.splits if_splits)
  then show ?thesis by (simp add: raw_string_unvalidated_iff [OF assms])
qed

theorem raw_string_first_terminator_witness:
  "let text = str ''#'' @ dquote # str ''a'' @ dquote # str ''b'' @ dquote # str ''#;''; c = new_cursor text in
   length (takeWhile (\<lambda>x. x = hash) (chars c)) < 2 ^ 32 \<and>
   (\<exists>c'. raw_double_quoted_string 1 c = (Inr 1, c') \<and> chars c' = str '';'')"
proof -
  let ?c = "new_cursor (str ''#'' @ dquote # str ''a'' @ dquote # str ''b'' @ dquote # str ''#;'')"
  let ?body = "str ''a'' @ dquote # str ''b''"
  have small: "length (takeWhile (\<lambda>x. x = hash) (chars ?c)) < 2 ^ 32" by code_simp
  have "chars ?c = replicate 1 hash @ dquote # ?body @ raw_terminator 1 @ str '';''" by code_simp
  moreover have "\<not> sublist (raw_terminator 1) ?body" by code_simp
  ultimately have "\<exists>c'. raw_double_quoted_string 1 ?c = (Inr 1, c') \<and> chars c' = str '';''"
    using raw_string_first_terminator [OF small, of 1 1 "str '';''"] by auto
  then show ?thesis using small by (simp add: Let_def)
qed

subsection \<open>Number literals\<close>

text \<open>The characters \<open>eat_decimal_digits\<close> and \<open>eat_hexadecimal_digits\<close> skip.\<close>

definition dec_or_sep :: "uchar \<Rightarrow> bool" where
  "dec_or_sep x \<longleftrightarrow> is_digit10 x \<or> x = ch CHR ''_''"

definition hex_or_sep :: "uchar \<Rightarrow> bool" where
  "hex_or_sep x \<longleftrightarrow> is_hex_digit x \<or> x = ch CHR ''_''"

lemma eat_decimal_digits_loop_spec:
  "fst (eat_decimal_digits_loop b c) = (b \<or> list_ex is_digit10 (takeWhile dec_or_sep (chars c))) \<and>
   chars (snd (eat_decimal_digits_loop b c)) = dropWhile dec_or_sep (chars c)"
proof (induction b c rule: eat_decimal_digits_loop.induct)
  case (1 b c)
  show ?case
  proof (cases "chars c")
    case Nil
    then have "eat_decimal_digits_loop b c = (b, c)"
      by (subst eat_decimal_digits_loop.simps) (simp add: EOF_CHAR_def)
    then show ?thesis using Nil by simp
  next
    case (Cons x xs)
    consider "x = 95" | "x \<noteq> 95" "is_digit10 x" | "x \<noteq> 95" "\<not> is_digit10 x" by blast
    then show ?thesis
    proof cases
      case 1
      then have "eat_decimal_digits_loop b c = eat_decimal_digits_loop b (bump_ign c)"
        using Cons by (subst eat_decimal_digits_loop.simps) simp
      then show ?thesis using "1.IH"(1) Cons 1 by (simp add: dec_or_sep_def is_digit10_def)
    next
      case 2
      then have "eat_decimal_digits_loop b c = eat_decimal_digits_loop True (bump_ign c)"
        using Cons by (subst eat_decimal_digits_loop.simps) (simp add: is_digit10_def)
      then show ?thesis using "1.IH"(2) Cons 2 by (simp add: dec_or_sep_def is_digit10_def)
    next
      case 3
      then have "eat_decimal_digits_loop b c = (b, c)"
        using Cons by (subst eat_decimal_digits_loop.simps) (auto simp: is_digit10_def)
      then show ?thesis using Cons 3 by (simp add: dec_or_sep_def)
    qed
  qed
qed

lemma eat_hexadecimal_digits_loop_spec:
  "fst (eat_hexadecimal_digits_loop b c) = (b \<or> list_ex is_hex_digit (takeWhile hex_or_sep (chars c))) \<and>
   chars (snd (eat_hexadecimal_digits_loop b c)) = dropWhile hex_or_sep (chars c)"
proof (induction b c rule: eat_hexadecimal_digits_loop.induct)
  case (1 b c)
  show ?case
  proof (cases "chars c")
    case Nil
    then have "eat_hexadecimal_digits_loop b c = (b, c)"
      by (subst eat_hexadecimal_digits_loop.simps) (simp add: EOF_CHAR_def is_hex_digit_def)
    then show ?thesis using Nil by simp
  next
    case (Cons x xs)
    consider "x = 95" | "x \<noteq> 95" "is_hex_digit x" | "x \<noteq> 95" "\<not> is_hex_digit x" by blast
    then show ?thesis
    proof cases
      case 1
      then have "eat_hexadecimal_digits_loop b c = eat_hexadecimal_digits_loop b (bump_ign c)"
        using Cons by (subst eat_hexadecimal_digits_loop.simps) simp
      then show ?thesis using "1.IH"(1) Cons 1 by (simp add: hex_or_sep_def is_hex_digit_def)
    next
      case 2
      then have "eat_hexadecimal_digits_loop b c = eat_hexadecimal_digits_loop True (bump_ign c)"
        using Cons by (subst eat_hexadecimal_digits_loop.simps) (simp add: is_hex_digit_def)
      then show ?thesis using "1.IH"(2) Cons 2 by (simp add: hex_or_sep_def)
    next
      case 3
      then have "eat_hexadecimal_digits_loop b c = (b, c)"
        using Cons by (subst eat_hexadecimal_digits_loop.simps) (auto simp: is_hex_digit_def)
      then show ?thesis using Cons 3 by (simp add: hex_or_sep_def)
    qed
  qed
qed

lemma eat_digits_split:
  assumes "list_all dec_or_sep ds" and "r = [] \<or> \<not> dec_or_sep (hd r)" and "chars c = ds @ r"
  shows "fst (eat_decimal_digits c) = list_ex is_digit10 ds" "chars (snd (eat_decimal_digits c)) = r"
  using eat_decimal_digits_loop_spec [of False c] assms
    takeWhile_append_stop [OF assms(1,2)] dropWhile_append_stop [OF assms(1,2)]
  by (simp_all add: eat_decimal_digits_def)

lemma eat_hex_digits_split:
  assumes "list_all hex_or_sep ds" and "r = [] \<or> \<not> hex_or_sep (hd r)" and "chars c = ds @ r"
  shows "fst (eat_hexadecimal_digits c) = list_ex is_hex_digit ds"
    "chars (snd (eat_hexadecimal_digits c)) = r"
  using eat_hexadecimal_digits_loop_spec [of False c] assms
    takeWhile_append_stop [OF assms(1,2)] dropWhile_append_stop [OF assms(1,2)]
  by (simp_all add: eat_hexadecimal_digits_def)

text \<open>
  The text of an unsigned number in a base, as the lexer accepts it: separators anywhere
  after the first digit or the prefix, at least one digit, and any decimal digit after the
  prefixes \<open>0b\<close> and \<open>0o\<close>.
\<close>

fun number_text :: "lit_base \<Rightarrow> uchar list \<Rightarrow> bool" where
  "number_text Decimal w = (case w of
       d # ds \<Rightarrow> is_digit10 d \<and> list_all dec_or_sep ds | [] \<Rightarrow> False)"
| "number_text Binary w = (case w of
       z # x # ds \<Rightarrow> z = ch CHR ''0'' \<and> x = ch CHR ''b'' \<and> list_all dec_or_sep ds \<and> list_ex is_digit10 ds
     | _ \<Rightarrow> False)"
| "number_text Octal w = (case w of
       z # x # ds \<Rightarrow> z = ch CHR ''0'' \<and> x = ch CHR ''o'' \<and> list_all dec_or_sep ds \<and> list_ex is_digit10 ds
     | _ \<Rightarrow> False)"
| "number_text Hexadecimal w = (case w of
       z # x # ds \<Rightarrow> z = ch CHR ''0'' \<and> x = ch CHR ''x'' \<and> list_all hex_or_sep ds \<and> list_ex is_hex_digit ds
     | _ \<Rightarrow> False)"

lemma number_field:
  assumes "number_text b (d # ds)" and "g = ch CHR ''g'' \<or> g = ch CHR ''G''"
    and "chars c = ds @ g # r"
  shows "fst (number u d c) = FieldLit b False \<and> chars (snd (number u d c)) = g # r"
proof -
  let ?c = "debug_assert (48 \<le> prev c \<and> prev c \<le> 57) c"
  have stop: "\<not> dec_or_sep g" "\<not> hex_or_sep g"
    using assms(2) by (auto simp: dec_or_sep_def hex_or_sep_def is_digit10_def is_hex_digit_def)
  have tail: "number_tail u bs c' = (FieldLit bs False, c')" if "chars c' = g # r" for bs c'
    using that assms(2) by (auto simp: number_tail_def)
  note dec = eat_digits_split [OF _ _, of _ "g # r"] and hex = eat_hex_digits_split [OF _ _, of _ "g # r"]
  show ?thesis
  proof (cases b)
    case Decimal
    then have ds: "list_all dec_or_sep ds" using assms(1) by simp
    then have eat: "chars (snd (eat_decimal_digits ?c)) = g # r"
      using dec(2) [of ds ?c] stop assms(3) by simp
    show ?thesis
    proof (cases ds)
      case Nil
      then show ?thesis using assms(2,3) eat Decimal by (auto simp: number_def Let_def tail)
    next
      case (Cons x xs)
      then have "first ?c = x" "dec_or_sep x" using assms(3) ds by simp_all
      then show ?thesis
        using eat Decimal by (auto simp: number_def Let_def tail dec_or_sep_def is_digit10_def)
    qed
  next
    case Binary
    then obtain es where es: "d = 48" "ds = 98 # es" "list_all dec_or_sep es" "list_ex is_digit10 es"
      using assms(1) by (cases ds) auto
    then show ?thesis
      using dec [of es "bump_ign ?c"] stop assms(3) Binary
      by (simp add: number_def Let_def tail case_prod_unfold)
  next
    case Octal
    then obtain es where es: "d = 48" "ds = 111 # es" "list_all dec_or_sep es" "list_ex is_digit10 es"
      using assms(1) by (cases ds) auto
    then show ?thesis
      using dec [of es "bump_ign ?c"] stop assms(3) Octal
      by (simp add: number_def Let_def tail case_prod_unfold)
  next
    case Hexadecimal
    then obtain es where es: "d = 48" "ds = 120 # es" "list_all hex_or_sep es" "list_ex is_hex_digit es"
      using assms(1) by (cases ds) auto
    then show ?thesis
      using hex [of es "bump_ign ?c"] stop assms(3) Hexadecimal
      by (simp add: number_def Let_def tail case_prod_unfold)
  qed
qed

lemma lex_first_char_digit:
  assumes "ascii_tables u" and "is_digit10 d"
  shows "lex_first_char u d c =
    (let (k, c1) = number u d c
     in (Literal k (pos_within_token c1), eat_literal_suffix u c1))"
proof -
  have "d < 128" using assms(2) by (simp add: is_digit10_def)
  then have "\<not> is_id_start u d"
    using ascii_tables_id_start [OF assms(1), of d] assms(2)
    by (auto simp: is_ascii_letter_def is_digit10_def)
  then show ?thesis
    using assms(2)
    by (auto simp: lex_first_char_def is_digit10_def is_whitespace_def Let_def)
qed

lemma eat_suffix_split:
  assumes "is_id_start u g" and "list_all (is_id_continue u) sfx"
    and "rest = [] \<or> \<not> is_id_continue u (hd rest)" and "chars c = g # sfx @ rest"
  shows "chars (eat_literal_suffix u c) = rest"
  using assms dropWhile_append_stop [OF assms(2,3)]
  by (simp add: eat_literal_suffix_def eat_identifier_def eat_while_chars)

lemma number_text_ascii:
  assumes "number_text b w" shows "\<forall>x \<in> set w. x < 128"
proof -
  have dec: "dec_or_sep x \<Longrightarrow> x < 128" and hex: "hex_or_sep x \<Longrightarrow> x < 128" for x
    by (auto simp: dec_or_sep_def hex_or_sep_def is_digit10_def is_hex_digit_def)
  show ?thesis
    using assms by (cases b) (auto simp: list_all_iff is_digit10_def split: list.splits dest: dec hex)
qed

text \<open>
  C8: a field element literal, a number followed by a suffix that starts with \<open>g\<close> or
  \<open>G\<close>, is one token in every base: its kind is \<open>Field\<close> in that base and not empty,
  its suffix starts right after the digits, and the token ends with the suffix.
\<close>

theorem field_literal_token:
  assumes "ascii_tables u" and "at_token_start c" and "str_len (chars c) < 2 ^ 32"
    and "chars c = w @ g # sfx @ rest"
    and "number_text b w" and "g = ch CHR ''g'' \<or> g = ch CHR ''G''"
    and "list_all (is_id_continue u) sfx" and "rest = [] \<or> \<not> is_id_continue u (hd rest)"
  shows "fst (advance_token u c) =
      \<lparr>kind = Literal (FieldLit b False) (length w), len = length w + 1 + str_len sfx\<rparr> \<and>
    chars (snd (advance_token u c)) = rest"
proof -
  obtain d ds where w: "w = d # ds" using assms(5) by (cases w; cases b) auto
  have d: "is_digit10 d" using assms(5) w by (cases b) (auto simp: is_digit10_def split: list.splits)
  let ?c1 = "c\<lparr>chars := ds @ g # sfx @ rest, prev := d\<rparr>"
  let ?n = "number u d ?c1"
  have n: "fst ?n = FieldLit b False" "chars (snd ?n) = g # sfx @ rest"
    using number_field [of b d ds g ?c1 "sfx @ rest" u] assms(5,6) w by simp_all
  have lr: "len_remaining (snd ?n) = str_len (chars c)"
    using adv_len_remaining [OF number.moves [of ?c1 u d]] assms(2) by (simp add: at_token_start_def)
  have lw: "str_len w = length w" using str_len_ascii [OF number_text_ascii [OF assms(5)]] .
  have "is_id_start u g"
    using ascii_tables_id_start [OF assms(1), of g] assms(6) by (auto simp: is_ascii_letter_def)
  then have sfx: "chars (eat_literal_suffix u (snd ?n)) = rest"
    using eat_suffix_split [OF _ assms(7,8)] n(2) by simp
  have lg: "len_utf8 g = 1" using assms(6) by auto
  have posn: "pos_within_token (snd ?n) = length w"
    using n(2) lr assms(3,4) lw lg by (simp add: pos_within_token_def)
  have "len_remaining (eat_literal_suffix u (snd ?n)) = str_len (chars c)"
    using adv_len_remaining [OF adv_eat_literal_suffix [OF adv_refl, of "snd ?n" u]] lr by simp
  then have pos2: "pos_within_token (eat_literal_suffix u (snd ?n)) = length w + 1 + str_len sfx"
    using sfx assms(3,4) lw lg by (simp add: pos_within_token_def)
  have "chars c = d # ds @ g # sfx @ rest" using assms(4) w by simp
  then have adv: "advance_token u c =
      (\<lparr>kind = Literal (fst ?n) (pos_within_token (snd ?n)),
        len = pos_within_token (eat_literal_suffix u (snd ?n))\<rparr>,
       reset_pos_within_token (eat_literal_suffix u (snd ?n)))"
    by (simp add: advance_token_Cons lex_first_char_digit [OF assms(1) d] case_prod_unfold Let_def)
  show ?thesis
    unfolding adv posn pos2 n(1) by (simp add: reset_pos_within_token_def sfx)
qed

theorem field_literal_token_witness:
  "number_text Hexadecimal (str ''0x1F'') \<and>
   fst (advance_token ascii_only (new_cursor (str ''0x1Fg;''))) =
     \<lparr>kind = Literal (FieldLit Hexadecimal False) 4, len = 5\<rparr> \<and>
   chars (snd (advance_token ascii_only (new_cursor (str ''0x1Fg;'')))) = str '';''"
proof -
  have n: "number_text Hexadecimal (str ''0x1F'')" by code_simp
  have small: "str_len (chars (new_cursor (str ''0x1Fg;''))) < 2 ^ 32" by code_simp
  have eq: "chars (new_cursor (str ''0x1Fg;'')) = str ''0x1F'' @ ch CHR ''g'' # [] @ str '';''" by code_simp
  have stop: "str '';'' = [] \<or> \<not> is_id_continue ascii_only (hd (str '';''))" by code_simp
  have len: "length (str ''0x1F'') = 4" by code_simp
  show ?thesis
    using n field_literal_token [OF ascii_tables_ascii_only at_token_start_new small eq n _ _ stop]
    by (simp add: len)
qed

subsection \<open>The shebang line\<close>

lemma first_line_split:
  obtains rest where "s = first_line s @ rest" and "newline \<notin> set (first_line s)"
    and "rest = [] \<or> hd rest = newline \<or> prefix [0x0D, newline] rest"
proof -
  let ?l = "takeWhile (\<lambda>x. x \<noteq> newline) s"
  let ?r = "dropWhile (\<lambda>x. x \<noteq> newline) s"
  have s: "s = ?l @ ?r" by simp
  have nl: "newline \<notin> set ?l" by (auto dest: set_takeWhileD)
  have r: "?r = [] \<or> (\<exists>t. ?r = newline # t)"
    by (metis (mono_tags, lifting) hd_dropWhile list.collapse)
  show thesis
  proof (cases "length ?l < length s \<and> ?l \<noteq> [] \<and> last ?l = 0x0D")
    case True
    then have fl: "first_line s = butlast ?l" by (simp add: first_line_def Let_def)
    have l: "?l = butlast ?l @ [0x0D]" using True by (metis append_butlast_last_id)
    have "?r \<noteq> []" using True s by (metis append_Nil2 less_irrefl)
    then obtain t where t: "?r = newline # t" using r by blast
    show thesis
    proof (rule that [of "0x0D # newline # t"])
      show "s = first_line s @ 0x0D # newline # t"
        unfolding fl using s l t by (metis append.assoc append_Cons append_Nil)
      show "newline \<notin> set (first_line s)" unfolding fl using nl in_set_butlastD by metis
    qed simp
  next
    case False
    then have "first_line s = ?l" unfolding first_line_def Let_def by (rule if_not_P)
    then show thesis using that [of ?r] s nl r by auto
  qed
qed

text \<open>
  When \<open>strip_shebang\<close> removes \<open>n\<close> bytes, those are the first line of the file
  and nothing else: a text that starts with \<open>#!\<close>, holds no newline, and is followed by
  the end of the file or by its line ending.
\<close>

theorem strip_shebang_first_line:
  assumes "strip_shebang u input = Some n"
  shows "\<exists>l rest. input = l @ rest \<and> str_len l = n \<and> prefix (str ''#!'') l \<and> newline \<notin> set l \<and>
    (rest = [] \<or> hd rest = newline \<or> prefix [0x0D, newline] rest)"
proof -
  obtain t where t: "input = 0x23 # 0x21 # t" and n: "n = 2 + str_len (first_line t)"
    using assms by (auto simp: strip_shebang_def Let_def split: list.splits if_splits)
  obtain rest where rest: "t = first_line t @ rest" "newline \<notin> set (first_line t)"
    "rest = [] \<or> hd rest = newline \<or> prefix [0x0D, newline] rest"
    using first_line_split [of t] .
  show ?thesis
  proof (intro exI conjI)
    show "input = (0x23 # 0x21 # first_line t) @ rest" using t rest(1) by simp
    show "str_len (0x23 # 0x21 # first_line t) = n" using n by simp
    show "prefix (str ''#!'') (0x23 # 0x21 # first_line t)" by (simp add: str_def)
  qed (use rest in simp_all)
qed

theorem strip_shebang_first_line_witness:
  "strip_shebang ascii_only (str ''#!/bin/rust'' @ [newline] @ str ''fn'') = Some 11 \<and>
   (\<exists>l rest. str ''#!/bin/rust'' @ [newline] @ str ''fn'' = l @ rest \<and> str_len l = 11 \<and>
     prefix (str ''#!'') l \<and> newline \<notin> set l \<and>
     (rest = [] \<or> hd rest = newline \<or> prefix [0x0D, newline] rest))"
proof (intro conjI)
  show s: "strip_shebang ascii_only (str ''#!/bin/rust'' @ [newline] @ str ''fn'') = Some 11"
    by code_simp
  show "\<exists>l rest. str ''#!/bin/rust'' @ [newline] @ str ''fn'' = l @ rest \<and> str_len l = 11 \<and>
     prefix (str ''#!'') l \<and> newline \<notin> set l \<and>
     (rest = [] \<or> hd rest = newline \<or> prefix [0x0D, newline] rest)"
    by (rule strip_shebang_first_line [OF s])
qed

lemma advance_token_open_bracket:
  assumes "ascii_tables u" and "chars c = ch CHR ''['' # r"
  shows "kind (fst (advance_token u c)) = OpenBracket"
proof -
  have "\<not> is_id_start u 91"
    using ascii_tables_id_start [OF assms(1), of 91] by (simp add: is_ascii_letter_def)
  then show ?thesis
    using assms(2) by (simp add: advance_token_Cons lex_first_char_def is_whitespace_def
      one_symbol_tokens_def)
qed

lemma advance_token_whitespace_run:
  assumes "is_whitespace x" and "list_all is_whitespace xs" and "r = [] \<or> \<not> is_whitespace (hd r)"
    and "chars c = x # xs @ r"
  shows "kind (fst (advance_token u c)) = Whitespace" "chars (snd (advance_token u c)) = r"
proof -
  show k: "kind (fst (advance_token u c)) = Whitespace"
    using assms(1,4) by (simp add: advance_token_Cons case_prod_unfold Let_def lex_first_char_Whitespace_iff)
  show "chars (snd (advance_token u c)) = r"
    using advance_token_Whitespace(1) [OF k] assms dropWhile_append_stop [OF assms(2,3)] by simp
qed

text \<open>
  An inner attribute at the start of a file is not taken for a shebang line: after
  \<open>#!\<close> and any white space, a \<open>[\<close> makes \<open>strip_shebang\<close> return \<open>None\<close>.
\<close>

theorem strip_shebang_attribute:
  assumes "ascii_tables u" and "list_all is_whitespace ws"
  shows "strip_shebang u (str ''#!'' @ ws @ ch CHR ''['' # r) = None"
proof -
  let ?c = "new_cursor (ws @ ch CHR ''['' # r)"
  have "List.find (\<lambda>k. \<not> is_trivia k) (map kind (tokenize_from u ?c)) = Some OpenBracket"
  proof (cases ws)
    case Nil
    then show ?thesis
      using advance_token_open_bracket [OF assms(1), of ?c r]
      by (simp add: tokenize_from_Cons is_trivia_def)
  next
    case (Cons x xs)
    let ?d = "snd (advance_token u ?c)"
    have w: "kind (fst (advance_token u ?c)) = Whitespace" "chars ?d = ch CHR ''['' # r"
      using advance_token_whitespace_run [of x xs "ch CHR ''['' # r" ?c u] assms(2) Cons
      by (simp_all add: is_whitespace_def)
    then show ?thesis
      using advance_token_open_bracket [OF assms(1) w(2)] Cons
      by (simp add: tokenize_from_Cons is_trivia_def)
  qed
  then show ?thesis by (simp add: strip_shebang_def str_def tokenize_def)
qed

theorem strip_shebang_attribute_witness:
  "strip_shebang ascii_only (str ''#!'' @ [0x20] @ ch CHR ''['' # str ''no_std]'') = None"
  by (rule strip_shebang_attribute) (simp_all add: is_whitespace_def)

end
