(* ===== verification/Unescape.thy ===== *)
theory Unescape
  imports Prelude
begin

text \<open>
  Unescaping of string and character literals,
  \<open>compiler/rustc_lexer/src/unescape.rs\<close>. The iterator \<open>Chars\<close> is the list of the
  characters left. A function that calls the callback returns the list of the calls, each
  the range (start, end) in bytes and the result. A result is a sum: \<open>Inl\<close> an error,
  \<open>Inr\<close> a value.
\<close>

subsection \<open>Errors and modes\<close>

datatype escape_error =
    ZeroChars | MoreThanOneChar | LoneSlash | InvalidEscape | BareCarriageReturn
  | BareCarriageReturnInRawString | EscapeOnlyChar | TooShortHexEscape | InvalidCharInHexEscape
  | OutOfRangeHexEscape | NoBraceInUnicodeEscape | InvalidCharInUnicodeEscape | EmptyUnicodeEscape
  | UnclosedUnicodeEscape | LeadingUnderscoreUnicodeEscape | OverlongUnicodeEscape
  | LoneSurrogateUnicodeEscape | OutOfRangeUnicodeEscape | UnicodeEscapeInByte
  | NonAsciiCharInByte | UnskippedWhitespaceWarning | MultipleSkippedLinesWarning

definition is_fatal :: "escape_error \<Rightarrow> bool" where
  "is_fatal e \<longleftrightarrow> \<not> (e = UnskippedWhitespaceWarning \<or> e = MultipleSkippedLinesWarning)"

datatype mode =
    Mode_Char | Mode_Str | Mode_Byte | Mode_ByteStr | Mode_RawStr | Mode_RawByteStr
  | Mode_CStr | Mode_RawCStr

fun in_double_quotes :: "mode \<Rightarrow> bool" where
  "in_double_quotes Mode_Char = False"
| "in_double_quotes Mode_Byte = False"
| "in_double_quotes _ = True"

definition ascii_escapes_should_be_ascii :: "mode \<Rightarrow> bool" where
  "ascii_escapes_should_be_ascii m = (case m of
       Mode_Char \<Rightarrow> True | Mode_Str \<Rightarrow> True | Mode_RawStr \<Rightarrow> True
     | Mode_Byte \<Rightarrow> False | Mode_ByteStr \<Rightarrow> False | Mode_RawByteStr \<Rightarrow> False
     | Mode_CStr \<Rightarrow> False | Mode_RawCStr \<Rightarrow> False)"

definition characters_should_be_ascii :: "mode \<Rightarrow> bool" where
  "characters_should_be_ascii m = (case m of
       Mode_Byte \<Rightarrow> True | Mode_ByteStr \<Rightarrow> True | Mode_RawByteStr \<Rightarrow> True
     | Mode_Char \<Rightarrow> False | Mode_Str \<Rightarrow> False | Mode_RawStr \<Rightarrow> False
     | Mode_CStr \<Rightarrow> False | Mode_RawCStr \<Rightarrow> False)"

definition is_unicode_escape_disallowed :: "mode \<Rightarrow> bool" where
  "is_unicode_escape_disallowed m = (case m of
       Mode_Byte \<Rightarrow> True | Mode_ByteStr \<Rightarrow> True | Mode_RawByteStr \<Rightarrow> True
     | Mode_Char \<Rightarrow> False | Mode_Str \<Rightarrow> False | Mode_RawStr \<Rightarrow> False
     | Mode_CStr \<Rightarrow> False | Mode_RawCStr \<Rightarrow> False)"

definition prefix_noraw :: "mode \<Rightarrow> string" where
  "prefix_noraw m = (case m of
       Mode_Byte \<Rightarrow> ''b'' | Mode_ByteStr \<Rightarrow> ''b'' | Mode_RawByteStr \<Rightarrow> ''b''
     | Mode_CStr \<Rightarrow> ''c'' | Mode_RawCStr \<Rightarrow> ''c''
     | Mode_Char \<Rightarrow> '''' | Mode_Str \<Rightarrow> '''' | Mode_RawStr \<Rightarrow> '''')"

text \<open>A unit within a C string.\<close>

datatype cstr_unit = CStrByte nat | CStrChar uchar

subsection \<open>One escape\<close>

definition is_ascii :: "nat \<Rightarrow> bool" where
  "is_ascii x \<longleftrightarrow> x \<le> 0x7F"

text \<open>\<open>char::from_u32\<close>.\<close>

definition from_u32 :: "nat \<Rightarrow> uchar option" where
  "from_u32 v = (if is_scalar v then Some v else None)"

text \<open>
  The loop of \<open>scan_unicode\<close> after the first digit; \<open>value\<close> is a \<open>u32\<close> in the
  source and stays below \<open>16 ^ 6\<close>.
\<close>

fun scan_unicode_loop :: "bool \<Rightarrow> nat \<Rightarrow> nat \<Rightarrow> uchar list \<Rightarrow> (escape_error + uchar) \<times> uchar list" where
  "scan_unicode_loop disallowed n_digits value [] = (Inl UnclosedUnicodeEscape, [])"
| "scan_unicode_loop disallowed n_digits value (c # chars) =
     (if c = ch CHR ''_'' then scan_unicode_loop disallowed n_digits value chars
      else if c = ch CHR ''}'' then
        (if n_digits > 6 then (Inl OverlongUnicodeEscape, chars)
         else if disallowed then (Inl UnicodeEscapeInByte, chars)
         else case from_u32 value of
             Some x \<Rightarrow> (Inr x, chars)
           | None \<Rightarrow> (Inl (if value > 0x10FFFF then OutOfRangeUnicodeEscape
                          else LoneSurrogateUnicodeEscape), chars))
      else case to_digit16 c of
          None \<Rightarrow> (Inl InvalidCharInUnicodeEscape, chars)
        | Some digit \<Rightarrow>
            (if n_digits + 1 > 6 then scan_unicode_loop disallowed (n_digits + 1) value chars
             else scan_unicode_loop disallowed (n_digits + 1) (as_u32 (value * 16 + digit)) chars))"

definition scan_unicode :: "bool \<Rightarrow> uchar list \<Rightarrow> (escape_error + uchar) \<times> uchar list" where
  "scan_unicode disallowed chars0 = (case chars0 of
       [] \<Rightarrow> (Inl NoBraceInUnicodeEscape, [])
     | b # chars1 \<Rightarrow>
         (if b \<noteq> ch CHR ''{'' then (Inl NoBraceInUnicodeEscape, chars1)
          else case chars1 of
              [] \<Rightarrow> (Inl UnclosedUnicodeEscape, [])
            | c # chars2 \<Rightarrow>
                (if c = ch CHR ''_'' then (Inl LeadingUnderscoreUnicodeEscape, chars2)
                 else if c = ch CHR ''}'' then (Inl EmptyUnicodeEscape, chars2)
                 else case to_digit16 c of
                     None \<Rightarrow> (Inl InvalidCharInUnicodeEscape, chars2)
                   | Some value \<Rightarrow> scan_unicode_loop disallowed 1 value chars2)))"

text \<open>
  \<open>scan_escape\<close> is generic in the type of the result, which is made from a byte or from a
  character: the conversions are the parameters \<open>from_u8\<close> and \<open>from_char\<close>.
\<close>

definition scan_escape ::
  "(nat \<Rightarrow> 't) \<Rightarrow> (uchar \<Rightarrow> 't) \<Rightarrow> mode \<Rightarrow> uchar list \<Rightarrow> (escape_error + 't) \<times> uchar list" where
  "scan_escape from_u8 from_char m chars0 = (case chars0 of
       [] \<Rightarrow> (Inl LoneSlash, [])
     | c # chars \<Rightarrow>
         (if c = dquote then (Inr (from_u8 0x22), chars)
          else if c = ch CHR ''n'' then (Inr (from_u8 0x0A), chars)
          else if c = ch CHR ''r'' then (Inr (from_u8 0x0D), chars)
          else if c = ch CHR ''t'' then (Inr (from_u8 0x09), chars)
          else if c = backslash then (Inr (from_u8 0x5C), chars)
          else if c = squote then (Inr (from_u8 0x27), chars)
          else if c = ch CHR ''0'' then (Inr (from_u8 0), chars)
          else if c = ch CHR ''x'' then (case chars of
              [] \<Rightarrow> (Inl TooShortHexEscape, [])
            | h # chars1 \<Rightarrow> (case to_digit16 h of
                None \<Rightarrow> (Inl InvalidCharInHexEscape, chars1)
              | Some hi \<Rightarrow> (case chars1 of
                  [] \<Rightarrow> (Inl TooShortHexEscape, [])
                | l # chars2 \<Rightarrow> (case to_digit16 l of
                    None \<Rightarrow> (Inl InvalidCharInHexEscape, chars2)
                  | Some lo \<Rightarrow>
                      (if ascii_escapes_should_be_ascii m \<and> \<not> is_ascii (hi * 16 + lo)
                       then (Inl OutOfRangeHexEscape, chars2)
                       else (Inr (from_u8 (hi * 16 + lo)), chars2))))))
          else if c = ch CHR ''u'' then
            (case scan_unicode (is_unicode_escape_disallowed m) chars of
               (r, chars1) \<Rightarrow> (map_sum id from_char r, chars1))
          else (Inl InvalidEscape, chars)))"

definition ascii_check :: "uchar \<Rightarrow> bool \<Rightarrow> escape_error + uchar" where
  "ascii_check c should_be_ascii =
     (if should_be_ascii \<and> \<not> is_ascii_char c then Inl NonAsciiCharInByte else Inr c)"

definition unescape_char_or_byte :: "uchar list \<Rightarrow> bool \<Rightarrow> (escape_error + uchar) \<times> uchar list" where
  "unescape_char_or_byte chars0 is_byte = (case chars0 of
       [] \<Rightarrow> (Inl ZeroChars, [])
     | c # chars \<Rightarrow>
         (let (res, chars1) =
            (if c = backslash then scan_escape id id (if is_byte then Mode_Byte else Mode_Char) chars
             else if c = newline \<or> c = 0x09 \<or> c = squote then (Inl EscapeOnlyChar, chars)
             else if c = 0x0D then (Inl BareCarriageReturn, chars)
             else (ascii_check c is_byte, chars))
          in case res of
              Inl e \<Rightarrow> (Inl e, chars1)
            | Inr x \<Rightarrow> (case chars1 of
                [] \<Rightarrow> (Inr x, [])
              | _ # chars2 \<Rightarrow> (Inl MoreThanOneChar, chars2))))"

subsection \<open>Strings\<close>

text \<open>The white space \<open>skip_ascii_whitespace\<close> skips after a backslash at a line end.\<close>

definition is_skipped :: "uchar \<Rightarrow> bool" where
  "is_skipped b \<longleftrightarrow> b = 0x20 \<or> b = 0x09 \<or> b = newline \<or> b = 0x0D"

definition skip_ascii_whitespace ::
  "uchar list \<Rightarrow> nat \<Rightarrow> ((nat \<times> nat) \<times> escape_error) list \<times> uchar list" where
  "skip_ascii_whitespace tail start =
     (let skipped = takeWhile is_skipped tail;
          first_non_space = length skipped;
          calls1 = (if newline \<in> set (drop 1 skipped)
                    then [((start, start + first_non_space + 1), MultipleSkippedLinesWarning)]
                    else []);
          tail' = drop first_non_space tail;
          calls2 = (case tail' of
              [] \<Rightarrow> []
            | c # _ \<Rightarrow>
                (if char_is_whitespace c
                 then [((start, start + first_non_space + len_utf8 c + 1), UnskippedWhitespaceWarning)]
                 else []))
      in (calls1 @ calls2, tail'))"

text \<open>Every scanning function leaves a suffix of the characters it was given.\<close>

lemma suffix_skip_ascii_whitespace: "suffix (snd (skip_ascii_whitespace tail start)) tail"
  by (simp add: skip_ascii_whitespace_def Let_def suffix_drop)

lemma suffix_scan_unicode_loop: "suffix (snd (scan_unicode_loop b n v chars)) chars"
  by (induction b n v chars rule: scan_unicode_loop.induct)
    (auto split: option.splits intro: suffix_ConsI)

lemma suffix_scan_unicode: "suffix (snd (scan_unicode b chars)) chars"
  by (auto simp: scan_unicode_def suffix_scan_unicode_loop split: list.splits option.splits
    intro!: suffix_ConsI)

lemma suffix_scan_escape: "suffix (snd (scan_escape f g m chars)) chars"
proof (cases chars)
  case (Cons c cs)
  have "suffix (snd (scan_escape f g m (c # cs))) (c # cs)"
  proof (cases "c = 117")
    case True
    then show ?thesis
      by (simp add: scan_escape_def case_prod_unfold suffix_scan_unicode suffix_ConsI)
  next
    case False
    then show ?thesis
      by (auto simp: scan_escape_def split: list.splits option.splits intro!: suffix_ConsI)
  qed
  with Cons show ?thesis by simp
qed (simp add: scan_escape_def)

lemmas suffix_length_scan = suffix_length_le [OF suffix_scan_escape]
  and suffix_length_skip = suffix_length_le [OF suffix_skip_ascii_whitespace]

text \<open>The loop of \<open>unescape_str_common\<close>, over the characters left.\<close>

function unescape_str_loop ::
  "(nat \<Rightarrow> 't) \<Rightarrow> (uchar \<Rightarrow> 't) \<Rightarrow> mode \<Rightarrow> nat \<Rightarrow> uchar list \<Rightarrow>
   ((nat \<times> nat) \<times> (escape_error + 't)) list" where
  "unescape_str_loop from_u8 from_char m src_len [] = []"
| "unescape_str_loop from_u8 from_char m src_len (c # chars) =
     (let start = src_len - str_len chars - len_utf8 c
      in if c = backslash then
           if chars \<noteq> [] \<and> hd chars = newline then
             (let (calls, chars1) = skip_ascii_whitespace chars start
              in map (\<lambda>(range, err). (range, Inl err)) calls @
                 unescape_str_loop from_u8 from_char m src_len chars1)
           else
             (let (res, chars1) = scan_escape from_u8 from_char m chars
              in ((start, src_len - str_len chars1), res) #
                 unescape_str_loop from_u8 from_char m src_len chars1)
         else
           (let res = (if c = newline then Inr (from_u8 0x0A)
                       else if c = 0x09 then Inr (from_u8 0x09)
                       else if c = dquote then Inl EscapeOnlyChar
                       else if c = 0x0D then Inl BareCarriageReturn
                       else map_sum id from_char (ascii_check c (characters_should_be_ascii m)))
            in ((start, src_len - str_len chars), res) #
               unescape_str_loop from_u8 from_char m src_len chars))"
  by pat_completeness auto
termination
proof (relation "measure (\<lambda>(f, g, m, n, chars). length chars)", goal_cases)
  case (2 f g m n c chars st calls chars1)
  then show ?case using suffix_length_skip [of chars st] by (metis in_measure le_imp_less_Suc length_Cons old.prod.case snd_conv)
next
  case (3 f g m n c chars st res chars1)
  then show ?case using suffix_length_scan [of f g m chars] by (metis in_measure le_imp_less_Suc length_Cons old.prod.case snd_conv)
qed auto

definition unescape_str_common ::
  "(nat \<Rightarrow> 't) \<Rightarrow> (uchar \<Rightarrow> 't) \<Rightarrow> uchar list \<Rightarrow> mode \<Rightarrow>
   ((nat \<times> nat) \<times> (escape_error + 't)) list" where
  "unescape_str_common from_u8 from_char src m =
     unescape_str_loop from_u8 from_char m (str_len src) src"

fun unescape_raw_loop :: "bool \<Rightarrow> nat \<Rightarrow> uchar list \<Rightarrow> ((nat \<times> nat) \<times> (escape_error + uchar)) list" where
  "unescape_raw_loop is_byte src_len [] = []"
| "unescape_raw_loop is_byte src_len (c # chars) =
     (let start = src_len - str_len chars - len_utf8 c;
          res = (if c = 0x0D then Inl BareCarriageReturnInRawString else ascii_check c is_byte)
      in ((start, src_len - str_len chars), res) # unescape_raw_loop is_byte src_len chars)"

definition unescape_raw_str_or_raw_byte_str ::
  "uchar list \<Rightarrow> bool \<Rightarrow> ((nat \<times> nat) \<times> (escape_error + uchar)) list" where
  "unescape_raw_str_or_raw_byte_str src is_byte = unescape_raw_loop is_byte (str_len src) src"

subsection \<open>Entry points\<close>

text \<open>The \<open>None\<close> is the \<open>unreachable!()\<close> of \<open>unescape_literal\<close>.\<close>

definition unescape_literal ::
  "uchar list \<Rightarrow> mode \<Rightarrow> ((nat \<times> nat) \<times> (escape_error + uchar)) list option" where
  "unescape_literal src m = (case m of
       Mode_Char \<Rightarrow> (let (res, chars) = unescape_char_or_byte src False
                     in Some [((0, str_len src - str_len chars), res)])
     | Mode_Byte \<Rightarrow> (let (res, chars) = unescape_char_or_byte src True
                     in Some [((0, str_len src - str_len chars), res)])
     | Mode_Str \<Rightarrow> Some (unescape_str_common id id src m)
     | Mode_ByteStr \<Rightarrow> Some (unescape_str_common id id src m)
     | Mode_RawStr \<Rightarrow> Some (unescape_raw_str_or_raw_byte_str src False)
     | Mode_RawByteStr \<Rightarrow> Some (unescape_raw_str_or_raw_byte_str src True)
     | Mode_CStr \<Rightarrow> None
     | Mode_RawCStr \<Rightarrow> None)"

definition unescape_c_string ::
  "uchar list \<Rightarrow> mode \<Rightarrow> ((nat \<times> nat) \<times> (escape_error + cstr_unit)) list" where
  "unescape_c_string src m =
     (if m = Mode_RawCStr
      then map (\<lambda>(r, result). (r, map_sum id CStrChar result))
             (unescape_raw_str_or_raw_byte_str src (characters_should_be_ascii m))
      else unescape_str_common CStrByte CStrChar src m)"

definition unescape_char :: "uchar list \<Rightarrow> escape_error + uchar" where
  "unescape_char src = fst (unescape_char_or_byte src False)"

text \<open>
  \<open>byte_from_char\<close>: the cast \<open>as u8\<close>. Its debug assertion \<open>res <= u8::MAX\<close> is
  the subject of a theorem.
\<close>

definition byte_from_char :: "uchar \<Rightarrow> nat" where
  "byte_from_char c = c mod 256"

definition unescape_byte :: "uchar list \<Rightarrow> escape_error + nat" where
  "unescape_byte src = map_sum id byte_from_char (fst (unescape_char_or_byte src True))"

end
