(* ===== verification/Escape.thy ===== *)
theory Escape
  imports Unescape
begin

text \<open>
  Escaping of characters and strings in the standard library
  (\<open>library/core/src/char/methods.rs\<close>, \<open>library/core/src/escape.rs\<close>) and the round
  trip with the unescaping of \<open>rustc_lexer\<close>: what \<open>escape_default\<close> prints, the
  compiler reads back.
\<close>

definition HEX_DIGITS :: "uchar list" where
  "HEX_DIGITS = str ''0123456789abcdef''"

text \<open>\<open>u32::leading_zeros\<close>.\<close>

fun bit_length :: "nat \<Rightarrow> nat" where
  "bit_length n = (if n = 0 then 0 else Suc (bit_length (n div 2)))"

declare bit_length.simps [simp del]

definition leading_zeros32 :: "nat \<Rightarrow> nat" where
  "leading_zeros32 n = 32 - bit_length n"

text \<open>
  \<open>escape_unicode_into\<close>: the ten bytes of the buffer, the prefix written over them at
  \<open>start\<close>, and the live range from \<open>start\<close> to 10.
\<close>

definition escape_unicode :: "uchar \<Rightarrow> uchar list" where
  "escape_unicode c =
     (let output = [0, 0, 0,
            HEX_DIGITS ! (drop_bit 20 c AND 15), HEX_DIGITS ! (drop_bit 16 c AND 15),
            HEX_DIGITS ! (drop_bit 12 c AND 15), HEX_DIGITS ! (drop_bit 8 c AND 15),
            HEX_DIGITS ! (drop_bit 4 c AND 15), HEX_DIGITS ! (drop_bit 0 c AND 15),
            ch CHR ''}''];
          start = leading_zeros32 (c OR 1) div 4 - 2;
          output' = take start output @ [backslash, ch CHR ''u'', ch CHR ''{''] @ drop (start + 3) output
      in drop start output')"

definition escape_default :: "uchar \<Rightarrow> uchar list" where
  "escape_default c =
     (if c = 0x09 then [backslash, ch CHR ''t'']
      else if c = 0x0D then [backslash, ch CHR ''r'']
      else if c = 0x0A then [backslash, ch CHR ''n'']
      else if c = backslash \<or> c = squote \<or> c = dquote then [backslash, c]
      else if 0x20 \<le> c \<and> c \<le> 0x7E then [c]
      else escape_unicode c)"

definition str_escape_default :: "uchar list \<Rightarrow> uchar list" where
  "str_escape_default s = concat (map escape_default s)"

subsection \<open>Hexadecimal digits\<close>

fun hexdigits :: "nat \<Rightarrow> nat \<Rightarrow> nat list" where
  "hexdigits 0 c = []"
| "hexdigits (Suc k) c = hexdigits k (c div 16) @ [c mod 16]"

lemma hexdigits_numeral:
  "hexdigits (numeral k) c = hexdigits (pred_numeral k) (c div 16) @ [c mod 16]"
  unfolding numeral_eq_Suc [of k] by (rule hexdigits.simps(2))

lemma length_hexdigits [simp]: "length (hexdigits k c) = k"
  by (induction k arbitrary: c) simp_all

lemma hexdigits_less: "d \<in> set (hexdigits k c) \<Longrightarrow> d < 16"
  by (induction k arbitrary: c) auto

lemma drop_hexdigits: "j \<le> k \<Longrightarrow> drop j (hexdigits k c) = hexdigits (k - j) c"
proof (induction k arbitrary: c)
  case (Suc k)
  then show ?case by (cases "j = Suc k") (auto simp: Suc_diff_le)
qed simp

definition horner16 :: "nat \<Rightarrow> nat list \<Rightarrow> nat" where
  "horner16 v ds = foldl (\<lambda>a d. a * 16 + d) v ds"

lemma horner16_simps [simp]:
  "horner16 v [] = v" "horner16 v (d # ds) = horner16 (v * 16 + d) ds"
  by (simp_all add: horner16_def)

lemma horner16_hexdigits: "horner16 0 (hexdigits k c) = c mod 16 ^ k"
proof (induction k arbitrary: c)
  case (Suc k)
  have "horner16 0 (hexdigits (Suc k) c) = (c div 16 mod 16 ^ k) * 16 + c mod 16"
    using Suc [of "c div 16"] by (simp add: horner16_def)
  also have "\<dots> = c mod 16 ^ Suc k" by (simp add: mod_mult2_eq)
  finally show ?case .
qed simp

lemma hex_digit_nth:
  assumes "d < 16"
  shows "to_digit16 (HEX_DIGITS ! d) = Some d" "HEX_DIGITS ! d \<noteq> 95" "HEX_DIGITS ! d \<noteq> 125"
proof -
  have "\<forall>d \<in> set [0..<16]. to_digit16 (HEX_DIGITS ! d) = Some d \<and> HEX_DIGITS ! d \<noteq> 95 \<and> HEX_DIGITS ! d \<noteq> 125"
    by code_simp
  then show "to_digit16 (HEX_DIGITS ! d) = Some d" "HEX_DIGITS ! d \<noteq> 95" "HEX_DIGITS ! d \<noteq> 125"
    using assms by simp_all
qed

lemma bit_length_less: "n < 2 ^ bit_length n"
proof (induction n rule: bit_length.induct)
  case (1 n)
  then show ?case by (cases "n = 0") (simp_all add: bit_length.simps [of n])
qed

lemma bit_length_le: "n < 2 ^ k \<Longrightarrow> bit_length n \<le> k"
proof (induction k arbitrary: n)
  case 0
  then show ?case by (simp add: bit_length.simps)
next
  case (Suc k)
  then show ?case by (cases "n = 0") (simp_all add: bit_length.simps [of n] bit_length.simps [of 0] less_mult_imp_div_less)
qed

lemma bit_length_pos: "0 < n \<Longrightarrow> 0 < bit_length n"
  by (simp add: bit_length.simps [of n])

lemma drop_prefix3: "drop (n + 3) (a # b # c # xs) = drop n xs"
  by (simp add: numeral_3_eq_3)

lemma escape_unicode_digits:
  assumes "c < 2 ^ 24"
  obtains k where "1 \<le> k" "k \<le> 6" "c < 16 ^ k"
    "escape_unicode c = [92, 117, 123] @ map ((!) HEX_DIGITS) (hexdigits k c) @ [125]"
proof -
  let ?n = "c OR 1"
  let ?bl = "bit_length ?n"
  let ?start = "leading_zeros32 ?n div 4 - 2"
  have or1: "?n = c + of_bool (even c)" by (rule or_one_eq)
  have "?n < 2 ^ 24"
    using assms or1 by (cases "even c") (auto elim!: evenE oddE)
  then have bl: "?bl \<le> 24" by (rule bit_length_le)
  have "0 < ?n" using or1 by (cases "c = 0") simp_all
  then have "0 < ?bl" by (rule bit_length_pos)
  with bl have st: "?start \<le> 5" "?bl \<le> 4 * (6 - ?start)" by (simp_all add: leading_zeros32_def)
  have "c \<le> ?n" using or1 by simp
  also have "\<dots> < 2 ^ ?bl" by (rule bit_length_less)
  also have "\<dots> \<le> 2 ^ (4 * (6 - ?start))" using st(2) by (rule power_increasing) simp
  also have "\<dots> = 16 ^ (6 - ?start)" by (simp add: power_mult)
  finally have c: "c < 16 ^ (6 - ?start)" .
  have and15: "x AND 15 = x mod 16" for x :: nat
    using take_bit_eq_mask [of 4 x] by (simp add: take_bit_eq_mod mask_numeral)
  have six: "hexdigits 6 c = [drop_bit 20 c AND 15, drop_bit 16 c AND 15, drop_bit 12 c AND 15,
      drop_bit 8 c AND 15, drop_bit 4 c AND 15, drop_bit 0 c AND 15]"
    by (simp add: hexdigits_numeral and15 drop_bit_eq_div div_mult2_eq [symmetric])
  have "escape_unicode c = [92, 117, 123] @ drop ?start (map ((!) HEX_DIGITS) (hexdigits 6 c) @ [125])"
    unfolding escape_unicode_def Let_def six drop_prefix3 using st(1) by simp
  also have "\<dots> = [92, 117, 123] @ map ((!) HEX_DIGITS) (hexdigits (6 - ?start) c) @ [125]"
    using st(1) by (simp add: drop_map drop_hexdigits)
  finally show thesis using that [of "6 - ?start"] st(1) c by simp
qed

lemma scan_unicode_loop_digits:
  "list_all (\<lambda>d. d < 16) ds \<Longrightarrow> n + length ds \<le> 6 \<Longrightarrow> v < 16 ^ n \<Longrightarrow>
     scan_unicode_loop b n v (map ((!) HEX_DIGITS) ds @ rest) =
     scan_unicode_loop b (n + length ds) (horner16 v ds) rest"
proof (induction ds arbitrary: n v)
  case (Cons d ds)
  have small: "v * 16 + d < 16 ^ Suc n" using Cons.prems by simp
  also have "(16::nat) ^ Suc n \<le> 16 ^ 6" using Cons.prems by (intro power_increasing) simp_all
  finally have "as_u32 (v * 16 + d) = v * 16 + d" by (simp add: as_u32_def)
  then show ?case using Cons.prems Cons.IH [of "Suc n" "v * 16 + d"] small
    by (simp add: hex_digit_nth)
qed simp

lemma scan_unicode_escape:
  assumes "1 \<le> k" and "k \<le> 6" and "c < 16 ^ k" and "is_scalar c"
  shows "scan_unicode False (123 # map ((!) HEX_DIGITS) (hexdigits k c) @ 125 # rest) = (Inr c, rest)"
proof -
  obtain d ds where dds: "hexdigits k c = d # ds" using assms(1) length_hexdigits [of k c] by (cases "hexdigits k c") auto
  have less: "d < 16" "list_all (\<lambda>d. d < 16) ds" using hexdigits_less [of _ k c] dds by (auto simp: list_all_iff)
  have len: "1 + length ds \<le> 6" using length_hexdigits [of k c] dds assms(2) by simp
  have "horner16 d ds = c" using horner16_hexdigits [of k c] dds assms(3) by simp
  then show ?thesis
    using scan_unicode_loop_digits [OF less(2), of 1 d False "125 # rest"] less(1) len assms(4)
    by (simp add: scan_unicode_def dds hex_digit_nth from_u32_def)
qed

subsection \<open>The round trip\<close>

lemma is_scalar_24: "is_scalar c \<Longrightarrow> c < 2 ^ 24"
  by (auto simp: is_scalar_def)

lemma scan_escape_escape_unicode:
  assumes "is_scalar c"
  obtains t where "escape_unicode c = backslash # ch CHR ''u'' # t"
    and "scan_escape f g Mode_Str (ch CHR ''u'' # t @ rest) = (Inr (g c), rest)"
    and "scan_escape f g Mode_Char (ch CHR ''u'' # t @ rest) = (Inr (g c), rest)"
proof -
  obtain k where k: "1 \<le> k" "k \<le> 6" "c < 16 ^ k"
    and eq: "escape_unicode c = [92, 117, 123] @ map ((!) HEX_DIGITS) (hexdigits k c) @ [125]"
    using escape_unicode_digits [OF is_scalar_24 [OF assms]] .
  show thesis
    by (rule that [of "123 # map ((!) HEX_DIGITS) (hexdigits k c) @ [125]"])
      (use scan_unicode_escape [OF k assms, of rest] eq in
        \<open>simp_all add: scan_escape_def is_unicode_escape_disallowed_def\<close>)
qed

lemma unescape_str_loop_escape_default:
  assumes "is_scalar c"
  shows "\<exists>r. unescape_str_loop id id Mode_Str n (escape_default c @ rest) =
    (r, Inr c) # unescape_str_loop id id Mode_Str n rest"
proof (cases "c = 0x09 \<or> c = 0x0D \<or> c = 0x0A \<or> c = backslash \<or> c = squote \<or> c = dquote")
  case True
  then show ?thesis by (auto simp: escape_default_def scan_escape_def Let_def)
next
  case False
  show ?thesis
  proof (cases "0x20 \<le> c \<and> c \<le> 0x7E")
    case True
    with False show ?thesis
      by (auto simp: escape_default_def ascii_check_def is_ascii_char_def Let_def)
  next
    case ctrl: False
    obtain t where "escape_unicode c = backslash # ch CHR ''u'' # t"
      and "scan_escape id id Mode_Str (ch CHR ''u'' # t @ rest) = (Inr (id c), rest)"
      using scan_escape_escape_unicode [OF assms] .
    moreover have "escape_default c = escape_unicode c"
      using False ctrl by (auto simp: escape_default_def)
    ultimately show ?thesis by (simp add: Let_def)
  qed
qed

text \<open>
  C11: what \<open>str::escape_default\<close> prints, the compiler reads back: unescaping the escaped
  text of a string literal yields exactly the characters of the string, each without an
  error, for every string of Unicode scalar values.
\<close>

theorem unescape_escape_default:
  assumes "list_all is_scalar s"
  shows "map snd (unescape_str_common id id (str_escape_default s) Mode_Str) = map Inr s"
proof -
  have "map snd (unescape_str_loop id id Mode_Str n (str_escape_default s)) = map Inr s" for n
    using assms
  proof (induction s)
    case (Cons c s)
    obtain r where "unescape_str_loop id id Mode_Str n (escape_default c @ str_escape_default s) =
        (r, Inr c) # unescape_str_loop id id Mode_Str n (str_escape_default s)"
      using unescape_str_loop_escape_default [of c n "str_escape_default s"] Cons.prems by auto
    moreover have "str_escape_default (c # s) = escape_default c @ str_escape_default s"
      by (simp add: str_escape_default_def)
    moreover have "list_all is_scalar s" using Cons.prems by simp
    ultimately show ?case by (simp only: list.map snd_conv Cons.IH)
  qed (simp add: str_escape_default_def)
  then show ?thesis by (simp add: unescape_str_common_def)
qed

theorem unescape_escape_default_witness:
  "list_all is_scalar [0x61, newline, 0x1F600] \<and>
   str_escape_default [0x61, newline] = [0x61, backslash, ch CHR ''n''] \<and>
   map snd (unescape_str_common id id (str_escape_default [0x61, newline, 0x1F600]) Mode_Str) =
     [Inr 0x61, Inr newline, Inr 0x1F600]"
proof (intro conjI)
  show s: "list_all is_scalar [0x61, newline, 0x1F600]" by code_simp
  show "str_escape_default [0x61, newline] = [0x61, backslash, ch CHR ''n'']" by code_simp
  show "map snd (unescape_str_common id id (str_escape_default [0x61, newline, 0x1F600]) Mode_Str) =
     [Inr 0x61, Inr newline, Inr 0x1F600]"
    using unescape_escape_default [OF s] by simp
qed

text \<open>
  The same for a character literal: \<open>unescape_char\<close> returns the character that
  \<open>char::escape_default\<close> printed.
\<close>

theorem unescape_char_escape_default:
  assumes "is_scalar c"
  shows "unescape_char (escape_default c) = Inr c"
proof (cases "c = 0x09 \<or> c = 0x0D \<or> c = 0x0A \<or> c = backslash \<or> c = squote \<or> c = dquote")
  case True
  then show ?thesis
    by (auto simp: unescape_char_def unescape_char_or_byte_def escape_default_def scan_escape_def)
next
  case False
  show ?thesis
  proof (cases "0x20 \<le> c \<and> c \<le> 0x7E")
    case True
    with False show ?thesis
      by (auto simp: unescape_char_def unescape_char_or_byte_def escape_default_def ascii_check_def)
  next
    case ctrl: False
    obtain t where "escape_unicode c = backslash # ch CHR ''u'' # t"
      and "scan_escape id id Mode_Char (ch CHR ''u'' # t @ []) = (Inr (id c), [])"
      using scan_escape_escape_unicode [OF assms] .
    moreover have "escape_default c = escape_unicode c"
      using False ctrl by (auto simp: escape_default_def)
    ultimately show ?thesis by (simp add: unescape_char_def unescape_char_or_byte_def)
  qed
qed

theorem unescape_char_escape_default_witness:
  "is_scalar 0xE9 \<and> escape_default 0xE9 = backslash # str ''u{e9}'' \<and>
   unescape_char (escape_default 0xE9) = Inr 0xE9"
proof (intro conjI)
  show s: "is_scalar 0xE9" by code_simp
  show "escape_default 0xE9 = backslash # str ''u{e9}''" by code_simp
  show "unescape_char (escape_default 0xE9) = Inr 0xE9" by (rule unescape_char_escape_default [OF s])
qed

end
