(* ===== verification/Unescape_Props.thy ===== *)
theory Unescape_Props
  imports Escape
begin

text \<open>
  Properties of unescaping: the byte ranges handed to the callback, the values of byte
  literals, and the exact behaviour on raw strings.
\<close>

subsection \<open>Ranges\<close>

text \<open>
  \<open>calls_in lo hi calls\<close>: every range of the calls is non-empty and lies between
  \<open>lo\<close> and \<open>hi\<close>, and the starts never decrease.
\<close>

definition calls_in :: "nat \<Rightarrow> nat \<Rightarrow> ((nat \<times> nat) \<times> 'r) list \<Rightarrow> bool" where
  "calls_in lo hi calls \<longleftrightarrow>
     list_all (\<lambda>((a, b), r). lo \<le> a \<and> a < b \<and> b \<le> hi) calls \<and> sorted (map (\<lambda>x. fst (fst x)) calls)"

lemma calls_in_Nil [simp]: "calls_in lo hi []"
  by (simp add: calls_in_def)

lemma calls_in_Cons:
  "lo \<le> a \<Longrightarrow> a < b \<Longrightarrow> b \<le> hi \<Longrightarrow> a \<le> mid \<Longrightarrow> calls_in mid hi calls \<Longrightarrow>
     calls_in lo hi (((a, b), r) # calls)"
  by (fastforce simp: calls_in_def list_all_iff)

lemma calls_in_mono: "calls_in mid hi calls \<Longrightarrow> lo \<le> mid \<Longrightarrow> calls_in lo hi calls"
  by (fastforce simp: calls_in_def list_all_iff)

lemma str_len_suffix: "suffix s t \<Longrightarrow> str_len s \<le> str_len t"
  by (auto simp: suffix_def)

lemma skipped_ascii: "list_all is_skipped sk \<Longrightarrow> str_len sk = length sk"
  by (rule str_len_ascii) (auto simp: is_skipped_def list_all_iff)

lemma skip_ascii_whitespace_calls:
  assumes "chars \<noteq> []" and "is_skipped (hd chars)"
    and "calls_in mid hi cs" and "start \<le> mid" and "start + 1 + str_len chars \<le> hi"
  shows "calls_in start hi (map (\<lambda>(range, err). (range, Inl err)) (fst (skip_ascii_whitespace chars start)) @ cs)"
proof -
  let ?sk = "takeWhile is_skipped chars"
  let ?t = "drop (length ?sk) chars"
  have len: "str_len ?sk = length ?sk"
    by (rule skipped_ascii) (auto simp: list_all_iff dest: set_takeWhileD)
  have split: "str_len chars = length ?sk + str_len ?t"
    using str_len_append [of ?sk ?t] len by (metis append_take_drop_id takeWhile_eq_take)
  show ?thesis
  proof (cases ?t)
    case Nil
    then show ?thesis
      using assms(3-5) split by (auto simp: skip_ascii_whitespace_def Let_def
        intro!: calls_in_Cons [of _ _ _ _ mid] calls_in_mono [OF assms(3)])
  next
    case (Cons c t)
    then have "length ?sk + len_utf8 c \<le> str_len chars" using split by simp
    then show ?thesis
      using assms(3-5) Cons by (auto simp: skip_ascii_whitespace_def Let_def
        intro!: calls_in_Cons [of _ _ _ _ mid] calls_in_Cons [of _ _ _ _ start] calls_in_mono [OF assms(3)])
  qed
qed

lemma unescape_str_loop_calls:
  "str_len chars \<le> n \<Longrightarrow> calls_in (n - str_len chars) n (unescape_str_loop f g m n chars)"
proof (induction f g m n chars rule: unescape_str_loop.induct)
  case (2 f g m n c chars)
  let ?start = "n - str_len (c # chars)"
  have st: "n - str_len chars - len_utf8 c = ?start" by simp
  have le: "str_len chars + len_utf8 c \<le> n" using 2(4) by simp
  have pos: "0 < len_utf8 c" by simp
  consider (skip) "c = backslash" "chars \<noteq> []" "hd chars = newline"
    | (esc) "c = backslash" "\<not> (chars \<noteq> [] \<and> hd chars = newline)" | (plain) "c \<noteq> backslash" by blast
  then show ?case
  proof cases
    case skip
    obtain calls chars1 where sk: "skip_ascii_whitespace chars ?start = (calls, chars1)" by fastforce
    have suf: "str_len chars1 \<le> str_len chars"
      using str_len_suffix [OF suffix_skip_ascii_whitespace [of chars ?start]] sk by simp
    then have "calls_in (n - str_len chars1) n (unescape_str_loop f g m n chars1)"
      using 2(1) [OF refl skip(1) _ sk [folded st, symmetric] refl] skip le by simp
    moreover have "?start \<le> n - str_len chars1" using suf by simp
    ultimately show ?thesis
      using skip skip_ascii_whitespace_calls [of chars "n - str_len chars1" n _ ?start] le sk
      by (simp add: is_skipped_def st)
  next
    case esc
    obtain res chars1 where sc: "scan_escape f g m chars = (res, chars1)" by fastforce
    have suf: "str_len chars1 \<le> str_len chars"
      using str_len_suffix [OF suffix_scan_escape [of f g m chars]] sc by simp
    then have "calls_in (n - str_len chars1) n (unescape_str_loop f g m n chars1)"
      using 2(2) [OF refl esc(1) esc(2) sc [symmetric] refl] le by simp
    then show ?thesis
      using esc sc suf le pos by (auto simp: st Let_def intro!: calls_in_Cons [of _ _ _ _ "n - str_len chars1"])
  next
    case plain
    then have "calls_in (n - str_len chars) n (unescape_str_loop f g m n chars)"
      using 2(3) le by simp
    then have "calls_in ?start n (((?start, n - str_len chars), r) # unescape_str_loop f g m n chars)" for r
      using le pos by (intro calls_in_Cons [of _ _ _ _ "n - str_len chars"]) (simp_all del: len_utf8_pos)
    then show ?thesis using plain unfolding unescape_str_loop.simps st Let_def by simp
  qed
qed simp

lemma unescape_raw_loop_calls:
  "str_len chars \<le> n \<Longrightarrow> calls_in (n - str_len chars) n (unescape_raw_loop b n chars)"
proof (induction chars)
  case (Cons c chars)
  then show ?case using len_utf8_pos [of c]
    by (simp add: Let_def calls_in_Cons [of _ _ _ _ "n - str_len chars"] del: len_utf8_pos)
qed simp

lemma unescape_char_or_byte_progress:
  "src \<noteq> [] \<Longrightarrow> str_len (snd (unescape_char_or_byte src b)) < str_len src"
proof (cases src)
  case (Cons c cs)
  have "str_len (snd (scan_escape id id m cs)) \<le> str_len cs" for m
    by (rule str_len_suffix [OF suffix_scan_escape])
  moreover have "str_len t \<le> str_len (x # t)" for x t by simp
  ultimately have "str_len (snd (unescape_char_or_byte src b)) \<le> str_len cs"
    using Cons by (auto simp: unescape_char_or_byte_def Let_def case_prod_unfold split: sum.splits list.splits)
      (metis (no_types, opaque_lifting) add_leD2 str_len_Cons)+
  moreover have "0 < len_utf8 c" by simp
  ultimately show ?thesis using Cons by (simp del: len_utf8_pos)
qed simp

text \<open>
  Every range handed to the callback of \<open>unescape_literal\<close> is a non-empty range of
  the literal's source text, and the ranges come in the order of their starts.
\<close>

theorem unescape_ranges_in_source:
  assumes "unescape_literal src m = Some calls" and "src \<noteq> []"
  shows "calls_in 0 (str_len src) calls"
proof -
  have "calls_in 0 (str_len src) [((0, str_len src - str_len (snd (unescape_char_or_byte src b))), r)]" for b r
    using unescape_char_or_byte_progress [OF assms(2), of b] by (simp add: calls_in_Cons)
  then show ?thesis
    using assms(1) unescape_str_loop_calls [of src "str_len src" id id m]
      unescape_raw_loop_calls [of src "str_len src"]
    by (cases m) (auto simp: unescape_literal_def unescape_str_common_def
      unescape_raw_str_or_raw_byte_str_def case_prod_unfold Let_def)
qed

theorem unescape_ranges_in_source_witness:
  "unescape_literal [0x61, backslash, newline, newline, 0xA0] Mode_Str =
     Some [((0, 1), Inr 0x61), ((1, 4), Inl MultipleSkippedLinesWarning),
           ((1, 6), Inl UnskippedWhitespaceWarning), ((4, 6), Inr 0xA0)] \<and>
   calls_in 0 6 [((0, 1), Inr 0x61), ((1, 4), Inl MultipleSkippedLinesWarning),
           ((1, 6), Inl UnskippedWhitespaceWarning), ((4, 6), Inr (0xA0 :: uchar))]"
proof (intro conjI)
  show u: "unescape_literal [0x61, backslash, newline, newline, 0xA0] Mode_Str =
     Some [((0, 1), Inr 0x61), ((1, 4), Inl MultipleSkippedLinesWarning),
           ((1, 6), Inl UnskippedWhitespaceWarning), ((4, 6), Inr 0xA0)]"
    by code_simp
  have l: "str_len [0x61, backslash, newline, newline, 0xA0] = 6" by code_simp
  show "calls_in 0 6 [((0, 1), Inr 0x61), ((1, 4), Inl MultipleSkippedLinesWarning),
           ((1, 6), Inl UnskippedWhitespaceWarning), ((4, 6), Inr (0xA0 :: uchar))]"
    using unescape_ranges_in_source [OF u] unfolding l by simp
qed

subsection \<open>Byte literals\<close>

lemma to_digit16_less: "to_digit16 c = Some d \<Longrightarrow> d < 16"
  by (auto simp: to_digit16_def Let_def split: if_splits)

lemma scan_unicode_disallowed: "fst (scan_unicode True chars) \<noteq> Inr v"
proof -
  have "fst (scan_unicode_loop True n x cs) \<noteq> Inr v" for n x cs
    by (induction True n x cs rule: scan_unicode_loop.induct) (auto split: option.splits)
  then show ?thesis by (auto simp: scan_unicode_def split: list.splits option.splits)
qed

lemma hex_pair_less: "hi < 16 \<Longrightarrow> lo < 16 \<Longrightarrow> hi * 16 + lo < (256::nat)"
  by simp

lemma scan_escape_byte:
  assumes "is_unicode_escape_disallowed m" and "fst (scan_escape id id m chars) = Inr v"
  shows "v < 256"
proof (cases chars)
  case (Cons c cs)
  show ?thesis
  proof (cases "c = 117")
    case True
    then have "fst (scan_escape id id m chars) = map_sum id id (fst (scan_unicode True cs))"
      using Cons assms(1) by (simp add: scan_escape_def case_prod_unfold)
    then show ?thesis using assms(2) scan_unicode_disallowed [of cs v] by (metis sum.map_id)
  next
    case False
    then show ?thesis
      using assms(2) Cons
      by (auto simp: scan_escape_def split: if_splits list.splits option.splits
        dest!: to_digit16_less intro: hex_pair_less)
  qed
qed (use assms(2) in \<open>simp add: scan_escape_def\<close>)

lemma ascii_check_byte: "ascii_check c True = Inr v \<Longrightarrow> v < 256"
  by (auto simp: ascii_check_def is_ascii_char_def split: if_splits)

lemma unescape_str_loop_byte:
  assumes "is_unicode_escape_disallowed m" and "characters_should_be_ascii m"
  shows "(r, Inr v) \<in> set (unescape_str_loop id id m n chars) \<Longrightarrow> v < 256"
proof (induction "length chars" arbitrary: chars rule: less_induct)
  case less
  show ?case
  proof (cases chars)
    case (Cons c cs)
    let ?st = "n - str_len cs - len_utf8 c"
    have no_value: "(r, Inr v) \<notin> set (map (\<lambda>(range, err). (range, Inl err)) calls)" for calls by auto
    consider (skip) "c = backslash" "cs \<noteq> []" "hd cs = newline"
      | (esc) "c = backslash" "\<not> (cs \<noteq> [] \<and> hd cs = newline)" | (plain) "c \<noteq> backslash" by blast
    then show ?thesis
    proof cases
      case skip
      then have "(r, Inr v) \<in> set (unescape_str_loop id id m n (snd (skip_ascii_whitespace cs ?st)))"
        using less.prems Cons no_value by (auto simp: case_prod_unfold Let_def)
      moreover have "length (snd (skip_ascii_whitespace cs ?st)) < length chars"
        using suffix_length_skip [of cs ?st] Cons by simp
      ultimately show ?thesis using less.hyps by blast
    next
      case esc
      then have "fst (scan_escape id id m cs) = Inr v \<or>
          (r, Inr v) \<in> set (unescape_str_loop id id m n (snd (scan_escape id id m cs)))"
        using less.prems Cons by (auto simp: case_prod_unfold Let_def)
      moreover have "length (snd (scan_escape id id m cs)) < length chars"
        using suffix_length_scan [of id id m cs] Cons by simp
      ultimately show ?thesis using less.hyps scan_escape_byte [OF assms(1)] by blast
    next
      case plain
      then have "v = 10 \<or> v = 9 \<or> ascii_check c True = Inr v \<or>
          (r, Inr v) \<in> set (unescape_str_loop id id m n cs)"
        using less.prems Cons assms(2) by (auto simp: Let_def sum.map_id split: if_splits)
      then show ?thesis using less.hyps [of cs] Cons ascii_check_byte [of c v] by auto
    qed
  qed (use less.prems in simp)
qed

text \<open>
  Every value a byte literal, a byte string or a raw byte string unescapes to fits in
  a byte, so the debug assertion of \<open>byte_from_char\<close> holds for the characters it is
  called on and its cast loses nothing.
\<close>

theorem byte_literal_values_fit:
  assumes "unescape_literal src m = Some calls"
    and "m = Mode_Byte \<or> m = Mode_ByteStr \<or> m = Mode_RawByteStr"
    and "(r, Inr v) \<in> set calls"
  shows "v \<le> 255 \<and> byte_from_char v = v"
proof -
  have raw: "(r, Inr v) \<in> set (unescape_raw_loop True n chars) \<Longrightarrow> v < 256" for n chars
    by (induction chars) (auto simp: Let_def ascii_check_byte split: if_splits)
  have byte: "fst (unescape_char_or_byte src True) = Inr v \<Longrightarrow> v < 256"
    using scan_escape_byte [of Mode_Byte "tl src" v] ascii_check_byte [of "hd src" v]
    by (auto simp: unescape_char_or_byte_def is_unicode_escape_disallowed_def Let_def case_prod_unfold
      split: list.splits if_splits sum.splits)
  have str: "(r, Inr v) \<in> set (unescape_str_loop id id Mode_ByteStr n chars) \<Longrightarrow> v < 256" for n chars
    by (rule unescape_str_loop_byte)
      (simp_all add: is_unicode_escape_disallowed_def characters_should_be_ascii_def)
  from assms(2) have "v < 256"
  proof (elim disjE)
    assume "m = Mode_Byte"
    then show ?thesis
      using assms(1,3) byte by (auto simp: unescape_literal_def case_prod_unfold Let_def)
  next
    assume "m = Mode_ByteStr"
    then show ?thesis
      using assms(1,3) str [of "str_len src" src]
      by (auto simp: unescape_literal_def unescape_str_common_def)
  next
    assume "m = Mode_RawByteStr"
    then show ?thesis
      using assms(1,3) raw [of "str_len src" src]
      by (auto simp: unescape_literal_def unescape_raw_str_or_raw_byte_str_def)
  qed
  then show ?thesis by (simp add: byte_from_char_def)
qed

theorem byte_literal_values_fit_witness:
  "unescape_literal (backslash # str ''xFF'') Mode_ByteStr = Some [((0, 4), Inr 255)] \<and>
   byte_from_char 255 = 255"
proof (intro conjI)
  show u: "unescape_literal (backslash # str ''xFF'') Mode_ByteStr = Some [((0, 4), Inr 255)]"
    by code_simp
  show "byte_from_char 255 = 255"
    using byte_literal_values_fit [OF u, of "(0, 4)" 255] by simp
qed

subsection \<open>Raw strings\<close>

lemma unescape_raw_loop_eq:
  "n = base + str_len chars \<Longrightarrow>
   unescape_raw_loop b n chars =
     map (\<lambda>i. ((base + str_len (take i chars), base + str_len (take (Suc i) chars)),
        if chars ! i = 0x0D then Inl BareCarriageReturnInRawString else ascii_check (chars ! i) b))
       [0..<length chars]"
proof (induction chars arbitrary: base)
  case (Cons c chars)
  have upt: "[0..<length (c # chars)] = 0 # map Suc [0..<length chars]"
    by (simp add: upt_conv_Cons map_Suc_upt del: upt_Suc)
  have n: "n = (base + len_utf8 c) + str_len chars" using Cons.prems by simp
  have st: "n - str_len chars - len_utf8 c = base" "n - str_len chars = base + len_utf8 c" using n by simp_all
  show ?case
    unfolding upt unescape_raw_loop.simps Let_def st Cons.IH [OF n]
    by (simp add: add.assoc del: upt_Suc)
qed simp

text \<open>
  Unescaping a raw string is the identity on its characters: call number \<open>i\<close>
  covers exactly the bytes of character \<open>i\<close> and returns that character, except for a
  bare carriage return and, in a raw byte string, a character that is not ASCII, which are
  errors.
\<close>

theorem unescape_raw_exact:
  "unescape_raw_str_or_raw_byte_str src is_byte =
     map (\<lambda>i. ((str_len (take i src), str_len (take (Suc i) src)),
        if src ! i = 0x0D then Inl BareCarriageReturnInRawString
        else if is_byte \<and> 128 \<le> src ! i then Inl NonAsciiCharInByte
        else Inr (src ! i)))
       [0..<length src]"
  using unescape_raw_loop_eq [of "str_len src" 0 src is_byte]
  by (simp add: unescape_raw_str_or_raw_byte_str_def ascii_check_def is_ascii_char_def cong: if_cong)

end
