(* ===== verification/Index_Base.thy ===== *)
theory Index_Base
  imports Prelude "HOL-Library.Monad_Syntax"
begin

text \<open>
  Vocabulary of the \<open>rustc_index\<close> components: panics, indexing, loops, range bounds,
  64-bit words, and the interfaces the bit sets share.

  A Rust operation that can panic returns an option: \<open>None\<close> is the panic (a failed
  \<open>assert!\<close>, an index out of range, an arithmetic underflow), \<open>Some\<close> the return.
  An operation that takes \<open>&mut self\<close> and returns a value gives the pair of the new
  state and the value. A \<open>usize\<close> is a natural number; an index newtype \<open>T: Idx\<close> is its
  \<open>index()\<close>.
\<close>

subsection \<open>Panics, indexing and loops\<close>

definition idx :: "'a list \<Rightarrow> nat \<Rightarrow> 'a option" where
  "idx xs i = (if i < length xs then Some (xs ! i) else None)"

definition idx_set :: "'a list \<Rightarrow> nat \<Rightarrow> 'a \<Rightarrow> 'a list option" where
  "idx_set xs i v = (if i < length xs then Some (xs[i := v]) else None)"

text \<open>The slice \<open>xs[a..b]\<close>.\<close>

definition slice_of :: "'a list \<Rightarrow> nat \<Rightarrow> nat \<Rightarrow> 'a list option" where
  "slice_of xs a b = (if a \<le> b \<and> b \<le> length xs then Some (take (b - a) (drop a xs)) else None)"

text \<open>\<open>usize\<close> subtraction and \<open>checked_sub\<close>: both \<open>None\<close> on underflow.\<close>

definition checked_sub :: "nat \<Rightarrow> nat \<Rightarrow> nat option" where
  "checked_sub a b = (if b \<le> a then Some (a - b) else None)"

definition rassert :: "bool \<Rightarrow> unit option" where
  "rassert b = (if b then Some () else None)"

text \<open>A \<open>for\<close> loop over the items of an iterator, whose body may panic.\<close>

primrec for_loop :: "('x \<Rightarrow> 's \<Rightarrow> 's option) \<Rightarrow> 'x list \<Rightarrow> 's \<Rightarrow> 's option" where
  "for_loop body [] s = Some s"
| "for_loop body (x # xs) s = body x s \<bind> for_loop body xs"

text \<open>\<open>iter().position(p)\<close>.\<close>

primrec position :: "('a \<Rightarrow> bool) \<Rightarrow> 'a list \<Rightarrow> nat option" where
  "position p [] = None"
| "position p (x # xs) = (if p x then Some 0 else map_option Suc (position p xs))"

text \<open>\<open>partition_point\<close> of a slice that is partitioned by the predicate.\<close>

definition partition_point :: "('a \<Rightarrow> bool) \<Rightarrow> 'a list \<Rightarrow> nat" where
  "partition_point p xs = length (takeWhile p xs)"

text \<open>\<open>Vec::insert(i, x)\<close>: a panic when the index is past the end.\<close>

definition vec_insert :: "'a list \<Rightarrow> nat \<Rightarrow> 'a \<Rightarrow> 'a list option" where
  "vec_insert xs i x = (if i \<le> length xs then Some (take i xs @ x # drop i xs) else None)"

text \<open>\<open>Vec::remove(i)\<close>.\<close>

definition vec_remove :: "'a list \<Rightarrow> nat \<Rightarrow> 'a list option" where
  "vec_remove xs i = (if i < length xs then Some (take i xs @ drop (Suc i) xs) else None)"

lemma idx_simps [simp]:
  "i < length xs \<Longrightarrow> idx xs i = Some (xs ! i)"
  "i < length xs \<Longrightarrow> idx_set xs i v = Some (xs[i := v])"
  "\<not> i < length xs \<Longrightarrow> idx xs i = None"
  "\<not> i < length xs \<Longrightarrow> idx_set xs i v = None"
  by (simp_all add: idx_def idx_set_def)

lemma those_map_Some: "(\<And>x. x \<in> set xs \<Longrightarrow> f x = Some (g x)) \<Longrightarrow> those (map f xs) = Some (map g xs)"
  by (induction xs) auto

lemma slice_of_simp [simp]:
  "a \<le> b \<Longrightarrow> b \<le> length xs \<Longrightarrow> slice_of xs a b = Some (take (b - a) (drop a xs))"
  by (simp add: slice_of_def)

lemma rassert_simps [simp]: "rassert True = Some ()" "rassert False = None"
  by (simp_all add: rassert_def)

lemma checked_sub_simps [simp]:
  "b \<le> a \<Longrightarrow> checked_sub a b = Some (a - b)"
  "a < b \<Longrightarrow> checked_sub a b = None"
  by (simp_all add: checked_sub_def)

lemma for_loop_Nil [simp]: "for_loop body [] = Some"
  by auto

lemma for_loop_append:
  "for_loop body (xs @ ys) s = for_loop body xs s \<bind> for_loop body ys"
  by (induction xs arbitrary: s) (auto simp: Option.bind_assoc intro: Option.bind_cong)

text \<open>
  The rule for loops: an invariant \<open>I\<close> over the items already visited, kept by a body
  that does not panic while it holds.
\<close>

lemma for_loop_invariant:
  assumes "I [] s"
    and step: "\<And>done x rest s. xs = done @ x # rest \<Longrightarrow> I done s \<Longrightarrow>
      \<exists>s'. body x s = Some s' \<and> I (done @ [x]) s'"
  shows "\<exists>s'. for_loop body xs s = Some s' \<and> I xs s'"
proof -
  have "\<exists>s'. for_loop body ys s = Some s' \<and> I ys s'" if "xs = ys @ zs" for ys zs
    using that
  proof (induction ys arbitrary: zs rule: rev_induct)
    case (snoc y ys)
    then obtain t where "for_loop body ys s = Some t" "I ys t" by auto
    moreover from this step [of ys y zs t] snoc.prems obtain t' where "body y t = Some t'" "I (ys @ [y]) t'"
      by auto
    ultimately show ?case by (simp add: for_loop_append)
  qed (use assms(1) in simp)
  then show ?thesis by simp
qed

lemma position_Some_iff:
  "position p xs = Some i \<longleftrightarrow> i < length xs \<and> p (xs ! i) \<and> (\<forall>j<i. \<not> p (xs ! j))"
proof (induction xs arbitrary: i)
  case (Cons x xs)
  show ?case by (cases i) (auto simp: Cons.IH less_Suc_eq_0_disj)
qed simp

lemma position_None_iff: "position p xs = None \<longleftrightarrow> (\<forall>x\<in>set xs. \<not> p x)"
  by (induction xs) auto

subsection \<open>Range bounds\<close>

text \<open>\<open>std::ops::Bound\<close>; a \<open>RangeBounds\<close> value is the pair of its bounds.\<close>

datatype bound = Included nat | Excluded nat | Unbounded

type_synonym range_bounds = "bound \<times> bound"

text \<open>\<open>RangeBounds::contains\<close>.\<close>

fun range_contains :: "range_bounds \<Rightarrow> nat \<Rightarrow> bool" where
  "range_contains (lo, hi) x =
     ((case lo of Included a \<Rightarrow> a \<le> x | Excluded a \<Rightarrow> a < x | Unbounded \<Rightarrow> True) \<and>
      (case hi of Included b \<Rightarrow> x \<le> b | Excluded b \<Rightarrow> x < b | Unbounded \<Rightarrow> True))"

end
