(* ===== verification/Set_Interface.thy ===== *)
theory Set_Interface
  imports Index_Base
begin

text \<open>
  The contract the index sets of \<open>rustc_index\<close> share, as locales. A representation has a
  domain size, a well-formedness invariant and the set of indices it stands for; each
  kind of operation (membership, insertion, removal, iteration) is one locale, because
  not every set offers all of them. The clients of the contract are proved here once:
  \<open>sequential_update\<close> and the relations that iterate one set to update another.
\<close>

text \<open>
  \<open>sequential_update\<close>: the closure updates the captured set, so the set is threaded
  through the fold.
\<close>

definition sequential_update :: "('s \<Rightarrow> nat \<Rightarrow> ('s \<times> bool) option) \<Rightarrow> nat list \<Rightarrow> 's \<Rightarrow> ('s \<times> bool) option" where
  "sequential_update self_update it s =
     for_loop (\<lambda>elem (s, changed). do {
       (s', b) \<leftarrow> self_update s elem;
       Some (s', b \<or> changed)
     }) it (s, False)"

text \<open>
  \<open>returns dsize elems wf_set s res X r\<close>: the operation does not panic, its result is \<open>r\<close>,
  and the set it leaves is well-formed, over the domain of \<open>s\<close>, and stands for \<open>X\<close>.
\<close>

definition returns ::
  "('s \<Rightarrow> nat) \<Rightarrow> ('s \<Rightarrow> nat set) \<Rightarrow> ('s \<Rightarrow> bool) \<Rightarrow> 's \<Rightarrow> ('s \<times> 'r) option \<Rightarrow> nat set \<Rightarrow> 'r \<Rightarrow> bool" where
  "returns dsize elems wf_set s res X r \<longleftrightarrow>
     (\<exists>s'. res = Some (s', r) \<and> wf_set s' \<and> dsize s' = dsize s \<and> elems s' = X)"

lemma returnsI:
  "res = Some (s', r) \<Longrightarrow> wf_set s' \<Longrightarrow> dsize s' = dsize s \<Longrightarrow> elems s' = X \<Longrightarrow> returns dsize elems wf_set s res X r"
  by (auto simp: returns_def)

lemma returnsE:
  assumes "returns dsize elems wf_set s res X r"
  obtains s' where "res = Some (s', r)" "wf_set s'" "dsize s' = dsize s" "elems s' = X"
  using assms by (auto simp: returns_def)

locale index_set =
  fixes dsize :: "'s \<Rightarrow> nat" and elems :: "'s \<Rightarrow> nat set" and wf_set :: "'s \<Rightarrow> bool"
  assumes elems_in_domain: "wf_set s \<Longrightarrow> elems s \<subseteq> {..<dsize s}"

locale index_set_contains = index_set +
  fixes contains :: "'s \<Rightarrow> nat \<Rightarrow> bool option"
  assumes contains_elem: "wf_set s \<Longrightarrow> e < dsize s \<Longrightarrow> contains s e = Some (e \<in> elems s)"

locale index_set_insert = index_set +
  fixes ins :: "'s \<Rightarrow> nat \<Rightarrow> ('s \<times> bool) option"
  assumes insert_elem:
    "wf_set s \<Longrightarrow> e < dsize s \<Longrightarrow> returns dsize elems wf_set s (ins s e) (insert e (elems s)) (e \<notin> elems s)"
begin

lemma sequential_insert:
  assumes "wf_set s" and "set es \<subseteq> {..<dsize s}"
  shows "returns dsize elems wf_set s (sequential_update ins es s) (elems s \<union> set es) (\<not> set es \<subseteq> elems s)"
proof -
  let ?body = "\<lambda>elem (s, changed). do { (s', b) \<leftarrow> ins s elem; Some (s', b \<or> changed) }"
  let ?I = "\<lambda>es (t, ch). wf_set t \<and> dsize t = dsize s \<and> elems t = elems s \<union> set es \<and> ch = (\<not> set es \<subseteq> elems s)"
  have "\<exists>r. for_loop ?body es (s, False) = Some r \<and> ?I es r"
  proof (rule for_loop_invariant)
    fix before e after r assume "es = before @ e # after" and I: "?I before r"
    then have "wf_set (fst r)" "e < dsize (fst r)" using assms(2) by auto
    then obtain t where "ins (fst r) e = Some (t, e \<notin> elems (fst r))" "wf_set t" "dsize t = dsize (fst r)"
        "elems t = insert e (elems (fst r))"
      using returnsE [OF insert_elem] by metis
    then show "\<exists>r'. ?body e r = Some r' \<and> ?I (before @ [e]) r'" using I by auto
  qed (use assms in simp)
  then show ?thesis unfolding sequential_update_def returns_def by auto
qed

end

locale index_set_remove = index_set +
  fixes rem :: "'s \<Rightarrow> nat \<Rightarrow> ('s \<times> bool) option"
  assumes remove_elem:
    "wf_set s \<Longrightarrow> e < dsize s \<Longrightarrow> returns dsize elems wf_set s (rem s e) (elems s - {e}) (e \<in> elems s)"
begin

lemma sequential_remove:
  assumes "wf_set s" and "set es \<subseteq> {..<dsize s}"
  shows "returns dsize elems wf_set s (sequential_update rem es s) (elems s - set es) (elems s \<inter> set es \<noteq> {})"
proof -
  let ?body = "\<lambda>elem (s, changed). do { (s', b) \<leftarrow> rem s elem; Some (s', b \<or> changed) }"
  let ?I = "\<lambda>es (t, ch). wf_set t \<and> dsize t = dsize s \<and> elems t = elems s - set es \<and> ch = (elems s \<inter> set es \<noteq> {})"
  have "\<exists>r. for_loop ?body es (s, False) = Some r \<and> ?I es r"
  proof (rule for_loop_invariant)
    fix before e after r assume "es = before @ e # after" and I: "?I before r"
    then have "wf_set (fst r)" "e < dsize (fst r)" using assms(2) by auto
    then obtain t where "rem (fst r) e = Some (t, e \<in> elems (fst r))" "wf_set t" "dsize t = dsize (fst r)"
        "elems t = elems (fst r) - {e}"
      using returnsE [OF remove_elem] by metis
    then show "\<exists>r'. ?body e r = Some r' \<and> ?I (before @ [e]) r'" using I by auto
  qed (use assms in simp)
  then show ?thesis unfolding sequential_update_def returns_def by auto
qed

end

text \<open>Iteration visits the elements once each, in increasing order.\<close>

locale index_set_iter = index_set +
  fixes iter :: "'s \<Rightarrow> nat list"
  assumes iter_elems: "wf_set s \<Longrightarrow> iter s = sorted_list_of_set (elems s)"
begin

lemma finite_elems: "wf_set s \<Longrightarrow> finite (elems s)"
  using elems_in_domain finite_subset by blast

lemma set_iter: "wf_set s \<Longrightarrow> set (iter s) = elems s"
  by (simp add: iter_elems finite_elems)

lemma iter_in_domain: "wf_set s \<Longrightarrow> set (iter s) \<subseteq> {..<dsize s}"
  by (simp add: set_iter elems_in_domain)

end

text \<open>One set updated by the iterator of another one over the same domain.\<close>

locale index_set_union_by_iter =
  dst: index_set_insert dsize1 elems1 wf1 ins + src: index_set_iter dsize2 elems2 wf2 iter
  for dsize1 :: "'s \<Rightarrow> nat" and elems1 wf1 ins and dsize2 :: "'t \<Rightarrow> nat" and elems2 wf2 iter
begin

lemma union_by_iter:
  assumes "wf1 s" and "wf2 t" and "dsize2 t = dsize1 s"
  shows "returns dsize1 elems1 wf1 s (sequential_update ins (iter t) s)
    (elems1 s \<union> elems2 t) (elems1 s \<union> elems2 t \<noteq> elems1 s)"
  using dst.sequential_insert [OF assms(1), of "iter t"] src.iter_in_domain [OF assms(2)]
    src.set_iter [OF assms(2)] assms(3)
  by (simp add: Un_absorb2 subset_Un_eq Un_commute)

end

locale index_set_subtract_by_iter =
  dst: index_set_remove dsize1 elems1 wf1 rem + src: index_set_iter dsize2 elems2 wf2 iter
  for dsize1 :: "'s \<Rightarrow> nat" and elems1 wf1 rem and dsize2 :: "'t \<Rightarrow> nat" and elems2 wf2 iter
begin

lemma subtract_by_iter:
  assumes "wf1 s" and "wf2 t" and "dsize2 t = dsize1 s"
  shows "returns dsize1 elems1 wf1 s (sequential_update rem (iter t) s)
    (elems1 s - elems2 t) (elems1 s - elems2 t \<noteq> elems1 s)"
  using dst.sequential_remove [OF assms(1), of "iter t"] src.iter_in_domain [OF assms(2)]
    src.set_iter [OF assms(2)] assms(3)
  by (auto simp: returns_def)

end

end
