(* ===== verification/Bit_Words.thy ===== *)
theory Bit_Words
  imports Index_Base
begin

text \<open>
  The 64-bit words of \<open>rustc_index/src/bit_set.rs\<close>: the helper functions of the file
  (\<open>num_words\<close>, \<open>word_index_and_mask\<close>, \<open>clear_excess_bits_in_final_word\<close>, \<open>max_bit\<close>,
  \<open>bitwise\<close>), the integer intrinsics it calls, and the set of indices a slice of words
  stands for.
\<close>

subsection \<open>Helpers of the source\<close>

type_synonym word64 = "64 word"

definition WORD_BITS :: nat where "WORD_BITS = 64"

definition num_words :: "nat \<Rightarrow> nat" where
  "num_words domain_size = (domain_size + WORD_BITS - 1) div WORD_BITS"

text \<open>
  The same in \<open>usize\<close>: the addition overflows for domains of \<open>2 ^ 64 - 64\<close> elements and more. The sets of
  a fixed domain use \<open>num_words\<close>, because a vector for such a domain cannot be allocated anyway.
\<close>

definition num_words_usize :: "nat \<Rightarrow> nat option" where
  "num_words_usize domain_size =
     (if domain_size + WORD_BITS < 2 ^ 64 then Some ((domain_size + WORD_BITS - 1) div WORD_BITS) else None)"

definition word_index_and_mask :: "nat \<Rightarrow> nat \<times> word64" where
  "word_index_and_mask elem = (elem div WORD_BITS, push_bit (elem mod WORD_BITS) 1)"

definition clear_excess_bits_in_final_word :: "nat \<Rightarrow> word64 list \<Rightarrow> word64 list option" where
  "clear_excess_bits_in_final_word domain_size words =
     (let num_bits_in_final_word = domain_size mod WORD_BITS in
      if num_bits_in_final_word > 0 then
        let mask = push_bit num_bits_in_final_word 1 - 1 in
        do {
          last \<leftarrow> checked_sub (length words) 1;
          w \<leftarrow> idx words last;
          idx_set words last (w AND mask)
        }
      else Some words)"

text \<open>The intrinsics \<open>count_ones\<close>, \<open>trailing_zeros\<close> and \<open>leading_zeros\<close> of \<open>u64\<close>.\<close>

definition count_ones :: "word64 \<Rightarrow> nat" where
  "count_ones w = length (filter (bit w) [0..<64])"

definition trailing_zeros :: "word64 \<Rightarrow> nat" where
  "trailing_zeros w = length (takeWhile (\<lambda>i. \<not> bit w i) [0..<64])"

definition leading_zeros :: "word64 \<Rightarrow> nat" where
  "leading_zeros w = length (takeWhile (\<lambda>i. \<not> bit w i) (rev [0..<64]))"

definition max_bit :: "word64 \<Rightarrow> nat option" where
  "max_bit word = checked_sub (WORD_BITS - 1) (leading_zeros word)"

text \<open>
  \<open>bitwise\<close>: the loop over the zipped words, with the accumulated difference
  \<open>changed\<close>; \<open>bitwise_changes\<close> stops at the first difference.
\<close>

fun bitwise_loop :: "(word64 \<Rightarrow> word64 \<Rightarrow> word64) \<Rightarrow> word64 list \<Rightarrow> word64 list \<Rightarrow> word64 \<Rightarrow> word64 list \<times> word64" where
  "bitwise_loop opr (old_val # out_vec) (in_elem # in_vec) changed =
     (let new_val = opr old_val in_elem;
          (out, changed') = bitwise_loop opr out_vec in_vec (changed OR (old_val XOR new_val))
      in (new_val # out, changed'))"
| "bitwise_loop opr out_vec in_vec changed = (out_vec, changed)"

definition bitwise :: "(word64 \<Rightarrow> word64 \<Rightarrow> word64) \<Rightarrow> word64 list \<Rightarrow> word64 list \<Rightarrow> (word64 list \<times> bool) option" where
  "bitwise opr out_vec in_vec = do {
     rassert (length out_vec = length in_vec);
     let (out, changed) = bitwise_loop opr out_vec in_vec 0;
     Some (out, changed \<noteq> 0)
   }"

fun bitwise_changes_loop :: "(word64 \<Rightarrow> word64 \<Rightarrow> word64) \<Rightarrow> word64 list \<Rightarrow> word64 list \<Rightarrow> bool" where
  "bitwise_changes_loop opr (old_val # out_vec) (in_elem # in_vec) =
     (let new_val = opr old_val in_elem in
      if old_val \<noteq> new_val then True else bitwise_changes_loop opr out_vec in_vec)"
| "bitwise_changes_loop opr out_vec in_vec = False"

definition bitwise_changes :: "(word64 \<Rightarrow> word64 \<Rightarrow> word64) \<Rightarrow> word64 list \<Rightarrow> word64 list \<Rightarrow> bool option" where
  "bitwise_changes opr out_vec in_vec = do {
     rassert (length out_vec = length in_vec);
     Some (bitwise_changes_loop opr out_vec in_vec)
   }"

subsection \<open>Bits of the masks\<close>

lemma bit64_less: "bit (w :: word64) i \<Longrightarrow> i < 64"
  using bit_imp_le_length [of w i] by simp

lemma word64_eq_iff: "(v :: word64) = w \<longleftrightarrow> (\<forall>i<64. bit v i = bit w i)"
  by (auto simp: bit_eq_iff dest: bit64_less)

lemma word_index_and_mask_simp [simp]:
  "word_index_and_mask e = (e div 64, 2 ^ (e mod 64))"
  by (simp add: word_index_and_mask_def WORD_BITS_def)

lemma bit_exp64 [simp]: "bit (2 ^ k :: word64) i \<longleftrightarrow> i = k \<and> k < 64"
  by (auto simp: bit_exp_iff dest: bit64_less)

lemma and_exp64: "w AND 2 ^ k \<noteq> 0 \<longleftrightarrow> bit w k" "w AND 2 ^ k = 0 \<longleftrightarrow> \<not> bit w k" for w :: word64
  by (auto simp: word64_eq_iff bit_and_iff dest: bit64_less)

lemma bit_mask64: "bit (2 ^ k - 1 :: word64) i \<longleftrightarrow> i < 64 \<and> i < k"
  using bit_mask_iff [of k i, where 'a = word64] by (simp add: mask_eq_exp_minus_1)

lemma exp_diff64: "s \<le> e \<Longrightarrow> 2 ^ e - 2 ^ s = (push_bit s (2 ^ (e - s) - 1) :: word64)"
  by (simp add: push_bit_eq_mult left_diff_distrib flip: power_add)

lemma bit_exp_diff64:
  "s \<le> e \<Longrightarrow> bit (2 ^ e - 2 ^ s :: word64) i \<longleftrightarrow> s \<le> i \<and> i < e \<and> i < 64"
  by (auto simp: exp_diff64 bit_push_bit_iff bit_mask64)

lemmas bit64_simps = bit_and_iff bit_or_iff bit_xor_iff bit_not_iff bit_mask64 bit_exp_diff64

lemma num_words_bound: "domain \<le> 64 * num_words domain" "64 * num_words domain < domain + 64"
proof -
  have "64 * num_words domain + (domain + 63) mod 64 = domain + 63"
    by (simp add: num_words_def WORD_BITS_def add.commute)
  moreover have "(domain + 63) mod 64 < 64" by simp
  ultimately show "domain \<le> 64 * num_words domain" "64 * num_words domain < domain + 64" by linarith+
qed

lemma num_words_div:
  "num_words domain = domain div 64 + (if domain mod 64 = 0 then 0 else 1)"
proof -
  have d: "domain = 64 * (domain div 64) + domain mod 64" "domain mod 64 < 64" by simp_all
  show ?thesis
  proof (cases "domain mod 64 = 0")
    case True
    then have "num_words domain = domain div 64" using num_words_bound [of domain] d by linarith
    then show ?thesis using True by simp
  next
    case False
    then have "num_words domain = domain div 64 + 1" using num_words_bound [of domain] d by linarith
    then show ?thesis using False by simp
  qed
qed

lemma num_words_less: "i < domain \<Longrightarrow> i div 64 < num_words domain"
  using num_words_bound(1) [of domain] by auto

subsection \<open>Intrinsics\<close>

lemma count_ones_card: "count_ones w = card {i. bit w i}"
proof -
  have "{i. bit w i} = set (filter (bit w) [0..<64])" by (auto dest: bit64_less)
  then show ?thesis by (simp only: count_ones_def distinct_card distinct_filter distinct_upt)
qed

lemma count_ones_le: "count_ones w \<le> 64"
  by (metis count_ones_def length_filter_le length_upt minus_nat.diff_0)

lemma trailing_zeros:
  assumes "w \<noteq> 0"
  shows "bit w (trailing_zeros w)" and "\<And>i. i < trailing_zeros w \<Longrightarrow> \<not> bit w i" and "trailing_zeros w < 64"
proof -
  let ?t = "takeWhile (\<lambda>i. \<not> bit w i) [0..<64]"
  obtain k where "k < 64" "bit w k" using assms by (auto simp: word64_eq_iff)
  then have "\<exists>x\<in>set [0..<64]. bit w x" by auto
  then have len: "length ?t < length [0..<64]"
    by (metis (no_types, lifting) length_takeWhile_le nat_less_le set_takeWhileD takeWhile_eq_take take_all_iff)
  then show "trailing_zeros w < 64" by (simp add: trailing_zeros_def)
  show "bit w (trailing_zeros w)"
    using nth_length_takeWhile [OF len] len by (simp add: trailing_zeros_def)
  show "\<not> bit w i" if "i < trailing_zeros w" for i
    using that len takeWhile_nth [of i "\<lambda>i. \<not> bit w i" "[0..<64]"] nth_mem [of i ?t]
    by (auto simp: trailing_zeros_def dest!: set_takeWhileD)
qed

lemma max_bit:
  assumes "w \<noteq> 0"
  shows "\<exists>m. max_bit w = Some m \<and> bit w m \<and> (\<forall>i. bit w i \<longrightarrow> i \<le> m)"
proof -
  let ?l = "rev [0..<64]" let ?t = "takeWhile (\<lambda>i. \<not> bit w i) ?l"
  obtain k where "k < 64" "bit w k" using assms by (auto simp: word64_eq_iff)
  then have "\<exists>x\<in>set ?l. bit w x" by auto
  then have len: "length ?t < length ?l"
    by (metis (no_types, lifting) length_takeWhile_le nat_less_le set_takeWhileD takeWhile_eq_take take_all_iff)
  then have n: "leading_zeros w < 64" by (simp add: leading_zeros_def)
  have "bit w (?l ! length ?t)" using nth_length_takeWhile [OF len] by simp
  then have "bit w (63 - leading_zeros w)"
    using n by (simp add: leading_zeros_def rev_nth)
  moreover have "i \<le> 63 - leading_zeros w" if "bit w i" for i
  proof (rule ccontr)
    assume "\<not> ?thesis"
    then have "63 - i < length ?t" using n bit64_less [OF that] by (simp add: leading_zeros_def)
    then have "?t ! (63 - i) = ?l ! (63 - i)" "?t ! (63 - i) \<in> set ?t"
      by (simp_all add: takeWhile_nth nth_mem del: nth_mem) (metis nth_mem takeWhile_nth)
    moreover have "?l ! (63 - i) = i" using bit64_less [OF that] by (simp add: rev_nth)
    ultimately show False using that by (metis set_takeWhileD)
  qed
  ultimately show ?thesis using n by (simp add: max_bit_def WORD_BITS_def)
qed

subsection \<open>The set of indices of a slice of words\<close>

definition words_set :: "word64 list \<Rightarrow> nat set" where
  "words_set ws = {i. i < 64 * length ws \<and> bit (ws ! (i div 64)) (i mod 64)}"

lemma words_set_iff:
  "i \<in> words_set ws \<longleftrightarrow> i < 64 * length ws \<and> bit (ws ! (i div 64)) (i mod 64)"
  by (simp add: words_set_def)

lemma words_set_code [code]:
  "words_set ws = set (filter (\<lambda>i. bit (ws ! (i div 64)) (i mod 64)) [0..<64 * length ws])"
  by (auto simp: words_set_def)

lemma words_set_Nil [simp]: "words_set [] = {}"
  by (simp add: words_set_def)

lemma words_set_bound: "words_set ws \<subseteq> {..<64 * length ws}"
  by (auto simp: words_set_iff)

lemma finite_words_set [simp]: "finite (words_set ws)"
  by (rule finite_subset [OF words_set_bound]) simp

lemma div64_less: "i < 64 * n \<longleftrightarrow> i div 64 < n" for i n :: nat
  by (auto simp: div_less_iff_less_mult mult.commute)

lemma less_div_mod64: "i < d \<longleftrightarrow> i div 64 < d div 64 \<or> i div 64 = d div 64 \<and> i mod 64 < d mod 64" for i d :: nat
proof -
  have "i = 64 * (i div 64) + i mod 64" "d = 64 * (d div 64) + d mod 64" "i mod 64 < 64" "d mod 64 < 64"
    by simp_all
  then show ?thesis by (cases "i div 64" "d div 64" rule: linorder_cases) linarith+
qed

lemma words_set_Cons: "words_set (w # ws) = {i. bit w i} \<union> (+) 64 ` words_set ws"
proof -
  have "i \<in> words_set (w # ws) \<longleftrightarrow> bit w i" if "i < 64" for i
    using that by (simp add: words_set_iff)
  moreover have "i \<in> words_set (w # ws) \<longleftrightarrow> i - 64 \<in> words_set ws" if "64 \<le> i" for i
    using that by (auto simp: words_set_iff le_mod_geq le_div_geq)
  moreover have "i \<in> (+) 64 ` words_set ws \<longleftrightarrow> 64 \<le> i \<and> i - 64 \<in> words_set ws" for i
    by (auto simp: image_iff) (metis le_add_diff_inverse)
  moreover have "\<not> bit w i" if "64 \<le> i" for i using bit64_less [of w i] that by auto
  ultimately have "i \<in> words_set (w # ws) \<longleftrightarrow> i \<in> {i. bit w i} \<union> (+) 64 ` words_set ws" for i
    by (cases "i < 64") (auto simp: not_less)
  then show ?thesis by blast
qed

lemma words_set_eqI:
  "length ws = length vs \<Longrightarrow> words_set ws = words_set vs \<Longrightarrow> ws = vs"
proof (rule nth_equalityI)
  fix k assume eq: "length ws = length vs" "words_set ws = words_set vs" and k: "k < length ws"
  have "bit (ws ! k) i = bit (vs ! k) i" if "i < 64" for i
  proof -
    have "64 * k + i \<in> words_set ws \<longleftrightarrow> 64 * k + i \<in> words_set vs" using eq by simp
    then show ?thesis using that k eq(1) by (simp add: words_set_iff)
  qed
  then show "ws ! k = vs ! k" by (simp add: word64_eq_iff)
qed

lemma card_words_set: "card (words_set ws) = sum_list (map count_ones ws)"
proof (induction ws)
  case (Cons w ws)
  have "{i. bit w i} \<inter> (+) 64 ` words_set ws = {}" by (auto dest: bit64_less)
  moreover have "finite {i. bit w i}" by (rule finite_subset [of _ "{..<64}"]) (auto dest: bit64_less)
  ultimately show ?case
    by (simp add: words_set_Cons card_Un_disjoint count_ones_card card_image Cons.IH)
qed simp

lemma words_set_update:
  "words_set (ws[k := w]) =
     (if k < length ws then {i \<in> words_set ws. i div 64 \<noteq> k} \<union> {64 * k + i | i. bit w i} else words_set ws)"
proof (cases "k < length ws")
  case True
  have "i \<in> words_set (ws[k := w]) \<longleftrightarrow> (if i div 64 = k then bit w (i mod 64) else i \<in> words_set ws)" for i
    using True by (auto simp: words_set_iff div64_less)
  moreover have "i \<in> {64 * k + j | j. bit w j} \<longleftrightarrow> i div 64 = k \<and> bit w (i mod 64)" for i
  proof
    assume "i div 64 = k \<and> bit w (i mod 64)"
    then show "i \<in> {64 * k + j | j. bit w j}" by (metis (mono_tags, lifting) mem_Collect_eq mult_div_mod_eq)
  qed (use bit64_less [of w] in auto)
  ultimately show ?thesis using True by (auto split: if_splits)
qed (simp add: list_update_beyond)

lemma words_set_set_bit:
  assumes "e < 64 * length ws"
  shows "words_set (ws[e div 64 := ws ! (e div 64) OR 2 ^ (e mod 64)]) = insert e (words_set ws)"
proof (rule set_eqI)
  fix i
  have "i div 64 = e div 64 \<and> i mod 64 = e mod 64 \<longleftrightarrow> i = e" by (metis div_mult_mod_eq)
  then show "i \<in> words_set (ws[e div 64 := ws ! (e div 64) OR 2 ^ (e mod 64)]) \<longleftrightarrow> i \<in> insert e (words_set ws)"
    using assms by (auto simp: words_set_iff nth_list_update div64_less bit_or_iff)
qed

lemma words_set_clear_bit:
  assumes "e < 64 * length ws"
  shows "words_set (ws[e div 64 := ws ! (e div 64) AND NOT (2 ^ (e mod 64))]) = words_set ws - {e}"
proof (rule set_eqI)
  fix i
  have "i div 64 = e div 64 \<and> i mod 64 = e mod 64 \<longleftrightarrow> i = e" by (metis div_mult_mod_eq)
  then show "i \<in> words_set (ws[e div 64 := ws ! (e div 64) AND NOT (2 ^ (e mod 64))]) \<longleftrightarrow> i \<in> words_set ws - {e}"
    using assms by (auto simp: words_set_iff nth_list_update div64_less bit_and_iff bit_not_iff)
qed

lemma words_set_replicate_0 [simp]: "words_set (replicate n 0) = {}"
  by (auto simp: words_set_iff div64_less)

lemma words_set_replicate_ones [simp]: "words_set (replicate n (- 1)) = {..<64 * n}"
  by (auto simp: words_set_iff div64_less)

lemma clear_excess_bits:
  assumes "length ws = num_words domain" and "0 < domain \<or> ws = []"
  shows "\<exists>vs. clear_excess_bits_in_final_word domain ws = Some vs \<and> length vs = length ws \<and>
    words_set vs = words_set ws \<inter> {..<domain}"
proof (cases "domain mod 64 = 0")
  case True
  then have "64 * num_words domain = domain" by (simp add: num_words_div mod_0_imp_dvd)
  then have "words_set ws \<subseteq> {..<domain}" using words_set_bound [of ws] assms(1) by simp
  then show ?thesis using True by (auto simp: clear_excess_bits_in_final_word_def WORD_BITS_def)
next
  case False
  let ?m = "2 ^ (domain mod 64) - 1 :: word64" let ?l = "length ws - 1"
  have l: "length ws = Suc (domain div 64)" using False assms(1) by (simp add: num_words_div)
  have "i \<in> words_set (ws[?l := ws ! ?l AND ?m]) \<longleftrightarrow> i \<in> words_set ws \<inter> {..<domain}" for i
  proof -
    have "i div 64 < length ws \<Longrightarrow> i div 64 \<le> domain div 64" using l by simp
    then show ?thesis
      using l by (auto simp: words_set_iff div64_less less_div_mod64 [of i domain] nth_list_update bit_and_iff bit_mask64
        split: if_splits)
  qed
  then show ?thesis
    using False l by (auto simp: clear_excess_bits_in_final_word_def WORD_BITS_def)
qed

lemma zero_or_iff: "a OR b = 0 \<longleftrightarrow> a = 0 \<and> b = 0" for a b :: word64
  by (auto simp: word64_eq_iff bit_or_iff)

lemma zero_xor_iff: "a XOR b = 0 \<longleftrightarrow> a = b" for a b :: word64
  by (auto simp: word64_eq_iff bit_xor_iff)

lemma bitwise_loop_eq:
  assumes "length out_vec = length in_vec"
  shows "fst (bitwise_loop opr out_vec in_vec changed) = map2 opr out_vec in_vec"
    and "snd (bitwise_loop opr out_vec in_vec changed) = 0 \<longleftrightarrow> changed = 0 \<and> map2 opr out_vec in_vec = out_vec"
  using assms
  by (induction opr out_vec in_vec changed rule: bitwise_loop.induct)
    (auto simp: case_prod_unfold Let_def zero_or_iff zero_xor_iff)

lemma bitwise_Some:
  "length out_vec = length in_vec \<Longrightarrow>
     bitwise opr out_vec in_vec = Some (map2 opr out_vec in_vec, map2 opr out_vec in_vec \<noteq> out_vec)"
  by (simp add: bitwise_def case_prod_unfold bitwise_loop_eq)

lemma bitwise_changes_Some:
  "length out_vec = length in_vec \<Longrightarrow>
     bitwise_changes opr out_vec in_vec = Some (map2 opr out_vec in_vec \<noteq> out_vec)"
  by (induction opr out_vec in_vec rule: bitwise_changes_loop.induct)
    (auto simp: bitwise_changes_def Let_def)

lemma words_set_map2:
  assumes "length a = length b"
  shows "words_set (map2 (OR) a b) = words_set a \<union> words_set b"
    and "words_set (map2 (AND) a b) = words_set a \<inter> words_set b"
    and "words_set (map2 (\<lambda>x y. x AND NOT y) a b) = words_set a - words_set b"
  using assms by (auto simp: words_set_iff div64_less bit_or_iff bit_and_iff bit_not_iff)

end
