(* ===== verification/Bit_Set.thy ===== *)
theory Bit_Set
  imports Set_Interface Bit_Words
begin

text \<open>
  \<open>BitSet\<close> of \<open>rustc_index/src/bit_set.rs\<close>, the dense set: its operations, \<open>BitIter\<close>,
  and the dense relations.
\<close>

record bit_set =
  domain_size :: nat
  words :: "word64 list"

fun inclusive_start_end :: "range_bounds \<Rightarrow> nat \<Rightarrow> (nat \<times> nat) option option" where
  "inclusive_start_end (start_bound, end_bound) domain =
     (let start = (case start_bound of Included start \<Rightarrow> start | Excluded start \<Rightarrow> start + 1 | Unbounded \<Rightarrow> 0) in
      case (case end_bound of
              Included end \<Rightarrow> Some (Some end)
            | Excluded end \<Rightarrow> Some (checked_sub end 1)
            | Unbounded \<Rightarrow> map_option Some (checked_sub domain 1)) of
        None \<Rightarrow> None
      | Some None \<Rightarrow> Some None
      | Some (Some end) \<Rightarrow>
          if \<not> end < domain then None
          else if start > end then Some None
          else Some (Some (start, end)))"

definition new_empty :: "nat \<Rightarrow> bit_set" where
  "new_empty domain = \<lparr>domain_size = domain, words = replicate (num_words domain) 0\<rparr>"

definition clear_excess_bits :: "bit_set \<Rightarrow> bit_set option" where
  "clear_excess_bits self = do {
     ws \<leftarrow> clear_excess_bits_in_final_word (domain_size self) (words self);
     Some (self\<lparr>words := ws\<rparr>)
   }"

definition new_filled :: "nat \<Rightarrow> bit_set option" where
  "new_filled domain =
     clear_excess_bits \<lparr>domain_size = domain, words = replicate (num_words domain) (NOT 0)\<rparr>"

definition clear :: "bit_set \<Rightarrow> bit_set" where
  "clear self = self\<lparr>words := map (\<lambda>_. 0) (words self)\<rparr>"

definition count :: "bit_set \<Rightarrow> nat" where
  "count self = sum_list (map count_ones (words self))"

definition contains :: "bit_set \<Rightarrow> nat \<Rightarrow> bool option" where
  "contains self elem = do {
     rassert (elem < domain_size self);
     let (word_index, mask) = word_index_and_mask elem;
     word \<leftarrow> idx (words self) word_index;
     Some (word AND mask \<noteq> 0)
   }"

definition superset :: "bit_set \<Rightarrow> bit_set \<Rightarrow> bool option" where
  "superset self other = do {
     rassert (domain_size self = domain_size other);
     Some (list_all (\<lambda>(a, b). a AND b = b) (zip (words self) (words other)))
   }"

definition is_empty :: "bit_set \<Rightarrow> bool" where
  "is_empty self = list_all (\<lambda>a. a = 0) (words self)"

definition insert_elem :: "bit_set \<Rightarrow> nat \<Rightarrow> (bit_set \<times> bool) option" where
  "insert_elem self elem = do {
     rassert (elem < domain_size self);
     let (word_index, mask) = word_index_and_mask elem;
     word \<leftarrow> idx (words self) word_index;
     let new_word = word OR mask;
     ws \<leftarrow> idx_set (words self) word_index new_word;
     Some (self\<lparr>words := ws\<rparr>, new_word \<noteq> word)
   }"

definition remove :: "bit_set \<Rightarrow> nat \<Rightarrow> (bit_set \<times> bool) option" where
  "remove self elem = do {
     rassert (elem < domain_size self);
     let (word_index, mask) = word_index_and_mask elem;
     word \<leftarrow> idx (words self) word_index;
     let new_word = word AND NOT mask;
     ws \<leftarrow> idx_set (words self) word_index new_word;
     Some (self\<lparr>words := ws\<rparr>, new_word \<noteq> word)
   }"

text \<open>\<open>words[i] |= bits\<close>.\<close>

definition or_word :: "word64 list \<Rightarrow> nat \<Rightarrow> word64 \<Rightarrow> word64 list option" where
  "or_word ws i bits = do { w \<leftarrow> idx ws i; idx_set ws i (w OR bits) }"

definition insert_range :: "bit_set \<Rightarrow> range_bounds \<Rightarrow> bit_set option" where
  "insert_range self elems = do {
     bounds \<leftarrow> inclusive_start_end elems (domain_size self);
     case bounds of
       None \<Rightarrow> Some self
     | Some (start, end) \<Rightarrow> do {
         let (start_word_index, start_mask) = word_index_and_mask start;
         let (end_word_index, end_mask) = word_index_and_mask end;
         ws \<leftarrow> for_loop (\<lambda>word_index ws. idx_set ws word_index (NOT 0))
                 [start_word_index + 1..<end_word_index] (words self);
         ws \<leftarrow> (if start_word_index \<noteq> end_word_index then do {
                    ws \<leftarrow> or_word ws start_word_index (NOT (start_mask - 1));
                    or_word ws end_word_index (end_mask OR (end_mask - 1))
                  }
                else or_word ws start_word_index (end_mask OR (end_mask - start_mask)));
         Some (self\<lparr>words := ws\<rparr>)
       }
   }"

definition insert_all :: "bit_set \<Rightarrow> bit_set option" where
  "insert_all self = clear_excess_bits (self\<lparr>words := map (\<lambda>_. NOT 0) (words self)\<rparr>)"

text \<open>The last index of a word with \<open>p\<close> in a slice: \<open>iter().rposition(p)\<close>.\<close>

definition rposition :: "('a \<Rightarrow> bool) \<Rightarrow> 'a list \<Rightarrow> nat option" where
  "rposition p xs = map_option (\<lambda>i. length xs - 1 - i) (position p (rev xs))"

definition last_set_in :: "bit_set \<Rightarrow> range_bounds \<Rightarrow> nat option option" where
  "last_set_in self rng = do {
     bounds \<leftarrow> inclusive_start_end rng (domain_size self);
     case bounds of
       None \<Rightarrow> Some None
     | Some (start, end) \<Rightarrow> do {
         let (start_word_index, _) = word_index_and_mask start;
         let (end_word_index, end_mask) = word_index_and_mask end;
         w \<leftarrow> idx (words self) end_word_index;
         let end_word = w AND (end_mask OR (end_mask - 1));
         early \<leftarrow> (if end_word \<noteq> 0 then do {
                       b \<leftarrow> max_bit end_word;
                       let pos = b + WORD_BITS * end_word_index;
                       Some (if start \<le> pos then Some pos else None)
                     }
                   else Some None);
         case early of
           Some pos \<Rightarrow> Some (Some pos)
         | None \<Rightarrow> do {
             before \<leftarrow> slice_of (words self) start_word_index end_word_index;
             case rposition (\<lambda>w. w \<noteq> 0) before of
               None \<Rightarrow> Some None
             | Some offset \<Rightarrow> do {
                 let word_idx = start_word_index + offset;
                 start_word \<leftarrow> idx (words self) word_idx;
                 b \<leftarrow> max_bit start_word;
                 let pos = b + WORD_BITS * word_idx;
                 Some (if start \<le> pos then Some pos else None)
               }
           }
       }
   }"

text \<open>Dense relations.\<close>

definition relate :: "(word64 \<Rightarrow> word64 \<Rightarrow> word64) \<Rightarrow> bit_set \<Rightarrow> bit_set \<Rightarrow> (bit_set \<times> bool) option" where
  "relate opr self other = do {
     rassert (domain_size self = domain_size other);
     (ws, changed) \<leftarrow> bitwise opr (words self) (words other);
     Some (self\<lparr>words := ws\<rparr>, changed)
   }"

definition union :: "bit_set \<Rightarrow> bit_set \<Rightarrow> (bit_set \<times> bool) option" where
  "union = relate (\<lambda>a b. a OR b)"

definition subtract :: "bit_set \<Rightarrow> bit_set \<Rightarrow> (bit_set \<times> bool) option" where
  "subtract = relate (\<lambda>a b. a AND NOT b)"

definition intersect :: "bit_set \<Rightarrow> bit_set \<Rightarrow> (bit_set \<times> bool) option" where
  "intersect = relate (\<lambda>a b. a AND b)"

subsection \<open>BitIter\<close>

text \<open>
  The iterator keeps the unvisited bits of the current word, the offset of that word as
  a \<open>usize\<close> that starts 64 below the wrap-around, and the words not yet started.
\<close>

record bit_iter =
  it_word :: word64
  it_offset :: nat
  it_words :: "word64 list"

definition bit_iter_new :: "word64 list \<Rightarrow> bit_iter" where
  "bit_iter_new ws = \<lparr>it_word = 0, it_offset = (2 ^ 64 - 1) - (WORD_BITS - 1), it_words = ws\<rparr>"

fun bit_iter_loop :: "word64 \<Rightarrow> nat \<Rightarrow> word64 list \<Rightarrow> (nat \<times> bit_iter) option" where
  "bit_iter_loop word offset iter =
     (if word \<noteq> 0 then
        let bit_pos = trailing_zeros word;
            bit = push_bit bit_pos 1
        in Some (bit_pos + offset, \<lparr>it_word = word XOR bit, it_offset = offset, it_words = iter\<rparr>)
      else
        case iter of
          [] \<Rightarrow> None
        | word' # iter' \<Rightarrow> bit_iter_loop word' ((offset + WORD_BITS) mod 2 ^ 64) iter')"

definition bit_iter_next :: "bit_iter \<Rightarrow> (nat \<times> bit_iter) option" where
  "bit_iter_next self = bit_iter_loop (it_word self) (it_offset self) (it_words self)"

lemma xor_lowest_bit:
  "w \<noteq> 0 \<Longrightarrow> {i. bit w i} = insert (trailing_zeros w) {i. bit (w XOR 2 ^ trailing_zeros w) i}"
  using trailing_zeros [of w] by (auto simp: bit_xor_iff)

lemma count_ones_xor_lowest:
  assumes "w \<noteq> 0"
  shows "count_ones (w XOR 2 ^ trailing_zeros w) < count_ones w"
proof -
  have "{i. bit (w XOR 2 ^ trailing_zeros w) i} = {i. bit w i} - {trailing_zeros w}"
    using trailing_zeros [OF assms] by (auto simp: bit_xor_iff)
  moreover have "finite {i. bit w i}" by (rule finite_subset [of _ "{..<64}"]) (auto dest: bit64_less)
  ultimately show ?thesis
    using trailing_zeros(1) [OF assms] card_Diff1_less [of "{i. bit w i}" "trailing_zeros w"]
    by (simp only: count_ones_card mem_Collect_eq)
qed

declare bit_iter_loop.simps [simp del]

text \<open>The items of the iterator: \<open>next\<close> until it returns \<open>None\<close>.\<close>

lemma bit_iter_loop_decreases:
  "bit_iter_loop w off ws = Some (e, it') \<Longrightarrow>
     (length (it_words it'), count_ones (it_word it')) = (length ws, count_ones (w XOR 2 ^ trailing_zeros w)) \<and> w \<noteq> 0 \<or>
     length (it_words it') < length ws"
proof (induction ws arbitrary: w off)
  case Nil
  then show ?case by (auto simp: bit_iter_loop.simps [of w] Let_def split: if_splits)
next
  case (Cons v ws)
  show ?case
  proof (cases "w = 0")
    case True
    then have "bit_iter_loop v ((off + WORD_BITS) mod 2 ^ 64) ws = Some (e, it')"
      using Cons.prems unfolding True by (simp add: bit_iter_loop.simps [of 0])
    then show ?thesis using Cons.IH by fastforce
  qed (use Cons.prems in \<open>auto simp: bit_iter_loop.simps [of w] Let_def\<close>)
qed

function bit_iter_collect :: "bit_iter \<Rightarrow> nat list" where
  "bit_iter_collect it = (case bit_iter_next it of None \<Rightarrow> [] | Some (e, it') \<Rightarrow> e # bit_iter_collect it')"
  by pat_completeness auto
termination
  by (relation "measures [\<lambda>it. length (it_words it), \<lambda>it. count_ones (it_word it)]")
    (auto simp: bit_iter_next_def dest!: bit_iter_loop_decreases dest: count_ones_xor_lowest)

declare bit_iter_collect.simps [simp del]

definition iter :: "bit_set \<Rightarrow> nat list" where
  "iter self = bit_iter_collect (bit_iter_new (words self))"

text \<open>The items word by word.\<close>

fun bit_list :: "nat \<Rightarrow> word64 list \<Rightarrow> nat list" where
  "bit_list off [] = []"
| "bit_list off (w # ws) = map ((+) off) (filter (bit w) [0..<64]) @ bit_list (off + 64) ws"

lemma sorted_filter_upt: "filter P [0..<n] = sorted_list_of_set {i. i < n \<and> P i}"
proof -
  have "set (filter P [0..<n]) = {i. i < n \<and> P i}" by auto
  then show ?thesis
    using sorted_list_of_set.idem_if_sorted_distinct [of "filter P [0..<n]"] by (simp add: sorted_wrt_filter)
qed

lemma filter_lowest_bit:
  assumes "w \<noteq> 0"
  shows "filter (bit w) [0..<64] = trailing_zeros w # filter (bit (w XOR 2 ^ trailing_zeros w)) [0..<64]"
proof (rule sorted_distinct_set_unique)
  show "sorted (trailing_zeros w # filter (bit (w XOR 2 ^ trailing_zeros w)) [0..<64])"
    using trailing_zeros [OF assms] by (auto simp: sorted_wrt_filter bit_xor_iff intro: leI)
  show "distinct (trailing_zeros w # filter (bit (w XOR 2 ^ trailing_zeros w)) [0..<64])"
    using trailing_zeros [OF assms] by (auto simp: bit_xor_iff)
  show "set (filter (bit w) [0..<64]) = set (trailing_zeros w # filter (bit (w XOR 2 ^ trailing_zeros w)) [0..<64])"
    using trailing_zeros [OF assms] by (auto simp: bit_xor_iff)
qed (simp_all add: sorted_wrt_filter)

lemma bit_iter_collect_word:
  "w \<noteq> 0 \<Longrightarrow>
     bit_iter_collect \<lparr>it_word = w, it_offset = off, it_words = ws\<rparr> =
       (trailing_zeros w + off) #
       bit_iter_collect \<lparr>it_word = w XOR 2 ^ trailing_zeros w, it_offset = off, it_words = ws\<rparr>"
  by (subst bit_iter_collect.simps) (simp add: bit_iter_next_def bit_iter_loop.simps Let_def)

lemma bit_iter_collect_zero:
  "bit_iter_collect \<lparr>it_word = 0, it_offset = off, it_words = ws\<rparr> =
     (case ws of [] \<Rightarrow> []
      | v # vs \<Rightarrow> bit_iter_collect \<lparr>it_word = v, it_offset = (off + 64) mod 2 ^ 64, it_words = vs\<rparr>)"
proof (cases ws)
  case Nil
  then show ?thesis by (subst bit_iter_collect.simps) (simp add: bit_iter_next_def bit_iter_loop.simps)
next
  case (Cons v vs)
  then have "bit_iter_next \<lparr>it_word = 0, it_offset = off, it_words = ws\<rparr> =
      bit_iter_next \<lparr>it_word = v, it_offset = (off + 64) mod 2 ^ 64, it_words = vs\<rparr>"
    by (simp add: bit_iter_next_def bit_iter_loop.simps [of 0] WORD_BITS_def)
  then show ?thesis using Cons by (subst (1 2) bit_iter_collect.simps) simp
qed

lemma bit_iter_collect_eq:
  "off + 64 * (length ws + 1) \<le> 2 ^ 64 \<Longrightarrow>
     bit_iter_collect \<lparr>it_word = w, it_offset = off, it_words = ws\<rparr> = bit_list off (w # ws)"
proof (induction ws arbitrary: w off)
  case Nil
  show ?case
  proof (induction "count_ones w" arbitrary: w rule: less_induct)
    case less
    then show ?case
      using count_ones_xor_lowest [of w]
      by (cases "w = 0") (simp_all add: bit_iter_collect_zero bit_iter_collect_word filter_lowest_bit)
  qed
next
  case (Cons v ws)
  have mod: "(off + 64) mod 2 ^ 64 = off + 64" using Cons.prems by simp
  have IH: "bit_iter_collect \<lparr>it_word = v, it_offset = off + 64, it_words = ws\<rparr> = bit_list (off + 64) (v # ws)"
    by (rule Cons.IH) (use Cons.prems in simp)
  show ?case
  proof (induction "count_ones w" arbitrary: w rule: less_induct)
    case less
    then show ?case
      using count_ones_xor_lowest [of w] mod IH
      by (cases "w = 0") (simp_all add: bit_iter_collect_zero bit_iter_collect_word filter_lowest_bit)
  qed
qed

lemma bit_list_offset: "bit_list (off + k) ws = map ((+) k) (bit_list off ws)"
proof (induction ws arbitrary: off)
  case (Cons w ws)
  have "off + k + 64 = (off + 64) + k" by simp
  then show ?case using Cons.IH [of "off + 64"] by (simp add: comp_def add_ac)
qed simp

lemma bit_list_sorted: "bit_list 0 ws = sorted_list_of_set (words_set ws)"
proof (rule sorted_distinct_set_unique)
  have set: "set (bit_list 0 ws) = words_set ws"
  proof (induction ws)
    case (Cons w ws)
    then show ?case using bit_list_offset [of 0 64 ws] by (auto simp: words_set_Cons dest: bit64_less)
  qed simp
  then show "set (bit_list 0 ws) = set (sorted_list_of_set (words_set ws))" by simp
  have "sorted (bit_list 0 ws) \<and> distinct (bit_list 0 ws)"
  proof (induction ws)
    case (Cons w ws)
    have "sorted (map ((+) 64) (bit_list 0 ws))" "sorted (map ((+) 0) (filter (bit w) [0..<64]))"
      using Cons by (simp_all add: sorted_map sorted_wrt_filter)
    then show ?case
      using Cons bit_list_offset [of 0 64 ws]
      by (auto simp: sorted_append distinct_map)
  qed simp
  then show "sorted (bit_list 0 ws)" "distinct (bit_list 0 ws)" by blast+
qed simp_all

text \<open>
  The iterator visits exactly the set bits, in increasing order; the address space
  bounds the number of words.
\<close>

lemma bit_iter_collect_new:
  assumes "64 * length ws \<le> 2 ^ 64"
  shows "bit_iter_collect (bit_iter_new ws) = sorted_list_of_set (words_set ws)"
proof -
  have "bit_iter_collect (bit_iter_new ws) = bit_list 0 ws"
  proof (cases ws)
    case (Cons v vs)
    have "((2 ^ 64 - 1) - (WORD_BITS - 1) + 64) mod 2 ^ 64 = 0" by (simp add: WORD_BITS_def)
    then show ?thesis
      using bit_iter_collect_eq [of 0 vs v] assms Cons
      by (simp add: bit_iter_new_def bit_iter_collect_zero)
  qed (simp add: bit_iter_new_def bit_iter_collect_zero)
  then show ?thesis by (simp add: bit_list_sorted)
qed

subsection \<open>Well-formed sets\<close>

definition bs_ok :: "bit_set \<Rightarrow> bool" where
  "bs_ok s \<longleftrightarrow> domain_size s < 2 ^ 64 \<and> length (words s) = num_words (domain_size s) \<and>
     words_set (words s) \<subseteq> {..<domain_size s}"

definition bs_elems :: "bit_set \<Rightarrow> nat set" where
  "bs_elems s = words_set (words s)"

abbreviation bs_returns :: "bit_set \<Rightarrow> (bit_set \<times> 'r) option \<Rightarrow> nat set \<Rightarrow> 'r \<Rightarrow> bool" where
  "bs_returns \<equiv> returns domain_size bs_elems bs_ok"

lemma words_set_in_domain:
  assumes "length ws = num_words d"
  shows "words_set ws \<subseteq> {..<d} \<longleftrightarrow> d mod 64 = 0 \<or> take_bit (d mod 64) (last ws) = last ws"
proof (cases "d mod 64 = 0")
  case True
  then show ?thesis using assms words_set_bound [of ws] by (simp add: num_words_div mod_0_imp_dvd)
next
  case False
  then have len: "length ws = Suc (d div 64)" using assms by (simp add: num_words_div)
  then have last: "last ws = ws ! (d div 64)" by (metis diff_Suc_1 last_conv_nth list.size(3) nat.simps(3))
  have bits: "bit (last ws) i \<longleftrightarrow> 64 * (d div 64) + i \<in> words_set ws" if "i < 64" for i
    using that len last by (simp add: words_set_iff)
  have "words_set ws \<subseteq> {..<d} \<longleftrightarrow> (\<forall>i<64. d mod 64 \<le> i \<longrightarrow> \<not> bit (last ws) i)"
  proof (intro iffI allI impI subsetI)
    fix i assume sub: "words_set ws \<subseteq> {..<d}" and i: "i < 64" "d mod 64 \<le> i"
    have "\<not> 64 * (d div 64) + i < d" using i div_mult_mod_eq [of d 64] by linarith
    then show "\<not> bit (last ws) i" using sub bits [OF i(1)] by auto
  next
    fix x assume *: "\<forall>i<64. d mod 64 \<le> i \<longrightarrow> \<not> bit (last ws) i" and x: "x \<in> words_set ws"
    then have "x div 64 \<le> d div 64" using len div64_less [of x "length ws"] by (auto simp: words_set_iff)
    moreover have "x mod 64 < d mod 64" if "x div 64 = d div 64"
      using * x last that mod_less_divisor [of 64 x] by (metis linorder_not_le words_set_iff zero_less_numeral)
    ultimately show "x \<in> {..<d}" by (auto simp: less_div_mod64 [of x d])
  qed
  also have "\<dots> \<longleftrightarrow> take_bit (d mod 64) (last ws) = last ws"
    by (auto simp: word64_eq_iff bit_take_bit_iff not_le)
  finally show ?thesis using False by simp
qed

lemma bs_ok_code [code]:
  "bs_ok s \<longleftrightarrow> domain_size s < 2 ^ 64 \<and> length (words s) = num_words (domain_size s) \<and>
     (domain_size s mod 64 = 0 \<or> take_bit (domain_size s mod 64) (last (words s)) = last (words s))"
  unfolding bs_ok_def by (simp only: words_set_in_domain cong: conj_cong)

lemma bs_ok_words:
  "bs_ok s \<Longrightarrow> e < domain_size s \<Longrightarrow> e div 64 < length (words s) \<and> e < 64 * length (words s)"
  using num_words_bound(1) [of "domain_size s"] by (auto simp: bs_ok_def num_words_less)

lemma bs_mem_word:
  "bs_ok s \<Longrightarrow> e < domain_size s \<Longrightarrow> e \<in> bs_elems s \<longleftrightarrow> bit (words s ! (e div 64)) (e mod 64)"
  using bs_ok_words [of s e] by (simp add: bs_elems_def words_set_iff)

lemma or_bit_changed: "k < 64 \<Longrightarrow> w OR 2 ^ k = w \<longleftrightarrow> bit w k" for w :: word64
  by (auto simp: word64_eq_iff bit_or_iff)

lemma clear_bit_changed: "k < 64 \<Longrightarrow> w AND NOT (2 ^ k) = w \<longleftrightarrow> \<not> bit w k" for w :: word64
  by (auto simp: word64_eq_iff bit_and_iff bit_not_iff)

interpretation bs: index_set domain_size bs_elems bs_ok
  by unfold_locales (simp add: bs_ok_def bs_elems_def)

interpretation bs_contains: index_set_contains domain_size bs_elems bs_ok contains
  by unfold_locales (simp add: contains_def bs_ok_words bs_mem_word and_exp64)

lemma bs_insert_elem:
  assumes "bs_ok s" and "e < domain_size s"
  shows "bs_returns s (insert_elem s e) (insert e (bs_elems s)) (e \<notin> bs_elems s)"
proof (rule returnsI)
  let ?s' = "s\<lparr>words := (words s)[e div 64 := words s ! (e div 64) OR 2 ^ (e mod 64)]\<rparr>"
  show "insert_elem s e = Some (?s', e \<notin> bs_elems s)"
    using assms bs_ok_words [OF assms] by (simp add: insert_elem_def bs_mem_word or_bit_changed)
  have "bs_elems ?s' = insert e (bs_elems s)"
    using bs_ok_words [OF assms] by (simp add: bs_elems_def words_set_set_bit)
  then show "bs_elems ?s' = insert e (bs_elems s)" "bs_ok ?s'"
    using assms by (auto simp: bs_ok_def bs_elems_def)
qed simp

lemma bs_remove_elem:
  assumes "bs_ok s" and "e < domain_size s"
  shows "bs_returns s (remove s e) (bs_elems s - {e}) (e \<in> bs_elems s)"
proof (rule returnsI)
  let ?s' = "s\<lparr>words := (words s)[e div 64 := words s ! (e div 64) AND NOT (2 ^ (e mod 64))]\<rparr>"
  show "remove s e = Some (?s', e \<in> bs_elems s)"
    using assms bs_ok_words [OF assms] by (simp add: remove_def bs_mem_word clear_bit_changed)
  have "bs_elems ?s' = bs_elems s - {e}"
    using bs_ok_words [OF assms] by (simp add: bs_elems_def words_set_clear_bit)
  then show "bs_elems ?s' = bs_elems s - {e}" "bs_ok ?s'"
    using assms by (auto simp: bs_ok_def bs_elems_def)
qed simp

interpretation bs_insert: index_set_insert domain_size bs_elems bs_ok insert_elem
  by unfold_locales (rule bs_insert_elem)

interpretation bs_remove: index_set_remove domain_size bs_elems bs_ok remove
  by unfold_locales (rule bs_remove_elem)

lemma bs_ok_address_space: "bs_ok s \<Longrightarrow> 64 * length (words s) \<le> 2 ^ 64"
  using num_words_div [of "domain_size s"] by (auto simp: bs_ok_def)

interpretation bs_iter: index_set_iter domain_size bs_elems bs_ok iter
  by unfold_locales (simp add: iter_def bit_iter_collect_new [OF bs_ok_address_space] bs_elems_def)

end
