(* ===== verification/Bit_Set_Props.thy ===== *)
theory Bit_Set_Props
  imports Bit_Set
begin

text \<open>
  What the operations of the dense \<open>BitSet\<close> do on the set of indices it stands for:
  construction, counting, the relations, ranges.
\<close>

subsection \<open>Construction and whole-set operations\<close>

lemma clear_excess_words:
  assumes "length (words s) = num_words (domain_size s)" and "domain_size s < 2 ^ 64"
  shows "\<exists>s'. clear_excess_bits s = Some s' \<and> bs_ok s' \<and> domain_size s' = domain_size s \<and>
    bs_elems s' = words_set (words s) \<inter> {..<domain_size s}"
proof -
  have "0 < domain_size s \<or> words s = []" using assms(1) by (cases "domain_size s") (auto simp: num_words_div)
  then obtain vs where "clear_excess_bits_in_final_word (domain_size s) (words s) = Some vs"
      "length vs = length (words s)" "words_set vs = words_set (words s) \<inter> {..<domain_size s}"
    using Bit_Words.clear_excess_bits [OF assms(1)] by blast
  then show ?thesis
    using assms by (auto simp: clear_excess_bits_def bs_ok_def bs_elems_def)
qed

lemma bs_new_empty: "n < 2 ^ 64 \<Longrightarrow> bs_ok (new_empty n) \<and> bs_elems (new_empty n) = {}"
  by (simp add: new_empty_def bs_ok_def bs_elems_def)

lemma bs_new_filled:
  "n < 2 ^ 64 \<Longrightarrow> \<exists>s. new_filled n = Some s \<and> bs_ok s \<and> domain_size s = n \<and> bs_elems s = {..<n}"
  using clear_excess_words [of "\<lparr>domain_size = n, words = replicate (num_words n) (NOT 0)\<rparr>"]
    num_words_bound(1) [of n]
  by (auto simp: new_filled_def Int_absorb1)

lemma bs_clear: "bs_ok s \<Longrightarrow> bs_ok (clear s) \<and> domain_size (clear s) = domain_size s \<and> bs_elems (clear s) = {}"
  by (simp add: clear_def bs_ok_def bs_elems_def map_replicate_const)

lemma bs_insert_all:
  "bs_ok s \<Longrightarrow> \<exists>s'. insert_all s = Some s' \<and> bs_ok s' \<and> domain_size s' = domain_size s \<and>
     bs_elems s' = {..<domain_size s}"
  using clear_excess_words [of "s\<lparr>words := map (\<lambda>_. NOT 0) (words s)\<rparr>"] num_words_bound(1) [of "domain_size s"]
  by (auto simp: insert_all_def bs_ok_def map_replicate_const Int_absorb1)

lemma bs_count: "bs_ok s \<Longrightarrow> count s = card (bs_elems s)"
  by (simp add: count_def bs_elems_def card_words_set)

lemma bs_is_empty: "is_empty s \<longleftrightarrow> bs_elems s = {}"
proof -
  have "words_set (words s) = {} \<longleftrightarrow> words s = replicate (length (words s)) 0"
    using words_set_eqI [of "words s" "replicate (length (words s)) 0"] by (metis length_replicate words_set_replicate_0)
  then show ?thesis
    unfolding is_empty_def bs_elems_def list_all_iff by (metis in_set_replicate replicate_length_same)
qed

lemma bs_superset:
  assumes "bs_ok s" and "bs_ok t" and "domain_size s = domain_size t"
  shows "superset s t = Some (bs_elems t \<subseteq> bs_elems s)"
proof -
  have len: "length (words s) = length (words t)" using assms by (simp add: bs_ok_def)
  have "list_all (\<lambda>(a, b). a AND b = b) (zip (words s) (words t)) \<longleftrightarrow> map2 (AND) (words s) (words t) = words t"
    using len by (auto simp: list_all_length list_eq_iff_nth_eq)
  also have "\<dots> \<longleftrightarrow> words_set (map2 (AND) (words s) (words t)) = words_set (words t)"
    using words_set_eqI [of "map2 (AND) (words s) (words t)" "words t"] len by (metis length_map length_zip min.idem)
  also have "\<dots> \<longleftrightarrow> words_set (words s) \<inter> words_set (words t) = words_set (words t)"
    by (simp only: words_set_map2(2) [OF len])
  finally show ?thesis using assms(3) by (auto simp: superset_def bs_elems_def)
qed

subsection \<open>Dense relations\<close>

lemma relate_returns:
  assumes "bs_ok s" and "bs_ok t" and "domain_size t = domain_size s"
    and "words_set (map2 opr (words s) (words t)) = X" and "X \<subseteq> {..<domain_size s}"
  shows "bs_returns s (relate opr s t) X (X \<noteq> bs_elems s)"
proof (rule returnsI)
  let ?ws = "map2 opr (words s) (words t)"
  have len: "length (words s) = length (words t)" using assms by (simp add: bs_ok_def)
  have "?ws \<noteq> words s \<longleftrightarrow> X \<noteq> bs_elems s"
    using words_set_eqI [of ?ws "words s"] len assms(4) by (auto simp: bs_elems_def)
  then show "relate opr s t = Some (s\<lparr>words := ?ws\<rparr>, X \<noteq> bs_elems s)"
    using len assms(3) by (simp add: relate_def bitwise_Some)
  show "bs_ok (s\<lparr>words := ?ws\<rparr>)" using assms len by (simp add: bs_ok_def)
qed (use assms in \<open>simp_all add: bs_elems_def\<close>)

lemma bs_relations:
  assumes "bs_ok s" and "bs_ok t" and "domain_size t = domain_size s"
  shows "bs_returns s (union s t) (bs_elems s \<union> bs_elems t) (bs_elems s \<union> bs_elems t \<noteq> bs_elems s)"
    and "bs_returns s (subtract s t) (bs_elems s - bs_elems t) (bs_elems s - bs_elems t \<noteq> bs_elems s)"
    and "bs_returns s (intersect s t) (bs_elems s \<inter> bs_elems t) (bs_elems s \<inter> bs_elems t \<noteq> bs_elems s)"
proof -
  have len: "length (words s) = length (words t)" using assms by (simp add: bs_ok_def)
  note X = words_set_map2 [OF len, folded bs_elems_def]
  have dom: "bs_elems s \<subseteq> {..<domain_size s}" "bs_elems t \<subseteq> {..<domain_size s}"
    using assms by (simp_all add: bs_ok_def bs_elems_def)
  show "bs_returns s (union s t) (bs_elems s \<union> bs_elems t) (bs_elems s \<union> bs_elems t \<noteq> bs_elems s)"
    unfolding union_def using dom by (intro relate_returns assms X) simp
  show "bs_returns s (subtract s t) (bs_elems s - bs_elems t) (bs_elems s - bs_elems t \<noteq> bs_elems s)"
    unfolding subtract_def using dom by (intro relate_returns assms X) auto
  show "bs_returns s (intersect s t) (bs_elems s \<inter> bs_elems t) (bs_elems s \<inter> bs_elems t \<noteq> bs_elems s)"
    unfolding intersect_def using dom by (intro relate_returns assms X) auto
qed

text \<open>
  C16: on well-formed dense sets over the same domain, \<open>union\<close>, \<open>subtract\<close> and
  \<open>intersect\<close> compute the set operation, report a change exactly when the set changed,
  and keep the excess bits of the last word clear.
\<close>

theorem dense_relations_exact:
  assumes "bs_ok s" and "bs_ok t" and "domain_size t = domain_size s"
    and "(rel, X) \<in> {(union, bs_elems s \<union> bs_elems t), (subtract, bs_elems s - bs_elems t),
      (intersect, bs_elems s \<inter> bs_elems t)}"
  shows "\<exists>s'. rel s t = Some (s', X \<noteq> bs_elems s) \<and> bs_ok s' \<and> domain_size s' = domain_size s \<and> bs_elems s' = X"
  using assms(4) bs_relations [OF assms(1-3)] by (auto simp: returns_def)

theorem dense_relations_exact_witness:
  "let s = \<lparr>domain_size = 70, words = [5, 2]\<rparr>; t = \<lparr>domain_size = 70, words = [4, 32]\<rparr> in
   bs_ok s \<and> bs_ok t \<and> (\<exists>s'. subtract s t = Some (s', bs_elems s - bs_elems t \<noteq> bs_elems s) \<and>
     bs_elems s' = bs_elems s - bs_elems t)"
proof -
  let ?s = "\<lparr>domain_size = 70, words = [5, 2]\<rparr>" and ?t = "\<lparr>domain_size = 70, words = [4, 32]\<rparr>"
  have ok: "bs_ok ?s" "bs_ok ?t" by code_simp+
  show ?thesis
    using dense_relations_exact [of ?s ?t subtract "bs_elems ?s - bs_elems ?t"] ok
    by (auto simp: Let_def)
qed

subsection \<open>Ranges\<close>

text \<open>The end bound of a range lies inside the domain; otherwise the operation panics.\<close>

fun range_in_domain :: "range_bounds \<Rightarrow> nat \<Rightarrow> bool" where
  "range_in_domain (lo, Included e) d = (e < d)"
| "range_in_domain (lo, Excluded e) d = (e \<le> d)"
| "range_in_domain (lo, Unbounded) d = (0 < d)"

lemma inclusive_start_end_panics: "inclusive_start_end r d = None \<longleftrightarrow> \<not> range_in_domain r d"
  by (cases r; cases "snd r") (auto simp: checked_sub_def Let_def split: if_splits)

lemma inclusive_start_end_cases:
  assumes "range_in_domain r d"
  obtains (empty) "inclusive_start_end r d = Some None" "\<And>e. e < d \<Longrightarrow> \<not> range_contains r e"
  | (range) a b where "inclusive_start_end r d = Some (Some (a, b))" "a \<le> b" "b < d"
      "\<And>e. e < d \<Longrightarrow> range_contains r e \<longleftrightarrow> a \<le> e \<and> e \<le> b"
proof -
  obtain lo hi where r: "r = (lo, hi)" by fastforce
  let ?a = "case lo of Included a \<Rightarrow> a | Excluded a \<Rightarrow> a + 1 | Unbounded \<Rightarrow> 0"
  have lo: "(case lo of Included a \<Rightarrow> a \<le> x | Excluded a \<Rightarrow> a < x | Unbounded \<Rightarrow> True) \<longleftrightarrow> ?a \<le> x" for x
    by (auto split: bound.splits)
  show thesis
  proof (cases hi)
    case (Included e)
    then show thesis using assms that lo by (cases "e < ?a") (auto simp: r Let_def)
  next
    case (Excluded e)
    show thesis
    proof (cases e)
      case (Suc m)
      then show thesis using assms Excluded that lo by (cases "m < ?a") (auto simp: r Let_def less_Suc_eq_le)
    qed (use assms Excluded that in \<open>auto simp: r Let_def\<close>)
  next
    case Unbounded
    show thesis
    proof (cases d)
      case (Suc m)
      then show thesis using assms Unbounded that lo by (cases "m < ?a") (auto simp: r Let_def less_Suc_eq_le)
    qed (use assms Unbounded in \<open>simp add: r\<close>)
  qed
qed

lemma fill_nothing: "b \<le> a \<Longrightarrow> map (\<lambda>i. if a \<le> i \<and> i < b then v else ws ! i) [0..<length ws] = ws"
  by (rule nth_equalityI) auto

lemma fill_words:
  "b \<le> length ws \<Longrightarrow>
     for_loop (\<lambda>i ws. idx_set ws i v) [a..<b] ws = Some (map (\<lambda>i. if a \<le> i \<and> i < b then v else ws ! i) [0..<length ws])"
proof (induction b)
  case 0
  then show ?case by (simp add: map_nth)
next
  case (Suc b)
  show ?case
  proof (cases "a \<le> b")
    case True
    have "(map (\<lambda>i. if a \<le> i \<and> i < b then v else ws ! i) [0..<length ws])[b := v] =
        map (\<lambda>i. if a \<le> i \<and> i < Suc b then v else ws ! i) [0..<length ws]"
      using True by (intro nth_equalityI) (auto simp: nth_list_update less_Suc_eq)
    then show ?thesis using Suc True by (simp add: for_loop_append)
  qed (simp add: fill_nothing)
qed

lemma or_word_words_set:
  assumes "k < length ws"
  shows "\<exists>vs. or_word ws k m = Some vs \<and> length vs = length ws \<and>
    words_set vs = words_set ws \<union> {i. i div 64 = k \<and> bit m (i mod 64)}"
  using assms by (auto simp: or_word_def words_set_iff nth_list_update bit_or_iff div64_less
    split: if_splits intro!: exI)

lemma fill_words_set:
  assumes "b \<le> length ws"
  shows "\<exists>vs. for_loop (\<lambda>i ws. idx_set ws i (NOT 0)) [a..<b] ws = Some vs \<and> length vs = length ws \<and>
    words_set vs = words_set ws \<union> {i. a \<le> i div 64 \<and> i div 64 < b}"
  using assms by (auto simp: fill_words [OF assms] words_set_iff div64_less bit_minus_1_iff split: if_splits)

lemma range_masks:
  fixes i m n :: nat
  shows "bit (NOT (2 ^ m - 1) :: word64) (i mod 64) \<longleftrightarrow> m \<le> i mod 64"
    and "n < 64 \<Longrightarrow> bit (2 ^ n OR (2 ^ n - 1) :: word64) (i mod 64) \<longleftrightarrow> i mod 64 \<le> n"
    and "m \<le> n \<Longrightarrow> n < 64 \<Longrightarrow> bit (2 ^ n OR (2 ^ n - 2 ^ m) :: word64) (i mod 64) \<longleftrightarrow> m \<le> i mod 64 \<and> i mod 64 \<le> n"
  by (auto simp: bit_not_iff bit_or_iff bit_mask64 bit_exp_diff64)

lemma between_words:
  fixes a b :: nat assumes "a \<le> b"
  shows "{a..b} = (if a div 64 = b div 64 then {i. i div 64 = a div 64 \<and> a mod 64 \<le> i mod 64 \<and> i mod 64 \<le> b mod 64}
    else {i. a div 64 + 1 \<le> i div 64 \<and> i div 64 < b div 64} \<union> {i. i div 64 = a div 64 \<and> a mod 64 \<le> i mod 64} \<union>
      {i. i div 64 = b div 64 \<and> i mod 64 \<le> b mod 64})"
proof -
  have le: "x \<le> y \<longleftrightarrow> x div 64 < y div 64 \<or> x div 64 = y div 64 \<and> x mod 64 \<le> y mod 64" for x y :: nat
    using less_div_mod64 [of y x] by (auto simp flip: not_less)
  have "a div 64 \<le> b div 64" using assms by (rule div_le_mono)
  then show ?thesis unfolding atLeastAtMost_def atLeast_def atMost_def by (auto simp: le [of a] le [of _ b])
qed

lemma bs_insert_range:
  assumes "bs_ok s" and "inclusive_start_end r (domain_size s) = Some (Some (a, b))" and "a \<le> b" and "b < domain_size s"
  shows "\<exists>s'. insert_range s r = Some s' \<and> bs_ok s' \<and> domain_size s' = domain_size s \<and> bs_elems s' = bs_elems s \<union> {a..b}"
proof -
  have ab: "a div 64 \<le> b div 64" "b div 64 < length (words s)"
    using assms bs_ok_words [of s b] by (simp_all add: div_le_mono)
  then obtain vs where vs: "for_loop (\<lambda>i ws. idx_set ws i (NOT 0)) [a div 64 + 1..<b div 64] (words s) = Some vs"
      "length vs = length (words s)" "words_set vs = words_set (words s) \<union> {i. a div 64 + 1 \<le> i div 64 \<and> i div 64 < b div 64}"
    using fill_words_set [of "b div 64" "words s" "a div 64 + 1"] by auto
  have "\<exists>us. (if a div 64 \<noteq> b div 64 then do {
                 ws \<leftarrow> or_word vs (a div 64) (NOT (2 ^ (a mod 64) - 1));
                 or_word ws (b div 64) (2 ^ (b mod 64) OR (2 ^ (b mod 64) - 1))
               }
             else or_word vs (a div 64) (2 ^ (b mod 64) OR (2 ^ (b mod 64) - 2 ^ (a mod 64)))) = Some us \<and>
      length us = length (words s) \<and> words_set us = words_set (words s) \<union> {a..b}"
  proof (cases "a div 64 = b div 64")
    case True
    then have "a mod 64 \<le> b mod 64" using assms(3) less_div_mod64 [of b a] by (auto simp flip: not_less)
    then show ?thesis
      using True ab vs or_word_words_set [of "b div 64" vs "2 ^ (b mod 64) OR (2 ^ (b mod 64) - 2 ^ (a mod 64))"]
      by (simp add: between_words [OF assms(3)] range_masks)
  next
    case False
    obtain us where us: "or_word vs (a div 64) (NOT (2 ^ (a mod 64) - 1)) = Some us" "length us = length vs"
        "words_set us = words_set vs \<union> {i. i div 64 = a div 64 \<and> bit (NOT (2 ^ (a mod 64) - 1) :: word64) (i mod 64)}"
      using or_word_words_set [of "a div 64" vs] ab vs(2) by fastforce
    show ?thesis
      using False ab vs us or_word_words_set [of "b div 64" us "2 ^ (b mod 64) OR (2 ^ (b mod 64) - 1)"]
      by (simp add: between_words [OF assms(3)] range_masks Un_assoc)
  qed
  then obtain us where us: "length us = length (words s)" "words_set us = words_set (words s) \<union> {a..b}"
      "insert_range s r = Some (s\<lparr>words := us\<rparr>)"
    using assms(2) vs(1) by (force simp: insert_range_def bind_eq_Some_conv split: if_splits)
  then show ?thesis using assms by (auto simp: bs_ok_def bs_elems_def)
qed

lemma bs_insert_range_exact:
  assumes "bs_ok s" and "range_in_domain r (domain_size s)"
  shows "\<exists>s'. insert_range s r = Some s' \<and> bs_ok s' \<and> domain_size s' = domain_size s \<and>
    bs_elems s' = bs_elems s \<union> {e. e < domain_size s \<and> range_contains r e}"
  using assms(2)
proof (cases rule: inclusive_start_end_cases)
  case empty
  then show ?thesis using assms(1) by (auto simp: insert_range_def)
next
  case (range a b)
  have "{e. e < domain_size s \<and> range_contains r e} = {a..b}" using range by auto
  then show ?thesis using bs_insert_range [OF assms(1) range(1-3)] by simp
qed

text \<open>
  \<open>insert_range\<close> on a range whose end lies in the domain adds exactly the indices
  of the range, whichever words it spans and whichever bounds it is given by.
\<close>

theorem insert_range_exact:
  assumes "bs_ok s" and "range_in_domain r (domain_size s)"
  shows "\<exists>s'. insert_range s r = Some s' \<and> bs_ok s' \<and> domain_size s' = domain_size s \<and>
    bs_elems s' = bs_elems s \<union> {e. e < domain_size s \<and> range_contains r e}"
  by (rule bs_insert_range_exact [OF assms])

theorem insert_range_exact_witness:
  "let s = new_empty 200; r = (Excluded 60, Included 130) in
   bs_ok s \<and> range_in_domain r 200 \<and>
   (\<exists>s'. insert_range s r = Some s' \<and> bs_elems s' = {61..130})"
proof -
  have ok: "bs_ok (new_empty 200)" "bs_elems (new_empty 200) = {}" "domain_size (new_empty 200) = 200"
    by (simp_all add: bs_new_empty) (simp add: new_empty_def)
  have "{e. e < 200 \<and> range_contains (Excluded 60, Included 130) e} = {61..130}" by auto
  then show ?thesis
    using insert_range_exact [of "new_empty 200" "(Excluded 60, Included 130)"] ok
    by (auto simp: Let_def)
qed

lemma rposition_cases:
  obtains (none) "rposition p xs = None" "\<And>j. j < length xs \<Longrightarrow> \<not> p (xs ! j)"
  | (some) i where "rposition p xs = Some i" "i < length xs" "p (xs ! i)" "\<And>j. i < j \<Longrightarrow> j < length xs \<Longrightarrow> \<not> p (xs ! j)"
proof (cases "position p (rev xs)")
  case None
  then show thesis using none by (auto simp: rposition_def position_None_iff)
next
  case (Some k)
  then have k: "k < length xs" "p (rev xs ! k)" "\<And>j. j < k \<Longrightarrow> \<not> p (rev xs ! j)"
    by (simp_all add: position_Some_iff)
  have "\<not> p (xs ! j)" if "length xs - 1 - k < j" "j < length xs" for j
    using k(3) [of "length xs - 1 - j"] that k(1) by (simp add: rev_nth)
  then show thesis using some [of "length xs - 1 - k"] k(1,2) Some by (simp add: rposition_def rev_nth)
qed

text \<open>The answer of \<open>last_set_in\<close>: the largest index of \<open>E\<close>, if there is one.\<close>

definition last_of :: "nat set \<Rightarrow> nat option" where
  "last_of E = (if E = {} then None else Some (Max E))"

lemma last_of_candidate:
  assumes "pos \<in> S" and "pos \<le> b" and "\<And>i. i \<in> S \<Longrightarrow> a \<le> i \<Longrightarrow> i \<le> b \<Longrightarrow> i \<le> pos"
  shows "(if a \<le> pos then Some pos else None) = last_of (S \<inter> {a..b})"
proof (cases "a \<le> pos")
  case True
  then have "Max (S \<inter> {a..b}) = pos" using assms by (intro Max_eqI) auto
  moreover have "pos \<in> S \<inter> {a..b}" using True assms by auto
  ultimately show ?thesis using True by (auto simp: last_of_def)
next
  case False
  then show ?thesis using assms(3) by (fastforce simp: last_of_def)
qed

lemma last_of_word:
  assumes "w \<noteq> 0" and bits: "\<And>i. i div 64 = k \<Longrightarrow> bit w (i mod 64) \<longleftrightarrow> i \<in> S \<and> i \<le> b"
    and above: "\<And>i. i \<in> S \<Longrightarrow> a \<le> i \<Longrightarrow> i \<le> b \<Longrightarrow> i div 64 \<le> k"
  shows "\<exists>m. max_bit w = Some m \<and> m < 64 \<and>
    (if a \<le> m + 64 * k then Some (m + 64 * k) else None) = last_of (S \<inter> {a..b})"
proof -
  obtain m where m: "max_bit w = Some m" "bit w m" "\<And>i. bit w i \<Longrightarrow> i \<le> m"
    using max_bit [OF assms(1)] by auto
  have m64: "m < 64" using m(2) by (rule bit64_less)
  have "m + 64 * k \<in> S" "m + 64 * k \<le> b" using bits [of "m + 64 * k"] m(2) m64 by simp_all
  moreover have "i \<le> m + 64 * k" if "i \<in> S" "a \<le> i" "i \<le> b" for i
  proof -
    have "i div 64 = k \<Longrightarrow> i mod 64 \<le> m" using bits [of i] that m(3) by simp
    then show ?thesis
      using above [OF that] div_mult_mod_eq [of i 64] mod_less_divisor [of 64 i]
      by (cases "i div 64 = k") linarith+
  qed
  ultimately show ?thesis using m(1) m64 last_of_candidate by blast
qed

lemma bs_mem:
  "i div 64 < length (words s) \<Longrightarrow> i \<in> bs_elems s \<longleftrightarrow> bit (words s ! (i div 64)) (i mod 64)"
  by (simp add: bs_elems_def words_set_iff div64_less)

lemma bs_mem_masked:
  assumes "i div 64 = b div 64" and "b div 64 < length (words s)"
  shows "bit (words s ! (b div 64) AND (2 ^ (b mod 64) OR (2 ^ (b mod 64) - 1))) (i mod 64) \<longleftrightarrow>
    i \<in> bs_elems s \<and> i \<le> b"
  using assms bs_mem [of i s] less_div_mod64 [of b i]
  by (auto simp: bit_and_iff range_masks simp flip: not_less)

lemma zero_words_no_elems:
  assumes "\<And>j. j < kb - ka \<Longrightarrow> j0 \<le> j \<Longrightarrow> take (kb - ka) (drop ka (words s)) ! j = 0"
    and "i \<in> bs_elems s" and "ka + j0 \<le> i div 64"
  shows "\<not> i div 64 < kb"
proof
  assume *: "i div 64 < kb"
  have "i div 64 < length (words s)" using assms(2) by (simp add: bs_elems_def words_set_iff div64_less)
  moreover from this have "words s ! (i div 64) = 0"
    using assms(1) [of "i div 64 - ka"] assms(3) * by simp
  ultimately show False using assms(2) bs_mem [of i s] by simp
qed

text \<open>The second phase of \<open>last_set_in\<close>: the words before the last one.\<close>

lemma bs_last_set_before:
  assumes "bs_ok s" and "a div 64 \<le> b div 64" and "b div 64 < length (words s)"
    and below: "\<And>i. i \<in> bs_elems s \<Longrightarrow> a \<le> i \<Longrightarrow> i \<le> b \<Longrightarrow> i div 64 < b div 64"
  shows "(case rposition (\<lambda>w. w \<noteq> 0) (take (b div 64 - a div 64) (drop (a div 64) (words s))) of
      None \<Rightarrow> Some None
    | Some offset \<Rightarrow> do {
        start_word \<leftarrow> idx (words s) (a div 64 + offset);
        m \<leftarrow> max_bit start_word;
        Some (if a \<le> m + 64 * (a div 64 + offset) then Some (m + 64 * (a div 64 + offset)) else None)
      }) = Some (last_of (bs_elems s \<inter> {a..b}))"
proof (cases rule: rposition_cases [of "\<lambda>w. w \<noteq> 0" "take (b div 64 - a div 64) (drop (a div 64) (words s))"])
  case none
  have "bs_elems s \<inter> {a..b} = {}"
    using zero_words_no_elems [of "b div 64" "a div 64" 0 s] none(2) assms(3) below
    by (auto simp: div_le_mono)
  then show ?thesis using none(1) by (simp add: last_of_def)
next
  case (some off)
  let ?k = "a div 64 + off"
  have off: "?k < b div 64" "words s ! ?k \<noteq> 0" using some(2,3) assms(3) by simp_all
  have "i div 64 \<le> ?k" if "i \<in> bs_elems s" "a \<le> i" "i \<le> b" for i
  proof (rule ccontr)
    assume "\<not> i div 64 \<le> ?k"
    moreover have "take (b div 64 - a div 64) (drop (a div 64) (words s)) ! j = 0"
      if "j < b div 64 - a div 64" "Suc off \<le> j" for j
      using some(4) [of j] that assms(3) by simp
    ultimately show False
      using zero_words_no_elems [of "b div 64" "a div 64" "Suc off" s i] below [OF that] that(1) by simp
  qed
  moreover have "bit (words s ! ?k) (i mod 64) \<longleftrightarrow> i \<in> bs_elems s \<and> i \<le> b" if "i div 64 = ?k" for i
    using bs_mem [of i s] that off(1) assms(3) less_div_mod64 [of i b] by auto
  ultimately show ?thesis
    using last_of_word [OF off(2), of ?k "bs_elems s" b a] some(1) off(1) assms(3) by auto
qed

lemma bs_last_set_in:
  assumes ok: "bs_ok s" and r: "inclusive_start_end r (domain_size s) = Some (Some (a, b))"
    and ab: "a \<le> b" "b < domain_size s"
  shows "last_set_in s r = Some (last_of (bs_elems s \<inter> {a..b}))"
proof -
  let ?kb = "b div 64" and ?ew = "words s ! (b div 64) AND (2 ^ (b mod 64) OR (2 ^ (b mod 64) - 1))"
  have k: "a div 64 \<le> ?kb" "?kb < length (words s)"
    using ok ab bs_ok_words [of s b] by (simp_all add: div_le_mono)
  have le: "i div 64 \<le> ?kb" if "i \<le> b" for i using that by (rule div_le_mono)
  show ?thesis
  proof (cases "?ew = 0")
    case False
    obtain m where m: "max_bit ?ew = Some m" "m < 64"
        "(if a \<le> m + 64 * ?kb then Some (m + 64 * ?kb) else None) = last_of (bs_elems s \<inter> {a..b})"
      using last_of_word [OF False, of ?kb "bs_elems s" b a] bs_mem_masked k(2) le by blast
    show ?thesis
    proof (cases "a \<le> m + 64 * ?kb")
      case above: False
      then have "a div 64 = ?kb" using k(1) m(2) div_mult_mod_eq [of a 64] mod_less_divisor [of 64 a] by linarith
      then show ?thesis using above False m r k by (simp add: last_set_in_def WORD_BITS_def rposition_def)
    next
      case below: True
      then have "last_of (bs_elems s \<inter> {a..b}) = Some (m + 64 * ?kb)" using m(3) by simp
      then show ?thesis using below False m(1) r k by (simp add: last_set_in_def WORD_BITS_def)
    qed
  next
    case True
    then have "i div 64 < ?kb" if "i \<in> bs_elems s" "a \<le> i" "i \<le> b" for i
      using bs_mem_masked [of i b s] that k(2) le [of i] by (cases "i div 64 = ?kb") auto
    then show ?thesis
      using bs_last_set_before [OF ok k] True r k
      unfolding last_set_in_def WORD_BITS_def Let_def by simp
  qed
qed

lemma bs_last_set_in_range:
  assumes "bs_ok s" and "range_in_domain r (domain_size s)"
  shows "last_set_in s r = Some (last_of (bs_elems s \<inter> {e. e < domain_size s \<and> range_contains r e}))"
  using assms(2)
proof (cases rule: inclusive_start_end_cases)
  case empty
  then have "bs_elems s \<inter> {e. e < domain_size s \<and> range_contains r e} = {}" by auto
  then show ?thesis using empty(1) by (simp only: last_set_in_def last_of_def) simp
next
  case (range a b)
  have "{e. e < domain_size s \<and> range_contains r e} = {a..b}" using range by auto
  then show ?thesis using bs_last_set_in [OF assms(1) range(1-3)] by simp
qed

text \<open>
  \<open>last_set_in\<close> on a range whose end lies in the domain returns the largest element
  of the set in that range, and \<open>None\<close> exactly when the range has no element.
\<close>

theorem last_set_in_max:
  assumes "bs_ok s" and "range_in_domain r (domain_size s)"
  shows "last_set_in s r = Some (last_of (bs_elems s \<inter> {e. e < domain_size s \<and> range_contains r e}))"
  by (rule bs_last_set_in_range [OF assms])

theorem last_set_in_max_witness:
  "let s = \<lparr>domain_size = 200, words = [5, 0, 0, 2]\<rparr> in
   bs_ok s \<and> range_in_domain (Included 1, Excluded 193) (domain_size s) \<and>
   last_set_in s (Included 1, Excluded 193) = Some (Some 2) \<and>
   Some 2 = last_of (bs_elems s \<inter> {e. e < 200 \<and> range_contains (Included 1, Excluded 193) e})"
proof -
  let ?s = "\<lparr>domain_size = 200, words = [5, 0, 0, 2]\<rparr>"
  have ok: "bs_ok ?s" by code_simp
  have val: "last_set_in ?s (Included 1, Excluded 193) = Some (Some 2)" by code_simp
  show ?thesis using last_set_in_max [OF ok, of "(Included 1, Excluded 193)"] ok val by (auto simp: Let_def)
qed

end
