(* ===== verification/Chunked_Bit_Set.thy ===== *)
theory Chunked_Bit_Set
  imports Bit_Set_Props
begin

text \<open>
  \<open>ChunkedBitSet\<close> of \<open>rustc_index/src/bit_set.rs\<close>: chunks of 2048 bits that are all
  zeros, all ones, or mixed with an explicit count and 32 words. The \<open>u16\<close> counters
  are natural numbers; an addition past \<open>u16::MAX\<close> is a panic.
\<close>

definition CHUNK_WORDS :: nat where "CHUNK_WORDS = 32"

definition CHUNK_BITS :: nat where "CHUNK_BITS = CHUNK_WORDS * WORD_BITS"

definition u16_add :: "nat \<Rightarrow> nat \<Rightarrow> nat option" where
  "u16_add a b = (if a + b < 2 ^ 16 then Some (a + b) else None)"

definition as_u16 :: "nat \<Rightarrow> nat" where
  "as_u16 n = n mod 2 ^ 16"

datatype chunk = Zeros nat | Ones nat | Mixed nat nat "word64 list"

record chunked_bit_set =
  cb_domain_size :: nat
  chunks :: "chunk list"

definition num_chunks :: "nat \<Rightarrow> nat option" where
  "num_chunks domain = do {
     rassert (domain > 0);
     Some ((domain + CHUNK_BITS - 1) div CHUNK_BITS)
   }"

definition chunk_index :: "nat \<Rightarrow> nat" where
  "chunk_index elem = elem div CHUNK_BITS"

definition chunk_word_index_and_mask :: "nat \<Rightarrow> nat \<times> word64" where
  "chunk_word_index_and_mask elem = (let chunk_elem = elem mod CHUNK_BITS in word_index_and_mask chunk_elem)"

definition chunk_new :: "nat \<Rightarrow> bool \<Rightarrow> chunk option" where
  "chunk_new chunk_domain_size empty_kind = do {
     rassert (chunk_domain_size \<le> CHUNK_BITS);
     let chunk_domain_size = as_u16 chunk_domain_size;
     Some (if empty_kind then Zeros chunk_domain_size else Ones chunk_domain_size)
   }"

definition cb_new :: "nat \<Rightarrow> bool \<Rightarrow> chunked_bit_set option" where
  "cb_new domain empty_kind = do {
     cs \<leftarrow> (if domain = 0 then Some []
            else do {
              let final_chunk_domain_size = (let n = domain mod CHUNK_BITS in if n = 0 then CHUNK_BITS else n);
              c \<leftarrow> chunk_new CHUNK_BITS empty_kind;
              n \<leftarrow> num_chunks domain;
              last \<leftarrow> checked_sub n 1;
              f \<leftarrow> chunk_new final_chunk_domain_size empty_kind;
              idx_set (replicate n c) last f
            });
     Some \<lparr>cb_domain_size = domain, chunks = cs\<rparr>
   }"

definition cb_new_empty :: "nat \<Rightarrow> chunked_bit_set option" where
  "cb_new_empty domain = cb_new domain True"

definition cb_new_filled :: "nat \<Rightarrow> chunked_bit_set option" where
  "cb_new_filled domain = cb_new domain False"

fun chunk_count :: "chunk \<Rightarrow> nat" where
  "chunk_count (Zeros _) = 0"
| "chunk_count (Ones chunk_domain_size) = chunk_domain_size"
| "chunk_count (Mixed _ cnt _) = cnt"

definition cb_count :: "chunked_bit_set \<Rightarrow> nat" where
  "cb_count self = sum_list (map chunk_count (chunks self))"

definition cb_contains :: "chunked_bit_set \<Rightarrow> nat \<Rightarrow> bool option" where
  "cb_contains self elem = do {
     rassert (elem < cb_domain_size self);
     chunk \<leftarrow> idx (chunks self) (chunk_index elem);
     case chunk of
       Zeros _ \<Rightarrow> Some False
     | Ones _ \<Rightarrow> Some True
     | Mixed _ _ ws \<Rightarrow> do {
         let (word_index, mask) = chunk_word_index_and_mask elem;
         w \<leftarrow> idx ws word_index;
         Some (w AND mask \<noteq> 0)
       }
   }"

text \<open>The match on the chunk in \<open>insert\<close> and \<open>remove\<close>.\<close>

definition insert_in_chunk :: "chunk \<Rightarrow> nat \<Rightarrow> (chunk \<times> bool) option" where
  "insert_in_chunk chunk elem =
     (let (word_index, mask) = chunk_word_index_and_mask elem in
      case chunk of
        Zeros chunk_domain_size \<Rightarrow>
          if chunk_domain_size > 1 then do {
            ws \<leftarrow> or_word (replicate CHUNK_WORDS 0) word_index mask;
            Some (Mixed chunk_domain_size 1 ws, True)
          }
          else Some (Ones chunk_domain_size, True)
      | Ones chunk_domain_size \<Rightarrow> Some (Ones chunk_domain_size, False)
      | Mixed chunk_domain_size cnt ws \<Rightarrow> do {
          w \<leftarrow> idx ws word_index;
          if w AND mask = 0 then do {
            cnt \<leftarrow> u16_add cnt 1;
            if cnt < chunk_domain_size then do {
              ws \<leftarrow> or_word ws word_index mask;
              Some (Mixed chunk_domain_size cnt ws, True)
            }
            else Some (Ones chunk_domain_size, True)
          }
          else Some (Mixed chunk_domain_size cnt ws, False)
        })"

definition cb_insert :: "chunked_bit_set \<Rightarrow> nat \<Rightarrow> (chunked_bit_set \<times> bool) option" where
  "cb_insert self elem = do {
     rassert (elem < cb_domain_size self);
     chunk \<leftarrow> idx (chunks self) (chunk_index elem);
     (chunk, changed) \<leftarrow> insert_in_chunk chunk elem;
     cs \<leftarrow> idx_set (chunks self) (chunk_index elem) chunk;
     Some (self\<lparr>chunks := cs\<rparr>, changed)
   }"

fun chunk_domain :: "chunk \<Rightarrow> nat" where
  "chunk_domain (Zeros n) = n"
| "chunk_domain (Ones n) = n"
| "chunk_domain (Mixed n _ _) = n"

definition cb_insert_all :: "chunked_bit_set \<Rightarrow> chunked_bit_set" where
  "cb_insert_all self = self\<lparr>chunks := map (\<lambda>chunk. Ones (chunk_domain chunk)) (chunks self)\<rparr>"

definition and_word :: "word64 list \<Rightarrow> nat \<Rightarrow> word64 \<Rightarrow> word64 list option" where
  "and_word ws i bits = do { w \<leftarrow> idx ws i; idx_set ws i (w AND bits) }"

definition remove_from_chunk :: "chunk \<Rightarrow> nat \<Rightarrow> (chunk \<times> bool) option" where
  "remove_from_chunk chunk elem =
     (let (word_index, mask) = chunk_word_index_and_mask elem in
      case chunk of
        Zeros chunk_domain_size \<Rightarrow> Some (Zeros chunk_domain_size, False)
      | Ones chunk_domain_size \<Rightarrow>
          if chunk_domain_size > 1 then do {
            let num_words = num_words chunk_domain_size;
            used \<leftarrow> slice_of (replicate CHUNK_WORDS (0 :: word64)) 0 num_words;
            used \<leftarrow> clear_excess_bits_in_final_word chunk_domain_size (map (\<lambda>_. NOT 0) used);
            let ws = used @ drop num_words (replicate CHUNK_WORDS 0);
            ws \<leftarrow> and_word ws word_index (NOT mask);
            cnt \<leftarrow> checked_sub chunk_domain_size 1;
            Some (Mixed chunk_domain_size cnt ws, True)
          }
          else Some (Zeros chunk_domain_size, True)
      | Mixed chunk_domain_size cnt ws \<Rightarrow> do {
          w \<leftarrow> idx ws word_index;
          if w AND mask \<noteq> 0 then do {
            cnt \<leftarrow> checked_sub cnt 1;
            if cnt > 0 then do {
              ws \<leftarrow> and_word ws word_index (NOT mask);
              Some (Mixed chunk_domain_size cnt ws, True)
            }
            else Some (Zeros chunk_domain_size, True)
          }
          else Some (Mixed chunk_domain_size cnt ws, False)
        })"

definition cb_remove :: "chunked_bit_set \<Rightarrow> nat \<Rightarrow> (chunked_bit_set \<times> bool) option" where
  "cb_remove self elem = do {
     rassert (elem < cb_domain_size self);
     chunk \<leftarrow> idx (chunks self) (chunk_index elem);
     (chunk, changed) \<leftarrow> remove_from_chunk chunk elem;
     cs \<leftarrow> idx_set (chunks self) (chunk_index elem) chunk;
     Some (self\<lparr>chunks := cs\<rparr>, changed)
   }"

text \<open>The match of \<open>union\<close> on a pair of chunks, and its loop over the zipped chunks.\<close>

fun union_chunk :: "chunk \<Rightarrow> chunk \<Rightarrow> (chunk \<times> bool) option" where
  "union_chunk self_chunk (Zeros _) = Some (self_chunk, False)"
| "union_chunk (Ones n) other_chunk = Some (Ones n, False)"
| "union_chunk (Zeros n) other_chunk = do { rassert (n = chunk_domain other_chunk); Some (other_chunk, True) }"
| "union_chunk (Mixed n _ _) (Ones m) = do { rassert (n = m); Some (Ones m, True) }"
| "union_chunk (Mixed n cnt self_words) (Mixed _ _ other_words) = do {
     let num_words = num_words n;
     self_used \<leftarrow> slice_of self_words 0 num_words;
     other_used \<leftarrow> slice_of other_words 0 num_words;
     changes \<leftarrow> bitwise_changes (\<lambda>a b. a OR b) self_used other_used;
     if changes then do {
       (used, has_changed) \<leftarrow> bitwise (\<lambda>a b. a OR b) self_used other_used;
       rassert has_changed;
       cnt \<leftarrow> for_loop (\<lambda>w total. u16_add total (as_u16 (count_ones w))) used 0;
       if cnt = n then Some (Ones n, True)
       else Some (Mixed n cnt (used @ drop num_words self_words), True)
     }
     else Some (Mixed n cnt self_words, False)
   }"

fun union_chunks :: "chunk list \<Rightarrow> chunk list \<Rightarrow> (chunk list \<times> bool) option" where
  "union_chunks (self_chunk # self_chunks) (other_chunk # other_chunks) = do {
     (c, b) \<leftarrow> union_chunk self_chunk other_chunk;
     (cs, changed) \<leftarrow> union_chunks self_chunks other_chunks;
     Some (c # cs, b \<or> changed)
   }"
| "union_chunks self_chunks other_chunks = Some (self_chunks, False)"

definition cb_union :: "chunked_bit_set \<Rightarrow> chunked_bit_set \<Rightarrow> (chunked_bit_set \<times> bool) option" where
  "cb_union self other = do {
     rassert (cb_domain_size self = cb_domain_size other);
     rassert (length (chunks self) = length (chunks other));
     (cs, changed) \<leftarrow> union_chunks (chunks self) (chunks other);
     Some (self\<lparr>chunks := cs\<rparr>, changed)
   }"

definition cb_clone_from :: "chunked_bit_set \<Rightarrow> chunked_bit_set \<Rightarrow> chunked_bit_set option" where
  "cb_clone_from self from_set = do {
     rassert (cb_domain_size self = cb_domain_size from_set);
     rassert (length (chunks self) = length (chunks from_set));
     Some (self\<lparr>chunks := chunks from_set\<rparr>)
   }"

text \<open>The body of the loop of \<open>BitSet::intersect\<close> with a chunked set, and the loop.\<close>

definition intersect_chunk :: "word64 list \<Rightarrow> chunk \<Rightarrow> (word64 list \<times> bool) option" where
  "intersect_chunk ws chunk =
     (case chunk of
        Zeros _ \<Rightarrow> Some (map (\<lambda>_. 0) ws, list_ex (\<lambda>w. w \<noteq> 0) ws)
      | Ones _ \<Rightarrow> Some (ws, False)
      | Mixed _ _ words_data \<Rightarrow>
          for_loop (\<lambda>i (ws, changed). do {
            word \<leftarrow> idx ws i;
            d \<leftarrow> idx words_data i;
            let new_val = word AND d;
            if new_val \<noteq> word then do { ws \<leftarrow> idx_set ws i new_val; Some (ws, True) }
            else Some (ws, changed)
          }) [0..<length ws] (ws, False))"

definition intersect_chunked :: "bit_set \<Rightarrow> chunked_bit_set \<Rightarrow> (bit_set \<times> bool) option" where
  "intersect_chunked self other = do {
     rassert (domain_size self = cb_domain_size other);
     (ws, changed) \<leftarrow> for_loop (\<lambda>(i, chunk) (ws, changed). do {
         tail \<leftarrow> slice_of ws (i * CHUNK_WORDS) (length ws);
         let part = (if length tail > CHUNK_WORDS then take CHUNK_WORDS tail else tail);
         (part', ch) \<leftarrow> intersect_chunk part chunk;
         Some (take (i * CHUNK_WORDS) ws @ part' @ drop (length part) tail, ch \<or> changed)
       }) (enumerate 0 (chunks other)) (words self, False);
     Some (self\<lparr>words := ws\<rparr>, changed)
   }"

end
