(* ===== verification/Chunked_Props.thy ===== *)
theory Chunked_Props
  imports Chunked_Bit_Set
begin

text \<open>
  The chunked set against the set of indices it stands for: first one chunk, then the
  whole set.
\<close>

subsection \<open>One chunk\<close>

lemma chunk_consts [simp]: "CHUNK_WORDS = 32" "CHUNK_BITS = 2048"
  by (simp_all add: CHUNK_WORDS_def CHUNK_BITS_def WORD_BITS_def)

lemma chunk_word_index_and_mask_simp [simp]:
  "chunk_word_index_and_mask e = (e mod 2048 div 64, 2 ^ (e mod 2048 mod 64))"
  by (simp add: chunk_word_index_and_mask_def Let_def)

lemma chunk_index_simp [simp]: "chunk_index e = e div 2048"
  by (simp add: chunk_index_def)

fun chunk_elems :: "chunk \<Rightarrow> nat set" where
  "chunk_elems (Zeros n) = {}"
| "chunk_elems (Ones n) = {..<n}"
| "chunk_elems (Mixed n c ws) = words_set ws"

text \<open>
  The invariant of the comments and of \<open>Chunk::assert_valid\<close>: the count is exact and
  strictly between zero and the domain size, and the excess bits are zero.
\<close>

fun chunk_ok :: "chunk \<Rightarrow> bool" where
  "chunk_ok (Zeros n) \<longleftrightarrow> 0 < n \<and> n \<le> 2048"
| "chunk_ok (Ones n) \<longleftrightarrow> 0 < n \<and> n \<le> 2048"
| "chunk_ok (Mixed n c ws) \<longleftrightarrow> n \<le> 2048 \<and> 0 < c \<and> c < n \<and> length ws = 32 \<and>
     sum_list (map count_ones ws) = c \<and> words_set ws \<subseteq> {..<n}"

definition chunk_returns :: "chunk \<Rightarrow> (chunk \<times> bool) option \<Rightarrow> nat set \<Rightarrow> bool \<Rightarrow> bool" where
  "chunk_returns c res X r \<longleftrightarrow>
     (\<exists>c'. res = Some (c', r) \<and> chunk_ok c' \<and> chunk_domain c' = chunk_domain c \<and> chunk_elems c' = X)"

lemma chunk_elems_domain: "chunk_ok c \<Longrightarrow> chunk_elems c \<subseteq> {..<chunk_domain c}"
  by (cases c) auto

lemma chunk_ok_size: "chunk_ok c \<Longrightarrow> 0 < chunk_domain c \<and> chunk_domain c \<le> 2048"
  by (cases c) auto

lemma chunk_count_card: "chunk_ok c \<Longrightarrow> chunk_count c = card (chunk_elems c)"
  by (cases c) (auto simp: card_words_set)

lemma chunk_ok_Mixed_iff:
  "chunk_ok (Mixed n c ws) \<longleftrightarrow> n \<le> 2048 \<and> 0 < c \<and> c < n \<and> length ws = 32 \<and>
     card (words_set ws) = c \<and> words_set ws \<subseteq> {..<n}"
  by (simp add: card_words_set)

declare chunk_ok.simps(3) [simp del]

lemma div2048: "j < 2048 \<Longrightarrow> j div 64 < 32" for j :: nat
  by simp

lemma or_word_elem:
  "j < 64 * length ws \<Longrightarrow> \<exists>vs. or_word ws (j div 64) (2 ^ (j mod 64)) = Some vs \<and> length vs = length ws \<and>
     words_set vs = insert j (words_set ws)"
  by (simp add: or_word_def div64_less words_set_set_bit)

lemma and_word_elem:
  "j < 64 * length ws \<Longrightarrow> \<exists>vs. and_word ws (j div 64) (NOT (2 ^ (j mod 64))) = Some vs \<and> length vs = length ws \<and>
     words_set vs = words_set ws - {j}"
  by (simp add: and_word_def div64_less words_set_clear_bit)

lemma full_chunk:
  fixes X :: "nat set" assumes "X \<subseteq> {..<n}" and "card X = n" shows "X = {..<n}"
  using assms by (metis card_lessThan card_subset_eq finite_lessThan)

lemma insert_in_chunk_Mixed:
  assumes ok: "chunk_ok (Mixed n c ws)" and j: "e mod 2048 < n"
  shows "chunk_returns (Mixed n c ws) (insert_in_chunk (Mixed n c ws) e)
    (insert (e mod 2048) (words_set ws)) (e mod 2048 \<notin> words_set ws)"
proof (cases "e mod 2048 \<in> words_set ws")
  case True
  then show ?thesis using ok
    by (auto simp: chunk_returns_def insert_in_chunk_def chunk_ok_Mixed_iff and_exp64 words_set_iff)
next
  case False
  have mix: "n \<le> 2048" "length ws = 32" "card (words_set ws) = c" "words_set ws \<subseteq> {..<n}" "c < n"
    using ok by (simp_all add: chunk_ok_Mixed_iff)
  have nbit: "\<not> bit (ws ! (e mod 2048 div 64)) (e mod 2048 mod 64)"
    using False mix by (simp add: words_set_iff)
  obtain vs where vs: "or_word ws (e mod 2048 div 64) (2 ^ (e mod 2048 mod 64)) = Some vs" "length vs = 32"
      "words_set vs = insert (e mod 2048) (words_set ws)"
    using or_word_elem [of "e mod 2048" ws] mix by auto
  have card: "card (insert (e mod 2048) (words_set ws)) = Suc c" using False mix by simp
  show ?thesis
  proof (cases "Suc c < n")
    case True
    then show ?thesis
      using vs mix nbit False card j
      by (auto simp: chunk_returns_def insert_in_chunk_def u16_add_def and_exp64 chunk_ok_Mixed_iff)
  next
    case full: False
    then have "insert (e mod 2048) (words_set ws) = {..<n}"
      using full_chunk [of "insert (e mod 2048) (words_set ws)" n] card mix j by auto
    then show ?thesis
      using full mix nbit False
      by (auto simp: chunk_returns_def insert_in_chunk_def u16_add_def and_exp64)
  qed
qed

lemma insert_in_chunk:
  assumes "chunk_ok c" and "e mod 2048 < chunk_domain c"
  shows "chunk_returns c (insert_in_chunk c e) (insert (e mod 2048) (chunk_elems c)) (e mod 2048 \<notin> chunk_elems c)"
proof (cases c)
  case (Zeros n)
  obtain vs where vs: "or_word (replicate 32 0) (e mod 2048 div 64) (2 ^ (e mod 2048 mod 64)) = Some vs" "length vs = 32"
      "words_set vs = insert (e mod 2048) {}"
    using or_word_elem [of "e mod 2048" "replicate 32 0"] by auto
  show ?thesis
  proof (cases "n > 1")
    case True
    then show ?thesis using vs assms Zeros
      by (auto simp: chunk_returns_def insert_in_chunk_def chunk_ok_Mixed_iff)
  next
    case False
    then have "n = 1" using assms Zeros by simp
    then show ?thesis using assms Zeros by (auto simp: chunk_returns_def insert_in_chunk_def)
  qed
next
  case (Ones n)
  then show ?thesis using assms by (auto simp: chunk_returns_def insert_in_chunk_def)
next
  case (Mixed n k ws)
  then show ?thesis using insert_in_chunk_Mixed assms by simp
qed

lemma remove_from_chunk_Mixed:
  assumes ok: "chunk_ok (Mixed n c ws)" and j: "e mod 2048 < n"
  shows "chunk_returns (Mixed n c ws) (remove_from_chunk (Mixed n c ws) e)
    (words_set ws - {e mod 2048}) (e mod 2048 \<in> words_set ws)"
proof (cases "e mod 2048 \<in> words_set ws")
  case False
  then show ?thesis using ok
    by (auto simp: chunk_returns_def remove_from_chunk_def chunk_ok_Mixed_iff and_exp64 words_set_iff)
next
  case True
  have mix: "n \<le> 2048" "length ws = 32" "card (words_set ws) = c" "words_set ws \<subseteq> {..<n}" "0 < c" "c < n"
    using ok by (simp_all add: chunk_ok_Mixed_iff)
  have set_bit: "bit (ws ! (e mod 2048 div 64)) (e mod 2048 mod 64)"
    using True by (simp add: words_set_iff)
  obtain vs where vs: "and_word ws (e mod 2048 div 64) (NOT (2 ^ (e mod 2048 mod 64))) = Some vs" "length vs = 32"
      "words_set vs = words_set ws - {e mod 2048}"
    using and_word_elem [of "e mod 2048" ws] mix by auto
  have card: "card (words_set ws - {e mod 2048}) = c - 1" using True mix by simp
  show ?thesis
  proof (cases "1 < c")
    case many: True
    have "chunk_ok (Mixed n (c - 1) vs)"
      using many mix vs card by (auto simp: chunk_ok_Mixed_iff)
    then show ?thesis
      using many vs mix set_bit True
      by (simp add: chunk_returns_def remove_from_chunk_def and_exp64)
  next
    case False
    then have "c = 1" using mix by simp
    then have "words_set ws - {e mod 2048} = {}" using card by simp
    then show ?thesis
      using \<open>c = 1\<close> mix set_bit True
      by (simp add: chunk_returns_def remove_from_chunk_def and_exp64)
  qed
qed

lemma words_set_append: "words_set (us @ vs) = words_set us \<union> (+) (64 * length us) ` words_set vs"
proof (induction us)
  case (Cons u us)
  have "(+) 64 ` ((+) (64 * length us) ` words_set vs) = (+) (64 * length (u # us)) ` words_set vs"
    by (auto simp: image_iff)
  then show ?case using Cons.IH by (simp add: words_set_Cons image_Un Un_assoc)
qed simp

text \<open>The words of a chunk of ones that is made explicit.\<close>

lemma ones_words:
  assumes "0 < n" and "n \<le> 2048"
  shows "\<exists>used. clear_excess_bits_in_final_word n (replicate (num_words n) (- 1)) = Some used \<and>
    length used = num_words n \<and> words_set (used @ replicate (32 - num_words n) 0) = {..<n}"
proof -
  obtain used where used: "clear_excess_bits_in_final_word n (replicate (num_words n) (- 1)) = Some used"
      "length used = num_words n" "words_set used = {..<64 * num_words n} \<inter> {..<n}"
    using Bit_Words.clear_excess_bits [of "replicate (num_words n) (- 1)" n] assms by auto
  have "words_set (used @ replicate (32 - num_words n) 0) = words_set used"
    by (simp add: words_set_append)
  also have "\<dots> = {..<n}" using used(3) num_words_bound(1) [of n] by (simp add: Int_absorb1)
  finally show ?thesis using used(1,2) by simp
qed

lemma num_words_chunk: "n \<le> 2048 \<Longrightarrow> num_words n \<le> 32"
  using num_words_bound(2) [of n] by linarith

lemma remove_from_chunk:
  assumes "chunk_ok c" and "e mod 2048 < chunk_domain c"
  shows "chunk_returns c (remove_from_chunk c e) (chunk_elems c - {e mod 2048}) (e mod 2048 \<in> chunk_elems c)"
proof (cases c)
  case (Zeros n)
  then show ?thesis using assms by (auto simp: chunk_returns_def remove_from_chunk_def)
next
  case (Ones n)
  then have n: "0 < n" "n \<le> 2048" using assms by simp_all
  show ?thesis
  proof (cases "n > 1")
    case True
    obtain used where used: "clear_excess_bits_in_final_word n (replicate (num_words n) (- 1)) = Some used"
        "length used = num_words n" "words_set (used @ replicate (32 - num_words n) 0) = {..<n}"
      using ones_words [OF n] by auto
    obtain vs where vs: "and_word (used @ replicate (32 - num_words n) 0) (e mod 2048 div 64)
          (NOT (2 ^ (e mod 2048 mod 64))) = Some vs" "length vs = 32" "words_set vs = {..<n} - {e mod 2048}"
      using and_word_elem [of "e mod 2048" "used @ replicate (32 - num_words n) 0"] used num_words_chunk [OF n(2)]
      by auto
    have "chunk_ok (Mixed n (n - 1) vs)"
      using vs True n assms(2) Ones by (auto simp: chunk_ok_Mixed_iff)
    then show ?thesis
      using True used vs n Ones assms(2) num_words_chunk [OF n(2)]
      by (simp add: chunk_returns_def remove_from_chunk_def map_replicate_const)
  next
    case False
    then have "n = 1" using n by simp
    then show ?thesis using assms Ones by (auto simp: chunk_returns_def remove_from_chunk_def)
  qed
next
  case (Mixed n k ws)
  then show ?thesis using remove_from_chunk_Mixed assms by simp
qed

subsection \<open>Union of two chunks\<close>

lemma u16_sum:
  "tot + sum_list (map count_ones ws) < 2 ^ 16 \<Longrightarrow>
     for_loop (\<lambda>w acc. u16_add acc (as_u16 (count_ones w))) ws tot = Some (tot + sum_list (map count_ones ws))"
proof (induction ws arbitrary: tot)
  case (Cons w ws)
  have "as_u16 (count_ones w) = count_ones w" using count_ones_le [of w] by (simp add: as_u16_def)
  then show ?case using Cons.IH [of "tot + count_ones w"] Cons.prems by (simp add: u16_add_def add.assoc)
qed simp

lemma words_set_take:
  assumes "words_set ws \<subseteq> {..<n}" and "num_words n \<le> length ws"
  shows "words_set (take (num_words n) ws) = words_set ws"
  using assms num_words_less [of _ n] by (auto simp: words_set_iff div64_less)

lemma union_chunk_Mixed:
  assumes ok1: "chunk_ok (Mixed n c ws)" and ok2: "chunk_ok (Mixed n d vs)"
  shows "chunk_returns (Mixed n c ws) (union_chunk (Mixed n c ws) (Mixed n d vs))
    (words_set ws \<union> words_set vs) (words_set ws \<union> words_set vs \<noteq> words_set ws)"
proof -
  let ?k = "num_words n" let ?u = "take ?k ws" and ?v = "take ?k vs" let ?m = "map2 (OR) ?u ?v"
  have mix: "n \<le> 2048" "length ws = 32" "length vs = 32" "words_set ws \<subseteq> {..<n}" "words_set vs \<subseteq> {..<n}"
    using ok1 ok2 by (simp_all add: chunk_ok_Mixed_iff)
  then have k: "?k \<le> 32" by (simp add: num_words_chunk)
  have sets: "words_set ?u = words_set ws" "words_set ?v = words_set vs"
    using mix k by (simp_all add: words_set_take)
  have len: "length ?u = length ?v" using mix by simp
  have m: "words_set ?m = words_set ws \<union> words_set vs" using words_set_map2(1) [OF len] sets by simp
  have changed: "?m \<noteq> ?u \<longleftrightarrow> words_set ws \<union> words_set vs \<noteq> words_set ws"
    using words_set_eqI [of ?m ?u] m sets(1) len by auto
  have sub: "words_set ws \<union> words_set vs \<subseteq> {..<n}" using mix by simp
  have cnt: "sum_list (map count_ones ?m) = card (words_set ws \<union> words_set vs)" using m card_words_set [of ?m] by simp
  moreover have "card (words_set ws \<union> words_set vs) \<le> n" using card_mono [OF _ sub] by simp
  ultimately have sum: "for_loop (\<lambda>w acc. u16_add acc (as_u16 (count_ones w))) ?m 0 = Some (card (words_set ws \<union> words_set vs))"
    using u16_sum [of 0 ?m] mix(1) by simp
  have zero: "words_set (drop ?k ws) = {}"
  proof -
    have "words_set (take ?k ws @ drop ?k ws) = words_set ws \<union> (+) (64 * length (take ?k ws)) ` words_set (drop ?k ws)"
      by (simp only: words_set_append sets(1))
    then have "(+) (64 * ?k) ` words_set (drop ?k ws) \<subseteq> {..<n}" using mix k by auto
    moreover have "n \<le> 64 * ?k" by (rule num_words_bound)
    ultimately show ?thesis by force
  qed
  have whole: "words_set (?m @ drop ?k ws) = words_set ws \<union> words_set vs"
    using words_set_append [of ?m "drop ?k ws"] m zero by simp
  show ?thesis
  proof (cases "?m \<noteq> ?u")
    case False
    then show ?thesis
      using ok1 mix k changed len by (simp add: chunk_returns_def bitwise_changes_Some)
  next
    case True
    have pos: "0 < card (words_set ws \<union> words_set vs)"
      using ok1 by (auto simp: chunk_ok_Mixed_iff card_gt_0_iff)
    show ?thesis
    proof (cases "card (words_set ws \<union> words_set vs) = n")
      case full: True
      have "words_set ws \<union> words_set vs = {..<n}" by (rule full_chunk [OF sub full])
      then show ?thesis
        using True full mix k changed len sum pos by (simp add: chunk_returns_def bitwise_changes_Some bitwise_Some)
    next
      case part: False
      then have "card (words_set ws \<union> words_set vs) < n" using card_mono [OF _ sub] by simp
      then have "chunk_ok (Mixed n (card (words_set ws \<union> words_set vs)) (?m @ drop ?k ws))"
        using mix k whole pos sub by (simp add: chunk_ok_Mixed_iff)
      then show ?thesis
        using True part mix k changed len sum whole
        by (simp add: chunk_returns_def bitwise_changes_Some bitwise_Some Let_def)
    qed
  qed
qed

lemma union_chunk:
  assumes "chunk_ok c" and "chunk_ok d" and "chunk_domain c = chunk_domain d"
  shows "chunk_returns c (union_chunk c d) (chunk_elems c \<union> chunk_elems d) (chunk_elems c \<union> chunk_elems d \<noteq> chunk_elems c)"
proof -
  have proper: "chunk_elems e \<noteq> {..<n}" "chunk_elems e \<noteq> {}" "chunk_elems e \<union> {..<n} = {..<n}"
    if "e = Mixed n k ws" "chunk_ok e" for e n k ws
    using that by (auto simp: chunk_ok_Mixed_iff)
  show ?thesis
  proof (cases c; cases d)
    fix n k ws m assume "c = Mixed n k ws" "d = Ones m"
    then show ?thesis using assms proper(1,3) [of c] by (auto simp: chunk_returns_def)
  next
    fix n m k ws assume "c = Zeros n" "d = Mixed m k ws"
    then show ?thesis using assms proper(2) [of d] by (auto simp: chunk_returns_def)
  next
    fix n m k ws assume c: "c = Ones n" "d = Mixed m k ws"
    then have "{..<n} \<union> chunk_elems d = {..<n}" using assms proper(3) [of d] by (simp add: Un_commute)
    then show ?thesis using c assms by (simp add: chunk_returns_def)
  next
    fix n k ws m j vs assume "c = Mixed n k ws" "d = Mixed m j vs"
    then show ?thesis using assms union_chunk_Mixed by simp
  qed (use assms in \<open>auto simp: chunk_returns_def\<close>)
qed

subsection \<open>The whole set\<close>

definition cb_elems :: "chunked_bit_set \<Rightarrow> nat set" where
  "cb_elems s = {e. e div 2048 < length (chunks s) \<and> e mod 2048 \<in> chunk_elems (chunks s ! (e div 2048))}"

text \<open>
  Every chunk covers 2048 indices, except the last one, which covers what is left of the
  domain.
\<close>

definition cb_ok :: "chunked_bit_set \<Rightarrow> bool" where
  "cb_ok s \<longleftrightarrow> cb_domain_size s < 2 ^ 64 \<and> length (chunks s) = (cb_domain_size s + 2047) div 2048 \<and>
     (\<forall>i<length (chunks s). chunk_ok (chunks s ! i) \<and>
        chunk_domain (chunks s ! i) = min 2048 (cb_domain_size s - 2048 * i))"

abbreviation cb_returns :: "chunked_bit_set \<Rightarrow> (chunked_bit_set \<times> 'r) option \<Rightarrow> nat set \<Rightarrow> 'r \<Rightarrow> bool" where
  "cb_returns \<equiv> returns cb_domain_size cb_elems cb_ok"

lemma cb_ok_length: "cb_ok s \<Longrightarrow> cb_domain_size s \<le> 2048 * length (chunks s)"
  by (auto simp: cb_ok_def)

lemma div2048_less: "i < 2048 * n \<longleftrightarrow> i div 2048 < n" for i n :: nat
  by (auto simp: div_less_iff_less_mult mult.commute)

lemma mod2048_less: "e mod 2048 < d - 2048 * (e div 2048) \<longleftrightarrow> e < d" for e d :: nat
  using div_mult_mod_eq [of e 2048] by linarith

lemma cb_ok_chunk:
  assumes "cb_ok s" and "e < cb_domain_size s"
  shows "e div 2048 < length (chunks s)" and "chunk_ok (chunks s ! (e div 2048))"
    and "e mod 2048 < chunk_domain (chunks s ! (e div 2048))"
proof -
  show 1: "e div 2048 < length (chunks s)" using cb_ok_length [OF assms(1)] assms(2) div2048_less by fastforce
  have "e mod 2048 < cb_domain_size s - 2048 * (e div 2048)" "e mod 2048 < 2048"
    using assms(2) by (simp_all add: mod2048_less)
  then show "chunk_ok (chunks s ! (e div 2048))" "e mod 2048 < chunk_domain (chunks s ! (e div 2048))"
    using assms(1) 1 by (simp_all add: cb_ok_def)
qed

lemma cb_elems_domain: "cb_ok s \<Longrightarrow> cb_elems s \<subseteq> {..<cb_domain_size s}"
proof
  fix e assume ok: "cb_ok s" and e: "e \<in> cb_elems s"
  let ?c = "chunks s ! (e div 2048)"
  have "chunk_ok ?c" "chunk_domain ?c = min 2048 (cb_domain_size s - 2048 * (e div 2048))"
    using ok e by (simp_all add: cb_ok_def cb_elems_def)
  then have "e mod 2048 < cb_domain_size s - 2048 * (e div 2048)"
    using chunk_elems_domain [of ?c] e by (auto simp: cb_elems_def)
  then show "e \<in> {..<cb_domain_size s}" by (simp add: mod2048_less)
qed

lemma cb_elems_update:
  assumes "k < length cs"
  shows "cb_elems \<lparr>cb_domain_size = d, chunks = cs[k := c]\<rparr> =
    {e \<in> cb_elems \<lparr>cb_domain_size = d, chunks = cs\<rparr>. e div 2048 \<noteq> k} \<union> {e. e div 2048 = k \<and> e mod 2048 \<in> chunk_elems c}"
  using assms by (auto simp: cb_elems_def nth_list_update)

text \<open>An operation on one chunk lifts to the set.\<close>

lemma cb_update_chunk:
  fixes e :: nat
  assumes ok: "cb_ok s" and e: "e < cb_domain_size s"
    and c': "chunk_ok c'" "chunk_domain c' = chunk_domain (chunks s ! (e div 2048))"
  shows "cb_ok (s\<lparr>chunks := (chunks s)[e div 2048 := c']\<rparr>)"
    and "chunk_elems c' = insert (e mod 2048) (chunk_elems (chunks s ! (e div 2048))) \<Longrightarrow>
      cb_elems (s\<lparr>chunks := (chunks s)[e div 2048 := c']\<rparr>) = insert e (cb_elems s)"
    and "chunk_elems c' = chunk_elems (chunks s ! (e div 2048)) - {e mod 2048} \<Longrightarrow>
      cb_elems (s\<lparr>chunks := (chunks s)[e div 2048 := c']\<rparr>) = cb_elems s - {e}"
proof -
  have k: "e div 2048 < length (chunks s)" using cb_ok_chunk [OF ok e] by simp
  show "cb_ok (s\<lparr>chunks := (chunks s)[e div 2048 := c']\<rparr>)"
    using ok c' k by (auto simp: cb_ok_def nth_list_update)
  have eq: "x mod 2048 = e mod 2048 \<longleftrightarrow> x = e" if "x div 2048 = e div 2048" for x by (metis div_mult_mod_eq that)
  have mem: "x \<in> cb_elems (s\<lparr>chunks := (chunks s)[e div 2048 := c']\<rparr>) \<longleftrightarrow>
      (if x div 2048 = e div 2048 then x mod 2048 \<in> chunk_elems c' else x \<in> cb_elems s)" for x
    using k by (simp add: cb_elems_def)
  have old: "x \<in> cb_elems s \<longleftrightarrow> x mod 2048 \<in> chunk_elems (chunks s ! (e div 2048))" if "x div 2048 = e div 2048" for x
    using k that by (simp add: cb_elems_def)
  show "cb_elems (s\<lparr>chunks := (chunks s)[e div 2048 := c']\<rparr>) = insert e (cb_elems s)"
    if "chunk_elems c' = insert (e mod 2048) (chunk_elems (chunks s ! (e div 2048)))"
    using that by (intro set_eqI, simp only: mem) (auto simp: old eq split: if_splits)
  show "cb_elems (s\<lparr>chunks := (chunks s)[e div 2048 := c']\<rparr>) = cb_elems s - {e}"
    if "chunk_elems c' = chunk_elems (chunks s ! (e div 2048)) - {e mod 2048}"
    using that by (intro set_eqI, simp only: mem) (auto simp: old eq split: if_splits)
qed

lemma cb_mem: "cb_ok s \<Longrightarrow> e < cb_domain_size s \<Longrightarrow> e \<in> cb_elems s \<longleftrightarrow> e mod 2048 \<in> chunk_elems (chunks s ! (e div 2048))"
  using cb_ok_chunk(1) by (simp add: cb_elems_def)

lemma cb_insert_elem:
  assumes "cb_ok s" and "e < cb_domain_size s"
  shows "cb_returns s (cb_insert s e) (insert e (cb_elems s)) (e \<notin> cb_elems s)"
proof -
  note c = cb_ok_chunk [OF assms]
  obtain c' where c': "insert_in_chunk (chunks s ! (e div 2048)) e = Some (c', e mod 2048 \<notin> chunk_elems (chunks s ! (e div 2048)))"
      "chunk_ok c'" "chunk_domain c' = chunk_domain (chunks s ! (e div 2048))"
      "chunk_elems c' = insert (e mod 2048) (chunk_elems (chunks s ! (e div 2048)))"
    using insert_in_chunk [OF c(2,3)] by (auto simp: chunk_returns_def)
  show ?thesis
    using cb_update_chunk(1,2) [OF assms c'(2,3)] c' c assms
    by (auto simp: returns_def cb_insert_def cb_mem [OF assms])
qed

lemma cb_remove_elem:
  assumes "cb_ok s" and "e < cb_domain_size s"
  shows "cb_returns s (cb_remove s e) (cb_elems s - {e}) (e \<in> cb_elems s)"
proof -
  note c = cb_ok_chunk [OF assms]
  obtain c' where c': "remove_from_chunk (chunks s ! (e div 2048)) e = Some (c', e mod 2048 \<in> chunk_elems (chunks s ! (e div 2048)))"
      "chunk_ok c'" "chunk_domain c' = chunk_domain (chunks s ! (e div 2048))"
      "chunk_elems c' = chunk_elems (chunks s ! (e div 2048)) - {e mod 2048}"
    using remove_from_chunk [OF c(2,3)] by (auto simp: chunk_returns_def)
  show ?thesis
    using cb_update_chunk(1,3) [OF assms c'(2,3)] c' c assms
    by (auto simp: returns_def cb_remove_def cb_mem [OF assms])
qed

lemma cb_contains_elem:
  assumes "cb_ok s" and "e < cb_domain_size s"
  shows "cb_contains s e = Some (e \<in> cb_elems s)"
proof (cases "chunks s ! (e div 2048)")
  case (Mixed n k ws)
  then have "length ws = 32" using cb_ok_chunk(2) [OF assms] by (simp add: chunk_ok_Mixed_iff)
  then show ?thesis
    using Mixed assms cb_ok_chunk [OF assms]
    by (simp add: cb_contains_def cb_mem [OF assms] words_set_iff and_exp64)
qed (use assms cb_ok_chunk [OF assms] in \<open>simp_all add: cb_contains_def cb_mem\<close>)

interpretation cb: index_set cb_domain_size cb_elems cb_ok
  by unfold_locales (rule cb_elems_domain)

interpretation cb_contains: index_set_contains cb_domain_size cb_elems cb_ok cb_contains
  by unfold_locales (rule cb_contains_elem)

interpretation cb_insert: index_set_insert cb_domain_size cb_elems cb_ok cb_insert
  by unfold_locales (rule cb_insert_elem)

interpretation cb_remove: index_set_remove cb_domain_size cb_elems cb_ok cb_remove
  by unfold_locales (rule cb_remove_elem)

subsection \<open>Construction, counting, union\<close>

lemma num_chunks_div: "(d + 2047) div 2048 = d div 2048 + (if d mod 2048 = 0 then 0 else 1)" for d :: nat
proof -
  have "d + 2047 = (d mod 2048 + 2047) + d div 2048 * 2048" by simp
  then have "(d + 2047) div 2048 = (d mod 2048 + 2047) div 2048 + d div 2048"
    by (metis add.commute div_mult_self3 zero_neq_numeral)
  moreover have "d mod 2048 < 2048" by simp
  ultimately show ?thesis by (cases "d mod 2048 = 0") (auto simp: div_nat_eqI)
qed

lemma chunk_sizes:
  fixes d :: nat assumes "0 < d"
  defines "n \<equiv> (d + 2047) div 2048"
  shows "0 < n" and "i < n - 1 \<Longrightarrow> min 2048 (d - 2048 * i) = 2048"
    and "min 2048 (d - 2048 * (n - 1)) = (if d mod 2048 = 0 then 2048 else d mod 2048)"
proof -
  have d: "d = 2048 * (d div 2048) + d mod 2048" "d mod 2048 < 2048" by simp_all
  have n: "n = d div 2048 + (if d mod 2048 = 0 then 0 else 1)" unfolding n_def by (rule num_chunks_div)
  show 0: "0 < n" using n assms(1) d by (cases "d mod 2048 = 0") auto
  show "min 2048 (d - 2048 * i) = 2048" if "i < n - 1"
  proof -
    have "i + 1 \<le> d div 2048" using that n by (cases "d mod 2048 = 0") auto
    then show ?thesis using d by linarith
  qed
  show "min 2048 (d - 2048 * (n - 1)) = (if d mod 2048 = 0 then 2048 else d mod 2048)"
  proof (cases "d mod 2048 = 0")
    case True
    then show ?thesis using n 0 d by (simp add: diff_mult_distrib2)
  next
    case False
    then have "d - 2048 * (n - 1) = d mod 2048" using n by (simp add: minus_mult_div_eq_mod)
    then show ?thesis using False d by simp
  qed
qed

lemma cb_new:
  assumes "d < 2 ^ 64"
  shows "\<exists>s. cb_new d k = Some s \<and> cb_ok s \<and> cb_domain_size s = d \<and> cb_elems s = (if k then {} else {..<d})"
proof (cases "d = 0")
  case True
  then show ?thesis by (auto simp: cb_new_def cb_ok_def cb_elems_def)
next
  case False
  let ?n = "(d + 2047) div 2048" and ?f = "if d mod 2048 = 0 then 2048 else d mod 2048"
  let ?c = "\<lambda>m. if k then Zeros m else Ones m"
  let ?s = "\<lparr>cb_domain_size = d, chunks = (replicate ?n (?c 2048))[?n - 1 := ?c ?f]\<rparr>"
  note sizes = chunk_sizes [of d]
  have f: "0 < ?f" "?f \<le> 2048" by auto
  then have new: "cb_new d k = Some ?s"
    using False sizes(1) by (simp add: cb_new_def num_chunks_def chunk_new_def as_u16_def Let_def add.commute [of 2047 d])
  have nth: "chunks ?s ! i = ?c (min 2048 (d - 2048 * i))" if "i < ?n" for i
    using that sizes(1,3) sizes(2) [of i] False by (cases "i = ?n - 1") simp_all
  have pos: "0 < min 2048 (d - 2048 * i)" if "i < ?n" for i
  proof -
    have "2048 * ?n \<le> d + 2047" by simp
    then have "2048 * i < d" using that by linarith
    then show ?thesis by simp
  qed
  have ok: "cb_ok ?s" unfolding cb_ok_def
    using assms nth pos by auto
  have mem: "e \<in> cb_elems ?s \<longleftrightarrow> \<not> k \<and> e < d" for e
  proof (cases "e div 2048 < ?n")
    case True
    then show ?thesis using nth [OF True] mod2048_less [of e d] by (auto simp: cb_elems_def)
  next
    case False
    then have "\<not> e < d" using cb_ok_chunk(1) [OF ok, of e] by auto
    then show ?thesis using False by (simp add: cb_elems_def)
  qed
  have "cb_elems ?s = (if k then {} else {..<d})"
    by (rule set_eqI, simp only: mem) simp
  then show ?thesis using new ok by (intro exI [of _ ?s]) (simp only: simp_thms select_convs chunked_bit_set.simps)
qed

lemma union_chunks:
  assumes "list_all2 (\<lambda>c d. chunk_ok c \<and> chunk_ok d \<and> chunk_domain c = chunk_domain d) cs ds"
  shows "\<exists>us. union_chunks cs ds = Some (us, \<not> list_all2 (\<lambda>c u. chunk_elems u = chunk_elems c) cs us) \<and>
    list_all2 (\<lambda>c u. chunk_ok u \<and> chunk_domain u = chunk_domain c) cs us \<and>
    map chunk_elems us = map2 (\<lambda>c d. chunk_elems c \<union> chunk_elems d) cs ds"
  using assms
proof (induction cs ds rule: list_all2_induct)
  case (Cons c cs d ds)
  obtain u where u: "union_chunk c d = Some (u, chunk_elems c \<union> chunk_elems d \<noteq> chunk_elems c)" "chunk_ok u"
      "chunk_domain u = chunk_domain c" "chunk_elems u = chunk_elems c \<union> chunk_elems d"
    using union_chunk [of c d] Cons.hyps by (auto simp: chunk_returns_def)
  obtain us where us: "union_chunks cs ds = Some (us, \<not> list_all2 (\<lambda>c u. chunk_elems u = chunk_elems c) cs us)"
      "list_all2 (\<lambda>c u. chunk_ok u \<and> chunk_domain u = chunk_domain c) cs us"
      "map chunk_elems us = map2 (\<lambda>c d. chunk_elems c \<union> chunk_elems d) cs ds"
    using Cons.IH by auto
  show ?case using u us by (intro exI [of _ "u # us"]) auto
qed simp

lemma chunk_elems_conv:
  assumes "cb_ok s" and "i < length (chunks s)"
  shows "chunk_elems (chunks s ! i) = {j. j < 2048 \<and> 2048 * i + j \<in> cb_elems s}"
proof -
  have "chunk_ok (chunks s ! i)" using assms by (simp add: cb_ok_def)
  then have "chunk_elems (chunks s ! i) \<subseteq> {..<2048}" using chunk_elems_domain chunk_ok_size by fastforce
  then show ?thesis using assms(2) by (auto simp: cb_elems_def)
qed

lemma cb_elems_eq_iff:
  assumes "cb_ok s" and "cb_ok t" and "length (chunks t) = length (chunks s)"
  shows "list_all2 (\<lambda>c u. chunk_elems u = chunk_elems c) (chunks s) (chunks t) \<longleftrightarrow> cb_elems t = cb_elems s"
proof
  assume "cb_elems t = cb_elems s"
  then show "list_all2 (\<lambda>c u. chunk_elems u = chunk_elems c) (chunks s) (chunks t)"
    using assms by (simp add: list_all2_conv_all_nth chunk_elems_conv)
qed (auto simp: cb_elems_def list_all2_conv_all_nth)

lemma cb_union:
  assumes "cb_ok s" and "cb_ok t" and "cb_domain_size t = cb_domain_size s"
  shows "cb_returns s (cb_union s t) (cb_elems s \<union> cb_elems t) (cb_elems s \<union> cb_elems t \<noteq> cb_elems s)"
proof -
  have len: "length (chunks s) = length (chunks t)" using assms by (simp add: cb_ok_def)
  have "list_all2 (\<lambda>c d. chunk_ok c \<and> chunk_ok d \<and> chunk_domain c = chunk_domain d) (chunks s) (chunks t)"
    using assms len by (auto simp: list_all2_conv_all_nth cb_ok_def)
  then obtain us where us:
      "union_chunks (chunks s) (chunks t) = Some (us, \<not> list_all2 (\<lambda>c u. chunk_elems u = chunk_elems c) (chunks s) us)"
      "list_all2 (\<lambda>c u. chunk_ok u \<and> chunk_domain u = chunk_domain c) (chunks s) us"
      "map chunk_elems us = map2 (\<lambda>c d. chunk_elems c \<union> chunk_elems d) (chunks s) (chunks t)"
    using union_chunks by blast
  have lu: "length us = length (chunks s)" using us(2) by (simp add: list_all2_lengthD)
  have nth: "chunk_elems (us ! i) = chunk_elems (chunks s ! i) \<union> chunk_elems (chunks t ! i)" if "i < length us" for i
    using arg_cong [OF us(3), of "\<lambda>xs. xs ! i"] that len lu by simp
  have ok: "cb_ok (s\<lparr>chunks := us\<rparr>)"
    using assms(1) us(2) lu by (auto simp: cb_ok_def list_all2_conv_all_nth)
  have el: "cb_elems (s\<lparr>chunks := us\<rparr>) = cb_elems s \<union> cb_elems t"
    using nth lu len by (auto simp: cb_elems_def)
  have "list_all2 (\<lambda>c u. chunk_elems u = chunk_elems c) (chunks s) us \<longleftrightarrow> cb_elems s \<union> cb_elems t = cb_elems s"
    using cb_elems_eq_iff [OF assms(1) ok] lu el by simp
  then show ?thesis using us(1) ok el len assms(3) by (auto simp: returns_def cb_union_def)
qed

lemma cb_insert_all:
  assumes "cb_ok s"
  shows "cb_ok (cb_insert_all s) \<and> cb_domain_size (cb_insert_all s) = cb_domain_size s \<and>
    cb_elems (cb_insert_all s) = {..<cb_domain_size s}"
proof -
  have ok: "cb_ok (cb_insert_all s)"
    using assms chunk_ok_size by (fastforce simp: cb_ok_def cb_insert_all_def)
  have "e \<in> cb_elems (cb_insert_all s)" if "e < cb_domain_size s" for e
    using cb_ok_chunk [OF assms that] by (simp add: cb_elems_def cb_insert_all_def)
  then show ?thesis using ok cb_elems_domain [OF ok] by (auto simp: cb_insert_all_def)
qed

lemma cb_clone_from: "cb_ok s \<Longrightarrow> cb_ok t \<Longrightarrow> cb_domain_size s = cb_domain_size t \<Longrightarrow> cb_clone_from s t = Some t"
  by (cases s; cases t) (simp add: cb_clone_from_def cb_ok_def)

lemma cb_count_chunks:
  "list_all chunk_ok cs \<Longrightarrow>
     card {e. e div 2048 < length cs \<and> e mod 2048 \<in> chunk_elems (cs ! (e div 2048))} = sum_list (map chunk_count cs)"
proof (induction cs rule: rev_induct)
  case (snoc c cs)
  let ?A = "{e. e div 2048 < length cs \<and> e mod 2048 \<in> chunk_elems (cs ! (e div 2048))}"
  have sub: "chunk_elems c \<subseteq> {..<2048}" using snoc.prems chunk_elems_domain chunk_ok_size by fastforce
  have "{e. e div 2048 < length (cs @ [c]) \<and> e mod 2048 \<in> chunk_elems ((cs @ [c]) ! (e div 2048))} =
      ?A \<union> (+) (2048 * length cs) ` chunk_elems c"
  proof (intro set_eqI iffI)
    fix e assume e: "e \<in> {e. e div 2048 < length (cs @ [c]) \<and> e mod 2048 \<in> chunk_elems ((cs @ [c]) ! (e div 2048))}"
    show "e \<in> ?A \<union> (+) (2048 * length cs) ` chunk_elems c"
    proof (cases "e div 2048 = length cs")
      case True
      then have "e = 2048 * length cs + e mod 2048" "e mod 2048 \<in> chunk_elems c"
        using e div_mult_mod_eq [of e 2048] by (simp_all add: nth_append)
      then show ?thesis by blast
    qed (use e in \<open>auto simp: nth_append less_Suc_eq\<close>)
  qed (use sub in \<open>auto simp: nth_append\<close>)
  moreover have "?A \<inter> (+) (2048 * length cs) ` chunk_elems c = {}" using sub by (auto simp: div_less_iff_less_mult)
  moreover have "finite ?A" by (rule finite_subset [of _ "{..<2048 * length cs}"]) (auto simp: div2048_less)
  moreover have "finite (chunk_elems c)" using sub finite_subset by blast
  ultimately show ?case
    using snoc chunk_count_card [of c] by (simp add: card_Un_disjoint card_image)
qed simp

lemma cb_count: "cb_ok s \<Longrightarrow> cb_count s = card (cb_elems s)"
  using cb_count_chunks [of "chunks s"] by (simp add: cb_count_def cb_elems_def cb_ok_def list_all_length)

end
