(* ===== verification/Chunked_Iter.thy ===== *)
theory Chunked_Iter
  imports Chunked_Props
begin

text \<open>
  \<open>ChunkedBitIter\<close>: \<open>next\<close> skips chunks of zeros and scans mixed chunks bit by bit,
  \<open>fold\<close> works chunk by chunk. The state of the iterator is its index. The loops are
  partial functions, so a loop that never ends is \<open>None\<close>, as a panic is; the theorems
  show that every call returns.
\<close>

function mixed_loop :: "word64 list \<Rightarrow> nat \<Rightarrow> (nat option \<times> nat) option" where
  "mixed_loop ws index = do {
     let elem = index;
     let index = index + 1;
     let (word_index, mask) = chunk_word_index_and_mask elem;
     w \<leftarrow> idx ws word_index;
     if w AND mask \<noteq> 0 then Some (Some elem, index)
     else if index mod CHUNK_BITS = 0 then Some (None, index)
     else mixed_loop ws index
   }"
  by pat_completeness auto
termination
  by (relation "measure (\<lambda>(ws, index). 2048 - index mod 2048)") (auto simp: mod_Suc)

declare mixed_loop.simps [simp del]

partial_function (option) chunked_iter_next :: "chunked_bit_set \<Rightarrow> nat \<Rightarrow> (nat option \<times> nat) option" where
  "chunked_iter_next bitset index =
     (if index < cb_domain_size bitset then
        (case idx (chunks bitset) (chunk_index index) of
           None \<Rightarrow> None
         | Some chunk \<Rightarrow>
            (case chunk of
               Zeros chunk_domain_size \<Rightarrow> chunked_iter_next bitset (index + chunk_domain_size)
             | Ones _ \<Rightarrow> Some (Some index, index + 1)
             | Mixed _ _ ws \<Rightarrow>
                 (case mixed_loop ws index of
                    None \<Rightarrow> None
                  | Some (r, index') \<Rightarrow>
                      (case r of
                         Some elem \<Rightarrow> Some (Some elem, index')
                       | None \<Rightarrow> chunked_iter_next bitset index'))))
      else Some (None, index))"

text \<open>The items of the iterator: \<open>next\<close> until it returns \<open>None\<close>.\<close>

partial_function (option) chunked_iter_collect :: "chunked_bit_set \<Rightarrow> nat \<Rightarrow> nat list option" where
  "chunked_iter_collect bitset index =
     (case chunked_iter_next bitset index of
        None \<Rightarrow> None
      | Some (r, index') \<Rightarrow>
          (case r of
             None \<Rightarrow> Some []
           | Some elem \<Rightarrow> chunked_iter_collect bitset index' \<bind> (\<lambda>es. Some (elem # es))))"

text \<open>
  \<open>fold\<close>: the loop that advances to the start of a chunk (\<open>None\<close> as the second
  component is the early return), then the loop over the chunks.
\<close>

partial_function (option) fold_to_boundary ::
  "chunked_bit_set \<Rightarrow> ('b \<Rightarrow> nat \<Rightarrow> 'b) \<Rightarrow> nat \<Rightarrow> 'b \<Rightarrow> ('b \<times> nat option) option" where
  "fold_to_boundary bitset f index init =
     (if index mod CHUNK_BITS \<noteq> 0 then
        (case chunked_iter_next bitset index of
           None \<Rightarrow> None
         | Some (r, index') \<Rightarrow>
             (case r of
                None \<Rightarrow> Some (init, None)
              | Some item \<Rightarrow> fold_to_boundary bitset f index' (f init item)))
      else Some (init, Some index))"

definition fold_chunk :: "('b \<Rightarrow> nat \<Rightarrow> 'b) \<Rightarrow> nat \<Rightarrow> chunk \<Rightarrow> 'b \<Rightarrow> 'b" where
  "fold_chunk f base chunk init =
     (case chunk of
        Zeros _ \<Rightarrow> init
      | Ones limit \<Rightarrow> foldl (\<lambda>acc j. f acc (base + j)) init [0..<limit]
      | Mixed _ _ ws \<Rightarrow> foldl (\<lambda>acc item. f acc (item + base)) init (bit_iter_collect (bit_iter_new ws)))"

definition chunked_iter_fold :: "chunked_bit_set \<Rightarrow> nat \<Rightarrow> 'b \<Rightarrow> ('b \<Rightarrow> nat \<Rightarrow> 'b) \<Rightarrow> 'b option" where
  "chunked_iter_fold bitset index init f = do {
     (init, pos) \<leftarrow> fold_to_boundary bitset f index init;
     case pos of
       None \<Rightarrow> Some init
     | Some index \<Rightarrow> do {
         let start_chunk = index div CHUNK_BITS;
         cs \<leftarrow> slice_of (chunks bitset) start_chunk (length (chunks bitset));
         for_loop (\<lambda>(i, chunk) init. Some (fold_chunk f ((start_chunk + i) * CHUNK_BITS) chunk init))
           (enumerate 0 cs) init
       }
   }"

text \<open>\<open>iter()\<close> starts at index 0.\<close>

definition cb_iter :: "chunked_bit_set \<Rightarrow> nat list" where
  "cb_iter self = the (chunked_iter_collect self 0)"

subsection \<open>One call of next\<close>

text \<open>
  An iterator is inside a chunk of zeros only at its start: \<open>next\<close> leaves such a chunk
  in one step.
\<close>

definition iter_ok :: "chunked_bit_set \<Rightarrow> nat \<Rightarrow> bool" where
  "iter_ok s i \<longleftrightarrow> i \<le> 2048 * length (chunks s) \<and>
     (i < cb_domain_size s \<and> i mod 2048 \<noteq> 0 \<longrightarrow> (\<forall>n. chunks s ! (i div 2048) \<noteq> Zeros n))"

lemma mod2048_Suc: "Suc i mod 2048 \<noteq> 0 \<Longrightarrow> Suc i div 2048 = i div 2048" for i :: nat
  by (simp add: div_Suc)

lemma boundary_Suc: "Suc i mod 2048 = 0 \<Longrightarrow> Suc i = 2048 * (i div 2048 + 1)" for i :: nat
  by (metis Suc_eq_plus1 div_Suc dvd_eq_mod_eq_0 dvd_mult_div_cancel)

lemma mixed_loop_spec:
  assumes "length ws = 32"
  shows "(\<exists>e. mixed_loop ws i = Some (Some e, Suc e) \<and> i \<le> e \<and> e div 2048 = i div 2048 \<and>
            e mod 2048 \<in> words_set ws \<and> (\<forall>x. i \<le> x \<and> x < e \<longrightarrow> x mod 2048 \<notin> words_set ws)) \<or>
         (mixed_loop ws i = Some (None, 2048 * (i div 2048 + 1)) \<and>
            (\<forall>x. i \<le> x \<and> x < 2048 * (i div 2048 + 1) \<longrightarrow> x mod 2048 \<notin> words_set ws))"
  using assms
proof (induction ws i rule: mixed_loop.induct)
  case (1 ws i)
  have len: "i mod 2048 div 64 < length ws" using "1.prems" by simp
  have mem: "i mod 2048 \<in> words_set ws \<longleftrightarrow> bit (ws ! (i mod 2048 div 64)) (i mod 2048 mod 64)"
    using "1.prems" by (simp add: words_set_iff)
  consider (hit) "i mod 2048 \<in> words_set ws" | (stop) "i mod 2048 \<notin> words_set ws" "Suc i mod 2048 = 0"
    | (step) "i mod 2048 \<notin> words_set ws" "Suc i mod 2048 \<noteq> 0" by blast
  then show ?case
  proof cases
    case hit
    then have "mixed_loop ws i = Some (Some i, Suc i)"
      using len mem by (simp add: mixed_loop.simps [of ws i] and_exp64)
    then show ?thesis using hit by auto
  next
    case stop
    then have "mixed_loop ws i = Some (None, Suc i)"
      using len mem by (simp add: mixed_loop.simps [of ws i] and_exp64)
    moreover have "x = i" if "i \<le> x" "x < 2048 * (i div 2048 + 1)" for x
      using boundary_Suc [OF stop(2)] that by linarith
    ultimately show ?thesis using stop boundary_Suc [OF stop(2)] by (metis Suc_eq_plus1)
  next
    case step
    have eq: "mixed_loop ws i = mixed_loop ws (Suc i)"
      using step len mem by (simp add: mixed_loop.simps [of ws i] and_exp64)
    have "(\<forall>x. Suc i \<le> x \<and> x < b \<longrightarrow> x mod 2048 \<notin> words_set ws) \<Longrightarrow> (\<forall>x. i \<le> x \<and> x < b \<longrightarrow> x mod 2048 \<notin> words_set ws)" for b
      using step(1) by (metis Suc_leI le_neq_implies_less)
    moreover have "(\<exists>e. mixed_loop ws (Suc i) = Some (Some e, Suc e) \<and> Suc i \<le> e \<and> e div 2048 = i div 2048 \<and>
            e mod 2048 \<in> words_set ws \<and> (\<forall>x. Suc i \<le> x \<and> x < e \<longrightarrow> x mod 2048 \<notin> words_set ws)) \<or>
         (mixed_loop ws (Suc i) = Some (None, 2048 * (i div 2048 + 1)) \<and>
            (\<forall>x. Suc i \<le> x \<and> x < 2048 * (i div 2048 + 1) \<longrightarrow> x mod 2048 \<notin> words_set ws))"
      using "1.IH" [of i "Suc i"] step len mem "1.prems" mod2048_Suc [OF step(2)] by (simp add: and_exp64)
    ultimately show ?thesis unfolding eq using Suc_leD by blast
  qed
qed

lemma cb_chunk_size:
  "cb_ok s \<Longrightarrow> i < cb_domain_size s \<Longrightarrow>
     chunk_domain (chunks s ! (i div 2048)) = min 2048 (cb_domain_size s - 2048 * (i div 2048))"
  using cb_ok_chunk(1) by (simp add: cb_ok_def)

lemma iter_ok_after_hit:
  assumes "cb_ok s" and "e \<in> cb_elems s"
  shows "iter_ok s (Suc e)"
proof -
  have e: "e div 2048 < length (chunks s)" "e mod 2048 \<in> chunk_elems (chunks s ! (e div 2048))"
    using assms(2) by (simp_all add: cb_elems_def)
  then have "e < 2048 * length (chunks s)" by (simp add: div2048_less)
  moreover have "chunks s ! (Suc e div 2048) \<noteq> Zeros n" if "Suc e mod 2048 \<noteq> 0" for n
    using e(2) mod2048_Suc [OF that] by auto
  ultimately show ?thesis by (auto simp: iter_ok_def)
qed

text \<open>What a call of \<open>next\<close> promises at index \<open>i\<close>.\<close>

definition next_spec :: "chunked_bit_set \<Rightarrow> nat \<Rightarrow> bool" where
  "next_spec s i \<longleftrightarrow>
     (\<exists>e. chunked_iter_next s i = Some (Some e, Suc e) \<and> e \<in> cb_elems s \<and> i \<le> e \<and> (\<forall>x\<in>cb_elems s. i \<le> x \<longrightarrow> e \<le> x)) \<or>
     (\<exists>i'. chunked_iter_next s i = Some (None, i') \<and> (\<forall>x\<in>cb_elems s. x < i))"

lemma next_spec_skip:
  assumes "chunked_iter_next s i = chunked_iter_next s i'" and "i \<le> i'" and "next_spec s i'"
    and "\<And>x. x \<in> cb_elems s \<Longrightarrow> i \<le> x \<Longrightarrow> i' \<le> x"
  shows "next_spec s i"
  using assms(3,4) unfolding next_spec_def assms(1) using assms(2) by (meson le_trans linorder_not_le)

lemma next_at_zeros:
  assumes ok: "cb_ok s" and i: "i < cb_domain_size s" "iter_ok s i" and z: "chunks s ! (i div 2048) = Zeros n"
  shows "chunked_iter_next s i = chunked_iter_next s (i + n)" and "0 < n" and "iter_ok s (i + n)"
    and "x \<in> cb_elems s \<Longrightarrow> i \<le> x \<Longrightarrow> i + n \<le> x"
proof -
  let ?k = "i div 2048"
  have c: "?k < length (chunks s)" "chunk_ok (Zeros n)" using cb_ok_chunk [OF ok i(1)] z by simp_all
  have i0: "i = 2048 * ?k" using i z by (auto simp: iter_ok_def)
  have n: "n = min 2048 (cb_domain_size s - i)" using cb_chunk_size [OF ok i(1)] z i0 by simp
  show "chunked_iter_next s i = chunked_iter_next s (i + n)"
    using i z c by (simp add: chunked_iter_next.simps [of s i])
  show "0 < n" using c(2) by simp
  have "(i + n) mod 2048 = 0" if "i + n < cb_domain_size s"
    using that n i0 by (metis add.commute min_def less_diff_conv linorder_not_le mod_add_self2 mod_mult_self1_is_0 nat_less_le)
  then show "iter_ok s (i + n)" using c(1) i0 n by (auto simp: iter_ok_def)
  show "i + n \<le> x" if "x \<in> cb_elems s" "i \<le> x"
  proof (rule ccontr)
    assume "\<not> i + n \<le> x"
    then have "x div 2048 = ?k" using that(2) i0 n by (intro div_nat_eqI) auto
    then show False using that(1) z by (simp add: cb_elems_def)
  qed
qed

lemma next_at_mixed_end:
  assumes ok: "cb_ok s" and i: "i < cb_domain_size s" and m: "chunks s ! (i div 2048) = Mixed n k ws"
    and "mixed_loop ws i = Some (None, 2048 * (i div 2048 + 1))"
    and none: "\<And>x. i \<le> x \<Longrightarrow> x < 2048 * (i div 2048 + 1) \<Longrightarrow> x mod 2048 \<notin> words_set ws"
  shows "chunked_iter_next s i = chunked_iter_next s (2048 * (i div 2048 + 1))"
    and "iter_ok s (2048 * (i div 2048 + 1))" and "i < 2048 * (i div 2048 + 1)"
    and "x \<in> cb_elems s \<Longrightarrow> i \<le> x \<Longrightarrow> 2048 * (i div 2048 + 1) \<le> x"
proof -
  show lt: "i < 2048 * (i div 2048 + 1)" by (simp add: div2048_less)
  have c: "i div 2048 < length (chunks s)" using cb_ok_chunk(1) [OF ok i] .
  show "chunked_iter_next s i = chunked_iter_next s (2048 * (i div 2048 + 1))"
    using i m c assms(4) by (simp add: chunked_iter_next.simps [of s i])
  show "iter_ok s (2048 * (i div 2048 + 1))" using c by (simp add: iter_ok_def)
  show "2048 * (i div 2048 + 1) \<le> x" if "x \<in> cb_elems s" "i \<le> x"
  proof (rule ccontr)
    assume *: "\<not> ?thesis"
    then have "x div 2048 = i div 2048" using that(2) div_le_mono [of i x 2048] by (simp add: div_nat_eqI)
    then show False using that * none [of x] m by (simp add: cb_elems_def)
  qed
qed

lemma chunked_iter_next_spec:
  assumes ok: "cb_ok s"
  shows "iter_ok s i \<Longrightarrow> next_spec s i"
proof (induction "2048 * length (chunks s) - i" arbitrary: i rule: less_induct)
  case less
  show ?case
  proof (cases "i < cb_domain_size s")
    case False
    then show ?thesis using cb_elems_domain [OF ok]
      by (auto simp: next_spec_def chunked_iter_next.simps [of s i])
  next
    case True
    have k: "i div 2048 < length (chunks s)" and len: "i < 2048 * length (chunks s)"
      using cb_ok_chunk(1) [OF ok True] by (simp_all add: div2048_less)
    show ?thesis
    proof (cases "chunks s ! (i div 2048)")
      case (Zeros n)
      note z = next_at_zeros [OF ok True less.prems Zeros]
      have "next_spec s (i + n)" using less.hyps [of "i + n"] z(2,3) len by simp
      then show ?thesis using next_spec_skip [OF z(1)] z(4) by simp
    next
      case (Ones n)
      then have "i \<in> cb_elems s" using k cb_ok_chunk(3) [OF ok True] by (simp add: cb_elems_def)
      then show ?thesis using Ones True k by (auto simp: next_spec_def chunked_iter_next.simps [of s i])
    next
      case (Mixed n c ws)
      then have "length ws = 32" using cb_ok_chunk(2) [OF ok True] by (simp add: chunk_ok_Mixed_iff)
      from mixed_loop_spec [OF this, of i] show ?thesis
      proof (elim disjE exE conjE)
        fix e assume e: "mixed_loop ws i = Some (Some e, Suc e)" "i \<le> e" "e div 2048 = i div 2048"
          "e mod 2048 \<in> words_set ws" "\<forall>x. i \<le> x \<and> x < e \<longrightarrow> x mod 2048 \<notin> words_set ws"
        have "e \<le> x" if "x \<in> cb_elems s" "i \<le> x" for x
        proof (rule ccontr)
          assume "\<not> e \<le> x"
          then have "x div 2048 = i div 2048" "x mod 2048 \<notin> words_set ws"
            using e(2,3,5) that(2) by (auto intro!: antisym div_le_mono simp: div_le_mono)
          then show False using that(1) Mixed by (simp add: cb_elems_def)
        qed
        then show ?thesis using e k Mixed True
          by (auto simp: next_spec_def chunked_iter_next.simps [of s i] cb_elems_def)
      next
        assume "mixed_loop ws i = Some (None, 2048 * (i div 2048 + 1))"
          and "\<forall>x. i \<le> x \<and> x < 2048 * (i div 2048 + 1) \<longrightarrow> x mod 2048 \<notin> words_set ws"
        then have m: "chunked_iter_next s i = chunked_iter_next s (2048 * (i div 2048 + 1))"
            "iter_ok s (2048 * (i div 2048 + 1))" "i < 2048 * (i div 2048 + 1)"
            "\<And>x. x \<in> cb_elems s \<Longrightarrow> i \<le> x \<Longrightarrow> 2048 * (i div 2048 + 1) \<le> x"
          using next_at_mixed_end [OF ok True Mixed] by blast+
        have "next_spec s (2048 * (i div 2048 + 1))" by (rule less.hyps) (use m len in simp_all)
        then show ?thesis using next_spec_skip [OF m(1)] m(3,4) by simp
      qed
    qed
  qed
qed

subsection \<open>The items of the iterator\<close>

lemma sorted_list_append:
  fixes A B :: "nat set"
  assumes "finite A" and "finite B" and "\<And>a b. a \<in> A \<Longrightarrow> b \<in> B \<Longrightarrow> a < b"
  shows "sorted_list_of_set (A \<union> B) = sorted_list_of_set A @ sorted_list_of_set B"
proof (rule sorted_distinct_set_unique)
  show "sorted (sorted_list_of_set A @ sorted_list_of_set B)"
    using assms by (auto simp: sorted_append less_imp_le)
  show "distinct (sorted_list_of_set A @ sorted_list_of_set B)"
    using assms by (auto simp: less_not_refl)
qed (use assms in simp_all)

definition items_from :: "chunked_bit_set \<Rightarrow> nat \<Rightarrow> nat list" where
  "items_from s i = sorted_list_of_set {e \<in> cb_elems s. i \<le> e}"

lemma finite_cb_elems: "cb_ok s \<Longrightarrow> finite (cb_elems s)"
  using cb_elems_domain finite_subset by blast

lemma items_from_hit:
  assumes "cb_ok s" and "e \<in> cb_elems s" and "i \<le> e" and "\<forall>x\<in>cb_elems s. i \<le> x \<longrightarrow> e \<le> x"
  shows "items_from s i = e # items_from s (Suc e)"
proof -
  have "x \<in> {x \<in> cb_elems s. i \<le> x} \<longleftrightarrow> x \<in> {e} \<union> {x \<in> cb_elems s. Suc e \<le> x}" for x
    using assms by (cases x e rule: linorder_cases) auto
  then have "{x \<in> cb_elems s. i \<le> x} = {e} \<union> {x \<in> cb_elems s. Suc e \<le> x}" by blast
  then show ?thesis
    using sorted_list_append [of "{e}" "{x \<in> cb_elems s. Suc e \<le> x}"] finite_cb_elems [OF assms(1)]
    by (simp add: items_from_def)
qed

lemma items_from_none: "\<forall>x\<in>cb_elems s. x < i \<Longrightarrow> items_from s i = []"
proof -
  assume "\<forall>x\<in>cb_elems s. x < i"
  then have "{e \<in> cb_elems s. i \<le> e} = {}" by auto
  then show ?thesis unfolding items_from_def by (simp only: sorted_list_of_set_empty)
qed

lemma chunked_iter_next_items:
  assumes "cb_ok s" and "iter_ok s i"
  shows "(\<exists>e. chunked_iter_next s i = Some (Some e, Suc e) \<and> items_from s i = e # items_from s (Suc e) \<and> i \<le> e \<and>
            iter_ok s (Suc e)) \<or>
         (\<exists>i'. chunked_iter_next s i = Some (None, i') \<and> items_from s i = [])"
proof -
  from chunked_iter_next_spec [OF assms] show ?thesis unfolding next_spec_def
  proof (elim disjE exE conjE)
    fix e assume e: "chunked_iter_next s i = Some (Some e, Suc e)" "e \<in> cb_elems s" "i \<le> e"
      "\<forall>x\<in>cb_elems s. i \<le> x \<longrightarrow> e \<le> x"
    then show ?thesis using items_from_hit [OF assms(1) e(2-4)] iter_ok_after_hit [OF assms(1) e(2)] by blast
  next
    fix i' assume "chunked_iter_next s i = Some (None, i')" "\<forall>x\<in>cb_elems s. x < i"
    then show ?thesis using items_from_none by blast
  qed
qed

lemma chunked_iter_collect_items:
  assumes ok: "cb_ok s"
  shows "iter_ok s i \<Longrightarrow> chunked_iter_collect s i = Some (items_from s i)"
proof (induction "length (items_from s i)" arbitrary: i)
  case 0
  then show ?case using chunked_iter_next_items [OF ok, of i]
    by (auto simp: chunked_iter_collect.simps [of s i])
next
  case (Suc n)
  then show ?case using chunked_iter_next_items [OF ok, of i]
    by (auto simp: chunked_iter_collect.simps [of s i])
qed

lemma iter_ok_0 [simp]: "iter_ok s 0"
  by (simp add: iter_ok_def)

lemma items_from_0: "items_from s 0 = sorted_list_of_set (cb_elems s)"
  by (simp add: items_from_def)

interpretation cb_iter: index_set_iter cb_domain_size cb_elems cb_ok cb_iter
  by unfold_locales (simp add: cb_iter_def chunked_iter_collect_items items_from_0)

lemma fold_to_boundary_items:
  assumes ok: "cb_ok s"
  shows "iter_ok s i \<Longrightarrow> \<exists>acc pos. fold_to_boundary s f i init = Some (acc, pos) \<and>
    (case pos of
       None \<Rightarrow> acc = foldl f init (items_from s i)
     | Some j \<Rightarrow> j mod 2048 = 0 \<and> iter_ok s j \<and> foldl f acc (items_from s j) = foldl f init (items_from s i))"
proof (induction "length (items_from s i)" arbitrary: i init)
  case 0
  then show ?case
    using chunked_iter_next_items [OF ok, of i] by (auto simp: fold_to_boundary.simps [of s f i])
next
  case (Suc n)
  then obtain e where e: "chunked_iter_next s i = Some (Some e, Suc e)" "items_from s i = e # items_from s (Suc e)"
      "iter_ok s (Suc e)"
    using chunked_iter_next_items [OF ok, of i] by auto
  show ?case
  proof (cases "i mod 2048 = 0")
    case True
    then show ?thesis using Suc.prems by (auto simp: fold_to_boundary.simps [of s f i])
  next
    case False
    then have eq1: "fold_to_boundary s f i init = fold_to_boundary s f (Suc e) (f init e)"
      using e by (simp add: fold_to_boundary.simps [of s f i])
    have eq2: "foldl f init (items_from s i) = foldl f (f init e) (items_from s (Suc e))" using e(2) by simp
    show ?thesis unfolding eq1 eq2 by (rule Suc.hyps(1)) (use e Suc.hyps(2) in simp_all)
  qed
qed

lemma chunk_items:
  assumes "cb_ok s" and "k < length (chunks s)"
  shows "fold_chunk f (k * 2048) (chunks s ! k) init =
    foldl f init (map ((+) (2048 * k)) (sorted_list_of_set (chunk_elems (chunks s ! k))))"
proof (cases "chunks s ! k")
  case (Ones n)
  then show ?thesis by (simp add: fold_chunk_def foldl_map mult.commute lessThan_atLeast0)
next
  case (Mixed n c ws)
  then have "length ws = 32" using assms by (auto simp: cb_ok_def chunk_ok_Mixed_iff dest!: spec [of _ k])
  then show ?thesis using Mixed by (simp add: fold_chunk_def foldl_map bit_iter_collect_new mult.commute add.commute)
qed (simp add: fold_chunk_def)

lemma items_from_chunk:
  assumes "cb_ok s" and "k < length (chunks s)"
  shows "items_from s (2048 * k) =
    map ((+) (2048 * k)) (sorted_list_of_set (chunk_elems (chunks s ! k))) @ items_from s (2048 * Suc k)"
proof -
  let ?C = "chunk_elems (chunks s ! k)"
  have C: "?C = {j. j < 2048 \<and> 2048 * k + j \<in> cb_elems s}" by (rule chunk_elems_conv [OF assms])
  have "{e \<in> cb_elems s. 2048 * k \<le> e} = (+) (2048 * k) ` ?C \<union> {e \<in> cb_elems s. 2048 * Suc k \<le> e}"
  proof (intro set_eqI iffI)
    fix e assume e: "e \<in> {e \<in> cb_elems s. 2048 * k \<le> e}"
    show "e \<in> (+) (2048 * k) ` ?C \<union> {e \<in> cb_elems s. 2048 * Suc k \<le> e}"
    proof (cases "2048 * Suc k \<le> e")
      case False
      then have "e - 2048 * k \<in> ?C" using e by (auto simp: C)
      then have "2048 * k + (e - 2048 * k) \<in> (+) (2048 * k) ` ?C" by (rule imageI)
      then show ?thesis using e by simp
    qed (use e in simp)
  qed (auto simp: C)
  moreover have "sorted_list_of_set ((+) (2048 * k) ` ?C) = map ((+) (2048 * k)) (sorted_list_of_set ?C)"
    by (rule sorted_distinct_set_unique) (auto simp: C sorted_map distinct_map)
  moreover have "sorted_list_of_set ((+) (2048 * k) ` ?C \<union> {e \<in> cb_elems s. 2048 * Suc k \<le> e}) =
      sorted_list_of_set ((+) (2048 * k) ` ?C) @ sorted_list_of_set {e \<in> cb_elems s. 2048 * Suc k \<le> e}"
  proof (rule sorted_list_append)
    show "finite {e \<in> cb_elems s. 2048 * Suc k \<le> e}" using finite_cb_elems [OF assms(1)] by simp
  qed (auto simp: C)
  ultimately show ?thesis by (simp only: items_from_def)
qed

lemma for_loop_enumerate_shift:
  "for_loop (\<lambda>(i, c). g (a + i) c) (enumerate b cs) init = for_loop (\<lambda>(i, c). g i c) (enumerate (a + b) cs) init"
proof (induction cs arbitrary: b init)
  case (Cons c cs)
  have "for_loop (\<lambda>(i, c). g (a + i) c) (enumerate (Suc b) cs) = for_loop (\<lambda>(i, c). g i c) (enumerate (a + Suc b) cs)"
    using Cons.IH by blast
  then show ?case by simp
qed simp

lemma fold_chunks_items:
  assumes "cb_ok s"
  shows "k \<le> length (chunks s) \<Longrightarrow>
    for_loop (\<lambda>(i, c) acc. Some (fold_chunk f (i * 2048) c acc)) (enumerate k (drop k (chunks s))) init =
      Some (foldl f init (items_from s (2048 * k)))"
proof (induction "length (chunks s) - k" arbitrary: k init)
  case 0
  then have "\<forall>x\<in>cb_elems s. x < 2048 * k" by (auto simp: cb_elems_def div2048_less)
  then show ?case using 0 by (simp add: items_from_none)
next
  case (Suc n)
  then have "drop k (chunks s) = chunks s ! k # drop (Suc k) (chunks s)" by (simp add: Cons_nth_drop_Suc)
  then show ?case
    using Suc chunk_items [OF assms, of k f init] items_from_chunk [OF assms, of k] by simp
qed

lemma chunked_iter_fold_items:
  assumes "cb_ok s" and "iter_ok s i"
  shows "chunked_iter_fold s i init f = Some (foldl f init (items_from s i))"
proof -
  obtain acc pos where b: "fold_to_boundary s f i init = Some (acc, pos)"
      "case pos of None \<Rightarrow> acc = foldl f init (items_from s i)
       | Some j \<Rightarrow> j mod 2048 = 0 \<and> iter_ok s j \<and> foldl f acc (items_from s j) = foldl f init (items_from s i)"
    using fold_to_boundary_items [OF assms, of f init] by auto
  show ?thesis
  proof (cases pos)
    case (Some j)
    then have j: "2048 * (j div 2048) = j" "j div 2048 \<le> length (chunks s)"
      using b(2) by (auto simp: iter_ok_def)
    then show ?thesis
      using b Some fold_chunks_items [OF assms(1) j(2), of f acc]
        for_loop_enumerate_shift [of "\<lambda>i c acc. Some (fold_chunk f (i * 2048) c acc)" "j div 2048" 0 "drop (j div 2048) (chunks s)" acc]
      by (simp add: chunked_iter_fold_def)
  qed (use b in \<open>simp add: chunked_iter_fold_def\<close>)
qed

subsection \<open>Intersection of a dense set with a chunked set\<close>

fun chunk_words :: "chunk \<Rightarrow> word64 list" where
  "chunk_words (Zeros _) = replicate 32 0"
| "chunk_words (Ones _) = replicate 32 (- 1)"
| "chunk_words (Mixed _ _ ws) = ws"

lemma length_chunk_words: "chunk_ok c \<Longrightarrow> length (chunk_words c) = 32"
  by (cases c) (simp_all add: chunk_ok_Mixed_iff)

lemma and_loop:
  assumes "n \<le> length ws" and "length ws \<le> length ds"
  shows "for_loop (\<lambda>i (ws, changed). do {
            word \<leftarrow> idx ws i;
            d \<leftarrow> idx ds i;
            let new_val = word AND d;
            if new_val \<noteq> word then do { ws \<leftarrow> idx_set ws i new_val; Some (ws, True) }
            else Some (ws, changed)
          }) [0..<n] (ws, False) =
    Some (map2 (AND) (take n ws) ds @ drop n ws, map2 (AND) (take n ws) ds \<noteq> take n ws)"
  using assms(1)
proof (induction n)
  case (Suc n)
  let ?w = "ws ! n" and ?d = "ds ! n"
  have t: "take (Suc n) ws = take n ws @ [?w]" using Suc.prems by (simp add: take_Suc_conv_app_nth)
  have m: "map2 (AND) (take (Suc n) ws) ds = map2 (AND) (take n ws) ds @ [?w AND ?d]"
    using Suc.prems assms(2) by (auto simp: list_eq_iff_nth_eq nth_append less_Suc_eq t min_def)
  have d: "drop n ws = ?w # drop (Suc n) ws" using Suc.prems by (simp add: Cons_nth_drop_Suc)
  have len: "length (map2 (AND) (take n ws) ds) = n" using Suc.prems assms(2) by simp
  have up: "(map2 (AND) (take n ws) ds @ drop n ws)[n := v] = map2 (AND) (take n ws) ds @ v # drop (Suc n) ws" for v
    using len d by (simp add: list_update_append)
  show ?case
    using Suc assms(2) len d up by (auto simp: for_loop_append nth_append m t m [unfolded t] Let_def)
qed simp

lemma intersect_chunk_words:
  assumes "length ws \<le> 32" and "chunk_ok c"
  shows "intersect_chunk ws c = Some (map2 (AND) ws (chunk_words c), map2 (AND) ws (chunk_words c) \<noteq> ws)"
proof (cases c)
  case (Zeros n)
  have "map2 (AND) ws (replicate 32 0) = map (\<lambda>_. 0) ws"
    using assms(1) by (auto simp: list_eq_iff_nth_eq)
  moreover have "map (\<lambda>_. 0) ws \<noteq> ws \<longleftrightarrow> list_ex (\<lambda>w. w \<noteq> 0) ws"
    by (induction ws) auto
  ultimately show ?thesis using Zeros by (simp add: intersect_chunk_def)
next
  case (Ones n)
  have "map2 (AND) ws (replicate 32 (- 1)) = ws" using assms(1) by (auto simp: list_eq_iff_nth_eq)
  then show ?thesis using Ones by (simp add: intersect_chunk_def)
next
  case (Mixed n k ds)
  then show ?thesis
    using and_loop [of "length ws" ws ds] assms length_chunk_words [of c] by (simp add: intersect_chunk_def)
qed

text \<open>One step of the loop over the chunks: the words of chunk \<open>k\<close> are masked.\<close>

lemma mask_part:
  assumes "32 * k < length ws" and "length ds = 32"
  defines "part \<equiv> take 32 (drop (32 * k) ws)"
  shows "length (take (32 * k) ws @ map2 (AND) part ds @ drop (32 * k + length part) ws) = length ws"
    and "i < length ws \<Longrightarrow> (take (32 * k) ws @ map2 (AND) part ds @ drop (32 * k + length part) ws) ! i =
      (if i div 32 = k then ws ! i AND ds ! (i mod 32) else ws ! i)"
proof -
  have part: "length part = min 32 (length ws - 32 * k)" by (simp add: part_def min_def)
  then show len: "length (take (32 * k) ws @ map2 (AND) part ds @ drop (32 * k + length part) ws) = length ws"
    using assms(1,2) by simp
  assume i: "i < length ws"
  consider (before) "i < 32 * k" | (in_part) "32 * k \<le> i" "i < 32 * k + length part" | (after) "32 * k + length part \<le> i"
    by linarith
  then show "(take (32 * k) ws @ map2 (AND) part ds @ drop (32 * k + length part) ws) ! i =
      (if i div 32 = k then ws ! i AND ds ! (i mod 32) else ws ! i)"
  proof cases
    case before
    then have "i div 32 < k" by (simp add: div_less_iff_less_mult mult.commute)
    then show ?thesis using before i assms(1) by (simp add: nth_append)
  next
    case in_part
    then have k: "i div 32 = k" "i mod 32 = i - 32 * k"
      using part by (auto simp: div_nat_eqI minus_mult_div_eq_mod [symmetric])
    have "i - 32 * k < length part" "part ! (i - 32 * k) = ws ! i" using in_part by (auto simp: part_def)
    then show ?thesis using in_part k i part assms(1,2) by (simp add: nth_append)
  next
    case after
    then have "length part = 32" using part i by (simp add: min_def split: if_splits)
    then have "i div 32 \<noteq> k" using after div_mult_mod_eq [of i 32] mod_less_divisor [of 32 i] by auto
    then show ?thesis using after i part assms(1,2) \<open>length part = 32\<close> by (auto simp: nth_append)
  qed
qed

lemma chunk_words_bit:
  assumes "chunk_ok c" and "j < chunk_domain c"
  shows "bit (chunk_words c ! (j div 64)) (j mod 64) \<longleftrightarrow> j \<in> chunk_elems c"
proof -
  have "j < 2048" using assms chunk_ok_size [of c] by simp
  then show ?thesis
    using assms by (cases c) (auto simp: chunk_ok_Mixed_iff words_set_iff bit_minus_1_iff)
qed

lemma mask_part_elems:
  assumes "cb_ok t" and "k < length (chunks t)" and "words_set ws \<subseteq> {..<cb_domain_size t}" and "32 * k < length ws"
  defines "part \<equiv> take 32 (drop (32 * k) ws)"
  shows "words_set (take (32 * k) ws @ map2 (AND) part (chunk_words (chunks t ! k)) @ drop (32 * k + length part) ws) =
    {e \<in> words_set ws. e div 2048 = k \<longrightarrow> e \<in> cb_elems t}"
proof -
  let ?ds = "chunk_words (chunks t ! k)"
  have len: "length ?ds = 32" using assms(1,2) by (simp add: length_chunk_words cb_ok_def)
  note mp = mask_part [OF assms(4) len, folded part_def]
  have "e \<in> words_set (take (32 * k) ws @ map2 (AND) part ?ds @ drop (32 * k + length part) ws) \<longleftrightarrow>
      e \<in> words_set ws \<and> (e div 2048 = k \<longrightarrow> e \<in> cb_elems t)" for e
  proof (cases "e \<in> words_set ws")
    case True
    then have d: "e < cb_domain_size t" "e div 64 < length ws" using assms(3) by (auto simp: words_set_iff div64_less)
    have *: "e div 64 div 32 = e div 2048" "e mod 2048 div 64 = e div 64 mod 32" "e mod 2048 mod 64 = e mod 64"
      by (simp add: div_mult2_eq [symmetric], simp add: mod_mult2_eq [of e 64 32, simplified], simp add: mod_mod_cancel)
    have "e \<in> words_set (take (32 * k) ws @ map2 (AND) part ?ds @ drop (32 * k + length part) ws) \<longleftrightarrow>
        (e div 2048 = k \<longrightarrow> bit (?ds ! (e mod 2048 div 64)) (e mod 2048 mod 64))"
      using True d mp by (simp add: words_set_iff div64_less * bit_and_iff)
    also have "\<dots> \<longleftrightarrow> (e div 2048 = k \<longrightarrow> e \<in> cb_elems t)"
      using chunk_words_bit [of "chunks t ! k" "e mod 2048"] cb_ok_chunk [OF assms(1) d(1)] cb_mem [OF assms(1) d(1)] by auto
    finally show ?thesis using True by simp
  next
    case False
    then show ?thesis using mp by (auto simp: words_set_iff div64_less bit_and_iff split: if_splits)
  qed
  then show ?thesis by blast
qed

definition masked_words :: "word64 list \<Rightarrow> nat \<Rightarrow> chunk \<Rightarrow> word64 list" where
  "masked_words ws k c =
     (let part = take 32 (drop (32 * k) ws)
      in take (32 * k) ws @ map2 (AND) part (chunk_words c) @ drop (32 * k + length part) ws)"

lemma masked_words_same:
  assumes "32 * k < length ws" and "chunk_ok c"
  shows "masked_words ws k c = ws \<longleftrightarrow> map2 (AND) (take 32 (drop (32 * k) ws)) (chunk_words c) = take 32 (drop (32 * k) ws)"
proof -
  let ?part = "take 32 (drop (32 * k) ws)"
  have "take n xs @ drop (length (take n xs)) xs = xs" for n and xs :: "word64 list"
    by (cases "n \<le> length xs") simp_all
  from this [of 32 "drop (32 * k) ws"] have "?part @ drop (32 * k + length ?part) ws = drop (32 * k) ws"
    by (simp add: add.commute)
  then have eq: "ws = take (32 * k) ws @ ?part @ drop (32 * k + length ?part) ws" by (metis append_take_drop_id)
  have "masked_words ws k c = ws \<longleftrightarrow> take (32 * k) ws @ map2 (AND) ?part (chunk_words c) @ drop (32 * k + length ?part) ws =
      take (32 * k) ws @ ?part @ drop (32 * k + length ?part) ws"
    unfolding masked_words_def Let_def using eq by simp
  then show ?thesis by (simp only: same_append_eq append_same_eq)
qed

lemma intersect_step:
  assumes "32 * k < length ws" and "chunk_ok c"
  shows "do {
         tail \<leftarrow> slice_of ws (k * CHUNK_WORDS) (length ws);
         let part = (if length tail > CHUNK_WORDS then take CHUNK_WORDS tail else tail);
         (part', ch) \<leftarrow> intersect_chunk part c;
         Some (take (k * CHUNK_WORDS) ws @ part' @ drop (length part) tail, ch \<or> changed)
       } = Some (masked_words ws k c, masked_words ws k c \<noteq> ws \<or> changed)"
proof -
  let ?tail = "drop (32 * k) ws" let ?part = "take 32 ?tail"
  have tail: "slice_of ws (k * CHUNK_WORDS) (length ws) = Some ?tail" using assms(1) by (simp add: mult.commute)
  have part: "(if length ?tail > CHUNK_WORDS then take CHUNK_WORDS ?tail else ?tail) = ?part" by simp
  have ic: "intersect_chunk ?part c = Some (map2 (AND) ?part (chunk_words c), masked_words ws k c \<noteq> ws)"
    using intersect_chunk_words [of ?part c] assms masked_words_same [OF assms] by simp
  have "drop (length ?part) ?tail = drop (32 * k + length ?part) ws" by (simp add: add.commute)
  then show ?thesis
    unfolding tail Option.bind.simps Let_def part ic masked_words_def by (simp add: mult.commute)
qed

lemma intersect_chunked_loop:
  assumes s: "bs_ok s" and t: "cb_ok t" and d: "cb_domain_size t = domain_size s"
  shows "\<exists>ws. for_loop (\<lambda>(i, chunk) (ws, changed). do {
         tail \<leftarrow> slice_of ws (i * CHUNK_WORDS) (length ws);
         let part = (if length tail > CHUNK_WORDS then take CHUNK_WORDS tail else tail);
         (part', ch) \<leftarrow> intersect_chunk part chunk;
         Some (take (i * CHUNK_WORDS) ws @ part' @ drop (length part) tail, ch \<or> changed)
       }) (enumerate 0 (chunks t)) (words s, False) = Some (ws, words_set ws \<noteq> words_set (words s)) \<and>
    length ws = length (words s) \<and>
    words_set ws = {e \<in> words_set (words s). e div 2048 < length (chunks t) \<longrightarrow> e \<in> cb_elems t}"
    (is "\<exists>ws. for_loop ?body _ _ = _ \<and> _")
proof -
  let ?S = "words_set (words s)"
  let ?I = "\<lambda>done r. \<exists>ws. r = (ws, words_set ws \<noteq> ?S) \<and> length ws = length (words s) \<and>
    words_set ws = {e \<in> ?S. e div 2048 < length done \<longrightarrow> e \<in> cb_elems t}"
  have S: "?S \<subseteq> {..<cb_domain_size t}" using s d by (simp add: bs_ok_def)
  have "\<exists>r. for_loop ?body (enumerate 0 (chunks t)) (words s, False) = Some r \<and> ?I (enumerate 0 (chunks t)) r"
  proof (rule for_loop_invariant)
    fix before x after r assume split: "enumerate 0 (chunks t) = before @ x # after" and I: "?I before r"
    let ?k = "length before"
    obtain ws where r: "r = (ws, words_set ws \<noteq> ?S)" and lw: "length ws = length (words s)"
      and el: "words_set ws = {e \<in> ?S. e div 2048 < ?k \<longrightarrow> e \<in> cb_elems t}" using I by blast
    have k: "?k < length (chunks t)" using arg_cong [OF split, of length] by simp
    have x: "x = (?k, chunks t ! ?k)"
      using arg_cong [OF split, of "\<lambda>xs. xs ! ?k"] k by (simp add: nth_enumerate_eq)
    let ?c = "chunks t ! ?k" let ?ws' = "masked_words ws ?k ?c"
    have c: "chunk_ok ?c" "chunk_domain ?c = min 2048 (cb_domain_size t - 2048 * ?k)" using t k by (auto simp: cb_ok_def)
    then have "2048 * ?k < domain_size s" using chunk_ok_size [of ?c] d by auto
    then have kw: "32 * ?k < length ws" using num_words_bound(1) [of "domain_size s"] s lw by (simp add: bs_ok_def)
    have len: "length ?ws' = length ws"
      unfolding masked_words_def Let_def by (rule mask_part(1) [OF kw length_chunk_words [OF c(1)]])
    have "words_set ?ws' = {e \<in> words_set ws. e div 2048 = ?k \<longrightarrow> e \<in> cb_elems t}"
      using mask_part_elems [OF t k _ kw] S el by (auto simp: masked_words_def Let_def)
    then have el': "words_set ?ws' = {e \<in> ?S. e div 2048 < Suc ?k \<longrightarrow> e \<in> cb_elems t}"
      using el by (auto simp: less_Suc_eq)
    have "words_set ?ws' \<subseteq> words_set ws" "words_set ws \<subseteq> ?S" using el el' by auto
    then have "(?ws' \<noteq> ws \<or> words_set ws \<noteq> ?S) = (words_set ?ws' \<noteq> ?S)"
      using words_set_eqI [OF len] by (metis subset_antisym)
    then have "?body x r = Some (?ws', words_set ?ws' \<noteq> ?S)"
      using intersect_step [OF kw c(1), of "words_set ws \<noteq> ?S"] unfolding x r prod.case by simp
    then show "\<exists>r'. ?body x r = Some r' \<and> ?I (before @ [x]) r'" using len lw el' by simp
  qed simp
  then show ?thesis by auto
qed

lemma intersect_chunked_returns:
  assumes s: "bs_ok s" and t: "cb_ok t" and d: "cb_domain_size t = domain_size s"
  shows "bs_returns s (intersect_chunked s t) (bs_elems s \<inter> cb_elems t) (bs_elems s \<inter> cb_elems t \<noteq> bs_elems s)"
proof -
  obtain ws where ws: "intersect_chunked s t = Some (s\<lparr>words := ws\<rparr>, words_set ws \<noteq> words_set (words s))"
      "length ws = length (words s)"
      "words_set ws = {e \<in> words_set (words s). e div 2048 < length (chunks t) \<longrightarrow> e \<in> cb_elems t}"
    using intersect_chunked_loop [OF assms] d unfolding intersect_chunked_def by auto
  have "e div 2048 < length (chunks t)" if "e \<in> words_set (words s)" for e
    using that s d cb_ok_chunk(1) [OF t, of e] by (auto simp: bs_ok_def)
  then have "words_set ws = bs_elems s \<inter> cb_elems t" using ws(3) by (auto simp: bs_elems_def)
  then show ?thesis using ws(1,2) s by (auto simp: returns_def bs_ok_def bs_elems_def)
qed

subsection \<open>Union of a dense set with a chunked set\<close>

definition union_chunked :: "bit_set \<Rightarrow> chunked_bit_set \<Rightarrow> (bit_set \<times> bool) option" where
  "union_chunked self other = sequential_update insert_elem (cb_iter other) self"

interpretation bs_cb_union: index_set_union_by_iter
  domain_size bs_elems bs_ok insert_elem cb_domain_size cb_elems cb_ok cb_iter
  by unfold_locales

subsection \<open>Theorems\<close>

text \<open>
  C19: inserting into and removing from a well-formed chunked set changes exactly that
  element, reports whether the set changed, and keeps the invariant of the chunks: the
  stored count is the number of ones, a mixed chunk is never all zeros or all ones, and
  the excess words stay zero.
\<close>

theorem chunked_insert_remove:
  assumes "cb_ok s" and "e < cb_domain_size s"
  shows "(\<exists>s'. cb_insert s e = Some (s', e \<notin> cb_elems s) \<and> cb_ok s' \<and> cb_domain_size s' = cb_domain_size s \<and>
      cb_elems s' = insert e (cb_elems s) \<and> cb_count s' = card (insert e (cb_elems s))) \<and>
    (\<exists>s'. cb_remove s e = Some (s', e \<in> cb_elems s) \<and> cb_ok s' \<and> cb_domain_size s' = cb_domain_size s \<and>
      cb_elems s' = cb_elems s - {e} \<and> cb_count s' = card (cb_elems s - {e}))"
  using cb_insert_elem [OF assms] cb_remove_elem [OF assms] cb_count by (fastforce simp: returns_def)

theorem chunked_insert_remove_witness:
  "\<exists>s s'. cb_new_filled 3000 = Some s \<and> cb_remove s 2500 = Some (s', True) \<and> cb_ok s' \<and>
     cb_elems s' = {..<3000} - {2500}"
proof -
  obtain s where s: "cb_new 3000 False = Some s" "cb_ok s" "cb_domain_size s = 3000" "cb_elems s = {..<3000}"
    using cb_new [of 3000 False] by auto
  then show ?thesis using chunked_insert_remove [of s 2500] by (auto simp: cb_new_filled_def)
qed

text \<open>
  The union of two well-formed chunked sets over the same domain is their union, the
  result says whether the set changed, and no assertion of the code fails.
\<close>

theorem chunked_union_exact:
  assumes "cb_ok s" and "cb_ok t" and "cb_domain_size t = cb_domain_size s"
  shows "\<exists>s'. cb_union s t = Some (s', cb_elems s \<union> cb_elems t \<noteq> cb_elems s) \<and> cb_ok s' \<and>
    cb_domain_size s' = cb_domain_size s \<and> cb_elems s' = cb_elems s \<union> cb_elems t"
  using cb_union [OF assms] by (simp add: returns_def)

theorem chunked_union_exact_witness:
  "\<exists>s t s'. cb_new_empty 5000 = Some s \<and> cb_new_filled 5000 = Some t \<and> cb_union s t = Some (s', True) \<and>
     cb_elems s' = {..<5000}"
proof -
  obtain s where s: "cb_new 5000 True = Some s" "cb_ok s" "cb_domain_size s = 5000" "cb_elems s = {}"
    using cb_new [of 5000 True] by auto
  obtain t where t: "cb_new 5000 False = Some t" "cb_ok t" "cb_domain_size t = 5000" "cb_elems t = {..<5000}"
    using cb_new [of 5000 False] by auto
  have "cb_elems s \<union> cb_elems t \<noteq> cb_elems s" using s(4) t(4) by (simp add: lessThan_empty_iff)
  then show ?thesis
    using chunked_union_exact [of s t] s t by (auto simp: cb_new_empty_def cb_new_filled_def)
qed

text \<open>
  C21: an iterator over a chunked set that starts at an index it can reach returns the
  elements from there on, each once, in increasing order, whether it is driven by
  \<open>next\<close> or by the chunk-wise \<open>fold\<close>; both end.
\<close>

theorem chunked_iteration_exact:
  assumes "cb_ok s" and "iter_ok s i"
  shows "chunked_iter_collect s i = Some (sorted_list_of_set {e \<in> cb_elems s. i \<le> e}) \<and>
    chunked_iter_fold s i init f = Some (foldl f init (sorted_list_of_set {e \<in> cb_elems s. i \<le> e}))"
  using chunked_iter_collect_items [OF assms] chunked_iter_fold_items [OF assms] by (simp add: items_from_def)

theorem chunked_iteration_exact_witness:
  "\<exists>s. cb_new_filled 2050 = Some s \<and> iter_ok s 2047 \<and> chunked_iter_collect s 2047 = Some [2047, 2048, 2049]"
proof -
  obtain s where s: "cb_new 2050 False = Some s" "cb_ok s" "cb_domain_size s = 2050" "cb_elems s = {..<2050}"
    using cb_new [of 2050 False] by auto
  have i: "iter_ok s 2047" using iter_ok_after_hit [OF s(2), of 2046] s(4) by simp
  have "e < 2050 \<and> 2047 \<le> e \<longleftrightarrow> e = 2047 \<or> e = 2048 \<or> e = 2049" for e :: nat by presburger
  then have "{e \<in> cb_elems s. 2047 \<le> e} = set [2047, 2048, 2049]" unfolding s(4) by (intro set_eqI) simp
  moreover have "sorted_list_of_set (set [2047, 2048, 2049 :: nat]) = [2047, 2048, 2049]"
    by (rule sorted_list_of_set.idem_if_sorted_distinct) simp_all
  ultimately show ?thesis
    using chunked_iteration_exact [OF s(2) i, of "0 :: nat" "(+)"] s(1) i by (auto simp: cb_new_filled_def)
qed

text \<open>
  The dense set relations that take a chunked set, \<open>union\<close> through its iterator and
  \<open>intersect\<close> on its words, compute the set operation and report a change exactly when
  there is one.
\<close>

theorem dense_chunked_relations:
  assumes "bs_ok s" and "cb_ok t" and "cb_domain_size t = domain_size s"
  shows "(\<exists>s'. union_chunked s t = Some (s', bs_elems s \<union> cb_elems t \<noteq> bs_elems s) \<and> bs_ok s' \<and>
      domain_size s' = domain_size s \<and> bs_elems s' = bs_elems s \<union> cb_elems t) \<and>
    (\<exists>s'. intersect_chunked s t = Some (s', bs_elems s \<inter> cb_elems t \<noteq> bs_elems s) \<and> bs_ok s' \<and>
      domain_size s' = domain_size s \<and> bs_elems s' = bs_elems s \<inter> cb_elems t)"
  using bs_cb_union.union_by_iter [OF assms] intersect_chunked_returns [OF assms]
  by (simp add: returns_def union_chunked_def)

theorem dense_chunked_relations_witness:
  "\<exists>t s'. cb_new_filled 3000 = Some t \<and> union_chunked (new_empty 3000) t = Some (s', True) \<and> bs_elems s' = {..<3000}"
proof -
  obtain t where t: "cb_new 3000 False = Some t" "cb_ok t" "cb_domain_size t = 3000" "cb_elems t = {..<3000}"
    using cb_new [of 3000 False] by auto
  have s: "bs_ok (new_empty 3000)" "bs_elems (new_empty 3000) = {}" "domain_size (new_empty 3000) = 3000"
    by (simp_all add: bs_new_empty) (simp add: new_empty_def)
  have "{} \<union> {..<3000 :: nat} \<noteq> {}" by (simp add: lessThan_empty_iff)
  then show ?thesis
    using dense_chunked_relations [OF s(1) t(2)] s t by (auto simp: cb_new_filled_def)
qed

end
