(* ===== verification/Hybrid_Bit_Set.thy ===== *)
theory Hybrid_Bit_Set
  imports Chunked_Iter
begin

text \<open>
  \<open>SparseBitSet\<close> and \<open>HybridBitSet\<close> of \<open>rustc_index/src/bit_set.rs\<close>, and the relations
  that have a hybrid set on either side. The \<open>ArrayVec\<close> of a sparse set is a list of at
  most \<open>SPARSE_MAX\<close> elements; inserting into a full one is a panic.
\<close>

definition SPARSE_MAX :: nat where "SPARSE_MAX = 8"

record sparse_bit_set =
  sp_domain_size :: nat
  sp_elems :: "nat list"

definition sp_new_empty :: "nat \<Rightarrow> sparse_bit_set" where
  "sp_new_empty domain = \<lparr>sp_domain_size = domain, sp_elems = []\<rparr>"

definition sp_len :: "sparse_bit_set \<Rightarrow> nat" where
  "sp_len self = length (sp_elems self)"

definition sp_is_empty :: "sparse_bit_set \<Rightarrow> bool" where
  "sp_is_empty self \<longleftrightarrow> length (sp_elems self) = 0"

definition sp_contains :: "sparse_bit_set \<Rightarrow> nat \<Rightarrow> bool option" where
  "sp_contains self elem = do {
     rassert (elem < sp_domain_size self);
     Some (elem \<in> set (sp_elems self))
   }"

text \<open>\<open>ArrayVec::insert\<close> and \<open>ArrayVec::push\<close> with capacity \<open>SPARSE_MAX\<close>.\<close>

definition array_insert :: "nat list \<Rightarrow> nat \<Rightarrow> nat \<Rightarrow> nat list option" where
  "array_insert xs i x = do { rassert (length xs < SPARSE_MAX); vec_insert xs i x }"

definition array_push :: "nat list \<Rightarrow> nat \<Rightarrow> nat list option" where
  "array_push xs x = do { rassert (length xs < SPARSE_MAX); Some (xs @ [x]) }"

definition sp_insert :: "sparse_bit_set \<Rightarrow> nat \<Rightarrow> (sparse_bit_set \<times> bool) option" where
  "sp_insert self elem = do {
     rassert (elem < sp_domain_size self);
     (es, changed) \<leftarrow>
       (case position (\<lambda>e. e \<ge> elem) (sp_elems self) of
          Some i \<Rightarrow> do {
            e \<leftarrow> idx (sp_elems self) i;
            if e = elem then Some (sp_elems self, False)
            else do { es \<leftarrow> array_insert (sp_elems self) i elem; Some (es, True) }
          }
        | None \<Rightarrow> do { es \<leftarrow> array_push (sp_elems self) elem; Some (es, True) });
     rassert (length es \<le> SPARSE_MAX);
     Some (self\<lparr>sp_elems := es\<rparr>, changed)
   }"

definition sp_remove :: "sparse_bit_set \<Rightarrow> nat \<Rightarrow> (sparse_bit_set \<times> bool) option" where
  "sp_remove self elem = do {
     rassert (elem < sp_domain_size self);
     case position (\<lambda>e. e = elem) (sp_elems self) of
       Some i \<Rightarrow> do { es \<leftarrow> vec_remove (sp_elems self) i; Some (self\<lparr>sp_elems := es\<rparr>, True) }
     | None \<Rightarrow> Some (self, False)
   }"

text \<open>The loop \<open>for elem in elems { dense.insert(*elem); }\<close>.\<close>

definition insert_each :: "nat list \<Rightarrow> bit_set \<Rightarrow> bit_set option" where
  "insert_each es dense = for_loop (\<lambda>elem dense. map_option fst (insert_elem dense elem)) es dense"

definition sp_to_dense :: "sparse_bit_set \<Rightarrow> bit_set option" where
  "sp_to_dense self = insert_each (sp_elems self) (new_empty (sp_domain_size self))"

definition sp_iter :: "sparse_bit_set \<Rightarrow> nat list" where
  "sp_iter self = sp_elems self"

definition sp_last_set_in :: "sparse_bit_set \<Rightarrow> range_bounds \<Rightarrow> nat option" where
  "sp_last_set_in self rng =
     foldl (\<lambda>last_leq e. if range_contains rng e then Some e else last_leq) None (sp_iter self)"

subsection \<open>Union of a dense set with a sparse one, from the dense side\<close>

text \<open>
  The state of the loop of \<open>reverse_union_sparse\<close>: the words, the index of the word not
  yet merged, the mask of its bits that came from the sparse set, and the answer so far.
\<close>

definition merge_word :: "word64 list \<Rightarrow> nat \<Rightarrow> word64 \<Rightarrow> bool \<Rightarrow> (word64 list \<times> bool) option" where
  "merge_word ws current_index new_bit_mask not_already = do {
     ws \<leftarrow> or_word ws current_index new_bit_mask;
     w \<leftarrow> idx ws current_index;
     Some (ws, not_already \<or> w XOR new_bit_mask \<noteq> 0)
   }"

definition reverse_union_step ::
  "nat \<Rightarrow> word64 list \<times> nat \<times> word64 \<times> bool \<Rightarrow> (word64 list \<times> nat \<times> word64 \<times> bool) option" where
  "reverse_union_step x state =
     (case state of (ws, current_index, new_bit_mask, not_already) \<Rightarrow> do {
        let (word_index, mask) = word_index_and_mask x;
        (ws, current_index, new_bit_mask, not_already) \<leftarrow>
          (if word_index > current_index then do {
             (ws, not_already) \<leftarrow> merge_word ws current_index new_bit_mask not_already;
             skipped \<leftarrow> slice_of ws (current_index + 1) word_index;
             Some (ws, word_index, 0, not_already \<or> list_ex (\<lambda>x. x \<noteq> 0) skipped)
           }
           else Some (ws, current_index, new_bit_mask, not_already));
        Some (ws, current_index, new_bit_mask OR mask, not_already)
      })"

definition reverse_union_sparse :: "bit_set \<Rightarrow> sparse_bit_set \<Rightarrow> (bit_set \<times> bool) option" where
  "reverse_union_sparse self sparse = do {
     rassert (sp_domain_size sparse = domain_size self);
     self \<leftarrow> clear_excess_bits self;
     (ws, current_index, new_bit_mask, not_already) \<leftarrow>
       for_loop reverse_union_step (sp_iter sparse) (words self, 0, 0, False);
     (ws, not_already) \<leftarrow> merge_word ws current_index new_bit_mask not_already;
     tail \<leftarrow> slice_of ws (current_index + 1) (length ws);
     Some (self\<lparr>words := ws\<rparr>, not_already \<or> list_ex (\<lambda>x. x \<noteq> 0) tail)
   }"

text \<open>\<open>Vec::retain\<close> with a predicate that may panic, and the two intersections.\<close>

primrec retain :: "(nat \<Rightarrow> bool option) \<Rightarrow> nat list \<Rightarrow> nat list option" where
  "retain p [] = Some []"
| "retain p (x # xs) = do { keep \<leftarrow> p x; ys \<leftarrow> retain p xs; Some (if keep then x # ys else ys) }"

definition sparse_intersect :: "sparse_bit_set \<Rightarrow> (nat \<Rightarrow> bool option) \<Rightarrow> (sparse_bit_set \<times> bool) option" where
  "sparse_intersect sparse other_contains = do {
     let size = length (sp_elems sparse);
     es \<leftarrow> retain other_contains (sp_elems sparse);
     Some (sparse\<lparr>sp_elems := es\<rparr>, length es \<noteq> size)
   }"

definition dense_sparse_intersect :: "bit_set \<Rightarrow> sparse_bit_set \<Rightarrow> (sparse_bit_set \<times> bool) option" where
  "dense_sparse_intersect dense sparse = do {
     (sparse_copy, _) \<leftarrow> sparse_intersect sparse (contains dense);
     let n = sp_len sparse_copy;
     Some (sparse_copy, n \<noteq> count dense)
   }"

subsection \<open>HybridBitSet\<close>

datatype hybrid_bit_set = Sparse sparse_bit_set | Dense bit_set

definition hy_new_empty :: "nat \<Rightarrow> hybrid_bit_set" where
  "hy_new_empty domain = Sparse (sp_new_empty domain)"

fun hy_domain_size :: "hybrid_bit_set \<Rightarrow> nat" where
  "hy_domain_size (Sparse sparse) = sp_domain_size sparse"
| "hy_domain_size (Dense dense) = domain_size dense"

definition hy_clear :: "hybrid_bit_set \<Rightarrow> hybrid_bit_set" where
  "hy_clear self = hy_new_empty (hy_domain_size self)"

fun hy_contains :: "hybrid_bit_set \<Rightarrow> nat \<Rightarrow> bool option" where
  "hy_contains (Sparse sparse) elem = sp_contains sparse elem"
| "hy_contains (Dense dense) elem = contains dense elem"

fun hy_iter :: "hybrid_bit_set \<Rightarrow> nat list" where
  "hy_iter (Sparse sparse) = sp_iter sparse"
| "hy_iter (Dense dense) = iter dense"

text \<open>\<open>iter().all(p)\<close> with a predicate that may panic.\<close>

primrec all_items :: "(nat \<Rightarrow> bool option) \<Rightarrow> nat list \<Rightarrow> bool option" where
  "all_items p [] = Some True"
| "all_items p (x # xs) = do { b \<leftarrow> p x; if b then all_items p xs else Some False }"

fun hy_superset :: "hybrid_bit_set \<Rightarrow> hybrid_bit_set \<Rightarrow> bool option" where
  "hy_superset (Dense self_dense) (Dense other_dense) = superset self_dense other_dense"
| "hy_superset self other = do {
     rassert (hy_domain_size self = hy_domain_size other);
     all_items (hy_contains self) (hy_iter other)
   }"

fun hy_is_empty :: "hybrid_bit_set \<Rightarrow> bool" where
  "hy_is_empty (Sparse sparse) = sp_is_empty sparse"
| "hy_is_empty (Dense dense) = is_empty dense"

fun hy_last_set_in :: "hybrid_bit_set \<Rightarrow> range_bounds \<Rightarrow> nat option option" where
  "hy_last_set_in (Sparse sparse) rng = Some (sp_last_set_in sparse rng)"
| "hy_last_set_in (Dense dense) rng = last_set_in dense rng"

fun hy_insert :: "hybrid_bit_set \<Rightarrow> nat \<Rightarrow> (hybrid_bit_set \<times> bool) option" where
  "hy_insert (Sparse sparse) elem =
     (if sp_len sparse < SPARSE_MAX then map_option (map_prod Sparse id) (sp_insert sparse elem)
      else do {
        present \<leftarrow> sp_contains sparse elem;
        if present then Some (Sparse sparse, False)
        else do {
          dense \<leftarrow> sp_to_dense sparse;
          (dense, changed) \<leftarrow> insert_elem dense elem;
          rassert changed;
          Some (Dense dense, changed)
        }
      })"
| "hy_insert (Dense dense) elem = map_option (map_prod Dense id) (insert_elem dense elem)"

fun hy_insert_range :: "hybrid_bit_set \<Rightarrow> range_bounds \<Rightarrow> hybrid_bit_set option" where
  "hy_insert_range self (start_bound, end_bound) = do {
     let start = (case start_bound of Included start \<Rightarrow> start | Excluded start \<Rightarrow> start + 1 | Unbounded \<Rightarrow> 0);
     end \<leftarrow> (case end_bound of
               Included end \<Rightarrow> Some (end + 1)
             | Excluded end \<Rightarrow> Some end
             | Unbounded \<Rightarrow> checked_sub (hy_domain_size self) 1);
     case checked_sub end start of
       None \<Rightarrow> Some self
     | Some len \<Rightarrow>
         (case self of
            Sparse sparse \<Rightarrow>
              if sp_len sparse + len < SPARSE_MAX then
                map_option Sparse (for_loop (\<lambda>elem sparse. map_option fst (sp_insert sparse elem)) [start..<end] sparse)
              else do {
                dense \<leftarrow> sp_to_dense sparse;
                dense \<leftarrow> insert_range dense (start_bound, end_bound);
                Some (Dense dense)
              }
          | Dense dense \<Rightarrow> map_option Dense (insert_range dense (start_bound, end_bound)))
   }"

fun hy_insert_all :: "hybrid_bit_set \<Rightarrow> hybrid_bit_set option" where
  "hy_insert_all (Sparse sparse) = map_option Dense (new_filled (sp_domain_size sparse))"
| "hy_insert_all (Dense dense) = map_option Dense (insert_all dense)"

fun hy_remove :: "hybrid_bit_set \<Rightarrow> nat \<Rightarrow> (hybrid_bit_set \<times> bool) option" where
  "hy_remove (Sparse sparse) elem = map_option (map_prod Sparse id) (sp_remove sparse elem)"
| "hy_remove (Dense dense) elem = map_option (map_prod Dense id) (remove dense elem)"

fun hy_to_dense :: "hybrid_bit_set \<Rightarrow> bit_set option" where
  "hy_to_dense (Sparse sparse) = sp_to_dense sparse"
| "hy_to_dense (Dense dense) = Some dense"

definition to_hybrid :: "bit_set \<Rightarrow> hybrid_bit_set" where
  "to_hybrid self = Dense self"

subsection \<open>Relations\<close>

text \<open>\<open>impl BitRelations<BitSet> for HybridBitSet\<close>.\<close>

fun hy_union_dense :: "hybrid_bit_set \<Rightarrow> bit_set \<Rightarrow> (hybrid_bit_set \<times> bool) option" where
  "hy_union_dense self other = do {
     rassert (hy_domain_size self = domain_size other);
     case self of
       Sparse sparse \<Rightarrow> do {
         (new_dense, changed) \<leftarrow> reverse_union_sparse other sparse;
         Some (Dense new_dense, changed)
       }
     | Dense dense \<Rightarrow> map_option (map_prod Dense id) (union dense other)
   }"

fun hy_subtract_dense :: "hybrid_bit_set \<Rightarrow> bit_set \<Rightarrow> (hybrid_bit_set \<times> bool) option" where
  "hy_subtract_dense self other = do {
     rassert (hy_domain_size self = domain_size other);
     case self of
       Sparse sparse \<Rightarrow> map_option (map_prod Sparse id) (sequential_update sp_remove (iter other) sparse)
     | Dense dense \<Rightarrow> map_option (map_prod Dense id) (subtract dense other)
   }"

fun hy_intersect_dense :: "hybrid_bit_set \<Rightarrow> bit_set \<Rightarrow> (hybrid_bit_set \<times> bool) option" where
  "hy_intersect_dense self other = do {
     rassert (hy_domain_size self = domain_size other);
     case self of
       Sparse sparse \<Rightarrow> map_option (map_prod Sparse id) (sparse_intersect sparse (contains other))
     | Dense dense \<Rightarrow> map_option (map_prod Dense id) (intersect dense other)
   }"

text \<open>\<open>impl BitRelations<HybridBitSet> for BitSet\<close>.\<close>

fun union_hybrid :: "bit_set \<Rightarrow> hybrid_bit_set \<Rightarrow> (bit_set \<times> bool) option" where
  "union_hybrid self other = do {
     rassert (domain_size self = hy_domain_size other);
     case other of
       Sparse sparse \<Rightarrow> sequential_update insert_elem (sp_iter sparse) self
     | Dense dense \<Rightarrow> union self dense
   }"

fun subtract_hybrid :: "bit_set \<Rightarrow> hybrid_bit_set \<Rightarrow> (bit_set \<times> bool) option" where
  "subtract_hybrid self other = do {
     rassert (domain_size self = hy_domain_size other);
     case other of
       Sparse sparse \<Rightarrow> sequential_update remove (sp_iter sparse) self
     | Dense dense \<Rightarrow> subtract self dense
   }"

fun intersect_hybrid :: "bit_set \<Rightarrow> hybrid_bit_set \<Rightarrow> (bit_set \<times> bool) option" where
  "intersect_hybrid self other = do {
     rassert (domain_size self = hy_domain_size other);
     case other of
       Sparse sparse \<Rightarrow> do {
         (updated, changed) \<leftarrow> dense_sparse_intersect self sparse;
         self \<leftarrow> insert_each (sp_iter updated) (clear self);
         Some (self, changed)
       }
     | Dense dense \<Rightarrow> intersect self dense
   }"

text \<open>\<open>impl BitRelations<HybridBitSet> for HybridBitSet\<close>.\<close>

fun hy_union :: "hybrid_bit_set \<Rightarrow> hybrid_bit_set \<Rightarrow> (hybrid_bit_set \<times> bool) option" where
  "hy_union self other = do {
     rassert (hy_domain_size self = hy_domain_size other);
     case self of
       Sparse _ \<Rightarrow>
         (case other of
            Sparse other_sparse \<Rightarrow>
              for_loop (\<lambda>elem (self, changed). do {
                (self, b) \<leftarrow> hy_insert self elem;
                Some (self, changed \<or> b)
              }) (sp_iter other_sparse) (self, False)
          | Dense other_dense \<Rightarrow> hy_union_dense self other_dense)
     | Dense self_dense \<Rightarrow> map_option (map_prod Dense id) (union_hybrid self_dense other)
   }"

fun hy_subtract :: "hybrid_bit_set \<Rightarrow> hybrid_bit_set \<Rightarrow> (hybrid_bit_set \<times> bool) option" where
  "hy_subtract self other = do {
     rassert (hy_domain_size self = hy_domain_size other);
     case self of
       Sparse self_sparse \<Rightarrow> map_option (map_prod Sparse id) (sequential_update sp_remove (hy_iter other) self_sparse)
     | Dense self_dense \<Rightarrow> map_option (map_prod Dense id) (subtract_hybrid self_dense other)
   }"

fun hy_intersect :: "hybrid_bit_set \<Rightarrow> hybrid_bit_set \<Rightarrow> (hybrid_bit_set \<times> bool) option" where
  "hy_intersect self other = do {
     rassert (hy_domain_size self = hy_domain_size other);
     case self of
       Sparse self_sparse \<Rightarrow> map_option (map_prod Sparse id) (sparse_intersect self_sparse (hy_contains other))
     | Dense self_dense \<Rightarrow>
         (case other of
            Sparse other_sparse \<Rightarrow> do {
              (updated, changed) \<leftarrow> dense_sparse_intersect self_dense other_sparse;
              Some (Sparse updated, changed)
            }
          | Dense other_dense \<Rightarrow> map_option (map_prod Dense id) (intersect self_dense other_dense))
   }"

text \<open>\<open>impl BitRelations<HybridBitSet> for ChunkedBitSet\<close>.\<close>

definition cb_union_hybrid :: "chunked_bit_set \<Rightarrow> hybrid_bit_set \<Rightarrow> (chunked_bit_set \<times> bool) option" where
  "cb_union_hybrid self other = do {
     rassert (cb_domain_size self = hy_domain_size other);
     sequential_update cb_insert (hy_iter other) self
   }"

definition cb_subtract_hybrid :: "chunked_bit_set \<Rightarrow> hybrid_bit_set \<Rightarrow> (chunked_bit_set \<times> bool) option" where
  "cb_subtract_hybrid self other = do {
     rassert (cb_domain_size self = hy_domain_size other);
     sequential_update cb_remove (hy_iter other) self
   }"

declare hy_union_dense.simps [simp del] hy_subtract_dense.simps [simp del] hy_intersect_dense.simps [simp del]
  union_hybrid.simps [simp del] subtract_hybrid.simps [simp del] intersect_hybrid.simps [simp del]
  hy_union.simps [simp del] hy_subtract.simps [simp del] hy_intersect.simps [simp del]
  hy_insert.simps [simp del] hy_insert_range.simps [simp del]

end
