(* ===== verification/Hybrid_Props.thy ===== *)
theory Hybrid_Props
  imports Hybrid_Bit_Set
begin

text \<open>
  Sparse and hybrid sets against the set of indices they stand for.
\<close>

subsection \<open>Sparse sets\<close>

definition sp_ok :: "sparse_bit_set \<Rightarrow> bool" where
  "sp_ok s \<longleftrightarrow> sp_domain_size s < 2 ^ 64 \<and> length (sp_elems s) \<le> SPARSE_MAX \<and> sorted_wrt (<) (sp_elems s) \<and>
     list_all (\<lambda>e. e < sp_domain_size s) (sp_elems s)"

definition sp_set :: "sparse_bit_set \<Rightarrow> nat set" where
  "sp_set s = set (sp_elems s)"

abbreviation sp_returns :: "sparse_bit_set \<Rightarrow> (sparse_bit_set \<times> 'r) option \<Rightarrow> nat set \<Rightarrow> 'r \<Rightarrow> bool" where
  "sp_returns \<equiv> returns sp_domain_size sp_set sp_ok"

lemma position_split:
  assumes "position p xs = Some i"
  obtains ys z zs where "xs = ys @ z # zs" "length ys = i" "p z" "\<forall>y\<in>set ys. \<not> p y"
proof -
  have i: "i < length xs" "p (xs ! i)" "\<forall>j<i. \<not> p (xs ! j)" using assms by (auto simp: position_Some_iff)
  then have "xs = take i xs @ xs ! i # drop (Suc i) xs" by (simp add: id_take_nth_drop)
  moreover have "\<forall>y\<in>set (take i xs). \<not> p y" using i by (auto simp: in_set_conv_nth)
  ultimately show thesis using that [of "take i xs" "xs ! i" "drop (Suc i) xs"] i by simp
qed

lemma sp_insert_elem:
  assumes ok: "sp_ok s" and e: "e < sp_domain_size s" and room: "sp_len s < SPARSE_MAX \<or> e \<in> sp_set s"
  shows "sp_returns s (sp_insert s e) (insert e (sp_set s)) (e \<notin> sp_set s)"
proof (cases "position (\<lambda>x. x \<ge> e) (sp_elems s)")
  case None
  then have "\<forall>x\<in>set (sp_elems s). x < e" by (simp add: position_None_iff not_le)
  moreover from this have "e \<notin> sp_set s" by (auto simp: sp_set_def)
  ultimately show ?thesis
    using None ok e room
    by (auto simp: returns_def sp_insert_def array_push_def sp_ok_def sp_set_def sp_len_def sorted_wrt_append)
next
  case (Some i)
  then obtain ys z zs where xs: "sp_elems s = ys @ z # zs" "length ys = i" "e \<le> z" "\<forall>y\<in>set ys. y < e"
    using position_split [OF Some] by (metis linorder_not_le)
  have sorted: "sorted_wrt (<) (ys @ z # zs)" using ok xs(1) by (simp add: sp_ok_def)
  show ?thesis
  proof (cases "z = e")
    case True
    moreover from this have "sp_elems s ! i = e" "e \<in> sp_set s" using xs by (auto simp: sp_set_def nth_append)
    moreover have "s\<lparr>sp_elems := sp_elems s\<rparr> = s" by simp
    ultimately show ?thesis
      using Some xs(1,2) ok e by (auto simp: returns_def sp_insert_def insert_absorb sp_ok_def sp_set_def)
  next
    case False
    then have ez: "e < z" using xs(3) by simp
    have new: "e \<notin> sp_set s" using sorted xs ez by (auto simp: sp_set_def sorted_wrt_append)
    then have "length (ys @ z # zs) < 8" using room xs(1) by (simp add: sp_len_def SPARSE_MAX_def)
    moreover have "sorted_wrt (<) (ys @ e # z # zs)" using sorted xs(4) ez by (auto simp: sorted_wrt_append)
    ultimately show ?thesis
      using Some xs ok e False new
      by (auto simp: returns_def sp_insert_def array_insert_def vec_insert_def SPARSE_MAX_def sp_set_def sp_ok_def)
  qed
qed

lemma sp_remove_elem:
  assumes "sp_ok s" and "e < sp_domain_size s"
  shows "sp_returns s (sp_remove s e) (sp_set s - {e}) (e \<in> sp_set s)"
proof (cases "position (\<lambda>x. x = e) (sp_elems s)")
  case None
  then have "e \<notin> sp_set s" by (auto simp: position_None_iff sp_set_def)
  then show ?thesis using None assms by (simp add: returns_def sp_remove_def)
next
  case (Some i)
  then obtain ys zs where xs: "sp_elems s = ys @ e # zs" "length ys = i"
    using position_split [OF Some] by metis
  then show ?thesis
    using Some assms
    by (auto simp: returns_def sp_remove_def vec_remove_def sp_ok_def sp_set_def sorted_wrt_append)
qed

interpretation sp: index_set sp_domain_size sp_set sp_ok
  by unfold_locales (auto simp: sp_ok_def sp_set_def list_all_iff)

interpretation sp_contains: index_set_contains sp_domain_size sp_set sp_ok sp_contains
  by unfold_locales (simp add: sp_contains_def sp_set_def)

interpretation sp_remove: index_set_remove sp_domain_size sp_set sp_ok sp_remove
  by unfold_locales (rule sp_remove_elem)

lemma sp_sorted: "sp_ok s \<Longrightarrow> sorted (sp_elems s) \<and> distinct (sp_elems s)"
  by (auto simp: sp_ok_def strict_sorted_iff)

interpretation sp_iter: index_set_iter sp_domain_size sp_set sp_ok sp_iter
  by unfold_locales (simp add: sp_iter_def sp_set_def sp_sorted sorted_list_of_set.idem_if_sorted_distinct)

lemma sp_new_empty_ok: "d < 2 ^ 64 \<Longrightarrow> sp_ok (sp_new_empty d) \<and> sp_set (sp_new_empty d) = {}"
  by (simp add: sp_new_empty_def sp_ok_def sp_set_def)

lemma sp_card: "sp_ok s \<Longrightarrow> card (sp_set s) = sp_len s"
  by (simp add: sp_set_def sp_len_def distinct_card sp_sorted)

subsection \<open>Conversion to a dense set\<close>

lemma insert_each_sequential:
  "insert_each es s = map_option fst (sequential_update insert_elem es s)"
proof -
  have "for_loop (\<lambda>elem dense. map_option fst (insert_elem dense elem)) es s =
      map_option fst (for_loop (\<lambda>elem (s, changed). do { (s', b) \<leftarrow> insert_elem s elem; Some (s', b \<or> changed) }) es (s, ch))" for ch
  proof (induction es arbitrary: s ch)
    case (Cons e es)
    then show ?case by (cases "insert_elem s e") auto
  qed simp
  then show ?thesis by (simp add: insert_each_def sequential_update_def)
qed

lemma insert_each_elems:
  assumes "bs_ok s" and "set es \<subseteq> {..<domain_size s}"
  shows "\<exists>s'. insert_each es s = Some s' \<and> bs_ok s' \<and> domain_size s' = domain_size s \<and> bs_elems s' = bs_elems s \<union> set es"
  using bs_insert.sequential_insert [OF assms] by (auto simp: returns_def insert_each_sequential)

lemma sp_to_dense:
  assumes "sp_ok s"
  shows "\<exists>d. sp_to_dense s = Some d \<and> bs_ok d \<and> domain_size d = sp_domain_size s \<and> bs_elems d = sp_set s"
proof -
  have "sp_domain_size s < 2 ^ 64" using assms by (simp add: sp_ok_def)
  then have "bs_ok (new_empty (sp_domain_size s))" "bs_elems (new_empty (sp_domain_size s)) = {}"
      "domain_size (new_empty (sp_domain_size s)) = sp_domain_size s"
    using bs_new_empty by (auto simp: new_empty_def)
  then show ?thesis
    using insert_each_elems [of "new_empty (sp_domain_size s)" "sp_elems s"] assms sp.elems_in_domain [OF assms]
    by (simp add: sp_to_dense_def sp_set_def)
qed

subsection \<open>Intersections\<close>

lemma retain_filter: "(\<And>x. x \<in> set xs \<Longrightarrow> p x = Some (q x)) \<Longrightarrow> retain p xs = Some (filter q xs)"
  by (induction xs) auto

lemma sparse_intersect_returns:
  assumes "sp_ok s" and "\<And>e. e < sp_domain_size s \<Longrightarrow> p e = Some (e \<in> T)"
  shows "sp_returns s (sparse_intersect s p) (sp_set s \<inter> T) (sp_set s \<inter> T \<noteq> sp_set s)"
proof -
  have ret: "retain p (sp_elems s) = Some (filter (\<lambda>e. e \<in> T) (sp_elems s))"
    by (rule retain_filter) (use assms sp.elems_in_domain [OF assms(1)] in \<open>auto simp: sp_set_def\<close>)
  have "length (filter (\<lambda>e. e \<in> T) (sp_elems s)) = length (sp_elems s) \<longleftrightarrow> (\<forall>x\<in>set (sp_elems s). x \<in> T)"
    by (metis (no_types, lifting) filter_True length_filter_less less_irrefl)
  then have "length (filter (\<lambda>e. e \<in> T) (sp_elems s)) \<noteq> length (sp_elems s) \<longleftrightarrow> sp_set s \<inter> T \<noteq> sp_set s"
    by (auto simp: sp_set_def)
  moreover have "length (filter (\<lambda>e. e \<in> T) (sp_elems s)) \<le> SPARSE_MAX"
    using assms(1) by (auto simp: sp_ok_def intro: order_trans [OF length_filter_le])
  ultimately show ?thesis
    using assms(1) ret
    by (auto simp: returns_def sparse_intersect_def sp_ok_def sp_set_def sorted_wrt_filter list_all_iff Int_def)
qed

lemma dense_sparse_intersect_returns:
  assumes "bs_ok s" and "sp_ok t" and "sp_domain_size t = domain_size s"
  shows "sp_returns t (dense_sparse_intersect s t) (bs_elems s \<inter> sp_set t) (bs_elems s \<inter> sp_set t \<noteq> bs_elems s)"
proof -
  have "sp_returns t (sparse_intersect t (contains s)) (sp_set t \<inter> bs_elems s) (sp_set t \<inter> bs_elems s \<noteq> sp_set t)"
    by (rule sparse_intersect_returns) (use assms bs_contains.contains_elem in auto)
  then obtain t' where t': "sparse_intersect t (contains s) = Some (t', sp_set t \<inter> bs_elems s \<noteq> sp_set t)"
      "sp_ok t'" "sp_domain_size t' = sp_domain_size t" "sp_set t' = sp_set t \<inter> bs_elems s"
    by (auto simp: returns_def)
  have fin: "finite (bs_elems s)" by (simp add: bs_elems_def)
  have "sp_len t' \<noteq> count s \<longleftrightarrow> bs_elems s \<inter> sp_set t \<noteq> bs_elems s"
    using sp_card [OF t'(2)] t'(4) bs_count [OF assms(1)] card_subset_eq [OF fin, of "bs_elems s \<inter> sp_set t"]
    by (auto simp: Int_commute)
  then show ?thesis using t' by (simp add: returns_def dense_sparse_intersect_def Int_commute)
qed

subsection \<open>The union from the dense side\<close>

lemma merge_word_elems:
  assumes "k < length ws" and m: "\<And>i. bit m i \<longleftrightarrow> i < 64 \<and> 64 * k + i \<in> M" and "\<And>e. e \<in> M \<Longrightarrow> e div 64 \<le> k"
  shows "\<exists>vs. merge_word ws k m na = Some (vs, na \<or> (\<exists>d\<in>words_set ws. d div 64 = k \<and> d \<notin> M)) \<and> length vs = length ws \<and>
    words_set vs = words_set ws \<union> {e \<in> M. e div 64 = k} \<and> (\<forall>j. j \<noteq> k \<longrightarrow> vs ! j = ws ! j)"
proof -
  let ?vs = "ws[k := ws ! k OR m]"
  have mk: "bit m (e mod 64) \<longleftrightarrow> e \<in> M" if "e div 64 = k" for e using m [of "e mod 64"] that by auto
  have "(ws ! k OR m) XOR m \<noteq> 0 \<longleftrightarrow> (\<exists>i<64. bit (ws ! k) i \<and> \<not> bit m i)"
    by (auto simp: word64_eq_iff bit_xor_iff bit_or_iff)
  also have "\<dots> \<longleftrightarrow> (\<exists>d\<in>words_set ws. d div 64 = k \<and> d \<notin> M)"
  proof
    assume "\<exists>i<64. bit (ws ! k) i \<and> \<not> bit m i"
    then obtain i where "i < 64" "bit (ws ! k) i" "\<not> bit m i" by blast
    then show "\<exists>d\<in>words_set ws. d div 64 = k \<and> d \<notin> M"
      using assms(1) m [of i] by (intro bexI [of _ "64 * k + i"]) (auto simp: words_set_iff)
  next
    assume "\<exists>d\<in>words_set ws. d div 64 = k \<and> d \<notin> M"
    then obtain d where "d \<in> words_set ws" "d div 64 = k" "d \<notin> M" by blast
    then show "\<exists>i<64. bit (ws ! k) i \<and> \<not> bit m i"
      using mk [of d] by (intro exI [of _ "d mod 64"]) (auto simp: words_set_iff)
  qed
  finally have "merge_word ws k m na = Some (?vs, na \<or> (\<exists>d\<in>words_set ws. d div 64 = k \<and> d \<notin> M))"
    using assms(1) by (simp add: merge_word_def or_word_def)
  moreover have "words_set ?vs = words_set ws \<union> {e \<in> M. e div 64 = k}"
    using assms(1) mk by (auto simp: words_set_iff div64_less nth_list_update bit_or_iff split: if_splits)
  ultimately show ?thesis by (intro exI [of _ ?vs]) simp
qed

lemma skipped_words:
  assumes "b \<le> length ws"
  shows "list_ex (\<lambda>x. x \<noteq> 0) (take (b - a) (drop a ws)) \<longleftrightarrow> (\<exists>d\<in>words_set ws. a \<le> d div 64 \<and> d div 64 < b)"
proof
  assume "list_ex (\<lambda>x. x \<noteq> 0) (take (b - a) (drop a ws))"
  then obtain j where j: "j < b - a" "ws ! (a + j) \<noteq> 0" using assms by (auto simp: list_ex_length)
  define k where "k = a + j"
  obtain i where "i < 64" "bit (ws ! k) i" using j(2) by (auto simp: word64_eq_iff k_def)
  moreover have "a \<le> k" "k < b" using j(1) by (simp_all add: k_def)
  ultimately show "\<exists>d\<in>words_set ws. a \<le> d div 64 \<and> d div 64 < b"
    using assms by (intro bexI [of _ "64 * k + i"]) (auto simp: words_set_iff)
next
  assume "\<exists>d\<in>words_set ws. a \<le> d div 64 \<and> d div 64 < b"
  then obtain d where d: "d \<in> words_set ws" "a \<le> d div 64" "d div 64 < b" by blast
  then have "ws ! (d div 64) \<noteq> 0" by (auto simp: words_set_iff)
  then show "list_ex (\<lambda>x. x \<noteq> 0) (take (b - a) (drop a ws))"
    using d assms by (auto simp: list_ex_length intro!: exI [of _ "d div 64 - a"])
qed

text \<open>
  The invariant of the loop over the sorted elements of the sparse set, with \<open>D\<close> the
  dense set and \<open>M\<close> the elements visited so far.
\<close>

definition reverse_union_inv ::
  "nat \<Rightarrow> nat set \<Rightarrow> nat set \<Rightarrow> word64 list \<times> nat \<times> word64 \<times> bool \<Rightarrow> bool" where
  "reverse_union_inv n D M = (\<lambda>(ws, cur, m, na).
     length ws = n \<and> cur < n \<and> words_set ws = D \<union> {e \<in> M. e div 64 < cur} \<and>
     (\<forall>i. bit m i \<longleftrightarrow> i < 64 \<and> 64 * cur + i \<in> M) \<and> (\<forall>e\<in>M. e div 64 \<le> cur) \<and>
     (na \<longleftrightarrow> (\<exists>d\<in>D. d div 64 < cur \<and> d \<notin> M)) \<and> (cur = 0 \<or> (\<exists>e\<in>M. e div 64 = cur)))"

lemma bit_or_mask_elem:
  fixes m :: word64
  assumes "\<And>i. bit m i \<longleftrightarrow> i < 64 \<and> 64 * (x div 64) + i \<in> M"
  shows "bit (m OR 2 ^ (x mod 64)) i \<longleftrightarrow> i < 64 \<and> 64 * (x div 64) + i \<in> insert x M"
proof -
  have "64 * (x div 64) + i = x \<longleftrightarrow> i = x mod 64"
    by (metis add_left_cancel mult_div_mod_eq)
  moreover have "x mod 64 < 64" by simp
  ultimately show ?thesis using assms [of i] by (simp only: bit_or_iff bit_exp64 insert_iff) blast
qed

lemma not_already_split:
  fixes D M A :: "nat set"
  assumes M: "\<And>e. e \<in> M \<Longrightarrow> e div 64 \<le> cur" and "A \<subseteq> M" and "cur < b"
  shows "((\<exists>d\<in>D. d div 64 < cur \<and> d \<notin> M) \<or> (\<exists>d\<in>D \<union> A. d div 64 = cur \<and> d \<notin> M)) \<or>
      (\<exists>d\<in>D \<union> M. Suc cur \<le> d div 64 \<and> d div 64 < b) \<longleftrightarrow> (\<exists>d\<in>D. d div 64 < b \<and> d \<notin> M)"
    (is "?L \<longleftrightarrow> ?R")
proof
  assume ?R
  then obtain d where d: "d \<in> D" "d div 64 < b" "d \<notin> M" by blast
  then show ?L by (cases "d div 64" cur rule: linorder_cases) (auto simp: Suc_le_eq)
next
  assume ?L
  then show ?R
  proof (elim disjE bexE conjE)
    fix d assume "d \<in> D" "d div 64 < cur" "d \<notin> M"
    then show ?R using assms(3) less_trans by blast
  next
    fix d assume "d \<in> D \<union> M" "Suc cur \<le> d div 64" "d div 64 < b"
    then show ?R using M [of d] by auto
  qed (use assms(2,3) in auto)
qed

lemma reverse_union_step_inv:
  assumes inv: "reverse_union_inv n D M (ws, cur, m, na)" and x: "x div 64 < n" and gt: "\<And>e. e \<in> M \<Longrightarrow> e < x"
  shows "\<exists>st. reverse_union_step x (ws, cur, m, na) = Some st \<and> reverse_union_inv n D (insert x M) st"
proof -
  have I: "length ws = n" "cur < n" "words_set ws = D \<union> {e \<in> M. e div 64 < cur}" "\<And>i. bit m i \<longleftrightarrow> i < 64 \<and> 64 * cur + i \<in> M"
      "\<And>e. e \<in> M \<Longrightarrow> e div 64 \<le> cur" "na \<longleftrightarrow> (\<exists>d\<in>D. d div 64 < cur \<and> d \<notin> M)"
    using inv by (auto simp: reverse_union_inv_def)
  have "cur \<le> x div 64"
  proof (cases "cur = 0")
    case False
    then obtain e where "e \<in> M" "e div 64 = cur" using inv by (auto simp: reverse_union_inv_def)
    then show ?thesis using gt [of e] div_le_mono [of e x 64] by simp
  qed simp
  then consider (same) "x div 64 = cur" | (next_word) "cur < x div 64" by linarith
  then show ?thesis
  proof cases
    case same
    have "bit (m OR 2 ^ (x mod 64)) i \<longleftrightarrow> i < 64 \<and> 64 * cur + i \<in> insert x M" for i
      using bit_or_mask_elem [of m x M] I(4) same by simp
    then have "reverse_union_inv n D (insert x M) (ws, cur, m OR 2 ^ (x mod 64), na)"
      unfolding reverse_union_inv_def prod.case using I same by auto
    then show ?thesis using same by (simp add: reverse_union_step_def)
  next
    case next_word
    obtain vs where vs: "merge_word ws cur m na = Some (vs, na \<or> (\<exists>d\<in>words_set ws. d div 64 = cur \<and> d \<notin> M))"
        "length vs = n" "words_set vs = words_set ws \<union> {e \<in> M. e div 64 = cur}"
      using merge_word_elems [of cur ws m M na] I by auto
    have all: "words_set vs = D \<union> M" using vs(3) I(3,5) by (auto simp: le_less)
    have skip: "list_ex (\<lambda>x. x \<noteq> 0) (take (x div 64 - Suc cur) (drop (Suc cur) vs)) \<longleftrightarrow>
        (\<exists>d\<in>D \<union> M. Suc cur \<le> d div 64 \<and> d div 64 < x div 64)"
      using skipped_words [of "x div 64" vs "Suc cur"] vs(2) x all by simp
    let ?na = "(na \<or> (\<exists>d\<in>words_set ws. d div 64 = cur \<and> d \<notin> M)) \<or> (\<exists>d\<in>D \<union> M. Suc cur \<le> d div 64 \<and> d div 64 < x div 64)"
    have step: "reverse_union_step x (ws, cur, m, na) = Some (vs, x div 64, 2 ^ (x mod 64), ?na)"
      using next_word vs(1,2) x skip by (simp add: reverse_union_step_def)
    have xM: "e \<noteq> x" "e div 64 < x div 64" if "e \<in> M" for e using gt [OF that] I(5) [OF that] next_word by auto
    have "?na \<longleftrightarrow> (\<exists>d\<in>D. d div 64 < x div 64 \<and> d \<notin> M)"
      unfolding I(3,6) by (rule not_already_split) (use I(5) next_word in auto)
    then have "?na \<longleftrightarrow> (\<exists>d\<in>D. d div 64 < x div 64 \<and> d \<notin> insert x M)" by auto
    moreover have "bit (2 ^ (x mod 64) :: word64) i \<longleftrightarrow> i < 64 \<and> 64 * (x div 64) + i \<in> insert x M" for i
      using bit_or_mask_elem [of 0 x "{}" i] xM(2) [of "64 * (x div 64) + i"] by auto
    moreover have "words_set vs = D \<union> {e \<in> insert x M. e div 64 < x div 64}" using all xM by auto
    moreover have "\<forall>e\<in>insert x M. e div 64 \<le> x div 64" using xM by (auto intro: less_imp_le)
    ultimately have "reverse_union_inv n D (insert x M) (vs, x div 64, 2 ^ (x mod 64), ?na)"
      unfolding reverse_union_inv_def prod.case using vs(2) x by blast
    then show ?thesis using step by blast
  qed
qed

lemma reverse_union_loop:
  assumes "sorted_wrt (<) es" and "\<And>e. e \<in> set es \<Longrightarrow> e div 64 < length ws" and "0 < length ws"
  shows "\<exists>st. for_loop reverse_union_step es (ws, 0, 0, False) = Some st \<and>
    reverse_union_inv (length ws) (words_set ws) (set es) st"
proof (rule for_loop_invariant)
  show "reverse_union_inv (length ws) (words_set ws) (set []) (ws, 0, 0, False)"
    using assms(3) by (simp add: reverse_union_inv_def)
next
  fix before x after st assume split: "es = before @ x # after"
    and inv: "reverse_union_inv (length ws) (words_set ws) (set before) st"
  obtain vs cur m na where st: "st = (vs, cur, m, na)" by (cases st) auto
  have "e < x" if "e \<in> set before" for e using assms(1) split that by (simp add: sorted_wrt_append)
  then show "\<exists>st'. reverse_union_step x st = Some st' \<and> reverse_union_inv (length ws) (words_set ws) (set (before @ [x])) st'"
    using reverse_union_step_inv [of "length ws" "words_set ws" "set before" vs cur m na x] inv assms(2) split
    by (simp add: st)
qed

lemma reverse_union_sparse_returns:
  assumes s: "bs_ok s" and t: "sp_ok t" and d: "sp_domain_size t = domain_size s" and pos: "0 < domain_size s"
  shows "bs_returns s (reverse_union_sparse s t) (bs_elems s \<union> sp_set t) (\<not> bs_elems s \<subseteq> sp_set t)"
proof -
  have clear: "clear_excess_bits s = Some s"
  proof -
    obtain s' where s': "clear_excess_bits s = Some s'" "bs_ok s'" "domain_size s' = domain_size s" "bs_elems s' = bs_elems s"
      using clear_excess_words [of s] s by (auto simp: bs_ok_def bs_elems_def Int_absorb2)
    then have "words s' = words s" using s words_set_eqI by (simp add: bs_ok_def bs_elems_def)
    then show ?thesis using s' by simp
  qed
  have len: "0 < length (words s)" using s pos num_words_bound(1) [of "domain_size s"] by (auto simp: bs_ok_def)
  have el: "e div 64 < length (words s)" if "e \<in> set (sp_elems t)" for e
    using bs_ok_words [OF s, of e] sp.elems_in_domain [OF t] that d by (auto simp: sp_set_def)
  obtain ws cur m na where loop: "for_loop reverse_union_step (sp_elems t) (words s, 0, 0, False) = Some (ws, cur, m, na)"
      "reverse_union_inv (length (words s)) (bs_elems s) (sp_set t) (ws, cur, m, na)"
    using reverse_union_loop [of "sp_elems t" "words s"] t el len by (auto simp: sp_ok_def sp_set_def bs_elems_def)
  have I: "length ws = length (words s)" "cur < length ws" "words_set ws = bs_elems s \<union> {e \<in> sp_set t. e div 64 < cur}"
      "\<And>i. bit m i \<longleftrightarrow> i < 64 \<and> 64 * cur + i \<in> sp_set t"
      "\<And>e. e \<in> sp_set t \<Longrightarrow> e div 64 \<le> cur" "na \<longleftrightarrow> (\<exists>d\<in>bs_elems s. d div 64 < cur \<and> d \<notin> sp_set t)"
    using loop(2) by (auto simp: reverse_union_inv_def)
  obtain vs where vs: "merge_word ws cur m na = Some (vs, na \<or> (\<exists>d\<in>words_set ws. d div 64 = cur \<and> d \<notin> sp_set t))"
      "length vs = length ws" "words_set vs = words_set ws \<union> {e \<in> sp_set t. e div 64 = cur}"
    using merge_word_elems [OF I(2), of m "sp_set t" na] I(4,5) by auto
  have all: "words_set vs = bs_elems s \<union> sp_set t" using vs(3) I(3,5) by (auto simp: le_less)
  have tail: "list_ex (\<lambda>x. x \<noteq> 0) (drop (Suc cur) vs) \<longleftrightarrow>
      (\<exists>d\<in>bs_elems s \<union> sp_set t. Suc cur \<le> d div 64 \<and> d div 64 < length ws)"
    using skipped_words [of "length vs" vs "Suc cur"] all vs(2) by simp
  have below: "d div 64 < length ws" if "d \<in> bs_elems s" for d
    using that I(1) by (simp add: bs_elems_def words_set_iff div64_less)
  have "(na \<or> (\<exists>d\<in>words_set ws. d div 64 = cur \<and> d \<notin> sp_set t)) \<or>
      (\<exists>d\<in>bs_elems s \<union> sp_set t. Suc cur \<le> d div 64 \<and> d div 64 < length ws) \<longleftrightarrow> (\<exists>d\<in>bs_elems s. d div 64 < length ws \<and> d \<notin> sp_set t)"
    unfolding I(3,6) by (rule not_already_split) (use I(2,5) in auto)
  then have na: "(na \<or> (\<exists>d\<in>words_set ws. d div 64 = cur \<and> d \<notin> sp_set t)) \<or>
      (\<exists>d\<in>bs_elems s \<union> sp_set t. Suc cur \<le> d div 64 \<and> d div 64 < length ws) \<longleftrightarrow> \<not> bs_elems s \<subseteq> sp_set t"
    using below by blast
  have res: "reverse_union_sparse s t = Some (s\<lparr>words := vs\<rparr>, \<not> bs_elems s \<subseteq> sp_set t)"
    using d clear loop(1) vs(1,2) I(2) tail unfolding na [symmetric] by (simp add: reverse_union_sparse_def sp_iter_def)
  have "sp_set t \<subseteq> {..<domain_size s}" using sp.elems_in_domain [OF t] d by simp
  then show ?thesis using res s I(1) vs(2) all by (auto simp: returns_def bs_ok_def bs_elems_def)
qed

subsection \<open>Hybrid sets\<close>

fun hy_ok :: "hybrid_bit_set \<Rightarrow> bool" where
  "hy_ok (Sparse s) = sp_ok s"
| "hy_ok (Dense d) = bs_ok d"

fun hy_elems :: "hybrid_bit_set \<Rightarrow> nat set" where
  "hy_elems (Sparse s) = sp_set s"
| "hy_elems (Dense d) = bs_elems d"

abbreviation hy_returns :: "hybrid_bit_set \<Rightarrow> (hybrid_bit_set \<times> 'r) option \<Rightarrow> nat set \<Rightarrow> 'r \<Rightarrow> bool" where
  "hy_returns \<equiv> returns hy_domain_size hy_elems hy_ok"

lemma hy_returns_lift:
  "sp_returns s res X r \<Longrightarrow> hy_returns (Sparse s) (map_option (map_prod Sparse id) res) X r"
  "bs_returns d res' X r \<Longrightarrow> hy_returns (Dense d) (map_option (map_prod Dense id) res') X r"
  by (auto simp: returns_def)

lemma hy_insert_elem:
  assumes "hy_ok s" and "e < hy_domain_size s"
  shows "hy_returns s (hy_insert s e) (insert e (hy_elems s)) (e \<notin> hy_elems s)"
proof (cases s)
  case (Dense d)
  then show ?thesis using assms hy_returns_lift(2) [OF bs_insert_elem [of d e]] by (simp add: hy_insert.simps)
next
  case (Sparse t)
  then have ok: "sp_ok t" "e < sp_domain_size t" using assms by simp_all
  consider (room) "sp_len t < SPARSE_MAX" | (present) "\<not> sp_len t < SPARSE_MAX" "e \<in> sp_set t"
    | (full) "\<not> sp_len t < SPARSE_MAX" "e \<notin> sp_set t" by blast
  then show ?thesis
  proof cases
    case room
    then show ?thesis
      using Sparse hy_returns_lift(1) [OF sp_insert_elem [OF ok]] by (simp add: hy_insert.simps)
  next
    case present
    then show ?thesis
      using Sparse ok sp_contains.contains_elem [OF ok] by (simp add: hy_insert.simps returns_def insert_absorb)
  next
    case full
    obtain d where d: "sp_to_dense t = Some d" "bs_ok d" "domain_size d = sp_domain_size t" "bs_elems d = sp_set t"
      using sp_to_dense [OF ok(1)] by blast
    obtain d' where "insert_elem d e = Some (d', True)" "bs_ok d'" "domain_size d' = sp_domain_size t"
        "bs_elems d' = insert e (sp_set t)"
      using bs_insert_elem [OF d(2), of e] d ok(2) full(2) by (auto simp: returns_def)
    then show ?thesis
      using Sparse full ok d(1) sp_contains.contains_elem [OF ok] by (simp add: hy_insert.simps returns_def)
  qed
qed

lemma hy_remove_elem:
  assumes "hy_ok s" and "e < hy_domain_size s"
  shows "hy_returns s (hy_remove s e) (hy_elems s - {e}) (e \<in> hy_elems s)"
  using assms hy_returns_lift(1) [OF sp_remove_elem] hy_returns_lift(2) [OF bs_remove_elem] by (cases s) simp_all

interpretation hy: index_set hy_domain_size hy_elems hy_ok
proof
  fix s assume "hy_ok s"
  then show "hy_elems s \<subseteq> {..<hy_domain_size s}"
    using sp.elems_in_domain bs.elems_in_domain by (cases s) simp_all
qed

interpretation hy_contains: index_set_contains hy_domain_size hy_elems hy_ok hy_contains
proof
  fix s e assume "hy_ok s" "e < hy_domain_size s"
  then show "hy_contains s e = Some (e \<in> hy_elems s)"
    using sp_contains.contains_elem bs_contains.contains_elem by (cases s) simp_all
qed

interpretation hy_insert: index_set_insert hy_domain_size hy_elems hy_ok hy_insert
  by unfold_locales (rule hy_insert_elem)

interpretation hy_remove: index_set_remove hy_domain_size hy_elems hy_ok hy_remove
  by unfold_locales (rule hy_remove_elem)

interpretation hy_iter: index_set_iter hy_domain_size hy_elems hy_ok hy_iter
proof
  fix s assume "hy_ok s"
  then show "hy_iter s = sorted_list_of_set (hy_elems s)"
    using sp_iter.iter_elems bs_iter.iter_elems by (cases s) simp_all
qed

lemma hy_to_dense:
  "hy_ok s \<Longrightarrow> \<exists>d. hy_to_dense s = Some d \<and> bs_ok d \<and> domain_size d = hy_domain_size s \<and> bs_elems d = hy_elems s"
  using sp_to_dense by (cases s) auto

lemma hy_clear: "hy_ok s \<Longrightarrow> hy_ok (hy_clear s) \<and> hy_domain_size (hy_clear s) = hy_domain_size s \<and> hy_elems (hy_clear s) = {}"
  by (cases s) (auto simp: hy_clear_def hy_new_empty_def sp_new_empty_def sp_ok_def bs_ok_def sp_set_def)

lemma hy_insert_all:
  "hy_ok s \<Longrightarrow> \<exists>s'. hy_insert_all s = Some s' \<and> hy_ok s' \<and> hy_domain_size s' = hy_domain_size s \<and>
     hy_elems s' = {..<hy_domain_size s}"
  using bs_new_filled bs_insert_all by (cases s) (fastforce simp: sp_ok_def)+

lemma hy_is_empty: "hy_is_empty s \<longleftrightarrow> hy_elems s = {}"
  by (cases s) (simp_all add: sp_is_empty_def sp_set_def bs_is_empty)

subsection \<open>Relations with hybrid sets\<close>

interpretation sp_bs_subtract: index_set_subtract_by_iter
  sp_domain_size sp_set sp_ok sp_remove domain_size bs_elems bs_ok iter
  by unfold_locales

interpretation sp_hy_subtract: index_set_subtract_by_iter
  sp_domain_size sp_set sp_ok sp_remove hy_domain_size hy_elems hy_ok hy_iter
  by unfold_locales

interpretation bs_sp_union: index_set_union_by_iter
  domain_size bs_elems bs_ok insert_elem sp_domain_size sp_set sp_ok sp_iter
  by unfold_locales

interpretation bs_sp_subtract: index_set_subtract_by_iter
  domain_size bs_elems bs_ok remove sp_domain_size sp_set sp_ok sp_iter
  by unfold_locales

interpretation cb_hy_union: index_set_union_by_iter
  cb_domain_size cb_elems cb_ok cb_insert hy_domain_size hy_elems hy_ok hy_iter
  by unfold_locales

interpretation cb_hy_subtract: index_set_subtract_by_iter
  cb_domain_size cb_elems cb_ok cb_remove hy_domain_size hy_elems hy_ok hy_iter
  by unfold_locales

interpretation hy_sp_union: index_set_union_by_iter
  hy_domain_size hy_elems hy_ok hy_insert sp_domain_size sp_set sp_ok sp_iter
  by unfold_locales

lemma hybrid_dense_relations:
  assumes "hy_ok s" and "bs_ok t" and "domain_size t = hy_domain_size s"
  shows "0 < domain_size t \<Longrightarrow>
      hy_returns s (hy_union_dense s t) (hy_elems s \<union> bs_elems t) (hy_elems s \<union> bs_elems t \<noteq> hy_elems s)"
    and "hy_returns s (hy_subtract_dense s t) (hy_elems s - bs_elems t) (hy_elems s - bs_elems t \<noteq> hy_elems s)"
    and "hy_returns s (hy_intersect_dense s t) (hy_elems s \<inter> bs_elems t) (hy_elems s \<inter> bs_elems t \<noteq> hy_elems s)"
proof -
  show "hy_returns s (hy_union_dense s t) (hy_elems s \<union> bs_elems t) (hy_elems s \<union> bs_elems t \<noteq> hy_elems s)"
    if pos: "0 < domain_size t"
  proof (cases s)
    case (Sparse u)
    then have "bs_returns t (reverse_union_sparse t u) (bs_elems t \<union> sp_set u) (\<not> bs_elems t \<subseteq> sp_set u)"
      using reverse_union_sparse_returns [OF assms(2), of u] assms pos by simp
    then show ?thesis using Sparse assms by (auto simp: returns_def hy_union_dense.simps Un_commute)
  qed (use assms hy_returns_lift(2) [OF bs_relations(1)] in \<open>simp add: hy_union_dense.simps\<close>)
  show "hy_returns s (hy_subtract_dense s t) (hy_elems s - bs_elems t) (hy_elems s - bs_elems t \<noteq> hy_elems s)"
    using assms hy_returns_lift(1) [OF sp_bs_subtract.subtract_by_iter] hy_returns_lift(2) [OF bs_relations(2)]
    by (cases s) (simp_all add: hy_subtract_dense.simps)
  show "hy_returns s (hy_intersect_dense s t) (hy_elems s \<inter> bs_elems t) (hy_elems s \<inter> bs_elems t \<noteq> hy_elems s)"
  proof (cases s)
    case (Sparse u)
    then show ?thesis
      using assms hy_returns_lift(1) [OF sparse_intersect_returns [of u "contains t" "bs_elems t"]]
        bs_contains.contains_elem [OF assms(2)]
      by (simp add: hy_intersect_dense.simps)
  qed (use assms hy_returns_lift(2) [OF bs_relations(3)] in \<open>simp add: hy_intersect_dense.simps\<close>)
qed

lemma dense_hybrid_relations:
  assumes "bs_ok s" and "hy_ok t" and "hy_domain_size t = domain_size s"
  shows "bs_returns s (union_hybrid s t) (bs_elems s \<union> hy_elems t) (bs_elems s \<union> hy_elems t \<noteq> bs_elems s)"
    and "bs_returns s (subtract_hybrid s t) (bs_elems s - hy_elems t) (bs_elems s - hy_elems t \<noteq> bs_elems s)"
    and "bs_returns s (intersect_hybrid s t) (bs_elems s \<inter> hy_elems t) (bs_elems s \<inter> hy_elems t \<noteq> bs_elems s)"
proof -
  show "bs_returns s (union_hybrid s t) (bs_elems s \<union> hy_elems t) (bs_elems s \<union> hy_elems t \<noteq> bs_elems s)"
    using assms bs_sp_union.union_by_iter [OF assms(1)] bs_relations(1) [OF assms(1)]
    by (cases t) (simp_all add: union_hybrid.simps)
  show "bs_returns s (subtract_hybrid s t) (bs_elems s - hy_elems t) (bs_elems s - hy_elems t \<noteq> bs_elems s)"
    using assms bs_sp_subtract.subtract_by_iter [OF assms(1)] bs_relations(2) [OF assms(1)]
    by (cases t) (simp_all add: subtract_hybrid.simps)
  show "bs_returns s (intersect_hybrid s t) (bs_elems s \<inter> hy_elems t) (bs_elems s \<inter> hy_elems t \<noteq> bs_elems s)"
  proof (cases t)
    case (Sparse u)
    then obtain v where v: "dense_sparse_intersect s u = Some (v, bs_elems s \<inter> sp_set u \<noteq> bs_elems s)"
        "sp_ok v" "sp_domain_size v = domain_size s" "sp_set v = bs_elems s \<inter> sp_set u"
      using dense_sparse_intersect_returns [OF assms(1), of u] assms by (auto simp: returns_def)
    have c: "bs_ok (clear s)" "domain_size (clear s) = domain_size s" "bs_elems (clear s) = {}"
      using bs_clear [OF assms(1)] by simp_all
    then obtain s' where "insert_each (sp_iter v) (clear s) = Some s'" "bs_ok s'" "domain_size s' = domain_size s"
        "bs_elems s' = sp_set v"
      using insert_each_elems [OF c(1), of "sp_iter v"] sp_iter.set_iter [OF v(2)] sp_iter.iter_in_domain [OF v(2)] v(3)
      by auto
    then show ?thesis using Sparse v assms by (simp add: returns_def intersect_hybrid.simps)
  qed (use assms bs_relations(3) [OF assms(1)] in \<open>simp add: intersect_hybrid.simps\<close>)
qed

lemma hybrid_hybrid_relations:
  assumes "hy_ok s" and "hy_ok t" and "hy_domain_size t = hy_domain_size s"
  shows "0 < hy_domain_size s \<Longrightarrow>
      hy_returns s (hy_union s t) (hy_elems s \<union> hy_elems t) (hy_elems s \<union> hy_elems t \<noteq> hy_elems s)"
    and "hy_returns s (hy_subtract s t) (hy_elems s - hy_elems t) (hy_elems s - hy_elems t \<noteq> hy_elems s)"
    and "hy_returns s (hy_intersect s t) (hy_elems s \<inter> hy_elems t) (hy_elems s \<inter> hy_elems t \<noteq> hy_elems s)"
proof -
  have loop: "for_loop (\<lambda>elem (self, changed). do { (self, b) \<leftarrow> hy_insert self elem; Some (self, changed \<or> b) })
      es (s, False) = sequential_update hy_insert es s" for es
    by (simp add: sequential_update_def disj_commute)
  show "hy_returns s (hy_union s t) (hy_elems s \<union> hy_elems t) (hy_elems s \<union> hy_elems t \<noteq> hy_elems s)"
    if pos: "0 < hy_domain_size s"
  proof (cases s)
    case (Dense d)
    then show ?thesis
      using assms hy_returns_lift(2) [OF dense_hybrid_relations(1)] by (simp add: hy_union.simps)
  next
    case S: (Sparse u)
    show ?thesis
    proof (cases t)
      case (Sparse v)
      then show ?thesis using S assms loop hy_sp_union.union_by_iter [OF assms(1), of v] by (simp add: hy_union.simps)
    next
      case (Dense d)
      then show ?thesis using S assms pos hybrid_dense_relations(1) [OF assms(1), of d] by (simp add: hy_union.simps)
    qed
  qed
  show "hy_returns s (hy_subtract s t) (hy_elems s - hy_elems t) (hy_elems s - hy_elems t \<noteq> hy_elems s)"
    using assms hy_returns_lift(1) [OF sp_hy_subtract.subtract_by_iter] hy_returns_lift(2) [OF dense_hybrid_relations(2)]
    by (cases s) (simp_all add: hy_subtract.simps)
  show "hy_returns s (hy_intersect s t) (hy_elems s \<inter> hy_elems t) (hy_elems s \<inter> hy_elems t \<noteq> hy_elems s)"
  proof (cases s)
    case (Sparse u)
    then show ?thesis
      using assms hy_returns_lift(1) [OF sparse_intersect_returns [of u "hy_contains t" "hy_elems t"]]
        hy_contains.contains_elem [OF assms(2)]
      by (simp add: hy_intersect.simps)
  next
    case S: (Dense d)
    show ?thesis
    proof (cases t)
      case (Sparse v)
      then show ?thesis
        using S assms dense_sparse_intersect_returns [of d v] by (auto simp: hy_intersect.simps returns_def)
    next
      case (Dense e)
      then show ?thesis using S assms hy_returns_lift(2) [OF bs_relations(3) [of d e]] by (simp add: hy_intersect.simps)
    qed
  qed
qed

subsection \<open>Theorems\<close>

text \<open>
  C23: the hybrid set behaves as a set across its change of representation: inserting
  (also the ninth element, which makes the set dense), removing, testing and iterating
  are exact, report changes exactly and keep the invariant of the representation.
\<close>

theorem hybrid_set_operations:
  assumes "hy_ok s" and "e < hy_domain_size s"
  shows "hy_contains s e = Some (e \<in> hy_elems s) \<and>
    hy_iter s = sorted_list_of_set (hy_elems s) \<and>
    (\<exists>s'. hy_insert s e = Some (s', e \<notin> hy_elems s) \<and> hy_ok s' \<and> hy_domain_size s' = hy_domain_size s \<and>
      hy_elems s' = insert e (hy_elems s)) \<and>
    (\<exists>s'. hy_remove s e = Some (s', e \<in> hy_elems s) \<and> hy_ok s' \<and> hy_domain_size s' = hy_domain_size s \<and>
      hy_elems s' = hy_elems s - {e})"
  using hy_insert_elem [OF assms] hy_remove_elem [OF assms] hy_contains.contains_elem [OF assms]
    hy_iter.iter_elems [OF assms(1)]
  by (simp add: returns_def)

theorem hybrid_set_operations_witness:
  "let s = Sparse \<lparr>sp_domain_size = 100, sp_elems = [1, 3, 5, 7, 9, 11, 13, 90]\<rparr> in
   hy_ok s \<and> (\<exists>s'. hy_insert s 8 = Some (s', True) \<and> hy_elems s' = {1, 3, 5, 7, 8, 9, 11, 13, 90})"
proof -
  let ?s = "Sparse \<lparr>sp_domain_size = 100, sp_elems = [1, 3, 5, 7, 9, 11, 13, 90]\<rparr>"
  have ok: "hy_ok ?s" by (simp add: sp_ok_def SPARSE_MAX_def)
  have el: "hy_elems ?s = {1, 3, 5, 7, 9, 11, 13, 90}" "8 \<notin> hy_elems ?s" by (auto simp: sp_set_def)
  have "insert 8 {1, 3, 5, 7, 9, 11, 13, 90} = {1, 3, 5, 7, 8, 9, 11, 13, 90 :: nat}" by auto
  then show ?thesis using hybrid_set_operations [OF ok, of 8] ok el by (simp add: Let_def) blast
qed

text \<open>
  C24: union, subtraction and intersection of hybrid sets over the same non-empty domain
  compute the set operation, and report a change exactly when there is one, for every
  combination of sparse and dense representations.
\<close>

theorem hybrid_relations_exact:
  assumes "hy_ok s" and "hy_ok t" and "hy_domain_size t = hy_domain_size s" and "0 < hy_domain_size s"
    and "(rel, X) \<in> {(hy_union, hy_elems s \<union> hy_elems t), (hy_subtract, hy_elems s - hy_elems t),
      (hy_intersect, hy_elems s \<inter> hy_elems t)}"
  shows "\<exists>s'. rel s t = Some (s', X \<noteq> hy_elems s) \<and> hy_ok s' \<and> hy_domain_size s' = hy_domain_size s \<and> hy_elems s' = X"
  using assms(4,5) hybrid_hybrid_relations [OF assms(1-3)] by (auto simp: returns_def)

theorem hybrid_relations_exact_witness:
  "let s = Sparse \<lparr>sp_domain_size = 70, sp_elems = [2, 65]\<rparr>; t = Dense \<lparr>domain_size = 70, words = [4, 1]\<rparr> in
   hy_ok s \<and> hy_ok t \<and> (\<exists>s'. hy_union s t = Some (s', True) \<and> hy_elems s' = hy_elems s \<union> hy_elems t)"
proof -
  let ?s = "Sparse \<lparr>sp_domain_size = 70, sp_elems = [2, 65]\<rparr>" and ?t = "Dense \<lparr>domain_size = 70, words = [4, 1]\<rparr>"
  have ok: "hy_ok ?s" "hy_ok ?t" by (simp add: sp_ok_def SPARSE_MAX_def) code_simp
  have "64 \<in> hy_elems ?t" "64 \<notin> hy_elems ?s" by (simp_all add: bs_elems_def words_set_iff sp_set_def)
  then have "hy_elems ?s \<union> hy_elems ?t \<noteq> hy_elems ?s" by blast
  then show ?thesis
    using hybrid_relations_exact [OF ok, of hy_union "hy_elems ?s \<union> hy_elems ?t"] ok by (auto simp: Let_def)
qed

text \<open>
  On the empty domain \<open>reverse_union_sparse\<close> reads the first word of a vector that has none.
\<close>

lemma reverse_union_sparse_empty:
  assumes "bs_ok s" and "domain_size s = 0" and "sp_ok t"
  shows "reverse_union_sparse s t = None"
proof (cases "sp_domain_size t = 0")
  case True
  then have "sp_elems t = []" "words s = []"
    using assms sp.elems_in_domain [OF assms(3)] by (simp_all add: sp_set_def bs_ok_def num_words_def WORD_BITS_def)
  then show ?thesis
    using assms(2) by (simp add: reverse_union_sparse_def clear_excess_bits_def clear_excess_bits_in_final_word_def
      WORD_BITS_def sp_iter_def merge_word_def or_word_def)
qed (use assms in \<open>simp add: reverse_union_sparse_def\<close>)

lemma hybrid_union_empty_domain:
  assumes "hy_ok s" and "hy_ok t" and "hy_domain_size s = 0" and "hy_domain_size t = 0"
  shows "hy_union s t = None \<longleftrightarrow> (\<exists>u d. s = Sparse u \<and> t = Dense d)"
proof (cases s)
  case (Dense d)
  then show ?thesis
    using assms dense_hybrid_relations(1) [of d t] by (auto simp: hy_union.simps returns_def)
next
  case S: (Sparse u)
  show ?thesis
  proof (cases t)
    case (Sparse v)
    then have "sp_elems v = []" using assms sp.elems_in_domain [of v] by (auto simp: sp_set_def)
    then show ?thesis using S Sparse assms(3,4) by (simp add: hy_union.simps sp_iter_def)
  next
    case (Dense d)
    then show ?thesis
      using S assms reverse_union_sparse_empty [of d u] by (simp add: hy_union.simps hy_union_dense.simps)
  qed
qed

text \<open>
  C25: when the relations of hybrid sets panic. Subtraction and intersection of
  well-formed sets panic exactly when the domains differ. The union panics in one more
  case, which no contract excludes: a sparse set with a dense one over the empty domain, where the
  code reads the first word of a set that has none.
\<close>

theorem hybrid_union_empty_domain_panics:
  assumes "hy_ok s" and "hy_ok t"
  shows "(hy_union s t = None \<longleftrightarrow> hy_domain_size s \<noteq> hy_domain_size t \<or>
      hy_domain_size s = 0 \<and> (\<exists>u d. s = Sparse u \<and> t = Dense d)) \<and>
    (hy_subtract s t = None \<longleftrightarrow> hy_domain_size s \<noteq> hy_domain_size t) \<and>
    (hy_intersect s t = None \<longleftrightarrow> hy_domain_size s \<noteq> hy_domain_size t)"
proof (cases "hy_domain_size s = hy_domain_size t")
  case True
  note rel = hybrid_hybrid_relations [OF assms True [symmetric]]
  have "hy_union s t = None \<longleftrightarrow> hy_domain_size s = 0 \<and> (\<exists>u d. s = Sparse u \<and> t = Dense d)"
    using rel(1) hybrid_union_empty_domain [OF assms] True by (cases "hy_domain_size s = 0") (auto simp: returns_def)
  then show ?thesis using rel(2,3) True by (auto simp: returns_def)
next
  case False
  then show ?thesis by (simp add: hy_union.simps hy_subtract.simps hy_intersect.simps)
qed

theorem hybrid_union_empty_domain_panics_witness:
  "let s = hy_new_empty 0; t = Dense (new_empty 0) in
   hy_ok s \<and> hy_ok t \<and> hy_union s t = None \<and> hy_union t s \<noteq> None \<and> hy_subtract s t \<noteq> None \<and> hy_intersect s t \<noteq> None"
proof -
  let ?s = "hy_new_empty 0" and ?t = "Dense (new_empty 0)"
  have ok: "hy_ok ?s" "hy_ok ?t" using bs_new_empty [of 0] by (simp_all add: hy_new_empty_def sp_new_empty_ok)
  have d: "hy_domain_size ?s = 0" "hy_domain_size ?t = 0" by (simp_all add: hy_new_empty_def sp_new_empty_def new_empty_def)
  show ?thesis
    using hybrid_union_empty_domain_panics [OF ok] hybrid_union_empty_domain_panics [OF ok(2,1)] ok d
    by (simp add: Let_def) (simp add: hy_new_empty_def)
qed

end
