(* ===== verification/Hybrid_Ranges.thy ===== *)
theory Hybrid_Ranges
  imports Hybrid_Props
begin

text \<open>
  Ranges and comparisons of hybrid sets.
\<close>

subsection \<open>Insertion of a range\<close>

lemma sparse_insert_run:
  assumes "sp_ok s" and "sp_len s + n < SPARSE_MAX" and "a + n \<le> sp_domain_size s"
  shows "\<exists>s'. for_loop (\<lambda>elem sparse. map_option fst (sp_insert sparse elem)) [a..<a + n] s = Some s' \<and> sp_ok s' \<and>
    sp_domain_size s' = sp_domain_size s \<and> sp_set s' = sp_set s \<union> {a..<a + n}"
  using assms
proof (induction n arbitrary: s a)
  case (Suc n)
  obtain s1 where s1: "sp_insert s a = Some (s1, a \<notin> sp_set s)" "sp_ok s1" "sp_domain_size s1 = sp_domain_size s"
      "sp_set s1 = insert a (sp_set s)"
    using sp_insert_elem [of s a] Suc.prems by (auto simp: returns_def)
  have "sp_len s1 \<le> Suc (sp_len s)"
    using sp_card [OF s1(2)] sp_card [OF Suc.prems(1)] s1(4) by (metis card_insert_le_m1 card_insert_if finite_set lessI less_imp_le order_refl sp_set_def)
  then have "sp_len s1 + n < SPARSE_MAX" "Suc a + n \<le> sp_domain_size s1" using Suc.prems(2,3) s1(3) by simp_all
  from Suc.IH [OF s1(2) this]
  obtain s' where "for_loop (\<lambda>elem sparse. map_option fst (sp_insert sparse elem)) [Suc a..<Suc a + n] s1 = Some s'"
      "sp_ok s'" "sp_domain_size s' = sp_domain_size s1" "sp_set s' = sp_set s1 \<union> {Suc a..<Suc a + n}"
    by blast
  moreover have "[a..<a + Suc n] = a # [Suc a..<Suc a + n]" by (simp add: upt_rec)
  moreover have "insert a X \<union> {Suc a..<Suc a + n} = X \<union> {a..<a + Suc n}" for X by auto
  ultimately show ?case using s1 by (simp del: upt_Suc add_Suc add_Suc_right)
qed auto

definition range_start :: "bound \<Rightarrow> nat" where
  "range_start lo = (case lo of Included a \<Rightarrow> a | Excluded a \<Rightarrow> a + 1 | Unbounded \<Rightarrow> 0)"

definition range_stop :: "bound \<Rightarrow> nat" where
  "range_stop hi = (case hi of Included e \<Rightarrow> e + 1 | Excluded e \<Rightarrow> e | Unbounded \<Rightarrow> 0)"

lemma range_contains_bounded:
  "hi \<noteq> Unbounded \<Longrightarrow> range_contains (lo, hi) e = (range_start lo \<le> e \<and> e < range_stop hi)"
  by (cases lo; cases hi) (auto simp: range_start_def range_stop_def)

declare range_contains.simps [simp del]

lemma hy_insert_range_bounded:
  assumes "hi \<noteq> Unbounded"
  shows "hy_insert_range s (lo, hi) =
    (case checked_sub (range_stop hi) (range_start lo) of None \<Rightarrow> Some s | Some len \<Rightarrow>
      (case s of
        Sparse u \<Rightarrow>
          if sp_len u + len < SPARSE_MAX then
            map_option Sparse
              (for_loop (\<lambda>elem sparse. map_option fst (sp_insert sparse elem)) [range_start lo..<range_stop hi] u)
          else do { dense \<leftarrow> sp_to_dense u; dense \<leftarrow> insert_range dense (lo, hi); Some (Dense dense) }
      | Dense d \<Rightarrow> map_option Dense (insert_range d (lo, hi))))"
  unfolding range_start_def range_stop_def hy_insert_range.simps Let_def
  using assms by (cases lo; cases hi; hypsubst; unfold bound.case bind.bind_lunit; simp)

lemma hy_insert_range_sparse:
  assumes "sp_ok u" and "range_in_domain (lo, hi) (sp_domain_size u)" and "hi \<noteq> Unbounded"
  shows "\<exists>s'. hy_insert_range (Sparse u) (lo, hi) = Some s' \<and> hy_ok s' \<and> hy_domain_size s' = sp_domain_size u \<and>
    hy_elems s' = sp_set u \<union> {e. e < sp_domain_size u \<and> range_contains (lo, hi) e}"
proof -
  let ?d = "sp_domain_size u" and ?E = "{e. e < sp_domain_size u \<and> range_contains (lo, hi) e}"
  let ?a = "range_start lo" and ?b = "range_stop hi"
  note def = hy_insert_range_bounded [OF assms(3), of "Sparse u" lo]
  have bd: "?b \<le> ?d" using assms(2,3) by (cases hi) (auto simp: range_stop_def)
  have E: "?E = {?a..<?b}" unfolding range_contains_bounded [OF assms(3)] using bd by auto
  show ?thesis
  proof (cases "?a \<le> ?b")
    case False
    then show ?thesis using def E assms(1) by auto
  next
    case ab: True
    show ?thesis
    proof (cases "sp_len u + (?b - ?a) < SPARSE_MAX")
      case True
      then show ?thesis using sparse_insert_run [of u "?b - ?a" ?a] assms(1) ab bd def E by auto
    next
      case False
      obtain d where d: "sp_to_dense u = Some d" "bs_ok d" "domain_size d = ?d" "bs_elems d = sp_set u"
        using sp_to_dense [OF assms(1)] by blast
      then obtain d' where "insert_range d (lo, hi) = Some d'" "bs_ok d'" "domain_size d' = ?d" "bs_elems d' = sp_set u \<union> ?E"
        using bs_insert_range_exact [OF d(2), of "(lo, hi)"] assms(2) by auto
      then show ?thesis using def ab False d(1) by simp
    qed
  qed
qed

text \<open>
  Inserting a range whose end is given, by an included or an excluded bound inside
  the domain, adds exactly the indices of the range to a hybrid set of either
  representation.
\<close>

theorem hybrid_insert_range_bounded:
  assumes "hy_ok s" and "range_in_domain (lo, hi) (hy_domain_size s)" and "hi \<noteq> Unbounded"
  shows "\<exists>s'. hy_insert_range s (lo, hi) = Some s' \<and> hy_ok s' \<and> hy_domain_size s' = hy_domain_size s \<and>
    hy_elems s' = hy_elems s \<union> {e. e < hy_domain_size s \<and> range_contains (lo, hi) e}"
proof (cases s)
  case (Sparse u)
  then show ?thesis using hy_insert_range_sparse [of u lo hi] assms by simp
next
  case (Dense d)
  note def = hy_insert_range_bounded [OF assms(3), of s lo]
  show ?thesis
  proof (cases "range_start lo \<le> range_stop hi")
    case True
    then show ?thesis using Dense def bs_insert_range_exact [of d "(lo, hi)"] assms by auto
  next
    case False
    then have "{e. e < hy_domain_size s \<and> range_contains (lo, hi) e} = {}"
      unfolding range_contains_bounded [OF assms(3)] by auto
    then show ?thesis using False Dense def assms(1) by auto
  qed
qed

theorem hybrid_insert_range_bounded_witness:
  "hy_ok (hy_new_empty 20) \<and> range_in_domain (Included 3, Included 6) 20 \<and>
   (\<exists>s'. hy_insert_range (hy_new_empty 20) (Included 3, Included 6) = Some s' \<and> hy_elems s' = {3..6})"
proof -
  have ok: "hy_ok (hy_new_empty 20)" by (simp add: hy_new_empty_def sp_new_empty_ok)
  have d: "hy_domain_size (hy_new_empty 20) = 20" "hy_elems (hy_new_empty 20) = {}"
    by (simp_all add: hy_new_empty_def sp_new_empty_def sp_set_def)
  have "{e. e < 20 \<and> range_contains (Included 3, Included 6) e} = {3..6}" by (auto simp: range_contains.simps)
  then show ?thesis using hybrid_insert_range_bounded [OF ok, of "Included 3" "Included 6"] ok d by auto
qed





subsection \<open>Queries\<close>

lemma all_items_all: "(\<And>x. x \<in> set xs \<Longrightarrow> p x = Some (q x)) \<Longrightarrow> all_items p xs = Some (list_all q xs)"
  by (induction xs) auto

lemma sp_last_fold:
  "sorted_wrt (<) es \<Longrightarrow>
     foldl (\<lambda>last e. if P e then Some e else last) None es = last_of {e \<in> set es. P e}"
proof (induction es rule: rev_induct)
  case (snoc e es)
  have "Max {x \<in> set (es @ [e]). P x} = e" if "P e"
    using snoc.prems that by (intro Max_eqI) (auto simp: sorted_wrt_append less_imp_le)
  moreover have "{x \<in> set (es @ [e]). P x} = {x \<in> set es. P x}" if "\<not> P e" using that by auto
  ultimately show ?case
    using snoc by (auto simp: last_of_def sorted_wrt_append)
qed (simp add: last_of_def)

text \<open>
  The queries of a hybrid set do not depend on its representation: \<open>superset\<close>
  decides inclusion for every combination of representations, and \<open>last_set_in\<close>
  returns the largest element in a range of the domain.
\<close>

theorem hybrid_queries_exact:
  assumes "hy_ok s" and "hy_ok t" and "hy_domain_size t = hy_domain_size s" and "range_in_domain r (hy_domain_size s)"
  shows "hy_superset s t = Some (hy_elems t \<subseteq> hy_elems s) \<and>
    hy_last_set_in s r = Some (last_of (hy_elems s \<inter> {e. e < hy_domain_size s \<and> range_contains r e}))"
proof
  have "all_items (hy_contains s) (hy_iter t) = Some (hy_elems t \<subseteq> hy_elems s)"
    using all_items_all [of "hy_iter t" "hy_contains s" "\<lambda>e. e \<in> hy_elems s"] hy_contains.contains_elem [OF assms(1)]
      hy_iter.set_iter [OF assms(2)] hy_iter.iter_in_domain [OF assms(2)] assms(3)
    by (auto simp: list_all_iff subset_iff)
  then show "hy_superset s t = Some (hy_elems t \<subseteq> hy_elems s)"
    using assms(1-3) bs_superset by (cases s; cases t) auto
  show "hy_last_set_in s r = Some (last_of (hy_elems s \<inter> {e. e < hy_domain_size s \<and> range_contains r e}))"
  proof (cases s)
    case (Sparse u)
    have "hy_elems s \<inter> {e. e < hy_domain_size s \<and> range_contains r e} = {e \<in> set (sp_elems u). range_contains r e}"
      using hy.elems_in_domain [OF assms(1)] Sparse by (auto simp: sp_set_def)
    then show ?thesis
      using Sparse assms(1) sp_last_fold [of "sp_elems u" "range_contains r"]
      by (simp add: sp_last_set_in_def sp_iter_def sp_ok_def)
  next
    case (Dense d)
    then show ?thesis using bs_last_set_in_range [of d r] assms by simp
  qed
qed

theorem hybrid_queries_exact_witness:
  "let s = Sparse \<lparr>sp_domain_size = 70, sp_elems = [2, 65]\<rparr>; t = Sparse \<lparr>sp_domain_size = 70, sp_elems = [65]\<rparr> in
   hy_ok s \<and> hy_ok t \<and> hy_superset s t = Some True \<and> hy_last_set_in s (Included 1, Excluded 60) = Some (Some 2)"
proof -
  let ?s = "Sparse \<lparr>sp_domain_size = 70, sp_elems = [2, 65]\<rparr>" and ?t = "Sparse \<lparr>sp_domain_size = 70, sp_elems = [65]\<rparr>"
  have ok: "hy_ok ?s" "hy_ok ?t" by (simp_all add: sp_ok_def SPARSE_MAX_def)
  have "hy_elems ?s \<inter> {e. e < 70 \<and> range_contains (Included 1, Excluded 60) e} = {2}" by (auto simp: sp_set_def range_contains.simps)
  then show ?thesis
    using hybrid_queries_exact [OF ok, of "(Included 1, Excluded 60)"] ok by (simp add: Let_def sp_set_def last_of_def)
qed

end
