(* ===== verification/Growable_Bit_Set.thy ===== *)
theory Growable_Bit_Set
  imports Bit_Set_Props
begin

text \<open>
  \<open>GrowableBitSet\<close> of \<open>rustc_index/src/bit_set.rs\<close>: a dense set whose domain grows with
  the elements it is asked about. \<open>contains\<close> does not grow the set and does not panic.
\<close>

subsection \<open>Operations\<close>

record growable_bit_set =
  gb_bit_set :: bit_set

text \<open>\<open>Vec::resize(n, 0)\<close> to a length that is not smaller.\<close>

definition resize_words :: "word64 list \<Rightarrow> nat \<Rightarrow> word64 list" where
  "resize_words ws n = take n ws @ replicate (n - length ws) 0"

definition gb_ensure :: "growable_bit_set \<Rightarrow> nat \<Rightarrow> growable_bit_set option" where
  "gb_ensure self min_domain_size = do {
     let s = gb_bit_set self;
     let s = (if domain_size s < min_domain_size then s\<lparr>domain_size := min_domain_size\<rparr> else s);
     min_num_words \<leftarrow> num_words_usize min_domain_size;
     let s = (if length (words s) < min_num_words then s\<lparr>words := resize_words (words s) min_num_words\<rparr> else s);
     Some (self\<lparr>gb_bit_set := s\<rparr>)
   }"

definition gb_new_empty :: growable_bit_set where
  "gb_new_empty = \<lparr>gb_bit_set = new_empty 0\<rparr>"

definition gb_with_capacity :: "nat \<Rightarrow> growable_bit_set option" where
  "gb_with_capacity capacity = do {
     n \<leftarrow> num_words_usize capacity;
     Some \<lparr>gb_bit_set = \<lparr>domain_size = capacity, words = replicate n 0\<rparr>\<rparr>
   }"

definition gb_insert :: "growable_bit_set \<Rightarrow> nat \<Rightarrow> (growable_bit_set \<times> bool) option" where
  "gb_insert self elem = do {
     self \<leftarrow> gb_ensure self (elem + 1);
     (s, changed) \<leftarrow> insert_elem (gb_bit_set self) elem;
     Some (self\<lparr>gb_bit_set := s\<rparr>, changed)
   }"

definition gb_remove :: "growable_bit_set \<Rightarrow> nat \<Rightarrow> (growable_bit_set \<times> bool) option" where
  "gb_remove self elem = do {
     self \<leftarrow> gb_ensure self (elem + 1);
     (s, changed) \<leftarrow> remove (gb_bit_set self) elem;
     Some (self\<lparr>gb_bit_set := s\<rparr>, changed)
   }"

definition gb_is_empty :: "growable_bit_set \<Rightarrow> bool" where
  "gb_is_empty self = is_empty (gb_bit_set self)"

definition gb_contains :: "growable_bit_set \<Rightarrow> nat \<Rightarrow> bool" where
  "gb_contains self elem =
     (let (word_index, mask) = word_index_and_mask elem in
      case idx (words (gb_bit_set self)) word_index of
        None \<Rightarrow> False
      | Some word \<Rightarrow> word AND mask \<noteq> 0)"

definition gb_iter :: "growable_bit_set \<Rightarrow> nat list" where
  "gb_iter self = iter (gb_bit_set self)"

definition gb_len :: "growable_bit_set \<Rightarrow> nat" where
  "gb_len self = count (gb_bit_set self)"

text \<open>The two \<open>From\<close> conversions.\<close>

definition gb_from_bit_set :: "bit_set \<Rightarrow> growable_bit_set" where
  "gb_from_bit_set s = \<lparr>gb_bit_set = s\<rparr>"

definition bit_set_from_gb :: "growable_bit_set \<Rightarrow> bit_set" where
  "bit_set_from_gb g = gb_bit_set g"

subsection \<open>What the operations do\<close>

abbreviation gb_ok :: "growable_bit_set \<Rightarrow> bool" where
  "gb_ok g \<equiv> bs_ok (gb_bit_set g)"

abbreviation gb_elems :: "growable_bit_set \<Rightarrow> nat set" where
  "gb_elems g \<equiv> bs_elems (gb_bit_set g)"

lemma words_set_append_zeros: "words_set (ws @ replicate n 0) = words_set ws"
proof (rule set_eqI)
  fix i
  have "i div 64 < length ws \<longleftrightarrow> i < 64 * length ws" by (simp add: div64_less)
  then show "i \<in> words_set (ws @ replicate n 0) \<longleftrightarrow> i \<in> words_set ws"
    by (auto simp: words_set_iff nth_append less_diff_conv2 div64_less)
qed

lemma num_words_usize_eq: "num_words_usize n = (if n + 64 < 2 ^ 64 then Some (num_words n) else None)"
  by (simp add: num_words_usize_def num_words_def WORD_BITS_def)

lemma gb_ensure_ok:
  assumes "gb_ok g" and "n + 64 < 2 ^ 64"
  obtains g' where "gb_ensure g n = Some g'" and "gb_ok g'" and "gb_elems g' = gb_elems g"
    and "domain_size (gb_bit_set g') = max (domain_size (gb_bit_set g)) n"
proof -
  let ?s = "gb_bit_set g"
  let ?t = "\<lparr>domain_size = max (domain_size ?s) n, words = words ?s @ replicate (num_words n - length (words ?s)) 0\<rparr>"
  have s: "domain_size ?s < 2 ^ 64" "length (words ?s) = num_words (domain_size ?s)" "words_set (words ?s) \<subseteq> {..<domain_size ?s}"
    using assms(1) by (simp_all add: bs_ok_def)
  have mono: "num_words a \<le> num_words b" if "a \<le> b" for a b
    using that by (simp add: num_words_def div_le_mono)
  have ws: "(if length (words ?s) < num_words n then resize_words (words ?s) (num_words n) else words ?s) =
      words ?s @ replicate (num_words n - length (words ?s)) 0"
    by (simp add: resize_words_def)
  have g: "gb_ensure g n = Some \<lparr>gb_bit_set = ?t\<rparr>"
    unfolding ws [symmetric] using assms(2) by (cases g; cases ?s) (simp add: gb_ensure_def Let_def max_def num_words_usize_eq)
  have "num_words (domain_size ?s) + (num_words n - num_words (domain_size ?s)) = num_words (max (domain_size ?s) n)"
    using mono [of "domain_size ?s" n] mono [of n "domain_size ?s"] by (cases "domain_size ?s \<le> n") (auto simp: max_def)
  then have "bs_ok ?t" "bs_elems ?t = bs_elems ?s"
    using s assms(2) by (auto simp: bs_ok_def bs_elems_def words_set_append_zeros)
  then show thesis using that [OF g] by simp
qed

lemma gb_ensure_overflow: "\<not> n + 64 < 2 ^ 64 \<Longrightarrow> gb_ensure g n = None"
  by (simp add: gb_ensure_def num_words_usize_eq Let_def)

lemma gb_with_capacity_ok:
  "gb_with_capacity n = (if n + 64 < 2 ^ 64 then Some (gb_from_bit_set (new_empty n)) else None)"
  by (simp add: gb_with_capacity_def num_words_usize_eq gb_from_bit_set_def new_empty_def)

lemma gb_contains_iff: "gb_contains g e \<longleftrightarrow> e \<in> gb_elems g"
  by (cases "e div 64 < length (words (gb_bit_set g))")
    (auto simp: gb_contains_def bs_elems_def words_set_iff and_exp64 div64_less)

text \<open>
  C29: a growable set behaves as a set of unbounded indices. From a well-formed set,
  inserting and removing an index returns, grows the domain just enough to hold the index,
  changes exactly that element and reports whether the set changed, when the words of the
  grown domain can be counted in a \<open>usize\<close>, for the indices below \<open>2 ^ 64 - 65\<close>; for the indices
  above the computation overflows and both panic. Membership is total for every index;
  iteration, length and emptiness agree with the set.
\<close>

theorem growable_set_operations:
  assumes "gb_ok g"
  shows "(if e + 65 < 2 ^ 64 then
      (\<exists>g'. gb_insert g e = Some (g', e \<notin> gb_elems g) \<and> gb_ok g' \<and> gb_elems g' = insert e (gb_elems g) \<and>
        domain_size (gb_bit_set g') = max (domain_size (gb_bit_set g)) (e + 1)) \<and>
      (\<exists>g'. gb_remove g e = Some (g', e \<in> gb_elems g) \<and> gb_ok g' \<and> gb_elems g' = gb_elems g - {e} \<and>
        domain_size (gb_bit_set g') = max (domain_size (gb_bit_set g)) (e + 1))
    else gb_insert g e = None \<and> gb_remove g e = None) \<and>
    gb_contains g i = (i \<in> gb_elems g) \<and>
    gb_iter g = sorted_list_of_set (gb_elems g) \<and> gb_len g = card (gb_elems g) \<and>
    gb_is_empty g = (gb_elems g = {})"
proof (intro conjI)
  show "if e + 65 < 2 ^ 64 then
      (\<exists>g'. gb_insert g e = Some (g', e \<notin> gb_elems g) \<and> gb_ok g' \<and> gb_elems g' = insert e (gb_elems g) \<and>
        domain_size (gb_bit_set g') = max (domain_size (gb_bit_set g)) (e + 1)) \<and>
      (\<exists>g'. gb_remove g e = Some (g', e \<in> gb_elems g) \<and> gb_ok g' \<and> gb_elems g' = gb_elems g - {e} \<and>
        domain_size (gb_bit_set g') = max (domain_size (gb_bit_set g)) (e + 1))
    else gb_insert g e = None \<and> gb_remove g e = None"
  proof (cases "e + 65 < 2 ^ 64")
    case True
    obtain g1 where g1: "gb_ensure g (e + 1) = Some g1" "gb_ok g1" "gb_elems g1 = gb_elems g"
        "domain_size (gb_bit_set g1) = max (domain_size (gb_bit_set g)) (e + 1)"
      using gb_ensure_ok [OF assms, of "e + 1"] True by auto
    then have "e < domain_size (gb_bit_set g1)" by simp
    note ins = bs_insert_elem [OF g1(2) this] and rem = bs_remove_elem [OF g1(2) this]
    have "\<exists>g'. gb_insert g e = Some (g', e \<notin> gb_elems g) \<and> gb_ok g' \<and> gb_elems g' = insert e (gb_elems g) \<and>
        domain_size (gb_bit_set g') = max (domain_size (gb_bit_set g)) (e + 1)"
      using ins g1 by (auto simp: gb_insert_def returns_def)
    moreover have "\<exists>g'. gb_remove g e = Some (g', e \<in> gb_elems g) \<and> gb_ok g' \<and> gb_elems g' = gb_elems g - {e} \<and>
        domain_size (gb_bit_set g') = max (domain_size (gb_bit_set g)) (e + 1)"
      using rem g1 by (auto simp: gb_remove_def returns_def)
    ultimately show ?thesis using True by simp
  next
    case False
    then show ?thesis using gb_ensure_overflow [of "e + 1" g] by (simp add: gb_insert_def gb_remove_def)
  qed
qed (use bs_iter.iter_elems [OF assms] bs_count [OF assms] in
  \<open>simp_all add: gb_contains_iff gb_iter_def gb_len_def gb_is_empty_def bs_is_empty\<close>)

theorem growable_set_operations_witness:
  "gb_ok gb_new_empty \<and> (\<exists>g. gb_insert gb_new_empty 100 = Some (g, True) \<and> gb_ok g \<and> gb_elems g = {100} \<and>
     domain_size (gb_bit_set g) = 101) \<and> \<not> gb_contains gb_new_empty 100 \<and>
   gb_insert gb_new_empty (2 ^ 64 - 2) = None"
proof -
  have ok: "gb_ok gb_new_empty" "gb_elems gb_new_empty = {}"
    using bs_new_empty [of 0] by (simp_all add: gb_new_empty_def)
  have "domain_size (gb_bit_set gb_new_empty) = 0" by (simp add: gb_new_empty_def new_empty_def)
  then show ?thesis
    using growable_set_operations [OF ok(1), of 100 100] growable_set_operations [OF ok(1), of "2 ^ 64 - 2" 0] ok by auto
qed

end
