(* ===== verification/Bit_Matrix.thy ===== *)
theory Bit_Matrix
  imports Bit_Set_Props
begin

text \<open>
  \<open>BitMatrix\<close> of \<open>rustc_index/src/bit_set.rs\<close>: a fixed number of rows, each a run of
  words in one vector. A row is read as a dense set, and the operations on a row are
  related to the operations of \<open>BitSet\<close> on it; the other rows keep their words. The number
  of words, rows times words in a row, is a natural number: where the product overflows a
  \<open>usize\<close> the vector is beyond any memory.
\<close>

subsection \<open>Operations\<close>

record bit_matrix =
  num_rows :: nat
  num_columns :: nat
  bm_words :: "word64 list"

definition bm_new :: "nat \<Rightarrow> nat \<Rightarrow> bit_matrix" where
  "bm_new rs cs =
     (let words_per_row = num_words cs in
      \<lparr>num_rows = rs, num_columns = cs, bm_words = replicate (rs * words_per_row) 0\<rparr>)"

definition bm_from_row_n :: "bit_set \<Rightarrow> nat \<Rightarrow> bit_matrix option" where
  "bm_from_row_n row rs = do {
     let cs = domain_size row;
     let words_per_row = num_words cs;
     rassert (words_per_row = length (words row));
     Some \<lparr>num_rows = rs, num_columns = cs, bm_words = concat (replicate rs (words row))\<rparr>
   }"

definition bm_rows :: "bit_matrix \<Rightarrow> nat list" where
  "bm_rows self = [0..<num_rows self]"

definition bm_range :: "bit_matrix \<Rightarrow> nat \<Rightarrow> nat \<times> nat" where
  "bm_range self row =
     (let words_per_row = num_words (num_columns self);
          start = row * words_per_row
      in (start, start + words_per_row))"

definition bm_insert :: "bit_matrix \<Rightarrow> nat \<Rightarrow> nat \<Rightarrow> (bit_matrix \<times> bool) option" where
  "bm_insert self row column = do {
     rassert (row < num_rows self \<and> column < num_columns self);
     let (start, _) = bm_range self row;
     let (word_index, mask) = word_index_and_mask column;
     word \<leftarrow> idx (bm_words self) (start + word_index);
     let new_word = word OR mask;
     ws \<leftarrow> idx_set (bm_words self) (start + word_index) new_word;
     Some (self\<lparr>bm_words := ws\<rparr>, word \<noteq> new_word)
   }"

definition bm_contains :: "bit_matrix \<Rightarrow> nat \<Rightarrow> nat \<Rightarrow> bool option" where
  "bm_contains self row column = do {
     rassert (row < num_rows self \<and> column < num_columns self);
     let (start, _) = bm_range self row;
     let (word_index, mask) = word_index_and_mask column;
     word \<leftarrow> idx (bm_words self) (start + word_index);
     Some (word AND mask \<noteq> 0)
   }"

text \<open>The inner loop of \<open>intersect_rows\<close>, over the bit positions that are left.\<close>

primrec intersect_bits :: "nat list \<Rightarrow> nat \<Rightarrow> word64 \<Rightarrow> nat list \<Rightarrow> nat list" where
  "intersect_bits [] base v result = result"
| "intersect_bits (pos # bits) base v result =
     (if v = 0 then result
      else intersect_bits bits base (drop_bit 1 v)
        (if v AND 0x1 \<noteq> 0 then result @ [base * WORD_BITS + pos] else result))"

definition bm_intersect_rows :: "bit_matrix \<Rightarrow> nat \<Rightarrow> nat \<Rightarrow> nat list option" where
  "bm_intersect_rows self row1 row2 = do {
     rassert (row1 < num_rows self \<and> row2 < num_rows self);
     let (row1_start, row1_end) = bm_range self row1;
     let (row2_start, row2_end) = bm_range self row2;
     for_loop (\<lambda>(base, (i, j)) result. do {
       x \<leftarrow> idx (bm_words self) i;
       y \<leftarrow> idx (bm_words self) j;
       Some (intersect_bits [0..<WORD_BITS] base (x AND y) result)
     }) (enumerate 0 (zip [row1_start..<row1_end] [row2_start..<row2_end])) []
   }"

text \<open>
  The body of the loops of \<open>union_rows\<close> and \<open>union_row_with\<close>, which differ in the word
  they read: one of the matrix itself, or one of the given set.
\<close>

definition union_cell ::
  "(word64 list \<Rightarrow> nat \<Rightarrow> word64 option) \<Rightarrow> nat \<times> nat \<Rightarrow> word64 list \<times> bool \<Rightarrow> (word64 list \<times> bool) option" where
  "union_cell read = (\<lambda>(read_index, write_index) (ws, changed). do {
     word \<leftarrow> idx ws write_index;
     r \<leftarrow> read ws read_index;
     let new_word = word OR r;
     ws \<leftarrow> idx_set ws write_index new_word;
     Some (ws, changed \<or> word \<noteq> new_word)
   })"

definition bm_union_rows :: "bit_matrix \<Rightarrow> nat \<Rightarrow> nat \<Rightarrow> (bit_matrix \<times> bool) option" where
  "bm_union_rows self read write = do {
     rassert (read < num_rows self \<and> write < num_rows self);
     let (read_start, read_end) = bm_range self read;
     let (write_start, write_end) = bm_range self write;
     (ws, changed) \<leftarrow>
       for_loop (union_cell idx) (zip [read_start..<read_end] [write_start..<write_end]) (bm_words self, False);
     Some (self\<lparr>bm_words := ws\<rparr>, changed)
   }"

definition bm_union_row_with :: "bit_matrix \<Rightarrow> bit_set \<Rightarrow> nat \<Rightarrow> (bit_matrix \<times> bool) option" where
  "bm_union_row_with self with_set write = do {
     rassert (write < num_rows self);
     rassert (domain_size with_set = num_columns self);
     let (write_start, write_end) = bm_range self write;
     (ws, changed) \<leftarrow>
       for_loop (union_cell (\<lambda>_. idx (words with_set)))
         (zip [0..<length (words with_set)] [write_start..<write_end]) (bm_words self, False);
     Some (self\<lparr>bm_words := ws\<rparr>, changed)
   }"

definition bm_insert_all_into_row :: "bit_matrix \<Rightarrow> nat \<Rightarrow> bit_matrix option" where
  "bm_insert_all_into_row self row = do {
     rassert (row < num_rows self);
     let (start, end) = bm_range self row;
     ws \<leftarrow> for_loop (\<lambda>index ws. idx_set ws index (NOT 0)) [start..<end] (bm_words self);
     front \<leftarrow> slice_of ws 0 end;
     front \<leftarrow> clear_excess_bits_in_final_word (num_columns self) front;
     Some (self\<lparr>bm_words := front @ drop end ws\<rparr>)
   }"

definition bm_iter :: "bit_matrix \<Rightarrow> nat \<Rightarrow> nat list option" where
  "bm_iter self row = do {
     rassert (row < num_rows self);
     let (start, end) = bm_range self row;
     ws \<leftarrow> slice_of (bm_words self) start end;
     Some (bit_iter_collect (bit_iter_new ws))
   }"

definition bm_count :: "bit_matrix \<Rightarrow> nat \<Rightarrow> nat option" where
  "bm_count self row = do {
     let (start, end) = bm_range self row;
     ws \<leftarrow> slice_of (bm_words self) start end;
     Some (sum_list (map count_ones ws))
   }"

subsection \<open>Rows\<close>

text \<open>A row of the matrix as a dense set over the columns.\<close>

definition bm_row :: "bit_matrix \<Rightarrow> nat \<Rightarrow> bit_set" where
  "bm_row m r =
     (let w = num_words (num_columns m) in
      \<lparr>domain_size = num_columns m, words = take w (drop (r * w) (bm_words m))\<rparr>)"

definition bm_ok :: "bit_matrix \<Rightarrow> bool" where
  "bm_ok m \<longleftrightarrow> length (bm_words m) = num_rows m * num_words (num_columns m) \<and>
     (\<forall>r<num_rows m. bs_ok (bm_row m r))"

text \<open>The matrix whose row \<open>r\<close> has the words \<open>vs\<close>.\<close>

definition put_row :: "bit_matrix \<Rightarrow> nat \<Rightarrow> word64 list \<Rightarrow> bit_matrix" where
  "put_row m r vs =
     (let w = num_words (num_columns m) in
      m\<lparr>bm_words := take (r * w) (bm_words m) @ vs @ drop (r * w + w) (bm_words m)\<rparr>)"

text \<open>The operation succeeds and leaves a well-formed matrix that differs in row \<open>r\<close> at most.\<close>

definition row_returns :: "bit_matrix \<Rightarrow> nat \<Rightarrow> (bit_matrix \<times> 'r) option \<Rightarrow> nat set \<Rightarrow> 'r \<Rightarrow> bool" where
  "row_returns m r res X b \<longleftrightarrow>
     (\<exists>m'. res = Some (m', b) \<and> bm_ok m' \<and> num_rows m' = num_rows m \<and> num_columns m' = num_columns m \<and>
       bs_elems (bm_row m' r) = X \<and> (\<forall>r'<num_rows m. r' \<noteq> r \<longrightarrow> bm_row m' r' = bm_row m r'))"

lemma row_range: "r < n \<Longrightarrow> r * w + w \<le> n * w" for r n w :: nat
  by (metis add.commute mult_Suc mult_le_mono1 Suc_leI)

lemma bm_range_simp [simp]:
  "bm_range m r = (r * num_words (num_columns m), r * num_words (num_columns m) + num_words (num_columns m))"
  by (simp add: bm_range_def Let_def)

lemma bm_row_words: "words (bm_row m r) = take (num_words (num_columns m)) (drop (r * num_words (num_columns m)) (bm_words m))"
  and bm_row_domain [simp]: "domain_size (bm_row m r) = num_columns m"
  by (simp_all add: bm_row_def Let_def)

lemma bm_row_nth:
  assumes "bm_ok m" and "r < num_rows m" and "k < num_words (num_columns m)"
  shows "r * num_words (num_columns m) + k < length (bm_words m)"
    and "bm_words m ! (r * num_words (num_columns m) + k) = words (bm_row m r) ! k"
  using assms row_range [of r "num_rows m" "num_words (num_columns m)"] by (auto simp: bm_ok_def bm_row_words)

lemma put_row_simps [simp]: "num_rows (put_row m r vs) = num_rows m" "num_columns (put_row m r vs) = num_columns m"
  by (simp_all add: put_row_def Let_def)

lemma rows_disjoint:
  assumes "r' \<noteq> r"
  shows "r' * w + w \<le> r * w \<or> r * w + w \<le> r' * (w :: nat)"
  using assms row_range [of r' r w] row_range [of r r' w] by (cases "r' < r") auto

lemma take_drop_splice:
  assumes "length vs = w" and "b + w \<le> length ws"
  shows "take w (drop b (take b ws @ vs @ drop (b + w) ws)) = vs"
    and "a + w \<le> length ws \<Longrightarrow> a + w \<le> b \<or> b + w \<le> a \<Longrightarrow>
      take w (drop a (take b ws @ vs @ drop (b + w) ws)) = take w (drop a ws)"
proof -
  show "take w (drop b (take b ws @ vs @ drop (b + w) ws)) = vs" using assms by simp
  assume a: "a + w \<le> length ws" "a + w \<le> b \<or> b + w \<le> a"
  show "take w (drop a (take b ws @ vs @ drop (b + w) ws)) = take w (drop a ws)"
  proof (rule nth_equalityI)
    fix i assume "i < length (take w (drop a (take b ws @ vs @ drop (b + w) ws)))"
    then have i: "i < w" by (simp only: length_take min_less_iff_conj)
    have "(take b ws @ vs @ drop (b + w) ws) ! (a + i) = ws ! (a + i)"
    proof (cases "a + w \<le> b")
      case False
      then have "b + w \<le> a" using a(2) by simp
      then have "\<not> a + i < b" "\<not> a + i - b < w" "b + w + (a + i - b - w) = a + i" by simp_all
      then show ?thesis using assms by (simp add: nth_append)
    qed (use i assms in \<open>simp add: nth_append\<close>)
    then show "take w (drop a (take b ws @ vs @ drop (b + w) ws)) ! i = take w (drop a ws) ! i"
      using i a(1) assms by (simp del: take_append drop_append)
  qed (use assms a(1) in \<open>simp del: take_append drop_append\<close>)
qed

lemma bm_row_put_row:
  assumes "bm_ok m" and "r < num_rows m" and "length vs = num_words (num_columns m)" and "r' < num_rows m"
  shows "bm_row (put_row m r vs) r' = (if r' = r then (bm_row m r)\<lparr>words := vs\<rparr> else bm_row m r')"
proof -
  let ?w = "num_words (num_columns m)"
  have r: "r * ?w + ?w \<le> length (bm_words m)" "r' * ?w + ?w \<le> length (bm_words m)"
    using assms row_range by (auto simp: bm_ok_def)
  have "take ?w (drop (r' * ?w) (take (r * ?w) (bm_words m) @ vs @ drop (r * ?w + ?w) (bm_words m))) =
      (if r' = r then vs else take ?w (drop (r' * ?w) (bm_words m)))"
    using take_drop_splice [OF assms(3) r(1)] r(2) rows_disjoint [of r' r ?w] by simp
  then show ?thesis by (simp add: bm_row_def put_row_def Let_def)
qed

lemma row_returns_put_row:
  assumes "bm_ok m" and "r < num_rows m" and "res = Some (put_row m r (words s'), b)"
    and "bs_ok s'" and "domain_size s' = num_columns m" and "bs_elems s' = X"
  shows "row_returns m r res X b"
proof -
  have len: "length (words s') = num_words (num_columns m)" using assms(4,5) by (simp add: bs_ok_def)
  have "(bm_row m r)\<lparr>words := words s'\<rparr> = s'" using assms(5) by (cases s') (simp add: bm_row_def Let_def)
  then have row: "bm_row (put_row m r (words s')) r' = (if r' = r then s' else bm_row m r')" if "r' < num_rows m" for r'
    using bm_row_put_row [OF assms(1,2) len that] by simp
  have "length (bm_words (put_row m r (words s'))) = num_rows m * num_words (num_columns m)"
    using assms(1,2) len row_range [of r "num_rows m" "num_words (num_columns m)"] by (simp add: put_row_def Let_def bm_ok_def)
  then show ?thesis
    using assms row unfolding row_returns_def by (intro exI [of _ "put_row m r (words s')"]) (auto simp: bm_ok_def)
qed

lemma list_update_splice:
  assumes "b + w \<le> length ws" and "k < w"
  shows "ws[b + k := v] = take b ws @ (take w (drop b ws))[k := v] @ drop (b + w) ws"
proof -
  have split: "ws = take b ws @ take w (drop b ws) @ drop (b + w) ws"
    by (metis append_take_drop_id drop_drop add.commute)
  have "(take b ws @ X @ Y)[b + k := v] = take b ws @ X[k := v] @ Y" if "k < length X" for X Y
    using that assms(1) by (simp add: list_update_append)
  from this [of "take w (drop b ws)" "drop (b + w) ws"] show ?thesis using split assms by simp
qed

lemma update_row:
  assumes "bm_ok m" and "r < num_rows m" and "k < num_words (num_columns m)"
  shows "m\<lparr>bm_words := (bm_words m)[r * num_words (num_columns m) + k := v]\<rparr> =
    put_row m r ((words (bm_row m r))[k := v])"
proof -
  let ?w = "num_words (num_columns m)"
  have "r * ?w + ?w \<le> length (bm_words m)" using assms(1,2) row_range by (auto simp: bm_ok_def)
  from list_update_splice [OF this assms(3)] show ?thesis by (simp add: put_row_def Let_def bm_row_words)
qed

subsection \<open>The loops\<close>

lemma zip_upt_step:
  assumes "zip [b..<b + n] [a..<a + n] = bef @ x # aft"
  shows "length bef < n" and "x = (b + length bef, a + length bef)"
proof -
  have len: "length (zip [b..<b + n] [a..<a + n]) = n" by simp
  then show k: "length bef < n" unfolding assms by simp
  have "x = zip [b..<b + n] [a..<a + n] ! length bef" unfolding assms by simp
  then show "x = (b + length bef, a + length bef)" using k by simp
qed

text \<open>
  Reading the cells from \<open>b\<close> on gives the words \<open>vs\<close>, as long as the words before \<open>a\<close>
  and those the loop has not reached are intact.
\<close>

definition reads_run :: "(word64 list \<Rightarrow> nat \<Rightarrow> word64 option) \<Rightarrow> nat \<Rightarrow> word64 list \<Rightarrow> nat \<Rightarrow> word64 list \<Rightarrow> bool" where
  "reads_run read b ws a vs \<longleftrightarrow>
     (\<forall>k<length vs. \<forall>ws'. length ws' = length ws \<longrightarrow>
        (\<forall>i<length ws. \<not> (a \<le> i \<and> i < a + k) \<longrightarrow> ws' ! i = ws ! i) \<longrightarrow> read ws' (b + k) = Some (vs ! k))"

lemma union_cells_nth:
  assumes "a + n \<le> length ws" and "length vs = n"
    and read: "reads_run read b ws a vs"
  shows "\<exists>ws'. for_loop (union_cell read) (zip [b..<b + n] [a..<a + n]) (ws, False) =
      Some (ws', \<exists>j<n. ws ! (a + j) OR vs ! j \<noteq> ws ! (a + j)) \<and> length ws' = length ws \<and>
      (\<forall>i<length ws. ws' ! i = (if a \<le> i \<and> i < a + n then ws ! i OR vs ! (i - a) else ws ! i))"
proof -
  let ?new = "\<lambda>k i. if a \<le> i \<and> i < a + k then ws ! i OR vs ! (i - a) else ws ! i"
  let ?I = "\<lambda>bef (ws', ch). length ws' = length ws \<and> (\<forall>i<length ws. ws' ! i = ?new (length bef) i) \<and>
    ch = (\<exists>j<length bef. ws ! (a + j) OR vs ! j \<noteq> ws ! (a + j))"
  let ?z = "zip [b..<b + n] [a..<a + n]"
  have "\<exists>r. for_loop (union_cell read) ?z (ws, False) = Some r \<and> ?I ?z r"
  proof (rule for_loop_invariant)
    fix bef x aft r assume split: "?z = bef @ x # aft" and I: "?I bef r"
    let ?k = "length bef"
    note x = zip_upt_step [OF split]
    obtain ws' ch where r: "r = (ws', ch)" by (cases r)
    have ws': "length ws' = length ws" "\<And>i. i < length ws \<Longrightarrow> ws' ! i = ?new ?k i"
        "ch = (\<exists>j<?k. ws ! (a + j) OR vs ! j \<noteq> ws ! (a + j))"
      using I by (simp_all add: r)
    have k: "a + ?k < length ws" using x(1) assms(1) by simp
    have "read ws' (b + ?k) = Some (vs ! ?k)" using read x(1) ws'(1,2) assms(2) by (simp add: reads_run_def)
    moreover have "ws' ! (a + ?k) = ws ! (a + ?k)" using ws'(2) [OF k] by simp
    ultimately have "union_cell read x r =
        Some (ws'[a + ?k := ws ! (a + ?k) OR vs ! ?k], ch \<or> ws ! (a + ?k) \<noteq> ws ! (a + ?k) OR vs ! ?k)"
      using k ws'(1) by (simp add: union_cell_def Let_def r x(2))
    moreover have "ws'[a + ?k := ws ! (a + ?k) OR vs ! ?k] ! i = ?new (Suc ?k) i" if "i < length ws" for i
      using ws'(2) [OF that] that ws'(1) by (cases "i = a + ?k") auto
    moreover have "(ch \<or> ws ! (a + ?k) \<noteq> ws ! (a + ?k) OR vs ! ?k) =
        (\<exists>j<Suc ?k. ws ! (a + j) OR vs ! j \<noteq> ws ! (a + j))"
      using ws'(3) by (auto simp: less_Suc_eq)
    ultimately show "\<exists>r'. union_cell read x r = Some r' \<and> ?I (bef @ [x]) r'" using ws'(1) by simp
  qed auto
  then show ?thesis by auto
qed

lemma union_cells:
  assumes "a + n \<le> length ws" and "length vs = n"
    and "reads_run read b ws a vs"
  shows "for_loop (union_cell read) (zip [b..<b + n] [a..<a + n]) (ws, False) =
    Some (take a ws @ map2 (OR) (take n (drop a ws)) vs @ drop (a + n) ws,
      map2 (OR) (take n (drop a ws)) vs \<noteq> take n (drop a ws))"
proof -
  obtain ws' where ws': "for_loop (union_cell read) (zip [b..<b + n] [a..<a + n]) (ws, False) =
      Some (ws', \<exists>j<n. ws ! (a + j) OR vs ! j \<noteq> ws ! (a + j))" "length ws' = length ws"
      "\<And>i. i < length ws \<Longrightarrow> ws' ! i = (if a \<le> i \<and> i < a + n then ws ! i OR vs ! (i - a) else ws ! i)"
    using union_cells_nth [OF assms] by blast
  have "ws' = take a ws @ map2 (OR) (take n (drop a ws)) vs @ drop (a + n) ws"
  proof (rule nth_equalityI)
    fix i assume "i < length ws'"
    then show "ws' ! i = (take a ws @ map2 (OR) (take n (drop a ws)) vs @ drop (a + n) ws) ! i"
      using ws'(2,3) assms(1,2) by (auto simp: nth_append)
  qed (use ws'(2) assms(1,2) in simp)
  moreover have "(\<exists>j<n. ws ! (a + j) OR vs ! j \<noteq> ws ! (a + j)) = (map2 (OR) (take n (drop a ws)) vs \<noteq> take n (drop a ws))"
    using assms(1,2) by (auto simp: list_eq_iff_nth_eq)
  ultimately show ?thesis using ws'(1) by simp
qed

lemma fill_cells:
  "a + n \<le> length ws \<Longrightarrow>
    for_loop (\<lambda>index ws. idx_set ws index v) [a..<a + n] ws = Some (take a ws @ replicate n v @ drop (a + n) ws)"
proof (induction n arbitrary: a ws)
  case (Suc n)
  have "[a..<a + Suc n] = a # [Suc a..<Suc a + n]" by (simp add: upt_rec)
  moreover have "for_loop (\<lambda>index ws. idx_set ws index v) [Suc a..<Suc a + n] (ws[a := v]) =
      Some (take (Suc a) (ws[a := v]) @ replicate n v @ drop (Suc a + n) (ws[a := v]))"
    using Suc.IH [of "Suc a" "ws[a := v]"] Suc.prems by simp
  moreover have "take (Suc a) (ws[a := v]) = take a ws @ [v]"
    using Suc.prems by (simp add: take_Suc_conv_app_nth)
  ultimately show ?case using Suc.prems by simp
qed simp

lemma clear_excess_after_prefix:
  assumes "length vs = num_words d"
  shows "clear_excess_bits_in_final_word d (us @ vs) = map_option ((@) us) (clear_excess_bits_in_final_word d vs)"
proof (cases "d mod 64 = 0")
  case False
  then have "vs \<noteq> []" using assms by (auto simp: num_words_div)
  then obtain vs' v where "vs = vs' @ [v]" by (cases vs rule: rev_cases) auto
  then show ?thesis
    using False by (simp add: clear_excess_bits_in_final_word_def WORD_BITS_def Let_def nth_append list_update_append)
qed (simp add: clear_excess_bits_in_final_word_def WORD_BITS_def)

lemma intersect_bits_eq:
  "k \<le> 64 \<Longrightarrow> intersect_bits [k..<64] base (drop_bit k v) result =
     result @ map (\<lambda>b. base * 64 + b) (filter (bit v) [k..<64])"
proof (induction "64 - k" arbitrary: k result)
  case (Suc n)
  then have k: "k < 64" and upt: "[k..<64] = k # [Suc k..<64]" by (auto simp: upt_rec)
  have shift: "drop_bit 1 (drop_bit k v) = drop_bit (Suc k) v" by simp
  have low: "drop_bit k v AND 0x1 \<noteq> 0 \<longleftrightarrow> bit v k"
    by (simp add: and_one_eq bit_iff_odd_drop_bit odd_iff_mod_2_eq_one)
  show ?case
  proof (cases "drop_bit k v = 0")
    case True
    have "bit v i \<longleftrightarrow> bit (drop_bit k v) (i - k)" if "k \<le> i" for i using that by (simp add: bit_drop_bit_eq)
    then have "\<not> bit v i" if "k \<le> i" for i using that True by simp
    then show ?thesis using True by (simp add: upt filter_empty_conv)
  next
    case False
    then show ?thesis using Suc.hyps(1) [of "Suc k"] Suc.hyps(2) k low shift unfolding upt by (simp add: WORD_BITS_def)
  qed
qed simp

lemma bm_intersect_loop:
  "for_loop (\<lambda>(base, (i, j)) result. do {
       x \<leftarrow> idx ws i; y \<leftarrow> idx ws j;
       Some (intersect_bits [0..<WORD_BITS] base (x AND y) result)
     }) (enumerate o1 (zip [a..<a + n] [b..<b + n])) result =
     Some (result @ bit_list (64 * o1) (map2 (AND) (take n (drop a ws)) (take n (drop b ws))))"
  if "a + n \<le> length ws" and "b + n \<le> length ws"
  using that
proof (induction n arbitrary: a b o1 result)
  case (Suc n)
  have upt: "[a..<a + Suc n] = a # [Suc a..<Suc a + n]" "[b..<b + Suc n] = b # [Suc b..<Suc b + n]"
    by (simp_all add: upt_rec)
  have drop: "take (Suc n) (drop a ws) = ws ! a # take n (drop (Suc a) ws)"
      "take (Suc n) (drop b ws) = ws ! b # take n (drop (Suc b) ws)"
    using Suc.prems by (simp_all add: Cons_nth_drop_Suc [symmetric])
  have "intersect_bits [0..<WORD_BITS] o1 v result = result @ map ((+) (64 * o1)) (filter (bit v) [0..<64])" for v
    using intersect_bits_eq [of 0 o1 v result] by (simp add: WORD_BITS_def mult.commute [of o1])
  then show ?case
    using Suc.IH [of "Suc a" "Suc b"] Suc.prems unfolding upt drop by (simp add: add.commute)
qed simp

subsection \<open>Row by row\<close>

lemma bm_ok_row: "bm_ok m \<Longrightarrow> r < num_rows m \<Longrightarrow> bs_ok (bm_row m r) \<and>
    r * num_words (num_columns m) + num_words (num_columns m) \<le> length (bm_words m) \<and>
    length (words (bm_row m r)) = num_words (num_columns m)"
  using row_range [of r "num_rows m" "num_words (num_columns m)"] by (auto simp: bm_ok_def bs_ok_def)

lemma bm_insert_row:
  assumes "bm_ok m" and "r < num_rows m" and "c < num_columns m"
  shows "row_returns m r (bm_insert m r c) (insert c (bs_elems (bm_row m r))) (c \<notin> bs_elems (bm_row m r))"
proof -
  let ?s = "bm_row m r"
  have row: "bs_ok ?s" "c < domain_size ?s" using assms bm_ok_row by auto
  have k: "c div 64 < num_words (num_columns m)" using assms(3) by (rule num_words_less)
  obtain s' where s': "insert_elem ?s c = Some (s', c \<notin> bs_elems ?s)" "bs_ok s'" "domain_size s' = domain_size ?s"
      "bs_elems s' = insert c (bs_elems ?s)"
    using bs_insert_elem [OF row] by (auto simp: returns_def)
  have "bm_insert m r c = map_option (map_prod (\<lambda>s. put_row m r (words s)) id) (insert_elem ?s c)"
    using assms k bm_row_nth [OF assms(1,2) k] bs_ok_words [OF row] update_row [OF assms(1,2) k]
    by (simp add: bm_insert_def insert_elem_def Let_def) auto
  then show ?thesis using s' by (intro row_returns_put_row [OF assms(1,2) _ s'(2)]) simp_all
qed

lemma bm_union_row:
  assumes "bm_ok m" and "r < num_rows m" and "bs_ok t" and "domain_size t = num_columns m"
  shows "row_returns m r (Some (put_row m r (map2 (OR) (words (bm_row m r)) (words t)),
      map2 (OR) (words (bm_row m r)) (words t) \<noteq> words (bm_row m r)))
    (bs_elems (bm_row m r) \<union> bs_elems t) (\<not> bs_elems t \<subseteq> bs_elems (bm_row m r))"
proof -
  let ?s = "bm_row m r"
  have row: "bs_ok ?s" "length (words ?s) = length (words t)" using assms bm_ok_row by (auto simp: bs_ok_def)
  obtain s' where s': "union ?s t = Some (s', \<not> bs_elems t \<subseteq> bs_elems ?s)" "bs_ok s'" "domain_size s' = domain_size ?s"
      "bs_elems s' = bs_elems ?s \<union> bs_elems t"
    using bs_relations(1) [OF row(1) assms(3)] assms(4) by (auto simp: returns_def Un_absorb2 subset_Un_eq Un_commute)
  moreover from this(1) have "words s' = map2 (OR) (words ?s) (words t)"
      "(\<not> bs_elems t \<subseteq> bs_elems ?s) = (map2 (OR) (words ?s) (words t) \<noteq> words ?s)"
    using row(2) assms(4) by (auto simp: union_def relate_def bitwise_Some)
  ultimately show ?thesis by (intro row_returns_put_row [OF assms(1,2) _ s'(2)]) simp_all
qed

lemma bm_union_rows_row:
  assumes "bm_ok m" and "read < num_rows m" and "write < num_rows m"
  shows "row_returns m write (bm_union_rows m read write)
    (bs_elems (bm_row m write) \<union> bs_elems (bm_row m read)) (\<not> bs_elems (bm_row m read) \<subseteq> bs_elems (bm_row m write))"
proof -
  let ?w = "num_words (num_columns m)" and ?ws = "bm_words m"
  have len: "write * ?w + ?w \<le> length ?ws" "read * ?w + ?w \<le> length ?ws" "length (words (bm_row m read)) = ?w"
    using assms bm_ok_row by auto
  have "reads_run idx (read * ?w) ?ws (write * ?w) (words (bm_row m read))"
    unfolding reads_run_def len(3)
  proof (intro allI impI)
    fix k ws' assume k: "k < ?w" and ws': "length ws' = length ?ws"
      "\<forall>i<length ?ws. \<not> (write * ?w \<le> i \<and> i < write * ?w + k) \<longrightarrow> ws' ! i = ?ws ! i"
    have "\<not> (write * ?w \<le> read * ?w + k \<and> read * ?w + k < write * ?w + k)"
      using k rows_disjoint [of read "write" ?w] by (cases "read = write") (simp, linarith)
    then show "idx ws' (read * ?w + k) = Some (words (bm_row m read) ! k)"
      using ws' bm_row_nth [OF assms(1,2) k] by simp
  qed
  then have "bm_union_rows m read write = Some (put_row m write (map2 (OR) (words (bm_row m write)) (words (bm_row m read))),
      map2 (OR) (words (bm_row m write)) (words (bm_row m read)) \<noteq> words (bm_row m write))"
    using assms(2,3) union_cells [OF len(1,3)] by (simp add: bm_union_rows_def put_row_def Let_def bm_row_words)
  then show ?thesis using bm_union_row [OF assms(1,3)] bm_ok_row [OF assms(1,2)] by simp
qed

lemma bm_union_row_with_row:
  assumes "bm_ok m" and "r < num_rows m" and "bs_ok t" and "domain_size t = num_columns m"
  shows "row_returns m r (bm_union_row_with m t r)
    (bs_elems (bm_row m r) \<union> bs_elems t) (\<not> bs_elems t \<subseteq> bs_elems (bm_row m r))"
proof -
  let ?w = "num_words (num_columns m)"
  have len: "r * ?w + ?w \<le> length (bm_words m)" "length (words t) = ?w" using assms bm_ok_row by (auto simp: bs_ok_def)
  have "reads_run (\<lambda>_. idx (words t)) 0 (bm_words m) (r * ?w) (words t)" by (simp add: reads_run_def)
  from union_cells [OF len this] have "bm_union_row_with m t r =
      Some (put_row m r (map2 (OR) (words (bm_row m r)) (words t)), map2 (OR) (words (bm_row m r)) (words t) \<noteq> words (bm_row m r))"
    using assms(2,4) len(2) by (simp add: bm_union_row_with_def put_row_def Let_def bm_row_words)
  then show ?thesis using bm_union_row [OF assms] by simp
qed

lemma bm_insert_all_row:
  assumes "bm_ok m" and "r < num_rows m"
  shows "row_returns m r (map_option (\<lambda>m'. (m', ())) (bm_insert_all_into_row m r)) {..<num_columns m} ()"
proof -
  let ?w = "num_words (num_columns m)" and ?s = "bm_row m r"
  have row: "bs_ok ?s" "r * ?w + ?w \<le> length (bm_words m)" "length (words ?s) = ?w" using assms bm_ok_row by auto
  obtain s' where s': "insert_all ?s = Some s'" "bs_ok s'" "domain_size s' = num_columns m" "bs_elems s' = {..<num_columns m}"
    using bs_insert_all [OF row(1)] by auto
  from s'(1) have cl: "clear_excess_bits_in_final_word (num_columns m) (replicate ?w (- 1)) = Some (words s')"
    using row(3) unfolding insert_all_def clear_excess_bits_def by (auto simp: map_replicate_const bind_eq_Some_conv)
  let ?ws = "take (r * ?w) (bm_words m) @ replicate ?w (- 1) @ drop (r * ?w + ?w) (bm_words m)"
  have "slice_of ?ws 0 (r * ?w + ?w) = Some (take (r * ?w) (bm_words m) @ replicate ?w (- 1))"
      "drop (r * ?w + ?w) ?ws = drop (r * ?w + ?w) (bm_words m)"
    using row(2) by simp_all
  moreover have "clear_excess_bits_in_final_word (num_columns m) (take (r * ?w) (bm_words m) @ replicate ?w (- 1)) =
      Some (take (r * ?w) (bm_words m) @ words s')"
    using clear_excess_after_prefix [of "replicate ?w (- 1)" "num_columns m"] cl by simp
  ultimately have "bm_insert_all_into_row m r = Some (put_row m r (words s'))"
    using assms(2) fill_cells [OF row(2), of "- 1"] by (simp add: bm_insert_all_into_row_def put_row_def Let_def del: drop_append)
  then show ?thesis by (intro row_returns_put_row [OF assms _ s'(2-4)]) simp
qed

text \<open>
  The operations that change a row of a well-formed matrix change that row only, as
  the operation on the row's set says, and report whether it changed: \<open>insert\<close>,
  \<open>union_rows\<close> (also of a row with itself, where the words read are the words written),
  \<open>union_row_with\<close>, \<open>insert_all_into_row\<close>.
\<close>

theorem bit_matrix_updates:
  assumes "bm_ok m" and "r < num_rows m" and "read < num_rows m" and "c < num_columns m"
    and "bs_ok t" and "domain_size t = num_columns m"
  shows "row_returns m r (bm_insert m r c) (insert c (bs_elems (bm_row m r))) (c \<notin> bs_elems (bm_row m r)) \<and>
    row_returns m r (bm_union_rows m read r) (bs_elems (bm_row m r) \<union> bs_elems (bm_row m read))
      (\<not> bs_elems (bm_row m read) \<subseteq> bs_elems (bm_row m r)) \<and>
    row_returns m r (bm_union_row_with m t r) (bs_elems (bm_row m r) \<union> bs_elems t) (\<not> bs_elems t \<subseteq> bs_elems (bm_row m r)) \<and>
    row_returns m r (map_option (\<lambda>m'. (m', ())) (bm_insert_all_into_row m r)) {..<num_columns m} ()"
  using bm_insert_row [OF assms(1,2,4)] bm_union_rows_row [OF assms(1,3,2)] bm_union_row_with_row [OF assms(1,2,5,6)]
    bm_insert_all_row [OF assms(1,2)] by blast

lemma take_drop_concat_replicate:
  "i < n \<Longrightarrow> take (length xs) (drop (i * length xs) (concat (replicate n xs))) = xs"
proof (induction n arbitrary: i)
  case (Suc n)
  then show ?case by (cases i) simp_all
qed simp

lemma bm_from_row_n_rows:
  assumes "bs_ok t"
  shows "\<exists>m. bm_from_row_n t n = Some m \<and> bm_ok m \<and> num_rows m = n \<and> (\<forall>i<n. bm_row m i = t)"
proof -
  let ?m = "\<lparr>num_rows = n, num_columns = domain_size t, bm_words = concat (replicate n (words t))\<rparr>"
  have len: "length (words t) = num_words (domain_size t)" using assms by (simp add: bs_ok_def)
  then have "bm_row ?m i = t" if "i < n" for i
    using take_drop_concat_replicate [OF that, of "words t"] by (cases t) (simp add: bm_row_def Let_def)
  moreover have "length (concat (replicate n (words t))) = n * num_words (domain_size t)"
    using len by (simp add: length_concat sum_list_replicate)
  ultimately show ?thesis using assms len by (auto simp: bm_from_row_n_def bm_ok_def)
qed

lemma bm_new_ok:
  assumes "cs < 2 ^ 64"
  shows "bm_ok (bm_new rs cs)" and "r < rs \<Longrightarrow> bs_elems (bm_row (bm_new rs cs) r) = {}"
proof -
  have "words (bm_row (bm_new rs cs) r) = replicate (num_words cs) 0" if "r < rs" for r
    using row_range [OF that, of "num_words cs"] by (simp add: bm_row_words bm_new_def Let_def)
  then have "bm_row (bm_new rs cs) r = new_empty cs" if "r < rs" for r
    using that by (simp add: bm_row_def Let_def new_empty_def bm_new_def)
  then show "bm_ok (bm_new rs cs)" "r < rs \<Longrightarrow> bs_elems (bm_row (bm_new rs cs) r) = {}"
    using bs_new_empty [OF assms] by (auto simp: bm_ok_def bm_new_def Let_def)
qed

theorem bit_matrix_updates_witness:
  "let m = bm_new 3 70 in bm_ok m \<and> bs_ok (new_empty 70) \<and>
     row_returns m 1 (bm_insert m 1 65) {65} True \<and> row_returns m 1 (bm_union_rows m 1 1) {} False \<and>
     row_returns m 1 (map_option (\<lambda>m'. (m', ())) (bm_insert_all_into_row m 1)) {..<70} ()"
proof -
  have m: "bm_ok (bm_new 3 70)" "bs_elems (bm_row (bm_new 3 70) 1) = {}" "num_rows (bm_new 3 70) = 3" "num_columns (bm_new 3 70) = 70"
    using bm_new_ok(1) [of 70 3] bm_new_ok(2) [of 70 1 3] by (simp_all add: bm_new_def Let_def)
  have t: "bs_ok (new_empty 70)" "domain_size (new_empty 70) = 70" using bs_new_empty [of 70] by (simp_all add: new_empty_def)
  show ?thesis using bit_matrix_updates [OF m(1), of 1 1 65 "new_empty 70"] m t by (simp add: Let_def)
qed

lemma bm_contains_row:
  assumes "bm_ok m" and "r < num_rows m" and "c < num_columns m"
  shows "bm_contains m r c = Some (c \<in> bs_elems (bm_row m r))"
proof -
  have "c div 64 < num_words (num_columns m)" using assms(3) by (rule num_words_less)
  then show ?thesis
    using assms(2,3) bm_row_nth [OF assms(1,2)] bs_mem_word [of "bm_row m r" c] bm_ok_row [OF assms(1,2)]
    by (simp add: bm_contains_def and_exp64)
qed

lemma bm_row_slice:
  assumes "bm_ok m" and "r < num_rows m"
  shows "slice_of (bm_words m) (r * num_words (num_columns m)) (r * num_words (num_columns m) + num_words (num_columns m)) =
    Some (words (bm_row m r))"
  using bm_ok_row [OF assms] by (simp add: bm_row_words)

lemma bm_iter_row:
  assumes "bm_ok m" and "r < num_rows m"
  shows "bm_iter m r = Some (sorted_list_of_set (bs_elems (bm_row m r)))"
  using assms(2) bm_row_slice [OF assms] bs_iter.iter_elems [of "bm_row m r"] bm_ok_row [OF assms]
  by (simp add: bm_iter_def iter_def)

lemma bm_intersect_rows_row:
  assumes "bm_ok m" and "r < num_rows m" and "r2 < num_rows m"
  shows "bm_intersect_rows m r r2 = Some (sorted_list_of_set (bs_elems (bm_row m r) \<inter> bs_elems (bm_row m r2)))"
proof -
  have row: "r * num_words (num_columns m) + num_words (num_columns m) \<le> length (bm_words m)"
    "r2 * num_words (num_columns m) + num_words (num_columns m) \<le> length (bm_words m)"
    "length (words (bm_row m r)) = length (words (bm_row m r2))"
    using bm_ok_row assms by auto
  then show ?thesis
    using assms(2,3) bm_intersect_loop [OF row(1,2), of 0 "[]"] words_set_map2(2) [of "words (bm_row m r)" "words (bm_row m r2)"]
    by (simp add: bm_intersect_rows_def bm_row_words bs_elems_def bit_list_sorted)
qed

text \<open>
  The queries of a well-formed matrix return what the rows hold: \<open>contains\<close> tests the
  cell, \<open>iter\<close> lists the columns of a row in increasing order, \<open>count\<close> counts them, and
  \<open>intersect_rows\<close> lists the columns two rows share, in increasing order; the matrix made
  from a set by \<open>from_row_n\<close> has that set in every row.
\<close>

theorem bit_matrix_queries:
  assumes "bm_ok m" and "r < num_rows m" and "r2 < num_rows m" and "c < num_columns m" and "bs_ok t"
  shows "bm_contains m r c = Some (c \<in> bs_elems (bm_row m r)) \<and>
    bm_iter m r = Some (sorted_list_of_set (bs_elems (bm_row m r))) \<and>
    bm_count m r = Some (card (bs_elems (bm_row m r))) \<and>
    bm_intersect_rows m r r2 = Some (sorted_list_of_set (bs_elems (bm_row m r) \<inter> bs_elems (bm_row m r2))) \<and>
    (\<exists>m'. bm_from_row_n t n = Some m' \<and> bm_ok m' \<and> num_rows m' = n \<and> (\<forall>i<n. bm_row m' i = t))"
proof (intro conjI)
  show "bm_count m r = Some (card (bs_elems (bm_row m r)))"
    using bm_row_slice [OF assms(1,2)] bs_count [of "bm_row m r"] bm_ok_row [OF assms(1,2)] by (simp add: bm_count_def count_def)
qed (use assms in \<open>simp_all add: bm_contains_row bm_iter_row bm_intersect_rows_row bm_from_row_n_rows\<close>)

theorem bit_matrix_queries_witness:
  "let m = bm_new 2 70 in bm_ok m \<and> bm_contains m 1 65 = Some False \<and> bm_iter m 1 = Some [] \<and>
     bm_intersect_rows m 0 1 = Some [] \<and> (\<exists>m'. bm_from_row_n (new_empty 70) 4 = Some m' \<and> num_rows m' = 4)"
proof -
  have m: "bm_ok (bm_new 2 70)" "\<And>r. r < 2 \<Longrightarrow> bs_elems (bm_row (bm_new 2 70) r) = {}"
      "num_rows (bm_new 2 70) = 2" "num_columns (bm_new 2 70) = 70"
    using bm_new_ok [of 70] by (simp_all add: bm_new_def Let_def)
  note q = bit_matrix_queries [OF m(1) _ _ _ bs_new_empty [THEN conjunct1, of 70], where n = 4]
  show ?thesis using q [of 1 0 65] q [of 0 1 65] m by (auto simp: Let_def)
qed

end
