(* ===== verification/Index_Vec.thy ===== *)
theory Index_Vec
  imports Set_Interface
begin

text \<open>
  The operations of \<open>IndexVec\<close> and \<open>IndexSlice\<close> (\<open>rustc_index/src/vec.rs\<close>,
  \<open>rustc_index/src/slice.rs\<close>) that do more than forward to a \<open>Vec\<close>: growing to an
  element, the map-like operations on vectors of options, \<open>pick2_mut\<close> and
  \<open>invert_bijective_mapping\<close>. A mutable reference that is returned is the value it points
  to; the caller writes it back.

  The locale \<open>sparse_rows\<close> is the contract between the two sparse matrices of the
  library and the kind of set they keep in a row.
\<close>

subsection \<open>Operations\<close>

definition ensure_contains_elem :: "'a list \<Rightarrow> nat \<Rightarrow> 'a \<Rightarrow> 'a list" where
  "ensure_contains_elem self elem fill_value =
     (let min_new_len = elem + 1 in
      if length self < min_new_len then self @ replicate (min_new_len - length self) fill_value else self)"

text \<open>The vector after \<open>insert\<close>, and the value that was replaced.\<close>

definition iv_insert :: "'a option list \<Rightarrow> nat \<Rightarrow> 'a \<Rightarrow> 'a option list \<times> 'a option" where
  "iv_insert self index value =
     (let self = ensure_contains_elem self index None in (self[index := Some value], self ! index))"

definition get_or_insert_with :: "'a option list \<Rightarrow> nat \<Rightarrow> 'a \<Rightarrow> 'a option list \<times> 'a" where
  "get_or_insert_with self index value =
     (let self = ensure_contains_elem self index None in
      case self ! index of
        Some x \<Rightarrow> (self, x)
      | None \<Rightarrow> (self[index := Some value], value))"

definition iv_remove :: "'a option list \<Rightarrow> nat \<Rightarrow> 'a option list \<times> 'a option" where
  "iv_remove self index =
     (case idx self index of None \<Rightarrow> (self, None) | Some x \<Rightarrow> (self[index := None], x))"

function pick2_mut :: "'a list \<Rightarrow> nat \<Rightarrow> nat \<Rightarrow> ('a \<times> 'a) option" where
  "pick2_mut self ai bi =
     (if ai = bi then None
      else if ai < bi then
        do {
          rassert (bi \<le> length self);
          let (c1, c2) = (take bi self, drop bi self);
          x \<leftarrow> idx c1 ai;
          y \<leftarrow> idx c2 0;
          Some (x, y)
        }
      else (case pick2_mut self bi ai of None \<Rightarrow> None | Some (c2, c1) \<Rightarrow> Some (c1, c2)))"
  by pat_completeness auto
termination
  by (relation "measure (\<lambda>(v, a, b). if a < b then 0 else 1)") auto

declare pick2_mut.simps [simp del]

definition invert_bijective_mapping :: "nat list \<Rightarrow> nat list option" where
  "invert_bijective_mapping self = do {
     rassert (sum_list self = sum_list [0..<length self]);
     inverse \<leftarrow> for_loop (\<lambda>(i1, i2) inverse. idx_set inverse i2 i1) (enumerate 0 self) (replicate (length self) 0);
     rassert (sum_list inverse = sum_list [0..<length inverse]);
     Some inverse
   }"

subsection \<open>Growing and picking\<close>

lemma ensure_contains_elem:
  "i < length (ensure_contains_elem v i d)"
  "length v \<le> length (ensure_contains_elem v i d)"
  "j < length (ensure_contains_elem v i d) \<Longrightarrow> ensure_contains_elem v i d ! j = (if j < length v then v ! j else d)"
  by (auto simp: ensure_contains_elem_def nth_append)

lemma pick2_mut_Some:
  assumes "a \<noteq> b" and "a < length v" and "b < length v"
  shows "pick2_mut v a b = Some (v ! a, v ! b)"
proof (cases "a < b")
  case True
  then show ?thesis using assms by (simp add: pick2_mut.simps [of v a b])
next
  case False
  then have "b < a" using assms(1) by simp
  then show ?thesis using assms by (simp add: pick2_mut.simps [of v a b] pick2_mut.simps [of v b a])
qed

lemma sum_list_permutation:
  assumes "set v = {..<length v}"
  shows "distinct v" and "sum_list v = sum_list [0..<length v]"
proof -
  show "distinct v" using assms by (simp add: card_distinct)
  then have "sum_list v = \<Sum>{..<length v}" using assms by (simp add: distinct_sum_list_conv_Sum)
  also have "\<dots> = sum_list [0..<length v]" by (simp add: distinct_sum_list_conv_Sum lessThan_atLeast0)
  finally show "sum_list v = sum_list [0..<length v]" .
qed

lemma invert_loop:
  assumes "distinct v" and "set v \<subseteq> {..<n}"
  shows "\<exists>w. for_loop (\<lambda>(i1, i2) inverse. idx_set inverse i2 i1) (enumerate 0 v) (replicate n 0) = Some w \<and>
    length w = n \<and> (\<forall>x<length v. w ! (v ! x) = x)"
proof -
  let ?I = "\<lambda>before w. length w = n \<and> (\<forall>x<length before. w ! (v ! x) = x)"
  have "\<exists>w. for_loop (\<lambda>(i1, i2) inverse. idx_set inverse i2 i1) (enumerate 0 v) (replicate n 0) = Some w \<and> ?I (enumerate 0 v) w"
  proof (rule for_loop_invariant)
    fix before x after w assume split: "enumerate 0 v = before @ x # after" and I: "?I before w"
    let ?k = "length before"
    have k: "?k < length v" using arg_cong [OF split, of length] by simp
    then have x: "x = (?k, v ! ?k)" using arg_cong [OF split, of "\<lambda>l. l ! ?k"] by (simp add: nth_enumerate_eq)
    have vk: "v ! ?k < n" using assms(2) k nth_mem by blast
    have "w[v ! ?k := ?k] ! (v ! y) = y" if "y < Suc ?k" for y
    proof (cases "y = ?k")
      case False
      then have "v ! y \<noteq> v ! ?k" using that k assms(1) by (simp add: nth_eq_iff_index_eq)
      then show ?thesis using False that I by simp
    qed (use vk I in simp)
    then show "\<exists>w'. (case x of (i1, i2) \<Rightarrow> \<lambda>inverse. idx_set inverse i2 i1) w = Some w' \<and> ?I (before @ [x]) w'"
      using vk I by (simp add: x)
  qed simp
  then show ?thesis by simp
qed

lemma invert_bijective:
  assumes "set v = {..<length v}"
  shows "\<exists>w. invert_bijective_mapping v = Some w \<and> length w = length v \<and> set w = {..<length v} \<and>
    (\<forall>x<length v. w ! (v ! x) = x \<and> v ! (w ! x) = x)"
proof -
  note v = sum_list_permutation [OF assms]
  obtain w where w: "for_loop (\<lambda>(i1, i2) inverse. idx_set inverse i2 i1) (enumerate 0 v) (replicate (length v) 0) = Some w"
      "length w = length v" "\<And>x. x < length v \<Longrightarrow> w ! (v ! x) = x"
    using invert_loop [OF v(1), of "length v"] assms by blast
  have inv: "w ! y < length v \<and> v ! (w ! y) = y" if "y < length v" for y
  proof -
    have "y \<in> set v" unfolding assms using that by simp
    then obtain x where "x < length v" "v ! x = y" unfolding in_set_conv_nth by blast
    then show ?thesis using w(3) [of x] by simp
  qed
  have "set w = {..<length v}"
  proof (intro equalityI subsetI)
    fix y assume "y \<in> set w"
    then show "y \<in> {..<length v}" using inv w(2) by (auto simp: in_set_conv_nth)
  next
    fix x assume "x \<in> {..<length v}"
    then have "v ! x < length w" "w ! (v ! x) = x" using w(2,3) nth_mem [of x v] unfolding assms by auto
    then show "x \<in> set w" using nth_mem by force
  qed
  moreover from this have "sum_list w = sum_list [0..<length w]" using sum_list_permutation(2) [of w] w(2) by simp
  ultimately show ?thesis using v(2) w inv by (simp add: invert_bijective_mapping_def)
qed

subsection \<open>Sparse rows\<close>

text \<open>
  A vector of optional rows; a row that is missing or past the end stands for the empty
  set. \<open>wf_set\<close>, \<open>dsize\<close> and \<open>elems\<close> are the invariant, the domain and the contents of
  the sets kept in the rows, \<open>mk_empty\<close> makes an empty one over a domain below \<open>limit\<close>.
\<close>

definition row_at :: "'s option list \<Rightarrow> nat \<Rightarrow> 's option" where
  "row_at v r = (if r < length v then v ! r else None)"

definition row_elems :: "('s \<Rightarrow> nat set) \<Rightarrow> 's option list \<Rightarrow> nat \<Rightarrow> nat set" where
  "row_elems elems v r = (case row_at v r of None \<Rightarrow> {} | Some s \<Rightarrow> elems s)"

definition rows_ok :: "('s \<Rightarrow> nat) \<Rightarrow> ('s \<Rightarrow> bool) \<Rightarrow> nat \<Rightarrow> 's option list \<Rightarrow> bool" where
  "rows_ok dsize wf_set n v \<longleftrightarrow> (\<forall>s. Some s \<in> set v \<longrightarrow> wf_set s \<and> dsize s = n)"

lemma row_at_update: "r < length v \<Longrightarrow> row_at (v[r := x]) r' = (if r' = r then x else row_at v r')"
  by (auto simp: row_at_def)

lemma rows_ok_update:
  "rows_ok dsize wf_set n v \<Longrightarrow> wf_set s \<Longrightarrow> dsize s = n \<Longrightarrow> rows_ok dsize wf_set n (v[r := Some s])"
  using set_update_subset_insert [of v r "Some s"] by (auto simp: rows_ok_def)

lemma row_at_ok: "rows_ok dsize wf_set n v \<Longrightarrow> row_at v r = Some s \<Longrightarrow> wf_set s \<and> dsize s = n"
  by (auto simp: rows_ok_def row_at_def split: if_splits) (metis nth_mem)+

text \<open>
  What an operation on row \<open>r\<close> of such a vector leaves: rows that are still well-formed,
  of which only row \<open>r\<close> differs, and that one holds \<open>X\<close>.
\<close>

definition row_result ::
  "('s \<Rightarrow> nat) \<Rightarrow> ('s \<Rightarrow> bool) \<Rightarrow> ('s \<Rightarrow> nat set) \<Rightarrow> nat \<Rightarrow> 's option list \<Rightarrow> nat \<Rightarrow> 's option list \<Rightarrow> nat set \<Rightarrow> bool" where
  "row_result dsize wf_set elems n v r v' X \<longleftrightarrow>
     rows_ok dsize wf_set n v' \<and> row_elems elems v' r = X \<and>
     (\<forall>r'. r' \<noteq> r \<longrightarrow> row_elems elems v' r' = row_elems elems v r')"

lemma row_result_update:
  assumes "rows_ok dsize wf_set n v" and "r < length v" and "wf_set s" and "dsize s = n"
  shows "row_result dsize wf_set elems n v r (v[r := Some s]) (elems s)"
  using assms by (simp add: row_result_def rows_ok_update row_elems_def row_at_update)

locale sparse_rows = index_set dsize elems wf_set
  for dsize :: "'s \<Rightarrow> nat" and elems :: "'s \<Rightarrow> nat set" and wf_set :: "'s \<Rightarrow> bool" +
  fixes mk_empty :: "nat \<Rightarrow> 's" and limit :: nat
  assumes mk_empty: "n < limit \<Longrightarrow> wf_set (mk_empty n) \<and> dsize (mk_empty n) = n \<and> elems (mk_empty n) = {}"
begin

lemma get_or_insert_row:
  assumes "rows_ok dsize wf_set n v" and "n < limit"
  obtains v' s where "get_or_insert_with v r (mk_empty n) = (v', s)" "rows_ok dsize wf_set n v'" "wf_set s" "dsize s = n"
    "elems s = row_elems elems v r" "r < length v'" "v' ! r = Some s" "length v \<le> length v'"
    "\<And>r'. r' \<noteq> r \<Longrightarrow> row_at v' r' = row_at v r'"
proof -
  let ?v = "ensure_contains_elem v r None"
  note ens = ensure_contains_elem(1,2) [where v = v and i = r and d = None]
    ensure_contains_elem(3) [where v = v and i = r and d = None]
  have at: "row_at ?v r' = row_at v r'" for r'
    using ens(2,3) by (auto simp: row_at_def)
  have ok: "rows_ok dsize wf_set n ?v" using assms(1) by (auto simp: rows_ok_def ensure_contains_elem_def)
  have at_r: "row_at ?v r = ?v ! r" using ens(1) by (simp add: row_at_def)
  show thesis
  proof (cases "?v ! r")
    case None
    have e: "wf_set (mk_empty n)" "dsize (mk_empty n) = n" "elems (mk_empty n) = {}"
      using mk_empty [OF assms(2)] by auto
    then show thesis
      using None at at_r ens(1,2) rows_ok_update [where s = "mk_empty n", OF ok e(1,2)]
      by (intro that [of "?v[r := Some (mk_empty n)]" "mk_empty n"])
        (auto simp: get_or_insert_with_def row_at_update row_elems_def split: option.splits)
  next
    case (Some s)
    then show thesis
      using at at_r ens(1,2) ok row_at_ok [OF ok, of r s]
      by (intro that [of ?v s]) (auto simp: get_or_insert_with_def row_elems_def)
  qed
qed

text \<open>An operation that makes the row if it is missing and then updates it in place.\<close>

lemma update_ensured_row:
  assumes "rows_ok dsize wf_set n v" and "n < limit"
    and "\<And>s. wf_set s \<Longrightarrow> dsize s = n \<Longrightarrow> elems s = row_elems elems v r \<Longrightarrow> returns dsize elems wf_set s (f s) X b"
  shows "\<exists>v' s s'. get_or_insert_with v r (mk_empty n) = (v', s) \<and> f s = Some (s', b) \<and>
    row_result dsize wf_set elems n v r (v'[r := Some s']) X"
proof -
  obtain v' s where g: "get_or_insert_with v r (mk_empty n) = (v', s)" "rows_ok dsize wf_set n v'" "wf_set s" "dsize s = n"
      "elems s = row_elems elems v r" "r < length v'" "\<And>r'. r' \<noteq> r \<Longrightarrow> row_at v' r' = row_at v r'"
    using get_or_insert_row [OF assms(1,2), of r] by metis
  obtain s' where s': "f s = Some (s', b)" "wf_set s'" "dsize s' = dsize s" "elems s' = X"
    using assms(3) [OF g(3-5)] by (rule returnsE)
  have "row_result dsize wf_set elems n v' r (v'[r := Some s']) X"
    using row_result_update [OF g(2,6) s'(2), where elems = elems] s'(3,4) g(4) by simp
  then have "row_result dsize wf_set elems n v r (v'[r := Some s']) X"
    using g(7) by (simp add: row_result_def row_elems_def)
  then show ?thesis using g(1) s'(1) by blast
qed

end

end
