(* ===== verification/Sparse_Bit_Matrix.thy ===== *)
theory Sparse_Bit_Matrix
  imports Hybrid_Props Index_Vec
begin

text \<open>
  \<open>SparseBitMatrix\<close> of \<open>rustc_index/src/bit_set.rs\<close>: a vector of optional hybrid sets.
  The operations that take a generic \<open>Set\<close> with \<open>HybridBitSet: BitRelations<Set>\<close> get the
  relation of that instance as an argument.
\<close>

subsection \<open>Operations\<close>

record sparse_bit_matrix =
  sm_num_columns :: nat
  sm_rows :: "hybrid_bit_set option list"

definition sm_new :: "nat \<Rightarrow> sparse_bit_matrix" where
  "sm_new cs = \<lparr>sm_num_columns = cs, sm_rows = []\<rparr>"

definition sm_ensure_row :: "sparse_bit_matrix \<Rightarrow> nat \<Rightarrow> sparse_bit_matrix \<times> hybrid_bit_set" where
  "sm_ensure_row self row =
     (let (rows, s) = get_or_insert_with (sm_rows self) row (hy_new_empty (sm_num_columns self))
      in (self\<lparr>sm_rows := rows\<rparr>, s))"

text \<open>Writing back through the reference to a row.\<close>

definition set_row :: "sparse_bit_matrix \<Rightarrow> nat \<Rightarrow> hybrid_bit_set \<Rightarrow> sparse_bit_matrix" where
  "set_row self row s = self\<lparr>sm_rows := (sm_rows self)[row := Some s]\<rparr>"

definition sm_row :: "sparse_bit_matrix \<Rightarrow> nat \<Rightarrow> hybrid_bit_set option" where
  "sm_row self row = do { r \<leftarrow> idx (sm_rows self) row; r }"

definition sm_insert :: "sparse_bit_matrix \<Rightarrow> nat \<Rightarrow> nat \<Rightarrow> (sparse_bit_matrix \<times> bool) option" where
  "sm_insert self row column = do {
     let (self, s) = sm_ensure_row self row;
     (s, changed) \<leftarrow> hy_insert s column;
     Some (set_row self row s, changed)
   }"

text \<open>The match on \<open>self.rows.get_mut(row)\<close>, with no effect when the row does not exist.\<close>

definition on_row ::
  "(hybrid_bit_set \<Rightarrow> (hybrid_bit_set \<times> bool) option) \<Rightarrow> sparse_bit_matrix \<Rightarrow> nat \<Rightarrow> (sparse_bit_matrix \<times> bool) option" where
  "on_row f self row =
     (case idx (sm_rows self) row of
        Some (Some s) \<Rightarrow> do { (s, changed) \<leftarrow> f s; Some (set_row self row s, changed) }
      | _ \<Rightarrow> Some (self, False))"

definition sm_remove :: "sparse_bit_matrix \<Rightarrow> nat \<Rightarrow> nat \<Rightarrow> (sparse_bit_matrix \<times> bool) option" where
  "sm_remove self row column = on_row (\<lambda>s. hy_remove s column) self row"

definition sm_clear :: "sparse_bit_matrix \<Rightarrow> nat \<Rightarrow> sparse_bit_matrix" where
  "sm_clear self row =
     (case idx (sm_rows self) row of
        Some (Some s) \<Rightarrow> set_row self row (hy_clear s)
      | _ \<Rightarrow> self)"

definition sm_contains :: "sparse_bit_matrix \<Rightarrow> nat \<Rightarrow> nat \<Rightarrow> bool option" where
  "sm_contains self row column =
     (case sm_row self row of None \<Rightarrow> Some False | Some r \<Rightarrow> hy_contains r column)"

definition sm_union_rows :: "sparse_bit_matrix \<Rightarrow> nat \<Rightarrow> nat \<Rightarrow> (sparse_bit_matrix \<times> bool) option" where
  "sm_union_rows self read write =
     (if read = write \<or> sm_row self read = None then Some (self, False)
      else do {
        let (self, _) = sm_ensure_row self write;
        rows \<leftarrow> pick2_mut (sm_rows self) read write;
        case rows of
          (Some read_row, Some write_row) \<Rightarrow> do {
            (s, changed) \<leftarrow> hy_union write_row read_row;
            Some (set_row self write s, changed)
          }
        | _ \<Rightarrow> None
      })"

definition sm_insert_all_into_row :: "sparse_bit_matrix \<Rightarrow> nat \<Rightarrow> sparse_bit_matrix option" where
  "sm_insert_all_into_row self row = do {
     let (self, s) = sm_ensure_row self row;
     s \<leftarrow> hy_insert_all s;
     Some (set_row self row s)
   }"

definition sm_row_indices :: "sparse_bit_matrix \<Rightarrow> nat list" where
  "sm_row_indices self = [0..<length (sm_rows self)]"

definition sm_iter :: "sparse_bit_matrix \<Rightarrow> nat \<Rightarrow> nat list" where
  "sm_iter self row = (case sm_row self row of None \<Rightarrow> [] | Some r \<Rightarrow> hy_iter r)"

definition sm_intersect_row ::
  "(hybrid_bit_set \<Rightarrow> 's \<Rightarrow> (hybrid_bit_set \<times> bool) option) \<Rightarrow> sparse_bit_matrix \<Rightarrow> nat \<Rightarrow> 's \<Rightarrow> (sparse_bit_matrix \<times> bool) option" where
  "sm_intersect_row rel_intersect self row set' = on_row (\<lambda>r. rel_intersect r set') self row"

definition sm_subtract_row ::
  "(hybrid_bit_set \<Rightarrow> 's \<Rightarrow> (hybrid_bit_set \<times> bool) option) \<Rightarrow> sparse_bit_matrix \<Rightarrow> nat \<Rightarrow> 's \<Rightarrow> (sparse_bit_matrix \<times> bool) option" where
  "sm_subtract_row rel_subtract self row set' = on_row (\<lambda>r. rel_subtract r set') self row"

definition sm_union_row ::
  "(hybrid_bit_set \<Rightarrow> 's \<Rightarrow> (hybrid_bit_set \<times> bool) option) \<Rightarrow> sparse_bit_matrix \<Rightarrow> nat \<Rightarrow> 's \<Rightarrow> (sparse_bit_matrix \<times> bool) option" where
  "sm_union_row rel_union self row set' = do {
     let (self, s) = sm_ensure_row self row;
     (s, changed) \<leftarrow> rel_union s set';
     Some (set_row self row s, changed)
   }"

subsection \<open>The rows as sets\<close>

interpretation sm: sparse_rows hy_domain_size hy_elems hy_ok hy_new_empty "2 ^ 64"
  by unfold_locales (use sp_new_empty_ok in \<open>auto simp: hy_new_empty_def sp_new_empty_def\<close>)

definition sm_ok :: "sparse_bit_matrix \<Rightarrow> bool" where
  "sm_ok m \<longleftrightarrow> sm_num_columns m < 2 ^ 64 \<and> rows_ok hy_domain_size hy_ok (sm_num_columns m) (sm_rows m)"

definition sm_elems :: "sparse_bit_matrix \<Rightarrow> nat \<Rightarrow> nat set" where
  "sm_elems m r = row_elems hy_elems (sm_rows m) r"

definition sm_returns :: "sparse_bit_matrix \<Rightarrow> nat \<Rightarrow> (sparse_bit_matrix \<times> 'r) option \<Rightarrow> nat set \<Rightarrow> 'r \<Rightarrow> bool" where
  "sm_returns m r res X b \<longleftrightarrow>
     (\<exists>m'. res = Some (m', b) \<and> sm_ok m' \<and> sm_num_columns m' = sm_num_columns m \<and> sm_elems m' r = X \<and>
       (\<forall>r'. r' \<noteq> r \<longrightarrow> sm_elems m' r' = sm_elems m r'))"

lemma sm_returnsI:
  assumes "row_result hy_domain_size hy_ok hy_elems (sm_num_columns m) (sm_rows m) r v X"
    and "res = Some (m\<lparr>sm_rows := v\<rparr>, b)" and "sm_ok m"
  shows "sm_returns m r res X b"
  using assms by (auto simp: sm_returns_def row_result_def sm_ok_def sm_elems_def)

lemma sm_row_at: "sm_row m r = row_at (sm_rows m) r"
  by (auto simp: sm_row_def row_at_def idx_def)

lemma sm_elems_row: "sm_elems m r = (case sm_row m r of None \<Rightarrow> {} | Some s \<Rightarrow> hy_elems s)"
  by (simp add: sm_elems_def row_elems_def sm_row_at)

lemma sm_row_ok: "sm_ok m \<Longrightarrow> sm_row m r = Some s \<Longrightarrow> hy_ok s \<and> hy_domain_size s = sm_num_columns m"
  using row_at_ok [of hy_domain_size hy_ok] by (auto simp: sm_ok_def sm_row_at)

lemma sm_update_row:
  assumes "sm_ok m"
    and f: "\<And>s. hy_ok s \<Longrightarrow> hy_domain_size s = sm_num_columns m \<Longrightarrow> hy_elems s = sm_elems m r \<Longrightarrow> hy_returns s (f s) X b"
  shows "sm_returns m r (case sm_ensure_row m r of (m', s) \<Rightarrow> f s \<bind> (\<lambda>(s', c). Some (set_row m' r s', c))) X b"
proof -
  obtain v s s' where v: "get_or_insert_with (sm_rows m) r (hy_new_empty (sm_num_columns m)) = (v, s)" "f s = Some (s', b)"
      "row_result hy_domain_size hy_ok hy_elems (sm_num_columns m) (sm_rows m) r (v[r := Some s']) X"
    using sm.update_ensured_row [of "sm_num_columns m" "sm_rows m" r f X b] assms by (auto simp: sm_ok_def sm_elems_def)
  show ?thesis by (rule sm_returnsI [OF v(3) _ assms(1)]) (simp add: sm_ensure_row_def v(1,2) set_row_def)
qed

lemma sm_on_row:
  assumes "sm_ok m"
    and f: "\<And>s. hy_ok s \<Longrightarrow> hy_domain_size s = sm_num_columns m \<Longrightarrow> hy_elems s = sm_elems m r \<Longrightarrow> hy_returns s (f s) X b"
    and "sm_elems m r = {} \<Longrightarrow> X = {} \<and> \<not> b"
  shows "sm_returns m r (on_row f m r) X b"
proof (cases "sm_row m r")
  case None
  then have "on_row f m r = Some (m, False)"
    by (auto simp: on_row_def sm_row_def idx_def split: if_splits option.splits)
  moreover have "sm_elems m r = {}" using None by (simp add: sm_elems_row)
  ultimately show ?thesis using assms(1,3) by (auto simp: sm_returns_def)
next
  case (Some s)
  then have r: "r < length (sm_rows m)" "sm_rows m ! r = Some s" by (auto simp: sm_row_at row_at_def split: if_splits)
  have s: "hy_ok s" "hy_domain_size s = sm_num_columns m" "hy_elems s = sm_elems m r"
    using sm_row_ok [OF assms(1) Some] Some by (simp_all add: sm_elems_row)
  obtain s' where s': "f s = Some (s', b)" "hy_ok s'" "hy_domain_size s' = hy_domain_size s" "hy_elems s' = X"
    using f [OF s] by (rule returnsE)
  have "row_result hy_domain_size hy_ok hy_elems (sm_num_columns m) (sm_rows m) r ((sm_rows m)[r := Some s']) X"
    using row_result_update [of hy_domain_size hy_ok _ "sm_rows m" r s' hy_elems] r assms(1) s' s(2) by (simp add: sm_ok_def)
  then show ?thesis using r s'(1) by (intro sm_returnsI [OF _ _ assms(1)]) (auto simp: on_row_def set_row_def)
qed

lemma sm_union_rows_returns:
  assumes "sm_ok m" and "0 < sm_num_columns m"
  shows "sm_returns m r (sm_union_rows m read r) (sm_elems m r \<union> sm_elems m read) (\<not> sm_elems m read \<subseteq> sm_elems m r)"
proof (cases "read = r \<or> sm_row m read = None")
  case True
  then have "sm_elems m read \<subseteq> sm_elems m r" by (auto simp: sm_elems_row)
  then show ?thesis using True assms(1) by (auto simp: sm_returns_def sm_union_rows_def)
next
  case False
  then obtain t where t: "sm_row m read = Some t" and ne: "read \<noteq> r" by auto
  have tok: "hy_ok t" "hy_domain_size t = sm_num_columns m" "hy_elems t = sm_elems m read"
    using sm_row_ok [OF assms(1) t] t by (simp_all add: sm_elems_row)
  have ok: "rows_ok hy_domain_size hy_ok (sm_num_columns m) (sm_rows m)" "sm_num_columns m < 2 ^ 64"
    using assms(1) by (simp_all add: sm_ok_def)
  obtain v s where v: "get_or_insert_with (sm_rows m) r (hy_new_empty (sm_num_columns m)) = (v, s)" "length (sm_rows m) \<le> length v"
      "r < length v" "v ! r = Some s" "\<And>r'. r' \<noteq> r \<Longrightarrow> row_at v r' = row_at (sm_rows m) r'"
    using sm.get_or_insert_row [OF ok, of r] by metis
  have "read < length (sm_rows m)" using t by (auto simp: sm_row_at row_at_def split: if_splits)
  then have "read < length v" "v ! read = Some t"
    using v(2) v(5) [OF ne] t by (auto simp: sm_row_at row_at_def)
  then have pick: "pick2_mut v read r = Some (Some t, Some s)" using pick2_mut_Some [of read r v] v(3,4) ne by simp
  have "sm_returns m r (case sm_ensure_row m r of (m', s) \<Rightarrow> hy_union s t \<bind> (\<lambda>(s', c). Some (set_row m' r s', c)))
      (sm_elems m r \<union> sm_elems m read) (\<not> sm_elems m read \<subseteq> sm_elems m r)"
  proof (rule sm_update_row [OF assms(1)])
    fix u assume "hy_ok u" "hy_domain_size u = sm_num_columns m" "hy_elems u = sm_elems m r"
    then show "hy_returns u (hy_union u t) (sm_elems m r \<union> sm_elems m read) (\<not> sm_elems m read \<subseteq> sm_elems m r)"
      using hybrid_hybrid_relations(1) [of u t] tok assms(2) by (simp add: Un_absorb2 subset_Un_eq Un_commute)
  qed
  then show ?thesis using t ne pick by (simp add: sm_union_rows_def sm_ensure_row_def v(1) Let_def)
qed

lemma sm_relation_rows:
  assumes "sm_ok m" and "hy_ok t" and "hy_domain_size t = sm_num_columns m" and "0 < sm_num_columns m"
  shows "sm_returns m r (sm_union_row hy_union m r t) (sm_elems m r \<union> hy_elems t) (sm_elems m r \<union> hy_elems t \<noteq> sm_elems m r)"
    and "sm_returns m r (sm_subtract_row hy_subtract m r t) (sm_elems m r - hy_elems t) (sm_elems m r - hy_elems t \<noteq> sm_elems m r)"
    and "sm_returns m r (sm_intersect_row hy_intersect m r t) (sm_elems m r \<inter> hy_elems t) (sm_elems m r \<inter> hy_elems t \<noteq> sm_elems m r)"
proof -
  note rel = hybrid_hybrid_relations [OF _ assms(2)]
  show "sm_returns m r (sm_union_row hy_union m r t) (sm_elems m r \<union> hy_elems t) (sm_elems m r \<union> hy_elems t \<noteq> sm_elems m r)"
    unfolding sm_union_row_def Let_def by (rule sm_update_row [OF assms(1)]) (use rel(1) assms(3,4) in fastforce)
  show "sm_returns m r (sm_subtract_row hy_subtract m r t) (sm_elems m r - hy_elems t) (sm_elems m r - hy_elems t \<noteq> sm_elems m r)"
    unfolding sm_subtract_row_def by (rule sm_on_row [OF assms(1)]) (use rel(2) assms(3) in fastforce)+
  show "sm_returns m r (sm_intersect_row hy_intersect m r t) (sm_elems m r \<inter> hy_elems t) (sm_elems m r \<inter> hy_elems t \<noteq> sm_elems m r)"
    unfolding sm_intersect_row_def by (rule sm_on_row [OF assms(1)]) (use rel(3) assms(3) in fastforce)+
qed

lemma sm_clear_row:
  assumes "sm_ok m"
  shows "sm_returns m r (Some (sm_clear m r, ())) {} ()"
proof -
  have "on_row (\<lambda>s. Some (hy_clear s, False)) m r = Some (sm_clear m r, False)"
    by (simp add: on_row_def sm_clear_def split: option.split)
  moreover have "sm_returns m r (on_row (\<lambda>s. Some (hy_clear s, False)) m r) {} False"
    by (rule sm_on_row [OF assms]) (simp_all add: returns_def hy_clear)
  ultimately show ?thesis by (simp add: sm_returns_def)
qed

lemma sm_insert_all_row:
  assumes "sm_ok m"
  shows "sm_returns m r (map_option (\<lambda>m'. (m', ())) (sm_insert_all_into_row m r)) {..<sm_num_columns m} ()"
proof -
  let ?f = "\<lambda>s. map_option (\<lambda>s'. (s', ())) (hy_insert_all s)"
  have "sm_returns m r (case sm_ensure_row m r of (m', s) \<Rightarrow> ?f s \<bind> (\<lambda>(s', c). Some (set_row m' r s', c))) {..<sm_num_columns m} ()"
  proof (rule sm_update_row [OF assms])
    fix s assume "hy_ok s" "hy_domain_size s = sm_num_columns m" "hy_elems s = sm_elems m r"
    then show "hy_returns s (?f s) {..<sm_num_columns m} ()" using hy_insert_all [of s] by (auto simp: returns_def)
  qed
  moreover have "map_option (\<lambda>m'. (m', ())) (sm_insert_all_into_row m r) =
      (case sm_ensure_row m r of (m', s) \<Rightarrow> ?f s \<bind> (\<lambda>(s', c). Some (set_row m' r s', c)))"
    by (cases "sm_ensure_row m r"; cases "hy_insert_all (snd (sm_ensure_row m r))")
      (simp_all add: sm_insert_all_into_row_def)
  ultimately show ?thesis by simp
qed

lemma sm_queries:
  assumes "sm_ok m" and "c < sm_num_columns m"
  shows "sm_contains m r c = Some (c \<in> sm_elems m r)" and "sm_iter m r = sorted_list_of_set (sm_elems m r)"
  using sm_row_ok [OF assms(1), of r] assms(2) hy_contains.contains_elem hy_iter.iter_elems
  by (auto simp: sm_contains_def sm_iter_def sm_elems_row split: option.split)

text \<open>
  C32: a sparse bit matrix behaves as a family of sets, one per row, empty until touched.
  Each operation on a row of a well-formed matrix with at least one column returns,
  changes that row only, as the set operation says, and reports whether the row changed:
  insertion, removal, the union of two rows (also of a row with itself or with a row that
  does not exist), the three relations with a hybrid set, clearing and filling.
\<close>

theorem sparse_matrix_operations:
  assumes "sm_ok m" and "c < sm_num_columns m" and "hy_ok t" and "hy_domain_size t = sm_num_columns m"
  shows "sm_returns m r (sm_insert m r c) (insert c (sm_elems m r)) (c \<notin> sm_elems m r) \<and>
    sm_returns m r (sm_remove m r c) (sm_elems m r - {c}) (c \<in> sm_elems m r) \<and>
    sm_returns m r (sm_union_rows m read r) (sm_elems m r \<union> sm_elems m read) (\<not> sm_elems m read \<subseteq> sm_elems m r) \<and>
    sm_returns m r (sm_union_row hy_union m r t) (sm_elems m r \<union> hy_elems t) (sm_elems m r \<union> hy_elems t \<noteq> sm_elems m r) \<and>
    sm_returns m r (sm_subtract_row hy_subtract m r t) (sm_elems m r - hy_elems t) (sm_elems m r - hy_elems t \<noteq> sm_elems m r) \<and>
    sm_returns m r (sm_intersect_row hy_intersect m r t) (sm_elems m r \<inter> hy_elems t) (sm_elems m r \<inter> hy_elems t \<noteq> sm_elems m r) \<and>
    sm_returns m r (Some (sm_clear m r, ())) {} () \<and>
    sm_returns m r (map_option (\<lambda>m'. (m', ())) (sm_insert_all_into_row m r)) {..<sm_num_columns m} () \<and>
    sm_contains m r c = Some (c \<in> sm_elems m r) \<and> sm_iter m r = sorted_list_of_set (sm_elems m r)"
proof -
  have pos: "0 < sm_num_columns m" using assms(2) by simp
  have ins: "sm_returns m r (sm_insert m r c) (insert c (sm_elems m r)) (c \<notin> sm_elems m r)"
    unfolding sm_insert_def Let_def by (rule sm_update_row [OF assms(1)]) (use hy_insert_elem assms(2) in fastforce)
  have rem: "sm_returns m r (sm_remove m r c) (sm_elems m r - {c}) (c \<in> sm_elems m r)"
    unfolding sm_remove_def by (rule sm_on_row [OF assms(1)]) (use hy_remove_elem assms(2) in fastforce)+
  from ins rem sm_union_rows_returns [OF assms(1) pos] sm_relation_rows [OF assms(1,3,4) pos] sm_clear_row [OF assms(1)]
    sm_insert_all_row [OF assms(1)] sm_queries [OF assms(1,2)]
  show ?thesis by blast
qed

theorem sparse_matrix_operations_witness:
  "sm_ok (sm_new 70) \<and> hy_ok (hy_new_empty 70) \<and> sm_returns (sm_new 70) 5 (sm_insert (sm_new 70) 5 65) {65} True \<and>
   sm_returns (sm_new 70) 5 (sm_remove (sm_new 70) 5 65) {} False"
proof -
  have m: "sm_ok (sm_new 70)" "sm_num_columns (sm_new 70) = 70" "sm_elems (sm_new 70) 5 = {}"
    by (simp_all add: sm_ok_def sm_new_def rows_ok_def sm_elems_def row_elems_def row_at_def)
  have t: "hy_ok (hy_new_empty 70)" "hy_domain_size (hy_new_empty 70) = 70" using sm.mk_empty [of 70] by simp_all
  show ?thesis using sparse_matrix_operations [OF m(1) _ t(1), of 65 5] m t by simp
qed

end
