(* ===== verification/Finite_Bit_Set.thy ===== *)
theory Finite_Bit_Set
  imports Index_Base "HOL-Library.Word"
begin

text \<open>
  \<open>FiniteBitSet\<close> of \<open>rustc_index/src/bit_set.rs\<close>: a set kept in one machine integer. The
  trait \<open>FiniteBitSetTy\<close> has the instances \<open>u32\<close>, \<open>u64\<close> and \<open>u128\<close>, which differ in the
  width only; the model is over a word of any width, and the width is the type's
  \<open>DOMAIN_SIZE\<close>.
\<close>

unbundle bit_operations_syntax

subsection \<open>The integer types\<close>

definition DOMAIN_SIZE :: "'w::len word \<Rightarrow> nat" where
  "DOMAIN_SIZE _ = LENGTH('w)"

definition FILLED :: "'w::len word" where "FILLED = - 1"

definition EMPTY :: "'w::len word" where "EMPTY = 0"

text \<open>The checked shifts: \<open>None\<close> when the shift amount is not below the width.\<close>

definition checked_shl :: "'w::len word \<Rightarrow> nat \<Rightarrow> 'w word option" where
  "checked_shl x rhs = (if rhs < LENGTH('w) then Some (push_bit rhs x) else None)"

definition checked_shr :: "'w::len word \<Rightarrow> nat \<Rightarrow> 'w word option" where
  "checked_shr x rhs = (if rhs < LENGTH('w) then Some (drop_bit rhs x) else None)"

definition unwrap_or :: "'a option \<Rightarrow> 'a \<Rightarrow> 'a" where
  "unwrap_or x d = (case x of None \<Rightarrow> d | Some y \<Rightarrow> y)"

subsection \<open>Operations\<close>

text \<open>The tuple struct has one field, so a value is that field.\<close>

type_synonym 'w finite_bit_set = "'w word"

definition fb_new_empty :: "'w::len finite_bit_set" where
  "fb_new_empty = EMPTY"

definition fb_set :: "'w::len finite_bit_set \<Rightarrow> nat \<Rightarrow> 'w finite_bit_set" where
  "fb_set self index = self OR unwrap_or (checked_shl 1 index) 0"

definition fb_clear :: "'w::len finite_bit_set \<Rightarrow> nat \<Rightarrow> 'w finite_bit_set" where
  "fb_clear self index = self AND NOT (unwrap_or (checked_shl 1 index) 0)"

definition fb_set_range :: "'w::len finite_bit_set \<Rightarrow> nat \<Rightarrow> nat \<Rightarrow> 'w finite_bit_set option" where
  "fb_set_range self start end_index = do {
     len \<leftarrow> checked_sub end_index start;
     let bits = unwrap_or (checked_shl (NOT (unwrap_or (checked_shl FILLED len) 0)) start) 0;
     Some (self OR bits)
   }"

definition fb_is_empty :: "'w::len finite_bit_set \<Rightarrow> bool" where
  "fb_is_empty self \<longleftrightarrow> self = EMPTY"

definition fb_within_domain :: "'w::len finite_bit_set \<Rightarrow> nat \<Rightarrow> bool" where
  "fb_within_domain self index \<longleftrightarrow> index < DOMAIN_SIZE self"

definition fb_contains :: "'w::len finite_bit_set \<Rightarrow> nat \<Rightarrow> bool option" where
  "fb_contains self index =
     (if fb_within_domain self index
      then Some (unwrap_or (checked_shr (self) index) 1 AND 1 = 1) else None)"

subsection \<open>What the operations do\<close>

definition fb_elems :: "'w::len finite_bit_set \<Rightarrow> nat set" where
  "fb_elems s = {i. bit s i}"

lemma bit_shl_one: "bit (unwrap_or (checked_shl (1 :: 'w::len word) k) 0) i \<longleftrightarrow> i = k \<and> k < LENGTH('w)"
  by (auto simp: checked_shl_def unwrap_or_def bit_exp_iff)

lemma bit_range_mask:
  "bit (unwrap_or (checked_shl (NOT (unwrap_or (checked_shl (FILLED :: 'w::len word) n) 0)) a) 0) i \<longleftrightarrow>
     a \<le> i \<and> i < a + n \<and> i < LENGTH('w)"
proof -
  have m: "bit (NOT (unwrap_or (checked_shl (FILLED :: 'w word) n) 0)) j \<longleftrightarrow> j < n \<and> j < LENGTH('w)" for j
    by (auto simp: checked_shl_def unwrap_or_def FILLED_def bit_not_iff bit_mask_iff)
  have shl: "bit (unwrap_or (checked_shl x a) 0) i \<longleftrightarrow> a \<le> i \<and> i < LENGTH('w) \<and> bit x (i - a)" for x :: "'w word"
    by (auto simp: checked_shl_def unwrap_or_def bit_push_bit_iff)
  show ?thesis unfolding shl m by auto
qed

lemma fb_elems_in_domain: "fb_elems (s :: 'w::len finite_bit_set) \<subseteq> {..<LENGTH('w)}"
  using bit_imp_le_length by (auto simp: fb_elems_def)

text \<open>
  C33: for an integer type of any width, a \<open>FiniteBitSet\<close> is a set of indices below the
  width. Setting, clearing and setting a range change exactly the indices named and
  ignore those past the width, also where the shift amounts reach the width; \<open>contains\<close>
  answers below the width and returns \<open>None\<close> past it; a range whose end lies before its
  start panics.
\<close>

theorem finite_set_operations:
  fixes s :: "'w::len finite_bit_set"
  shows "fb_elems (fb_new_empty :: 'w finite_bit_set) = {} \<and>
    fb_elems (fb_set s i) = fb_elems s \<union> ({i} \<inter> {..<LENGTH('w)}) \<and>
    fb_elems (fb_clear s i) = fb_elems s - {i} \<and>
    map_option fb_elems (fb_set_range s a b) =
      (if b < a then None else Some (fb_elems s \<union> ({a..<b} \<inter> {..<LENGTH('w)}))) \<and>
    fb_contains s i = (if i < LENGTH('w) then Some (i \<in> fb_elems s) else None) \<and>
    fb_is_empty s = (fb_elems s = {})"
proof (intro conjI)
  show "fb_elems (fb_new_empty :: 'w finite_bit_set) = {}" by (simp add: fb_elems_def fb_new_empty_def EMPTY_def)
  show "fb_elems (fb_set s i) = fb_elems s \<union> ({i} \<inter> {..<LENGTH('w)})"
    by (auto simp: fb_elems_def fb_set_def bit_or_iff bit_shl_one)
  show "fb_elems (fb_clear s i) = fb_elems s - {i}"
    using bit_imp_le_length [of s] by (auto simp: fb_elems_def fb_clear_def bit_and_iff bit_not_iff bit_shl_one)
  show "map_option fb_elems (fb_set_range s a b) =
      (if b < a then None else Some (fb_elems s \<union> ({a..<b} \<inter> {..<LENGTH('w)})))"
  proof (cases "b < a")
    case False
    then have "fb_elems (s OR
        unwrap_or (checked_shl (NOT (unwrap_or (checked_shl FILLED (b - a)) 0)) a) 0) =
        fb_elems s \<union> ({a..<b} \<inter> {..<LENGTH('w)})"
      by (auto simp: fb_elems_def bit_or_iff bit_range_mask)
    then show ?thesis using False by (simp add: fb_set_range_def Let_def)
  qed (simp add: fb_set_range_def)
  show "fb_contains s i = (if i < LENGTH('w) then Some (i \<in> fb_elems s) else None)"
    by (simp add: fb_contains_def fb_within_domain_def DOMAIN_SIZE_def checked_shr_def unwrap_or_def fb_elems_def
        and_one_eq bit_iff_odd_drop_bit odd_iff_mod_2_eq_one)
  show "fb_is_empty s = (fb_elems s = {})"
    using bit_imp_le_length [of s] by (auto simp: fb_is_empty_def EMPTY_def fb_elems_def bit_eq_iff)
qed

end
