(* ===== verification/Interval_Set.thy ===== *)
theory Interval_Set
  imports Bit_Set_Props Index_Vec
begin

text \<open>
  \<open>IntervalSet\<close> of \<open>rustc_index/src/interval.rs\<close>: a set of indices as a sorted vector of
  non-adjacent closed intervals with \<open>u32\<close> ends. The casts \<open>as u32\<close> and the \<open>u32\<close> sums
  are written with their wrap-around; over a domain below \<open>2 ^ 32\<close> no sum of a
  well-formed set wraps, so that a build with overflow checks does the same.
\<close>

subsection \<open>Operations\<close>

record interval_set =
  iv_map :: "(nat \<times> nat) list"
  iv_domain :: nat

definition add_u32 :: "nat \<Rightarrow> nat \<Rightarrow> nat" where
  "add_u32 a b = (a + b) mod 2 ^ 32"

fun inclusive_start :: "range_bounds \<Rightarrow> nat" where
  "inclusive_start (Included start, _) = as_u32 start"
| "inclusive_start (Excluded start, _) = add_u32 (as_u32 start) 1"
| "inclusive_start (Unbounded, _) = 0"

fun inclusive_end :: "nat \<Rightarrow> range_bounds \<Rightarrow> nat option" where
  "inclusive_end domain (_, Included e) = Some (as_u32 e)"
| "inclusive_end domain (_, Excluded e) = map_option as_u32 (checked_sub e 1)"
| "inclusive_end domain (_, Unbounded) = map_option as_u32 (checked_sub domain 1)"

definition iv_new :: "nat \<Rightarrow> interval_set" where
  "iv_new domain = \<lparr>iv_map = [], iv_domain = domain\<rparr>"

definition iv_clear :: "interval_set \<Rightarrow> interval_set" where
  "iv_clear self = self\<lparr>iv_map := []\<rparr>"

text \<open>The intervals as half-open ranges, and their elements in order.\<close>

definition iter_intervals :: "interval_set \<Rightarrow> (nat \<times> nat) list" where
  "iter_intervals self = map (\<lambda>(start, end). (start, end + 1)) (iv_map self)"

definition iv_iter :: "interval_set \<Rightarrow> nat list" where
  "iv_iter self = concat (map (\<lambda>(start, end). [start..<end]) (iter_intervals self))"

primrec check_intervals :: "(nat \<times> nat) list \<Rightarrow> nat option \<Rightarrow> nat option option" where
  "check_intervals [] current = Some current"
| "check_intervals (r # rs) current =
     (case r of (start, end) \<Rightarrow>
        if start > end \<or> (case current of None \<Rightarrow> False | Some x \<Rightarrow> add_u32 x 1 \<ge> start) then None
        else check_intervals rs (Some end))"

definition check_invariants :: "interval_set \<Rightarrow> bool" where
  "check_invariants self =
     (case check_intervals (iv_map self) None of
        None \<Rightarrow> False
      | Some None \<Rightarrow> True
      | Some (Some x) \<Rightarrow> x < as_u32 (iv_domain self))"

text \<open>\<open>SmallVec::drain(a..b)\<close>.\<close>

definition drain :: "'a list \<Rightarrow> nat \<Rightarrow> nat \<Rightarrow> 'a list option" where
  "drain xs a b = (if a \<le> b \<and> b \<le> length xs then Some (take a xs @ drop b xs) else None)"

text \<open>The middle of \<open>insert_range\<close>: the new vector and the result, for \<open>start <= end\<close>.\<close>

definition insert_interval :: "(nat \<times> nat) list \<Rightarrow> nat \<Rightarrow> nat \<Rightarrow> ((nat \<times> nat) list \<times> bool) option" where
  "insert_interval m start end =
     (let next = partition_point (\<lambda>r. fst r \<le> add_u32 end 1) m in
      case checked_sub next 1 of
        Some right \<Rightarrow> do {
          (prev_start, prev_end) \<leftarrow> idx m right;
          if add_u32 prev_end 1 \<ge> start then
            if start < prev_start then do {
              let left = partition_point (\<lambda>l. add_u32 (snd l) 1 < start) m;
              l \<leftarrow> idx m left;
              let lo = min (fst l) start;
              let hi = max prev_end end;
              m \<leftarrow> idx_set m right (lo, hi);
              m \<leftarrow> (if left \<noteq> right then drain m left right else Some m);
              Some (m, True)
            }
            else if end > prev_end then do { m \<leftarrow> idx_set m right (prev_start, end); Some (m, True) }
            else Some (m, False)
          else do { m \<leftarrow> vec_insert m (right + 1) (start, end); Some (m, True) }
        }
      | None \<Rightarrow>
          if m = [] then Some ([(start, end)], True)
          else do { m \<leftarrow> vec_insert m next (start, end); Some (m, True) })"

definition iv_insert_range :: "interval_set \<Rightarrow> range_bounds \<Rightarrow> (interval_set \<times> bool) option" where
  "iv_insert_range self rng =
     (let start = inclusive_start rng in
      case inclusive_end (iv_domain self) rng of
        None \<Rightarrow> Some (self, False)
      | Some end \<Rightarrow>
          if start > end then Some (self, False)
          else do {
            (m, result) \<leftarrow> insert_interval (iv_map self) start end;
            let self = self\<lparr>iv_map := m\<rparr>;
            rassert (check_invariants self);
            Some (self, result)
          })"

definition iv_insert_point :: "interval_set \<Rightarrow> nat \<Rightarrow> (interval_set \<times> bool) option" where
  "iv_insert_point self point = iv_insert_range self (Included point, Included point)"

definition iv_contains :: "interval_set \<Rightarrow> nat \<Rightarrow> bool option" where
  "iv_contains self elem =
     (let needle = as_u32 elem in
      case checked_sub (partition_point (\<lambda>r. fst r \<le> needle) (iv_map self)) 1 of
        None \<Rightarrow> Some False
      | Some last_index \<Rightarrow> do { (_, prev_end) \<leftarrow> idx (iv_map self) last_index; Some (needle \<le> prev_end) })"

definition iv_is_empty :: "interval_set \<Rightarrow> bool" where
  "iv_is_empty self \<longleftrightarrow> iv_map self = []"

definition first_unset_in :: "interval_set \<Rightarrow> range_bounds \<Rightarrow> nat option option" where
  "first_unset_in self rng =
     (let start = inclusive_start rng in
      case inclusive_end (iv_domain self) rng of
        None \<Rightarrow> Some None
      | Some end \<Rightarrow>
          if start > end then Some None
          else case checked_sub (partition_point (\<lambda>r. fst r \<le> start) (iv_map self)) 1 of
            None \<Rightarrow> Some (Some start)
          | Some last_index \<Rightarrow> do {
              (_, prev_end) \<leftarrow> idx (iv_map self) last_index;
              Some (if start > prev_end then Some start
                    else if prev_end < end then Some (prev_end + 1)
                    else None)
            })"

definition iv_last_set_in :: "interval_set \<Rightarrow> range_bounds \<Rightarrow> nat option option" where
  "iv_last_set_in self rng =
     (let start = inclusive_start rng in
      case inclusive_end (iv_domain self) rng of
        None \<Rightarrow> Some None
      | Some end \<Rightarrow>
          if start > end then Some None
          else case checked_sub (partition_point (\<lambda>r. fst r \<le> end) (iv_map self)) 1 of
            None \<Rightarrow> Some None
          | Some last_index \<Rightarrow> do {
              (_, prev_end) \<leftarrow> idx (iv_map self) last_index;
              Some (if start \<le> prev_end then Some (min prev_end end) else None)
            })"

text \<open>\<open>insert_all\<close>; the conversion of the last index to \<open>u32\<close> panics when it does not fit.\<close>

definition iv_insert_all :: "interval_set \<Rightarrow> interval_set option" where
  "iv_insert_all self = do {
     let self = iv_clear self;
     self \<leftarrow> (case checked_sub (iv_domain self) 1 of
        Some end \<Rightarrow> do { rassert (end < 2 ^ 32); Some (self\<lparr>iv_map := [(0, end)]\<rparr>) }
      | None \<Rightarrow> Some self);
     rassert (check_invariants self);
     Some self
   }"

definition iv_union :: "interval_set \<Rightarrow> interval_set \<Rightarrow> (interval_set \<times> bool) option" where
  "iv_union self other = do {
     rassert (iv_domain self = iv_domain other);
     (self, did_insert) \<leftarrow>
       for_loop (\<lambda>(a, b) (self, did_insert). do {
         (self, r) \<leftarrow> iv_insert_range self (Included a, Excluded b);
         Some (self, did_insert \<or> r)
       }) (iter_intervals other) (self, False);
     rassert (check_invariants self);
     Some (self, did_insert)
   }"

text \<open>
  \<open>superset\<close>: the closure \<open>contains\<close>, which answers and may store its interval in
  \<open>current\<close>; \<open>find_map\<close> over the rest of the iterator; and the loop of \<open>all\<close>. The state
  is \<open>current\<close> and the intervals the iterator has left.
\<close>

definition sup_contains :: "nat \<times> nat \<Rightarrow> nat \<times> nat \<Rightarrow> (nat \<times> nat) option \<Rightarrow> bool option \<times> (nat \<times> nat) option" where
  "sup_contains sup_r sub current =
     (if snd sup_r < fst sub then (None, current)
      else if snd sup_r \<ge> snd sub \<and> fst sup_r \<le> fst sub then (Some True, Some sup_r)
      else (Some False, current))"

primrec find_sup ::
  "(nat \<times> nat) list \<Rightarrow> nat \<times> nat \<Rightarrow> (nat \<times> nat) option \<Rightarrow> bool option \<times> (nat \<times> nat) option \<times> (nat \<times> nat) list" where
  "find_sup [] sub current = (None, current, [])"
| "find_sup (sup_r # sups) sub current =
     (case sup_contains sup_r sub current of
        (None, current) \<Rightarrow> find_sup sups sub current
      | (Some b, current) \<Rightarrow> (Some b, current, sups))"

primrec superset_loop :: "(nat \<times> nat) list \<Rightarrow> (nat \<times> nat) option \<Rightarrow> (nat \<times> nat) list \<Rightarrow> bool" where
  "superset_loop [] current sups = True"
| "superset_loop (sub # subs) current sups =
     (let (r, current) = (case current of None \<Rightarrow> (None, None) | Some sup_r \<Rightarrow> sup_contains sup_r sub None);
          (r, current, sups) = (case r of Some b \<Rightarrow> (Some b, current, sups) | None \<Rightarrow> find_sup sups sub current)
      in if (case r of None \<Rightarrow> False | Some b \<Rightarrow> b) then superset_loop subs current sups else False)"

definition iv_superset :: "interval_set \<Rightarrow> interval_set \<Rightarrow> bool" where
  "iv_superset self other = superset_loop (iter_intervals other) None (iter_intervals self)"

subsection \<open>Well-formed interval vectors\<close>

definition ivs_elems :: "(nat \<times> nat) list \<Rightarrow> nat set" where
  "ivs_elems m = (\<Union>(a, b)\<in>set m. {a..b})"

definition ivs_ok :: "nat \<Rightarrow> (nat \<times> nat) list \<Rightarrow> bool" where
  "ivs_ok d m \<longleftrightarrow> (\<forall>(a, b)\<in>set m. a \<le> b \<and> b < d) \<and> sorted_wrt (\<lambda>p q. snd p + 1 < fst q) m"

definition iv_ok :: "interval_set \<Rightarrow> bool" where
  "iv_ok s \<longleftrightarrow> iv_domain s < 2 ^ 32 \<and> ivs_ok (iv_domain s) (iv_map s)"

definition iv_elems :: "interval_set \<Rightarrow> nat set" where
  "iv_elems s = ivs_elems (iv_map s)"

lemma ivs_elems_simps [simp]:
  "ivs_elems [] = {}" "ivs_elems (p # m) = {fst p..snd p} \<union> ivs_elems m" "ivs_elems (m @ m') = ivs_elems m \<union> ivs_elems m'"
  by (auto simp: ivs_elems_def)

lemma ivs_ok_append:
  "ivs_ok d (m @ m') \<longleftrightarrow> ivs_ok d m \<and> ivs_ok d m' \<and> (\<forall>p\<in>set m. \<forall>q\<in>set m'. snd p + 1 < fst q)"
  by (auto simp: ivs_ok_def sorted_wrt_append)

lemma ivs_ok_simps [simp]: "ivs_ok d []"
  "ivs_ok d (p # m) \<longleftrightarrow> fst p \<le> snd p \<and> snd p < d \<and> (\<forall>q\<in>set m. snd p + 1 < fst q) \<and> ivs_ok d m"
  by (auto simp: ivs_ok_def)

lemma ivs_ok_mem: "ivs_ok d m \<Longrightarrow> p \<in> set m \<Longrightarrow> fst p \<le> snd p \<and> snd p < d"
  by (auto simp: ivs_ok_def)

lemma ivs_elems_iff: "x \<in> ivs_elems m \<longleftrightarrow> (\<exists>p\<in>set m. fst p \<le> x \<and> x \<le> snd p)"
  by (force simp: ivs_elems_def)

lemma add_u32_id [simp]: "a + b < 2 ^ 32 \<Longrightarrow> add_u32 a b = a + b"
  by (simp add: add_u32_def)

lemma check_intervals_ok:
  assumes "ivs_ok d m" and "d < 2 ^ 32" and "\<And>x. c = Some x \<Longrightarrow> x < d \<and> (\<forall>q\<in>set m. x + 1 < fst q)"
  shows "check_intervals m c = Some (if m = [] then c else Some (snd (last m)))"
  using assms
proof (induction m arbitrary: c)
  case (Cons p m)
  then have "check_intervals (p # m) c = check_intervals m (Some (snd p))"
    by (cases c) (auto simp: case_prod_unfold not_le)
  then show ?case using Cons.IH [of "Some (snd p)"] Cons.prems(1,2) by simp
qed simp

lemma iv_check_invariants: "iv_ok s \<Longrightarrow> check_invariants s"
  using check_intervals_ok [of "iv_domain s" "iv_map s" None] ivs_ok_mem [of "iv_domain s" "iv_map s" "last (iv_map s)"]
  by (auto simp: iv_ok_def check_invariants_def)

lemma finite_ivs_elems [simp]: "finite (ivs_elems m)"
  by (auto simp: ivs_elems_def)

end
