(* ===== verification/Interval_Props.thy ===== *)
theory Interval_Props
  imports Interval_Set
begin

text \<open>
  \<open>IntervalSet\<close>: insertion of a range merges exactly the intervals it touches, the queries
  return what the set holds, and the set is kept sorted and non-adjacent.
\<close>

subsection \<open>The intervals before, around and after a range\<close>

definition ivs_before :: "nat \<Rightarrow> (nat \<times> nat) list \<Rightarrow> (nat \<times> nat) list" where
  "ivs_before s m = filter (\<lambda>p. snd p + 1 < s) m"

definition ivs_touching :: "nat \<Rightarrow> nat \<Rightarrow> (nat \<times> nat) list \<Rightarrow> (nat \<times> nat) list" where
  "ivs_touching s e m = filter (\<lambda>p. s \<le> snd p + 1 \<and> fst p \<le> e + 1) m"

definition ivs_after :: "nat \<Rightarrow> (nat \<times> nat) list \<Rightarrow> (nat \<times> nat) list" where
  "ivs_after e m = filter (\<lambda>p. e + 1 < fst p) m"

lemmas ivs_parts = ivs_before_def ivs_touching_def ivs_after_def

lemma ivs_split:
  assumes "ivs_ok d m" and "s \<le> e"
  shows "m = ivs_before s m @ ivs_touching s e m @ ivs_after e m"
  using assms(1)
proof (induction m)
  case (Cons p m)
  have le: "fst q \<le> snd q" "snd p + 1 < fst q" if "q \<in> set m" for q
    using that Cons.prems ivs_ok_mem [of d m q] by auto
  have IH: "m = ivs_before s m @ ivs_touching s e m @ ivs_after e m" using Cons by simp
  have b: "ivs_before s m = []" if "s \<le> snd p + 1" using that le by (fastforce simp: ivs_parts filter_empty_conv)
  have t: "ivs_before s m = []" "ivs_touching s e m = []" if "e + 1 < fst p"
    using that le Cons.prems assms(2) by (fastforce simp: ivs_parts filter_empty_conv)+
  consider "snd p + 1 < s" | "s \<le> snd p + 1" "fst p \<le> e + 1" | "e + 1 < fst p" by linarith
  then show ?case
  proof cases
    case 1
    then have "\<not> e + 1 < fst p" using Cons.prems assms(2) by simp
    then show ?thesis using 1 IH by (simp add: ivs_parts)
  next
    case 2
    then show ?thesis using b IH by (simp add: ivs_parts)
  next
    case 3
    then have "\<not> snd p + 1 < s" using Cons.prems assms(2) by simp
    then show ?thesis using 3 t IH by (simp add: ivs_parts)
  qed
qed (simp add: ivs_parts)

lemma ivs_sides_disjoint:
  assumes "ivs_ok d m" and "s \<le> e" and "s \<le> x" and "x \<le> e + 1"
  shows "x \<notin> ivs_elems (ivs_before s m)" and "x \<le> e + 1 \<Longrightarrow> x \<notin> ivs_elems (ivs_after e m)"
  using assms by (auto simp: ivs_elems_iff ivs_parts)

text \<open>The interval that results from merging \<open>s..=e\<close> with the intervals it touches.\<close>

definition merged :: "nat \<Rightarrow> nat \<Rightarrow> (nat \<times> nat) list \<Rightarrow> nat \<times> nat" where
  "merged s e ts = (if ts = [] then (s, e) else (min s (fst (hd ts)), max e (snd (last ts))))"

lemma ivs_ok_hd_last:
  assumes "ivs_ok d ts" and "p \<in> set ts"
  shows "fst (hd ts) \<le> fst p" and "snd p \<le> snd (last ts)"
proof -
  show "fst (hd ts) \<le> fst p" using assms by (cases ts) auto
  show "snd p \<le> snd (last ts)" using assms by (cases ts rule: rev_cases) (auto simp: ivs_ok_append)
qed

lemma merged_elems:
  assumes "ivs_ok d ts" and "s \<le> e" and "\<And>p. p \<in> set ts \<Longrightarrow> s \<le> snd p + 1 \<and> fst p \<le> e + 1"
  shows "{fst (merged s e ts)..snd (merged s e ts)} = {s..e} \<union> ivs_elems ts"
proof (cases "ts = []")
  case False
  then have ends: "hd ts \<in> set ts" "last ts \<in> set ts" by simp_all
  have sub: "x \<in> {s..e} \<union> ivs_elems ts" if "min s (fst (hd ts)) \<le> x" "x \<le> max e (snd (last ts))" for x
  proof -
    consider "x < s" | "s \<le> x" "x \<le> e" | "e < x" by linarith
    then show ?thesis
    proof cases
      case 1
      then have "fst (hd ts) \<le> x" "x \<le> snd (hd ts)" using that assms(3) [OF ends(1)] by (auto simp: min_def split: if_splits)
      then show ?thesis using ends(1) by (auto simp: ivs_elems_iff)
    next
      case 3
      then have "fst (last ts) \<le> x" "x \<le> snd (last ts)" using that assms(3) [OF ends(2)] by (auto simp: max_def split: if_splits)
      then show ?thesis using ends(2) by (auto simp: ivs_elems_iff)
    qed simp
  qed
  have "min s (fst (hd ts)) \<le> x \<and> x \<le> max e (snd (last ts))" if "x \<in> ivs_elems ts" for x
    using that ivs_ok_hd_last [OF assms(1)] unfolding ivs_elems_iff by (meson le_trans max.cobounded2 min.cobounded2)
  then have "x \<in> {min s (fst (hd ts))..max e (snd (last ts))} \<longleftrightarrow> x \<in> {s..e} \<union> ivs_elems ts" for x
    using sub [of x] by auto
  then show ?thesis using False unfolding merged_def by auto
qed (simp add: merged_def)

lemma merged_bounds:
  assumes "ivs_ok d ts" and "s \<le> e" and "e < d"
  shows "fst (merged s e ts) \<le> snd (merged s e ts)" and "snd (merged s e ts) < d"
    and "fst (merged s e ts) \<le> s" and "e \<le> snd (merged s e ts)"
proof -
  show "snd (merged s e ts) < d"
    using assms ivs_ok_mem [OF assms(1), of "last ts"] by (auto simp: merged_def)
  show "fst (merged s e ts) \<le> s" "e \<le> snd (merged s e ts)" by (simp_all add: merged_def)
  then show "fst (merged s e ts) \<le> snd (merged s e ts)" using assms(2) by simp
qed

lemma merge_ok:
  assumes "ivs_ok d m" and "s \<le> e" and "e < d"
  shows "ivs_ok d (ivs_before s m @ merged s e (ivs_touching s e m) # ivs_after e m)" (is "ivs_ok d ?m")
    and "ivs_elems (ivs_before s m @ merged s e (ivs_touching s e m) # ivs_after e m) = ivs_elems m \<union> {s..e}"
proof -
  let ?L = "ivs_before s m" and ?T = "ivs_touching s e m" and ?R = "ivs_after e m"
  have split: "m = ?L @ ?T @ ?R" by (rule ivs_split [OF assms(1,2)])
  then have ok: "ivs_ok d (?L @ ?T @ ?R)" using assms(1) by simp
  then have parts: "ivs_ok d ?L" "ivs_ok d ?T" "ivs_ok d ?R"
      "\<And>p q. p \<in> set ?L \<Longrightarrow> q \<in> set ?T \<union> set ?R \<Longrightarrow> snd p + 1 < fst q"
      "\<And>p q. p \<in> set ?T \<Longrightarrow> q \<in> set ?R \<Longrightarrow> snd p + 1 < fst q"
    by (auto simp: ivs_ok_append)
  have "snd p + 1 < fst (merged s e ?T)" if "p \<in> set ?L" for p
    using that parts(4) [OF that, of "hd ?T"] by (auto simp: merged_def ivs_before_def)
  moreover have "snd (merged s e ?T) + 1 < fst q" if "q \<in> set ?R" for q
    using that parts(5) [OF _ that, of "last ?T"] by (auto simp: merged_def ivs_after_def)
  ultimately show "ivs_ok d ?m"
    using parts merged_bounds [OF parts(2) assms(2,3)] by (auto simp: ivs_ok_append)
  have "{fst (merged s e ?T)..snd (merged s e ?T)} = {s..e} \<union> ivs_elems ?T"
    by (rule merged_elems [OF parts(2) assms(2)]) (simp add: ivs_touching_def)
  moreover have "ivs_elems m = ivs_elems ?L \<union> ivs_elems ?T \<union> ivs_elems ?R"
    using arg_cong [OF split, of ivs_elems] by (simp add: Un_assoc)
  ultimately show "ivs_elems ?m = ivs_elems m \<union> {s..e}" by auto
qed

subsection \<open>Insertion\<close>

lemma ivs_gaps:
  assumes "ivs_ok d m" and "p \<in> set m"
  shows "snd p + 1 \<notin> ivs_elems m" and "0 < fst p \<Longrightarrow> fst p - 1 \<notin> ivs_elems m"
proof -
  obtain A B where m: "m = A @ p # B" using assms(2) by (meson split_list)
  have p: "fst p \<le> snd p" using assms by (simp add: ivs_ok_mem)
  have "q = p \<or> snd q + 1 < fst p \<or> snd p + 1 < fst q" if "q \<in> set m" for q
    using that assms(1) unfolding m by (auto simp: ivs_ok_append)
  then show "snd p + 1 \<notin> ivs_elems m" "0 < fst p \<Longrightarrow> fst p - 1 \<notin> ivs_elems m"
    using p unfolding ivs_elems_iff by force+
qed

lemma partition_point_append:
  assumes "\<And>x. x \<in> set A \<Longrightarrow> P x" and "\<And>x. x \<in> set B \<Longrightarrow> \<not> P x"
  shows "partition_point P (A @ B) = length A"
proof -
  have "takeWhile P B = []" using assms(2) by (cases B) auto
  then show ?thesis using assms(1) by (simp add: partition_point_def)
qed

lemma insert_interval_touching:
  assumes "ivs_ok d (L @ (T @ [t]) @ R)" and "d < 2 ^ 32" and "s \<le> e" and "e < d"
    and L: "\<And>p. p \<in> set L \<Longrightarrow> snd p + 1 < s" and T: "\<And>p. p \<in> set (T @ [t]) \<Longrightarrow> s \<le> snd p + 1 \<and> fst p \<le> e + 1"
    and R: "\<And>p. p \<in> set R \<Longrightarrow> e + 1 < fst p"
  shows "insert_interval (L @ (T @ [t]) @ R) s e = Some (L @ merged s e (T @ [t]) # R, \<not> {s..e} \<subseteq> ivs_elems (L @ (T @ [t]) @ R))"
proof -
  let ?m = "L @ (T @ [t]) @ R" and ?right = "length L + length T"
  have parts: "ivs_ok d L" "ivs_ok d (T @ [t])" "\<And>p. p \<in> set T \<Longrightarrow> snd p + 1 < fst t" "fst t \<le> snd t" "snd t < d"
    using assms(1) by (auto simp: ivs_ok_append)
  have mem: "t \<in> set ?m" by simp
  have le: "fst p \<le> snd p \<and> snd p < d" if "p \<in> set ?m" for p using that assms(1) by (rule ivs_ok_mem [rotated])
  have nxt: "partition_point (\<lambda>r. fst r \<le> add_u32 e 1) ?m = Suc ?right"
  proof -
    have "fst p \<le> e + 1" if "p \<in> set (L @ T @ [t])" for p
      using that T L [of p] le [of p] assms(3) by (cases "p \<in> set L") auto
    then show ?thesis
      using partition_point_append [of "L @ T @ [t]" "\<lambda>r. fst r \<le> e + 1" R] R assms(2,4) by (simp add: not_le)
  qed
  have right: "idx ?m ?right = Some t" by (simp add: nth_append)
  have prev: "s \<le> add_u32 (snd t) 1" using T [of t] parts(5) assms(2) by simp
  show ?thesis
  proof (cases "s < fst t")
    case True
    have "snd p + 1 < 2 ^ 32" if "p \<in> set ?m" for p using le [OF that] assms(2) by simp
    then have small: "add_u32 (snd p) 1 = snd p + 1" if "p \<in> set ?m" for p using that by simp
    have "partition_point (\<lambda>l. add_u32 (snd l) 1 < s) ?m = length L"
    proof (rule partition_point_append)
      fix p assume p: "p \<in> set ((T @ [t]) @ R)"
      have "s \<le> snd p + 1" using p T R [of p] le [of p] assms(3) by (cases "p \<in> set R") auto
      then show "\<not> add_u32 (snd p) 1 < s" using p small [of p] by auto
    qed (use L small in simp)
    moreover have "idx ?m (length L) = Some (hd (T @ [t]))" by (cases T) (simp_all add: nth_append)
    moreover have "idx_set ?m ?right x = Some (L @ T @ x # R)" for x by (simp add: list_update_append)
    moreover have "drain (L @ T @ x # R) (length L) ?right = Some (L @ x # R)" for x by (simp add: drain_def)
    ultimately have "insert_interval ?m s e = Some (L @ merged s e (T @ [t]) # R, True)"
      using True nxt right prev unfolding insert_interval_def Let_def case_prod_unfold
      by (simp add: merged_def max.commute min.commute)
    moreover have "fst t - 1 \<notin> ivs_elems ?m" "fst t - 1 \<in> {s..e}"
      using ivs_gaps(2) [OF assms(1) mem] True T [of t] by auto
    then have "\<not> {s..e} \<subseteq> ivs_elems ?m" by blast
    ultimately show ?thesis by simp
  next
    case False
    have "False" if "p \<in> set T" for p using parts(3) [OF that] T [of p] that False by simp
    then have "T = []" by (cases T) auto
    show ?thesis
    proof (cases "snd t < e")
      case True
      have "snd t + 1 \<notin> ivs_elems ?m" "snd t + 1 \<in> {s..e}" using ivs_gaps(1) [OF assms(1) mem] True T [of t] by auto
      then have "\<not> {s..e} \<subseteq> ivs_elems ?m" by blast
      then show ?thesis
        using True False nxt right prev \<open>T = []\<close>
        by (cases t) (simp add: insert_interval_def merged_def Let_def list_update_append)
    next
      case in': False
      then have "{s..e} \<subseteq> {fst t..snd t}" using False by auto
      then have "{s..e} \<subseteq> ivs_elems ?m" by auto
      then show ?thesis
        using False in' nxt right prev \<open>T = []\<close> by (cases t) (simp add: insert_interval_def merged_def Let_def)
    qed
  qed
qed

lemma insert_interval_apart:
  assumes "ivs_ok d (L @ R)" and "d < 2 ^ 32" and "s \<le> e" and "e < d"
    and L: "\<And>p. p \<in> set L \<Longrightarrow> snd p + 1 < s" and R: "\<And>p. p \<in> set R \<Longrightarrow> e + 1 < fst p"
  shows "insert_interval (L @ R) s e = Some (L @ (s, e) # R, True)" and "s \<notin> ivs_elems (L @ R)"
proof -
  have le: "fst p \<le> snd p \<and> snd p < d" if "p \<in> set (L @ R)" for p using that assms(1) by (rule ivs_ok_mem [rotated])
  have "fst p \<le> e + 1" if "p \<in> set L" for p using L [OF that] le [of p] that assms(3) by simp
  then have nxt: "partition_point (\<lambda>r. fst r \<le> add_u32 e 1) (L @ R) = length L"
    using R assms(2,4) by (intro partition_point_append) (auto simp: not_le)
  show "insert_interval (L @ R) s e = Some (L @ (s, e) # R, True)"
  proof (cases L rule: rev_cases)
    case Nil
    then show ?thesis using nxt by (simp add: insert_interval_def vec_insert_def)
  next
    case (snoc L' l)
    have "add_u32 (snd l) 1 < s" using L [of l] le [of l] assms(2) snoc by simp
    then show ?thesis
      using nxt snoc by (simp add: insert_interval_def vec_insert_def case_prod_unfold nth_append Let_def)
  qed
  have "\<not> (fst p \<le> s \<and> s \<le> snd p)" if "p \<in> set (L @ R)" for p
    using that L [of p] R [of p] assms(3) by (cases "p \<in> set L") auto
  then show "s \<notin> ivs_elems (L @ R)" by (auto simp: ivs_elems_iff)
qed

lemma insert_interval_returns:
  assumes "ivs_ok d m" and "d < 2 ^ 32" and "s \<le> e" and "e < d"
  shows "\<exists>m'. insert_interval m s e = Some (m', \<not> {s..e} \<subseteq> ivs_elems m) \<and> ivs_ok d m' \<and> ivs_elems m' = ivs_elems m \<union> {s..e}"
proof -
  let ?L = "ivs_before s m" and ?T = "ivs_touching s e m" and ?R = "ivs_after e m"
  have split: "m = ?L @ ?T @ ?R" by (rule ivs_split [OF assms(1,3)])
  have parts: "\<And>p. p \<in> set ?L \<Longrightarrow> snd p + 1 < s" "\<And>p. p \<in> set ?T \<Longrightarrow> s \<le> snd p + 1 \<and> fst p \<le> e + 1"
      "\<And>p. p \<in> set ?R \<Longrightarrow> e + 1 < fst p"
    by (simp_all add: ivs_parts)
  have "insert_interval m s e = Some (?L @ merged s e ?T # ?R, \<not> {s..e} \<subseteq> ivs_elems m)"
  proof (cases ?T rule: rev_cases)
    case Nil
    then have m: "m = ?L @ ?R" using split by simp
    from assms(1) have ok: "ivs_ok d (?L @ ?R)" by (subst (asm) m)
    note ins = insert_interval_apart [OF ok assms(2-4) parts(1,3)]
    have "\<not> {s..e} \<subseteq> ivs_elems m" using ins(2) assms(3) m by auto
    then show ?thesis using ins(1) m Nil by (simp add: merged_def)
  next
    case (snoc T t)
    then have m: "m = ?L @ (T @ [t]) @ ?R" using split by simp
    from assms(1) have ok: "ivs_ok d (?L @ (T @ [t]) @ ?R)" by (subst (asm) m)
    have "insert_interval (?L @ (T @ [t]) @ ?R) s e =
        Some (?L @ merged s e (T @ [t]) # ?R, \<not> {s..e} \<subseteq> ivs_elems (?L @ (T @ [t]) @ ?R))"
      by (rule insert_interval_touching [OF ok assms(2-4) parts(1) parts(2) [unfolded snoc] parts(3)])
    then show ?thesis unfolding m [symmetric] snoc .
  qed
  then show ?thesis using merge_ok [OF assms(1,3,4)] by blast
qed

subsection \<open>Ranges\<close>

text \<open>
  A range whose start fits in \<open>u32\<close> and whose end lies in the domain, and the indices it
  names.
\<close>

fun iv_range_ok :: "range_bounds \<Rightarrow> nat \<Rightarrow> bool" where
  "iv_range_ok (lo, hi) d \<longleftrightarrow>
     (case lo of Included a \<Rightarrow> a < 2 ^ 32 | Excluded a \<Rightarrow> a + 1 < 2 ^ 32 | Unbounded \<Rightarrow> True) \<and>
     (case hi of Included e \<Rightarrow> e < d | Excluded e \<Rightarrow> e \<le> d | Unbounded \<Rightarrow> True)"

definition range_set :: "range_bounds \<Rightarrow> nat \<Rightarrow> nat set" where
  "range_set r d = {e. e < d \<and> range_contains r e}"

lemma iv_range_cases:
  assumes "iv_range_ok r d" and "d < 2 ^ 32"
  obtains (empty) "inclusive_end d r = None \<or> (\<exists>e. inclusive_end d r = Some e \<and> inclusive_start r > e)" "range_set r d = {}"
  | (range) e where "inclusive_end d r = Some e" "inclusive_start r \<le> e" "e < d" "range_set r d = {inclusive_start r..e}"
proof -
  obtain lo hi where r: "r = (lo, hi)" by (cases r)
  let ?a = "case lo of Included a \<Rightarrow> a | Excluded a \<Rightarrow> a + 1 | Unbounded \<Rightarrow> 0"
  have a: "inclusive_start r = ?a" using assms by (cases lo) (auto simp: r)
  have lo: "(case lo of Included a \<Rightarrow> a \<le> x | Excluded a \<Rightarrow> a < x | Unbounded \<Rightarrow> True) \<longleftrightarrow> ?a \<le> x" for x
    by (auto split: bound.splits)
  show thesis
  proof (cases "inclusive_end d r")
    case None
    then have "range_set r d = {}"
      by (cases hi) (auto simp: r range_set_def checked_sub_def split: if_splits)
    then show thesis using None empty by blast
  next
    case (Some e)
    then have e: "e < d \<and> (\<forall>x<d. (case hi of Included b \<Rightarrow> x \<le> b | Excluded b \<Rightarrow> x < b | Unbounded \<Rightarrow> True) \<longleftrightarrow> x \<le> e)"
      using assms by (cases hi) (auto simp: r checked_sub_def split: if_splits)
    then have set: "range_set r d = {?a..e}" unfolding range_set_def r range_contains.simps lo by auto
    show thesis
    proof (cases "?a \<le> e")
      case True
      then show thesis using range [OF Some] a set e by simp
    next
      case False
      then show thesis using empty Some a set by simp
    qed
  qed
qed

lemma iv_insert_range_returns:
  assumes "iv_ok s" and "iv_range_ok r (iv_domain s)"
  shows "returns iv_domain iv_elems iv_ok s (iv_insert_range s r) (iv_elems s \<union> range_set r (iv_domain s))
    (\<not> range_set r (iv_domain s) \<subseteq> iv_elems s)"
proof -
  have d: "iv_domain s < 2 ^ 32" "ivs_ok (iv_domain s) (iv_map s)" using assms(1) by (simp_all add: iv_ok_def)
  from assms(2) d(1) show ?thesis
  proof (cases rule: iv_range_cases)
    case empty
    then have "iv_insert_range s r = Some (s, False)" by (auto simp: iv_insert_range_def)
    then show ?thesis using empty(2) assms(1) by (auto simp: returns_def)
  next
    case (range e)
    obtain m where m: "insert_interval (iv_map s) (inclusive_start r) e = Some (m, \<not> {inclusive_start r..e} \<subseteq> iv_elems s)"
        "ivs_ok (iv_domain s) m" "ivs_elems m = iv_elems s \<union> {inclusive_start r..e}"
      using insert_interval_returns [OF d(2,1) range(2,3)] by (auto simp: iv_elems_def)
    let ?s = "s\<lparr>iv_map := m\<rparr>"
    have ok: "iv_ok ?s" using m(2) d(1) by (simp add: iv_ok_def)
    show ?thesis
    proof (rule returnsI)
      show "iv_insert_range s r = Some (?s, \<not> range_set r (iv_domain s) \<subseteq> iv_elems s)"
        using range m(1) iv_check_invariants [OF ok] by (simp add: iv_insert_range_def Let_def)
    qed (use ok m(3) range(4) in \<open>simp_all add: iv_elems_def\<close>)
  qed
qed

text \<open>
  C34: inserting a range into a well-formed interval set adds exactly the indices of the
  range, merges exactly the intervals it overlaps or touches so that the vector stays
  sorted and non-adjacent (the debug assertion passes), and returns whether the set grew.
\<close>

theorem interval_insert_range:
  assumes "iv_ok s" and "iv_range_ok r (iv_domain s)"
  shows "\<exists>s'. iv_insert_range s r = Some (s', \<not> range_set r (iv_domain s) \<subseteq> iv_elems s) \<and> iv_ok s' \<and>
    iv_domain s' = iv_domain s \<and> iv_elems s' = iv_elems s \<union> range_set r (iv_domain s)"
  using iv_insert_range_returns [OF assms] by (simp add: returns_def)

theorem interval_insert_range_witness:
  "let s = \<lparr>iv_map = [(1, 2), (5, 6), (9, 9)], iv_domain = 12\<rparr>; r = (Included 3, Excluded 9) in
   iv_ok s \<and> iv_range_ok r 12 \<and> iv_insert_range s r = Some (\<lparr>iv_map = [(1, 9)], iv_domain = 12\<rparr>, True) \<and>
   iv_elems \<lparr>iv_map = [(1, 9)], iv_domain = 12\<rparr> = iv_elems s \<union> range_set r 12"
proof -
  let ?s = "\<lparr>iv_map = [(1, 2), (5, 6), (9, 9)], iv_domain = 12\<rparr>" and ?r = "(Included 3, Excluded 9)"
  have ok: "iv_ok ?s" "iv_range_ok ?r (iv_domain ?s)" by (simp_all add: iv_ok_def)
  have ev: "iv_insert_range ?s ?r = Some (\<lparr>iv_map = [(1, 9)], iv_domain = 12\<rparr>, True)" by code_simp
  show ?thesis using interval_insert_range [OF ok] ok ev by (simp add: Let_def)
qed

subsection \<open>Queries\<close>

text \<open>
  The interval before the partition point of \<open>fst r <= n\<close>: the last one that starts at or
  before \<open>n\<close>.
\<close>

lemma partition_point_filter:
  assumes "ivs_ok d m"
  shows "partition_point (\<lambda>r. fst r \<le> n) m = length (filter (\<lambda>r. fst r \<le> n) m)"
    and "m = filter (\<lambda>r. fst r \<le> n) m @ filter (\<lambda>r. \<not> fst r \<le> n) m"
proof -
  show split: "m = filter (\<lambda>r. fst r \<le> n) m @ filter (\<lambda>r. \<not> fst r \<le> n) m"
    using assms
  proof (induction m)
    case (Cons p m)
    have "filter (\<lambda>r. fst r \<le> n) m = []" if "\<not> fst p \<le> n"
      using that Cons.prems by (force simp: filter_empty_conv)
    then show ?case using Cons by auto
  qed simp
  have "partition_point (\<lambda>r. fst r \<le> n) (filter (\<lambda>r. fst r \<le> n) m @ filter (\<lambda>r. \<not> fst r \<le> n) m) =
      length (filter (\<lambda>r. fst r \<le> n) m)"
    by (rule partition_point_append) auto
  then show "partition_point (\<lambda>r. fst r \<le> n) m = length (filter (\<lambda>r. fst r \<le> n) m)" using split by simp
qed

lemma locate_interval:
  assumes "ivs_ok d m"
  obtains (none) "checked_sub (partition_point (\<lambda>r. fst r \<le> n) m) 1 = None" "\<And>x. x \<in> ivs_elems m \<Longrightarrow> n < x"
  | (found) i a b where "checked_sub (partition_point (\<lambda>r. fst r \<le> n) m) 1 = Some i" "idx m i = Some (a, b)" "a \<le> n" "a \<le> b" "b < d"
      "{a..b} \<subseteq> ivs_elems m" "b + 1 \<notin> ivs_elems m" "\<And>x. x \<in> ivs_elems m \<Longrightarrow> x \<le> b \<or> n < x"
proof -
  let ?A = "filter (\<lambda>r. fst r \<le> n) m" and ?B = "filter (\<lambda>r. \<not> fst r \<le> n) m"
  note part = partition_point_filter [OF assms, of n]
  show thesis
  proof (cases ?A rule: rev_cases)
    case Nil
    then have "\<And>x. x \<in> ivs_elems m \<Longrightarrow> n < x" by (fastforce simp: ivs_elems_iff filter_empty_conv)
    then show thesis using none part(1) Nil by simp
  next
    case (snoc A p)
    then have m: "m = (A @ [p]) @ ?B" using part(2) by simp
    have "p \<in> set ?A" unfolding snoc by simp
    then have p: "p \<in> set m" "fst p \<le> n" by simp_all
    have i: "checked_sub (partition_point (\<lambda>r. fst r \<le> n) m) 1 = Some (length A)" using part(1) snoc by simp
    have "m ! length A = p" by (subst m) simp
    moreover have "length A < length m" by (subst m) simp
    ultimately have at: "idx m (length A) = Some (fst p, snd p)" by simp
    have "ivs_ok d ((A @ [p]) @ ?B)" using assms m by simp
    then have A: "\<And>q. q \<in> set A \<Longrightarrow> snd q + 1 < fst p" by (auto simp: ivs_ok_append)
    have le: "x \<le> snd p \<or> n < x" if x: "x \<in> ivs_elems m" for x
    proof -
      obtain q where q: "q \<in> set m" "fst q \<le> x" "x \<le> snd q" using x by (auto simp: ivs_elems_iff)
      show ?thesis
      proof (cases "fst q \<le> n")
        case True
        then have "q \<in> set (A @ [p])" using q(1) unfolding snoc [symmetric] by simp
        then show ?thesis using A [of q] q(3) ivs_ok_mem [OF assms p(1)] by auto
      qed (use q in simp)
    qed
    have "{fst p..snd p} \<subseteq> ivs_elems m" using p(1) by (force simp: ivs_elems_iff)
    then show thesis
      using found [OF i at p(2)] ivs_ok_mem [OF assms p(1)] ivs_gaps(1) [OF assms p(1)] le by blast
  qed
qed

lemma iv_contains_returns:
  assumes "iv_ok s" and "x < 2 ^ 32"
  shows "iv_contains s x = Some (x \<in> iv_elems s)"
proof -
  have "ivs_ok (iv_domain s) (iv_map s)" using assms(1) by (simp add: iv_ok_def)
  then show ?thesis
  proof (cases rule: locate_interval [of _ _ x])
    case none
    then show ?thesis using assms(2) by (auto simp: iv_contains_def iv_elems_def)
  next
    case (found i a b)
    then have "x \<in> iv_elems s \<longleftrightarrow> x \<le> b" by (auto simp: iv_elems_def)
    then show ?thesis using found(1,2) assms(2) by (simp add: iv_contains_def)
  qed
qed

lemma iv_iter_elems: "iv_ok s \<Longrightarrow> iv_iter s = sorted_list_of_set (iv_elems s)"
proof -
  assume "iv_ok s"
  then have "ivs_ok (iv_domain s) (iv_map s)" by (simp add: iv_ok_def)
  moreover have "ivs_ok d m \<Longrightarrow> sorted (concat (map (\<lambda>p. [fst p..<Suc (snd p)]) m)) \<and>
      distinct (concat (map (\<lambda>p. [fst p..<Suc (snd p)]) m)) \<and> set (concat (map (\<lambda>p. [fst p..<Suc (snd p)]) m)) = ivs_elems m" for d m
  proof (induction m)
    case (Cons p m)
    have "snd p < x" if "x \<in> ivs_elems m" for x using that Cons.prems by (force simp: ivs_elems_iff)
    then show ?case using Cons by (fastforce simp: sorted_append simp del: upt_Suc)
  qed simp
  ultimately show ?thesis
    using sorted_list_of_set.idem_if_sorted_distinct [of "iv_iter s"]
    by (simp add: iv_iter_def iter_intervals_def iv_elems_def comp_def case_prod_unfold del: upt_Suc)
qed

text \<open>The least index of a range that is not in the set.\<close>

definition first_missing :: "nat set \<Rightarrow> nat set \<Rightarrow> nat option" where
  "first_missing R E = (if R \<subseteq> E then None else Some (Min (R - E)))"

lemma first_missing_at:
  assumes "finite R" and "x \<in> R" and "x \<notin> E" and "\<And>y. y \<in> R \<Longrightarrow> y < x \<Longrightarrow> y \<in> E"
  shows "first_missing R E = Some x"
proof -
  have "Min (R - E) = x" using assms by (intro Min_eqI) (auto simp: not_less [symmetric])
  then show ?thesis using assms(2,3) by (auto simp: first_missing_def)
qed

lemma first_unset_in_returns:
  assumes "iv_ok s" and "iv_range_ok r (iv_domain s)"
  shows "first_unset_in s r = Some (first_missing (range_set r (iv_domain s)) (iv_elems s))"
proof -
  have d: "iv_domain s < 2 ^ 32" "ivs_ok (iv_domain s) (iv_map s)" using assms(1) by (simp_all add: iv_ok_def)
  from assms(2) d(1) show ?thesis
  proof (cases rule: iv_range_cases)
    case empty
    then show ?thesis by (auto simp: first_unset_in_def first_missing_def)
  next
    case (range e)
    let ?s = "inclusive_start r"
    from d(2) show ?thesis
    proof (cases rule: locate_interval [of _ _ ?s])
      case none
      then have "first_missing {?s..e} (iv_elems s) = Some ?s"
        using range(2) by (intro first_missing_at) (auto simp: iv_elems_def)
      then show ?thesis using none range by (simp add: first_unset_in_def)
    next
      case (found i a b)
      consider "b < ?s" | "?s \<le> b" "b < e" | "?s \<le> b" "e \<le> b" by linarith
      then have "first_missing {?s..e} (iv_elems s) = (if b < ?s then Some ?s else if b < e then Some (b + 1) else None)"
      proof cases
        case 1
        then have "?s \<notin> iv_elems s" using found(8) [of ?s] by (auto simp: iv_elems_def)
        then show ?thesis using 1 range(2) first_missing_at [of "{?s..e}" ?s] by simp
      next
        case 2
        then have "first_missing {?s..e} (iv_elems s) = Some (b + 1)"
          using found(3,6,7) by (intro first_missing_at) (auto simp: iv_elems_def)
        then show ?thesis using 2 by simp
      next
        case 3
        then have "{?s..e} \<subseteq> iv_elems s" using found(3,6) by (auto simp: iv_elems_def)
        then show ?thesis using 3 by (simp add: first_missing_def)
      qed
      then show ?thesis using found(1,2) range by (simp add: first_unset_in_def)
    qed
  qed
qed

lemma iv_last_set_in_returns:
  assumes "iv_ok s" and "iv_range_ok r (iv_domain s)"
  shows "iv_last_set_in s r = Some (last_of (iv_elems s \<inter> range_set r (iv_domain s)))"
proof -
  have d: "iv_domain s < 2 ^ 32" "ivs_ok (iv_domain s) (iv_map s)" using assms(1) by (simp_all add: iv_ok_def)
  from assms(2) d(1) show ?thesis
  proof (cases rule: iv_range_cases)
    case empty
    then show ?thesis by (auto simp: iv_last_set_in_def last_of_def)
  next
    case (range e)
    let ?s = "inclusive_start r"
    from d(2) show ?thesis
    proof (cases rule: locate_interval [of _ _ e])
      case none
      then have "iv_elems s \<inter> {?s..e} = {}" by (force simp: iv_elems_def)
      then show ?thesis using none range by (simp add: iv_last_set_in_def last_of_def)
    next
      case (found i a b)
      have "(if ?s \<le> min b e then Some (min b e) else None) = last_of (iv_elems s \<inter> {?s..e})"
        using found(3,4,6,8) by (intro last_of_candidate) (fastforce simp: iv_elems_def)+
      moreover have "(?s \<le> min b e) = (?s \<le> b)" using range(2) by auto
      ultimately show ?thesis using found(1,2) range by (simp add: iv_last_set_in_def)
    qed
  qed
qed

text \<open>
  C35: the queries of a well-formed interval set return what the set holds: \<open>contains\<close>
  tests membership by binary search, \<open>iter\<close> lists the elements in increasing order,
  \<open>first_unset_in\<close> returns the least index of a range that is not in the set (as its
  documentation says, the first \<open>i\<close> in the range that the set does not contain), and
  \<open>last_set_in\<close> the largest one that is.
\<close>

theorem interval_queries:
  assumes "iv_ok s" and "x < 2 ^ 32" and "iv_range_ok r (iv_domain s)"
  shows "iv_contains s x = Some (x \<in> iv_elems s) \<and> iv_iter s = sorted_list_of_set (iv_elems s) \<and>
    first_unset_in s r = Some (first_missing (range_set r (iv_domain s)) (iv_elems s)) \<and>
    iv_last_set_in s r = Some (last_of (iv_elems s \<inter> range_set r (iv_domain s)))"
  using iv_contains_returns [OF assms(1,2)] iv_iter_elems [OF assms(1)] first_unset_in_returns [OF assms(1,3)]
    iv_last_set_in_returns [OF assms(1,3)] by blast

theorem interval_queries_witness:
  "let s = \<lparr>iv_map = [(1, 2), (5, 6)], iv_domain = 12\<rparr>; r = (Included 5, Unbounded) in
   iv_ok s \<and> iv_range_ok r 12 \<and> iv_contains s 4 = Some False \<and> first_unset_in s r = Some (Some 7) \<and>
   first_missing (range_set r 12) (iv_elems s) = Some 7"
proof -
  let ?s = "\<lparr>iv_map = [(1, 2), (5, 6)], iv_domain = 12\<rparr>" and ?r = "(Included 5, Unbounded)"
  have ok: "iv_ok ?s" "iv_range_ok ?r (iv_domain ?s)" by (simp_all add: iv_ok_def)
  have ev: "iv_contains ?s 4 = Some False" "first_unset_in ?s ?r = Some (Some 7)" by code_simp+
  show ?thesis using interval_queries [OF ok(1) _ ok(2), of 4] ok ev by (simp add: Let_def)
qed

end
