(* ===== verification/Interval_Relations.thy ===== *)
theory Interval_Relations
  imports Interval_Props
begin

text \<open>
  Relations between interval sets, \<open>union\<close> and \<open>superset\<close>, and \<open>SparseIntervalMatrix\<close> of
  \<open>rustc_index/src/interval.rs\<close>, whose rows are interval sets.
\<close>

subsection \<open>The half-open ranges of an interval set\<close>

definition ranges_ok :: "(nat \<times> nat) list \<Rightarrow> bool" where
  "ranges_ok rs \<longleftrightarrow> (\<forall>r\<in>set rs. fst r < snd r) \<and> sorted_wrt (\<lambda>p q. snd p < fst q) rs"

definition ranges_elems :: "(nat \<times> nat) list \<Rightarrow> nat set" where
  "ranges_elems rs = (\<Union>r\<in>set rs. {fst r..<snd r})"

lemma ranges_elems_simps [simp]: "ranges_elems [] = {}" "ranges_elems (r # rs) = {fst r..<snd r} \<union> ranges_elems rs"
  "ranges_elems (rs @ rs') = ranges_elems rs \<union> ranges_elems rs'"
  by (auto simp: ranges_elems_def)

lemma ranges_ok_simps [simp]: "ranges_ok []"
  "ranges_ok (r # rs) \<longleftrightarrow> fst r < snd r \<and> (\<forall>q\<in>set rs. snd r < fst q) \<and> ranges_ok rs"
  by (auto simp: ranges_ok_def)

lemma iter_intervals_ok:
  assumes "iv_ok s"
  shows "ranges_ok (iter_intervals s)" and "ranges_elems (iter_intervals s) = iv_elems s"
    and "\<And>r. r \<in> set (iter_intervals s) \<Longrightarrow> fst r < snd r \<and> snd r \<le> iv_domain s"
proof -
  have "ivs_ok d m \<Longrightarrow> ranges_ok (map (\<lambda>(a, b). (a, b + 1)) m)" for d m
    by (induction m) (auto simp: case_prod_unfold)
  from this [of "iv_domain s" "iv_map s"] show "ranges_ok (iter_intervals s)"
    using assms by (simp add: iter_intervals_def iv_ok_def)
  show "ranges_elems (iter_intervals s) = iv_elems s"
    by (auto simp: ranges_elems_def iter_intervals_def iv_elems_def ivs_elems_def)
  show "fst r < snd r \<and> snd r \<le> iv_domain s" if "r \<in> set (iter_intervals s)" for r
    using that assms by (auto simp: iter_intervals_def iv_ok_def ivs_ok_def)
qed

subsection \<open>Union\<close>

lemma iv_union_returns:
  assumes "iv_ok s" and "iv_ok t" and "iv_domain t = iv_domain s"
  shows "returns iv_domain iv_elems iv_ok s (iv_union s t) (iv_elems s \<union> iv_elems t) (\<not> iv_elems t \<subseteq> iv_elems s)"
proof -
  let ?body = "\<lambda>(a, b) (self, did_insert). do {
     (self, r) \<leftarrow> iv_insert_range self (Included a, Excluded b); Some (self, did_insert \<or> r) }"
  let ?I = "\<lambda>rs (u, ch). iv_ok u \<and> iv_domain u = iv_domain s \<and> iv_elems u = iv_elems s \<union> ranges_elems rs \<and>
    ch = (\<not> ranges_elems rs \<subseteq> iv_elems s)"
  have d: "iv_domain s < 2 ^ 32" using assms(1) by (simp add: iv_ok_def)
  have "\<exists>u. for_loop ?body (iter_intervals t) (s, False) = Some u \<and> ?I (iter_intervals t) u"
  proof (rule for_loop_invariant)
    fix bef r aft u assume split: "iter_intervals t = bef @ r # aft" and I: "?I bef u"
    obtain a b v ch where r: "r = (a, b)" and u: "u = (v, ch)" by (cases r; cases u)
    have "r \<in> set (iter_intervals t)" unfolding split by simp
    then have ab: "a < b" "b \<le> iv_domain s" using iter_intervals_ok(3) [OF assms(2)] assms(3) by (auto simp: r)
    then have set: "range_set (Included a, Excluded b) (iv_domain v) = {a..<b}" using I by (auto simp: range_set_def u)
    have "iv_range_ok (Included a, Excluded b) (iv_domain v)" using ab d I by (simp add: u)
    from iv_insert_range_returns [OF _ this] obtain v' where
      "iv_insert_range v (Included a, Excluded b) = Some (v', \<not> {a..<b} \<subseteq> iv_elems v)" "iv_ok v'"
      "iv_domain v' = iv_domain v" "iv_elems v' = iv_elems v \<union> {a..<b}"
      using I set by (auto simp: returns_def u)
    then show "\<exists>u'. ?body r u = Some u' \<and> ?I (bef @ [r]) u'" using I by (auto simp: r u)
  qed (use assms(1) in simp)
  then obtain u where "for_loop ?body (iter_intervals t) (s, False) = Some (u, \<not> iv_elems t \<subseteq> iv_elems s)" "iv_ok u"
      "iv_domain u = iv_domain s" "iv_elems u = iv_elems s \<union> iv_elems t"
    using iter_intervals_ok(2) [OF assms(2)] by auto
  then show ?thesis using assms(3) iv_check_invariants [of u] by (auto simp: iv_union_def returns_def)
qed

lemma iv_insert_all_returns:
  assumes "iv_ok s"
  shows "\<exists>s'. iv_insert_all s = Some s' \<and> iv_ok s' \<and> iv_domain s' = iv_domain s \<and> iv_elems s' = {..<iv_domain s}"
proof (cases "iv_domain s")
  case 0
  then have "iv_ok (iv_clear s)" by (simp add: iv_clear_def iv_ok_def)
  then show ?thesis using iv_check_invariants [of "iv_clear s"] 0 by (simp add: iv_insert_all_def iv_clear_def iv_elems_def)
next
  case (Suc n)
  let ?s = "s\<lparr>iv_map := [(0, n)]\<rparr>"
  have ok: "iv_ok ?s" "n < 2 ^ 32" using assms Suc by (auto simp: iv_ok_def)
  moreover have "iv_elems ?s = {..<iv_domain s}" using Suc by (auto simp: iv_elems_def)
  ultimately show ?thesis using iv_check_invariants [OF ok(1)] Suc by (simp add: iv_insert_all_def iv_clear_def)
qed

subsection \<open>Superset\<close>

abbreviation skip_to :: "nat \<times> nat \<Rightarrow> (nat \<times> nat) list \<Rightarrow> (nat \<times> nat) list" where
  "skip_to sub sups \<equiv> dropWhile (\<lambda>p. snd p < fst sub) sups"

lemma find_sup_eq:
  "find_sup sups sub None = (case skip_to sub sups of
     [] \<Rightarrow> (None, None, [])
   | p # rest \<Rightarrow> if snd p \<ge> snd sub \<and> fst p \<le> fst sub then (Some True, Some p, rest) else (Some False, None, rest))"
  by (induction sups) (auto simp: sup_contains_def)

lemma superset_loop_step:
  "superset_loop (sub # subs) current sups =
     (case skip_to sub ((case current of None \<Rightarrow> [] | Some p \<Rightarrow> [p]) @ sups) of
        [] \<Rightarrow> False
      | p # rest \<Rightarrow> snd p \<ge> snd sub \<and> fst p \<le> fst sub \<and> superset_loop subs (Some p) rest)"
  by (cases current; cases "skip_to sub sups")
    (auto simp: find_sup_eq sup_contains_def Let_def simp del: dropWhile_eq_Nil_conv)

lemma skip_to_elems:
  assumes "ranges_ok sups"
  obtains "skip_to sub sups = []" "\<And>x. x \<in> ranges_elems sups \<Longrightarrow> x < fst sub"
  | p rest where "skip_to sub sups = p # rest" "ranges_ok (p # rest)" "fst sub \<le> snd p"
      "\<And>x. fst sub \<le> x \<Longrightarrow> x \<in> ranges_elems sups \<longleftrightarrow> x \<in> ranges_elems (p # rest)"
  using assms
proof (induction sups)
  case (Cons q sups)
  show ?case
  proof (cases "snd q < fst sub")
    case True
    then have *: "fst sub \<le> x \<Longrightarrow> x \<in> ranges_elems (q # sups) \<longleftrightarrow> x \<in> ranges_elems sups" for x by auto
    show ?thesis
    proof (rule Cons.IH)
      assume "skip_to sub sups = []" "\<And>x. x \<in> ranges_elems sups \<Longrightarrow> x < fst sub"
      then show ?thesis using Cons.prems(1) True by fastforce
    next
      fix p rest assume "skip_to sub sups = p # rest" "ranges_ok (p # rest)" "fst sub \<le> snd p"
        "\<And>x. fst sub \<le> x \<Longrightarrow> x \<in> ranges_elems sups \<longleftrightarrow> x \<in> ranges_elems (p # rest)"
      then show ?thesis using Cons.prems(2) [of p rest] True * by simp
    qed (use Cons.prems(3) in simp)
  next
    case False
    then show ?thesis using Cons.prems(2) [of q sups] Cons.prems(3) by simp
  qed
qed simp

lemma not_covered:
  assumes "ranges_ok (p # rest)" and "fst sub < snd sub" and "fst sub \<le> snd p" and "\<not> (snd sub \<le> snd p \<and> fst p \<le> fst sub)"
  shows "\<not> {fst sub..<snd sub} \<subseteq> ranges_elems (p # rest)"
proof -
  have later: "snd p < x" if "x \<in> ranges_elems rest" for x
    using that assms(1) unfolding ranges_elems_def by fastforce
  show ?thesis
  proof (cases "fst p \<le> fst sub")
    case True
    then have "snd p \<in> {fst sub..<snd sub}" "snd p \<notin> ranges_elems (p # rest)" using assms(3,4) later by auto
    then show ?thesis by blast
  next
    case False
    then have "fst sub \<in> {fst sub..<snd sub}" "fst sub \<notin> ranges_elems (p # rest)" using assms(1-3) later by force+
    then show ?thesis by blast
  qed
qed

lemma superset_loop_eq:
  assumes "ranges_ok subs" and "ranges_ok ((case current of None \<Rightarrow> [] | Some p \<Rightarrow> [p]) @ sups)"
  shows "superset_loop subs current sups \<longleftrightarrow>
    ranges_elems subs \<subseteq> ranges_elems ((case current of None \<Rightarrow> [] | Some p \<Rightarrow> [p]) @ sups)"
  using assms
proof (induction subs arbitrary: current sups)
  case (Cons sub subs)
  let ?xs = "(case current of None \<Rightarrow> [] | Some p \<Rightarrow> [p]) @ sups"
  have sub: "fst sub < snd sub" "ranges_ok subs" using Cons.prems(1) by simp_all
  have after: "fst sub \<le> x" if "x \<in> {fst sub..<snd sub} \<union> ranges_elems subs" for x
    using that Cons.prems(1) unfolding ranges_elems_def by fastforce
  from Cons.prems(2) show ?case
  proof (cases rule: skip_to_elems [of _ sub])
    case 1
    have "fst sub \<in> ranges_elems (sub # subs)" "fst sub \<notin> ranges_elems ?xs" using sub(1) 1(2) by auto
    then have "\<not> ranges_elems (sub # subs) \<subseteq> ranges_elems ?xs" by blast
    then show ?thesis unfolding superset_loop_step 1(1) by simp
  next
    case (2 p rest)
    have iff: "ranges_elems (sub # subs) \<subseteq> ranges_elems ?xs \<longleftrightarrow> ranges_elems (sub # subs) \<subseteq> ranges_elems (p # rest)"
      using after 2(4) by (auto simp: subset_iff)
    show ?thesis
    proof (cases "snd sub \<le> snd p \<and> fst p \<le> fst sub")
      case True
      then have "{fst sub..<snd sub} \<subseteq> ranges_elems (p # rest)" by auto
      then show ?thesis
        unfolding superset_loop_step iff using 2(1,2) True Cons.IH [OF sub(2), of "Some p" rest] by auto
    next
      case False
      then show ?thesis
        unfolding superset_loop_step iff using 2(1) not_covered [OF 2(2) sub(1) 2(3) False] by auto
    qed
  qed
qed simp

text \<open>
  \<open>superset\<close>, which walks the intervals of both sets once, decides inclusion;
  \<open>union\<close>, which inserts the intervals of the other set one by one, computes the union
  and reports whether the set grew; \<open>insert_all\<close> fills the domain. All keep the set
  well-formed.
\<close>

theorem interval_relations:
  assumes "iv_ok s" and "iv_ok t" and "iv_domain t = iv_domain s"
  shows "iv_superset s t = (iv_elems t \<subseteq> iv_elems s) \<and>
    (\<exists>s'. iv_union s t = Some (s', \<not> iv_elems t \<subseteq> iv_elems s) \<and> iv_ok s' \<and> iv_domain s' = iv_domain s \<and>
      iv_elems s' = iv_elems s \<union> iv_elems t) \<and>
    (\<exists>s'. iv_insert_all s = Some s' \<and> iv_ok s' \<and> iv_domain s' = iv_domain s \<and> iv_elems s' = {..<iv_domain s})"
  using superset_loop_eq [of "iter_intervals t" None "iter_intervals s"] iter_intervals_ok [OF assms(1)] iter_intervals_ok [OF assms(2)]
    iv_union_returns [OF assms] iv_insert_all_returns [OF assms(1)]
  by (simp add: iv_superset_def returns_def)

theorem interval_relations_witness:
  "let s = \<lparr>iv_map = [(1, 4), (7, 9)], iv_domain = 12\<rparr>; t = \<lparr>iv_map = [(2, 3), (8, 8)], iv_domain = 12\<rparr> in
   iv_ok s \<and> iv_ok t \<and> iv_superset s t \<and> iv_elems t \<subseteq> iv_elems s \<and> \<not> iv_superset t s"
proof -
  let ?s = "\<lparr>iv_map = [(1, 4), (7, 9)], iv_domain = 12\<rparr>" and ?t = "\<lparr>iv_map = [(2, 3), (8, 8)], iv_domain = 12\<rparr>"
  have ok: "iv_ok ?s" "iv_ok ?t" "iv_domain ?t = iv_domain ?s" by (simp_all add: iv_ok_def)
  have ev: "iv_superset ?s ?t" "\<not> iv_superset ?t ?s" by code_simp+
  show ?thesis using interval_relations [OF ok] ok ev by (simp add: Let_def)
qed

end
