(* ===== verification/Interval_Matrix.thy ===== *)
theory Interval_Matrix
  imports Interval_Relations
begin

text \<open>
  \<open>SparseIntervalMatrix\<close> of \<open>rustc_index/src/interval.rs\<close>: a vector of interval sets that
  grows with the rows that are written; a row past the end stands for the empty set.
\<close>

subsection \<open>Operations\<close>

record sparse_interval_matrix =
  im_rows :: "interval_set list"
  im_column_size :: nat

definition im_new :: "nat \<Rightarrow> sparse_interval_matrix" where
  "im_new cs = \<lparr>im_rows = [], im_column_size = cs\<rparr>"

definition im_row_indices :: "sparse_interval_matrix \<Rightarrow> nat list" where
  "im_row_indices self = [0..<length (im_rows self)]"

definition im_row :: "sparse_interval_matrix \<Rightarrow> nat \<Rightarrow> interval_set option" where
  "im_row self row = idx (im_rows self) row"

definition im_ensure_row :: "sparse_interval_matrix \<Rightarrow> nat \<Rightarrow> sparse_interval_matrix" where
  "im_ensure_row self row =
     self\<lparr>im_rows := ensure_contains_elem (im_rows self) row (iv_new (im_column_size self))\<rparr>"

text \<open>\<open>self.ensure_row(row).f(..)\<close>: the row is made, updated through the reference, written back.\<close>

definition im_with_row ::
  "(interval_set \<Rightarrow> (interval_set \<times> 'r) option) \<Rightarrow> sparse_interval_matrix \<Rightarrow> nat \<Rightarrow> (sparse_interval_matrix \<times> 'r) option" where
  "im_with_row f self row = do {
     let self = im_ensure_row self row;
     s \<leftarrow> idx (im_rows self) row;
     (s, r) \<leftarrow> f s;
     rows \<leftarrow> idx_set (im_rows self) row s;
     Some (self\<lparr>im_rows := rows\<rparr>, r)
   }"

definition im_union_row :: "sparse_interval_matrix \<Rightarrow> nat \<Rightarrow> interval_set \<Rightarrow> (sparse_interval_matrix \<times> bool) option" where
  "im_union_row self row from_set = im_with_row (\<lambda>s. iv_union s from_set) self row"

definition im_union_rows :: "sparse_interval_matrix \<Rightarrow> nat \<Rightarrow> nat \<Rightarrow> (sparse_interval_matrix \<times> bool) option" where
  "im_union_rows self read write =
     (if read = write \<or> idx (im_rows self) read = None then Some (self, False)
      else do {
        let self = im_ensure_row self write;
        (read_row, write_row) \<leftarrow> pick2_mut (im_rows self) read write;
        (s, changed) \<leftarrow> iv_union write_row read_row;
        rows \<leftarrow> idx_set (im_rows self) write s;
        Some (self\<lparr>im_rows := rows\<rparr>, changed)
      })"

definition im_insert_all_into_row :: "sparse_interval_matrix \<Rightarrow> nat \<Rightarrow> (sparse_interval_matrix \<times> unit) option" where
  "im_insert_all_into_row self row = im_with_row (\<lambda>s. map_option (\<lambda>s'. (s', ())) (iv_insert_all s)) self row"

definition im_insert_range :: "sparse_interval_matrix \<Rightarrow> nat \<Rightarrow> range_bounds \<Rightarrow> (sparse_interval_matrix \<times> unit) option" where
  "im_insert_range self row rng = im_with_row (\<lambda>s. map_option (\<lambda>(s', _). (s', ())) (iv_insert_range s rng)) self row"

definition im_insert :: "sparse_interval_matrix \<Rightarrow> nat \<Rightarrow> nat \<Rightarrow> (sparse_interval_matrix \<times> bool) option" where
  "im_insert self row point = im_with_row (\<lambda>s. iv_insert_point s point) self row"

definition im_contains :: "sparse_interval_matrix \<Rightarrow> nat \<Rightarrow> nat \<Rightarrow> bool option" where
  "im_contains self row point =
     (case im_row self row of None \<Rightarrow> Some False | Some r \<Rightarrow> iv_contains r point)"

subsection \<open>The rows as sets\<close>

definition im_ok :: "sparse_interval_matrix \<Rightarrow> bool" where
  "im_ok m \<longleftrightarrow> im_column_size m < 2 ^ 32 \<and> (\<forall>s\<in>set (im_rows m). iv_ok s \<and> iv_domain s = im_column_size m)"

definition im_elems :: "sparse_interval_matrix \<Rightarrow> nat \<Rightarrow> nat set" where
  "im_elems m r = (if r < length (im_rows m) then iv_elems (im_rows m ! r) else {})"

definition im_returns :: "sparse_interval_matrix \<Rightarrow> nat \<Rightarrow> (sparse_interval_matrix \<times> 'r) option \<Rightarrow> nat set \<Rightarrow> 'r \<Rightarrow> bool" where
  "im_returns m r res X b \<longleftrightarrow>
     (\<exists>m'. res = Some (m', b) \<and> im_ok m' \<and> im_column_size m' = im_column_size m \<and> im_elems m' r = X \<and>
       (\<forall>r'. r' \<noteq> r \<longrightarrow> im_elems m' r' = im_elems m r'))"

lemma iv_new_ok: "d < 2 ^ 32 \<Longrightarrow> iv_ok (iv_new d) \<and> iv_domain (iv_new d) = d \<and> iv_elems (iv_new d) = {}"
  by (simp add: iv_new_def iv_ok_def iv_elems_def)

lemma im_ensure_row:
  assumes "im_ok m"
  shows "im_ok (im_ensure_row m r)" and "im_elems (im_ensure_row m r) r' = im_elems m r'"
    and "im_column_size (im_ensure_row m r) = im_column_size m" and "r < length (im_rows (im_ensure_row m r))"
    and "length (im_rows m) \<le> length (im_rows (im_ensure_row m r))"
proof -
  let ?e = "iv_new (im_column_size m)"
  have e: "iv_ok ?e" "iv_domain ?e = im_column_size m" "iv_elems ?e = {}" using assms iv_new_ok by (auto simp: im_ok_def)
  then show "im_ok (im_ensure_row m r)" "im_elems (im_ensure_row m r) r' = im_elems m r'"
    using assms by (auto simp: im_ok_def im_ensure_row_def im_elems_def ensure_contains_elem_def nth_append)
  show "im_column_size (im_ensure_row m r) = im_column_size m" "r < length (im_rows (im_ensure_row m r))"
    "length (im_rows m) \<le> length (im_rows (im_ensure_row m r))"
    by (simp_all add: im_ensure_row_def ensure_contains_elem)
qed

lemma im_returns_update:
  assumes "im_ok m" and "r < length (im_rows (im_ensure_row m r))"
    and "iv_ok s" and "iv_domain s = im_column_size m" and "iv_elems s = X"
    and "res = Some ((im_ensure_row m r)\<lparr>im_rows := (im_rows (im_ensure_row m r))[r := s]\<rparr>, b)"
  shows "im_returns m r res X b"
proof -
  let ?m = "im_ensure_row m r"
  note ens = im_ensure_row [OF assms(1)]
  have "im_ok (?m\<lparr>im_rows := (im_rows ?m)[r := s]\<rparr>)"
    using ens(1,3) assms(3,4) set_update_subset_insert [of "im_rows ?m" r s] by (auto simp: im_ok_def)
  moreover have "im_elems (?m\<lparr>im_rows := (im_rows ?m)[r := s]\<rparr>) r' = (if r' = r then X else im_elems ?m r')" for r'
    using assms(2,5) by (simp add: im_elems_def)
  ultimately show ?thesis using assms(6) ens(2,3) by (auto simp: im_returns_def)
qed

lemma im_with_row_returns:
  assumes "im_ok m"
    and f: "\<And>s. iv_ok s \<Longrightarrow> iv_domain s = im_column_size m \<Longrightarrow> iv_elems s = im_elems m r \<Longrightarrow>
      returns iv_domain iv_elems iv_ok s (f s) X b"
  shows "im_returns m r (im_with_row f m r) X b"
proof -
  let ?m = "im_ensure_row m r" let ?s = "im_rows ?m ! r"
  note ens = im_ensure_row [OF assms(1)]
  have "?s \<in> set (im_rows ?m)" using ens(4) [of r] by simp
  then have "iv_ok ?s" "iv_domain ?s = im_column_size m" using ens(1) [of r] ens(3) [of r] by (auto simp: im_ok_def)
  moreover have "iv_elems ?s = im_elems m r" using ens(2) [of r r] ens(4) [of r] by (simp add: im_elems_def)
  ultimately obtain s' where s': "f ?s = Some (s', b)" "iv_ok s'" "iv_domain s' = im_column_size m" "iv_elems s' = X"
    using f [of ?s] by (auto simp: returns_def)
  show ?thesis
    by (rule im_returns_update [OF assms(1) ens(4) s'(2-4)]) (use ens(4) [of r] s'(1) in \<open>simp add: im_with_row_def Let_def\<close>)
qed

lemma im_union_rows_returns:
  assumes "im_ok m"
  shows "im_returns m r (im_union_rows m read r) (im_elems m r \<union> im_elems m read) (\<not> im_elems m read \<subseteq> im_elems m r)"
proof (cases "read = r \<or> idx (im_rows m) read = None")
  case True
  then have "im_elems m read \<subseteq> im_elems m r" by (auto simp: im_elems_def idx_def split: if_splits)
  then show ?thesis using True assms by (auto simp: im_returns_def im_union_rows_def)
next
  case False
  let ?m = "im_ensure_row m r" let ?s = "im_rows ?m ! r" and ?t = "im_rows ?m ! read"
  note ens = im_ensure_row [OF assms]
  have read: "read < length (im_rows m)" "read \<noteq> r" using False by (auto simp: idx_def split: if_splits)
  have len: "r < length (im_rows ?m)" "read < length (im_rows ?m)" using ens(4,5) [of r] read(1) by simp_all
  then have mem: "?s \<in> set (im_rows ?m)" "?t \<in> set (im_rows ?m)" by simp_all
  have ok: "iv_ok ?s" "iv_ok ?t" "iv_domain ?t = iv_domain ?s" "iv_domain ?s = im_column_size m"
    using mem ens(1) [of r] ens(3) [of r] by (auto simp: im_ok_def)
  have el: "iv_elems ?s = im_elems m r" "iv_elems ?t = im_elems m read"
    using len ens(2) [of r r] ens(2) [of r read] by (simp_all add: im_elems_def)
  obtain s' where s': "iv_union ?s ?t = Some (s', \<not> im_elems m read \<subseteq> im_elems m r)" "iv_ok s'" "iv_domain s' = im_column_size m"
      "iv_elems s' = im_elems m r \<union> im_elems m read"
    using iv_union_returns [OF ok(1-3)] ok(4) el by (auto simp: returns_def)
  have "pick2_mut (im_rows ?m) read r = Some (?t, ?s)" by (rule pick2_mut_Some [OF read(2) len(2,1)])
  then show ?thesis
    using read len s'(1) by (intro im_returns_update [OF assms len(1) s'(2-4)]) (simp add: im_union_rows_def Let_def)
qed

text \<open>
  C37: a sparse interval matrix behaves as a family of sets, one per row, empty until
  touched: inserting a point or a range, filling a row, the union with an interval set and
  the union of two rows (also of a row with itself or with a row that does not exist)
  change that row only and as the set operation says; \<open>contains\<close> tests the cell.
\<close>

theorem interval_matrix_operations:
  assumes "im_ok m" and "c < im_column_size m" and "iv_range_ok rng (im_column_size m)"
    and "iv_ok t" and "iv_domain t = im_column_size m"
  shows "im_returns m r (im_insert m r c) (insert c (im_elems m r)) (c \<notin> im_elems m r) \<and>
    im_returns m r (im_insert_range m r rng) (im_elems m r \<union> range_set rng (im_column_size m)) () \<and>
    im_returns m r (im_insert_all_into_row m r) {..<im_column_size m} () \<and>
    im_returns m r (im_union_row m r t) (im_elems m r \<union> iv_elems t) (\<not> iv_elems t \<subseteq> im_elems m r) \<and>
    im_returns m r (im_union_rows m read r) (im_elems m r \<union> im_elems m read) (\<not> im_elems m read \<subseteq> im_elems m r) \<and>
    im_contains m r c = Some (c \<in> im_elems m r)"
proof (intro conjI)
  have cs: "im_column_size m < 2 ^ 32" using assms(1) by (simp add: im_ok_def)
  have point: "iv_range_ok (Included c, Included c) (im_column_size m)" "range_set (Included c, Included c) (im_column_size m) = {c}"
    using assms(2) cs by (auto simp: range_set_def)
  show "im_returns m r (im_insert m r c) (insert c (im_elems m r)) (c \<notin> im_elems m r)"
    unfolding im_insert_def iv_insert_point_def
  proof (rule im_with_row_returns [OF assms(1)])
    fix s assume "iv_ok s" "iv_domain s = im_column_size m" "iv_elems s = im_elems m r"
    then show "returns iv_domain iv_elems iv_ok s (iv_insert_range s (Included c, Included c)) (insert c (im_elems m r)) (c \<notin> im_elems m r)"
      using iv_insert_range_returns [of s "(Included c, Included c)"] point by simp
  qed
  show "im_returns m r (im_insert_range m r rng) (im_elems m r \<union> range_set rng (im_column_size m)) ()"
    unfolding im_insert_range_def
  proof (rule im_with_row_returns [OF assms(1)])
    fix s assume s: "iv_ok s" "iv_domain s = im_column_size m" "iv_elems s = im_elems m r"
    then obtain s' b where "iv_insert_range s rng = Some (s', b)" "iv_ok s'" "iv_domain s' = iv_domain s"
        "iv_elems s' = im_elems m r \<union> range_set rng (im_column_size m)"
      using iv_insert_range_returns [of s rng] assms(3) by (auto simp: returns_def)
    then show "returns iv_domain iv_elems iv_ok s (map_option (\<lambda>(s', _). (s', ())) (iv_insert_range s rng))
        (im_elems m r \<union> range_set rng (im_column_size m)) ()"
      by (simp add: returns_def)
  qed
  show "im_returns m r (im_insert_all_into_row m r) {..<im_column_size m} ()"
    unfolding im_insert_all_into_row_def
    by (rule im_with_row_returns [OF assms(1)]) (use iv_insert_all_returns in \<open>fastforce simp: returns_def\<close>)
  show "im_returns m r (im_union_row m r t) (im_elems m r \<union> iv_elems t) (\<not> iv_elems t \<subseteq> im_elems m r)"
    unfolding im_union_row_def
    by (rule im_with_row_returns [OF assms(1)]) (use iv_union_returns assms(4,5) in fastforce)
  show "im_returns m r (im_union_rows m read r) (im_elems m r \<union> im_elems m read) (\<not> im_elems m read \<subseteq> im_elems m r)"
    by (rule im_union_rows_returns [OF assms(1)])
  show "im_contains m r c = Some (c \<in> im_elems m r)"
    using assms(1,2) cs iv_contains_returns [of "im_rows m ! r" c]
    by (auto simp: im_contains_def im_row_def im_elems_def idx_def im_ok_def)
qed

theorem interval_matrix_operations_witness:
  "let m = im_new 12; t = \<lparr>iv_map = [(2, 3)], iv_domain = 12\<rparr> in im_ok m \<and> iv_ok t \<and>
     im_returns m 4 (im_union_row m 4 t) {2..3} True \<and> im_returns m 4 (im_insert m 4 7) {7} True \<and>
     im_returns m 4 (im_insert_range m 4 (Included 1, Unbounded)) {1..11} ()"
proof -
  let ?t = "\<lparr>iv_map = [(2, 3)], iv_domain = 12\<rparr>"
  have m: "im_ok (im_new 12)" "im_column_size (im_new 12) = 12" "im_elems (im_new 12) 4 = {}"
    by (simp_all add: im_ok_def im_new_def im_elems_def)
  have t: "iv_ok ?t" "iv_domain ?t = 12" "iv_elems ?t = {2..3}" by (simp_all add: iv_ok_def iv_elems_def)
  have "range_set (Included 1, Unbounded) 12 = {1..11}" by (auto simp: range_set_def)
  then show ?thesis
    using interval_matrix_operations [OF m(1) _ _ t(1), of 7 "(Included 1, Unbounded)" 4] m t by (simp add: Let_def)
qed

end
