(* ===== verification/Mem_Decoder.thy ===== *)
theory Mem_Decoder
  imports Index_Base "HOL-Library.Word"
begin

text \<open>
  \<open>MemDecoder\<close> of \<open>rustc_serialize/src/opaque.rs\<close>: a cursor into a slice of bytes. The
  three pointers are the slice and the offset of the cursor. \<open>None\<close> is the panic
  \<open>decoder_exhausted\<close>, or a read outside the slice, which the unchecked pointer
  operations would make undefined behaviour.
\<close>

unbundle bit_operations_syntax

type_synonym byte = "8 word"

record mem_decoder =
  md_data :: "byte list"
  md_current :: nat

definition md_new :: "byte list \<Rightarrow> nat \<Rightarrow> mem_decoder option" where
  "md_new data pos = do {
     slice_of data pos (length data);
     Some \<lparr>md_data = data, md_current = pos\<rparr>
   }"

definition md_len :: "mem_decoder \<Rightarrow> nat" where
  "md_len self = length (md_data self)"

definition md_remaining :: "mem_decoder \<Rightarrow> nat" where
  "md_remaining self = length (md_data self) - md_current self"

definition md_position :: "mem_decoder \<Rightarrow> nat" where
  "md_position self = md_current self"

definition md_read_u8 :: "mem_decoder \<Rightarrow> (byte \<times> mem_decoder) option" where
  "md_read_u8 self =
     (if md_current self = length (md_data self) then None
      else do {
        byte \<leftarrow> idx (md_data self) (md_current self);
        Some (byte, self\<lparr>md_current := md_current self + 1\<rparr>)
      })"

definition md_peek_byte :: "mem_decoder \<Rightarrow> byte option" where
  "md_peek_byte self =
     (if md_current self = length (md_data self) then None else idx (md_data self) (md_current self))"

definition md_read_raw_bytes :: "mem_decoder \<Rightarrow> nat \<Rightarrow> (byte list \<times> mem_decoder) option" where
  "md_read_raw_bytes self bytes =
     (if bytes > md_remaining self then None
      else do {
        slice \<leftarrow> slice_of (md_data self) (md_current self) (md_current self + bytes);
        Some (slice, self\<lparr>md_current := md_current self + bytes\<rparr>)
      })"

text \<open>\<open>read_array\<close>, with the conversion to an array of \<open>n\<close> bytes.\<close>

definition md_read_array :: "nat \<Rightarrow> mem_decoder \<Rightarrow> (byte list \<times> mem_decoder) option" where
  "md_read_array n self = do {
     (bytes, self) \<leftarrow> md_read_raw_bytes self n;
     rassert (length bytes = n);
     Some (bytes, self)
   }"

text \<open>\<open>to_le_bytes\<close> and \<open>from_le_bytes\<close> for an integer of any number of bytes.\<close>

definition to_le_bytes :: "'w::len word \<Rightarrow> byte list" where
  "to_le_bytes v = map (\<lambda>i. ucast (drop_bit (8 * i) v)) [0..<LENGTH('w) div 8]"

primrec from_le_bytes :: "byte list \<Rightarrow> 'w::len word" where
  "from_le_bytes [] = 0"
| "from_le_bytes (b # bs) = ucast b OR push_bit 8 (from_le_bytes bs)"

definition md_read_u16 :: "mem_decoder \<Rightarrow> (16 word \<times> mem_decoder) option" where
  "md_read_u16 self = do { (bytes, self) \<leftarrow> md_read_array 2 self; Some (from_le_bytes bytes, self) }"

definition md_read_i16 :: "mem_decoder \<Rightarrow> (16 word \<times> mem_decoder) option" where
  "md_read_i16 self = do { (bytes, self) \<leftarrow> md_read_array 2 self; Some (from_le_bytes bytes, self) }"

text \<open>
  \<open>with_position\<close>: the cursor is moved, the closure runs, and dropping the guard puts the
  cursor back.
\<close>

definition md_with_position :: "mem_decoder \<Rightarrow> nat \<Rightarrow> (mem_decoder \<Rightarrow> ('t \<times> mem_decoder) option) \<Rightarrow> ('t \<times> mem_decoder) option" where
  "md_with_position self pos func =
     (if pos \<ge> md_len self then None
      else do {
        let previous = md_current self;
        (r, self) \<leftarrow> func (self\<lparr>md_current := pos\<rparr>);
        Some (r, self\<lparr>md_current := previous\<rparr>)
      })"

subsection \<open>The bytes that are left\<close>

definition md_ok :: "mem_decoder \<Rightarrow> bool" where
  "md_ok d \<longleftrightarrow> md_current d \<le> length (md_data d)"

definition md_rest :: "mem_decoder \<Rightarrow> byte list" where
  "md_rest d = drop (md_current d) (md_data d)"

text \<open>\<open>d\<close> reads the bytes \<open>bs\<close> and is left as \<open>d'\<close>.\<close>

definition md_advance :: "mem_decoder \<Rightarrow> nat \<Rightarrow> mem_decoder" where
  "md_advance d n = d\<lparr>md_current := md_current d + n\<rparr>"

lemma md_rest_Cons:
  assumes "md_rest d = b # bs"
  shows "md_current d < length (md_data d)" and "md_data d ! md_current d = b" and "md_rest (md_advance d 1) = bs"
proof -
  show "md_current d < length (md_data d)" using assms by (cases "md_current d < length (md_data d)") (auto simp: md_rest_def)
  then show "md_data d ! md_current d = b" "md_rest (md_advance d 1) = bs"
    using assms Cons_nth_drop_Suc [of "md_current d" "md_data d"] by (simp_all add: md_rest_def md_advance_def)
qed

lemma md_read_u8_Cons: "md_rest d = b # bs \<Longrightarrow> md_read_u8 d = Some (b, md_advance d 1) \<and> md_rest (md_advance d 1) = bs"
  using md_rest_Cons [of d b bs] by (simp add: md_read_u8_def md_advance_def)

lemma md_advance_simps [simp]: "md_advance (md_advance d m) n = md_advance d (m + n)" "md_advance d 0 = d"
  by (simp_all add: md_advance_def add.assoc)

lemma md_read_raw_bytes_append:
  assumes "md_ok d" and "md_rest d = bs @ rest"
  shows "md_read_raw_bytes d (length bs) = Some (bs, md_advance d (length bs))" and "md_rest (md_advance d (length bs)) = rest"
proof -
  have len: "md_remaining d = length bs + length rest"
    using arg_cong [OF assms(2), of length] by (simp add: md_rest_def md_remaining_def)
  have take: "take (length bs) (drop (md_current d) (md_data d)) = bs" using assms(2) by (simp add: md_rest_def)
  have "md_current d + length bs \<le> length (md_data d)" using len assms(1) by (simp add: md_remaining_def md_ok_def)
  then show "md_read_raw_bytes d (length bs) = Some (bs, md_advance d (length bs))"
    using len take by (simp add: md_read_raw_bytes_def md_advance_def)
  show "md_rest (md_advance d (length bs)) = rest"
    using assms(2) by (simp add: md_rest_def md_advance_def) (metis add.commute append_eq_conv_conj drop_drop)
qed

subsection \<open>Little-endian bytes\<close>

lemma bit_from_le_bytes:
  "bit (from_le_bytes bs :: 'w::len word) i \<longleftrightarrow> i < LENGTH('w) \<and> i div 8 < length bs \<and> bit (bs ! (i div 8)) (i mod 8)"
proof (induction bs arbitrary: i)
  case (Cons b bs)
  show ?case
  proof (cases "i < 8")
    case True
    then show ?thesis by (auto simp: bit_or_iff bit_push_bit_iff bit_unsigned_iff)
  next
    case False
    then obtain j where j: "i = j + 8" by (metis le_add_diff_inverse2 not_less)
    have "\<not> bit b i" using False bit_imp_le_length [of b i] by auto
    moreover have "(j + 8) div 8 = Suc (j div 8)" "(j + 8) mod 8 = j mod 8" by simp_all
    ultimately show ?thesis by (auto simp: j bit_or_iff bit_push_bit_iff bit_unsigned_iff Cons.IH)
  qed
qed simp

lemma from_to_le_bytes:
  fixes v :: "'w::len word"
  assumes "8 dvd LENGTH('w)"
  shows "from_le_bytes (to_le_bytes v) = v"
proof (rule bit_word_eqI)
  fix i assume i: "i < LENGTH('w)"
  moreover obtain n where n: "LENGTH('w) = 8 * n" using assms by blast
  ultimately have "i div 8 < LENGTH('w) div 8" by (simp add: less_mult_imp_div_less mult.commute)
  then show "bit (from_le_bytes (to_le_bytes v) :: 'w word) i = bit v i"
    using i by (simp add: bit_from_le_bytes to_le_bytes_def bit_unsigned_iff bit_drop_bit_eq)
qed

lemma length_to_le_bytes: "length (to_le_bytes (v :: 'w::len word)) = LENGTH('w) div 8"
  by (simp add: to_le_bytes_def)

end
