(* ===== verification/Leb128.thy ===== *)
theory Leb128
  imports Mem_Decoder
begin

text \<open>
  \<open>rustc_serialize/src/leb128.rs\<close>: LEB128 encoding and decoding of the integer types. The
  macros are instantiated for several integer types; the model is over a word of any
  width, signed types being read with two's complement. The output buffer has the length
  \<open>max_leb128_len\<close> and is written without bounds checks: a write outside it is undefined
  behaviour, \<open>None\<close> in the model, as is reading a byte that was not written. In the
  decoder \<open>None\<close> is a panic: no byte is left, or a shift amount reaches the width.
\<close>

subsection \<open>Encoding\<close>

definition max_leb128_len :: "'w::len itself \<Rightarrow> nat" where
  "max_leb128_len _ = (LENGTH('w) div 8 * 8 + 6) div 7"

definition largest_max_leb128_len :: nat where
  "largest_max_leb128_len = max_leb128_len TYPE(128)"

text \<open>\<open>get_unchecked_mut\<close> of a slice of \<open>MaybeUninit<u8>\<close>, and \<open>slice_assume_init_ref\<close>.\<close>

definition set_unchecked :: "byte option list \<Rightarrow> nat \<Rightarrow> byte \<Rightarrow> byte option list option" where
  "set_unchecked out i b = idx_set out i (Some b)"

definition assume_init :: "byte option list \<Rightarrow> byte list option" where
  "assume_init xs = (if None \<in> set xs then None else Some (map the xs))"

function write_unsigned_loop :: "byte option list \<Rightarrow> nat \<Rightarrow> 'w::len word \<Rightarrow> (byte option list \<times> nat) option" where
  "write_unsigned_loop out i value =
     (if value < 0x80 then
        (case set_unchecked out i (ucast value) of None \<Rightarrow> None | Some out \<Rightarrow> Some (out, i + 1))
      else
        (case set_unchecked out i (ucast ((value AND 0x7f) OR 0x80)) of
           None \<Rightarrow> None
         | Some out \<Rightarrow> write_unsigned_loop out (i + 1) (drop_bit 7 value)))"
  by pat_completeness auto
termination
  by (relation "measure (\<lambda>(out, i, v). length out - i)") (auto simp: set_unchecked_def idx_set_def split: if_splits)

definition write_unsigned_leb128 :: "byte option list \<Rightarrow> 'w::len word \<Rightarrow> (byte list \<times> byte option list) option" where
  "write_unsigned_leb128 out value = do {
     (out, i) \<leftarrow> write_unsigned_loop out 0 value;
     init \<leftarrow> slice_of out 0 i;
     bytes \<leftarrow> assume_init init;
     Some (bytes, out)
   }"

function write_signed_loop :: "byte option list \<Rightarrow> nat \<Rightarrow> 'w::len word \<Rightarrow> (byte option list \<times> nat) option" where
  "write_signed_loop out i value =
     (let byte = ucast value AND 0x7f;
          value = signed_drop_bit 7 value;
          more = (\<not> (value = 0 \<and> byte AND 0x40 = 0 \<or> value = - 1 \<and> byte AND 0x40 \<noteq> 0));
          byte = (if more then byte OR 0x80 else byte)
      in case set_unchecked out i byte of
           None \<Rightarrow> None
         | Some out \<Rightarrow> if \<not> more then Some (out, i + 1) else write_signed_loop out (i + 1) value)"
  by pat_completeness auto
termination
  by (relation "measure (\<lambda>(out, i, v). length out - i)") (auto simp: set_unchecked_def idx_set_def split: if_splits)

definition write_signed_leb128 :: "byte option list \<Rightarrow> 'w::len word \<Rightarrow> (byte list \<times> byte option list) option" where
  "write_signed_leb128 out value = do {
     (out, i) \<leftarrow> write_signed_loop out 0 value;
     init \<leftarrow> slice_of out 0 i;
     bytes \<leftarrow> assume_init init;
     Some (bytes, out)
   }"

declare write_unsigned_loop.simps [simp del] write_signed_loop.simps [simp del]

subsection \<open>Decoding\<close>

text \<open>A left shift with an amount that must be below the width.\<close>

definition shl :: "'w::len word \<Rightarrow> nat \<Rightarrow> 'w word option" where
  "shl x n = (if n < LENGTH('w) then Some (push_bit n x) else None)"

lemma md_read_u8_decreases: "md_read_u8 d = Some (b, d') \<Longrightarrow> md_remaining d' < md_remaining d"
  by (auto simp: md_read_u8_def md_remaining_def idx_def split: if_splits)

function read_unsigned_loop :: "'w::len word \<Rightarrow> nat \<Rightarrow> mem_decoder \<Rightarrow> ('w word \<times> mem_decoder) option" where
  "read_unsigned_loop result shift decoder =
     (case md_read_u8 decoder of
        None \<Rightarrow> None
      | Some (byte, decoder) \<Rightarrow>
          if byte AND 0x80 = 0 then do { x \<leftarrow> shl (ucast byte) shift; Some (result OR x, decoder) }
          else (case shl (ucast (byte AND 0x7F)) shift of
                  None \<Rightarrow> None
                | Some x \<Rightarrow> read_unsigned_loop (result OR x) (shift + 7) decoder))"
  by pat_completeness auto
termination
  by (relation "measure (\<lambda>(r, s, d). md_remaining d)") (auto dest: md_read_u8_decreases)

definition read_unsigned_leb128 :: "mem_decoder \<Rightarrow> ('w::len word \<times> mem_decoder) option" where
  "read_unsigned_leb128 decoder = do {
     (byte, decoder) \<leftarrow> md_read_u8 decoder;
     if byte AND 0x80 = 0 then Some (ucast byte, decoder)
     else read_unsigned_loop (ucast (byte AND 0x7F)) 7 decoder
   }"

function read_signed_loop :: "'w::len word \<Rightarrow> nat \<Rightarrow> mem_decoder \<Rightarrow> ('w word \<times> nat \<times> byte \<times> mem_decoder) option" where
  "read_signed_loop result shift decoder =
     (case md_read_u8 decoder of
        None \<Rightarrow> None
      | Some (byte, decoder) \<Rightarrow>
          (case shl (ucast (byte AND 0x7F)) shift of
             None \<Rightarrow> None
           | Some x \<Rightarrow>
               if byte AND 0x80 = 0 then Some (result OR x, shift + 7, byte, decoder)
               else read_signed_loop (result OR x) (shift + 7) decoder))"
  by pat_completeness auto
termination
  by (relation "measure (\<lambda>(r, s, d). md_remaining d)") (auto dest: md_read_u8_decreases)

declare read_unsigned_loop.simps [simp del] read_signed_loop.simps [simp del]

definition read_signed_leb128 :: "mem_decoder \<Rightarrow> ('w::len word \<times> mem_decoder) option" where
  "read_signed_leb128 decoder = do {
     (result, shift, byte, decoder) \<leftarrow> read_signed_loop 0 0 decoder;
     if shift < LENGTH('w) \<and> byte AND 0x40 \<noteq> 0 then do {
       ext \<leftarrow> shl (NOT 0) shift;
       Some (result OR ext, decoder)
     }
     else Some (result, decoder)
   }"

subsection \<open>Reference encoding\<close>

text \<open>The encodings as base-128 digits of a number, the last byte below 128.\<close>

fun uleb :: "nat \<Rightarrow> byte list" where
  "uleb n = (if n < 128 then [of_nat n] else of_nat (n mod 128 + 128) # uleb (n div 128))"

function sleb :: "int \<Rightarrow> byte list" where
  "sleb z = (if - 64 \<le> z \<and> z < 64 then [of_int (z mod 128)] else of_int (z mod 128 + 128) # sleb (z div 128))"
  by pat_completeness auto
termination
proof (relation "measure (\<lambda>z. nat (if z < 0 then - z else z))")
  fix z :: int assume "\<not> (- 64 \<le> z \<and> z < 64)"
  then consider "64 \<le> z" | "z < - 64" by linarith
  then show "(z div 128, z) \<in> measure (\<lambda>z. nat (if z < 0 then - z else z))"
  proof cases
    case 1
    then have "z div 128 < z" "0 \<le> z div 128" by simp_all
    then show ?thesis using 1 by simp
  next
    case 2
    then have "z < z div 128" "z div 128 < 0" by linarith+
    then show ?thesis using 2 by simp
  qed
qed simp

declare uleb.simps [simp del] sleb.simps [simp del]

subsection \<open>Bytes\<close>

lemma ucast_of_nat_byte: "n < 256 \<Longrightarrow> (ucast (of_nat n :: byte) :: 'w::len word) = of_nat n"
  by (simp add: unsigned_of_nat take_bit_nat_eq_self)

lemma byte_and_0x80: "n < 256 \<Longrightarrow> (of_nat n :: byte) AND 0x80 = 0 \<longleftrightarrow> n < 128"
proof -
  assume n: "n < 256"
  have "(of_nat n :: byte) AND 2 ^ 7 = 0 \<longleftrightarrow> \<not> bit (of_nat n :: byte) 7" by (rule and_exp_eq_0_iff_not_bit)
  also have "bit (of_nat n :: byte) 7 \<longleftrightarrow> odd (n div 128)" by (simp add: bit_of_nat_iff bit_iff_odd [of n 7])
  also have "\<dots> \<longleftrightarrow> 128 \<le> n"
  proof (cases "n < 128")
    case False
    then have "n div 128 = 1" using n by (intro div_nat_eqI) simp_all
    then show ?thesis using False by simp
  qed simp
  finally show ?thesis by (simp add: not_le)
qed

lemma byte_and_0x7F: "(of_nat n :: byte) AND 0x7F = of_nat (n mod 128)"
proof -
  have "(of_nat n :: byte) AND 0x7F = take_bit 7 (of_nat n)" by (simp add: take_bit_eq_mask mask_eq_exp_minus_1)
  also have "\<dots> = of_nat (take_bit 7 n)" by (rule take_bit_of_nat)
  finally show ?thesis by (simp add: take_bit_eq_mod)
qed

lemma digits_or: "n = (n mod 128) OR push_bit 7 (n div 128)" for n :: nat
proof -
  have "n = take_bit 7 n OR push_bit 7 (drop_bit 7 n)"
  proof (rule bit_eqI)
    fix i
    show "bit n i = bit (take_bit 7 n OR push_bit 7 (drop_bit 7 n)) i"
      by (cases "i < 7") (simp_all add: bit_or_iff bit_take_bit_iff bit_push_bit_iff bit_drop_bit_eq)
  qed
  then show ?thesis by (simp only: take_bit_eq_mod drop_bit_eq_div) simp
qed

lemma of_nat_digits: "(of_nat n :: 'w::len word) = of_nat (n mod 128) OR push_bit 7 (of_nat (n div 128))"
  by (metis digits_or of_nat_or_eq of_nat_push_bit)

lemma mod_or_128: "(n mod 128) OR 128 = n mod 128 + (128 :: nat)"
proof -
  have "take_bit 7 n + 2 ^ 7 = take_bit 7 n OR 2 ^ 7"
    by (rule disjunctive_add_eq_or) (simp only: and_exp_eq_0_iff_not_bit, simp add: bit_take_bit_iff)
  then show ?thesis by (simp add: take_bit_eq_mod)
qed

subsection \<open>Unsigned round trip\<close>

lemma read_unsigned_loop_uleb:
  fixes r :: "'w::len word"
  assumes "md_rest d = uleb n @ rest" and "shift < LENGTH('w)" and "n < 2 ^ (LENGTH('w) - shift)"
  shows "read_unsigned_loop r shift d = Some (r OR push_bit shift (of_nat n), md_advance d (length (uleb n)))"
  using assms
proof (induction n arbitrary: r shift d rule: uleb.induct)
  case (1 n)
  show ?case
  proof (cases "n < 128")
    case True
    then have u: "uleb n = [of_nat n]" by (simp add: uleb.simps)
    then have "md_read_u8 d = Some (of_nat n, md_advance d 1)" using 1(2) md_read_u8_Cons by simp
    then show ?thesis
      using True 1(3) by (simp add: read_unsigned_loop.simps u byte_and_0x80 ucast_of_nat_byte shl_def)
  next
    case False
    let ?b = "n mod 128 + 128"
    have b: "?b < 256" "\<not> ?b < 128" "?b mod 128 = n mod 128" "n mod 128 < 256" by simp_all
    have u: "uleb n = of_nat ?b # uleb (n div 128)" using False by (subst uleb.simps) simp
    have d: "md_read_u8 d = Some (of_nat ?b, md_advance d 1)" "md_rest (md_advance d 1) = uleb (n div 128) @ rest"
      using md_read_u8_Cons [of d "of_nat ?b"] 1(2) unfolding u by simp_all
    have "(2 :: nat) ^ 7 < 2 ^ (LENGTH('w) - shift)" using False 1(4) by simp
    then have s: "7 < LENGTH('w) - shift" by (rule power_less_imp_less_exp [rotated]) simp
    then have "LENGTH('w) - shift = 7 + (LENGTH('w) - (shift + 7))" by simp
    then have "(2 :: nat) ^ (LENGTH('w) - shift) = 128 * 2 ^ (LENGTH('w) - (shift + 7))"
      by (simp only: power_add) simp
    then have "n div 128 < 2 ^ (LENGTH('w) - (shift + 7))" using 1(4) by (simp add: less_mult_imp_div_less mult.commute)
    note IH' = 1(1) [OF False d(2) _ this]
    have IH: "read_unsigned_loop r' (shift + 7) (md_advance d 1) =
        Some (r' OR push_bit (shift + 7) (of_nat (n div 128)), md_advance d (1 + length (uleb (n div 128))))" for r' :: "'w word"
      using IH' [of r'] s by simp
    have v: "(ucast ((of_nat ?b :: byte) AND 0x7F) :: 'w word) = of_nat (n mod 128)"
      unfolding byte_and_0x7F b(3) by (rule ucast_of_nat_byte [OF b(4)])
    have "push_bit shift (of_nat n :: 'w word) = push_bit shift (of_nat (n mod 128)) OR push_bit (shift + 7) (of_nat (n div 128))"
      by (subst of_nat_digits) (simp add: push_bit_or push_bit_push_bit)
    then show ?thesis
      using 1(3) d(1) b IH v by (simp add: read_unsigned_loop.simps [of r shift d] u byte_and_0x80 shl_def or.assoc del: of_nat_add)
  qed
qed

lemma unat_small_numeral:
  "8 \<le> LENGTH('w) \<Longrightarrow> unat (0x80 :: 'w::len word) = 128" "8 \<le> LENGTH('w) \<Longrightarrow> unat (0x7f :: 'w::len word) = 127"
proof -
  assume "8 \<le> LENGTH('w)"
  then have "(2 :: nat) ^ 8 \<le> 2 ^ LENGTH('w)" by (rule power_increasing) simp
  then have "take_bit LENGTH('w) (128 :: nat) = 128" "take_bit LENGTH('w) (127 :: nat) = 127"
    by (simp_all add: take_bit_nat_eq_self)
  then show "unat (0x80 :: 'w word) = 128" "unat (0x7f :: 'w word) = 127"
    using unsigned_of_nat [where 'a = nat and 'b = 'w, of 128] unsigned_of_nat [where 'a = nat and 'b = 'w, of 127] by simp_all
qed

lemma encoded_digit:
  fixes v :: "'w::len word"
  assumes "8 \<le> LENGTH('w)"
  shows "(ucast ((v AND 0x7f) OR 0x80) :: byte) = of_nat (unat v mod 128 + 128)"
proof -
  have "unat v AND 127 = take_bit 7 (unat v)" by (simp add: take_bit_eq_mask mask_eq_exp_minus_1)
  then have "unat v AND 127 = unat v mod 128" by (simp add: take_bit_eq_mod)
  then have "unat ((v AND 0x7f) OR 0x80) = unat v mod 128 + 128"
    using unat_small_numeral [where 'w = 'w, OF assms] by (simp add: unsigned_or_eq unsigned_and_eq mod_or_128)
  then show ?thesis by (metis of_nat_unat)
qed

lemma set_unchecked_next:
  "set_unchecked (map Some bs @ x # out) (length bs) b = Some (map Some (bs @ [b]) @ out)"
  by (simp add: set_unchecked_def list_update_append)

lemma write_unsigned_loop_uleb:
  fixes v :: "'w::len word"
  assumes "8 \<le> LENGTH('w)" and "unat v < 128 ^ Suc k" and "length out = Suc k"
  shows "length (uleb (unat v)) \<le> Suc k \<and>
    write_unsigned_loop (map Some bs @ out) (length bs) v =
      Some (map Some (bs @ uleb (unat v)) @ drop (length (uleb (unat v))) out, length bs + length (uleb (unat v)))"
  using assms(2,3)
proof (induction k arbitrary: v bs out)
  case 0
  then obtain x where "out = [x]" by (metis length_0_conv length_Suc_conv)
  moreover have "v < 0x80" using 0 unat_small_numeral(1) [OF assms(1)] by (simp add: word_less_nat_alt)
  ultimately show ?case using 0 set_unchecked_next [of bs x "[]"] by (simp add: write_unsigned_loop.simps uleb.simps)
next
  case (Suc k)
  obtain x out' where out: "out = x # out'" "length out' = Suc k" using Suc.prems(2) by (metis length_Suc_conv)
  have small: "v < 0x80 \<longleftrightarrow> unat v < 128" using unat_small_numeral(1) [OF assms(1)] by (simp add: word_less_nat_alt)
  show ?case
  proof (cases "unat v < 128")
    case True
    then have u: "uleb (unat v) = [ucast v]" by (subst uleb.simps) simp
    show ?thesis
      using True small set_unchecked_next [of bs x out' "ucast v"] by (simp add: write_unsigned_loop.simps [of _ _ v] u out)
  next
    case False
    let ?b = "of_nat (unat v mod 128 + 128) :: byte"
    have div: "unat (drop_bit 7 v) = unat v div 128" unfolding unat_drop_bit_eq by (simp add: drop_bit_eq_div)
    then have "unat (drop_bit 7 v) < 128 ^ Suc k" using Suc.prems by (simp add: less_mult_imp_div_less mult.commute)
    note IH = Suc.IH [OF this out(2), of "bs @ [?b]", unfolded div]
    have u: "uleb (unat v) = ?b # uleb (unat v div 128)" using False by (subst uleb.simps) simp
    show ?thesis
      using False small IH set_unchecked_next [of bs x out' ?b] encoded_digit [OF assms(1), of v]
      by (simp add: write_unsigned_loop.simps [of _ _ v] u out del: of_nat_add)
  qed
qed

lemma assume_init_Some: "assume_init (map Some bs) = Some bs"
  by (auto simp: assume_init_def)

lemma max_leb128_len_enough:
  assumes "8 dvd LENGTH('w::len)"
  obtains k where "max_leb128_len TYPE('w) = Suc k" "LENGTH('w) \<le> 7 * Suc k" "8 \<le> LENGTH('w)"
proof -
  obtain n where n: "LENGTH('w) = 8 * n" using assms by blast
  then have pos: "0 < n" by (cases n) (use len_gt_0 [where 'a = 'w] in auto)
  have len: "max_leb128_len TYPE('w) = (8 * n + 6) div 7" by (simp add: max_leb128_len_def n)
  have "8 * n + 6 < 7 * ((8 * n + 6) div 7) + 7" by (metis add.commute div_mult_mod_eq mod_less_divisor mult.commute
        nat_add_left_cancel_less zero_less_numeral)
  then have "8 * n \<le> 7 * ((8 * n + 6) div 7)" by linarith
  moreover from this pos have "(8 * n + 6) div 7 \<noteq> 0" by linarith
  ultimately show thesis using that [of "(8 * n + 6) div 7 - 1"] len n pos by simp
qed

lemma write_unsigned_uleb:
  fixes v :: "'w::len word"
  assumes "8 dvd LENGTH('w)" and "length out = max_leb128_len TYPE('w)"
  shows "write_unsigned_leb128 out v = Some (uleb (unat v), map Some (uleb (unat v)) @ drop (length (uleb (unat v))) out)"
    and "length (uleb (unat v)) \<le> max_leb128_len TYPE('w)"
proof -
  obtain k where k: "max_leb128_len TYPE('w) = Suc k" "LENGTH('w) \<le> 7 * Suc k" "8 \<le> LENGTH('w)"
    using max_leb128_len_enough [OF assms(1)] by blast
  have "unat v < 2 ^ LENGTH('w)" by simp
  also have "\<dots> \<le> 2 ^ (7 * Suc k)" using k(2) by (rule power_increasing) simp
  also have "\<dots> = 128 ^ Suc k" by (simp only: power_mult) simp
  finally have "unat v < 128 ^ Suc k" .
  from write_unsigned_loop_uleb [OF k(3) this, of out "[]"]
  show "write_unsigned_leb128 out v = Some (uleb (unat v), map Some (uleb (unat v)) @ drop (length (uleb (unat v))) out)"
    "length (uleb (unat v)) \<le> max_leb128_len TYPE('w)"
    using assms(2) by (simp_all add: write_unsigned_leb128_def k(1) assume_init_Some)
qed

lemma read_unsigned_uleb:
  fixes v :: "'w::len word"
  assumes "8 \<le> LENGTH('w)" and "md_rest d = uleb (unat v) @ rest"
  shows "read_unsigned_leb128 d = Some (v, md_advance d (length (uleb (unat v))))"
proof -
  have "read_unsigned_loop 0 0 d = Some (v, md_advance d (length (uleb (unat v))))"
    using read_unsigned_loop_uleb [OF assms(2), of 0 "0 :: 'w word"] by simp
  moreover have "read_unsigned_leb128 d = read_unsigned_loop (0 :: 'w word) 0 d"
    by (simp add: read_unsigned_leb128_def read_unsigned_loop.simps [of 0 0 d] shl_def case_prod_unfold split: option.split)
  ultimately show ?thesis by simp
qed

text \<open>
  C38: unsigned LEB128 round trip, for an unsigned integer type of any whole number of
  bytes. Encoding any value writes within the buffer of \<open>max_leb128_len\<close> bytes that is
  written without bounds checks, whatever it holds, changes only the bytes it returns, and
  decoding the bytes returns the value and leaves the
  decoder right after them.
\<close>

theorem unsigned_leb128_roundtrip:
  fixes v :: "'w::len word"
  assumes "8 dvd LENGTH('w)" and "length out = max_leb128_len TYPE('w)"
  shows "\<exists>bytes. write_unsigned_leb128 out v = Some (bytes, map Some bytes @ drop (length bytes) out) \<and>
    length bytes \<le> max_leb128_len TYPE('w) \<and>
    (\<forall>d rest. md_rest d = bytes @ rest \<longrightarrow>
       read_unsigned_leb128 d = Some (v, d\<lparr>md_current := md_current d + length bytes\<rparr>))"
proof -
  have "8 \<le> LENGTH('w)" using assms(1) by (rule max_leb128_len_enough)
  then show ?thesis
    using write_unsigned_uleb [OF assms, of v] read_unsigned_uleb [of _ v] by (auto simp: md_advance_def)
qed

theorem unsigned_leb128_roundtrip_witness:
  "8 dvd LENGTH(16) \<and> length [None, Some 1, None] = max_leb128_len TYPE(16) \<and>
   (\<exists>bytes. write_unsigned_leb128 [None, Some 1, None] (300 :: 16 word) =
        Some (bytes, map Some bytes @ drop (length bytes) [None, Some 1, None]) \<and>
     read_unsigned_leb128 \<lparr>md_data = bytes @ [7], md_current = 0\<rparr> =
       Some (300 :: 16 word, \<lparr>md_data = bytes @ [7], md_current = length bytes\<rparr>))"
proof -
  let ?out = "[None, Some 1, None] :: byte option list"
  have len: "length ?out = max_leb128_len TYPE(16)" by (simp add: max_leb128_len_def)
  obtain bytes where "write_unsigned_leb128 ?out (300 :: 16 word) = Some (bytes, map Some bytes @ drop (length bytes) ?out)"
    "\<And>d rest. md_rest d = bytes @ rest \<Longrightarrow>
       read_unsigned_leb128 d = Some (300 :: 16 word, d\<lparr>md_current := md_current d + length bytes\<rparr>)"
    using unsigned_leb128_roundtrip [OF _ len, of "300"] by auto
  with len show ?thesis by (auto simp: md_rest_def)
qed

end
