(* ===== verification/Leb128_Signed.thy ===== *)
theory Leb128_Signed
  imports Leb128
begin

text \<open>
  Signed LEB128: the digits of a two's complement number, sign extension on reading.
\<close>

subsection \<open>Digits\<close>

lemma digits_or_int: "z = (z mod 128) OR push_bit 7 (z div 128)" for z :: int
proof -
  have "z = take_bit 7 z OR push_bit 7 (drop_bit 7 z)"
  proof (rule bit_eqI)
    fix i
    show "bit z i = bit (take_bit 7 z OR push_bit 7 (drop_bit 7 z)) i"
      by (cases "i < 7") (simp_all add: bit_or_iff bit_take_bit_iff bit_push_bit_iff bit_drop_bit_eq)
  qed
  then show ?thesis by (simp only: take_bit_eq_mod drop_bit_eq_div) simp
qed

lemma of_int_digits: "(of_int z :: 'w::len word) = of_int (z mod 128) OR push_bit 7 (of_int (z div 128))"
  by (metis digits_or_int of_int_or_eq of_int_push_bit)

lemma byte_of_int:
  assumes "0 \<le> z" and "z < 256"
  shows "(of_int z :: byte) = of_nat (nat z)" and "nat z < 256"
  using assms by simp_all

lemma byte_and_0x40: "n < 128 \<Longrightarrow> (of_nat n :: byte) AND 0x40 = 0 \<longleftrightarrow> n < 64"
proof -
  assume n: "n < 128"
  have "(of_nat n :: byte) AND 2 ^ 6 = 0 \<longleftrightarrow> \<not> bit (of_nat n :: byte) 6" by (rule and_exp_eq_0_iff_not_bit)
  also have "bit (of_nat n :: byte) 6 \<longleftrightarrow> odd (n div 64)" by (simp add: bit_of_nat_iff bit_iff_odd [of n 6])
  also have "\<dots> \<longleftrightarrow> 64 \<le> n"
  proof (cases "n < 64")
    case False
    then have "n div 64 = 1" using n by (intro div_nat_eqI) simp_all
    then show ?thesis using False by simp
  qed simp
  finally show ?thesis by (simp add: not_le)
qed

lemma sleb_last:
  fixes z :: int
  shows "z div 128 = 0 \<and> z mod 128 < 64 \<or> z div 128 = - 1 \<and> \<not> z mod 128 < 64 \<longleftrightarrow> - 64 \<le> z \<and> z < 64"
  by presburger

subsection \<open>Reading\<close>

text \<open>The value after the loop and the sign extension, from an intermediate state.\<close>

definition sign_extend :: "'w::len word \<times> nat \<times> byte \<times> mem_decoder \<Rightarrow> ('w word \<times> mem_decoder) option" where
  "sign_extend = (\<lambda>(result, shift, byte, decoder).
     if shift < LENGTH('w) \<and> byte AND 0x40 \<noteq> 0 then do { ext \<leftarrow> shl (NOT 0) shift; Some (result OR ext, decoder) }
     else Some (result, decoder))"

lemma sign_extend_last:
  fixes r :: "'w::len word"
  assumes "- 64 \<le> z" and "z < 64"
  shows "sign_extend (r OR push_bit shift (of_nat (nat (z mod 128))), shift + 7, of_nat (nat (z mod 128)), d) =
    Some (r OR push_bit shift (of_int z), d)"
proof (cases "z < 0")
  case False
  then have m: "z mod 128 = z" "nat z < 64" using assms by simp_all
  have "(of_nat (nat z) :: byte) AND 0x40 = 0" using byte_and_0x40 [of "nat z"] m(2) by simp
  then show ?thesis unfolding m(1) using False by (simp add: sign_extend_def)
next
  case True
  then have m: "z mod 128 = z + 128" "z div 128 = - 1" using assms by presburger+
  have "(of_nat (nat (z mod 128)) :: byte) AND 0x40 \<noteq> 0" using byte_and_0x40 [of "nat (z + 128)"] m(1) assms True by auto
  moreover have "(of_int z :: 'w word) = of_nat (nat (z mod 128)) OR push_bit 7 (- 1)"
    using of_int_digits [of z, where 'w = 'w] m(2) by simp
  moreover have "push_bit (shift + 7) (- 1 :: 'w word) = 0" if "\<not> shift + 7 < LENGTH('w)"
    by (rule bit_word_eqI) (use that in \<open>auto simp: bit_push_bit_iff simp del: push_bit_minus_one push_bit_minus_one_eq_not_mask\<close>)
  moreover have "push_bit shift (push_bit 7 (- 1 :: 'w word)) = push_bit (shift + 7) (- 1)" by (simp only: push_bit_push_bit)
  ultimately show ?thesis
    by (auto simp: sign_extend_def shl_def push_bit_or or.assoc)
qed

lemma read_signed_loop_sleb:
  fixes r :: "'w::len word"
  assumes "md_rest d = sleb z @ rest" and "shift < LENGTH('w)"
    and "- (2 ^ (LENGTH('w) - shift - 1)) \<le> z" and "z < 2 ^ (LENGTH('w) - shift - 1)"
  shows "(read_signed_loop r shift d \<bind> sign_extend) = Some (r OR push_bit shift (of_int z), md_advance d (length (sleb z)))"
  using assms
proof (induction z arbitrary: r shift d rule: sleb.induct)
  case (1 z)
  show ?case
  proof (cases "- 64 \<le> z \<and> z < 64")
    case True
    let ?n = "nat (z mod 128)"
    have n: "?n < 128" "(of_int (z mod 128) :: byte) = of_nat ?n" by simp_all
    have u: "sleb z = [of_nat ?n]" using True by (subst sleb.simps) simp
    have d: "md_read_u8 d = Some (of_nat ?n, md_advance d 1)" using md_read_u8_Cons 1(2) unfolding u by simp
    have "(ucast ((of_nat ?n :: byte) AND 0x7F) :: 'w word) = of_nat ?n"
      unfolding byte_and_0x7F using n(1) ucast_of_nat_byte [of ?n] by simp
    then have "read_signed_loop r shift d = Some (r OR push_bit shift (of_nat ?n), shift + 7, of_nat ?n, md_advance d 1)"
      using d 1(3) n(1) byte_and_0x80 [of ?n] by (simp add: read_signed_loop.simps [of r shift d] shl_def)
    then show ?thesis using sign_extend_last [of z r shift] True u by simp
  next
    case False
    let ?n = "nat (z mod 128 + 128)"
    have n: "?n < 256" "\<not> ?n < 128" "?n mod 128 = nat (z mod 128)" "nat (z mod 128) < 256"
      by (simp_all add: nat_add_distrib)
    have u: "sleb z = of_nat ?n # sleb (z div 128)" using False by (subst sleb.simps) simp
    have d: "md_read_u8 d = Some (of_nat ?n, md_advance d 1)" "md_rest (md_advance d 1) = sleb (z div 128) @ rest"
      using md_read_u8_Cons [of d "of_nat ?n"] 1(2) unfolding u by simp_all
    have "(2 :: int) ^ 6 < 2 ^ (LENGTH('w) - shift - 1)" using False 1(4,5) by auto
    then have s: "6 < LENGTH('w) - shift - 1" by (rule power_less_imp_less_exp [rotated]) simp
    then have "LENGTH('w) - shift - 1 = 7 + (LENGTH('w) - (shift + 7) - 1)" by simp
    then have "(2 :: int) ^ (LENGTH('w) - shift - 1) = 128 * 2 ^ (LENGTH('w) - (shift + 7) - 1)"
      by (simp only: power_add) simp
    then have "- (2 ^ (LENGTH('w) - (shift + 7) - 1)) \<le> z div 128" "z div 128 < 2 ^ (LENGTH('w) - (shift + 7) - 1)"
      using 1(4,5) by linarith+
    note IH' = 1(1) [OF False d(2) _ this]
    have IH: "(read_signed_loop r' (shift + 7) (md_advance d 1) \<bind> sign_extend) =
        Some (r' OR push_bit (shift + 7) (of_int (z div 128)), md_advance d (1 + length (sleb (z div 128))))" for r' :: "'w word"
      using IH' [of r'] s by simp
    have "(ucast ((of_nat ?n :: byte) AND 0x7F) :: 'w word) = of_nat (nat (z mod 128))"
      unfolding byte_and_0x7F n(3) by (rule ucast_of_nat_byte [OF n(4)])
    then have step: "read_signed_loop r shift d = read_signed_loop (r OR push_bit shift (of_int (z mod 128))) (shift + 7) (md_advance d 1)"
      using d(1) 1(3) n(1,2) byte_and_0x80 [of ?n] by (simp add: read_signed_loop.simps [of r shift d] shl_def)
    have "push_bit shift (of_int z :: 'w word) = push_bit shift (of_int (z mod 128)) OR push_bit (shift + 7) (of_int (z div 128))"
      by (subst of_int_digits) (simp add: push_bit_or push_bit_push_bit)
    then show ?thesis unfolding step IH by (simp add: u or.assoc)
  qed
qed

lemma read_signed_sleb:
  fixes v :: "'w::len word"
  assumes "md_rest d = sleb (sint v) @ rest"
  shows "read_signed_leb128 d = Some (v, md_advance d (length (sleb (sint v))))"
proof -
  have "read_signed_leb128 d = (read_signed_loop (0 :: 'w word) 0 d \<bind> sign_extend)"
    by (simp add: read_signed_leb128_def sign_extend_def)
  then show ?thesis
    using read_signed_loop_sleb [OF assms, of 0 "0 :: 'w word"] sint_ge [of v] sint_lt [of v] by simp
qed

subsection \<open>Writing\<close>

lemma signed_digit:
  fixes v :: "'w::len word"
  assumes "8 \<le> LENGTH('w)"
  shows "(ucast v :: byte) AND 0x7f = of_nat (nat (sint v mod 128))"
proof -
  have "(ucast v :: byte) = of_int (sint v)"
    by (rule bit_word_eqI) (use assms in \<open>auto simp: bit_unsigned_iff bit_word_of_int_iff bit_sint_iff simp del: of_int_sint\<close>)
  moreover have "(of_int (sint v) :: byte) AND 0x7f = take_bit 7 (of_int (sint v))"
    by (simp add: take_bit_eq_mask mask_eq_exp_minus_1)
  moreover have "take_bit 7 (of_int (sint v) :: byte) = of_int (take_bit 7 (sint v))" by (rule take_bit_of_int)
  ultimately show ?thesis by (simp add: take_bit_eq_mod)
qed

lemma or_0x80: "n < 128 \<Longrightarrow> (of_nat n :: byte) OR 0x80 = of_nat (n + 128)"
  using mod_or_128 [of n] by (metis mod_less of_nat_numeral of_nat_or_eq)

lemma write_signed_loop_unfold:
  fixes v :: "'w::len word"
  assumes "8 \<le> LENGTH('w)"
  shows "write_signed_loop out i v =
    (let z = sint v; b = if - 64 \<le> z \<and> z < 64 then of_int (z mod 128) else of_int (z mod 128 + 128) in
     case set_unchecked out i b of None \<Rightarrow> None
     | Some out \<Rightarrow> if - 64 \<le> z \<and> z < 64 then Some (out, i + 1) else write_signed_loop out (i + 1) (signed_drop_bit 7 v))"
proof -
  let ?n = "nat (sint v mod 128)" and ?v = "signed_drop_bit 7 v"
  have n: "?n < 128" by simp
  have div: "sint ?v = sint v div 128" unfolding sint_signed_drop_bit_eq by (simp add: drop_bit_eq_div)
  have v: "?v = 0 \<longleftrightarrow> sint v div 128 = 0" "?v = - 1 \<longleftrightarrow> sint v div 128 = - 1"
    unfolding div [symmetric] using signed_word_eqI [of ?v 0] signed_word_eqI [of ?v "- 1"] by auto
  have "?n < 64 \<longleftrightarrow> sint v mod 128 < 64" by (simp add: nat_less_iff)
  then have more: "(?v = 0 \<and> (of_nat ?n :: byte) AND 0x40 = 0 \<or> ?v = - 1 \<and> (of_nat ?n :: byte) AND 0x40 \<noteq> 0) \<longleftrightarrow>
      - 64 \<le> sint v \<and> sint v < 64"
    unfolding v byte_and_0x40 [OF n] using sleb_last [of "sint v"] by blast
  have "(of_nat ?n :: byte) OR 0x80 = of_int (sint v mod 128 + 128)" unfolding or_0x80 [OF n] by simp
  then show ?thesis
    unfolding write_signed_loop.simps [of out i v] signed_digit [OF assms] Let_def more not_not by simp
qed

lemma write_signed_loop_sleb:
  fixes v :: "'w::len word"
  assumes "8 \<le> LENGTH('w)" and "- (64 * 128 ^ k) \<le> sint v" and "sint v < 64 * 128 ^ k" and "length out = Suc k"
  shows "length (sleb (sint v)) \<le> Suc k \<and>
    write_signed_loop (map Some bs @ out) (length bs) v =
      Some (map Some (bs @ sleb (sint v)) @ drop (length (sleb (sint v))) out, length bs + length (sleb (sint v)))"
  using assms(2-4)
proof (induction k arbitrary: v bs out)
  case 0
  then obtain x where "out = [x]" by (metis length_0_conv length_Suc_conv)
  moreover have "sleb (sint v) = [of_int (sint v mod 128)]" using 0 by (subst sleb.simps) simp
  ultimately show ?case
    using 0 set_unchecked_next [of bs x "[]"] by (simp add: write_signed_loop_unfold [OF assms(1), of _ _ v] Let_def)
next
  case (Suc k)
  obtain x out' where out: "out = x # out'" "length out' = Suc k" using Suc.prems(3) by (metis length_Suc_conv)
  show ?case
  proof (cases "- 64 \<le> sint v \<and> sint v < 64")
    case True
    then have u: "sleb (sint v) = [of_int (sint v mod 128)]" by (subst sleb.simps) simp
    show ?thesis
      using True set_unchecked_next [of bs x out'] by (simp add: write_signed_loop_unfold [OF assms(1), of _ _ v] u out Let_def)
  next
    case False
    let ?b = "of_int (sint v mod 128 + 128) :: byte"
    have div: "sint (signed_drop_bit 7 v) = sint v div 128" unfolding sint_signed_drop_bit_eq by (simp add: drop_bit_eq_div)
    have "(64 :: int) * 128 ^ Suc k = 128 * (64 * 128 ^ k)" by simp
    then have "- (64 * 128 ^ k) \<le> sint v div 128" "sint v div 128 < 64 * 128 ^ k" using Suc.prems(1,2) by linarith+
    note IH = Suc.IH [of "signed_drop_bit 7 v" out' "bs @ [?b]", unfolded div, OF this out(2)]
    have u: "sleb (sint v) = ?b # sleb (sint v div 128)" using False by (subst sleb.simps) simp
    show ?thesis
      unfolding write_signed_loop_unfold [OF assms(1), of _ _ v] Let_def if_not_P [OF False] u
      using IH set_unchecked_next [of bs x out' ?b] by (simp add: out del: of_int_add)
  qed
qed

lemma write_signed_sleb:
  fixes v :: "'w::len word"
  assumes "8 dvd LENGTH('w)" and "length out = max_leb128_len TYPE('w)"
  shows "write_signed_leb128 out v = Some (sleb (sint v), map Some (sleb (sint v)) @ drop (length (sleb (sint v))) out)"
    and "length (sleb (sint v)) \<le> max_leb128_len TYPE('w)"
proof -
  obtain k where k: "max_leb128_len TYPE('w) = Suc k" "LENGTH('w) \<le> 7 * Suc k" "8 \<le> LENGTH('w)"
    using max_leb128_len_enough [OF assms(1)] by blast
  have "(2 :: int) ^ (LENGTH('w) - 1) \<le> 2 ^ (6 + 7 * k)" using k(2) by (intro power_increasing) simp_all
  also have "\<dots> = 64 * 128 ^ k" by (simp only: power_add power_mult) simp
  finally have "(2 :: int) ^ (LENGTH('w) - 1) \<le> 64 * 128 ^ k" .
  then have "- (64 * 128 ^ k) \<le> sint v" "sint v < 64 * 128 ^ k" using sint_ge [of v] sint_lt [of v] by linarith+
  from write_signed_loop_sleb [OF k(3) this, of out "[]"]
  show "write_signed_leb128 out v = Some (sleb (sint v), map Some (sleb (sint v)) @ drop (length (sleb (sint v))) out)"
    "length (sleb (sint v)) \<le> max_leb128_len TYPE('w)"
    using assms(2) by (simp_all add: write_signed_leb128_def k(1) assume_init_Some)
qed

text \<open>
  C39: signed LEB128 round trip, for a signed integer type of any whole number of bytes.
  Encoding any value, negative ones included, writes within the buffer of
  \<open>max_leb128_len\<close> bytes that is written without bounds checks, whatever it holds, changes
  only the bytes it returns, and decoding them,
  with the sign extension of the last one, returns the value and leaves the decoder right
  after them.
\<close>

theorem signed_leb128_roundtrip:
  fixes v :: "'w::len word"
  assumes "8 dvd LENGTH('w)" and "length out = max_leb128_len TYPE('w)"
  shows "\<exists>bytes. write_signed_leb128 out v = Some (bytes, map Some bytes @ drop (length bytes) out) \<and>
    length bytes \<le> max_leb128_len TYPE('w) \<and>
    (\<forall>d rest. md_rest d = bytes @ rest \<longrightarrow>
       read_signed_leb128 d = Some (v, d\<lparr>md_current := md_current d + length bytes\<rparr>))"
  using write_signed_sleb [OF assms, of v] read_signed_sleb [of _ v] by (auto simp: md_advance_def)

theorem signed_leb128_roundtrip_witness:
  "8 dvd LENGTH(16) \<and> length [None, Some 1, None] = max_leb128_len TYPE(16) \<and>
   (\<exists>bytes. write_signed_leb128 [None, Some 1, None] (- 300 :: 16 word) =
        Some (bytes, map Some bytes @ drop (length bytes) [None, Some 1, None]) \<and>
     read_signed_leb128 \<lparr>md_data = bytes @ [7], md_current = 0\<rparr> =
       Some (- 300 :: 16 word, \<lparr>md_data = bytes @ [7], md_current = length bytes\<rparr>))"
proof -
  let ?out = "[None, Some 1, None] :: byte option list"
  have len: "length ?out = max_leb128_len TYPE(16)" by (simp add: max_leb128_len_def)
  obtain bytes where "write_signed_leb128 ?out (- 300 :: 16 word) = Some (bytes, map Some bytes @ drop (length bytes) ?out)"
    "\<And>d rest. md_rest d = bytes @ rest \<Longrightarrow>
       read_signed_leb128 d = Some (- 300 :: 16 word, d\<lparr>md_current := md_current d + length bytes\<rparr>)"
    using signed_leb128_roundtrip [OF _ len, of "- 300"] by auto
  with len show ?thesis by (auto simp: md_rest_def)
qed

end
