(* ===== verification/File_Encoder.thy ===== *)
theory File_Encoder
  imports Leb128_Signed
begin

text \<open>
  \<open>FileEncoder\<close> of \<open>rustc_serialize/src/opaque.rs\<close>: a buffered writer with delayed errors.
  The file is the bytes it holds and the outcomes of the coming calls of \<open>File::write\<close>:
  an error, or the number of bytes the operating system would take. After these outcomes
  every call takes the whole slice, so a run has any finite number of interruptions,
  short writes and errors. \<open>None\<close> is a panic or an access outside the buffer or to a byte
  of it that was never written, which the unchecked operations would make undefined
  behaviour.
\<close>

subsection \<open>Files\<close>

datatype io_error = Interrupted | WriteZero | Other_Error nat

record os_file =
  fl_contents :: "byte list"
  fl_script :: "(io_error + nat) list"

definition file_write :: "os_file \<Rightarrow> byte list \<Rightarrow> (io_error + nat) \<times> os_file" where
  "file_write f buf =
     (case fl_script f of
        [] \<Rightarrow> (Inr (length buf), f\<lparr>fl_contents := fl_contents f @ buf\<rparr>)
      | Inl e # script \<Rightarrow> (Inl e, f\<lparr>fl_script := script\<rparr>)
      | Inr n # script \<Rightarrow>
          (Inr (min n (length buf)), \<lparr>fl_contents = fl_contents f @ take n buf, fl_script = script\<rparr>))"

subsection \<open>The encoder\<close>

definition BUF_SIZE :: nat where
  "BUF_SIZE = 8192"

text \<open>\<open>fe_res\<close> is the recorded error, \<open>None\<close> for \<open>Ok(())\<close>.\<close>

record file_encoder =
  fe_buf :: "byte option list"
  fe_buffered :: nat
  fe_flushed :: nat
  fe_file :: os_file
  fe_res :: "io_error option"

text \<open>\<open>new\<close>, with the result of opening the file: it is empty, as it is truncated.\<close>

definition fe_new :: "io_error + (io_error + nat) list \<Rightarrow> io_error + file_encoder" where
  "fe_new opened =
     (case opened of
        Inl e \<Rightarrow> Inl e
      | Inr script \<Rightarrow> Inr \<lparr>fe_buf = replicate BUF_SIZE None, fe_buffered = 0, fe_flushed = 0,
          fe_file = \<lparr>fl_contents = [], fl_script = script\<rparr>, fe_res = None\<rparr>)"

definition fe_position :: "file_encoder \<Rightarrow> nat" where
  "fe_position self = fe_flushed self + fe_buffered self"

subsection \<open>Flushing\<close>

record buf_guard =
  bg_buffer :: "byte list"
  bg_encoder_buffered :: nat
  bg_encoder_flushed :: nat
  bg_flushed :: nat

definition bg_new :: "byte list \<Rightarrow> nat \<Rightarrow> nat \<Rightarrow> buf_guard option" where
  "bg_new buffer encoder_buffered encoder_flushed = do {
     rassert (length buffer = encoder_buffered);
     Some \<lparr>bg_buffer = buffer, bg_encoder_buffered = encoder_buffered,
       bg_encoder_flushed = encoder_flushed, bg_flushed = 0\<rparr>
   }"

definition bg_remaining :: "buf_guard \<Rightarrow> byte list option" where
  "bg_remaining self = slice_of (bg_buffer self) (bg_flushed self) (length (bg_buffer self))"

definition bg_consume :: "buf_guard \<Rightarrow> nat \<Rightarrow> buf_guard" where
  "bg_consume self amt = self\<lparr>bg_flushed := bg_flushed self + amt\<rparr>"

definition bg_done :: "buf_guard \<Rightarrow> bool" where
  "bg_done self \<longleftrightarrow> bg_flushed self \<ge> bg_encoder_buffered self"

text \<open>\<open>copy_within(from.., 0)\<close>.\<close>

definition copy_to_front :: "byte list \<Rightarrow> nat \<Rightarrow> byte list option" where
  "copy_to_front xs from =
     (if from \<le> length xs then Some (drop from xs @ drop (length xs - from) xs) else None)"

definition bg_drop :: "buf_guard \<Rightarrow> buf_guard option" where
  "bg_drop self =
     (if bg_flushed self > 0 then
        if bg_done self then
          Some (self\<lparr>bg_encoder_flushed := bg_encoder_flushed self + bg_encoder_buffered self,
                     bg_encoder_buffered := 0\<rparr>)
        else do {
          buffer \<leftarrow> copy_to_front (bg_buffer self) (bg_flushed self);
          left \<leftarrow> checked_sub (bg_encoder_buffered self) (bg_flushed self);
          Some (self\<lparr>bg_buffer := buffer,
                     bg_encoder_flushed := bg_encoder_flushed self + bg_flushed self,
                     bg_encoder_buffered := left\<rparr>)
        }
      else Some self)"

text \<open>The loop of \<open>flush\<close>: the guard, the file and the error it stopped with.\<close>

function flush_loop :: "buf_guard \<Rightarrow> os_file \<Rightarrow> (buf_guard \<times> os_file \<times> io_error option) option" where
  "flush_loop guard file =
     (if bg_done guard then Some (guard, file, None)
      else (case bg_remaining guard of
              None \<Rightarrow> None
            | Some buf \<Rightarrow>
                (case file_write file buf of
                   (Inr n, file) \<Rightarrow>
                     if n = 0 then Some (guard, file, Some WriteZero)
                     else flush_loop (bg_consume guard n) file
                 | (Inl e, file) \<Rightarrow>
                     if e = Interrupted then flush_loop guard file
                     else Some (guard, file, Some e))))"
  by pat_completeness auto
termination
  by (relation "measure (\<lambda>(g, f). length (fl_script f) + (length (bg_buffer g) - bg_flushed g))")
    (auto simp: file_write_def bg_remaining_def bg_consume_def slice_of_def split: list.splits sum.splits if_splits)

definition fe_flush :: "file_encoder \<Rightarrow> file_encoder option" where
  "fe_flush self =
     (if fe_res self \<noteq> None then Some self
      else do {
        init \<leftarrow> slice_of (fe_buf self) 0 (fe_buffered self);
        buffer \<leftarrow> assume_init init;
        guard \<leftarrow> bg_new buffer (fe_buffered self) (fe_flushed self);
        (guard, file, res) \<leftarrow> flush_loop guard (fe_file self);
        guard \<leftarrow> bg_drop guard;
        Some \<lparr>fe_buf = map Some (bg_buffer guard) @ drop (fe_buffered self) (fe_buf self),
              fe_buffered = bg_encoder_buffered guard, fe_flushed = bg_encoder_flushed guard,
              fe_file = file, fe_res = res\<rparr>
      })"

subsection \<open>Writing\<close>

text \<open>
  The beginning of \<open>write_one\<close>, \<open>write_all\<close> and the emitters: the local variable
  \<open>buffered\<close>, zero after a flush when fewer than \<open>n\<close> bytes are free.
\<close>

definition make_room :: "nat \<Rightarrow> file_encoder \<Rightarrow> (nat \<times> file_encoder) option" where
  "make_room n self =
     (if fe_buffered self + n > BUF_SIZE then do { self \<leftarrow> fe_flush self; Some (0, self) }
      else Some (fe_buffered self, self))"

definition write_one :: "file_encoder \<Rightarrow> byte \<Rightarrow> file_encoder option" where
  "write_one self value = do {
     (buffered, self) \<leftarrow> make_room 1 self;
     buf \<leftarrow> set_unchecked (fe_buf self) buffered value;
     Some (self\<lparr>fe_buf := buf, fe_buffered := buffered + 1\<rparr>)
   }"

text \<open>A copy of initialised bytes to an offset of the buffer.\<close>

definition copy_at :: "byte option list \<Rightarrow> nat \<Rightarrow> byte option list \<Rightarrow> byte option list option" where
  "copy_at dst i src =
     (if i + length src \<le> length dst then Some (take i dst @ src @ drop (i + length src) dst) else None)"

function unbuffered_loop :: "byte list \<Rightarrow> nat \<Rightarrow> os_file \<Rightarrow> nat \<times> os_file \<times> io_error option" where
  "unbuffered_loop buf flushed file =
     (if buf = [] then (flushed, file, None)
      else (case file_write file buf of
              (Inr n, file) \<Rightarrow>
                if n = 0 then (flushed, file, Some WriteZero)
                else unbuffered_loop (drop n buf) (flushed + n) file
            | (Inl e, file) \<Rightarrow>
                if e = Interrupted then unbuffered_loop buf flushed file
                else (flushed, file, Some e)))"
  by pat_completeness auto
termination
  by (relation "measure (\<lambda>(b, n, f). length (fl_script f) + length b)")
    (auto simp: file_write_def split: list.splits sum.splits)

declare flush_loop.simps [simp del] unbuffered_loop.simps [simp del]

definition write_all_unbuffered :: "file_encoder \<Rightarrow> byte list \<Rightarrow> file_encoder option" where
  "write_all_unbuffered self buf =
     (if fe_res self \<noteq> None then Some self
      else do {
        self \<leftarrow> (if fe_buffered self > 0 then fe_flush self else Some self);
        let (flushed, file, err) = unbuffered_loop buf (fe_flushed self) (fe_file self);
        Some (self\<lparr>fe_flushed := flushed, fe_file := file,
          fe_res := (if err = None then fe_res self else err)\<rparr>)
      })"

definition write_all :: "file_encoder \<Rightarrow> byte list \<Rightarrow> file_encoder option" where
  "write_all self buf =
     (if length buf \<le> BUF_SIZE then do {
        (buffered, self) \<leftarrow> make_room (length buf) self;
        dst \<leftarrow> copy_at (fe_buf self) buffered (map Some buf);
        Some (self\<lparr>fe_buf := dst, fe_buffered := buffered + length buf\<rparr>)
      }
      else write_all_unbuffered self buf)"

text \<open>The macro \<open>write_leb128\<close>, for the encoding routine it is given.\<close>

definition write_leb128 ::
  "(byte option list \<Rightarrow> 'w::len word \<Rightarrow> (byte list \<times> byte option list) option) \<Rightarrow> file_encoder \<Rightarrow> 'w word \<Rightarrow> file_encoder option" where
  "write_leb128 write_leb_fn self v = do {
     let max_encoded_len = max_leb128_len TYPE('w);
     (buffered, self) \<leftarrow> make_room max_encoded_len self;
     buf \<leftarrow> slice_of (fe_buf self) buffered (buffered + max_encoded_len);
     (encoded, buf) \<leftarrow> write_leb_fn buf v;
     dst \<leftarrow> copy_at (fe_buf self) buffered buf;
     Some (self\<lparr>fe_buf := dst, fe_buffered := buffered + length encoded\<rparr>)
   }"

text \<open>
  \<open>finish\<close> takes the encoder: its \<open>Drop\<close> runs after the result is computed, with the
  recorded error taken out. The result comes with the file that is left.
\<close>

definition fe_finish :: "file_encoder \<Rightarrow> ((io_error + nat) \<times> os_file) option" where
  "fe_finish self = do {
     self \<leftarrow> fe_flush self;
     let res = fe_res self;
     let self = self\<lparr>fe_res := None\<rparr>;
     let result = (case res of Some e \<Rightarrow> Inl e | None \<Rightarrow> Inr (fe_position self));
     self \<leftarrow> fe_flush self;
     Some (result, fe_file self)
   }"

subsection \<open>The emitters\<close>

definition emit_usize :: "file_encoder \<Rightarrow> 64 word \<Rightarrow> file_encoder option" where
  "emit_usize = write_leb128 write_unsigned_leb128"

definition emit_u128 :: "file_encoder \<Rightarrow> 128 word \<Rightarrow> file_encoder option" where
  "emit_u128 = write_leb128 write_unsigned_leb128"

definition emit_u64 :: "file_encoder \<Rightarrow> 64 word \<Rightarrow> file_encoder option" where
  "emit_u64 = write_leb128 write_unsigned_leb128"

definition emit_u32 :: "file_encoder \<Rightarrow> 32 word \<Rightarrow> file_encoder option" where
  "emit_u32 = write_leb128 write_unsigned_leb128"

definition emit_u16 :: "file_encoder \<Rightarrow> 16 word \<Rightarrow> file_encoder option" where
  "emit_u16 self v = write_all self (to_le_bytes v)"

definition emit_u8 :: "file_encoder \<Rightarrow> 8 word \<Rightarrow> file_encoder option" where
  "emit_u8 self v = write_one self v"

definition emit_isize :: "file_encoder \<Rightarrow> 64 word \<Rightarrow> file_encoder option" where
  "emit_isize = write_leb128 write_signed_leb128"

definition emit_i128 :: "file_encoder \<Rightarrow> 128 word \<Rightarrow> file_encoder option" where
  "emit_i128 = write_leb128 write_signed_leb128"

definition emit_i64 :: "file_encoder \<Rightarrow> 64 word \<Rightarrow> file_encoder option" where
  "emit_i64 = write_leb128 write_signed_leb128"

definition emit_i32 :: "file_encoder \<Rightarrow> 32 word \<Rightarrow> file_encoder option" where
  "emit_i32 = write_leb128 write_signed_leb128"

definition emit_i16 :: "file_encoder \<Rightarrow> 16 word \<Rightarrow> file_encoder option" where
  "emit_i16 self v = write_all self (to_le_bytes v)"

definition emit_raw_bytes :: "file_encoder \<Rightarrow> byte list \<Rightarrow> file_encoder option" where
  "emit_raw_bytes self s = write_all self s"

end
