(* ===== verification/File_Encoder_Props.thy ===== *)
theory File_Encoder_Props
  imports File_Encoder
begin

text \<open>
  What the encoder keeps: as long as no error is recorded, the file and the used part of
  the buffer together are exactly the bytes that were emitted. The invariant also tracks
  whether the operating system can only interrupt or shorten the writes, in which case no
  error is ever recorded.
\<close>

subsection \<open>The file\<close>

definition harmless :: "os_file \<Rightarrow> bool" where
  "harmless f \<longleftrightarrow> (\<forall>r \<in> set (fl_script f). r = Inl Interrupted \<or> (\<exists>n>0. r = Inr n))"

lemma file_write_cases:
  assumes "buf \<noteq> []"
  obtains (wrote) n f' where "file_write f buf = (Inr n, f')" "0 < n" "n \<le> length buf"
      "fl_contents f' = fl_contents f @ take n buf" "harmless f \<longrightarrow> harmless f'"
      "length (fl_script f') + length (drop n buf) < length (fl_script f) + length buf"
  | (zero) f' where "file_write f buf = (Inr 0, f')" "fl_contents f' = fl_contents f" "\<not> harmless f"
  | (interrupted) f' where "file_write f buf = (Inl Interrupted, f')" "fl_contents f' = fl_contents f"
      "harmless f \<longrightarrow> harmless f'" "length (fl_script f') < length (fl_script f)"
  | (failed) e f' where "file_write f buf = (Inl e, f')" "e \<noteq> Interrupted" "fl_contents f' = fl_contents f" "\<not> harmless f"
proof (cases "fl_script f")
  case Nil
  then show thesis using assms wrote [of "length buf"] by (simp add: file_write_def harmless_def)
next
  case (Cons r script)
  show thesis
  proof (cases r)
    case (Inl e)
    then show thesis
      using Cons interrupted failed [of e] by (cases "e = Interrupted") (auto simp: file_write_def harmless_def)
  next
    case (Inr n)
    then show thesis
      using Cons assms zero wrote [of "min n (length buf)"] by (cases n) (auto simp: file_write_def harmless_def min_def)
  qed
qed

lemma flush_loop_spec:
  assumes "bg_flushed g \<le> length (bg_buffer g)" and "bg_encoder_buffered g = length (bg_buffer g)"
  shows "\<exists>k f' r. flush_loop g f = Some (g\<lparr>bg_flushed := bg_flushed g + k\<rparr>, f', r) \<and>
    bg_flushed g + k \<le> length (bg_buffer g) \<and>
    fl_contents f' = fl_contents f @ take k (drop (bg_flushed g) (bg_buffer g)) \<and>
    (r = None \<longrightarrow> bg_flushed g + k = length (bg_buffer g)) \<and> (harmless f \<longrightarrow> r = None \<and> harmless f')"
  using assms
proof (induction g f rule: flush_loop.induct)
  case (1 g f)
  show ?case
  proof (cases "bg_done g")
    case True
    then show ?thesis using "1.prems" by (intro exI [of _ 0]) (auto simp: flush_loop.simps [of g f] bg_done_def)
  next
    case False
    let ?buf = "drop (bg_flushed g) (bg_buffer g)"
    have rem: "bg_remaining g = Some ?buf" "?buf \<noteq> []"
      using False "1.prems" by (simp_all add: bg_remaining_def bg_done_def)
    note step = flush_loop.simps [of g f] False rem(1)
    from rem(2) show ?thesis
    proof (cases rule: file_write_cases [of _ f])
      case (wrote n f')
      let ?g = "bg_consume g n"
      have "bg_flushed ?g \<le> length (bg_buffer ?g)" "bg_encoder_buffered ?g = length (bg_buffer ?g)"
        using wrote(3) "1.prems" by (simp_all add: bg_consume_def)
      from "1.IH"(2) [OF False rem(1) wrote(1) [symmetric] refl _ this] wrote(2)
      obtain k f'' r where IH: "flush_loop ?g f' = Some (?g\<lparr>bg_flushed := bg_flushed ?g + k\<rparr>, f'', r)"
        "bg_flushed ?g + k \<le> length (bg_buffer ?g)"
        "fl_contents f'' = fl_contents f' @ take k (drop (bg_flushed ?g) (bg_buffer ?g))"
        "r = None \<longrightarrow> bg_flushed ?g + k = length (bg_buffer ?g)" "harmless f' \<longrightarrow> r = None \<and> harmless f''" by blast
      have "take n ?buf @ take k (drop (n + bg_flushed g) (bg_buffer g)) = take (n + k) ?buf"
        by (simp add: take_add)
      then show ?thesis
        using IH wrote(2,4,5) by (intro exI [of _ "n + k"] exI [of _ f''] exI [of _ r])
          (auto simp: step wrote(1) bg_consume_def ac_simps)
    next
      case (zero f')
      then show ?thesis using "1.prems" by (intro exI [of _ 0]) (auto simp: step)
    next
      case (interrupted f')
      from "1.IH"(1) [OF False rem(1) interrupted(1) [symmetric] refl refl "1.prems"] interrupted
      show ?thesis by (auto simp: step)
    next
      case (failed e f')
      then show ?thesis using "1.prems" by (intro exI [of _ 0]) (auto simp: step)
    qed
  qed
qed

lemma unbuffered_loop_spec:
  "\<exists>k f' r. unbuffered_loop buf n f = (n + k, f', r) \<and> k \<le> length buf \<and> fl_contents f' = fl_contents f @ take k buf \<and>
    (r = None \<longrightarrow> k = length buf) \<and> (harmless f \<longrightarrow> r = None \<and> harmless f')"
proof (induction buf n f rule: unbuffered_loop.induct)
  case (1 buf n f)
  show ?case
  proof (cases "buf = []")
    case True
    then show ?thesis by (simp add: unbuffered_loop.simps)
  next
    case False
    note step = unbuffered_loop.simps [of buf n f] False
    from False show ?thesis
    proof (cases rule: file_write_cases [of _ f])
      case (wrote m f')
      from "1.IH"(2) [OF False wrote(1) [symmetric] refl] wrote(2)
      obtain k f'' r where IH: "unbuffered_loop (drop m buf) (n + m) f' = (n + m + k, f'', r)" "k \<le> length (drop m buf)"
        "fl_contents f'' = fl_contents f' @ take k (drop m buf)" "r = None \<longrightarrow> k = length (drop m buf)"
        "harmless f' \<longrightarrow> r = None \<and> harmless f''" by auto
      then show ?thesis
        using wrote(2-5) by (intro exI [of _ "m + k"] exI [of _ f''] exI [of _ r]) (auto simp: step wrote(1) take_add)
    next
      case (zero f')
      then show ?thesis by (intro exI [of _ 0]) (auto simp: step)
    next
      case (interrupted f')
      from "1.IH"(1) [OF False interrupted(1) [symmetric] refl refl] interrupted show ?thesis by (auto simp: step)
    next
      case (failed e f')
      then show ?thesis by (intro exI [of _ 0]) (auto simp: step)
    qed
  qed
qed

subsection \<open>The buffer\<close>

definition fe_holds :: "file_encoder \<Rightarrow> byte list \<Rightarrow> bool" where
  "fe_holds e bs \<longleftrightarrow> fe_buffered e = length bs \<and> length (fe_buf e) = BUF_SIZE \<and> take (length bs) (fe_buf e) = map Some bs"

lemma fe_holds_length: "fe_holds e bs \<Longrightarrow> length bs \<le> BUF_SIZE"
  unfolding fe_holds_def by (metis length_map length_take min.cobounded1)

lemma fe_flush_eq:
  assumes "fe_holds e bs" and "fe_res e = None"
  obtains k f r where "k \<le> length bs" "r = None \<longrightarrow> k = length bs"
    "fl_contents f = fl_contents (fe_file e) @ take k bs" "harmless (fe_file e) \<longrightarrow> r = None \<and> harmless f"
    "fe_flush e = Some \<lparr>fe_buf = map Some (if 0 < k \<and> k < length bs then drop k bs @ drop (length bs - k) bs else bs) @ drop (length bs) (fe_buf e),
       fe_buffered = length bs - k, fe_flushed = fe_flushed e + k, fe_file = f, fe_res = r\<rparr>"
proof -
  let ?g = "\<lparr>bg_buffer = bs, bg_encoder_buffered = length bs, bg_encoder_flushed = fe_flushed e, bg_flushed = 0\<rparr>"
  obtain k f r where spec: "flush_loop ?g (fe_file e) = Some (?g\<lparr>bg_flushed := k\<rparr>, f, r)" "k \<le> length bs"
    "fl_contents f = fl_contents (fe_file e) @ take k bs" "r = None \<longrightarrow> k = length bs"
    "harmless (fe_file e) \<longrightarrow> r = None \<and> harmless f"
    using flush_loop_spec [of ?g "fe_file e"] by auto
  have "slice_of (fe_buf e) 0 (fe_buffered e) = Some (map Some bs)"
    using assms(1) fe_holds_length [OF assms(1)] by (simp add: fe_holds_def)
  moreover have "bg_new bs (fe_buffered e) (fe_flushed e) = Some ?g"
    using assms(1) by (simp add: bg_new_def fe_holds_def)
  moreover have "bg_drop (?g\<lparr>bg_flushed := k\<rparr>) = Some (?g\<lparr>bg_flushed := k, bg_encoder_buffered := length bs - k,
      bg_encoder_flushed := fe_flushed e + k,
      bg_buffer := if 0 < k \<and> k < length bs then drop k bs @ drop (length bs - k) bs else bs\<rparr>)"
    using spec(2) by (auto simp: bg_drop_def bg_done_def copy_to_front_def)
  ultimately have "fe_flush e = Some \<lparr>fe_buf = map Some (if 0 < k \<and> k < length bs then drop k bs @ drop (length bs - k) bs else bs) @ drop (length bs) (fe_buf e),
       fe_buffered = length bs - k, fe_flushed = fe_flushed e + k, fe_file = f, fe_res = r\<rparr>"
    using assms spec(1) by (simp add: fe_flush_def assume_init_Some fe_holds_def)
  then show thesis using that spec by blast
qed

lemma fe_flush_spec:
  assumes "fe_holds e bs" and "fe_res e = None"
  obtains e' bs' where "fe_flush e = Some e'" "fe_holds e' bs'" "length bs' \<le> length bs"
    "fl_contents (fe_file e') @ bs' = fl_contents (fe_file e) @ bs"
    "fe_flushed e' + length (fl_contents (fe_file e)) = fe_flushed e + length (fl_contents (fe_file e'))"
    "fe_res e' = None \<longrightarrow> bs' = []" "harmless (fe_file e) \<longrightarrow> fe_res e' = None \<and> harmless (fe_file e')"
proof -
  obtain k f r where k: "k \<le> length bs" "r = None \<longrightarrow> k = length bs"
    "fl_contents f = fl_contents (fe_file e) @ take k bs" "harmless (fe_file e) \<longrightarrow> r = None \<and> harmless f"
    and eq: "fe_flush e = Some \<lparr>fe_buf = map Some (if 0 < k \<and> k < length bs then drop k bs @ drop (length bs - k) bs else bs) @ drop (length bs) (fe_buf e),
       fe_buffered = length bs - k, fe_flushed = fe_flushed e + k, fe_file = f, fe_res = r\<rparr>" (is "_ = Some ?e")
    by (rule fe_flush_eq [OF assms])
  have "fe_holds ?e (drop k bs)"
    using assms(1) fe_holds_length [OF assms(1)] k(1) by (auto simp: fe_holds_def)
  then show thesis using eq k by (intro that [of ?e "drop k bs"]) simp_all
qed

subsection \<open>The invariant\<close>

text \<open>
  The bytes \<open>w\<close> were emitted. \<open>g\<close> says that the file is harmless from the start.
\<close>

definition fe_inv :: "bool \<Rightarrow> file_encoder \<Rightarrow> byte list \<Rightarrow> bool" where
  "fe_inv g e w \<longleftrightarrow> (\<exists>bs. fe_holds e bs \<and>
     (fe_res e = None \<longrightarrow> fl_contents (fe_file e) @ bs = w \<and> fe_flushed e = length (fl_contents (fe_file e))) \<and>
     (g \<longrightarrow> fe_res e = None \<and> harmless (fe_file e)))"

lemma fe_inv_flush:
  assumes "fe_inv g e w"
  obtains e' where "fe_flush e = Some e'" "fe_inv g e' w" "fe_res e' = None \<longrightarrow> fe_buffered e' = 0"
proof -
  obtain bs where bs: "fe_holds e bs"
    "fe_res e = None \<longrightarrow> fl_contents (fe_file e) @ bs = w \<and> fe_flushed e = length (fl_contents (fe_file e))"
    "g \<longrightarrow> fe_res e = None \<and> harmless (fe_file e)" using assms by (auto simp: fe_inv_def)
  show thesis
  proof (cases "fe_res e = None")
    case True
    obtain e' bs' where "fe_flush e = Some e'" "fe_holds e' bs'"
      "fl_contents (fe_file e') @ bs' = fl_contents (fe_file e) @ bs"
      "fe_flushed e' + length (fl_contents (fe_file e)) = fe_flushed e + length (fl_contents (fe_file e'))"
      "fe_res e' = None \<longrightarrow> bs' = []" "harmless (fe_file e) \<longrightarrow> fe_res e' = None \<and> harmless (fe_file e')"
      by (rule fe_flush_spec [OF bs(1) True])
    then show thesis using bs True by (intro that [of e']) (auto simp: fe_inv_def fe_holds_def)
  next
    case False
    then show thesis using that [of e] assms by (auto simp: fe_flush_def)
  qed
qed

lemma make_room_inv:
  assumes "fe_inv g e w" and "n \<le> BUF_SIZE"
  obtains b e' where "make_room n e = Some (b, e')" "b + n \<le> BUF_SIZE" "fe_inv g (e'\<lparr>fe_buffered := b\<rparr>) w"
proof (cases "fe_buffered e + n > BUF_SIZE")
  case True
  obtain e' where e': "fe_flush e = Some e'" "fe_inv g e' w" "fe_res e' = None \<longrightarrow> fe_buffered e' = 0"
    using fe_inv_flush [OF assms(1)] by blast
  have "fe_inv g (e'\<lparr>fe_buffered := 0\<rparr>) w" using e'(2,3) by (auto simp: fe_inv_def fe_holds_def)
  then show thesis using that [of 0 e'] e'(1) True assms(2) by (simp add: make_room_def)
next
  case False
  then show thesis using that [of "fe_buffered e" e] assms(1) by (simp add: make_room_def)
qed

lemma fe_inv_append:
  assumes "fe_inv g (e\<lparr>fe_buffered := b\<rparr>) w" and "length buf = BUF_SIZE"
    and "take (b + length bs) buf = take b (fe_buf e) @ map Some bs"
  shows "fe_inv g (e\<lparr>fe_buf := buf, fe_buffered := b + length bs\<rparr>) (w @ bs)"
proof -
  obtain cs where "fe_holds (e\<lparr>fe_buffered := b\<rparr>) cs"
    "fe_res e = None \<longrightarrow> fl_contents (fe_file e) @ cs = w \<and> fe_flushed e = length (fl_contents (fe_file e))"
    "g \<longrightarrow> fe_res e = None \<and> harmless (fe_file e)" using assms(1) by (auto simp: fe_inv_def)
  then show ?thesis using assms(2,3) unfolding fe_inv_def by (intro exI [of _ "cs @ bs"]) (auto simp: fe_holds_def)
qed

lemma fe_inv_buf: "fe_inv g (e\<lparr>fe_buffered := b\<rparr>) w \<Longrightarrow> length (fe_buf e) = BUF_SIZE"
  by (auto simp: fe_inv_def fe_holds_def)

subsection \<open>Emitting bytes\<close>

text \<open>The operation never panics and appends the bytes to what was emitted.\<close>

definition emits :: "(file_encoder \<Rightarrow> file_encoder option) \<Rightarrow> byte list \<Rightarrow> bool" where
  "emits f bs \<longleftrightarrow> (\<forall>g e w. fe_inv g e w \<longrightarrow> (\<exists>e'. f e = Some e' \<and> fe_inv g e' (w @ bs)))"

lemma emitsI: "(\<And>g e w. fe_inv g e w \<Longrightarrow> \<exists>e'. f e = Some e' \<and> fe_inv g e' (w @ bs)) \<Longrightarrow> emits f bs"
  by (simp add: emits_def)

lemma emitsE:
  assumes "emits f bs" and "fe_inv g e w"
  obtains e' where "f e = Some e'" "fe_inv g e' (w @ bs)"
  using assms unfolding emits_def by blast

lemma emits_bind:
  assumes "emits f as" and "emits h bs"
  shows "emits (\<lambda>e. f e \<bind> h) (as @ bs)"
  using assms unfolding emits_def append_assoc [symmetric] by (metis bind.bind_lunit)

lemma emits_return: "emits Some []"
  by (simp add: emits_def)

lemma write_all_unbuffered_inv:
  assumes "fe_inv g e w"
  shows "\<exists>e'. write_all_unbuffered e bs = Some e' \<and> fe_inv g e' (w @ bs)"
proof (cases "fe_res e = None")
  case True
  obtain e' where e': "(if fe_buffered e > 0 then fe_flush e else Some e) = Some e'" "fe_inv g e' w"
    "fe_res e' = None \<longrightarrow> fe_buffered e' = 0"
    using assms fe_inv_flush [OF assms] by (cases "fe_buffered e > 0") auto
  obtain k f r where k: "unbuffered_loop bs (fe_flushed e') (fe_file e') = (fe_flushed e' + k, f, r)"
    "fl_contents f = fl_contents (fe_file e') @ take k bs" "r = None \<longrightarrow> k = length bs"
    "harmless (fe_file e') \<longrightarrow> r = None \<and> harmless f"
    using unbuffered_loop_spec [of bs "fe_flushed e'" "fe_file e'"] by blast
  have "fe_inv g (e'\<lparr>fe_flushed := fe_flushed e' + k, fe_file := f, fe_res := (if r = None then fe_res e' else r)\<rparr>) (w @ bs)"
    using e'(2,3) k(2-4) by (auto simp: fe_inv_def fe_holds_def)
  then show ?thesis using e'(1) k(1) True by (simp add: write_all_unbuffered_def)
next
  case False
  then show ?thesis using assms by (auto simp: write_all_unbuffered_def fe_inv_def)
qed

lemma emits_write_one: "emits (\<lambda>e. write_one e b) [b]"
proof (rule emitsI)
  fix g e w assume "fe_inv g e w"
  then obtain i e' where i: "make_room 1 e = Some (i, e')" "i + 1 \<le> BUF_SIZE" "fe_inv g (e'\<lparr>fe_buffered := i\<rparr>) w"
    by (rule make_room_inv [where n = 1]) (simp_all add: BUF_SIZE_def)
  have len: "length (fe_buf e') = BUF_SIZE" by (rule fe_inv_buf [OF i(3)])
  have "take (i + 1) ((fe_buf e')[i := Some b]) = take i (fe_buf e') @ map Some [b]"
    using i(2) len by (simp add: take_Suc_conv_app_nth)
  from fe_inv_append [OF i(3) _ , of "(fe_buf e')[i := Some b]" "[b]"] this len
  show "\<exists>e'. write_one e b = Some e' \<and> fe_inv g e' (w @ [b])"
    using i len by (simp add: write_one_def set_unchecked_def)
qed

lemma emits_write_all: "emits (\<lambda>e. write_all e bs) bs"
proof (rule emitsI)
  fix g e w assume inv: "fe_inv g e w"
  show "\<exists>e'. write_all e bs = Some e' \<and> fe_inv g e' (w @ bs)"
  proof (cases "length bs \<le> BUF_SIZE")
    case True
    obtain i e' where i: "make_room (length bs) e = Some (i, e')" "i + length bs \<le> BUF_SIZE"
      "fe_inv g (e'\<lparr>fe_buffered := i\<rparr>) w"
      using make_room_inv [OF inv True] by blast
    let ?buf = "take i (fe_buf e') @ map Some bs @ drop (i + length bs) (fe_buf e')"
    have len: "length (fe_buf e') = BUF_SIZE" by (rule fe_inv_buf [OF i(3)])
    from fe_inv_append [OF i(3), of ?buf bs] show ?thesis
      using True i len by (simp add: write_all_def copy_at_def)
  next
    case False
    then show ?thesis using write_all_unbuffered_inv [OF inv] by (simp add: write_all_def)
  qed
qed

lemma emits_write_leb128:
  fixes v :: "'w::len word"
  assumes "max_leb128_len TYPE('w) \<le> BUF_SIZE" and "length bs \<le> max_leb128_len TYPE('w)"
    and "\<And>out. length out = max_leb128_len TYPE('w) \<Longrightarrow> wr out v = Some (bs, map Some bs @ drop (length bs) out)"
  shows "emits (\<lambda>e. write_leb128 wr e v) bs"
proof (rule emitsI)
  fix g e w assume inv: "fe_inv g e w"
  let ?m = "max_leb128_len TYPE('w)"
  obtain i e' where i: "make_room ?m e = Some (i, e')" "i + ?m \<le> BUF_SIZE" "fe_inv g (e'\<lparr>fe_buffered := i\<rparr>) w"
    using make_room_inv [OF inv assms(1)] by blast
  have len: "length (fe_buf e') = BUF_SIZE" by (rule fe_inv_buf [OF i(3)])
  let ?out = "take ?m (drop i (fe_buf e'))"
  let ?buf = "take i (fe_buf e') @ (map Some bs @ drop (length bs) ?out) @ drop (i + ?m) (fe_buf e')"
  have out: "slice_of (fe_buf e') i (i + ?m) = Some ?out" "length ?out = ?m" using len i(2) by simp_all
  have "copy_at (fe_buf e') i (map Some bs @ drop (length bs) ?out) = Some ?buf"
    using len i(2) assms(2) out(2) by (simp add: copy_at_def)
  then have "write_leb128 wr e v = Some (e'\<lparr>fe_buf := ?buf, fe_buffered := i + length bs\<rparr>)"
    using i(1) out(1) assms(3) [OF out(2)] by (simp add: write_leb128_def Let_def)
  moreover have "fe_inv g (e'\<lparr>fe_buf := ?buf, fe_buffered := i + length bs\<rparr>) (w @ bs)"
    by (rule fe_inv_append [OF i(3)]) (use len i(2) assms(2) in simp_all)
  ultimately show "\<exists>e'. write_leb128 wr e v = Some e' \<and> fe_inv g e' (w @ bs)" by blast
qed

lemma max_leb128_len_small: "LENGTH('w::len) \<le> 128 \<Longrightarrow> max_leb128_len TYPE('w) \<le> BUF_SIZE"
proof -
  assume "LENGTH('w) \<le> 128"
  moreover have "LENGTH('w) div 8 * 8 \<le> LENGTH('w)" by (rule div_times_less_eq_dividend)
  ultimately have "(LENGTH('w) div 8 * 8 + 6) div 7 \<le> (128 + 6) div 7" by (intro div_le_mono) linarith
  then show ?thesis by (simp add: max_leb128_len_def BUF_SIZE_def)
qed

lemma emits_unsigned:
  fixes v :: "'w::len word"
  assumes "8 dvd LENGTH('w)" and "LENGTH('w) \<le> 128"
  shows "emits (\<lambda>e. write_leb128 write_unsigned_leb128 e v) (uleb (unat v))"
  using write_unsigned_uleb [OF assms(1)] Ex_list_of_length [of "max_leb128_len TYPE('w)"] max_leb128_len_small [OF assms(2)]
  by (intro emits_write_leb128) auto

lemma emits_signed:
  fixes v :: "'w::len word"
  assumes "8 dvd LENGTH('w)" and "LENGTH('w) \<le> 128"
  shows "emits (\<lambda>e. write_leb128 write_signed_leb128 e v) (sleb (sint v))"
  using write_signed_sleb [OF assms(1)] Ex_list_of_length [of "max_leb128_len TYPE('w)"] max_leb128_len_small [OF assms(2)]
  by (intro emits_write_leb128) auto

subsection \<open>A whole run\<close>

lemma fe_inv_new: "fe_new (Inr script) = Inr e \<Longrightarrow> fe_inv (harmless (fe_file e)) e []"
  by (auto simp: fe_new_def fe_inv_def fe_holds_def)

text \<open>
  After any emitted bytes, \<open>finish\<close> does not panic; when it returns \<open>Ok\<close> the file holds
  exactly these bytes and their number is returned; on a harmless file it returns \<open>Ok\<close>.
\<close>

lemma fe_finish_inv:
  assumes "fe_inv g e w"
  obtains r f where "fe_finish e = Some (r, f)" "\<forall>n. r = Inr n \<longrightarrow> fl_contents f = w \<and> n = length w" "g \<longrightarrow> (\<exists>n. r = Inr n)"
proof -
  obtain e1 where e1: "fe_flush e = Some e1" "fe_inv g e1 w" "fe_res e1 = None \<longrightarrow> fe_buffered e1 = 0"
    using fe_inv_flush [OF assms] by blast
  obtain bs where bs: "fe_holds e1 bs"
    "fe_res e1 = None \<longrightarrow> fl_contents (fe_file e1) @ bs = w \<and> fe_flushed e1 = length (fl_contents (fe_file e1))"
    "g \<longrightarrow> fe_res e1 = None" using e1(2) by (auto simp: fe_inv_def)
  have "fe_holds (e1\<lparr>fe_res := None\<rparr>) bs" using bs(1) by (simp add: fe_holds_def)
  then obtain e2 bs2 where e2: "fe_flush (e1\<lparr>fe_res := None\<rparr>) = Some e2"
    "fl_contents (fe_file e2) @ bs2 = fl_contents (fe_file e1) @ bs" "length bs2 \<le> length bs" by (rule fe_flush_spec) auto
  show thesis
  proof (cases "fe_res e1")
    case None
    then have "bs = []" using e1(3) bs(1) by (simp add: fe_holds_def)
    then show thesis
      using that [of "Inr (fe_position e1)" "fe_file e2"] None e1 e2 bs by (simp add: fe_finish_def fe_position_def)
  next
    case (Some err)
    then show thesis using that [of "Inl err" "fe_file e2"] e1(1) e2(1) bs(3) by (simp add: fe_finish_def)
  qed
qed

end
