(* ===== verification/Serialize.thy ===== *)
theory Serialize
  imports File_Encoder_Props
begin

text \<open>
  \<open>rustc_serialize/src/serialize.rs\<close>: the provided methods of the traits \<open>Encoder\<close> and
  \<open>Decoder\<close>, and the impls of \<open>Encodable\<close> and \<open>Decodable\<close> for the language's types, for the
  encoder and decoder of \<open>opaque.rs\<close>. An impl for a type constructor takes the encoder or
  decoder of its argument. A string is its UTF-8 bytes, a \<open>usize\<close> has 64 bits.
\<close>

subsection \<open>Encoder\<close>

definition STR_SENTINEL :: byte where
  "STR_SENTINEL = 0xC1"

definition emit_i8 :: "file_encoder \<Rightarrow> 8 word \<Rightarrow> file_encoder option" where
  "emit_i8 self v = emit_u8 self v"

definition emit_bool :: "file_encoder \<Rightarrow> bool \<Rightarrow> file_encoder option" where
  "emit_bool self v = emit_u8 self (if v then 1 else 0)"

definition emit_char :: "file_encoder \<Rightarrow> uchar \<Rightarrow> file_encoder option" where
  "emit_char self v = emit_u32 self (of_nat v)"

definition emit_str :: "file_encoder \<Rightarrow> byte list \<Rightarrow> file_encoder option" where
  "emit_str self v = do {
     self \<leftarrow> emit_usize self (of_nat (length v));
     self \<leftarrow> emit_raw_bytes self v;
     emit_u8 self STR_SENTINEL
   }"

definition emit_enum_variant :: "file_encoder \<Rightarrow> 64 word \<Rightarrow> (file_encoder \<Rightarrow> file_encoder option) \<Rightarrow> file_encoder option" where
  "emit_enum_variant self v_id f = do {
     self \<leftarrow> emit_usize self v_id;
     f self
   }"

subsection \<open>Decoder\<close>

text \<open>The macro \<open>read_leb128\<close> of \<open>opaque.rs\<close>, at the integer types.\<close>

definition md_read_usize :: "mem_decoder \<Rightarrow> (64 word \<times> mem_decoder) option" where
  "md_read_usize = read_unsigned_leb128"

definition md_read_u128 :: "mem_decoder \<Rightarrow> (128 word \<times> mem_decoder) option" where
  "md_read_u128 = read_unsigned_leb128"

definition md_read_u64 :: "mem_decoder \<Rightarrow> (64 word \<times> mem_decoder) option" where
  "md_read_u64 = read_unsigned_leb128"

definition md_read_u32 :: "mem_decoder \<Rightarrow> (32 word \<times> mem_decoder) option" where
  "md_read_u32 = read_unsigned_leb128"

definition md_read_isize :: "mem_decoder \<Rightarrow> (64 word \<times> mem_decoder) option" where
  "md_read_isize = read_signed_leb128"

definition md_read_i128 :: "mem_decoder \<Rightarrow> (128 word \<times> mem_decoder) option" where
  "md_read_i128 = read_signed_leb128"

definition md_read_i64 :: "mem_decoder \<Rightarrow> (64 word \<times> mem_decoder) option" where
  "md_read_i64 = read_signed_leb128"

definition md_read_i32 :: "mem_decoder \<Rightarrow> (32 word \<times> mem_decoder) option" where
  "md_read_i32 = read_signed_leb128"

definition md_read_i8 :: "mem_decoder \<Rightarrow> (8 word \<times> mem_decoder) option" where
  "md_read_i8 self = md_read_u8 self"

definition md_read_bool :: "mem_decoder \<Rightarrow> (bool \<times> mem_decoder) option" where
  "md_read_bool self = do {
     (value, self) \<leftarrow> md_read_u8 self;
     Some (value \<noteq> 0, self)
   }"

text \<open>\<open>char::from_u32\<close>.\<close>

definition char_from_u32 :: "32 word \<Rightarrow> uchar option" where
  "char_from_u32 bits = (if is_scalar (unat bits) then Some (unat bits) else None)"

definition md_read_char :: "mem_decoder \<Rightarrow> (uchar \<times> mem_decoder) option" where
  "md_read_char self = do {
     (bits, self) \<leftarrow> md_read_u32 self;
     c \<leftarrow> char_from_u32 bits;
     Some (c, self)
   }"

definition md_read_str :: "mem_decoder \<Rightarrow> (byte list \<times> mem_decoder) option" where
  "md_read_str self = do {
     (n, self) \<leftarrow> md_read_usize self;
     (bytes, self) \<leftarrow> md_read_raw_bytes self (unat n + 1);
     sentinel \<leftarrow> idx bytes (unat n);
     rassert (sentinel = STR_SENTINEL);
     s \<leftarrow> slice_of bytes 0 (unat n);
     Some (s, self)
   }"

subsection \<open>Encodable and Decodable\<close>

definition encode_nonzero :: "32 word \<Rightarrow> file_encoder \<Rightarrow> file_encoder option" where
  "encode_nonzero self s = emit_u32 s self"

definition decode_nonzero :: "mem_decoder \<Rightarrow> (32 word \<times> mem_decoder) option" where
  "decode_nonzero d = do {
     (v, d) \<leftarrow> md_read_u32 d;
     rassert (v \<noteq> 0);
     Some (v, d)
   }"

definition encode_slice :: "('a \<Rightarrow> file_encoder \<Rightarrow> file_encoder option) \<Rightarrow> 'a list \<Rightarrow> file_encoder \<Rightarrow> file_encoder option" where
  "encode_slice encode_elem self s = do {
     s \<leftarrow> emit_usize s (of_nat (length self));
     for_loop encode_elem self s
   }"

primrec decode_elems :: "(mem_decoder \<Rightarrow> ('a \<times> mem_decoder) option) \<Rightarrow> nat \<Rightarrow> mem_decoder \<Rightarrow> ('a list \<times> mem_decoder) option" where
  "decode_elems decode_elem 0 d = Some ([], d)"
| "decode_elems decode_elem (Suc n) d = do {
     (x, d) \<leftarrow> decode_elem d;
     (xs, d) \<leftarrow> decode_elems decode_elem n d;
     Some (x # xs, d)
   }"

definition decode_vec :: "(mem_decoder \<Rightarrow> ('a \<times> mem_decoder) option) \<Rightarrow> mem_decoder \<Rightarrow> ('a list \<times> mem_decoder) option" where
  "decode_vec decode_elem d = do {
     (n, d) \<leftarrow> md_read_usize d;
     decode_elems decode_elem (unat n) d
   }"

text \<open>The specialisations for bytes, in \<open>opaque.rs\<close>, and the decoder of \<open>[u8; N]\<close>.\<close>

definition encode_bytes :: "byte list \<Rightarrow> file_encoder \<Rightarrow> file_encoder option" where
  "encode_bytes self e = do {
     e \<leftarrow> emit_usize e (of_nat (length self));
     emit_raw_bytes e self
   }"

definition decode_bytes :: "mem_decoder \<Rightarrow> (byte list \<times> mem_decoder) option" where
  "decode_bytes d = do {
     (n, d) \<leftarrow> md_read_usize d;
     md_read_raw_bytes d (unat n)
   }"

definition decode_array :: "nat \<Rightarrow> mem_decoder \<Rightarrow> (byte list \<times> mem_decoder) option" where
  "decode_array N d = do {
     (n, d) \<leftarrow> md_read_usize d;
     rassert (unat n = N);
     decode_elems md_read_u8 (unat n) d
   }"

text \<open>\<open>IntEncodedWithFixedSize\<close>, in a build with or without debug assertions.\<close>

definition ENCODED_SIZE :: nat where
  "ENCODED_SIZE = 8"

definition encode_fixed :: "bool \<Rightarrow> 64 word \<Rightarrow> file_encoder \<Rightarrow> file_encoder option" where
  "encode_fixed debug_assertions self e = do {
     let start_pos = fe_position e;
     e \<leftarrow> emit_raw_bytes e (to_le_bytes self);
     let end_pos = fe_position e;
     if debug_assertions then do {
       n \<leftarrow> checked_sub end_pos start_pos;
       rassert (n = ENCODED_SIZE);
       Some e
     }
     else Some e
   }"

definition decode_fixed :: "mem_decoder \<Rightarrow> (64 word \<times> mem_decoder) option" where
  "decode_fixed decoder = do {
     (bytes, decoder) \<leftarrow> md_read_array ENCODED_SIZE decoder;
     Some (from_le_bytes bytes, decoder)
   }"

definition encode_option :: "('a \<Rightarrow> file_encoder \<Rightarrow> file_encoder option) \<Rightarrow> 'a option \<Rightarrow> file_encoder \<Rightarrow> file_encoder option" where
  "encode_option encode_elem self s =
     (case self of
        None \<Rightarrow> emit_enum_variant s 0 Some
      | Some v \<Rightarrow> emit_enum_variant s 1 (encode_elem v))"

definition decode_option :: "(mem_decoder \<Rightarrow> ('a \<times> mem_decoder) option) \<Rightarrow> mem_decoder \<Rightarrow> ('a option \<times> mem_decoder) option" where
  "decode_option decode_elem d = do {
     (n, d) \<leftarrow> md_read_usize d;
     if n = 0 then Some (None, d)
     else if n = 1 then do { (v, d) \<leftarrow> decode_elem d; Some (Some v, d) }
     else None
   }"

definition encode_result ::
  "('a \<Rightarrow> file_encoder \<Rightarrow> file_encoder option) \<Rightarrow> ('b \<Rightarrow> file_encoder \<Rightarrow> file_encoder option) \<Rightarrow> 'b + 'a \<Rightarrow>
   file_encoder \<Rightarrow> file_encoder option" where
  "encode_result encode_ok encode_err self s =
     (case self of
        Inr v \<Rightarrow> emit_enum_variant s 0 (encode_ok v)
      | Inl v \<Rightarrow> emit_enum_variant s 1 (encode_err v))"

definition decode_result ::
  "(mem_decoder \<Rightarrow> ('a \<times> mem_decoder) option) \<Rightarrow> (mem_decoder \<Rightarrow> ('b \<times> mem_decoder) option) \<Rightarrow>
   mem_decoder \<Rightarrow> (('b + 'a) \<times> mem_decoder) option" where
  "decode_result decode_ok decode_err d = do {
     (n, d) \<leftarrow> md_read_usize d;
     if n = 0 then do { (v, d) \<leftarrow> decode_ok d; Some (Inr v, d) }
     else if n = 1 then do { (v, d) \<leftarrow> decode_err d; Some (Inl v, d) }
     else None
   }"

text \<open>The macro \<open>tuple\<close>: the elements in order, each with the impl of its type.\<close>

definition encode_tuple :: "('a \<Rightarrow> file_encoder \<Rightarrow> file_encoder option) \<Rightarrow> 'a list \<Rightarrow> file_encoder \<Rightarrow> file_encoder option" where
  "encode_tuple encode_elem self s = for_loop encode_elem self s"

primrec decode_tuple :: "(mem_decoder \<Rightarrow> ('a \<times> mem_decoder) option) list \<Rightarrow> mem_decoder \<Rightarrow> ('a list \<times> mem_decoder) option" where
  "decode_tuple [] d = Some ([], d)"
| "decode_tuple (f # fs) d = do {
     (x, d) \<leftarrow> f d;
     (xs, d) \<leftarrow> decode_tuple fs d;
     Some (x # xs, d)
   }"

end
