(* ===== verification/Serialize_Codec.thy ===== *)
theory Serialize_Codec
  imports Serialize
begin

text \<open>
  Encoding and decoding fit together: the contract of a pair of impls as a locale, proved
  once for each primitive type and each type constructor, and the round trip of a value of
  any type built from them, through a file.
\<close>

subsection \<open>Reading back\<close>

text \<open>The decoder returns the value from the bytes and stops right after them.\<close>

definition reads :: "(mem_decoder \<Rightarrow> ('a \<times> mem_decoder) option) \<Rightarrow> byte list \<Rightarrow> 'a \<Rightarrow> bool" where
  "reads f bs a \<longleftrightarrow> (\<forall>d rest. md_ok d \<and> md_rest d = bs @ rest \<longrightarrow> f d = Some (a, md_advance d (length bs)))"

lemma md_advance_rest:
  assumes "md_ok d" and "md_rest d = bs @ rest"
  shows "md_ok (md_advance d (length bs))" and "md_rest (md_advance d (length bs)) = rest"
proof -
  show "md_rest (md_advance d (length bs)) = rest" by (rule md_read_raw_bytes_append(2) [OF assms])
  show "md_ok (md_advance d (length bs))"
    using assms(1) arg_cong [OF assms(2) [unfolded md_rest_def], of length] by (simp add: md_ok_def md_advance_def)
qed

lemma reads_return: "reads (\<lambda>d. Some (a, d)) [] a"
  by (simp add: reads_def)

lemma reads_bind:
  assumes "reads f as a" and "reads (h a) bs b"
  shows "reads (\<lambda>d. f d \<bind> (\<lambda>(x, d). h x d)) (as @ bs) b"
  unfolding reads_def
proof (intro allI impI)
  fix d rest assume d: "md_ok d \<and> md_rest d = (as @ bs) @ rest"
  then have "f d = Some (a, md_advance d (length as))" using assms(1) unfolding reads_def by (metis append_assoc)
  moreover have "h a (md_advance d (length as)) = Some (b, md_advance d (length as + length bs))"
    using assms(2) d md_advance_rest [of d as "bs @ rest"] unfolding reads_def by (metis append_assoc md_advance_simps(1))
  ultimately show "f d \<bind> (\<lambda>(x, d). h x d) = Some (b, md_advance d (length (as @ bs)))" by simp
qed

lemma reads_bind_return:
  assumes "reads f bs a" and "h a = b"
  shows "reads (\<lambda>d. f d \<bind> (\<lambda>(x, d). Some (h x, d))) bs b"
  using reads_bind [OF assms(1), of "\<lambda>x d. Some (h x, d)" "[]" b] reads_return [of b] assms(2) by simp

lemma reads_bind_nil:
  assumes "reads f bs a" and "reads (h a) [] b"
  shows "reads (\<lambda>d. f d \<bind> (\<lambda>(x, d). h x d)) bs b"
  using reads_bind [of f bs a h "[]" b] assms by simp

lemma reads_raw_bytes: "reads (\<lambda>d. md_read_raw_bytes d (length bs)) bs bs"
  unfolding reads_def using md_read_raw_bytes_append(1) by blast

lemma reads_raw_bytes_length: "n = length bs \<Longrightarrow> reads (\<lambda>d. md_read_raw_bytes d n) bs bs"
  by (simp add: reads_raw_bytes)

lemma reads_u8: "reads md_read_u8 [b] b"
  unfolding reads_def using md_read_u8_Cons by auto

lemma reads_unsigned: "8 \<le> LENGTH('w) \<Longrightarrow> reads read_unsigned_leb128 (uleb (unat v)) (v :: 'w::len word)"
  unfolding reads_def using read_unsigned_uleb by blast

lemma reads_signed: "reads read_signed_leb128 (sleb (sint v)) (v :: 'w::len word)"
  unfolding reads_def using read_signed_sleb by blast

subsection \<open>Codecs\<close>

text \<open>
  The contract of a type's pair of impls: a valid value is encoded to its bytes and
  decoded from them.
\<close>

locale codec =
  fixes enc :: "'a \<Rightarrow> file_encoder \<Rightarrow> file_encoder option"
    and dec :: "mem_decoder \<Rightarrow> ('a \<times> mem_decoder) option"
    and enc_bytes :: "'a \<Rightarrow> byte list"
    and valid :: "'a \<Rightarrow> bool"
  assumes emits: "valid a \<Longrightarrow> emits (enc a) (enc_bytes a)"
    and reads: "valid a \<Longrightarrow> reads dec (enc_bytes a) a"
begin

text \<open>A whole run over a fresh file.\<close>

lemma file_roundtrip:
  assumes "valid a" and "fe_new (Inr script) = Inr e"
  shows "\<exists>e' r f. enc a e = Some e' \<and> fe_finish e' = Some (r, f) \<and>
    (\<forall>n. r = Inr n \<longrightarrow> n = length (fl_contents f) \<and>
       dec \<lparr>md_data = fl_contents f, md_current = 0\<rparr> = Some (a, \<lparr>md_data = fl_contents f, md_current = n\<rparr>)) \<and>
    (harmless (fe_file e) \<longrightarrow> (\<exists>n. r = Inr n))"
proof -
  obtain e' where e': "enc a e = Some e'" "fe_inv (harmless (fe_file e)) e' (enc_bytes a)"
    using emitsE [OF emits [OF assms(1)] fe_inv_new [OF assms(2)]] by auto
  obtain r f where rf: "fe_finish e' = Some (r, f)" "\<forall>n. r = Inr n \<longrightarrow> fl_contents f = enc_bytes a \<and> n = length (enc_bytes a)"
    "harmless (fe_file e) \<longrightarrow> (\<exists>n. r = Inr n)"
    by (rule fe_finish_inv [OF e'(2)])
  have "dec \<lparr>md_data = enc_bytes a, md_current = 0\<rparr> =
      Some (a, \<lparr>md_data = enc_bytes a, md_current = length (enc_bytes a)\<rparr>)"
    using reads [OF assms(1)] unfolding reads_def by (auto simp: md_ok_def md_rest_def md_advance_def)
  then show ?thesis using e'(1) rf by auto
qed

lemma emits_for: "(\<And>a. a \<in> set xs \<Longrightarrow> valid a) \<Longrightarrow> emits (for_loop enc xs) (concat (map enc_bytes xs))"
proof (induction xs)
  case Nil
  then show ?case using emits_return by (simp add: emits_def)
next
  case (Cons a xs)
  then have "emits (\<lambda>e. enc a e \<bind> for_loop enc xs) (enc_bytes a @ concat (map enc_bytes xs))"
    by (intro emits_bind emits) simp_all
  then show ?case by (simp add: emits_def)
qed

lemma reads_elems: "(\<And>a. a \<in> set xs \<Longrightarrow> valid a) \<Longrightarrow> reads (decode_elems dec (length xs)) (concat (map enc_bytes xs)) xs"
proof (induction xs)
  case Nil
  then show ?case by (simp add: reads_def)
next
  case (Cons a xs)
  then have "reads (\<lambda>d. dec d \<bind> (\<lambda>(x, d). decode_elems dec (length xs) d \<bind> (\<lambda>(xs, d). Some (x # xs, d))))
      (enc_bytes a @ concat (map enc_bytes xs)) (a # xs)"
    by (intro reads_bind [of dec _ a] reads_bind_return [of _ _ xs] reads) simp_all
  then show ?case by (simp add: reads_def)
qed

end

subsection \<open>The primitive types\<close>

lemmas emit_defs = emit_usize_def emit_u128_def emit_u64_def emit_u32_def emit_u16_def emit_u8_def
  emit_isize_def emit_i128_def emit_i64_def emit_i32_def emit_i16_def emit_i8_def emit_raw_bytes_def

lemmas read_defs = md_read_usize_def md_read_u128_def md_read_u64_def md_read_u32_def
  md_read_isize_def md_read_i128_def md_read_i64_def md_read_i32_def

interpretation usize: codec "\<lambda>v e. emit_usize e v" md_read_usize "\<lambda>v. uleb (unat v)" "\<lambda>_. True"
  by unfold_locales (simp_all add: emit_defs read_defs emits_unsigned reads_unsigned)

interpretation u128: codec "\<lambda>v e. emit_u128 e v" md_read_u128 "\<lambda>v. uleb (unat v)" "\<lambda>_. True"
  by unfold_locales (simp_all add: emit_defs read_defs emits_unsigned reads_unsigned)

interpretation u64: codec "\<lambda>v e. emit_u64 e v" md_read_u64 "\<lambda>v. uleb (unat v)" "\<lambda>_. True"
  by unfold_locales (simp_all add: emit_defs read_defs emits_unsigned reads_unsigned)

interpretation u32: codec "\<lambda>v e. emit_u32 e v" md_read_u32 "\<lambda>v. uleb (unat v)" "\<lambda>_. True"
  by unfold_locales (simp_all add: emit_defs read_defs emits_unsigned reads_unsigned)

interpretation u8: codec "\<lambda>v e. emit_u8 e v" md_read_u8 "\<lambda>v. [v]" "\<lambda>_. True"
  by unfold_locales (simp_all add: emit_defs emits_write_one reads_u8)

interpretation isize: codec "\<lambda>v e. emit_isize e v" md_read_isize "\<lambda>v. sleb (sint v)" "\<lambda>_. True"
  by unfold_locales (simp_all add: emit_defs read_defs emits_signed reads_signed)

interpretation i128: codec "\<lambda>v e. emit_i128 e v" md_read_i128 "\<lambda>v. sleb (sint v)" "\<lambda>_. True"
  by unfold_locales (simp_all add: emit_defs read_defs emits_signed reads_signed)

interpretation i64: codec "\<lambda>v e. emit_i64 e v" md_read_i64 "\<lambda>v. sleb (sint v)" "\<lambda>_. True"
  by unfold_locales (simp_all add: emit_defs read_defs emits_signed reads_signed)

interpretation i32: codec "\<lambda>v e. emit_i32 e v" md_read_i32 "\<lambda>v. sleb (sint v)" "\<lambda>_. True"
  by unfold_locales (simp_all add: emit_defs read_defs emits_signed reads_signed)

interpretation i8: codec "\<lambda>v e. emit_i8 e v" md_read_i8 "\<lambda>v. [v]" "\<lambda>_. True"
  by unfold_locales (simp_all add: emit_defs md_read_i8_def [abs_def] emits_write_one reads_u8)

lemma reads_le_bytes:
  fixes v :: "'w::len word"
  assumes "8 dvd LENGTH('w)" and "n = LENGTH('w) div 8"
  shows "reads (\<lambda>d. md_read_array n d \<bind> (\<lambda>(bytes, d). Some (from_le_bytes bytes, d))) (to_le_bytes v) v"
proof -
  have "reads (md_read_array n) (to_le_bytes v) (to_le_bytes v)"
    using reads_raw_bytes_length [of n "to_le_bytes v"] assms(2)
    by (simp add: reads_def md_read_array_def length_to_le_bytes)
  then show ?thesis by (rule reads_bind_return) (rule from_to_le_bytes [OF assms(1)])
qed

lemma reads_fixed_width:
  "reads md_read_u16 (to_le_bytes v) v" "reads md_read_i16 (to_le_bytes v) v" "reads decode_fixed (to_le_bytes w) w"
  unfolding md_read_u16_def [abs_def] md_read_i16_def [abs_def] decode_fixed_def [abs_def]
  by (rule reads_le_bytes; simp add: ENCODED_SIZE_def)+

interpretation u16: codec "\<lambda>v e. emit_u16 e v" md_read_u16 to_le_bytes "\<lambda>_. True"
  by unfold_locales (simp_all add: emit_defs emits_write_all reads_fixed_width)

interpretation i16: codec "\<lambda>v e. emit_i16 e v" md_read_i16 to_le_bytes "\<lambda>_. True"
  by unfold_locales (simp_all add: emit_defs emits_write_all reads_fixed_width)

interpretation fixed: codec "encode_fixed False" decode_fixed to_le_bytes "\<lambda>_. True"
  by unfold_locales (simp_all add: encode_fixed_def [abs_def] emit_defs emits_write_all reads_fixed_width Let_def)

lemma unat_of_nat_64: "n < 2 ^ 64 \<Longrightarrow> unat (of_nat n :: 64 word) = n"
  by (simp add: unat_of_nat take_bit_nat_eq_self)

lemma emits_usize_length: "n < 2 ^ 64 \<Longrightarrow> emits (\<lambda>e. emit_usize e (of_nat n)) (uleb n)"
  using usize.emits [of "of_nat n"] by (simp add: unat_of_nat_64)

lemma reads_usize_length:
  assumes "n < 2 ^ 64" and "reads (h (of_nat n)) bs b"
  shows "reads (\<lambda>d. md_read_usize d \<bind> (\<lambda>(x, d). h x d)) (uleb n @ bs) b"
  using reads_bind [of md_read_usize "uleb n" "of_nat n" h bs b] usize.reads [of "of_nat n"] assms(2) unat_of_nat_64 [OF assms(1)] by simp

interpretation bool: codec "\<lambda>v e. emit_bool e v" md_read_bool "\<lambda>v. [if v then 1 else 0]" "\<lambda>_. True"
proof unfold_locales
  fix v :: bool
  show "emits (\<lambda>e. emit_bool e v) [if v then 1 else 0]"
    unfolding emit_bool_def by (rule u8.emits) simp
  show "reads md_read_bool [if v then 1 else 0] v"
    unfolding md_read_bool_def [abs_def] by (rule reads_bind_return [OF u8.reads]) simp_all
qed

interpretation char: codec "\<lambda>v e. emit_char e v" md_read_char uleb is_scalar
proof unfold_locales
  fix v :: uchar assume v: "is_scalar v"
  then have u: "unat (of_nat v :: 32 word) = v" by (auto simp: is_scalar_def unat_of_nat take_bit_nat_eq_self)
  show "emits (\<lambda>e. emit_char e v) (uleb v)" unfolding emit_char_def using u32.emits [of "of_nat v"] u by simp
  have "reads (\<lambda>d. char_from_u32 (of_nat v) \<bind> (\<lambda>c. Some (c, d))) [] v"
    using reads_return [of v] v u by (simp add: char_from_u32_def)
  then show "reads md_read_char (uleb v) v"
    unfolding md_read_char_def [abs_def] using u32.reads [of "of_nat v"] u by (intro reads_bind_nil [of md_read_u32]) simp_all
qed

interpretation nonzero: codec encode_nonzero decode_nonzero "\<lambda>v. uleb (unat v)" "\<lambda>v. v \<noteq> 0"
proof unfold_locales
  fix v :: "32 word" assume v: "v \<noteq> 0"
  show "emits (encode_nonzero v) (uleb (unat v))" unfolding encode_nonzero_def [abs_def] by (rule u32.emits) simp
  have "reads (\<lambda>d. rassert (v \<noteq> 0) \<bind> (\<lambda>_. Some (v, d))) [] v" using reads_return [of v] v by simp
  then show "reads decode_nonzero (uleb (unat v)) v"
    unfolding decode_nonzero_def [abs_def] by (rule reads_bind_nil [OF u32.reads [OF TrueI]])
qed

interpretation str: codec "\<lambda>v e. emit_str e v" md_read_str "\<lambda>v. uleb (length v) @ v @ [STR_SENTINEL]" "\<lambda>v. length v < 2 ^ 64"
proof unfold_locales
  fix v :: "byte list" assume v: "length v < 2 ^ 64"
  have "emits (\<lambda>e. emit_raw_bytes e v \<bind> (\<lambda>e. emit_u8 e STR_SENTINEL)) (v @ [STR_SENTINEL])"
    by (intro emits_bind) (simp_all add: emit_defs emits_write_all emits_write_one)
  then show "emits (\<lambda>e. emit_str e v) (uleb (length v) @ v @ [STR_SENTINEL])"
    unfolding emit_str_def by (rule emits_bind [OF emits_usize_length [OF v]])
  have "reads (\<lambda>d. md_read_raw_bytes d (length v + 1) \<bind> (\<lambda>(bytes, d). idx bytes (length v) \<bind>
      (\<lambda>sentinel. rassert (sentinel = STR_SENTINEL) \<bind> (\<lambda>_. slice_of bytes 0 (length v) \<bind> (\<lambda>s. Some (s, d))))))
      (v @ [STR_SENTINEL]) v"
    by (rule reads_bind_nil [OF reads_raw_bytes_length]) (simp_all add: reads_return)
  then show "reads md_read_str (uleb (length v) @ v @ [STR_SENTINEL]) v"
    unfolding md_read_str_def [abs_def] by (intro reads_usize_length [OF v]) (simp add: unat_of_nat_64 [OF v])
qed

interpretation bytes: codec encode_bytes decode_bytes "\<lambda>v. uleb (length v) @ v" "\<lambda>v. length v < 2 ^ 64"
proof unfold_locales
  fix v :: "byte list" assume v: "length v < 2 ^ 64"
  show "emits (encode_bytes v) (uleb (length v) @ v)"
    unfolding encode_bytes_def [abs_def]
    by (rule emits_bind [OF emits_usize_length [OF v]]) (simp add: emit_defs emits_write_all)
  show "reads decode_bytes (uleb (length v) @ v) v"
    unfolding decode_bytes_def [abs_def]
    by (rule reads_usize_length [OF v]) (rule reads_raw_bytes_length, rule unat_of_nat_64 [OF v])
qed

lemma codec_array: "N < 2 ^ 64 \<Longrightarrow> codec encode_bytes (decode_array N) (\<lambda>v. uleb (length v) @ v) (\<lambda>v. length v = N)"
proof unfold_locales
  fix v :: "byte list" assume N: "N < 2 ^ 64" and v: "length v = N"
  then show "emits (encode_bytes v) (uleb (length v) @ v)" by (intro bytes.emits) simp
  have "reads (decode_elems md_read_u8 N) v v" using u8.reads_elems [of v] v by simp
  then have "reads (\<lambda>d. rassert (unat (of_nat N :: 64 word) = N) \<bind> (\<lambda>_. decode_elems md_read_u8 (unat (of_nat N :: 64 word)) d)) v v"
    by (simp add: unat_of_nat_64 [OF N])
  then show "reads (decode_array N) (uleb (length v) @ v) v"
    unfolding decode_array_def [abs_def] v by (rule reads_usize_length [OF N])
qed

subsection \<open>The type constructors\<close>

lemma emits_variant: "n < 2 ^ 64 \<Longrightarrow> emits f bs \<Longrightarrow> emits (\<lambda>e. emit_enum_variant e (of_nat n) f) (uleb n @ bs)"
  unfolding emit_enum_variant_def by (rule emits_bind [OF emits_usize_length])

lemma emits_variants:
  "emits f bs \<Longrightarrow> emits (\<lambda>e. emit_enum_variant e 0 f) (uleb 0 @ bs)"
  "emits f bs \<Longrightarrow> emits (\<lambda>e. emit_enum_variant e 1 f) (uleb 1 @ bs)"
  using emits_variant [of 0 f bs] emits_variant [of 1 f bs] by simp_all

lemma reads_variants:
  "reads (h 0) bs b \<Longrightarrow> reads (\<lambda>d. md_read_usize d \<bind> (\<lambda>(x, d). h x d)) (uleb 0 @ bs) b"
  "reads (h 1) bs b \<Longrightarrow> reads (\<lambda>d. md_read_usize d \<bind> (\<lambda>(x, d). h x d)) (uleb 1 @ bs) b"
  using reads_usize_length [of 0 h bs b] reads_usize_length [of 1 h bs b] by simp_all

context codec
begin

lemma codec_vec:
  "codec (encode_slice enc) (decode_vec dec) (\<lambda>xs. uleb (length xs) @ concat (map enc_bytes xs))
     (\<lambda>xs. length xs < 2 ^ 64 \<and> (\<forall>a \<in> set xs. valid a))"
proof unfold_locales
  fix xs :: "'a list" assume xs: "length xs < 2 ^ 64 \<and> (\<forall>a \<in> set xs. valid a)"
  then have len: "length xs < 2 ^ 64" by simp
  show "emits (encode_slice enc xs) (uleb (length xs) @ concat (map enc_bytes xs))"
    unfolding encode_slice_def [abs_def]
    by (rule emits_bind [OF emits_usize_length [OF len]]) (rule emits_for, use xs in simp)
  show "reads (decode_vec dec) (uleb (length xs) @ concat (map enc_bytes xs)) xs"
    unfolding decode_vec_def [abs_def]
    by (rule reads_usize_length [OF len], unfold unat_of_nat_64 [OF len]) (rule reads_elems, use xs in simp)
qed

lemma codec_option:
  "codec (encode_option enc) (decode_option dec) (\<lambda>x. case x of None \<Rightarrow> uleb 0 | Some v \<Rightarrow> uleb 1 @ enc_bytes v)
     (\<lambda>x. \<forall>v \<in> set_option x. valid v)"
proof unfold_locales
  fix x :: "'a option" assume x: "\<forall>v \<in> set_option x. valid v"
  show "emits (encode_option enc x) (case x of None \<Rightarrow> uleb 0 | Some v \<Rightarrow> uleb 1 @ enc_bytes v)"
    using x emits_variants(1) [OF emits_return] emits_variants(2) [OF emits]
    by (cases x) (simp_all add: encode_option_def [abs_def])
  show "reads (decode_option dec) (case x of None \<Rightarrow> uleb 0 | Some v \<Rightarrow> uleb 1 @ enc_bytes v) x"
  proof (cases x)
    case None
    have "reads (decode_option dec) (uleb 0 @ []) None"
      unfolding decode_option_def [abs_def] by (rule reads_variants(1)) (simp add: reads_return)
    then show ?thesis by (simp add: None)
  next
    case (Some v)
    then have "reads (\<lambda>d. dec d \<bind> (\<lambda>(v, d). Some (Some v, d))) (enc_bytes v) x"
      using x by (intro reads_bind_return [OF reads]) simp_all
    then show ?thesis unfolding Some decode_option_def [abs_def] option.case by (intro reads_variants(2)) simp
  qed
qed

end

locale codec_pair = ok: codec enc1 dec1 bytes1 valid1 + err: codec enc2 dec2 bytes2 valid2
  for enc1 :: "'a \<Rightarrow> file_encoder \<Rightarrow> file_encoder option" and dec1 bytes1 valid1
    and enc2 :: "'b \<Rightarrow> file_encoder \<Rightarrow> file_encoder option" and dec2 bytes2 valid2
begin

lemma codec_result:
  "codec (encode_result enc1 enc2) (decode_result dec1 dec2) (case_sum (\<lambda>v. uleb 1 @ bytes2 v) (\<lambda>v. uleb 0 @ bytes1 v))
     (case_sum valid2 valid1)"
proof unfold_locales
  fix x :: "'b + 'a" assume x: "case_sum valid2 valid1 x"
  show "emits (encode_result enc1 enc2 x) (case_sum (\<lambda>v. uleb 1 @ bytes2 v) (\<lambda>v. uleb 0 @ bytes1 v) x)"
    using x emits_variants(1) [OF ok.emits] emits_variants(2) [OF err.emits]
    by (cases x) (simp_all add: encode_result_def [abs_def])
  show "reads (decode_result dec1 dec2) (case_sum (\<lambda>v. uleb 1 @ bytes2 v) (\<lambda>v. uleb 0 @ bytes1 v) x) x"
  proof (cases x)
    case (Inl v)
    then have "reads (\<lambda>d. dec2 d \<bind> (\<lambda>(v, d). Some (Inl v, d))) (bytes2 v) x"
      using x by (intro reads_bind_return [OF err.reads]) simp_all
    then show ?thesis unfolding Inl decode_result_def [abs_def] sum.case by (intro reads_variants(2)) simp
  next
    case (Inr v)
    then have "reads (\<lambda>d. dec1 d \<bind> (\<lambda>(v, d). Some (Inr v, d))) (bytes1 v) x"
      using x by (intro reads_bind_return [OF ok.reads]) simp_all
    then show ?thesis unfolding Inr decode_result_def [abs_def] sum.case by (intro reads_variants(1)) simp
  qed
qed

end

interpretation result_u32_str: codec_pair "\<lambda>v e. emit_u32 e v" md_read_u32 "\<lambda>v. uleb (unat v)" "\<lambda>_. True"
  "\<lambda>v e. emit_str e v" md_read_str "\<lambda>v. uleb (length v) @ v @ [STR_SENTINEL]" "\<lambda>v. length v < 2 ^ 64" ..

subsection \<open>Positions after an error\<close>

text \<open>
  After a recorded error a flush leaves the buffer full, the emitters start over at its
  beginning, and the position goes back: the debug assertion of \<open>IntEncodedWithFixedSize\<close>
  then panics, although errors are to be reported by \<open>finish\<close> only.
\<close>

lemma encode_fixed_panics:
  assumes "fe_res e \<noteq> None" and "BUF_SIZE < fe_buffered e + ENCODED_SIZE" and "length (fe_buf e) = BUF_SIZE"
  shows "encode_fixed True v e = None"
proof -
  have len: "length (to_le_bytes v) = 8" by (simp add: length_to_le_bytes)
  have "make_room 8 e = Some (0, e)" using assms(1,2) by (simp add: make_room_def fe_flush_def ENCODED_SIZE_def)
  moreover have "copy_at (fe_buf e) 0 (map Some (to_le_bytes v)) \<noteq> None" by (simp add: copy_at_def len assms(3) BUF_SIZE_def)
  ultimately obtain e' where "emit_raw_bytes e (to_le_bytes v) = Some e'" "fe_position e' = fe_flushed e + 8"
    by (auto simp: emit_raw_bytes_def write_all_def len BUF_SIZE_def fe_position_def)
  moreover have "fe_flushed e + 8 < fe_position e" using assms(2) by (simp add: fe_position_def ENCODED_SIZE_def BUF_SIZE_def)
  ultimately show ?thesis by (simp add: encode_fixed_def)
qed

lemma encode_fixed_panics_reachable:
  "\<exists>e e1 e2. fe_new (Inr [Inl (Other_Error 28)]) = Inr e \<and> emit_raw_bytes e (replicate 8192 0) = Some e1 \<and>
    emit_raw_bytes e1 (replicate 8190 0) = Some e2 \<and> encode_fixed True v e2 = None"
proof -
  let ?f = "\<lparr>fl_contents = [], fl_script = [Inl (Other_Error 28)]\<rparr>"
  let ?e = "\<lparr>fe_buf = replicate BUF_SIZE None, fe_buffered = 0, fe_flushed = 0, fe_file = ?f, fe_res = None\<rparr>"
  let ?bs = "replicate 8192 0 :: byte list"
  let ?e1 = "\<lparr>fe_buf = map Some ?bs, fe_buffered = 8192, fe_flushed = 0, fe_file = ?f, fe_res = None\<rparr>"
  let ?g = "\<lparr>bg_buffer = ?bs, bg_encoder_buffered = 8192, bg_encoder_flushed = 0, bg_flushed = 0\<rparr>"
  let ?e1' = "?e1\<lparr>fe_file := ?f\<lparr>fl_script := []\<rparr>, fe_res := Some (Other_Error 28)\<rparr>"
  have e1: "emit_raw_bytes ?e ?bs = Some ?e1"
    by (simp add: emit_raw_bytes_def write_all_def make_room_def copy_at_def BUF_SIZE_def)
  have "flush_loop ?g ?f = Some (?g, ?f\<lparr>fl_script := []\<rparr>, Some (Other_Error 28))"
    by (simp add: flush_loop.simps [of ?g] bg_done_def bg_remaining_def file_write_def)
  then have "fe_flush ?e1 = Some ?e1'"
    using assume_init_Some [of ?bs] by (simp add: fe_flush_def bg_new_def bg_drop_def del: map_replicate)
  then have "emit_raw_bytes ?e1 (replicate 8190 0) =
      Some (?e1'\<lparr>fe_buf := map Some (replicate 8190 0) @ drop 8190 (map Some ?bs), fe_buffered := 8190\<rparr>)"
    by (simp add: emit_raw_bytes_def write_all_def make_room_def copy_at_def BUF_SIZE_def)
  moreover have "encode_fixed True v (?e1'\<lparr>fe_buf := map Some (replicate 8190 0) @ drop 8190 (map Some ?bs), fe_buffered := 8190\<rparr>) = None"
    by (rule encode_fixed_panics) (simp_all add: BUF_SIZE_def ENCODED_SIZE_def)
  ultimately show ?thesis using e1 by (simp add: fe_new_def BUF_SIZE_def)
qed

end
