(* ===== verification/Serialize_Values.thy ===== *)
theory Serialize_Values
  imports Serialize_Codec
begin

text \<open>
  Values of every type built from the impls of \<open>serialize.rs\<close> and \<open>opaque.rs\<close>, with the
  selection of the impl by the type, and their round trip through a file. The wrappers
  whose impls forward to the content (references, \<open>Box\<close>, \<open>Rc\<close>, \<open>Arc\<close>, \<open>Cell\<close>, \<open>RefCell\<close>,
  \<open>Cow\<close>, boxed slices) are the content; a path is its string.
\<close>

subsection \<open>Types and values\<close>

datatype rtype =
  TUsize | TU128 | TU64 | TU32 | TU16 | TU8 | TIsize | TI128 | TI64 | TI32 | TI16 | TI8
| TBool | TChar | TNonZeroU32 | TStr | TUnit | TBytes | TArray nat | TFixed
| TVec rtype | TOption rtype | TResult rtype rtype | TTuple "rtype list"

datatype rvalue =
  VUsize "64 word" | VU128 "128 word" | VU64 "64 word" | VU32 "32 word" | VU16 "16 word" | VU8 "8 word"
| VIsize "64 word" | VI128 "128 word" | VI64 "64 word" | VI32 "32 word" | VI16 "16 word" | VI8 "8 word"
| VBool bool | VChar uchar | VNonZeroU32 "32 word" | VStr "byte list" | VUnit
| VBytes "byte list" | VArray "byte list" | VFixed "64 word"
| VVec "rvalue list" | VOption "rvalue option" | VResult "rvalue + rvalue" | VTuple "rvalue list"

text \<open>The values of a type. A \<open>char\<close> is a scalar value and a length fits \<open>usize\<close>.\<close>

primrec has_type :: "rtype \<Rightarrow> rvalue \<Rightarrow> bool" where
  "has_type TUsize = (\<lambda>v. case v of VUsize _ \<Rightarrow> True | _ \<Rightarrow> False)"
| "has_type TU128 = (\<lambda>v. case v of VU128 _ \<Rightarrow> True | _ \<Rightarrow> False)"
| "has_type TU64 = (\<lambda>v. case v of VU64 _ \<Rightarrow> True | _ \<Rightarrow> False)"
| "has_type TU32 = (\<lambda>v. case v of VU32 _ \<Rightarrow> True | _ \<Rightarrow> False)"
| "has_type TU16 = (\<lambda>v. case v of VU16 _ \<Rightarrow> True | _ \<Rightarrow> False)"
| "has_type TU8 = (\<lambda>v. case v of VU8 _ \<Rightarrow> True | _ \<Rightarrow> False)"
| "has_type TIsize = (\<lambda>v. case v of VIsize _ \<Rightarrow> True | _ \<Rightarrow> False)"
| "has_type TI128 = (\<lambda>v. case v of VI128 _ \<Rightarrow> True | _ \<Rightarrow> False)"
| "has_type TI64 = (\<lambda>v. case v of VI64 _ \<Rightarrow> True | _ \<Rightarrow> False)"
| "has_type TI32 = (\<lambda>v. case v of VI32 _ \<Rightarrow> True | _ \<Rightarrow> False)"
| "has_type TI16 = (\<lambda>v. case v of VI16 _ \<Rightarrow> True | _ \<Rightarrow> False)"
| "has_type TI8 = (\<lambda>v. case v of VI8 _ \<Rightarrow> True | _ \<Rightarrow> False)"
| "has_type TBool = (\<lambda>v. case v of VBool _ \<Rightarrow> True | _ \<Rightarrow> False)"
| "has_type TChar = (\<lambda>v. case v of VChar c \<Rightarrow> is_scalar c | _ \<Rightarrow> False)"
| "has_type TNonZeroU32 = (\<lambda>v. case v of VNonZeroU32 n \<Rightarrow> n \<noteq> 0 | _ \<Rightarrow> False)"
| "has_type TStr = (\<lambda>v. case v of VStr s \<Rightarrow> length s < 2 ^ 64 | _ \<Rightarrow> False)"
| "has_type TUnit = (\<lambda>v. case v of VUnit \<Rightarrow> True | _ \<Rightarrow> False)"
| "has_type TBytes = (\<lambda>v. case v of VBytes s \<Rightarrow> length s < 2 ^ 64 | _ \<Rightarrow> False)"
| "has_type (TArray n) = (\<lambda>v. case v of VArray s \<Rightarrow> length s = n \<and> n < 2 ^ 64 | _ \<Rightarrow> False)"
| "has_type TFixed = (\<lambda>v. case v of VFixed _ \<Rightarrow> True | _ \<Rightarrow> False)"
| "has_type (TVec t) = (\<lambda>v. case v of VVec vs \<Rightarrow> length vs < 2 ^ 64 \<and> list_all (has_type t) vs | _ \<Rightarrow> False)"
| "has_type (TOption t) = (\<lambda>v. case v of VOption x \<Rightarrow> pred_option (has_type t) x | _ \<Rightarrow> False)"
| "has_type (TResult t t') = (\<lambda>v. case v of VResult x \<Rightarrow> case_sum (has_type t') (has_type t) x | _ \<Rightarrow> False)"
| "has_type (TTuple ts) = (\<lambda>v. case v of VTuple vs \<Rightarrow> list_all2 (\<lambda>p v. p v) (map has_type ts) vs | _ \<Rightarrow> False)"

subsection \<open>The impl of a type\<close>

text \<open>
  The encoders of the elements are applied by the impl of the type constructor.
\<close>

primrec encode :: "rvalue \<Rightarrow> file_encoder \<Rightarrow> file_encoder option" where
  "encode (VUsize v) = (\<lambda>s. emit_usize s v)"
| "encode (VU128 v) = (\<lambda>s. emit_u128 s v)"
| "encode (VU64 v) = (\<lambda>s. emit_u64 s v)"
| "encode (VU32 v) = (\<lambda>s. emit_u32 s v)"
| "encode (VU16 v) = (\<lambda>s. emit_u16 s v)"
| "encode (VU8 v) = (\<lambda>s. emit_u8 s v)"
| "encode (VIsize v) = (\<lambda>s. emit_isize s v)"
| "encode (VI128 v) = (\<lambda>s. emit_i128 s v)"
| "encode (VI64 v) = (\<lambda>s. emit_i64 s v)"
| "encode (VI32 v) = (\<lambda>s. emit_i32 s v)"
| "encode (VI16 v) = (\<lambda>s. emit_i16 s v)"
| "encode (VI8 v) = (\<lambda>s. emit_i8 s v)"
| "encode (VBool v) = (\<lambda>s. emit_bool s v)"
| "encode (VChar v) = (\<lambda>s. emit_char s v)"
| "encode (VNonZeroU32 v) = encode_nonzero v"
| "encode (VStr v) = (\<lambda>s. emit_str s v)"
| "encode VUnit = Some"
| "encode (VBytes v) = encode_bytes v"
| "encode (VArray v) = encode_bytes v"
| "encode (VFixed v) = encode_fixed False v"
| "encode (VVec vs) = encode_slice id (map encode vs)"
| "encode (VOption v) = encode_option id (map_option encode v)"
| "encode (VResult v) = encode_result id id (map_sum encode encode v)"
| "encode (VTuple vs) = encode_tuple id (map encode vs)"

text \<open>The result of a decoder, with the constructor of its type.\<close>

definition wrap :: "('a \<Rightarrow> 'b) \<Rightarrow> (mem_decoder \<Rightarrow> ('a \<times> mem_decoder) option) \<Rightarrow> mem_decoder \<Rightarrow> ('b \<times> mem_decoder) option" where
  "wrap c f d = do { (v, d) \<leftarrow> f d; Some (c v, d) }"

primrec decode :: "rtype \<Rightarrow> mem_decoder \<Rightarrow> (rvalue \<times> mem_decoder) option" where
  "decode TUsize = wrap VUsize md_read_usize"
| "decode TU128 = wrap VU128 md_read_u128"
| "decode TU64 = wrap VU64 md_read_u64"
| "decode TU32 = wrap VU32 md_read_u32"
| "decode TU16 = wrap VU16 md_read_u16"
| "decode TU8 = wrap VU8 md_read_u8"
| "decode TIsize = wrap VIsize md_read_isize"
| "decode TI128 = wrap VI128 md_read_i128"
| "decode TI64 = wrap VI64 md_read_i64"
| "decode TI32 = wrap VI32 md_read_i32"
| "decode TI16 = wrap VI16 md_read_i16"
| "decode TI8 = wrap VI8 md_read_i8"
| "decode TBool = wrap VBool md_read_bool"
| "decode TChar = wrap VChar md_read_char"
| "decode TNonZeroU32 = wrap VNonZeroU32 decode_nonzero"
| "decode TStr = wrap VStr md_read_str"
| "decode TUnit = (\<lambda>d. Some (VUnit, d))"
| "decode TBytes = wrap VBytes decode_bytes"
| "decode (TArray n) = wrap VArray (decode_array n)"
| "decode TFixed = wrap VFixed decode_fixed"
| "decode (TVec t) = wrap VVec (decode_vec (decode t))"
| "decode (TOption t) = wrap VOption (decode_option (decode t))"
| "decode (TResult t t') = wrap VResult (decode_result (decode t) (decode t'))"
| "decode (TTuple ts) = wrap VTuple (decode_tuple (map decode ts))"

subsection \<open>Round trip\<close>

text \<open>The bytes of a value.\<close>

fun value_bytes :: "rvalue \<Rightarrow> byte list" where
  "value_bytes (VUsize v) = uleb (unat v)"
| "value_bytes (VU128 v) = uleb (unat v)"
| "value_bytes (VU64 v) = uleb (unat v)"
| "value_bytes (VU32 v) = uleb (unat v)"
| "value_bytes (VU16 v) = to_le_bytes v"
| "value_bytes (VU8 v) = [v]"
| "value_bytes (VIsize v) = sleb (sint v)"
| "value_bytes (VI128 v) = sleb (sint v)"
| "value_bytes (VI64 v) = sleb (sint v)"
| "value_bytes (VI32 v) = sleb (sint v)"
| "value_bytes (VI16 v) = to_le_bytes v"
| "value_bytes (VI8 v) = [v]"
| "value_bytes (VBool v) = [if v then 1 else 0]"
| "value_bytes (VChar v) = uleb v"
| "value_bytes (VNonZeroU32 v) = uleb (unat v)"
| "value_bytes (VStr v) = uleb (length v) @ v @ [STR_SENTINEL]"
| "value_bytes VUnit = []"
| "value_bytes (VBytes v) = uleb (length v) @ v"
| "value_bytes (VArray v) = uleb (length v) @ v"
| "value_bytes (VFixed v) = to_le_bytes v"
| "value_bytes (VVec vs) = uleb (length vs) @ concat (map value_bytes vs)"
| "value_bytes (VOption None) = uleb 0"
| "value_bytes (VOption (Some v)) = uleb 1 @ value_bytes v"
| "value_bytes (VResult (Inl v)) = uleb 1 @ value_bytes v"
| "value_bytes (VResult (Inr v)) = uleb 0 @ value_bytes v"
| "value_bytes (VTuple vs) = concat (map value_bytes vs)"

lemma for_loop_map: "for_loop f (map h xs) = for_loop (\<lambda>x. f (h x)) xs"
proof
  show "for_loop f (map h xs) s = for_loop (\<lambda>x. f (h x)) xs s" for s
    by (induction xs arbitrary: s) (simp_all cong: bind_option_cong)
qed

lemma encode_constructors [simp]:
  "encode (VVec vs) = encode_slice encode vs" "encode (VTuple vs) = encode_tuple encode vs"
  "encode (VOption x) = encode_option encode x" "encode (VResult y) = encode_result encode encode y"
  by (simp_all add: fun_eq_iff encode_slice_def encode_tuple_def for_loop_map encode_option_def encode_result_def
      split: option.split sum.split)

declare encode.simps(21-24) [simp del]

lemma codec_wrap:
  assumes "codec enc dec bs P" and "\<And>v. Q v \<Longrightarrow> \<exists>a. v = c a \<and> P a"
    and "\<And>a s. encode (c a) s = enc a s" and "\<And>a. value_bytes (c a) = bs a"
  shows "codec encode (wrap c dec) value_bytes Q"
proof
  fix v assume "Q v"
  then obtain a where v: "v = c a" "P a" using assms(2) by blast
  show "emits (encode v) (value_bytes v)"
    using codec.emits [OF assms(1) v(2)] by (simp add: v(1) assms(3,4) emits_def)
  show "reads (wrap c dec) (value_bytes v) v"
    unfolding wrap_def [abs_def] v(1) assms(4) by (rule reads_bind_return [OF codec.reads [OF assms(1) v(2)]]) simp
qed

lemma codec_tuple:
  assumes "\<And>t. t \<in> set ts \<Longrightarrow> codec encode (decode t) value_bytes (has_type t)"
  shows "codec (encode_tuple encode) (decode_tuple (map decode ts)) (\<lambda>vs. concat (map value_bytes vs))
    (\<lambda>vs. list_all2 (\<lambda>p v. p v) (map has_type ts) vs)"
proof
  fix vs assume "list_all2 (\<lambda>p v. p v) (map has_type ts) vs"
  then have "emits (for_loop encode vs) (concat (map value_bytes vs)) \<and>
      reads (decode_tuple (map decode ts)) (concat (map value_bytes vs)) vs"
    using assms
  proof (induction ts arbitrary: vs)
    case Nil
    then show ?case by (simp add: emits_def reads_def)
  next
    case (Cons t ts)
    then obtain v ws where vs: "vs = v # ws" "has_type t v" "list_all2 (\<lambda>p v. p v) (map has_type ts) ws"
      by (auto simp: list_all2_Cons1)
    have c: "codec encode (decode t) value_bytes (has_type t)" using Cons.prems(2) by simp
    note IH = Cons.IH [OF vs(3) Cons.prems(2)]
    have "emits (\<lambda>s. encode v s \<bind> for_loop encode ws) (value_bytes v @ concat (map value_bytes ws))"
      using codec.emits [OF c vs(2)] IH by (intro emits_bind) simp_all
    moreover have "reads (\<lambda>d. decode t d \<bind> (\<lambda>(x, d). decode_tuple (map decode ts) d \<bind> (\<lambda>(xs, d). Some (x # xs, d))))
        (value_bytes v @ concat (map value_bytes ws)) (v # ws)"
      using codec.reads [OF c vs(2)] IH by (intro reads_bind [of "decode t" _ v] reads_bind_return [of _ _ ws]) simp_all
    ultimately show ?case by (simp add: vs(1) emits_def reads_def)
  qed
  then show "emits (encode_tuple encode vs) (concat (map value_bytes vs))"
    and "reads (decode_tuple (map decode ts)) (concat (map value_bytes vs)) vs"
    by (simp_all add: encode_tuple_def [abs_def] emits_def)
qed

text \<open>Every type has the contract of a codec.\<close>

lemmas primitive_codecs = usize.codec_axioms u128.codec_axioms u64.codec_axioms u32.codec_axioms u16.codec_axioms
  u8.codec_axioms isize.codec_axioms i128.codec_axioms i64.codec_axioms i32.codec_axioms i16.codec_axioms i8.codec_axioms
  bool.codec_axioms char.codec_axioms nonzero.codec_axioms str.codec_axioms bytes.codec_axioms fixed.codec_axioms

lemma primitive_values:
  "has_type TUsize v \<Longrightarrow> \<exists>a. v = VUsize a \<and> True"
  "has_type TU128 v \<Longrightarrow> \<exists>a. v = VU128 a \<and> True"
  "has_type TU64 v \<Longrightarrow> \<exists>a. v = VU64 a \<and> True"
  "has_type TU32 v \<Longrightarrow> \<exists>a. v = VU32 a \<and> True"
  "has_type TU16 v \<Longrightarrow> \<exists>a. v = VU16 a \<and> True"
  "has_type TU8 v \<Longrightarrow> \<exists>a. v = VU8 a \<and> True"
  "has_type TIsize v \<Longrightarrow> \<exists>a. v = VIsize a \<and> True"
  "has_type TI128 v \<Longrightarrow> \<exists>a. v = VI128 a \<and> True"
  "has_type TI64 v \<Longrightarrow> \<exists>a. v = VI64 a \<and> True"
  "has_type TI32 v \<Longrightarrow> \<exists>a. v = VI32 a \<and> True"
  "has_type TI16 v \<Longrightarrow> \<exists>a. v = VI16 a \<and> True"
  "has_type TI8 v \<Longrightarrow> \<exists>a. v = VI8 a \<and> True"
  "has_type TBool v \<Longrightarrow> \<exists>a. v = VBool a \<and> True"
  "has_type TFixed v \<Longrightarrow> \<exists>a. v = VFixed a \<and> True"
  "has_type TChar v \<Longrightarrow> \<exists>a. v = VChar a \<and> is_scalar a"
  "has_type TNonZeroU32 v \<Longrightarrow> \<exists>a. v = VNonZeroU32 a \<and> a \<noteq> 0"
  "has_type TStr v \<Longrightarrow> \<exists>a. v = VStr a \<and> length a < 2 ^ 64"
  "has_type TBytes v \<Longrightarrow> \<exists>a. v = VBytes a \<and> length a < 2 ^ 64"
  by (cases v; simp)+

lemma codec_type: "codec encode (decode t) value_bytes (has_type t)"
proof (induction t)
  case TUnit
  show ?case by unfold_locales (auto simp: emits_def reads_def split: rvalue.splits)
next
  case (TArray n)
  show ?case
  proof (cases "n < 2 ^ 64")
    case True
    then show ?thesis unfolding decode.simps by (intro codec_wrap [OF codec_array]) (auto split: rvalue.splits)
  next
    case False
    then show ?thesis by unfold_locales (simp_all split: rvalue.splits)
  qed
next
  case (TVec t)
  from codec.codec_vec [OF TVec.IH] show ?case unfolding decode.simps
    by (rule codec_wrap) (auto simp: list_all_iff split: rvalue.splits)
next
  case (TOption t)
  from codec.codec_option [OF TOption.IH] show ?case unfolding decode.simps
    by (rule codec_wrap) (auto simp: option.pred_set split: rvalue.splits option.split)
next
  case (TResult t t')
  from codec_pair.codec_result [OF codec_pair.intro, OF TResult.IH] show ?case unfolding decode.simps
    by (rule codec_wrap) (auto split: rvalue.splits sum.split)
next
  case (TTuple ts)
  from codec_tuple [OF TTuple.IH] show ?case unfolding decode.simps
    by (rule codec_wrap) (auto split: rvalue.splits)
qed (unfold decode.simps, (rule codec_wrap, rule primitive_codecs, erule primitive_values, simp, simp)+)

text \<open>
  C40: serialization round trip through a file. A value of any type built from the integer
  types, booleans, characters, strings, bytes, options, results, vectors and tuples is
  encoded to a fresh file, whatever the coming outcomes of the writes are. Encoding and
  \<open>finish\<close> never panic, never leave the buffer and never read a byte of it that was not
  written. When \<open>finish\<close> returns \<open>Ok(n)\<close>, the file has \<open>n\<close> bytes and decoding them at the
  type returns the value and consumes all of them, although the writes were interrupted
  or shortened; and it does return \<open>Ok\<close> when nothing worse happens to them.
\<close>

theorem serialize_file_roundtrip:
  assumes "has_type t v" and "fe_new (Inr script) = Inr e"
  shows "\<exists>e' r f. encode v e = Some e' \<and> fe_finish e' = Some (r, f) \<and>
    (\<forall>n. r = Inr n \<longrightarrow> n = length (fl_contents f) \<and>
       decode t \<lparr>md_data = fl_contents f, md_current = 0\<rparr> = Some (v, \<lparr>md_data = fl_contents f, md_current = n\<rparr>)) \<and>
    ((\<forall>x \<in> set script. x = Inl Interrupted \<or> (\<exists>n>0. x = Inr n)) \<longrightarrow> (\<exists>n. r = Inr n))"
proof -
  have "harmless (fe_file e) \<longleftrightarrow> (\<forall>x \<in> set script. x = Inl Interrupted \<or> (\<exists>n>0. x = Inr n))"
    using assms(2) by (auto simp: fe_new_def harmless_def)
  then show ?thesis using codec.file_roundtrip [OF codec_type assms] by simp
qed

theorem serialize_file_roundtrip_witness:
  "\<exists>e e' f n. fe_new (Inr [Inr 2, Inl Interrupted]) = Inr e \<and>
    encode (VVec [VTuple [VU32 300, VOption (Some (VBool True))]]) e = Some e' \<and> fe_finish e' = Some (Inr n, f) \<and>
    decode (TVec (TTuple [TU32, TOption TBool])) \<lparr>md_data = fl_contents f, md_current = 0\<rparr> =
      Some (VVec [VTuple [VU32 300, VOption (Some (VBool True))]], \<lparr>md_data = fl_contents f, md_current = n\<rparr>)"
proof -
  let ?v = "VVec [VTuple [VU32 300, VOption (Some (VBool True))]]" and ?t = "TVec (TTuple [TU32, TOption TBool])"
  let ?script = "[Inr 2, Inl Interrupted] :: (io_error + nat) list"
  have t: "has_type ?t ?v" by simp
  obtain e where e: "fe_new (Inr ?script) = Inr e" by (simp add: fe_new_def)
  show ?thesis using serialize_file_roundtrip [OF t e] e by auto
qed

end
