(* ===== verification/Span_Encoding.thy ===== *)
theory Span_Encoding
  imports Index_Base "HOL-Library.Word"
begin

text \<open>
  \<open>rustc_span/src/span_encoding.rs\<close>: spans of 16 bytes compressed to 8. The interner is an
  \<open>IndexSet\<close> of the crate \<open>indexmap\<close>: its \<open>insert_full\<close> and its indexing are parameters, with
  the documented laws as \<open>index_set_laws\<close>. \<open>None\<close> is a failed debug assertion or an index
  that is not in the interner.
\<close>

unbundle bit_operations_syntax

subsection \<open>Spans\<close>

record span_data =
  sd_lo :: "32 word"
  sd_hi :: "32 word"
  sd_ctxt :: "32 word"
  sd_parent :: "32 word option"

record span =
  base_or_index :: "32 word"
  len_or_tag :: "16 word"
  ctxt_or_tag :: "16 word"

definition LEN_TAG :: "16 word" where "LEN_TAG = 0xFFFF"
definition PARENT_MASK :: "16 word" where "PARENT_MASK = 0x8000"
definition MAX_LEN :: "32 word" where "MAX_LEN = 0x7FFF"
definition CTXT_TAG :: "32 word" where "CTXT_TAG = 0xFFFF"
definition MAX_CTXT :: "32 word" where "MAX_CTXT = CTXT_TAG - 1"

definition DUMMY_SP :: span where
  "DUMMY_SP = \<lparr>base_or_index = 0, len_or_tag = 0, ctxt_or_tag = 0\<rparr>"

text \<open>\<open>SyntaxContext::root()\<close>.\<close>

definition root_ctxt :: "32 word" where "root_ctxt = 0"

type_synonym 's insert_full = "'s \<Rightarrow> span_data \<Rightarrow> nat \<times> 's"
type_synonym 's get_index = "'s \<Rightarrow> nat \<Rightarrow> span_data option"

definition intern :: "'s insert_full \<Rightarrow> 's \<Rightarrow> span_data \<Rightarrow> 32 word \<times> 's" where
  "intern insert_full spans d = (let (index, spans) = insert_full spans d in (of_nat index, spans))"

text \<open>The inline formats, when one applies.\<close>

definition span_inline :: "32 word \<Rightarrow> 32 word \<Rightarrow> 32 word \<Rightarrow> 32 word option \<Rightarrow> span option option" where
  "span_inline base len ctxt2 parent =
     (if len \<le> MAX_LEN \<and> ctxt2 \<le> MAX_CTXT then do {
        let len_or_tag = (ucast len :: 16 word);
        rassert (len_or_tag AND PARENT_MASK = 0);
        case parent of
          Some parent2 \<Rightarrow> do {
            let len_or_tag = len_or_tag OR PARENT_MASK;
            if ctxt2 = root_ctxt \<and> parent2 \<le> MAX_CTXT \<and> len_or_tag < LEN_TAG then do {
              rassert (len_or_tag \<noteq> LEN_TAG);
              Some (Some \<lparr>base_or_index = base, len_or_tag = len_or_tag, ctxt_or_tag = ucast parent2\<rparr>)
            }
            else Some None
          }
        | None \<Rightarrow> do {
            rassert (len_or_tag \<noteq> LEN_TAG);
            Some (Some \<lparr>base_or_index = base, len_or_tag = ucast len, ctxt_or_tag = ucast ctxt2\<rparr>)
          }
      }
      else Some None)"

definition span_new ::
  "'s insert_full \<Rightarrow> 32 word \<Rightarrow> 32 word \<Rightarrow> 32 word \<Rightarrow> 32 word option \<Rightarrow> 's \<Rightarrow> (span \<times> 's) option" where
  "span_new insert_full lo hi ctxt parent spans = do {
     let (lo, hi) = (if lo > hi then (hi, lo) else (lo, hi));
     inline_span \<leftarrow> span_inline lo (hi - lo) ctxt parent;
     case inline_span of
       Some s \<Rightarrow> Some (s, spans)
     | None \<Rightarrow>
         let (index, spans) = intern insert_full spans \<lparr>sd_lo = lo, sd_hi = hi, sd_ctxt = ctxt, sd_parent = parent\<rparr>;
             ctxt_or_tag = ucast (if ctxt \<le> MAX_CTXT then ctxt else CTXT_TAG)
         in Some (\<lparr>base_or_index = index, len_or_tag = LEN_TAG, ctxt_or_tag = ctxt_or_tag\<rparr>, spans)
   }"

definition data_untracked :: "'s get_index \<Rightarrow> 's \<Rightarrow> span \<Rightarrow> span_data option" where
  "data_untracked get_index spans self =
     (if len_or_tag self \<noteq> LEN_TAG then
        if len_or_tag self AND PARENT_MASK = 0 then do {
          rassert (ucast (len_or_tag self) \<le> MAX_LEN);
          Some \<lparr>sd_lo = base_or_index self, sd_hi = base_or_index self + ucast (len_or_tag self),
                sd_ctxt = ucast (ctxt_or_tag self), sd_parent = None\<rparr>
        }
        else do {
          let len = len_or_tag self AND NOT PARENT_MASK;
          rassert (ucast len \<le> MAX_LEN);
          Some \<lparr>sd_lo = base_or_index self, sd_hi = base_or_index self + ucast len,
                sd_ctxt = root_ctxt, sd_parent = Some (ucast (ctxt_or_tag self))\<rparr>
        }
      else get_index spans (unat (base_or_index self)))"

text \<open>\<open>data\<close>: the decoded span and the parents reported to the callback \<open>SPAN_TRACK\<close>.\<close>

definition span_data_tracked :: "'s get_index \<Rightarrow> 's \<Rightarrow> span \<Rightarrow> (span_data \<times> 32 word list) option" where
  "span_data_tracked get_index spans self = do {
     d \<leftarrow> data_untracked get_index spans self;
     Some (d, case sd_parent d of Some parent \<Rightarrow> [parent] | None \<Rightarrow> [])
   }"

definition span_ctxt :: "'s get_index \<Rightarrow> 's \<Rightarrow> span \<Rightarrow> 32 word option" where
  "span_ctxt get_index spans self =
     (let ctxt = (ucast (ctxt_or_tag self) :: 32 word) in
      if len_or_tag self = LEN_TAG then
        if ctxt = CTXT_TAG then do {
          d \<leftarrow> get_index spans (unat (base_or_index self));
          Some (sd_ctxt d)
        }
        else Some ctxt
      else if len_or_tag self AND PARENT_MASK = 0 then Some ctxt
      else Some root_ctxt)"

subsection \<open>Words\<close>

lemmas span_consts = LEN_TAG_def PARENT_MASK_def MAX_LEN_def CTXT_TAG_def MAX_CTXT_def root_ctxt_def

lemma ucast_16_32:
  fixes x :: "32 word"
  assumes "x \<le> 0xFFFF"
  shows "(ucast (ucast x :: 16 word) :: 32 word) = x"
proof (rule word_unat_eq_iff [THEN iffD2])
  have "unat x \<le> 0xFFFF" using assms by (simp add: word_le_nat_alt)
  then show "unat (ucast (ucast x :: 16 word) :: 32 word) = unat x"
    by (simp add: unsigned_ucast_eq unsigned_take_bit_eq take_bit_nat_eq_self)
qed

lemma mask_bit: "(x :: 16 word) AND 0x8000 = 0 \<longleftrightarrow> \<not> bit x 15"
  using and_exp_eq_0_iff_not_bit [of x 15] by simp

lemma bit_15_ucast:
  fixes x :: "32 word"
  assumes "x \<le> 0x7FFF"
  shows "\<not> bit (ucast x :: 16 word) 15"
proof -
  have "unat x < 2 ^ 15" using assms by (simp add: word_le_nat_alt)
  then have "\<not> bit (unat x) 15" by (simp add: bit_iff_odd)
  then show ?thesis by (simp add: bit_unsigned_iff)
qed

lemma bit_0x8000: "bit (0x8000 :: 16 word) i \<longleftrightarrow> i = 15"
  using bit_exp_iff [where 'a = "16 word", of 15 i] by (auto simp: bit_imp_le_length dest: bit_imp_le_length)

lemma or_and_not:
  fixes w m :: "16 word"
  assumes "\<And>i. bit m i \<longleftrightarrow> i = 15" and "\<not> bit w 15"
  shows "(w OR m) AND NOT m = w"
  by (rule bit_word_eqI) (use assms in \<open>auto simp: bit_and_iff bit_or_iff bit_not_iff\<close>)

lemma parent_len:
  fixes x :: "32 word"
  assumes "x \<le> 0x7FFF"
  shows "(ucast x OR 0x8000 :: 16 word) AND NOT 0x8000 = ucast x" and "(ucast x OR 0x8000 :: 16 word) AND 0x8000 \<noteq> 0"
    and "(ucast x :: 16 word) AND 0x8000 = 0" and "(ucast x :: 16 word) \<noteq> 0xFFFF"
proof -
  note b = bit_15_ucast [OF assms]
  show "(ucast x OR 0x8000 :: 16 word) AND NOT 0x8000 = ucast x"
    by (rule or_and_not [OF bit_0x8000 b])
  show "(ucast x OR 0x8000 :: 16 word) AND 0x8000 \<noteq> 0" by (simp add: mask_bit bit_or_iff bit_0x8000)
  show "(ucast x :: 16 word) AND 0x8000 = 0" using b by (simp add: mask_bit)
  show "(ucast x :: 16 word) \<noteq> 0xFFFF"
  proof
    assume "(ucast x :: 16 word) = 0xFFFF"
    moreover have "bit (0xFFFF :: 16 word) 15" by simp
    ultimately show False using b by simp
  qed
qed

subsection \<open>Round trip\<close>

text \<open>
  What is relied on of \<open>IndexSet\<close>: the returned index holds the inserted value, and
  insertion keeps the indices of the values that are there.
\<close>

definition keeps_spans :: "'s get_index \<Rightarrow> 's \<Rightarrow> 's \<Rightarrow> bool" where
  "keeps_spans get_index spans spans' \<longleftrightarrow> (\<forall>i d. get_index spans i = Some d \<longrightarrow> get_index spans' i = Some d)"

definition index_set_laws :: "'s insert_full \<Rightarrow> 's get_index \<Rightarrow> bool" where
  "index_set_laws insert_full get_index \<longleftrightarrow>
     (\<forall>spans d. get_index (snd (insert_full spans d)) (fst (insert_full spans d)) = Some d \<and>
        keeps_spans get_index spans (snd (insert_full spans d)))"

lemma span_inline_Some:
  "\<exists>r. span_inline base len ctxt parent = Some r \<and>
     (\<forall>s. r = Some s \<longrightarrow>
        data_untracked get_index spans s = Some \<lparr>sd_lo = base, sd_hi = base + len, sd_ctxt = ctxt, sd_parent = parent\<rparr> \<and>
        span_ctxt get_index spans s = Some ctxt)"
proof (cases "len \<le> MAX_LEN \<and> ctxt \<le> MAX_CTXT")
  case True
  then have l: "len \<le> 0x7FFF" and c: "ctxt \<le> 0xFFFE" by (simp_all add: span_consts)
  have len: "(ucast (ucast len :: 16 word) :: 32 word) = len" by (rule ucast_16_32) (use l in unat_arith)
  have ctxt: "(ucast (ucast ctxt :: 16 word) :: 32 word) = ctxt" by (rule ucast_16_32) (use c in unat_arith)
  show ?thesis
  proof (cases parent)
    case None
    then show ?thesis
      using True parent_len(3,4) [OF l] len ctxt l
      by (simp add: span_inline_def data_untracked_def span_ctxt_def span_consts)
  next
    case (Some q)
    have q: "(ucast (ucast q :: 16 word) :: 32 word) = q" if "q \<le> 0xFFFE" by (rule ucast_16_32) (use that in unat_arith)
    let ?l = "ucast len OR 0x8000 :: 16 word"
    let ?s = "\<lparr>base_or_index = base, len_or_tag = ?l, ctxt_or_tag = ucast q\<rparr>"
    show ?thesis
    proof (cases "ctxt = 0 \<and> q \<le> 0xFFFE \<and> ?l < 0xFFFF")
      case inl: True
      then have ne: "?l \<noteq> 0xFFFF" by (intro less_imp_neq) simp
      then have "span_inline base len ctxt parent = Some (Some ?s)"
        using inl True parent_len(3) [OF l] by (simp add: Some span_inline_def span_consts Let_def)
      with ne show ?thesis
        using inl parent_len(1,2) [OF l] len q l
        by (simp add: Some data_untracked_def span_ctxt_def span_consts Let_def)
    next
      case False
      then have "span_inline base len ctxt parent = Some None"
        using True parent_len(3) [OF l] by (auto simp: Some span_inline_def span_consts Let_def)
      then show ?thesis by simp
    qed
  qed
next
  case False
  show ?thesis unfolding span_inline_def if_not_P [OF False] by simp
qed

lemma interned_ctxt:
  fixes ctxt :: "32 word"
  defines "t \<equiv> ucast (if ctxt \<le> MAX_CTXT then ctxt else CTXT_TAG) :: 16 word"
  shows "(ucast t :: 32 word) \<noteq> CTXT_TAG \<Longrightarrow> (ucast t :: 32 word) = ctxt"
proof (cases "ctxt \<le> MAX_CTXT")
  case True
  then have "(ucast (ucast ctxt :: 16 word) :: 32 word) = ctxt" by (intro ucast_16_32) (simp add: span_consts, unat_arith)
  then show ?thesis using True by (simp add: t_def)
qed (simp add: t_def span_consts)

text \<open>
  C4: span compression loses nothing. \<open>Span::new\<close> passes its debug assertions; from the
  compressed span, \<open>data\<close> recovers the positions in order, the context and the parent, and
  the fast path \<open>ctxt\<close> gives the same context, whichever of the four formats was chosen and
  although the interner has grown since. The interner has fewer than \<open>2 ^ 32\<close> entries,
  and only documented laws of the third-party set are used.
\<close>

theorem span_roundtrip:
  assumes laws: "index_set_laws insert_full get_index" and fits: "\<And>d. fst (insert_full spans d) < 2 ^ 32"
  shows "\<exists>s spans'. span_new insert_full lo hi ctxt parent spans = Some (s, spans') \<and>
    keeps_spans get_index spans spans' \<and>
    (\<forall>later. keeps_spans get_index spans' later \<longrightarrow>
       span_data_tracked get_index later s =
         Some (\<lparr>sd_lo = min lo hi, sd_hi = max lo hi, sd_ctxt = ctxt, sd_parent = parent\<rparr>,
               case parent of Some p \<Rightarrow> [p] | None \<Rightarrow> []) \<and>
       span_ctxt get_index later s = Some ctxt)"
proof -
  define a b where "a = min lo hi" and "b = max lo hi"
  have ab: "(if lo > hi then (hi, lo) else (lo, hi)) = (a, b)" by (auto simp: a_def b_def min_def max_def not_le)
  let ?d = "\<lparr>sd_lo = a, sd_hi = b, sd_ctxt = ctxt, sd_parent = parent\<rparr>"
  obtain r where r: "span_inline a (b - a) ctxt parent = Some r" by (metis span_inline_Some)
  show ?thesis
  proof (cases r)
    case (Some s)
    have "data_untracked get_index later s = Some ?d \<and> span_ctxt get_index later s = Some ctxt" for later
      using span_inline_Some [of a "b - a" ctxt parent get_index later] r Some by simp
    moreover have "span_new insert_full lo hi ctxt parent spans = Some (s, spans)" using r Some by (simp add: span_new_def ab)
    ultimately show ?thesis by (simp add: span_data_tracked_def keeps_spans_def a_def b_def)
  next
    case None
    obtain i spans' where i: "insert_full spans ?d = (i, spans')" by (cases "insert_full spans ?d")
    have law: "get_index spans' i = Some ?d" "keeps_spans get_index spans spans'"
      using laws i unfolding index_set_laws_def by (metis fst_conv snd_conv)+
    have "i < 2 ^ 32" using fits [of ?d] i by simp
    then have u: "unat (of_nat i :: 32 word) = i" by (simp add: unat_of_nat take_bit_nat_eq_self)
    let ?t = "ucast (if ctxt \<le> MAX_CTXT then ctxt else CTXT_TAG) :: 16 word"
    let ?s = "\<lparr>base_or_index = of_nat i, len_or_tag = LEN_TAG, ctxt_or_tag = ?t\<rparr>"
    have new: "span_new insert_full lo hi ctxt parent spans = Some (?s, spans')"
      using r None i by (simp add: span_new_def ab intern_def)
    have "data_untracked get_index later ?s = Some ?d \<and> span_ctxt get_index later ?s = Some ctxt"
      if "keeps_spans get_index spans' later" for later
      using that law(1) u interned_ctxt [of ctxt] unfolding keeps_spans_def
      by (auto simp: data_untracked_def span_ctxt_def Let_def)
    then show ?thesis using new law(2) by (auto simp: span_data_tracked_def a_def b_def)
  qed
qed

theorem span_roundtrip_witness:
  "\<exists>insert_full get_index (spans :: span_data list). index_set_laws insert_full get_index \<and> (\<forall>d. fst (insert_full spans d) < 2 ^ 32) \<and>
    (\<exists>s spans'. span_new insert_full 9 5 7 (Some 3) spans = Some (s, spans') \<and>
       span_data_tracked get_index spans' s = Some (\<lparr>sd_lo = 5, sd_hi = 9, sd_ctxt = 7, sd_parent = Some 3\<rparr>, [3]))"
proof -
  define insert_full :: "span_data list insert_full" where "insert_full = (\<lambda>xs d. (length xs, xs @ [d]))"
  define get_index :: "span_data list get_index" where "get_index = (\<lambda>xs i. if i < length xs then Some (xs ! i) else None)"
  have laws: "index_set_laws insert_full get_index"
    by (auto simp: index_set_laws_def insert_full_def get_index_def keeps_spans_def nth_append)
  have fits: "fst (insert_full [] d) < 2 ^ 32" for d by (simp add: insert_full_def)
  have "keeps_spans get_index spans spans" for spans by (simp add: keeps_spans_def)
  then show ?thesis using span_roundtrip [OF laws fits, of 9 5 7 "Some 3"] laws fits by fastforce
qed

end
