(* ===== verification/Sorted_Map.thy ===== *)
theory Sorted_Map
  imports Index_Base
begin

text \<open>
  \<open>SortedMap\<close> of \<open>rustc_data_structures/src/sorted_map.rs\<close>: a map kept as a vector sorted by
  key, with the binary search of \<open>library/core/src/slice/mod.rs\<close>. \<open>None\<close> is a panic or an
  unchecked access out of bounds. A reference into the map is the update it allows.
\<close>

subsection \<open>Binary search\<close>

datatype ordering = Less | Equal | Greater

definition cmp :: "'k::linorder \<Rightarrow> 'k \<Rightarrow> ordering" where
  "cmp a b = (if a < b then Less else if a = b then Equal else Greater)"

text \<open>
  The loop of \<open>binary_search_by\<close>; its variable \<open>size\<close> is \<open>right - left\<close> whenever it is read.
  \<open>Inr\<close> is \<open>Ok\<close> and \<open>Inl\<close> is \<open>Err\<close>.
\<close>

function binary_search_loop :: "('a \<Rightarrow> ordering) \<Rightarrow> 'a list \<Rightarrow> nat \<Rightarrow> nat \<Rightarrow> (nat + nat) option" where
  "binary_search_loop f xs left right =
     (if left < right then
        let mid = left + (right - left) div 2 in
        case idx xs mid of
          None \<Rightarrow> None
        | Some x \<Rightarrow>
            (case f x of
               Less \<Rightarrow> binary_search_loop f xs (mid + 1) right
             | Greater \<Rightarrow> binary_search_loop f xs left mid
             | Equal \<Rightarrow> Some (Inr mid))
      else Some (Inl left))"
  by pat_completeness auto
termination
  by (relation "measure (\<lambda>(f, xs, left, right). right - left)") auto

declare binary_search_loop.simps [simp del]

definition binary_search_by :: "'a list \<Rightarrow> ('a \<Rightarrow> ordering) \<Rightarrow> (nat + nat) option" where
  "binary_search_by xs f = binary_search_loop f xs 0 (length xs)"

subsection \<open>Operations\<close>

record ('k, 'v) sorted_map =
  sm_data :: "('k \<times> 'v) list"

definition srt_new :: "('k, 'v) sorted_map" where
  "srt_new = \<lparr>sm_data = []\<rparr>"

definition presorted :: "('k::linorder \<times> 'v) list \<Rightarrow> bool" where
  "presorted elements \<longleftrightarrow> (\<forall>i < length elements - 1. fst (elements ! i) < fst (elements ! (i + 1)))"

definition from_presorted_elements :: "('k::linorder \<times> 'v) list \<Rightarrow> ('k, 'v) sorted_map option" where
  "from_presorted_elements elements = do {
     rassert (presorted elements);
     Some \<lparr>sm_data = elements\<rparr>
   }"

definition lookup_index_for :: "('k::linorder, 'v) sorted_map \<Rightarrow> 'k \<Rightarrow> (nat + nat) option" where
  "lookup_index_for self key = binary_search_by (sm_data self) (\<lambda>(x, _). cmp x key)"

definition srt_insert :: "('k::linorder, 'v) sorted_map \<Rightarrow> 'k \<Rightarrow> 'v \<Rightarrow> (('k, 'v) sorted_map \<times> 'v option) option" where
  "srt_insert self key val = do {
     r \<leftarrow> lookup_index_for self key;
     case r of
       Inr index \<Rightarrow> do {
         slot \<leftarrow> idx (sm_data self) index;
         data \<leftarrow> idx_set (sm_data self) index (fst slot, val);
         Some (self\<lparr>sm_data := data\<rparr>, Some (snd slot))
       }
     | Inl index \<Rightarrow> do {
         data \<leftarrow> vec_insert (sm_data self) index (key, val);
         Some (self\<lparr>sm_data := data\<rparr>, None)
       }
   }"

definition srt_remove :: "('k::linorder, 'v) sorted_map \<Rightarrow> 'k \<Rightarrow> (('k, 'v) sorted_map \<times> 'v option) option" where
  "srt_remove self key = do {
     r \<leftarrow> lookup_index_for self key;
     case r of
       Inr index \<Rightarrow> do {
         slot \<leftarrow> idx (sm_data self) index;
         data \<leftarrow> vec_remove (sm_data self) index;
         Some (self\<lparr>sm_data := data\<rparr>, Some (snd slot))
       }
     | Inl _ \<Rightarrow> Some (self, None)
   }"

definition srt_get :: "('k::linorder, 'v) sorted_map \<Rightarrow> 'k \<Rightarrow> 'v option option" where
  "srt_get self key = do {
     r \<leftarrow> lookup_index_for self key;
     case r of
       Inr index \<Rightarrow> do { slot \<leftarrow> idx (sm_data self) index; Some (Some (snd slot)) }
     | Inl _ \<Rightarrow> Some None
   }"

text \<open>\<open>get_mut\<close> and \<open>get_mut_or_insert_default\<close>, followed by the update through the reference.\<close>

definition srt_get_mut :: "('k::linorder, 'v) sorted_map \<Rightarrow> 'k \<Rightarrow> ('v \<Rightarrow> 'v) \<Rightarrow> (('k, 'v) sorted_map \<times> bool) option" where
  "srt_get_mut self key upd = do {
     r \<leftarrow> lookup_index_for self key;
     case r of
       Inr index \<Rightarrow> do {
         slot \<leftarrow> idx (sm_data self) index;
         data \<leftarrow> idx_set (sm_data self) index (fst slot, upd (snd slot));
         Some (self\<lparr>sm_data := data\<rparr>, True)
       }
     | Inl _ \<Rightarrow> Some (self, False)
   }"

definition srt_get_mut_or_insert_default ::
  "('k::linorder, 'v) sorted_map \<Rightarrow> 'k \<Rightarrow> 'v \<Rightarrow> ('v \<Rightarrow> 'v) \<Rightarrow> ('k, 'v) sorted_map option" where
  "srt_get_mut_or_insert_default self key default_value upd = do {
     r \<leftarrow> lookup_index_for self key;
     (index, data) \<leftarrow> (case r of
        Inr index \<Rightarrow> Some (index, sm_data self)
      | Inl index \<Rightarrow> do { data \<leftarrow> vec_insert (sm_data self) index (key, default_value); Some (index, data) });
     slot \<leftarrow> idx data index;
     data \<leftarrow> idx_set data index (fst slot, upd (snd slot));
     Some (self\<lparr>sm_data := data\<rparr>)
   }"

definition srt_clear :: "('k, 'v) sorted_map \<Rightarrow> ('k, 'v) sorted_map" where
  "srt_clear self = self\<lparr>sm_data := []\<rparr>"

definition srt_iter :: "('k, 'v) sorted_map \<Rightarrow> ('k \<times> 'v) list" where
  "srt_iter self = sm_data self"

definition srt_keys :: "('k, 'v) sorted_map \<Rightarrow> 'k list" where
  "srt_keys self = map (\<lambda>(k, _). k) (sm_data self)"

definition srt_values :: "('k, 'v) sorted_map \<Rightarrow> 'v list" where
  "srt_values self = map (\<lambda>(_, v). v) (sm_data self)"

definition srt_len :: "('k, 'v) sorted_map \<Rightarrow> nat" where
  "srt_len self = length (sm_data self)"

definition srt_is_empty :: "('k, 'v) sorted_map \<Rightarrow> bool" where
  "srt_is_empty self \<longleftrightarrow> srt_len self = 0"

definition srt_contains_key :: "('k::linorder, 'v) sorted_map \<Rightarrow> 'k \<Rightarrow> bool option" where
  "srt_contains_key self key = do { v \<leftarrow> srt_get self key; Some (v \<noteq> None) }"

definition srt_index :: "('k::linorder, 'v) sorted_map \<Rightarrow> 'k \<Rightarrow> 'v option" where
  "srt_index self key = do { v \<leftarrow> srt_get self key; v }"

datatype 'k key_bound = Incl 'k | Excl 'k | Unbound

definition srt_range_start :: "('k::linorder, 'v) sorted_map \<Rightarrow> 'k key_bound \<Rightarrow> nat option" where
  "srt_range_start self b = (case b of
       Incl k \<Rightarrow> do { r \<leftarrow> lookup_index_for self k; Some (case r of Inr index \<Rightarrow> index | Inl index \<Rightarrow> index) }
     | Excl k \<Rightarrow> do { r \<leftarrow> lookup_index_for self k; Some (case r of Inr index \<Rightarrow> index + 1 | Inl index \<Rightarrow> index) }
     | Unbound \<Rightarrow> Some 0)"

definition srt_range_end :: "('k::linorder, 'v) sorted_map \<Rightarrow> 'k key_bound \<Rightarrow> nat option" where
  "srt_range_end self b = (case b of
       Incl k \<Rightarrow> do { r \<leftarrow> lookup_index_for self k; Some (case r of Inr index \<Rightarrow> index + 1 | Inl index \<Rightarrow> index) }
     | Excl k \<Rightarrow> do { r \<leftarrow> lookup_index_for self k; Some (case r of Inr index \<Rightarrow> index | Inl index \<Rightarrow> index) }
     | Unbound \<Rightarrow> Some (length (sm_data self)))"

definition range_slice_indices :: "('k::linorder, 'v) sorted_map \<Rightarrow> 'k key_bound \<times> 'k key_bound \<Rightarrow> (nat \<times> nat) option" where
  "range_slice_indices self rng = do {
     start \<leftarrow> srt_range_start self (fst rng);
     stop \<leftarrow> srt_range_end self (snd rng);
     Some (start, stop)
   }"

definition srt_range :: "('k::linorder, 'v) sorted_map \<Rightarrow> 'k key_bound \<times> 'k key_bound \<Rightarrow> ('k \<times> 'v) list option" where
  "srt_range self rng = do {
     (start, stop) \<leftarrow> range_slice_indices self rng;
     slice_of (sm_data self) start stop
   }"

text \<open>\<open>Vec::splice(a..b, xs)\<close>.\<close>

definition splice_at :: "'a list \<Rightarrow> nat \<Rightarrow> nat \<Rightarrow> 'a list \<Rightarrow> 'a list option" where
  "splice_at xs a b ys = (if a \<le> b \<and> b \<le> length xs then Some (take a xs @ ys @ drop b xs) else None)"

definition srt_remove_range :: "('k::linorder, 'v) sorted_map \<Rightarrow> 'k key_bound \<times> 'k key_bound \<Rightarrow> ('k, 'v) sorted_map option" where
  "srt_remove_range self rng = do {
     (start, stop) \<leftarrow> range_slice_indices self rng;
     data \<leftarrow> splice_at (sm_data self) start stop [];
     Some (self\<lparr>sm_data := data\<rparr>)
   }"

definition srt_offset_keys :: "('k, 'v) sorted_map \<Rightarrow> ('k \<Rightarrow> 'k) \<Rightarrow> ('k, 'v) sorted_map" where
  "srt_offset_keys self f = self\<lparr>sm_data := map (\<lambda>(k, v). (f k, v)) (sm_data self)\<rparr>"

definition insert_rest :: "('k::linorder \<times> 'v) list \<Rightarrow> ('k, 'v) sorted_map \<Rightarrow> ('k, 'v) sorted_map option" where
  "insert_rest = for_loop (\<lambda>(k, v) self. do { (self, _) \<leftarrow> srt_insert self k v; Some self })"

definition insert_presorted :: "('k::linorder, 'v) sorted_map \<Rightarrow> ('k \<times> 'v) list \<Rightarrow> ('k, 'v) sorted_map option" where
  "insert_presorted self elements =
     (case elements of
        [] \<Rightarrow> Some self
      | e # rest \<Rightarrow> do {
          rassert (presorted elements);
          start_index \<leftarrow> lookup_index_for self (fst e);
          case start_index of
            Inr index \<Rightarrow> do {
              data \<leftarrow> idx_set (sm_data self) index e;
              insert_rest rest (self\<lparr>sm_data := data\<rparr>)
            }
          | Inl index \<Rightarrow> do {
              whole \<leftarrow> (if index = length (sm_data self) then Some True
                        else do { x \<leftarrow> idx (sm_data self) index; Some (fst (last elements) < fst x) });
              if whole then do {
                data \<leftarrow> splice_at (sm_data self) index index elements;
                Some (self\<lparr>sm_data := data\<rparr>)
              }
              else do {
                data \<leftarrow> vec_insert (sm_data self) index e;
                insert_rest rest (self\<lparr>sm_data := data\<rparr>)
              }
            }
        })"

text \<open>
  \<open>from_iter\<close>; the unstable sort may order equal keys in any way, so it is a parameter.
  \<open>dedup_by\<close> keeps the first of consecutive elements with the same key.
\<close>

fun dedup_keys :: "('k \<times> 'v) list \<Rightarrow> ('k \<times> 'v) list" where
  "dedup_keys (x # y # zs) = (if fst x = fst y then dedup_keys (x # zs) else x # dedup_keys (y # zs))"
| "dedup_keys zs = zs"

definition srt_from_iter :: "(('k::linorder \<times> 'v) list \<Rightarrow> ('k \<times> 'v) list) \<Rightarrow> ('k \<times> 'v) list \<Rightarrow> ('k, 'v) sorted_map" where
  "srt_from_iter sort_unstable items = \<lparr>sm_data = dedup_keys (sort_unstable items)\<rparr>"

end
