(* ===== verification/Sorted_Map_Props.thy ===== *)
theory Sorted_Map_Props
  imports Sorted_Map
begin

text \<open>
  The sorted vectors refine maps: binary search finds the place of a key, the operations
  keep the order and act as the operations of a map, ranges are filters.
\<close>

subsection \<open>The place of a key\<close>

abbreviation keys_sorted :: "('k::linorder \<times> 'v) list \<Rightarrow> bool" where
  "keys_sorted xs \<equiv> sorted_wrt (<) (map fst xs)"

definition rank :: "('k::linorder \<times> 'v) list \<Rightarrow> 'k \<Rightarrow> nat" where
  "rank xs key = length (takeWhile (\<lambda>x. fst x < key) xs)"

lemma rank_le: "rank xs key \<le> length xs"
  by (simp add: rank_def length_takeWhile_le)

lemma rank_iff:
  assumes "keys_sorted xs" and "i < length xs"
  shows "fst (xs ! i) < key \<longleftrightarrow> i < rank xs key"
proof
  assume "i < rank xs key"
  then show "fst (xs ! i) < key"
    using nth_mem [of i "takeWhile (\<lambda>x. fst x < key) xs"] set_takeWhileD [of "xs ! i" "\<lambda>x. fst x < key" xs]
    by (simp add: rank_def takeWhile_nth)
next
  assume less: "fst (xs ! i) < key"
  show "i < rank xs key"
  proof (rule ccontr)
    assume "\<not> i < rank xs key"
    then have p: "rank xs key \<le> i" by simp
    then have "\<not> fst (xs ! rank xs key) < key"
      using assms(2) nth_length_takeWhile [of "\<lambda>x. fst x < key" xs] by (simp add: rank_def)
    moreover have "fst (xs ! rank xs key) \<le> fst (xs ! i)"
      using sorted_wrt_nth_less [OF assms(1), of "rank xs key" i] p assms(2) by (cases "rank xs key = i") simp_all
    ultimately show False using less by simp
  qed
qed

lemma rank_eq:
  assumes "keys_sorted xs" and "i < length xs" and "fst (xs ! i) = key"
  shows "i = rank xs key"
proof -
  have "\<not> i < rank xs key" using rank_iff [OF assms(1,2), of key] assms(3) by simp
  moreover have "\<not> rank xs key < i"
    using sorted_wrt_nth_less [OF assms(1), of "rank xs key" i] rank_iff [OF assms(1), of "rank xs key" key] assms(2,3) by auto
  ultimately show ?thesis by simp
qed

definition found :: "('k::linorder \<times> 'v) list \<Rightarrow> 'k \<Rightarrow> bool" where
  "found xs key \<longleftrightarrow> rank xs key < length xs \<and> fst (xs ! rank xs key) = key"

lemma cmp_simps: "a < b \<Longrightarrow> cmp a b = Less" "cmp a a = Equal" "b < a \<Longrightarrow> cmp a b = Greater"
  by (auto simp: cmp_def)

lemma binary_search_loop_rank:
  assumes "keys_sorted xs" and "left \<le> rank xs key" and "rank xs key \<le> right" and "right \<le> length xs"
    and "right < length xs \<longrightarrow> key < fst (xs ! right)"
  shows "binary_search_loop (\<lambda>(x, _). cmp x key) xs left right =
    Some (if found xs key then Inr (rank xs key) else Inl (rank xs key))"
  using assms(2-5)
proof (induction "right - left" arbitrary: left right rule: less_induct)
  case less
  show ?case
  proof (cases "left < right")
    case False
    then have "left = rank xs key" "right = rank xs key" using less.prems by simp_all
    moreover have "\<not> found xs key" using less.prems(3,4) calculation by (auto simp: found_def)
    ultimately show ?thesis by (simp add: binary_search_loop.simps)
  next
    case True
    let ?mid = "left + (right - left) div 2"
    have mid: "left \<le> ?mid" "?mid < right" "?mid < length xs" using True less.prems(3) by linarith+
    obtain k v where x: "xs ! ?mid = (k, v)" by (cases "xs ! ?mid")
    have step: "binary_search_loop (\<lambda>(x, _). cmp x key) xs left right =
        (case cmp k key of Less \<Rightarrow> binary_search_loop (\<lambda>(x, _). cmp x key) xs (?mid + 1) right
         | Greater \<Rightarrow> binary_search_loop (\<lambda>(x, _). cmp x key) xs left ?mid | Equal \<Rightarrow> Some (Inr ?mid))"
      using True mid(3) x by (simp add: binary_search_loop.simps [of _ _ left right] Let_def)
    consider "k < key" | "k = key" | "key < k" by fastforce
    then show ?thesis
    proof cases
      case 1
      then have "?mid < rank xs key" using rank_iff [OF assms(1) mid(3), of key] x by simp
      then have "?mid + 1 \<le> rank xs key" by simp
      then show ?thesis using less.hyps [of right "?mid + 1"] less.prems(2-4) mid cmp_simps(1) [OF 1] step by simp
    next
      case 2
      then have "?mid = rank xs key" using rank_eq [OF assms(1) mid(3)] x by simp
      then show ?thesis using 2 step mid(3) x by (simp add: cmp_simps found_def)
    next
      case 3
      then have "rank xs key \<le> ?mid" using rank_iff [OF assms(1) mid(3), of key] x by (simp add: not_less [symmetric] less_not_sym)
      then show ?thesis using less.hyps [of ?mid left] less.prems(1) mid 3 cmp_simps(3) [OF 3] step x by simp
    qed
  qed
qed

lemma lookup_index_rank:
  assumes "keys_sorted (sm_data m)"
  shows "lookup_index_for m key = Some (if found (sm_data m) key then Inr (rank (sm_data m) key) else Inl (rank (sm_data m) key))"
  using binary_search_loop_rank [OF assms, of 0 key "length (sm_data m)"] rank_le [of "sm_data m" key]
  by (simp add: lookup_index_for_def binary_search_by_def)

subsection \<open>The vector around a key\<close>

text \<open>A sorted vector is the part below the key, the entry of the key if any, and the part above.\<close>

lemma split_at_key:
  assumes "keys_sorted xs"
  obtains (there) as v bs where "xs = as @ (key, v) # bs" "rank xs key = length as" "found xs key"
      "\<forall>x \<in> set as. fst x < key" "\<forall>x \<in> set bs. key < fst x" "keys_sorted as" "keys_sorted bs"
  | (absent) as bs where "xs = as @ bs" "rank xs key = length as" "\<not> found xs key"
      "\<forall>x \<in> set as. fst x < key" "\<forall>x \<in> set bs. key < fst x" "keys_sorted as" "keys_sorted bs"
proof -
  define as bs where "as = takeWhile (\<lambda>x. fst x < key) xs" and "bs = dropWhile (\<lambda>x. fst x < key) xs"
  have xs: "xs = as @ bs" by (simp add: as_def bs_def)
  have rank: "rank xs key = length as" by (simp add: rank_def as_def)
  have as: "\<forall>x \<in> set as. fst x < key" unfolding as_def by (blast dest: set_takeWhileD)
  have hd: "bs \<noteq> [] \<Longrightarrow> \<not> fst (hd bs) < key" unfolding bs_def by (rule hd_dropWhile)
  have sorted: "keys_sorted as" "keys_sorted bs" using assms unfolding xs by (simp_all add: sorted_wrt_append)
  have found: "found xs key \<longleftrightarrow> bs \<noteq> [] \<and> fst (hd bs) = key"
    unfolding found_def rank unfolding xs by (cases bs) (simp_all add: nth_append)
  show thesis
  proof (cases bs)
    case Nil
    then show thesis using absent [of as bs] xs rank found as sorted by simp
  next
    case (Cons y ys)
    have above: "fst y < fst x" if "x \<in> set ys" for x using that sorted(2) by (simp add: Cons)
    show thesis
    proof (cases "fst y = key")
      case True
      then have "bs = (key, snd y) # ys" using Cons by (metis prod.collapse)
      then show thesis using there [of as "snd y" ys] xs rank found as sorted above True Cons by auto
    next
      case False
      then have "key < fst y" using hd Cons by simp
      then have "\<forall>x \<in> set bs. key < fst x" using above Cons by (auto intro: less_trans)
      then show thesis using absent [of as bs] xs rank found as sorted False Cons by simp
    qed
  qed
qed

subsection \<open>Maps\<close>

text \<open>
  What a map implementation promises its clients: operations that do not panic, keep the
  representation invariant, and act on the represented map.
\<close>

locale map_implementation =
  fixes ok :: "'m \<Rightarrow> bool" and entries :: "'m \<Rightarrow> 'k \<rightharpoonup> 'v"
    and ins :: "'m \<Rightarrow> 'k \<Rightarrow> 'v \<Rightarrow> ('m \<times> 'v option) option"
    and del :: "'m \<Rightarrow> 'k \<Rightarrow> ('m \<times> 'v option) option"
    and find :: "'m \<Rightarrow> 'k \<Rightarrow> 'v option option"
  assumes ins: "ok m \<Longrightarrow> \<exists>m'. ins m k v = Some (m', entries m k) \<and> ok m' \<and> entries m' = (entries m)(k \<mapsto> v)"
    and del: "ok m \<Longrightarrow> \<exists>m'. del m k = Some (m', entries m k) \<and> ok m' \<and> entries m' = (entries m)(k := None)"
    and find: "ok m \<Longrightarrow> find m k = Some (entries m k)"
begin

lemma insert_all:
  "ok m \<Longrightarrow> \<exists>m'. for_loop (\<lambda>(k, v) m. ins m k v \<bind> (\<lambda>(m, _). Some m)) kvs m = Some m' \<and> ok m' \<and>
     entries m' = entries m ++ map_of (rev kvs)"
proof (induction kvs arbitrary: m)
  case Nil
  then show ?case by simp
next
  case (Cons kv kvs)
  obtain k v where kv: "kv = (k, v)" by (cases kv)
  obtain m1 where m1: "ins m k v = Some (m1, entries m k)" "ok m1" "entries m1 = (entries m)(k \<mapsto> v)"
    using ins [OF Cons.prems, of k v] by blast
  obtain m' where "for_loop (\<lambda>(k, v) m. ins m k v \<bind> (\<lambda>(m, _). Some m)) kvs m1 = Some m'" "ok m'"
    "entries m' = entries m1 ++ map_of (rev kvs)" using Cons.IH [OF m1(2)] by blast
  then show ?case using m1 by (simp add: kv map_of_append)
qed

end

lemma map_of_sides:
  assumes "\<forall>x \<in> set as. fst x < (key :: 'k::linorder)" and "\<forall>x \<in> set bs. key < fst x"
  shows "map_of as key = None" and "map_of bs key = None"
  using assms by (force simp: map_of_eq_None_iff)+

lemma keys_sorted_around:
  assumes "\<forall>x \<in> set as. fst x < (key :: 'k::linorder)" and "\<forall>x \<in> set bs. key < fst x" and "keys_sorted as" and "keys_sorted bs"
  shows "keys_sorted (as @ bs)" and "keys_sorted (as @ (key, v) # bs)"
  using assms by (auto simp: sorted_wrt_append intro: less_trans)

lemma map_of_update_between:
  assumes "\<forall>x \<in> set as. fst x < (key :: 'k::linorder)"
  shows "map_of (as @ (key, v) # bs) = (map_of (as @ bs))(key \<mapsto> v)"
proof
  fix k
  have "map_of as key = None" using assms by (force simp: map_of_eq_None_iff)
  then show "map_of (as @ (key, v) # bs) k = ((map_of (as @ bs))(key \<mapsto> v)) k"
    by (cases "k = key"; cases "map_of as k") (simp_all add: map_add_def)
qed

interpretation srt: map_implementation "\<lambda>m. keys_sorted (sm_data m)" "\<lambda>m. map_of (sm_data m)" srt_insert srt_remove srt_get
proof
  fix m :: "('k::linorder, 'v) sorted_map" and k v
  assume sorted: "keys_sorted (sm_data m)"
  note lookup = lookup_index_rank [OF sorted, of k]
  show "\<exists>m'. srt_insert m k v = Some (m', map_of (sm_data m) k) \<and> keys_sorted (sm_data m') \<and>
      map_of (sm_data m') = (map_of (sm_data m))(k \<mapsto> v)"
    using sorted
  proof (cases rule: split_at_key [of _ k])
    case (there as w bs)
    note sides = map_of_sides [OF there(4,5)]
    have "srt_insert m k v = Some (m\<lparr>sm_data := as @ (k, v) # bs\<rparr>, Some w)"
      using lookup there(1-3) by (simp add: srt_insert_def list_update_append)
    then show ?thesis
      using keys_sorted_around(2) [OF there(4-7)] sides map_of_update_between [OF there(4)] by (simp add: there(1) map_add_def)
  next
    case (absent as bs)
    note sides = map_of_sides [OF absent(4,5)]
    have "srt_insert m k v = Some (m\<lparr>sm_data := as @ (k, v) # bs\<rparr>, None)"
      using lookup absent(1-3) by (simp add: srt_insert_def vec_insert_def)
    then show ?thesis
      using keys_sorted_around(2) [OF absent(4-7)] sides map_of_update_between [OF absent(4)] by (simp add: absent(1) map_add_def)
  qed
  show "\<exists>m'. srt_remove m k = Some (m', map_of (sm_data m) k) \<and> keys_sorted (sm_data m') \<and>
      map_of (sm_data m') = (map_of (sm_data m))(k := None)"
    using sorted
  proof (cases rule: split_at_key [of _ k])
    case (there as w bs)
    note sides = map_of_sides [OF there(4,5)]
    have "srt_remove m k = Some (m\<lparr>sm_data := as @ bs\<rparr>, Some w)"
      using lookup there(1-3) by (simp add: srt_remove_def vec_remove_def)
    moreover have "map_of (as @ bs) = (map_of (sm_data m))(k := None)"
      unfolding there(1) map_of_update_between [OF there(4)] using sides by (auto simp: map_add_def)
    ultimately show ?thesis using keys_sorted_around(1) [OF there(4-7)] sides by (simp add: there(1) map_add_def)
  next
    case (absent as bs)
    note sides = map_of_sides [OF absent(4,5)]
    have "srt_remove m k = Some (m, None)" using lookup absent(3) by (simp add: srt_remove_def)
    moreover have "map_of (sm_data m) k = None" using sides by (simp add: absent(1) map_add_def)
    ultimately show ?thesis using sorted by auto
  qed
  show "srt_get m k = Some (map_of (sm_data m) k)"
    using sorted
  proof (cases rule: split_at_key [of _ k])
    case (there as w bs)
    then show ?thesis using lookup map_of_sides [OF there(4,5)] by (simp add: srt_get_def map_add_def)
  next
    case (absent as bs)
    then show ?thesis using lookup map_of_sides [OF absent(4,5)] by (simp add: srt_get_def map_add_def)
  qed
qed

subsection \<open>Ranges\<close>

definition in_start :: "'k::linorder key_bound \<Rightarrow> 'k \<Rightarrow> bool" where
  "in_start b k = (case b of Incl a \<Rightarrow> a \<le> k | Excl a \<Rightarrow> a < k | Unbound \<Rightarrow> True)"

definition in_end :: "'k::linorder key_bound \<Rightarrow> 'k \<Rightarrow> bool" where
  "in_end b k = (case b of Incl a \<Rightarrow> k \<le> a | Excl a \<Rightarrow> k < a | Unbound \<Rightarrow> True)"

lemma rank_le_iff:
  assumes "keys_sorted xs" and "i < length xs"
  shows "fst (xs ! i) \<le> key \<longleftrightarrow> i < (if found xs key then rank xs key + 1 else rank xs key)"
proof (cases "found xs key")
  case True
  then have r: "rank xs key < length xs" "fst (xs ! rank xs key) = key" by (simp_all add: found_def)
  show ?thesis
    using rank_iff [OF assms, of key] rank_eq [OF assms(1,2), of key] r(2) True
    by (auto simp: le_less less_Suc_eq)
next
  case False
  then have "fst (xs ! i) \<noteq> key" using rank_eq [OF assms(1,2), of key] assms(2) by (auto simp: found_def)
  then show ?thesis using rank_iff [OF assms, of key] False by (simp add: le_less)
qed

lemma range_start_spec:
  assumes "keys_sorted (sm_data m)"
  obtains s where "srt_range_start m b = Some s" "s \<le> length (sm_data m)"
    "\<And>i. i < length (sm_data m) \<Longrightarrow> in_start b (fst (sm_data m ! i)) \<longleftrightarrow> s \<le> i"
proof (cases b)
  case (Incl k)
  then show thesis
    using that [of "rank (sm_data m) k"] lookup_index_rank [OF assms, of k] rank_le [of "sm_data m" k] rank_iff [OF assms, of _ k]
    by (auto simp: srt_range_start_def in_start_def not_less [symmetric] split: if_splits)
next
  case (Excl k)
  then show thesis
    using that [of "if found (sm_data m) k then rank (sm_data m) k + 1 else rank (sm_data m) k"] lookup_index_rank [OF assms, of k]
      rank_le [of "sm_data m" k] rank_le_iff [OF assms, of _ k]
    by (auto simp: srt_range_start_def in_start_def not_le [symmetric] found_def)
next
  case Unbound
  then show thesis using that [of 0] by (simp add: srt_range_start_def in_start_def)
qed

lemma range_end_spec:
  assumes "keys_sorted (sm_data m)"
  obtains e where "srt_range_end m b = Some e" "e \<le> length (sm_data m)"
    "\<And>i. i < length (sm_data m) \<Longrightarrow> in_end b (fst (sm_data m ! i)) \<longleftrightarrow> i < e"
proof (cases b)
  case (Excl k)
  then show thesis
    using that [of "rank (sm_data m) k"] lookup_index_rank [OF assms, of k] rank_le [of "sm_data m" k] rank_iff [OF assms, of _ k]
    by (auto simp: srt_range_end_def in_end_def split: if_splits)
next
  case (Incl k)
  then show thesis
    using that [of "if found (sm_data m) k then rank (sm_data m) k + 1 else rank (sm_data m) k"] lookup_index_rank [OF assms, of k]
      rank_le [of "sm_data m" k] rank_le_iff [OF assms, of _ k]
    by (auto simp: srt_range_end_def in_end_def found_def)
next
  case Unbound
  then show thesis using that [of "length (sm_data m)"] by (simp add: srt_range_end_def in_end_def)
qed

lemma filter_slice:
  assumes "s \<le> e" and "e \<le> length xs" and "\<And>i. i < length xs \<Longrightarrow> P (xs ! i) \<longleftrightarrow> s \<le> i \<and> i < e"
  shows "filter P xs = take (e - s) (drop s xs)" and "filter (\<lambda>x. \<not> P x) xs = take s xs @ drop e xs"
proof -
  have xs: "xs = take s xs @ take (e - s) (drop s xs) @ drop e xs"
    using assms(1) by (metis append_take_drop_id drop_drop le_add_diff_inverse2)
  have "\<not> P x" if "x \<in> set (take s xs)" for x using that assms by (auto simp: in_set_conv_nth)
  moreover have "P x" if "x \<in> set (take (e - s) (drop s xs))" for x using that assms by (auto simp: in_set_conv_nth)
  moreover have "\<not> P x" if "x \<in> set (drop e xs)" for x using that assms by (auto simp: in_set_conv_nth)
  ultimately show "filter P xs = take (e - s) (drop s xs)" "filter (\<lambda>x. \<not> P x) xs = take s xs @ drop e xs"
    by (subst xs, subst filter_append, subst filter_append, simp add: filter_False filter_True)+
qed

lemma range_indices:
  assumes "keys_sorted (sm_data m)" and "in_start lo k" and "in_end hi k"
  obtains s e where "range_slice_indices m (lo, hi) = Some (s, e)" "s \<le> e" "e \<le> length (sm_data m)"
    "\<And>i. i < length (sm_data m) \<Longrightarrow>
       in_start lo (fst (sm_data m ! i)) \<and> in_end hi (fst (sm_data m ! i)) \<longleftrightarrow> s \<le> i \<and> i < e"
proof -
  obtain s where s: "srt_range_start m lo = Some s" "s \<le> length (sm_data m)"
    "\<And>i. i < length (sm_data m) \<Longrightarrow> in_start lo (fst (sm_data m ! i)) \<longleftrightarrow> s \<le> i" using range_start_spec [OF assms(1)] by metis
  obtain e where e: "srt_range_end m hi = Some e" "e \<le> length (sm_data m)"
    "\<And>i. i < length (sm_data m) \<Longrightarrow> in_end hi (fst (sm_data m ! i)) \<longleftrightarrow> i < e" using range_end_spec [OF assms(1)] by metis
  have "s \<le> e"
  proof (rule ccontr)
    assume "\<not> s \<le> e"
    then have "\<not> in_start lo (fst (sm_data m ! e))" "\<not> in_end hi (fst (sm_data m ! e))" using s(2,3) e(3) by simp_all
    then show False using assms(2,3) by (auto simp: in_start_def in_end_def split: key_bound.splits)
  qed
  then show thesis using that [of s e] s e by (simp add: range_slice_indices_def)
qed

lemma srt_range_filter:
  assumes "keys_sorted (sm_data m)" and "in_start lo k" and "in_end hi k"
  shows "srt_range m (lo, hi) = Some (filter (\<lambda>x. in_start lo (fst x) \<and> in_end hi (fst x)) (sm_data m))"
    and "srt_remove_range m (lo, hi) = Some (m\<lparr>sm_data := filter (\<lambda>x. \<not> (in_start lo (fst x) \<and> in_end hi (fst x))) (sm_data m)\<rparr>)"
proof -
  obtain s e where se: "range_slice_indices m (lo, hi) = Some (s, e)" "s \<le> e" "e \<le> length (sm_data m)"
    "\<And>i. i < length (sm_data m) \<Longrightarrow>
       in_start lo (fst (sm_data m ! i)) \<and> in_end hi (fst (sm_data m ! i)) \<longleftrightarrow> s \<le> i \<and> i < e"
    using range_indices [OF assms] by metis
  note f = filter_slice [OF se(2,3), of "\<lambda>x. in_start lo (fst x) \<and> in_end hi (fst x)", OF se(4)]
  show "srt_range m (lo, hi) = Some (filter (\<lambda>x. in_start lo (fst x) \<and> in_end hi (fst x)) (sm_data m))"
    using se(1-3) f(1) by (simp add: srt_range_def)
  show "srt_remove_range m (lo, hi) = Some (m\<lparr>sm_data := filter (\<lambda>x. \<not> (in_start lo (fst x) \<and> in_end hi (fst x))) (sm_data m)\<rparr>)"
    using se(1-3) f(2) by (simp add: srt_remove_range_def splice_at_def)
qed

subsection \<open>Presorted elements\<close>

lemma presorted_iff: "presorted xs \<longleftrightarrow> keys_sorted xs"
proof (induction xs)
  case (Cons x xs)
  show ?case
  proof (cases xs)
    case (Cons y ys)
    have "presorted (x # xs) \<longleftrightarrow> fst x < fst y \<and> presorted xs"
      unfolding presorted_def Cons by (auto simp: nth_Cons split: nat.splits)
    then show ?thesis using Cons.IH by (auto simp: Cons intro: less_trans)
  qed (simp add: presorted_def)
qed (simp add: presorted_def)

lemma map_of_rev_sorted: "keys_sorted xs \<Longrightarrow> map_of (rev xs) = map_of xs"
proof -
  assume "keys_sorted xs"
  then have "distinct (map fst xs)" by (simp add: strict_sorted_iff)
  then show ?thesis by (simp add: map_of_inject_set rev_map [symmetric])
qed

lemma insert_rest_spec:
  assumes "keys_sorted (sm_data m)" and "keys_sorted kvs"
  shows "\<exists>m'. insert_rest kvs m = Some m' \<and> keys_sorted (sm_data m') \<and> map_of (sm_data m') = map_of (sm_data m) ++ map_of kvs"
  using srt.insert_all [OF assms(1), of kvs] map_of_rev_sorted [OF assms(2)] unfolding insert_rest_def by simp

lemma splice_between:
  assumes "keys_sorted (as @ bs)" and "keys_sorted es" and "\<forall>x \<in> set as. \<forall>e \<in> set es. fst x < fst e" and "\<forall>x \<in> set bs. \<forall>e \<in> set es. fst e < fst x"
  shows "keys_sorted (as @ es @ bs) \<and> map_of (as @ es @ bs) = map_of (as @ bs) ++ map_of es"
proof -
  have "dom (map_of as) \<inter> dom (map_of es) = {}" unfolding dom_map_of_conv_image_fst using assms(3) by fastforce
  then have "map_of as ++ map_of es = map_of es ++ map_of as" by (rule map_add_comm)
  then have "map_of (as @ es @ bs) = map_of (as @ bs) ++ map_of es" by (simp only: map_of_append map_add_assoc [symmetric])
  then show ?thesis using assms by (auto simp: sorted_wrt_append)
qed

lemma below_last: "keys_sorted xs \<Longrightarrow> x \<in> set xs \<Longrightarrow> fst x \<le> fst (last xs)"
  by (induction xs) (auto simp: less_imp_le)

lemma insert_presorted_spec:
  assumes sorted: "keys_sorted (sm_data m)" and es: "keys_sorted elements"
  shows "\<exists>m'. insert_presorted m elements = Some m' \<and> keys_sorted (sm_data m') \<and>
    map_of (sm_data m') = map_of (sm_data m) ++ map_of elements"
proof (cases elements)
  case Nil
  then show ?thesis using sorted by (simp add: insert_presorted_def)
next
  case (Cons e rest)
  obtain m1 where m1: "srt_insert m (fst e) (snd e) = Some (m1, map_of (sm_data m) (fst e))"
    using srt.ins [OF sorted] by blast
  have ins: "insert_rest elements m = insert_rest rest m1" using m1 by (simp add: insert_rest_def Cons case_prod_unfold)
  have pre: "presorted elements" using es by (simp add: presorted_iff)
  show ?thesis using sorted
  proof (cases rule: split_at_key [of _ "fst e"])
    case (there as w bs)
    then have "insert_presorted m elements = insert_rest rest m1"
      using m1 lookup_index_rank [OF sorted, of "fst e"] pre
      by (auto simp: insert_presorted_def Cons srt_insert_def list_update_append)
    then show ?thesis using insert_rest_spec [OF sorted es] ins by simp
  next
    case (absent as bs)
    have lookup: "lookup_index_for m (fst e) = Some (Inl (length as))" using lookup_index_rank [OF sorted, of "fst e"] absent(2,3) by simp
    show ?thesis
    proof (cases "bs = [] \<or> fst (last elements) < fst (hd bs)")
      case whole: True
      then have "insert_presorted m elements = Some (m\<lparr>sm_data := as @ elements @ bs\<rparr>)"
        using lookup pre absent(1) by (cases bs) (auto simp: insert_presorted_def Cons splice_at_def nth_append)
      moreover have "\<forall>x \<in> set as. \<forall>y \<in> set elements. fst x < fst y" using absent(4) es by (auto simp: Cons intro: less_trans)
      moreover have "\<forall>x \<in> set bs. \<forall>y \<in> set elements. fst y < fst x" using whole absent(7) es below_last by (cases bs) fastforce+
      ultimately show ?thesis using splice_between [of as bs elements] sorted es absent(1) by simp
    next
      case False
      then have "insert_presorted m elements = insert_rest rest m1"
        using lookup pre m1 absent(1) by (cases bs) (auto simp: insert_presorted_def Cons srt_insert_def vec_insert_def nth_append)
      then show ?thesis using insert_rest_spec [OF sorted es] ins by simp
    qed
  qed
qed

subsection \<open>Collecting\<close>

lemma dedup_keys_spec:
  "sorted (map fst xs) \<Longrightarrow> keys_sorted (dedup_keys xs) \<and> fst ` set (dedup_keys xs) = fst ` set xs \<and> set (dedup_keys xs) \<subseteq> set xs"
proof (induction xs rule: dedup_keys.induct)
  case (1 x y zs)
  show ?case
  proof (cases "fst x = fst y")
    case True
    then show ?thesis using 1 by auto
  next
    case False
    then have IH: "keys_sorted (dedup_keys (y # zs))" "fst ` set (dedup_keys (y # zs)) = fst ` set (y # zs)"
      "set (dedup_keys (y # zs)) \<subseteq> set (y # zs)" using 1 by simp_all
    have less: "fst x < fst w" if "w \<in> set (y # zs)" for w using that 1(3) False by (auto simp: le_less intro: less_le_trans)
    have "\<forall>w \<in> set (dedup_keys (y # zs)). fst x < fst w" using IH(3) less by blast
    then have "keys_sorted (x # dedup_keys (y # zs))" using IH(1) by simp
    then show ?thesis using False IH(2,3) by auto
  qed
qed simp_all

lemma srt_from_iter_spec:
  assumes "sorted (map fst (sort_unstable items))" and "set (sort_unstable items) = set items"
  shows "keys_sorted (sm_data (srt_from_iter sort_unstable items))"
    and "dom (map_of (sm_data (srt_from_iter sort_unstable items))) = fst ` set items"
    and "map_of (sm_data (srt_from_iter sort_unstable items)) k = Some v \<Longrightarrow> (k, v) \<in> set items"
  using dedup_keys_spec [OF assms(1)] assms(2)
  by (auto simp: srt_from_iter_def dom_map_of_conv_image_fst dest: map_of_SomeD)

subsection \<open>Properties\<close>

text \<open>
  C10: a sorted map behaves as a map. On a vector with strictly increasing keys the binary
  search stays in bounds and ends, and inserting, removing and looking up a key return the
  old value of the key, keep the keys strictly increasing, and change the represented map
  at this key only.
\<close>

theorem sorted_map_operations:
  assumes "sorted_wrt (<) (map fst (sm_data m))"
  shows "(\<exists>m'. srt_insert m k v = Some (m', map_of (sm_data m) k) \<and> sorted_wrt (<) (map fst (sm_data m')) \<and>
      map_of (sm_data m') = (map_of (sm_data m))(k \<mapsto> v)) \<and>
    (\<exists>m'. srt_remove m k = Some (m', map_of (sm_data m) k) \<and> sorted_wrt (<) (map fst (sm_data m')) \<and>
      map_of (sm_data m') = (map_of (sm_data m))(k := None)) \<and>
    srt_get m k = Some (map_of (sm_data m) k) \<and>
    srt_contains_key m k = Some (k \<in> dom (map_of (sm_data m)))"
  using srt.ins [OF assms, of k v] srt.del [OF assms, of k] srt.find [OF assms, of k]
  by (auto simp: srt_contains_key_def dom_def)

theorem sorted_map_operations_witness:
  "sorted_wrt (<) (map fst [(1 :: nat, CHR ''a''), (4, CHR ''b'')]) \<and>
   srt_get \<lparr>sm_data = [(1 :: nat, CHR ''a''), (4, CHR ''b'')]\<rparr> 4 = Some (Some CHR ''b'')"
  using sorted_map_operations [of "\<lparr>sm_data = [(1 :: nat, CHR ''a''), (4, CHR ''b'')]\<rparr>" 4 "CHR ''c''"] by simp

text \<open>
  The bulk operations of a sorted map. When some key lies in the range, \<open>range\<close>
  returns exactly the entries with a key in it and \<open>remove_range\<close> exactly the others, for
  every kind of bounds; \<open>insert_presorted\<close>, with its splice of a run that fits between two
  entries, overrides the map with the elements, as inserting them one by one does.
\<close>

theorem sorted_map_bulk:
  assumes "sorted_wrt (<) (map fst (sm_data m))" and "in_start lo k" and "in_end hi k"
    and "sorted_wrt (<) (map fst elements)"
  shows "srt_range m (lo, hi) = Some (filter (\<lambda>x. in_start lo (fst x) \<and> in_end hi (fst x)) (sm_data m)) \<and>
    srt_remove_range m (lo, hi) = Some (m\<lparr>sm_data := filter (\<lambda>x. \<not> (in_start lo (fst x) \<and> in_end hi (fst x))) (sm_data m)\<rparr>) \<and>
    (\<exists>m'. insert_presorted m elements = Some m' \<and> sorted_wrt (<) (map fst (sm_data m')) \<and>
       map_of (sm_data m') = map_of (sm_data m) ++ map_of elements)"
  using srt_range_filter [OF assms(1-3)] insert_presorted_spec [OF assms(1,4)] by simp

theorem sorted_map_bulk_witness:
  "in_start (Incl 2) (3 :: nat) \<and> in_end (Excl 9) (3 :: nat) \<and>
   srt_range \<lparr>sm_data = [(1 :: nat, True), (4, False), (9, True)]\<rparr> (Incl 2, Excl 9) = Some [(4, False)]"
proof -
  have "in_start (Incl 2) (3 :: nat)" "in_end (Excl 9) (3 :: nat)" by (simp_all add: in_start_def in_end_def)
  then show ?thesis
    using sorted_map_bulk [of "\<lparr>sm_data = [(1 :: nat, True), (4, False), (9, True)]\<rparr>" "Incl 2" 3 "Excl 9" "[]"]
    by (simp add: in_start_def in_end_def)
qed

end
