(* ===== verification/Transitive_Relation.thy ===== *)
theory Transitive_Relation
  imports Bit_Matrix
begin

text \<open>
  \<open>rustc_data_structures/src/transitive_relation.rs\<close>: a relation given by edges, its
  transitive closure as a \<open>BitMatrix\<close>, and the bounds region inference asks for. The
  \<open>IndexSet\<close> of the elements and the hash set of the edges are parameters, the record
  \<open>collections\<close> of the operations used, with their documented laws as
  \<open>collections_laws\<close>. \<open>None\<close> is a panic; for the two loops that are not structural it is also
  a run that does not return.
\<close>

subsection \<open>The builder\<close>

record edge =
  source :: nat
  target :: nat

record ('t, 's, 'h) collections =
  insert_full_op :: "'s \<Rightarrow> 't \<Rightarrow> nat \<times> 's"
  get_index_of_op :: "'s \<Rightarrow> 't \<Rightarrow> nat option"
  get_index_op :: "'s \<Rightarrow> nat \<Rightarrow> 't option"
  len_op :: "'s \<Rightarrow> nat"
  empty_elements :: 's
  insert_edge_op :: "'h \<Rightarrow> edge \<Rightarrow> 'h"
  edges_op :: "'h \<Rightarrow> edge list"
  empty_edges :: 'h

record ('s, 'h) relation_builder =
  rb_elements :: 's
  rb_edges :: 'h

record ('s, 'h) transitive_relation =
  tr_builder :: "('s, 'h) relation_builder"
  tr_closure :: bit_matrix

definition rb_default :: "('t, 's, 'h) collections \<Rightarrow> ('s, 'h) relation_builder" where
  "rb_default C = \<lparr>rb_elements = empty_elements C, rb_edges = empty_edges C\<rparr>"

definition rb_is_empty :: "('t, 's, 'h) collections \<Rightarrow> ('s, 'h) relation_builder \<Rightarrow> bool" where
  "rb_is_empty C self \<longleftrightarrow> edges_op C (rb_edges self) = []"

definition index_of :: "('t, 's, 'h) collections \<Rightarrow> ('s, 'h) relation_builder \<Rightarrow> 't \<Rightarrow> nat option" where
  "index_of C self a = get_index_of_op C (rb_elements self) a"

definition add_index :: "('t, 's, 'h) collections \<Rightarrow> ('s, 'h) relation_builder \<Rightarrow> 't \<Rightarrow> nat \<times> ('s, 'h) relation_builder" where
  "add_index C self a =
     (let (index, elements) = insert_full_op C (rb_elements self) a in (index, self\<lparr>rb_elements := elements\<rparr>))"

definition rb_add :: "('t, 's, 'h) collections \<Rightarrow> ('s, 'h) relation_builder \<Rightarrow> 't \<Rightarrow> 't \<Rightarrow> ('s, 'h) relation_builder" where
  "rb_add C self a b =
     (let (a, self) = add_index C self a;
          (b, self) = add_index C self b;
          edge = \<lparr>source = a, target = b\<rparr>
      in self\<lparr>rb_edges := insert_edge_op C (rb_edges self) edge\<rparr>)"

text \<open>\<open>self.elements[i]\<close>: a panic when the index is out of range.\<close>

definition element :: "('t, 's, 'h) collections \<Rightarrow> ('s, 'h) relation_builder \<Rightarrow> nat \<Rightarrow> 't option" where
  "element C self i = get_index_op C (rb_elements self) i"

text \<open>\<open>maybe_map\<close>, for a function \<open>f\<close> without state; the result is absent when \<open>f\<close> is undefined at an end point.\<close>

definition rb_maybe_map ::
  "('t, 's, 'h) collections \<Rightarrow> ('u, 'x, 'y) collections \<Rightarrow> ('t \<Rightarrow> 'u option) \<Rightarrow> ('s, 'h) relation_builder \<Rightarrow>
   ('x, 'y) relation_builder option option" where
  "rb_maybe_map C D f self =
     for_loop (\<lambda>edge result. case result of
         None \<Rightarrow> Some None
       | Some b \<Rightarrow> do {
           x \<leftarrow> element C self (source edge);
           case f x of
             None \<Rightarrow> Some None
           | Some x' \<Rightarrow> do {
               y \<leftarrow> element C self (target edge);
               Some (case f y of None \<Rightarrow> None | Some y' \<Rightarrow> Some (rb_add D b x' y'))
             }
         }) (edges_op C (rb_edges self)) (Some (rb_default D))"

definition base_edges :: "('t, 's, 'h) collections \<Rightarrow> ('s, 'h) relation_builder \<Rightarrow> ('t \<times> 't) list option" where
  "base_edges C self =
     those (map (\<lambda>edge. do { x \<leftarrow> element C self (source edge); y \<leftarrow> element C self (target edge); Some (x, y) })
       (edges_op C (rb_edges self)))"

subsection \<open>The closure\<close>

definition freeze_edge :: "edge \<Rightarrow> bit_matrix \<times> bool \<Rightarrow> (bit_matrix \<times> bool) option" where
  "freeze_edge edge state = do {
     let (matrix, changed) = state;
     (matrix, inserted) \<leftarrow> bm_insert matrix (source edge) (target edge);
     (matrix, united) \<leftarrow> bm_union_rows matrix (target edge) (source edge);
     Some (matrix, changed \<or> inserted \<or> united)
   }"

partial_function (option) freeze_loop :: "edge list \<Rightarrow> bit_matrix \<Rightarrow> bit_matrix option" where
  "freeze_loop edges matrix =
     Option.bind (for_loop freeze_edge edges (matrix, False))
       (\<lambda>(matrix, changed). if changed then freeze_loop edges matrix else Some matrix)"

definition freeze :: "('t, 's, 'h) collections \<Rightarrow> ('s, 'h) relation_builder \<Rightarrow> ('s, 'h) transitive_relation option" where
  "freeze C self = do {
     let n = len_op C (rb_elements self);
     matrix \<leftarrow> freeze_loop (edges_op C (rb_edges self)) (bm_new n n);
     Some \<lparr>tr_builder = self, tr_closure = matrix\<rparr>
   }"

definition tr_maybe_map ::
  "('t, 's, 'h) collections \<Rightarrow> ('u, 'x, 'y) collections \<Rightarrow> ('t \<Rightarrow> 'u option) \<Rightarrow> ('s, 'h) transitive_relation \<Rightarrow>
   ('x, 'y) transitive_relation option option" where
  "tr_maybe_map C D f self = do {
     b \<leftarrow> rb_maybe_map C D f (tr_builder self);
     case b of None \<Rightarrow> Some None | Some b \<Rightarrow> map_option Some (freeze D b)
   }"

subsection \<open>Queries\<close>

definition tr_contains :: "('t, 's, 'h) collections \<Rightarrow> ('s, 'h) transitive_relation \<Rightarrow> 't \<Rightarrow> 't \<Rightarrow> bool option" where
  "tr_contains C self a b =
     (case (index_of C (tr_builder self) a, index_of C (tr_builder self) b) of
        (Some a, Some b) \<Rightarrow> bm_contains (tr_closure self) a b
      | _ \<Rightarrow> Some False)"

definition reachable_from :: "('t, 's, 'h) collections \<Rightarrow> ('s, 'h) transitive_relation \<Rightarrow> 't \<Rightarrow> 't list option" where
  "reachable_from C self a =
     (case index_of C (tr_builder self) a of
        Some a \<Rightarrow> do { is \<leftarrow> bm_iter (tr_closure self) a; those (map (element C (tr_builder self)) is) }
      | None \<Rightarrow> Some [])"

text \<open>
  \<open>pare_down\<close>: the inner loop moves the candidates that stay over the dead ones; then the
  vector is truncated.
\<close>

function pare_inner :: "bit_matrix \<Rightarrow> nat \<Rightarrow> nat list \<Rightarrow> nat \<Rightarrow> nat \<Rightarrow> (nat list \<times> nat \<times> nat) option" where
  "pare_inner closure candidate_i candidates j dead =
     (if j < length candidates then
        (case bm_contains closure candidate_i (candidates ! j) of
           None \<Rightarrow> None
         | Some True \<Rightarrow> pare_inner closure candidate_i candidates (j + 1) (dead + 1)
         | Some False \<Rightarrow> pare_inner closure candidate_i (candidates[j - dead := candidates ! j]) (j + 1) dead)
      else Some (candidates, j, dead))"
  by pat_completeness auto
termination
  by (relation "measure (\<lambda>(m, c, xs, j, d). length xs - j)") auto

partial_function (option) pare_loop :: "bit_matrix \<Rightarrow> nat list \<Rightarrow> nat \<Rightarrow> nat list option" where
  "pare_loop closure candidates i =
     (if i < length candidates then
        Option.bind (pare_inner closure (candidates ! i) candidates (i + 1) 0)
          (\<lambda>(candidates, j, dead). pare_loop closure (take (j - dead) candidates) (i + 1))
      else Some candidates)"

declare pare_inner.simps [simp del]

definition pare_down :: "nat list \<Rightarrow> bit_matrix \<Rightarrow> nat list option" where
  "pare_down candidates closure = pare_loop closure candidates 0"

definition lub_indices :: "bit_matrix \<Rightarrow> nat \<Rightarrow> nat \<Rightarrow> nat list option" where
  "lub_indices closure a b = do {
     ab \<leftarrow> bm_contains closure a b;
     if ab then Some [b]
     else do {
       ba \<leftarrow> bm_contains closure b a;
       if ba then Some [a]
       else do {
         candidates \<leftarrow> bm_intersect_rows closure a b;
         candidates \<leftarrow> pare_down candidates closure;
         pare_down (rev candidates) closure
       }
     }
   }"

definition minimal_upper_bounds :: "('t, 's, 'h) collections \<Rightarrow> ('s, 'h) transitive_relation \<Rightarrow> 't \<Rightarrow> 't \<Rightarrow> 't list option" where
  "minimal_upper_bounds C self a b =
     (case (index_of C (tr_builder self) a, index_of C (tr_builder self) b) of
        (Some a, Some b) \<Rightarrow> do {
          let (a, b) = (if a > b then (b, a) else (a, b));
          lubs \<leftarrow> lub_indices (tr_closure self) a b;
          those (map (element C (tr_builder self)) (rev lubs))
        }
      | _ \<Rightarrow> Some [])"

definition parents :: "('t, 's, 'h) collections \<Rightarrow> ('s, 'h) transitive_relation \<Rightarrow> 't \<Rightarrow> 't list option" where
  "parents C self a =
     (case index_of C (tr_builder self) a of
        None \<Rightarrow> Some []
      | Some a \<Rightarrow> do {
          ancestors \<leftarrow> bm_intersect_rows (tr_closure self) a a;
          back \<leftarrow> those (map (\<lambda>e. bm_contains (tr_closure self) e a) ancestors);
          let ancestors = map fst (filter (\<lambda>(e, b). \<not> b) (zip ancestors back));
          ancestors \<leftarrow> pare_down ancestors (tr_closure self);
          ancestors \<leftarrow> pare_down (rev ancestors) (tr_closure self);
          those (map (element C (tr_builder self)) (rev ancestors))
        })"

partial_function (option) mutual_immediate_postdominator ::
  "('t, 's, 'h) collections \<Rightarrow> ('s, 'h) transitive_relation \<Rightarrow> 't list \<Rightarrow> 't option option" where
  "mutual_immediate_postdominator C self mubs =
     (case rev mubs of
        [] \<Rightarrow> Some None
      | [x] \<Rightarrow> Some (Some x)
      | m # n # rest \<Rightarrow>
          Option.bind (minimal_upper_bounds C self n m)
            (\<lambda>bounds. mutual_immediate_postdominator C self (rev rest @ bounds)))"

definition postdom_upper_bound :: "('t, 's, 'h) collections \<Rightarrow> ('s, 'h) transitive_relation \<Rightarrow> 't \<Rightarrow> 't \<Rightarrow> 't option option" where
  "postdom_upper_bound C self a b = do {
     mubs \<leftarrow> minimal_upper_bounds C self a b;
     mutual_immediate_postdominator C self mubs
   }"

end
