(* ===== verification/Transitive_Props.thy ===== *)
theory Transitive_Props
  imports Transitive_Relation
begin

text \<open>
  The closure is the transitive closure: the matrix as a relation on indices, the passes
  over the edges as steps that grow the relation within the closure, and the translation
  between indices and elements.
\<close>

subsection \<open>Matrices as relations\<close>

definition bm_rel :: "bit_matrix \<Rightarrow> (nat \<times> nat) set" where
  "bm_rel m = {(r, c). r < num_rows m \<and> c \<in> bs_elems (bm_row m r)}"

definition square :: "nat \<Rightarrow> bit_matrix \<Rightarrow> bool" where
  "square n m \<longleftrightarrow> bm_ok m \<and> num_rows m = n \<and> num_columns m = n"

lemma bm_rel_Image: "square n m \<Longrightarrow> r < n \<Longrightarrow> bm_rel m `` {r} = bs_elems (bm_row m r)"
  by (auto simp: bm_rel_def square_def)

lemma bm_rel_bounded: "square n m \<Longrightarrow> bm_rel m \<subseteq> {..<n} \<times> {..<n}"
proof -
  assume m: "square n m"
  have "bs_elems (bm_row m r) \<subseteq> {..<n}" if "r < n" for r
    using m bm_ok_row [of m r] that by (simp add: square_def bs_ok_def bs_elems_def)
  then show ?thesis using m by (auto simp: bm_rel_def square_def)
qed

lemma row_returns_rel:
  assumes "row_returns m r res X b" and "square n m" and "r < n"
  obtains m' where "res = Some (m', b)" "square n m'" "bm_rel m' = {p \<in> bm_rel m. fst p \<noteq> r} \<union> {r} \<times> X"
proof -
  obtain m' where m': "res = Some (m', b)" "bm_ok m'" "num_rows m' = num_rows m" "num_columns m' = num_columns m"
    "bs_elems (bm_row m' r) = X" "\<forall>r'<num_rows m. r' \<noteq> r \<longrightarrow> bm_row m' r' = bm_row m r'"
    using assms(1) by (auto simp: row_returns_def)
  then have "bm_rel m' = {p \<in> bm_rel m. fst p \<noteq> r} \<union> {r} \<times> X" using assms(2,3) by (auto simp: bm_rel_def square_def)
  then show thesis using that m' assms(2) by (simp add: square_def)
qed

subsection \<open>One edge\<close>

definition edge_step :: "nat \<times> nat \<Rightarrow> (nat \<times> nat) set \<Rightarrow> (nat \<times> nat) set" where
  "edge_step e R = (let R' = insert e R in R' \<union> {fst e} \<times> (R' `` {snd e}))"

lemma freeze_edge_step:
  assumes "square n m" and "source e < n" and "target e < n"
  obtains m' where "freeze_edge e (m, fl) = Some (m', fl \<or> bm_rel m' \<noteq> bm_rel m)" "square n m'"
    "bm_rel m' = edge_step (source e, target e) (bm_rel m)"
proof -
  let ?s = "source e" and ?t = "target e" and ?R = "bm_rel m"
  have ok: "bm_ok m" "?s < num_rows m" "?t < num_columns m" using assms by (simp_all add: square_def)
  obtain m1 where m1: "bm_insert m ?s ?t = Some (m1, ?t \<notin> bs_elems (bm_row m ?s))" "square n m1"
    "bm_rel m1 = {p \<in> ?R. fst p \<noteq> ?s} \<union> {?s} \<times> insert ?t (bs_elems (bm_row m ?s))"
    by (rule row_returns_rel [OF bm_insert_row [OF ok] assms(1,2)])
  have R1: "bm_rel m1 = insert (?s, ?t) ?R" unfolding m1(3) bm_rel_Image [OF assms(1,2), symmetric] by auto
  have ok1: "bm_ok m1" "?t < num_rows m1" "?s < num_rows m1" using m1(2) assms by (simp_all add: square_def)
  obtain m2 where m2: "bm_union_rows m1 ?t ?s = Some (m2, \<not> bs_elems (bm_row m1 ?t) \<subseteq> bs_elems (bm_row m1 ?s))" "square n m2"
    "bm_rel m2 = {p \<in> bm_rel m1. fst p \<noteq> ?s} \<union> {?s} \<times> (bs_elems (bm_row m1 ?s) \<union> bs_elems (bm_row m1 ?t))"
    by (rule row_returns_rel [OF bm_union_rows_row [OF ok1] m1(2) assms(2)])
  have im: "bs_elems (bm_row m1 ?t) = bm_rel m1 `` {?t}" "bs_elems (bm_row m1 ?s) = bm_rel m1 `` {?s}"
    using bm_rel_Image [OF m1(2)] assms by simp_all
  have R2: "bm_rel m2 = bm_rel m1 \<union> {?s} \<times> (bm_rel m1 `` {?t})" unfolding m2(3) im by auto
  have mem: "?t \<in> bs_elems (bm_row m ?s) \<longleftrightarrow> (?s, ?t) \<in> ?R" unfolding bm_rel_Image [OF assms(1,2), symmetric] by simp
  have "bm_rel m2 \<noteq> ?R \<longleftrightarrow> (?s, ?t) \<notin> ?R \<or> \<not> bm_rel m1 `` {?t} \<subseteq> bm_rel m1 `` {?s}" unfolding R2 unfolding R1 by auto
  then have "freeze_edge e (m, fl) = Some (m2, fl \<or> bm_rel m2 \<noteq> ?R)"
    using m1(1) m2(1) by (simp add: freeze_edge_def im mem)
  then show thesis using that [of m2] m2(2) by (simp add: edge_step_def R2 R1 Let_def)
qed

lemma edge_step_mono: "R \<subseteq> edge_step e R"
  by (auto simp: edge_step_def Let_def)

lemma edge_step_trancl:
  assumes "(a, b) \<in> E" and "R \<subseteq> E\<^sup>+"
  shows "edge_step (a, b) R \<subseteq> E\<^sup>+"
proof -
  have "(a, y) \<in> E\<^sup>+" if "(b, y) \<in> E\<^sup>+" for y using assms(1) that by (rule trancl_into_trancl2)
  then show ?thesis using assms by (auto simp: edge_step_def Let_def)
qed

lemma edge_step_closed: "edge_step e R = R \<Longrightarrow> e \<in> R \<and> R `` {snd e} \<subseteq> R `` {fst e}"
  by (cases e) (auto simp: edge_step_def Let_def)

lemma closed_trancl:
  assumes "\<forall>e \<in> E. e \<in> R \<and> R `` {snd e} \<subseteq> R `` {fst e}"
  shows "E\<^sup>+ \<subseteq> R"
proof (rule subrelI)
  fix x y assume "(x, y) \<in> E\<^sup>+"
  then show "(x, y) \<in> R"
    by (induction rule: converse_trancl_induct) (use assms in force)+
qed

subsection \<open>Passes\<close>

definition edge_pairs :: "edge list \<Rightarrow> (nat \<times> nat) set" where
  "edge_pairs es = (\<lambda>e. (source e, target e)) ` set es"

lemma freeze_pass:
  assumes "square n m" and "edge_pairs es \<subseteq> {..<n} \<times> {..<n}"
  shows "\<exists>m'. for_loop freeze_edge es (m, fl) = Some (m', fl \<or> bm_rel m' \<noteq> bm_rel m) \<and> square n m' \<and> bm_rel m \<subseteq> bm_rel m' \<and>
    (\<forall>E. edge_pairs es \<subseteq> E \<and> bm_rel m \<subseteq> E\<^sup>+ \<longrightarrow> bm_rel m' \<subseteq> E\<^sup>+) \<and>
    (bm_rel m' = bm_rel m \<longrightarrow> (\<forall>e \<in> edge_pairs es. e \<in> bm_rel m \<and> bm_rel m `` {snd e} \<subseteq> bm_rel m `` {fst e}))"
  using assms
proof (induction es arbitrary: m fl)
  case Nil
  then show ?case by (auto simp: edge_pairs_def)
next
  case (Cons e es)
  have e: "source e < n" "target e < n" "edge_pairs es \<subseteq> {..<n} \<times> {..<n}" using Cons.prems(2) by (auto simp: edge_pairs_def)
  obtain m1 where m1: "freeze_edge e (m, fl) = Some (m1, fl \<or> bm_rel m1 \<noteq> bm_rel m)" "square n m1"
    "bm_rel m1 = edge_step (source e, target e) (bm_rel m)"
    by (rule freeze_edge_step [OF Cons.prems(1) e(1,2)])
  obtain m2 where m2: "for_loop freeze_edge es (m1, fl \<or> bm_rel m1 \<noteq> bm_rel m) =
      Some (m2, (fl \<or> bm_rel m1 \<noteq> bm_rel m) \<or> bm_rel m2 \<noteq> bm_rel m1)" "square n m2" "bm_rel m1 \<subseteq> bm_rel m2"
    "\<forall>E. edge_pairs es \<subseteq> E \<and> bm_rel m1 \<subseteq> E\<^sup>+ \<longrightarrow> bm_rel m2 \<subseteq> E\<^sup>+"
    "bm_rel m2 = bm_rel m1 \<longrightarrow> (\<forall>e \<in> edge_pairs es. e \<in> bm_rel m1 \<and> bm_rel m1 `` {snd e} \<subseteq> bm_rel m1 `` {fst e})"
    using Cons.IH [OF m1(2) e(3), of "fl \<or> bm_rel m1 \<noteq> bm_rel m"] by (elim exE conjE) (rule that)
  have sub: "bm_rel m \<subseteq> bm_rel m1" unfolding m1(3) by (rule edge_step_mono)
  have flag: "(fl \<or> bm_rel m1 \<noteq> bm_rel m) \<or> bm_rel m2 \<noteq> bm_rel m1 \<longleftrightarrow> fl \<or> bm_rel m2 \<noteq> bm_rel m"
    using sub m2(3) by blast
  have pairs: "edge_pairs (e # es) = insert (source e, target e) (edge_pairs es)" by (auto simp: edge_pairs_def)
  have "bm_rel m2 \<subseteq> E\<^sup>+" if "edge_pairs (e # es) \<subseteq> E" "bm_rel m \<subseteq> E\<^sup>+" for E
    using m2(4) that edge_step_trancl [of "source e" "target e" E "bm_rel m"] by (simp add: pairs m1(3))
  moreover have "\<forall>p \<in> edge_pairs (e # es). p \<in> bm_rel m \<and> bm_rel m `` {snd p} \<subseteq> bm_rel m `` {fst p}" if "bm_rel m2 = bm_rel m"
  proof -
    have eq: "bm_rel m1 = bm_rel m" "bm_rel m2 = bm_rel m1" using that sub m2(3) by auto
    show ?thesis using m2(5) eq edge_step_closed [of "(source e, target e)" "bm_rel m"] m1(3) by (simp add: pairs)
  qed
  ultimately show ?case using m1(1) m2(1-3) sub unfolding flag by auto
qed

lemma freeze_loop_trancl:
  assumes "square n m" and "edge_pairs es \<subseteq> {..<n} \<times> {..<n}" and "bm_rel m \<subseteq> (edge_pairs es)\<^sup>+"
  shows "\<exists>m'. freeze_loop es m = Some m' \<and> square n m' \<and> bm_rel m' = (edge_pairs es)\<^sup>+"
  using assms(1,3)
proof (induction "card ({..<n} \<times> {..<n} - bm_rel m)" arbitrary: m rule: less_induct)
  case less
  obtain m1 where m1: "for_loop freeze_edge es (m, False) = Some (m1, bm_rel m1 \<noteq> bm_rel m)" "square n m1" "bm_rel m \<subseteq> bm_rel m1"
    and step: "\<forall>E. edge_pairs es \<subseteq> E \<and> bm_rel m \<subseteq> E\<^sup>+ \<longrightarrow> bm_rel m1 \<subseteq> E\<^sup>+"
    and closed: "bm_rel m1 = bm_rel m \<longrightarrow> (\<forall>e \<in> edge_pairs es. e \<in> bm_rel m \<and> bm_rel m `` {snd e} \<subseteq> bm_rel m `` {fst e})"
    using freeze_pass [OF less.prems(1) assms(2), of False] unfolding simp_thms by (elim exE conjE) (rule that)
  have sub: "bm_rel m1 \<subseteq> (edge_pairs es)\<^sup>+" using step less.prems(2) by blast
  show ?case
  proof (cases "bm_rel m1 = bm_rel m")
    case True
    then have "(edge_pairs es)\<^sup>+ \<subseteq> bm_rel m1" using closed closed_trancl by metis
    then show ?thesis using m1 sub True by (simp add: freeze_loop.simps [of es m])
  next
    case False
    have "{..<n} \<times> {..<n} - bm_rel m1 \<subset> {..<n} \<times> {..<n} - bm_rel m"
      using False m1(3) bm_rel_bounded [OF m1(2)] by blast
    then have "card ({..<n} \<times> {..<n} - bm_rel m1) < card ({..<n} \<times> {..<n} - bm_rel m)" by (intro psubset_card_mono) simp_all
    then show ?thesis using less.hyps [OF _ m1(2) sub] False m1(1) by (simp add: freeze_loop.simps [of es m])
  qed
qed

subsection \<open>Elements and indices\<close>

text \<open>
  What is relied on of the collections: an index set numbers its elements, insertion
  returns the index of the element and keeps the other indices; iterating a set of edges
  lists the edges that were inserted, in some order.
\<close>

definition collections_laws :: "('t, 's, 'h) collections \<Rightarrow> bool" where
  "collections_laws C \<longleftrightarrow>
     (\<forall>s x i. get_index_of_op C s x = Some i \<longleftrightarrow> get_index_op C s i = Some x) \<and>
     (\<forall>s i. get_index_op C s i \<noteq> None \<longleftrightarrow> i < len_op C s) \<and>
     (\<forall>s x. get_index_of_op C (snd (insert_full_op C s x)) x = Some (fst (insert_full_op C s x))) \<and>
     (\<forall>s x y j. get_index_of_op C s y = Some j \<longrightarrow> get_index_of_op C (snd (insert_full_op C s x)) y = Some j) \<and>
     (\<forall>s x y. get_index_of_op C (snd (insert_full_op C s x)) y \<noteq> None \<longrightarrow> y = x \<or> get_index_of_op C s y \<noteq> None) \<and>
     (\<forall>h e. set (edges_op C (insert_edge_op C h e)) = insert e (set (edges_op C h))) \<and>
     edges_op C (empty_edges C) = []"

lemma laws_index: "collections_laws C \<Longrightarrow> index_of C b x = Some i \<longleftrightarrow> element C b i = Some x"
  by (simp add: collections_laws_def index_of_def element_def)

lemma laws_len: "collections_laws C \<Longrightarrow> i < len_op C (rb_elements b) \<longleftrightarrow> (\<exists>x. element C b i = Some x)"
  by (simp add: collections_laws_def element_def)

lemma laws_edges: "collections_laws C \<Longrightarrow> set (edges_op C (insert_edge_op C h e)) = insert e (set (edges_op C h))"
  by (simp add: collections_laws_def)

lemma laws_empty: "collections_laws C \<Longrightarrow> edges_op C (empty_edges C) = []"
  by (simp add: collections_laws_def)

lemma add_index_spec:
  assumes "collections_laws C" and "add_index C b x = (i, b')"
  shows "element C b' i = Some x" and "element C b j = Some y \<Longrightarrow> element C b' j = Some y" and "rb_edges b' = rb_edges b"
proof -
  obtain s where s: "insert_full_op C (rb_elements b) x = (i, s)" "b' = b\<lparr>rb_elements := s\<rparr>"
    using assms(2) by (auto simp: add_index_def split: prod.splits)
  have "get_index_of_op C s x = Some i" using assms(1) s(1) unfolding collections_laws_def by (metis fst_conv snd_conv)
  then show "element C b' i = Some x" using assms(1) s(2) unfolding collections_laws_def element_def by simp
  assume "element C b j = Some y"
  then have "get_index_of_op C (rb_elements b) y = Some j" using assms(1) unfolding collections_laws_def element_def by blast
  then have "get_index_of_op C s y = Some j" using assms(1) s(1) unfolding collections_laws_def by (metis snd_conv)
  then show "element C b' j = Some y" using assms(1) s(2) unfolding collections_laws_def element_def by simp
qed (use assms(2) in \<open>auto simp: add_index_def split: prod.splits\<close>)

definition builder_ok :: "('t, 's, 'h) collections \<Rightarrow> ('s, 'h) relation_builder \<Rightarrow> bool" where
  "builder_ok C b \<longleftrightarrow> edge_pairs (edges_op C (rb_edges b)) \<subseteq> {..<len_op C (rb_elements b)} \<times> {..<len_op C (rb_elements b)}"

definition builder_rel :: "('t, 's, 'h) collections \<Rightarrow> ('s, 'h) relation_builder \<Rightarrow> ('t \<times> 't) set" where
  "builder_rel C b = {(x, y). \<exists>(i, j) \<in> edge_pairs (edges_op C (rb_edges b)). element C b i = Some x \<and> element C b j = Some y}"

lemma rb_add_spec:
  assumes laws: "collections_laws C" and ok: "builder_ok C b"
  shows "builder_ok C (rb_add C b x y) \<and> builder_rel C (rb_add C b x y) = insert (x, y) (builder_rel C b)"
proof -
  obtain i b1 where b1: "add_index C b x = (i, b1)" by (cases "add_index C b x")
  obtain j b2 where b2: "add_index C b1 y = (j, b2)" by (cases "add_index C b1 y")
  let ?b = "rb_add C b x y"
  have eq: "?b = b2\<lparr>rb_edges := insert_edge_op C (rb_edges b2) \<lparr>source = i, target = j\<rparr>\<rparr>" by (simp add: rb_add_def b1 b2)
  note a1 = add_index_spec [OF laws b1] and a2 = add_index_spec [OF laws b2]
  have el: "element C ?b = element C b2" by (simp add: element_def fun_eq_iff eq)
  have ij: "element C ?b i = Some x" "element C ?b j = Some y" unfolding el using a1(1) a2(1,2) by simp_all
  have keep: "element C ?b k = element C b k" if "k < len_op C (rb_elements b)" for k
    using that laws_len [OF laws, of k b] a1(2) a2(2) unfolding el by metis
  have len: "k < len_op C (rb_elements ?b)" if "element C ?b k = Some z" for k z using that laws_len [OF laws, of k ?b] by blast
  have edges: "edge_pairs (edges_op C (rb_edges ?b)) = insert (i, j) (edge_pairs (edges_op C (rb_edges b)))"
    using a1(3) a2(3) laws_edges [OF laws] by (simp add: eq edge_pairs_def)
  have old: "k < len_op C (rb_elements b) \<and> l < len_op C (rb_elements b)" if "(k, l) \<in> edge_pairs (edges_op C (rb_edges b))" for k l
    using that ok by (auto simp: builder_ok_def)
  have "builder_ok C ?b"
    unfolding builder_ok_def edges using old keep laws_len [OF laws] ij len by (auto; metis)
  moreover have "builder_rel C ?b = insert (x, y) (builder_rel C b)"
    unfolding builder_rel_def edges using old keep ij by fastforce
  ultimately show ?thesis by blast
qed

text \<open>A path between elements is a path between their indices.\<close>

lemma builder_rel_trancl:
  assumes laws: "collections_laws C" and ok: "builder_ok C b"
  shows "(x, y) \<in> (builder_rel C b)\<^sup>+ \<longleftrightarrow>
    (\<exists>i j. index_of C b x = Some i \<and> index_of C b y = Some j \<and> (i, j) \<in> (edge_pairs (edges_op C (rb_edges b)))\<^sup>+)"
proof -
  let ?E = "edge_pairs (edges_op C (rb_edges b))"
  have el: "\<exists>x y. element C b i = Some x \<and> element C b j = Some y \<and> (x, y) \<in> builder_rel C b" if "(i, j) \<in> ?E" for i j
  proof -
    have "i < len_op C (rb_elements b)" "j < len_op C (rb_elements b)" using that ok by (auto simp: builder_ok_def)
    then obtain x y where "element C b i = Some x" "element C b j = Some y" using laws_len [OF laws] by metis
    then show ?thesis using that by (auto simp: builder_rel_def)
  qed
  have "\<exists>i j. element C b i = Some x \<and> element C b j = Some y \<and> (i, j) \<in> ?E\<^sup>+" if "(x, y) \<in> (builder_rel C b)\<^sup>+"
    using that
  proof (induction rule: trancl_induct)
    case (base y)
    then show ?case by (auto simp: builder_rel_def)
  next
    case (step y z)
    then obtain i j j' k where "element C b i = Some x" "element C b j = Some y" "(i, j) \<in> ?E\<^sup>+"
      "element C b j' = Some y" "element C b k = Some z" "(j', k) \<in> ?E" by (auto simp: builder_rel_def)
    moreover from this have "j' = j" using laws_index [OF laws, of b y] by (metis option.inject)
    ultimately show ?case by (metis trancl.trancl_into_trancl)
  qed
  moreover have "\<exists>x y. element C b i = Some x \<and> element C b j = Some y \<and> (x, y) \<in> (builder_rel C b)\<^sup>+" if "(i, j) \<in> ?E\<^sup>+" for i j
    using that
  proof (induction rule: trancl_induct)
    case (base j)
    then show ?case using el by blast
  next
    case (step j k)
    then show ?case using el [OF step.hyps(2)] by (metis option.inject trancl.trancl_into_trancl)
  qed
  ultimately show ?thesis unfolding laws_index [OF laws] by (metis option.inject)
qed

subsection \<open>Frozen relations\<close>

text \<open>The relation a frozen value stands for, and its invariant: the matrix is square over the elements and transitive.\<close>

definition tr_rel :: "('t, 's, 'h) collections \<Rightarrow> ('s, 'h) transitive_relation \<Rightarrow> ('t \<times> 't) set" where
  "tr_rel C tr =
     {(x, y). \<exists>i j. element C (tr_builder tr) i = Some x \<and> element C (tr_builder tr) j = Some y \<and> (i, j) \<in> bm_rel (tr_closure tr)}"

definition tr_ok :: "('t, 's, 'h) collections \<Rightarrow> ('s, 'h) transitive_relation \<Rightarrow> bool" where
  "tr_ok C tr \<longleftrightarrow> collections_laws C \<and> square (len_op C (rb_elements (tr_builder tr))) (tr_closure tr) \<and> trans (bm_rel (tr_closure tr))"

lemma freeze_ok:
  assumes laws: "collections_laws C" and ok: "builder_ok C b" and len: "len_op C (rb_elements b) < 2 ^ 64"
  obtains tr where "freeze C b = Some tr" "tr_ok C tr" "tr_builder tr = b" "tr_rel C tr = (builder_rel C b)\<^sup>+"
proof -
  let ?n = "len_op C (rb_elements b)" and ?es = "edges_op C (rb_edges b)"
  have new: "square ?n (bm_new ?n ?n)" "bm_rel (bm_new ?n ?n) = {}"
    using bm_new_ok [OF len] by (auto simp: square_def bm_rel_def bm_new_def Let_def)
  obtain m where m: "freeze_loop ?es (bm_new ?n ?n) = Some m" "square ?n m" "bm_rel m = (edge_pairs ?es)\<^sup>+"
    using freeze_loop_trancl [OF new(1), of ?es] ok new(2) by (auto simp: builder_ok_def)
  let ?tr = "\<lparr>tr_builder = b, tr_closure = m\<rparr>"
  have "tr_rel C ?tr = (builder_rel C b)\<^sup>+"
    using builder_rel_trancl [OF laws ok] laws_index [OF laws] by (auto simp: tr_rel_def m(3))
  then show thesis
    using that [of ?tr] m laws by (simp add: freeze_def tr_ok_def)
qed

lemma tr_rel_index:
  assumes "tr_ok C tr"
  shows "(x, y) \<in> tr_rel C tr \<longleftrightarrow>
    (\<exists>i j. index_of C (tr_builder tr) x = Some i \<and> index_of C (tr_builder tr) y = Some j \<and> (i, j) \<in> bm_rel (tr_closure tr))"
  using assms laws_index [of C] by (auto simp: tr_ok_def tr_rel_def)

lemma tr_rel_trans: "tr_ok C tr \<Longrightarrow> trans (tr_rel C tr)"
  by (rule transI) (auto simp: tr_rel_index tr_ok_def dest: transD)

lemma index_less:
  assumes "tr_ok C tr" and "index_of C (tr_builder tr) x = Some i"
  shows "i < len_op C (rb_elements (tr_builder tr))"
  using assms laws_index [of C] laws_len [of C] by (auto simp: tr_ok_def)

lemma closure_contains:
  assumes "tr_ok C tr" and "i < len_op C (rb_elements (tr_builder tr))" and "j < len_op C (rb_elements (tr_builder tr))"
  shows "bm_contains (tr_closure tr) i j = Some ((i, j) \<in> bm_rel (tr_closure tr))"
  using assms bm_contains_row [of "tr_closure tr" i j] by (simp add: tr_ok_def square_def bm_rel_def)

lemma tr_contains_rel:
  assumes "tr_ok C tr"
  shows "tr_contains C tr x y = Some ((x, y) \<in> tr_rel C tr)"
  using index_less [OF assms] closure_contains [OF assms]
  by (auto simp: tr_contains_def tr_rel_index [OF assms] split: option.splits)

subsection \<open>Lists of elements\<close>

definition elements_at :: "('t, 's, 'h) collections \<Rightarrow> ('s, 'h) transitive_relation \<Rightarrow> nat list \<Rightarrow> 't list" where
  "elements_at C tr is = map (\<lambda>i. the (element C (tr_builder tr) i)) is"

lemma those_elements:
  assumes "tr_ok C tr" and "set is \<subseteq> {..<len_op C (rb_elements (tr_builder tr))}"
  shows "those (map (element C (tr_builder tr)) is) = Some (elements_at C tr is)"
  using assms(2)
proof (induction "is")
  case (Cons i "is")
  then obtain x where "element C (tr_builder tr) i = Some x"
    using assms(1) laws_len [of C i "tr_builder tr"] by (auto simp: tr_ok_def)
  then show ?case using Cons by (simp add: elements_at_def)
qed (simp add: elements_at_def)

lemma elements_at_iff:
  assumes "tr_ok C tr" and "set is \<subseteq> {..<len_op C (rb_elements (tr_builder tr))}"
  shows "x \<in> set (elements_at C tr is) \<longleftrightarrow> (\<exists>i \<in> set is. index_of C (tr_builder tr) x = Some i)"
proof -
  have laws: "collections_laws C" using assms(1) by (simp add: tr_ok_def)
  have "x = the (element C (tr_builder tr) i) \<longleftrightarrow> index_of C (tr_builder tr) x = Some i" if "i \<in> set is" for i
    using that assms(2) laws_len [OF laws, of i "tr_builder tr"] unfolding laws_index [OF laws] by fastforce
  then show ?thesis by (auto simp: elements_at_def)
qed

lemma elements_at_distinct:
  assumes "tr_ok C tr" and "set is \<subseteq> {..<len_op C (rb_elements (tr_builder tr))}" and "distinct is"
  shows "distinct (elements_at C tr is)"
proof -
  have laws: "collections_laws C" using assms(1) by (simp add: tr_ok_def)
  have "inj_on (\<lambda>i. the (element C (tr_builder tr) i)) (set is)"
  proof (rule inj_onI)
    fix i j assume "i \<in> set is" "j \<in> set is" and eq: "the (element C (tr_builder tr) i) = the (element C (tr_builder tr) j)"
    then obtain x y where "element C (tr_builder tr) i = Some x" "element C (tr_builder tr) j = Some y"
      using assms(2) laws_len [OF laws, of i "tr_builder tr"] laws_len [OF laws, of j "tr_builder tr"] by auto
    then show "i = j" using eq laws_index [OF laws, of "tr_builder tr" x] by (metis option.inject option.sel)
  qed
  then show ?thesis using assms(3) by (simp add: elements_at_def distinct_map)
qed

lemma bm_rel_Image_sub: "tr_ok C tr \<Longrightarrow> bm_rel (tr_closure tr) `` A \<subseteq> {..<len_op C (rb_elements (tr_builder tr))}"
  using bm_rel_bounded [of "len_op C (rb_elements (tr_builder tr))" "tr_closure tr"] by (auto simp: tr_ok_def)

lemma reachable_from_rel:
  assumes "tr_ok C tr"
  shows "\<exists>ys. reachable_from C tr x = Some ys \<and> distinct ys \<and> set ys = tr_rel C tr `` {x}"
proof (cases "index_of C (tr_builder tr) x")
  case None
  then show ?thesis by (auto simp: reachable_from_def tr_rel_index [OF assms])
next
  case (Some a)
  let ?n = "len_op C (rb_elements (tr_builder tr))" and ?A = "bm_rel (tr_closure tr) `` {a}"
  have sq: "square ?n (tr_closure tr)" using assms by (simp add: tr_ok_def)
  have fin: "finite ?A" using bm_rel_Image_sub [OF assms] by (rule finite_subset) simp
  have iter: "bm_iter (tr_closure tr) a = Some (sorted_list_of_set ?A)"
    using sq index_less [OF assms Some] bm_iter_row [of "tr_closure tr" a] by (simp add: bm_rel_Image [OF sq] square_def)
  have sub: "set (sorted_list_of_set ?A) \<subseteq> {..<?n}" using fin bm_rel_Image_sub [OF assms] by simp
  have "reachable_from C tr x = Some (elements_at C tr (sorted_list_of_set ?A))"
    by (simp add: reachable_from_def Some iter those_elements [OF assms sub])
  moreover have "set (elements_at C tr (sorted_list_of_set ?A)) = tr_rel C tr `` {x}"
    using fin Some by (auto simp: elements_at_iff [OF assms sub] tr_rel_index [OF assms])
  ultimately show ?thesis using elements_at_distinct [OF assms sub] by auto
qed

end
