(* ===== verification/Transitive_Bounds.thy ===== *)
theory Transitive_Bounds
  imports Transitive_Props "HOL-Library.Multiset"
begin

text \<open>
  The bounds of a frozen relation: \<open>pare_down\<close> against its description on lists, the
  minimal upper bounds and the parents as covering antichains, and the loop of
  \<open>mutual_immediate_postdominator\<close>, which returns because every round replaces two
  elements by elements strictly above them.
\<close>

subsection \<open>Paring down\<close>

fun pare :: "(nat \<times> nat) set \<Rightarrow> nat list \<Rightarrow> nat list" where
  "pare R [] = []"
| "pare R (c # cs) = c # pare R (filter (\<lambda>k. (c, k) \<notin> R) cs)"

lemma set_pare_subset: "set (pare R xs) \<subseteq> set xs"
  by (induction R xs rule: pare.induct) auto

lemma pare_keeps_order: "sorted_wrt P xs \<Longrightarrow> sorted_wrt P (pare R xs)"
proof (induction R xs rule: pare.induct)
  case (2 R c cs)
  then show ?case using set_pare_subset [of R "filter (\<lambda>k. (c, k) \<notin> R) cs"] by (auto simp: sorted_wrt_filter)
qed simp

lemma pare_distinct: "distinct xs \<Longrightarrow> distinct (pare R xs)"
proof (induction R xs rule: pare.induct)
  case (2 R c cs)
  then show ?case using set_pare_subset [of R "filter (\<lambda>k. (c, k) \<notin> R) cs"] by auto
qed simp

lemma pare_sorted: "sorted_wrt (\<lambda>x y. (x, y) \<notin> R) (pare R xs)"
proof (induction R xs rule: pare.induct)
  case (2 R c cs)
  then show ?case using set_pare_subset [of R "filter (\<lambda>k. (c, k) \<notin> R) cs"] by auto
qed simp

lemma pare_covers: "k \<in> set xs \<Longrightarrow> \<exists>c \<in> set (pare R xs). c = k \<or> (c, k) \<in> R"
  by (induction R xs rule: pare.induct) auto

lemma pare_twice:
  assumes "trans R" and "zs = pare R (rev (pare R xs))"
  shows "set zs \<subseteq> set xs" and "distinct xs \<Longrightarrow> distinct zs"
    and "\<And>x y. x \<in> set zs \<Longrightarrow> y \<in> set zs \<Longrightarrow> x \<noteq> y \<Longrightarrow> (x, y) \<notin> R"
    and "\<And>k. k \<in> set xs \<Longrightarrow> \<exists>c \<in> set zs. c = k \<or> (c, k) \<in> R"
proof -
  show "set zs \<subseteq> set xs" using set_pare_subset [of R xs] set_pare_subset [of R "rev (pare R xs)"] assms(2) by auto
  show "distinct zs" if "distinct xs"
    using that unfolding assms(2) by (intro pare_distinct) (simp add: pare_distinct)
  have fwd: "sorted_wrt (\<lambda>x y. (x, y) \<notin> R) zs" unfolding assms(2) by (rule pare_sorted)
  have "sorted_wrt (\<lambda>x y. (y, x) \<notin> R) (rev (pare R xs))" using pare_sorted [of R xs] by (simp add: sorted_wrt_rev)
  then have bwd: "sorted_wrt (\<lambda>x y. (y, x) \<notin> R) zs"
    unfolding assms(2) by (rule pare_keeps_order)
  show "(x, y) \<notin> R" if xy: "x \<in> set zs" "y \<in> set zs" "x \<noteq> y" for x y
  proof -
    obtain p q where "p < length zs" "q < length zs" "zs ! p = x" "zs ! q = y" using xy by (auto simp: in_set_conv_nth)
    then show ?thesis using xy(3) fwd bwd by (cases p q rule: linorder_cases) (auto simp: sorted_wrt_iff_nth_less)
  qed
  show "\<exists>c \<in> set zs. c = k \<or> (c, k) \<in> R" if k: "k \<in> set xs" for k
  proof -
    obtain c where c: "c \<in> set (rev (pare R xs))" "c = k \<or> (c, k) \<in> R" using pare_covers [OF k, of R] by auto
    then obtain d where "d \<in> set zs" "d = c \<or> (d, c) \<in> R" using pare_covers [OF c(1), of R] assms(2) by auto
    then show ?thesis using c(2) assms(1) by (blast dest: transD)
  qed
qed

text \<open>The in-place loops compute \<open>pare\<close>.\<close>

lemma pare_inner_filter:
  assumes "\<And>k. k \<in> set xs \<Longrightarrow> bm_contains m c k = Some ((c, k) \<in> R)" and "d \<le> j" and "j \<le> length xs"
  shows "\<exists>xs' d'. pare_inner m c xs j d = Some (xs', length xs, d') \<and> length xs' = length xs \<and> d' \<le> length xs \<and>
    take (length xs - d') xs' = take (j - d) xs @ filter (\<lambda>k. (c, k) \<notin> R) (drop j xs)"
  using assms
proof (induction m c xs j d rule: pare_inner.induct)
  case (1 m c xs j d)
  show ?case
  proof (cases "j < length xs")
    case False
    then show ?thesis using 1(4,5) by (subst pare_inner.simps) auto
  next
    case True
    let ?k = "xs ! j"
    have k: "bm_contains m c ?k = Some ((c, ?k) \<in> R)" using 1(3) True by simp
    have drop: "drop j xs = ?k # drop (Suc j) xs" using True by (rule Cons_nth_drop_Suc [symmetric])
    show ?thesis
    proof (cases "(c, ?k) \<in> R")
      case r: True
      have "pare_inner m c xs j d = pare_inner m c xs (j + 1) (d + 1)"
        by (subst pare_inner.simps) (use True k r in simp)
      then show ?thesis using 1(1) [OF True k [unfolded r simp_thms(6)]] 1(3-5) True r drop by simp
    next
      case r: False
      let ?xs = "xs[j - d := ?k]"
      have step: "pare_inner m c xs j d = pare_inner m c ?xs (j + 1) d"
        by (subst pare_inner.simps) (use True k r in simp)
      have sub: "bm_contains m c x = Some ((c, x) \<in> R)" if "x \<in> set ?xs" for x
        using that 1(3) True set_update_subset_insert [of xs "j - d" ?k] by auto
      have "take (j + 1 - d) ?xs = take (j - d) xs @ [?k]"
        using True 1(4) by (simp add: Suc_diff_le take_Suc_conv_app_nth)
      moreover have "drop (j + 1) ?xs = drop (Suc j) xs" using 1(4) by simp
      ultimately show ?thesis
        using 1(2) [OF True] k r sub 1(4) True unfolding step drop by simp
    qed
  qed
qed

lemma pare_loop_pare:
  assumes "\<And>c k. c \<in> set xs \<Longrightarrow> k \<in> set xs \<Longrightarrow> bm_contains m c k = Some ((c, k) \<in> R)" and "i \<le> length xs"
  shows "pare_loop m xs i = Some (take i xs @ pare R (drop i xs))"
  using assms
proof (induction "length xs - i" arbitrary: xs i rule: less_induct)
  case less
  show ?case
  proof (cases "i < length xs")
    case False
    then show ?thesis using less.prems(2) by (subst pare_loop.simps) simp
  next
    case True
    let ?c = "xs ! i"
    have c: "?c \<in> set xs" using True by simp
    obtain xs' d where inner: "pare_inner m ?c xs (i + 1) 0 = Some (xs', length xs, d)"
      "take (length xs - d) xs' = take (i + 1) xs @ filter (\<lambda>k. (?c, k) \<notin> R) (drop (i + 1) xs)"
      using pare_inner_filter [of xs m ?c R 0 "i + 1"] less.prems(1) [OF c] True by auto
    let ?ys = "take (length xs - d) xs'"
    have drop: "drop i xs = ?c # drop (i + 1) xs" using True by (simp add: Cons_nth_drop_Suc)
    have sub: "set ?ys \<subseteq> set xs" unfolding inner(2) using set_take_subset set_drop_subset by fastforce
    have len: "i + 1 \<le> length ?ys" "length ?ys - (i + 1) < length xs - i"
      using True length_filter_le [of "\<lambda>k. (?c, k) \<notin> R" "drop (i + 1) xs"] unfolding inner(2) by simp_all
    have "pare_loop m ?ys (i + 1) = Some (take (i + 1) ?ys @ pare R (drop (i + 1) ?ys))"
      by (rule less.hyps [OF len(2) _ len(1)]) (use sub less.prems(1) in blast)
    also have "take (i + 1) ?ys @ pare R (drop (i + 1) ?ys) = take i xs @ pare R (drop i xs)"
      unfolding inner(2) drop using True by (simp add: take_Suc_conv_app_nth)
    finally show ?thesis using True inner(1) by (subst pare_loop.simps) simp
  qed
qed

subsection \<open>Covering antichains\<close>

definition covering_antichain :: "('t \<times> 't) set \<Rightarrow> 't set \<Rightarrow> 't list \<Rightarrow> bool" where
  "covering_antichain R B xs \<longleftrightarrow> distinct xs \<and> set xs \<subseteq> B \<and>
     (\<forall>x \<in> set xs. \<forall>y \<in> set xs. x \<noteq> y \<longrightarrow> (x, y) \<notin> R) \<and> (\<forall>z \<in> B. \<exists>x \<in> set xs. x = z \<or> (x, z) \<in> R)"

text \<open>The two passes and the final mapping, as both bounds and parents use them.\<close>

lemma pared_elements:
  assumes ok: "tr_ok C tr" and sub: "set cs \<subseteq> {..<len_op C (rb_elements (tr_builder tr))}" and dist: "distinct cs"
  shows "\<exists>ys zs xs. pare_down cs (tr_closure tr) = Some ys \<and> pare_down (rev ys) (tr_closure tr) = Some zs \<and>
    those (map (element C (tr_builder tr)) (rev zs)) = Some xs \<and>
    covering_antichain (tr_rel C tr) (set (elements_at C tr cs)) xs"
proof -
  let ?n = "len_op C (rb_elements (tr_builder tr))" and ?R = "bm_rel (tr_closure tr)"
  let ?ys = "pare ?R cs"
  let ?zs = "pare ?R (rev ?ys)"
  have trans: "trans ?R" using ok by (simp add: tr_ok_def)
  note twice = pare_twice [OF trans refl]
  have cont: "bm_contains (tr_closure tr) c k = Some ((c, k) \<in> ?R)" if "c \<in> set cs" "k \<in> set cs" for c k
    using that sub by (intro closure_contains [OF ok]) auto
  have ys: "set ?ys \<subseteq> set cs" by (rule set_pare_subset)
  have "pare_down cs (tr_closure tr) = Some ?ys"
    unfolding pare_down_def by (subst pare_loop_pare [where R = ?R]) (simp_all add: cont)
  moreover have "pare_down (rev ?ys) (tr_closure tr) = Some ?zs"
    unfolding pare_down_def using ys by (subst pare_loop_pare [where R = ?R]) (auto intro: cont)
  moreover have zs: "set (rev ?zs) \<subseteq> {..<?n}" using twice(1) [of cs] sub by auto
  moreover have "covering_antichain (tr_rel C tr) (set (elements_at C tr cs)) (elements_at C tr (rev ?zs))"
    unfolding covering_antichain_def
  proof (intro conjI ballI impI)
    show "distinct (elements_at C tr (rev ?zs))" using elements_at_distinct [OF ok zs] twice(2) [OF dist] by simp
    show "set (elements_at C tr (rev ?zs)) \<subseteq> set (elements_at C tr cs)"
      unfolding elements_at_def set_map set_rev by (rule image_mono) (rule twice(1))
    fix x y assume "x \<in> set (elements_at C tr (rev ?zs))" "y \<in> set (elements_at C tr (rev ?zs))" and ne: "x \<noteq> y"
    then obtain i j where ij: "i \<in> set ?zs" "j \<in> set ?zs" "index_of C (tr_builder tr) x = Some i" "index_of C (tr_builder tr) y = Some j"
      by (auto simp: elements_at_iff [OF ok zs])
    moreover have "i \<noteq> j" using ij(3,4) ne ok laws_index [of C "tr_builder tr"] by (auto simp: tr_ok_def)
    ultimately show "(x, y) \<notin> tr_rel C tr" using twice(3) [of i cs j] by (simp add: tr_rel_index [OF ok])
  next
    fix z assume "z \<in> set (elements_at C tr cs)"
    then obtain k where k: "k \<in> set cs" "index_of C (tr_builder tr) z = Some k" by (auto simp: elements_at_iff [OF ok sub])
    obtain c where c: "c \<in> set ?zs" "c = k \<or> (c, k) \<in> ?R" using twice(4) [OF k(1)] by blast
    obtain x where x: "index_of C (tr_builder tr) x = Some c"
      using c(1) zs ok laws_len [of C c "tr_builder tr"] laws_index [of C "tr_builder tr" _ c] by (auto simp: tr_ok_def)
    have "x \<in> set (elements_at C tr (rev ?zs))" using c(1) x by (simp add: elements_at_iff [OF ok zs])
    moreover have "x = z \<or> (x, z) \<in> tr_rel C tr"
      using c(2) x k(2) ok laws_index [of C "tr_builder tr"] by (auto simp: tr_rel_index [OF ok] tr_ok_def)
    ultimately show "\<exists>x \<in> set (elements_at C tr (rev ?zs)). x = z \<or> (x, z) \<in> tr_rel C tr" by blast
  qed
  ultimately show ?thesis using those_elements [OF ok zs] by blast
qed

subsection \<open>Minimal upper bounds\<close>

definition minimal_bounds :: "('t \<times> 't) set \<Rightarrow> 't \<Rightarrow> 't \<Rightarrow> 't list \<Rightarrow> bool" where
  "minimal_bounds R a b xs \<longleftrightarrow>
     (if (a, b) \<in> R \<or> (b, a) \<in> R then xs = [b] \<and> (a, b) \<in> R \<or> xs = [a] \<and> (b, a) \<in> R
      else covering_antichain R {z. (a, z) \<in> R \<and> (b, z) \<in> R} xs)"

lemma minimal_bounds_sym: "minimal_bounds R a b xs \<longleftrightarrow> minimal_bounds R b a xs"
  by (auto simp: minimal_bounds_def conj_commute)

lemma lub_indices_bounds:
  assumes ok: "tr_ok C tr" and ij: "index_of C (tr_builder tr) a = Some i" "index_of C (tr_builder tr) b = Some j"
  shows "\<exists>lubs xs. lub_indices (tr_closure tr) i j = Some lubs \<and> those (map (element C (tr_builder tr)) (rev lubs)) = Some xs \<and>
    minimal_bounds (tr_rel C tr) a b xs"
proof -
  let ?n = "len_op C (rb_elements (tr_builder tr))" and ?R = "bm_rel (tr_closure tr)"
  have lt: "i < ?n" "j < ?n" using index_less [OF ok] ij by auto
  have el: "element C (tr_builder tr) i = Some a" "element C (tr_builder tr) j = Some b"
    using ij ok laws_index [of C "tr_builder tr"] by (auto simp: tr_ok_def)
  have rel: "(a, b) \<in> tr_rel C tr \<longleftrightarrow> (i, j) \<in> ?R" "(b, a) \<in> tr_rel C tr \<longleftrightarrow> (j, i) \<in> ?R"
    using ij by (auto simp: tr_rel_index [OF ok])
  note cont = closure_contains [OF ok lt] closure_contains [OF ok lt(2,1)]
  show ?thesis
  proof (cases "(i, j) \<in> ?R \<or> (j, i) \<in> ?R")
    case True
    then show ?thesis using cont el rel by (cases "(i, j) \<in> ?R") (simp_all add: lub_indices_def minimal_bounds_def)
  next
    case False
    let ?B = "?R `` {i} \<inter> ?R `` {j}"
    have sq: "square ?n (tr_closure tr)" using ok by (simp add: tr_ok_def)
    have cs: "bm_intersect_rows (tr_closure tr) i j = Some (sorted_list_of_set ?B)"
      using bm_intersect_rows_row [of "tr_closure tr" i j] sq lt by (simp add: bm_rel_Image [OF sq] square_def)
    have fin: "finite ?B" using bm_rel_Image_sub [OF ok, of "{i}"] finite_subset by blast
    have sub: "set (sorted_list_of_set ?B) \<subseteq> {..<?n}" using fin bm_rel_Image_sub [OF ok, of "{i}"] by auto
    have B: "set (elements_at C tr (sorted_list_of_set ?B)) = {z. (a, z) \<in> tr_rel C tr \<and> (b, z) \<in> tr_rel C tr}"
      using fin ij by (auto simp: elements_at_iff [OF ok sub] tr_rel_index [OF ok])
    obtain ys zs xs where "pare_down (sorted_list_of_set ?B) (tr_closure tr) = Some ys" "pare_down (rev ys) (tr_closure tr) = Some zs"
      "those (map (element C (tr_builder tr)) (rev zs)) = Some xs" "covering_antichain (tr_rel C tr) {z. (a, z) \<in> tr_rel C tr \<and> (b, z) \<in> tr_rel C tr} xs"
      using pared_elements [OF ok sub] fin unfolding B by auto
    then show ?thesis using False cont cs rel by (simp add: lub_indices_def minimal_bounds_def)
  qed
qed

lemma minimal_upper_bounds_spec:
  assumes ok: "tr_ok C tr"
  shows "\<exists>xs. minimal_upper_bounds C tr a b = Some xs \<and> minimal_bounds (tr_rel C tr) a b xs"
proof (cases "index_of C (tr_builder tr) a = None \<or> index_of C (tr_builder tr) b = None")
  case True
  then have "(a, z) \<notin> tr_rel C tr \<or> (b, z) \<notin> tr_rel C tr" "(a, b) \<notin> tr_rel C tr" "(b, a) \<notin> tr_rel C tr" for z
    by (auto simp: tr_rel_index [OF ok])
  then show ?thesis
    using True by (auto simp: minimal_upper_bounds_def minimal_bounds_def covering_antichain_def split: option.splits)
next
  case False
  then obtain i j where ij: "index_of C (tr_builder tr) a = Some i" "index_of C (tr_builder tr) b = Some j" by auto
  show ?thesis
  proof (cases "i > j")
    case True
    then show ?thesis using lub_indices_bounds [OF ok ij(2,1)] ij
      by (auto simp: minimal_upper_bounds_def minimal_bounds_sym [of _ b a])
  next
    case False
    then show ?thesis using lub_indices_bounds [OF ok ij] ij by (auto simp: minimal_upper_bounds_def)
  qed
qed

subsection \<open>Parents\<close>

lemma filter_zip_map: "map fst (filter (\<lambda>(x, b). \<not> b) (zip xs (map P xs))) = filter (\<lambda>x. \<not> P x) xs"
  by (induction xs) auto

lemma parents_spec:
  assumes ok: "tr_ok C tr"
  shows "\<exists>xs. parents C tr a = Some xs \<and> covering_antichain (tr_rel C tr) {z. (a, z) \<in> tr_rel C tr \<and> (z, a) \<notin> tr_rel C tr} xs"
proof (cases "index_of C (tr_builder tr) a")
  case None
  then show ?thesis by (auto simp: parents_def covering_antichain_def tr_rel_index [OF ok])
next
  case (Some i)
  let ?n = "len_op C (rb_elements (tr_builder tr))" and ?R = "bm_rel (tr_closure tr)"
  let ?all = "sorted_list_of_set (?R `` {i})"
  let ?cs = "filter (\<lambda>e. (e, i) \<notin> ?R) ?all"
  have sq: "square ?n (tr_closure tr)" using ok by (simp add: tr_ok_def)
  have i: "i < ?n" using index_less [OF ok Some] .
  have rws: "bm_intersect_rows (tr_closure tr) i i = Some ?all"
    using bm_intersect_rows_row [of "tr_closure tr" i i] sq i by (simp add: bm_rel_Image [OF sq] square_def)
  have fin: "finite (?R `` {i})" using bm_rel_Image_sub [OF ok, of "{i}"] finite_subset by blast
  have all: "set ?all \<subseteq> {..<?n}" using fin bm_rel_Image_sub [OF ok, of "{i}"] by simp
  have reach: "those (map (\<lambda>e. bm_contains (tr_closure tr) e i) ?all) = Some (map (\<lambda>e. (e, i) \<in> ?R) ?all)"
    by (rule those_map_Some) (use all i in \<open>auto intro: closure_contains [OF ok]\<close>)
  have sub: "set ?cs \<subseteq> {..<?n}" using all by auto
  have B: "set (elements_at C tr ?cs) = {z. (a, z) \<in> tr_rel C tr \<and> (z, a) \<notin> tr_rel C tr}"
    using fin Some by (auto simp: elements_at_iff [OF ok sub] tr_rel_index [OF ok])
  obtain ys zs xs where "pare_down ?cs (tr_closure tr) = Some ys" "pare_down (rev ys) (tr_closure tr) = Some zs"
    "those (map (element C (tr_builder tr)) (rev zs)) = Some xs"
    "covering_antichain (tr_rel C tr) {z. (a, z) \<in> tr_rel C tr \<and> (z, a) \<notin> tr_rel C tr} xs"
    using pared_elements [OF ok sub] unfolding B by auto
  then show ?thesis by (simp add: parents_def Some rws reach filter_zip_map)
qed

subsection \<open>Postdominators\<close>

lemma tr_rel_finite: "tr_ok C tr \<Longrightarrow> finite (tr_rel C tr)"
proof -
  assume ok: "tr_ok C tr"
  let ?el = "\<lambda>i. the (element C (tr_builder tr) i)"
  have "finite (bm_rel (tr_closure tr))"
    using ok bm_rel_bounded [of "len_op C (rb_elements (tr_builder tr))" "tr_closure tr"] finite_subset by (fastforce simp: tr_ok_def)
  moreover have "tr_rel C tr \<subseteq> map_prod ?el ?el ` bm_rel (tr_closure tr)" by (force simp: tr_rel_def)
  ultimately show ?thesis by (meson finite_imageI finite_subset)
qed

text \<open>How much lies above an element, itself included: less for what lies strictly above it.\<close>

definition height :: "('t \<times> 't) set \<Rightarrow> 't \<Rightarrow> nat" where
  "height R x = card (insert x (R `` {x}))"

lemma height_less:
  assumes "trans R" and "finite R" and "(x, y) \<in> R" and "(y, x) \<notin> R"
  shows "height R y < height R x"
proof -
  have "insert y (R `` {y}) \<subset> insert x (R `` {x})"
    using assms(1,3,4) by (auto dest: transD)
  then show ?thesis unfolding height_def using assms(2) by (intro psubset_card_mono) (simp_all add: finite_Image)
qed

definition rounds :: "('t \<times> 't) set \<Rightarrow> ('t list \<times> 't list) set" where
  "rounds R = inv_image (mult {(i, j). i < (j::nat)}) (\<lambda>xs. mset (map (height R) xs))"

lemma wf_rounds: "wf (rounds R)"
  unfolding rounds_def by (intro wf_inv_image wf_mult wf)

lemma minimal_bounds_rounds:
  assumes "trans R" and "finite R" and "minimal_bounds R n m bounds"
  shows "(xs @ bounds, xs @ [n, m]) \<in> rounds R"
proof (cases "(n, m) \<in> R \<or> (m, n) \<in> R")
  case True
  let ?r = "{(i, j). i < (j::nat)}"
  from True have "bounds = [m] \<or> bounds = [n]" using assms(3) by (auto simp: minimal_bounds_def)
  then show ?thesis
    using one_step_implies_mult [of "{#height R n#}" "{#}" ?r "mset (map (height R) xs) + {#height R m#}"]
      one_step_implies_mult [of "{#height R m#}" "{#}" ?r "mset (map (height R) xs) + {#height R n#}"]
    by (auto simp: rounds_def add_mset_commute)
next
  case False
  then have "height R c < height R n" if "c \<in> set bounds" for c
    using that assms by (intro height_less) (auto simp: minimal_bounds_def covering_antichain_def dest: transD)
  then show ?thesis
    using one_step_implies_mult [of "{#height R n, height R m#}" "mset (map (height R) bounds)" "{(i, j). i < j}" "mset (map (height R) xs)"]
    by (auto simp: rounds_def)
qed

lemma minimal_bounds_above: "minimal_bounds R a b xs \<Longrightarrow> x \<in> set xs \<Longrightarrow> (x = a \<or> (a, x) \<in> R) \<and> (x = b \<or> (b, x) \<in> R)"
  by (auto simp: minimal_bounds_def covering_antichain_def split: if_splits)

lemma mutual_two:
  "mutual_immediate_postdominator C tr (xs @ [n, m]) =
     Option.bind (minimal_upper_bounds C tr n m) (\<lambda>bounds. mutual_immediate_postdominator C tr (xs @ bounds))"
  by (subst mutual_immediate_postdominator.simps) simp

lemma mutual_small:
  "mutual_immediate_postdominator C tr [] = Some None" "mutual_immediate_postdominator C tr [x] = Some (Some x)"
  by (simp_all add: mutual_immediate_postdominator.simps)

lemma two_last_cases:
  obtains "xs = []" | x where "xs = [x]" | ys n m where "xs = ys @ [n, m]"
  by (cases xs rule: rev_cases) (auto, metis append_Cons append_Nil append_assoc rev_exhaust)

text \<open>The loop returns, and what it returns lies above one of the elements it was given.\<close>

lemma mutual_returns:
  assumes ok: "tr_ok C tr"
  shows "\<exists>r. mutual_immediate_postdominator C tr xs = Some r \<and>
    (\<forall>z. r = Some z \<longrightarrow> (\<exists>x \<in> set xs. x = z \<or> (x, z) \<in> tr_rel C tr))"
proof (induction xs rule: wf_induct_rule [OF wf_rounds [of "tr_rel C tr"]])
  case (1 xs)
  note R = tr_rel_trans [OF ok] tr_rel_finite [OF ok]
  show ?case
  proof (cases xs rule: two_last_cases)
    case (3 ys n m)
    obtain bounds where b: "minimal_upper_bounds C tr n m = Some bounds" "minimal_bounds (tr_rel C tr) n m bounds"
      using minimal_upper_bounds_spec [OF ok] by blast
    obtain r where r: "mutual_immediate_postdominator C tr (ys @ bounds) = Some r"
      "\<forall>z. r = Some z \<longrightarrow> (\<exists>x \<in> set (ys @ bounds). x = z \<or> (x, z) \<in> tr_rel C tr)"
      using 1 [of "ys @ bounds"] minimal_bounds_rounds [OF R b(2), of ys] unfolding 3 by blast
    have "\<exists>x \<in> set xs. x = z \<or> (x, z) \<in> tr_rel C tr" if z: "r = Some z" for z
    proof -
      obtain x where x: "x \<in> set ys \<or> x \<in> set bounds" "x = z \<or> (x, z) \<in> tr_rel C tr" using r(2) z by auto
      show ?thesis
        using x minimal_bounds_above [OF b(2), of x] R(1) unfolding 3 by (auto dest: transD)
    qed
    then show ?thesis using b(1) r(1) by (simp add: 3 mutual_two)
  qed (simp_all add: mutual_small)
qed

text \<open>
  Below a greatest element no element of the list is lost. No element lies at or below an
  earlier one; every round keeps this, so the two elements it takes have an upper bound.
\<close>

definition climbing :: "('t \<times> 't) set \<Rightarrow> 't list \<Rightarrow> bool" where
  "climbing R xs \<longleftrightarrow> sorted_wrt (\<lambda>x y. x \<noteq> y \<and> (y, x) \<notin> R) xs"

lemma minimal_bounds_climbing: "minimal_bounds R n m bounds \<Longrightarrow> climbing R bounds"
proof (cases "(n, m) \<in> R \<or> (m, n) \<in> R")
  case False
  assume "minimal_bounds R n m bounds"
  with False have anti: "distinct bounds" "\<And>x y. x \<in> set bounds \<Longrightarrow> y \<in> set bounds \<Longrightarrow> x \<noteq> y \<Longrightarrow> (x, y) \<notin> R"
    by (auto simp: minimal_bounds_def covering_antichain_def)
  have "bounds ! i \<noteq> bounds ! j \<and> (bounds ! j, bounds ! i) \<notin> R" if "i < j" "j < length bounds" for i j
    using that anti(1) anti(2) [of "bounds ! j" "bounds ! i"] by (simp add: nth_eq_iff_index_eq)
  then show ?thesis by (simp add: climbing_def sorted_wrt_iff_nth_less)
qed (auto simp: minimal_bounds_def climbing_def)

lemma climbing_round:
  assumes "trans R" and "minimal_bounds R n m bounds" and "climbing R (ys @ [n, m])"
  shows "climbing R (ys @ bounds)"
proof -
  have "y \<noteq> c \<and> (c, y) \<notin> R" if "y \<in> set ys" "c \<in> set bounds" for y c
    using that assms(1,3) minimal_bounds_above [OF assms(2) that(2)]
    by (auto simp: climbing_def sorted_wrt_append dest: transD)
  then show ?thesis using assms(3) minimal_bounds_climbing [OF assms(2)] by (simp add: climbing_def sorted_wrt_append)
qed

lemma minimal_bounds_covered:
  assumes "minimal_bounds R n m bounds" and "n \<noteq> m" and top: "\<And>x. x \<in> {n, m} \<Longrightarrow> x = t \<or> (x, t) \<in> R"
  shows "bounds \<noteq> []" and "\<And>b. b \<in> set bounds \<Longrightarrow> b \<in> Range R"
proof -
  show "bounds \<noteq> []"
  proof (cases "(n, m) \<in> R \<or> (m, n) \<in> R")
    case False
    then have "(n, t) \<in> R" "(m, t) \<in> R" using top [of n] top [of m] assms(2) by auto
    then show ?thesis using assms(1) False by (auto simp: minimal_bounds_def covering_antichain_def)
  qed (use assms(1) in \<open>auto simp: minimal_bounds_def\<close>)
  show "b \<in> Range R" if "b \<in> set bounds" for b
    using that assms(1) by (auto simp: minimal_bounds_def covering_antichain_def split: if_splits)
qed

lemma mutual_top:
  assumes ok: "tr_ok C tr" and top: "\<And>x. x \<in> Range (tr_rel C tr) \<Longrightarrow> x = t \<or> (x, t) \<in> tr_rel C tr"
    and "climbing (tr_rel C tr) xs" and "xs \<noteq> []" and "\<And>x. x \<in> set xs \<Longrightarrow> x = t \<or> (x, t) \<in> tr_rel C tr"
  shows "\<exists>z. mutual_immediate_postdominator C tr xs = Some (Some z) \<and> (\<forall>x \<in> set xs. x = z \<or> (x, z) \<in> tr_rel C tr)"
  using assms(3-5)
proof (induction xs rule: wf_induct_rule [OF wf_rounds [of "tr_rel C tr"]])
  case (1 xs)
  note R = tr_rel_trans [OF ok] tr_rel_finite [OF ok]
  show ?case
  proof (cases xs rule: two_last_cases)
    case (3 ys n m)
    obtain bounds where b: "minimal_upper_bounds C tr n m = Some bounds" "minimal_bounds (tr_rel C tr) n m bounds"
      using minimal_upper_bounds_spec [OF ok] by blast
    have nm: "n \<noteq> m" "\<And>x. x \<in> {n, m} \<Longrightarrow> x = t \<or> (x, t) \<in> tr_rel C tr"
      using 1(2,4) by (auto simp: 3 climbing_def sorted_wrt_append)
    note cov = minimal_bounds_covered [OF b(2) nm]
    have le: "x = t \<or> (x, t) \<in> tr_rel C tr" if "x \<in> set (ys @ bounds)" for x
      using that cov(2) [of x] top [of x] 1(4) [of x] unfolding 3 by auto
    obtain z where z: "mutual_immediate_postdominator C tr (ys @ bounds) = Some (Some z)"
      "\<forall>x \<in> set (ys @ bounds). x = z \<or> (x, z) \<in> tr_rel C tr"
      using 1(1) [of "ys @ bounds"] minimal_bounds_rounds [OF R b(2), of ys]
        climbing_round [OF R(1) b(2), of ys] 1(2) cov(1) le unfolding 3 by auto
    obtain c where c: "c \<in> set bounds" using cov(1) by (cases bounds) auto
    have "c = z \<or> (c, z) \<in> tr_rel C tr" using z(2) c by simp
    then have "(n = z \<or> (n, z) \<in> tr_rel C tr) \<and> (m = z \<or> (m, z) \<in> tr_rel C tr)"
      using minimal_bounds_above [OF b(2) c] R(1) by (auto dest: transD)
    then show ?thesis using b(1) z by (simp add: 3 mutual_two)
  qed (use 1(3) in \<open>simp_all add: mutual_small\<close>)
qed

subsection \<open>Relations built from pairs\<close>

definition rb_build :: "('t, 's, 'h) collections \<Rightarrow> ('t \<times> 't) list \<Rightarrow> ('s, 'h) relation_builder" where
  "rb_build C ps = fold (\<lambda>(a, b) r. rb_add C r a b) ps (rb_default C)"

lemma rb_build_spec:
  assumes laws: "collections_laws C"
  shows "builder_ok C (rb_build C ps) \<and> builder_rel C (rb_build C ps) = set ps"
proof -
  have "builder_ok C (fold (\<lambda>(a, b) r. rb_add C r a b) ps r) \<and> builder_rel C (fold (\<lambda>(a, b) r. rb_add C r a b) ps r) = builder_rel C r \<union> set ps"
    if "builder_ok C r" for r
    using that
  proof (induction ps arbitrary: r)
    case (Cons p ps)
    then show ?case using rb_add_spec [OF laws Cons.prems, of "fst p" "snd p"] by (cases p) auto
  qed simp
  moreover have "builder_ok C (rb_default C)" "builder_rel C (rb_default C) = {}"
    using laws_empty [OF laws] by (simp_all add: rb_default_def builder_ok_def builder_rel_def edge_pairs_def)
  ultimately show ?thesis by (simp add: rb_build_def)
qed

lemma freeze_build:
  assumes "collections_laws C" and "len_op C (rb_elements (rb_build C ps)) < 2 ^ 64"
  obtains tr where "freeze C (rb_build C ps) = Some tr" "tr_ok C tr" "tr_builder tr = rb_build C ps" "tr_rel C tr = (set ps)\<^sup>+"
  using freeze_ok [OF assms(1) _ assms(2)] rb_build_spec [OF assms(1), of ps] by metis

text \<open>The end points of an edge, and what reads them.\<close>

definition edge_ends :: "('t, 's, 'h) collections \<Rightarrow> ('s, 'h) relation_builder \<Rightarrow> edge \<Rightarrow> 't \<times> 't" where
  "edge_ends C b e = (the (element C b (source e)), the (element C b (target e)))"

lemma edge_ends:
  assumes laws: "collections_laws C" and ok: "builder_ok C b" and e: "e \<in> set (edges_op C (rb_edges b))"
  obtains x y where "element C b (source e) = Some x" "element C b (target e) = Some y" "edge_ends C b e = (x, y)"
proof -
  have "source e < len_op C (rb_elements b)" "target e < len_op C (rb_elements b)"
    using e ok by (auto simp: builder_ok_def edge_pairs_def)
  then show thesis using laws_len [OF laws, of _ b] that unfolding edge_ends_def by (metis option.sel)
qed

lemma builder_rel_ends:
  assumes laws: "collections_laws C" and ok: "builder_ok C b"
  shows "builder_rel C b = edge_ends C b ` set (edges_op C (rb_edges b))"
proof -
  have "(x, y) \<in> builder_rel C b \<longleftrightarrow> (\<exists>e \<in> set (edges_op C (rb_edges b)). element C b (source e) = Some x \<and> element C b (target e) = Some y)" for x y
    by (auto simp: builder_rel_def edge_pairs_def)
  also have "\<dots> x y \<longleftrightarrow> (x, y) \<in> edge_ends C b ` set (edges_op C (rb_edges b))" for x y
    using edge_ends [OF laws ok] by (auto simp: image_iff) (metis option.inject prod.inject)+
  finally show ?thesis by auto
qed

lemma base_edges_rel:
  assumes laws: "collections_laws C" and ok: "builder_ok C b"
  shows "\<exists>es. base_edges C b = Some es \<and> set es = builder_rel C b"
proof -
  have "base_edges C b = Some (map (edge_ends C b) (edges_op C (rb_edges b)))"
    unfolding base_edges_def by (rule those_map_Some) (auto elim: edge_ends [OF laws ok])
  then show ?thesis by (simp add: builder_rel_ends [OF laws ok])
qed

text \<open>\<open>maybe_map\<close> maps every edge, or fails when the function is undefined at an end of one.\<close>

definition mapped_rel :: "('t \<Rightarrow> 'u option) \<Rightarrow> ('t \<times> 't) set \<Rightarrow> ('u \<times> 'u) set" where
  "mapped_rel f R = {(u, v). \<exists>x y. (x, y) \<in> R \<and> f x = Some u \<and> f y = Some v}"

definition maps_to :: "('u, 'x, 'y) collections \<Rightarrow> ('t \<Rightarrow> 'u option) \<Rightarrow> ('t \<times> 't) set \<Rightarrow> ('u \<times> 'u) set \<Rightarrow>
    ('x, 'y) relation_builder option option \<Rightarrow> bool" where
  "maps_to D f R S res \<longleftrightarrow>
     (if (\<forall>x \<in> Field R. f x \<noteq> None)
      then \<exists>b. res = Some (Some b) \<and> builder_ok D b \<and> builder_rel D b = S \<union> mapped_rel f R
      else res = Some None)"

definition map_edge ::
  "('t, 's, 'h) collections \<Rightarrow> ('u, 'x, 'y) collections \<Rightarrow> ('t \<Rightarrow> 'u option) \<Rightarrow> ('s, 'h) relation_builder \<Rightarrow>
   edge \<Rightarrow> ('x, 'y) relation_builder option \<Rightarrow> ('x, 'y) relation_builder option option" where
  "map_edge C D f self = (\<lambda>edge result. case result of
         None \<Rightarrow> Some None
       | Some b \<Rightarrow> do {
           x \<leftarrow> element C self (source edge);
           case f x of
             None \<Rightarrow> Some None
           | Some x' \<Rightarrow> do {
               y \<leftarrow> element C self (target edge);
               Some (case f y of None \<Rightarrow> None | Some y' \<Rightarrow> Some (rb_add D b x' y'))
             }
         })"

lemma map_edge_None: "for_loop (map_edge C D f b) es None = Some None"
  by (induction es) (simp_all add: map_edge_def)

lemma map_edge_loop:
  assumes D: "collections_laws D" and "builder_ok D r"
    and "\<And>e. e \<in> set es \<Longrightarrow> \<exists>x y. element C b (source e) = Some x \<and> element C b (target e) = Some y \<and> edge_ends C b e = (x, y)"
  shows "maps_to D f (edge_ends C b ` set es) (builder_rel D r) (for_loop (map_edge C D f b) es (Some r))"
  using assms(2,3)
proof (induction es arbitrary: r)
  case (Cons e es)
  obtain x y where xy: "element C b (source e) = Some x" "element C b (target e) = Some y" "edge_ends C b e = (x, y)"
    using Cons.prems(2) [of e] by auto
  show ?case
  proof (cases "f x = None \<or> f y = None")
    case True
    then have "map_edge C D f b e (Some r) = Some None" by (auto simp: map_edge_def xy split: option.splits)
    then show ?thesis using True by (auto simp: maps_to_def xy(3) map_edge_None)
  next
    case False
    then obtain u v where uv: "f x = Some u" "f y = Some v" by auto
    have add: "builder_ok D (rb_add D r u v)" "builder_rel D (rb_add D r u v) = insert (u, v) (builder_rel D r)"
      using rb_add_spec [OF D Cons.prems(1)] by auto
    have step: "for_loop (map_edge C D f b) (e # es) (Some r) = for_loop (map_edge C D f b) es (Some (rb_add D r u v))"
      by (simp add: map_edge_def xy uv)
    have "mapped_rel f (insert (x, y) R) = insert (u, v) (mapped_rel f R)" for R using uv by (auto simp: mapped_rel_def)
    then show ?thesis using Cons.IH [OF add(1)] Cons.prems(2) uv unfolding step add(2) maps_to_def Un_insert_left by (simp add: xy(3))
  qed
qed (simp add: maps_to_def mapped_rel_def)

lemma maybe_map_rel:
  assumes C: "collections_laws C" and D: "collections_laws D" and ok: "builder_ok C b"
  shows "maps_to D f (builder_rel C b) {} (rb_maybe_map C D f b)"
proof -
  have "builder_ok D (rb_default D)" "builder_rel D (rb_default D) = {}"
    using rb_build_spec [OF D, of "[]"] by (simp_all add: rb_build_def)
  moreover have "rb_maybe_map C D f b = for_loop (map_edge C D f b) (edges_op C (rb_edges b)) (Some (rb_default D))"
    by (simp add: rb_maybe_map_def map_edge_def)
  ultimately show ?thesis
    unfolding builder_rel_ends [OF C ok]
    using map_edge_loop [OF D, of "rb_default D" "edges_op C (rb_edges b)" C b f] edge_ends [OF C ok] by metis
qed

text \<open>Collections over lists: the elements in the order of their insertion, the edges without repetition.\<close>

definition list_index :: "'t list \<Rightarrow> 't \<Rightarrow> nat option" where
  "list_index s x = (if x \<in> set s then Some (length (takeWhile (\<lambda>y. y \<noteq> x) (remdups s))) else None)"

definition list_collections :: "('t, 't list, edge list) collections" where
  "list_collections =
     \<lparr>insert_full_op = (\<lambda>s x. case list_index s x of Some i \<Rightarrow> (i, s) | None \<Rightarrow> (length (remdups s), s @ [x])),
      get_index_of_op = list_index,
      get_index_op = (\<lambda>s i. if i < length (remdups s) then Some (remdups s ! i) else None),
      len_op = (\<lambda>s. length (remdups s)), empty_elements = [],
      insert_edge_op = (\<lambda>h e. List.insert e h), edges_op = (\<lambda>h. h), empty_edges = []\<rparr>"

lemma takeWhile_nth: "x \<in> set xs \<Longrightarrow> length (takeWhile (\<lambda>y. y \<noteq> x) xs) < length xs \<and> xs ! length (takeWhile (\<lambda>y. y \<noteq> x) xs) = x"
  by (induction xs) auto

lemma list_index_Some: "list_index s x = Some i \<longleftrightarrow> i < length (remdups s) \<and> remdups s ! i = x"
proof -
  have "x \<in> set s" if "i < length (remdups s)" "remdups s ! i = x" using that nth_mem [of i "remdups s"] by simp
  then show ?thesis
    using takeWhile_nth [of x "remdups s"] distinct_remdups [of s] unfolding list_index_def by (auto simp: nth_eq_iff_index_eq)
qed

lemma remdups_snoc: "x \<notin> set s \<Longrightarrow> remdups (s @ [x]) = remdups s @ [x]"
  by (induction s) auto

lemma list_insert_full:
  "insert_full_op list_collections s x =
     (if x \<in> set s then (length (takeWhile (\<lambda>y. y \<noteq> x) (remdups s)), s) else (length (remdups s), s @ [x]))"
  by (simp add: list_collections_def list_index_def)

lemma list_index_snoc:
  assumes "x \<notin> set s"
  shows "list_index (s @ [x]) y = (if y = x then Some (length (remdups s)) else list_index s y)"
proof (cases "y = x")
  case True
  then show ?thesis unfolding list_index_Some using assms by (simp add: list_index_Some remdups_snoc)
next
  case False
  have "list_index (s @ [x]) y = Some i \<longleftrightarrow> list_index s y = Some i" for i
    unfolding list_index_Some remdups_snoc [OF assms] using False by (auto simp: nth_append less_Suc_eq)
  then show ?thesis using False by (metis not_None_eq)
qed

lemma list_collections_ops:
  "get_index_of_op list_collections = list_index" "len_op list_collections s = length (remdups s)"
  "get_index_op list_collections s i = (if i < length (remdups s) then Some (remdups s ! i) else None)"
  "edges_op list_collections h = h" "empty_edges list_collections = []" "insert_edge_op list_collections h e = List.insert e h"
  by (simp_all add: list_collections_def)

lemma list_collections_laws: "collections_laws list_collections"
proof -
  have mem: "x \<in> set s \<Longrightarrow> list_index s x = Some (length (takeWhile (\<lambda>y. y \<noteq> x) (remdups s)))" "x \<notin> set s \<Longrightarrow> list_index s x = None"
    for s :: "'a list" and x by (simp_all add: list_index_def)
  have "list_index (snd (insert_full_op list_collections s x)) x = Some (fst (insert_full_op list_collections s x))" for s :: "'a list" and x
    by (cases "x \<in> set s") (simp_all add: list_insert_full list_index_snoc mem(1) [of x s] del: set_append)
  moreover have "list_index (snd (insert_full_op list_collections s x)) y = Some j" if "list_index s y = Some j" for s :: "'a list" and x y j
    using that mem(2) [of x s] by (auto simp: list_insert_full list_index_snoc)
  moreover have "y = x \<or> list_index s y \<noteq> None" if "list_index (snd (insert_full_op list_collections s x)) y \<noteq> None" for s :: "'a list" and x y
    using that by (auto simp: list_insert_full list_index_snoc split: if_splits)
  ultimately show ?thesis unfolding collections_laws_def list_collections_ops by (simp add: list_index_Some)
qed

lemmas build_eval = rb_build_def rb_add_def add_index_def rb_default_def list_collections_def list_index_def

subsection \<open>The relation a builder freezes to\<close>

text \<open>
  C18: freezing computes the transitive closure. From any list of pairs added to an empty
  builder, with fewer than \<open>2\<^sup>6\<^sup>4\<close> elements, the loop of \<open>freeze\<close> ends without a panic; then
  \<open>contains\<close> decides the transitive closure of the pairs, \<open>reachable_from\<close> lists what the
  closure reaches, each element once, and \<open>base_edges\<close> lists the pairs themselves. The
  index set and the hash set are taken to satisfy their documented laws.
\<close>

theorem freeze_transitive_closure:
  assumes "collections_laws C" and "len_op C (rb_elements (rb_build C ps)) < 2 ^ 64"
  shows "\<exists>tr. freeze C (rb_build C ps) = Some tr \<and>
    (\<forall>a b. tr_contains C tr a b = Some ((a, b) \<in> (set ps)\<^sup>+)) \<and>
    (\<forall>a. \<exists>bs. reachable_from C tr a = Some bs \<and> distinct bs \<and> set bs = {b. (a, b) \<in> (set ps)\<^sup>+}) \<and>
    (\<exists>es. base_edges C (tr_builder tr) = Some es \<and> set es = set ps)"
proof -
  obtain tr where tr: "freeze C (rb_build C ps) = Some tr" "tr_ok C tr" "tr_builder tr = rb_build C ps" "tr_rel C tr = (set ps)\<^sup>+"
    by (rule freeze_build [OF assms])
  moreover have "\<exists>es. base_edges C (tr_builder tr) = Some es \<and> set es = set ps"
    using base_edges_rel [OF assms(1)] rb_build_spec [OF assms(1), of ps] tr(3) by metis
  moreover have "(set ps)\<^sup>+ `` {a} = {b. (a, b) \<in> (set ps)\<^sup>+}" for a by auto
  ultimately show ?thesis using tr_contains_rel [OF tr(2)] reachable_from_rel [OF tr(2)] by auto
qed

theorem freeze_transitive_closure_witness:
  "\<exists>tr. freeze list_collections (rb_build list_collections [(1::nat, 2), (2, 3), (3::nat, 1)]) = Some tr \<and>
    tr_contains list_collections tr 1 1 = Some True \<and> tr_contains list_collections tr 4 1 = Some False"
proof -
  let ?ps = "[(1::nat, 2), (2, 3), (3::nat, 1)]"
  have "len_op list_collections (rb_elements (rb_build list_collections ?ps)) < 2 ^ 64"
    by (simp add: build_eval)
  from freeze_transitive_closure [OF list_collections_laws this]
  obtain tr where tr: "freeze list_collections (rb_build list_collections ?ps) = Some tr"
    "\<forall>a b. tr_contains list_collections tr a b = Some ((a, b) \<in> (set ?ps)\<^sup>+)" by blast
  have "(1, 2) \<in> (set ?ps)\<^sup>+" "(2, 3) \<in> (set ?ps)\<^sup>+" "(3, 1) \<in> (set ?ps)\<^sup>+" by auto
  then have "(1, 1) \<in> (set ?ps)\<^sup>+" by (meson trancl_trans)
  moreover have "(4, 1) \<notin> (set ?ps)\<^sup>+" by (auto elim: converse_tranclE)
  ultimately show ?thesis using tr by metis
qed

text \<open>
  C9: the minimal upper bounds of a frozen relation. Of two elements of which one is below
  the other, the upper one is returned. Otherwise the result is a set of common upper
  bounds, none of which reaches another, and every common upper bound is one of them or
  reached from one. Likewise the parents of an element are among the elements it reaches
  and that do not reach it, none reaches another, and together they reach all of these.
\<close>

theorem minimal_upper_bounds_antichain:
  assumes "collections_laws C" and "len_op C (rb_elements (rb_build C ps)) < 2 ^ 64" and "R = (set ps)\<^sup>+"
  shows "\<exists>tr. freeze C (rb_build C ps) = Some tr \<and>
    (\<forall>a b. \<exists>xs. minimal_upper_bounds C tr a b = Some xs \<and>
       (if (a, b) \<in> R \<or> (b, a) \<in> R then xs = [b] \<and> (a, b) \<in> R \<or> xs = [a] \<and> (b, a) \<in> R
        else covering_antichain R {z. (a, z) \<in> R \<and> (b, z) \<in> R} xs)) \<and>
    (\<forall>a. \<exists>xs. parents C tr a = Some xs \<and> covering_antichain R {z. (a, z) \<in> R \<and> (z, a) \<notin> R} xs)"
proof -
  obtain tr where tr: "freeze C (rb_build C ps) = Some tr" "tr_ok C tr" "tr_rel C tr = R"
    using freeze_build [OF assms(1,2)] assms(3) by metis
  then show ?thesis
    using minimal_upper_bounds_spec [OF tr(2)] parents_spec [OF tr(2)] unfolding minimal_bounds_def tr(3) by blast
qed

theorem minimal_upper_bounds_antichain_witness:
  "\<exists>tr xs. freeze list_collections (rb_build list_collections [(1::nat, 2), (3, 2), (2, 4::nat)]) = Some tr \<and>
    minimal_upper_bounds list_collections tr 1 3 = Some xs \<and> set xs \<subseteq> {2, 4} \<and> xs \<noteq> []"
proof -
  let ?ps = "[(1::nat, 2), (3, 2), (2, 4::nat)]"
  let ?R = "(set ?ps)\<^sup>+"
  have "len_op list_collections (rb_elements (rb_build list_collections ?ps)) < 2 ^ 64"
    by (simp add: build_eval)
  from minimal_upper_bounds_antichain [OF list_collections_laws this refl]
  obtain tr xs where tr: "freeze list_collections (rb_build list_collections ?ps) = Some tr" "minimal_upper_bounds list_collections tr 1 3 = Some xs"
    and if_xs: "if (1, 3) \<in> ?R \<or> (3, 1) \<in> ?R then xs = [3] \<and> (1, 3) \<in> ?R \<or> xs = [1] \<and> (3, 1) \<in> ?R
        else covering_antichain ?R {z. (1, z) \<in> ?R \<and> (3, z) \<in> ?R} xs" by blast
  have range: "y \<in> {2, 4}" if "(x, y) \<in> ?R" for x y using that by (auto elim: tranclE)
  then have "(1, 3) \<notin> ?R" "(3, 1) \<notin> ?R" by fastforce+
  then have cov: "covering_antichain ?R {z. (1, z) \<in> ?R \<and> (3, z) \<in> ?R} xs" using if_xs by presburger
  have "(1, 2) \<in> ?R" "(3, 2) \<in> ?R" by auto
  then have "xs \<noteq> []" using cov unfolding covering_antichain_def by fastforce
  moreover have "set xs \<subseteq> {2, 4}" using cov range unfolding covering_antichain_def by blast
  ultimately show ?thesis using tr by blast
qed

text \<open>
  C26: \<open>postdom_upper_bound\<close> returns on every frozen relation, cycles included, and an element
  it returns is an upper bound of both. When the relation has a greatest element, two
  different elements of it always have such a bound, and it lies above all their minimal
  upper bounds. Without one, two points that have no upper bound in common drop out of the
  list, and the point that remains is returned, whether it bounds them or not.
\<close>

theorem postdom_upper_bound_returns:
  assumes "collections_laws C" and "len_op C (rb_elements (rb_build C ps)) < 2 ^ 64" and "R = (set ps)\<^sup>+"
  shows "\<exists>tr. freeze C (rb_build C ps) = Some tr \<and>
    (\<forall>a b. \<exists>r. postdom_upper_bound C tr a b = Some r \<and>
       (\<forall>z. r = Some z \<longrightarrow> (z = a \<or> (a, z) \<in> R) \<and> (z = b \<or> (b, z) \<in> R))) \<and>
    (\<forall>t a b. (\<forall>x \<in> Field R. x = t \<or> (x, t) \<in> R) \<and> a \<in> Field R \<and> b \<in> Field R \<and> a \<noteq> b \<longrightarrow>
       (\<exists>xs z. minimal_upper_bounds C tr a b = Some xs \<and> postdom_upper_bound C tr a b = Some (Some z) \<and>
          (\<forall>x \<in> set xs. x = z \<or> (x, z) \<in> R))) \<and>
    (\<forall>p a b. minimal_upper_bounds C tr a b = Some [] \<longrightarrow> mutual_immediate_postdominator C tr [p, a, b] = Some (Some p))"
proof -
  obtain tr where tr: "freeze C (rb_build C ps) = Some tr" "tr_ok C tr" "tr_rel C tr = R"
    using freeze_build [OF assms(1,2)] assms(3) by metis
  have trans: "trans R" by (simp add: assms(3))
  note spec = minimal_upper_bounds_spec [OF tr(2), unfolded tr(3)]
  have "\<exists>r. postdom_upper_bound C tr a b = Some r \<and> (\<forall>z. r = Some z \<longrightarrow> (z = a \<or> (a, z) \<in> R) \<and> (z = b \<or> (b, z) \<in> R))" for a b
  proof -
    obtain xs where xs: "minimal_upper_bounds C tr a b = Some xs" "minimal_bounds R a b xs" using spec by blast
    obtain r where r: "mutual_immediate_postdominator C tr xs = Some r" "\<forall>z. r = Some z \<longrightarrow> (\<exists>x \<in> set xs. x = z \<or> (x, z) \<in> R)"
      using mutual_returns [OF tr(2), of xs] tr(3) by blast
    have "(z = a \<or> (a, z) \<in> R) \<and> (z = b \<or> (b, z) \<in> R)" if "x \<in> set xs" "x = z \<or> (x, z) \<in> R" for x z
      using minimal_bounds_above [OF xs(2) that(1)] that(2) trans by (auto dest: transD)
    moreover have "postdom_upper_bound C tr a b = Some r" by (simp add: postdom_upper_bound_def xs(1) r(1))
    ultimately show ?thesis using r(2) by blast
  qed
  moreover have "\<exists>xs z. minimal_upper_bounds C tr a b = Some xs \<and> postdom_upper_bound C tr a b = Some (Some z) \<and> (\<forall>x \<in> set xs. x = z \<or> (x, z) \<in> R)"
    if top: "\<forall>x \<in> Field R. x = t \<or> (x, t) \<in> R" "a \<in> Field R" "b \<in> Field R" "a \<noteq> b" for t a b
  proof -
    obtain xs where xs: "minimal_upper_bounds C tr a b = Some xs" "minimal_bounds R a b xs" using spec by blast
    have le: "x = t \<or> (x, t) \<in> R" if "x \<in> {a, b}" for x using that top by auto
    note cov = minimal_bounds_covered [OF xs(2) top(4) le]
    have up: "x = t \<or> (x, t) \<in> tr_rel C tr" if "x \<in> Range (tr_rel C tr)" for x using that top(1) by (simp add: tr(3) Field_def)
    show ?thesis
      using mutual_top [OF tr(2) up, of xs] minimal_bounds_climbing [OF xs(2)] cov up xs(1)
      unfolding tr(3) postdom_upper_bound_def by auto
  qed
  moreover have "mutual_immediate_postdominator C tr [p, a, b] = Some (Some p)" if "minimal_upper_bounds C tr a b = Some []" for p a b
    using that mutual_two [of C tr "[p]" a b] by (simp add: mutual_small)
  ultimately show ?thesis using tr(1) by blast
qed

theorem postdom_upper_bound_returns_witness:
  "\<exists>tr z. freeze list_collections (rb_build list_collections [(1::nat, 2), (3, 2::nat)]) = Some tr \<and>
    postdom_upper_bound list_collections tr 1 3 = Some (Some z) \<and> z = 2"
proof -
  let ?ps = "[(1::nat, 2), (3, 2::nat)]"
  let ?R = "(set ?ps)\<^sup>+"
  have "len_op list_collections (rb_elements (rb_build list_collections ?ps)) < 2 ^ 64"
    by (simp add: build_eval)
  from postdom_upper_bound_returns [OF list_collections_laws this refl]
  obtain tr where tr: "freeze list_collections (rb_build list_collections ?ps) = Some tr"
    and bound: "\<forall>a b. \<exists>r. postdom_upper_bound list_collections tr a b = Some r \<and>
       (\<forall>z. r = Some z \<longrightarrow> (z = a \<or> (a, z) \<in> ?R) \<and> (z = b \<or> (b, z) \<in> ?R))"
    and top: "\<forall>t a b. (\<forall>x \<in> Field ?R. x = t \<or> (x, t) \<in> ?R) \<and> a \<in> Field ?R \<and> b \<in> Field ?R \<and> a \<noteq> b \<longrightarrow>
       (\<exists>xs z. minimal_upper_bounds list_collections tr a b = Some xs \<and> postdom_upper_bound list_collections tr a b = Some (Some z) \<and>
          (\<forall>x \<in> set xs. x = z \<or> (x, z) \<in> ?R))" by (elim exE conjE) (rule that)
  have R: "?R = {(1, 2), (3, 2)}"
  proof (rule equalityI)
    have "y = 2 \<and> x \<in> {1, 3}" if "(x, y) \<in> ?R" for x y
      using that by (induction rule: trancl_induct) auto
    then show "?R \<subseteq> {(1, 2), (3, 2)}" by auto
  qed auto
  obtain z where z: "postdom_upper_bound list_collections tr 1 3 = Some (Some z)"
    using top [rule_format, of 2 1 3] unfolding R by (auto simp: Field_def)
  then have "z = 2" using bound [rule_format, of 1 3] unfolding R by auto
  then show ?thesis using tr z by blast
qed

end
