(* ===== verification/Abi_Size.thy ===== *)
theory Abi_Size
  imports Bit_Words
begin

text \<open>
  The units of layout of \<open>rustc_abi/src/lib.rs\<close>: sizes and alignments, the integer types,
  the field and curve types of the language, the primitives and the data layout of a
  target. A \<open>u64\<close> and a \<open>u128\<close> are words; \<open>None\<close> is a panic, the overflow of an
  unchecked operation included.
\<close>

subsection \<open>Integer operations\<close>

type_synonym u8 = "8 word"
type_synonym u64 = "64 word"
type_synonym u128 = "128 word"

definition checked_add_u64 :: "u64 \<Rightarrow> u64 \<Rightarrow> u64 option" where
  "checked_add_u64 a b = (if unat a + unat b < 2 ^ 64 then Some (a + b) else None)"

definition checked_sub_u64 :: "u64 \<Rightarrow> u64 \<Rightarrow> u64 option" where
  "checked_sub_u64 a b = (if b \<le> a then Some (a - b) else None)"

definition checked_mul_u64 :: "u64 \<Rightarrow> u64 \<Rightarrow> u64 option" where
  "checked_mul_u64 a b = (if unat a * unat b < 2 ^ 64 then Some (a * b) else None)"

definition shl64 :: "u64 \<Rightarrow> nat \<Rightarrow> u64 option" where
  "shl64 a n = (if n < 64 then Some (push_bit n a) else None)"

definition shl128 :: "u128 \<Rightarrow> u64 \<Rightarrow> u128 option" where
  "shl128 a n = (if n < 128 then Some (push_bit (unat n) a) else None)"

definition shr128 :: "u128 \<Rightarrow> u64 \<Rightarrow> u128 option" where
  "shr128 a n = (if n < 128 then Some (drop_bit (unat n) a) else None)"

text \<open>The shift of an \<open>i128\<close>, kept as a word.\<close>

definition sar128 :: "u128 \<Rightarrow> u64 \<Rightarrow> u128 option" where
  "sar128 a n = (if n < 128 then Some (signed_drop_bit (unat n) a) else None)"

subsection \<open>Sizes\<close>

record Size =
  raw :: u64

definition ZERO :: Size where "ZERO = \<lparr>raw = 0\<rparr>"

definition size_from_bits :: "u64 \<Rightarrow> Size" where
  "size_from_bits bits = \<lparr>raw = bits div 8 + ((bits mod 8) + 7) div 8\<rparr>"

definition size_from_bytes :: "u64 \<Rightarrow> Size" where
  "size_from_bytes bytes = \<lparr>raw = bytes\<rparr>"

definition size_bits :: "Size \<Rightarrow> u64 option" where
  "size_bits self = checked_mul_u64 (raw self) 8"

definition size_sign_extend :: "Size \<Rightarrow> u128 \<Rightarrow> u128 option" where
  "size_sign_extend self value = do {
     size \<leftarrow> size_bits self;
     if size = 0 then Some 0
     else do {
       shift \<leftarrow> checked_sub_u64 128 size;
       v \<leftarrow> shl128 value shift;
       sar128 v shift
     }
   }"

definition size_truncate :: "Size \<Rightarrow> u128 \<Rightarrow> u128 option" where
  "size_truncate self value = do {
     size \<leftarrow> size_bits self;
     if size = 0 then Some 0
     else do {
       shift \<leftarrow> checked_sub_u64 128 size;
       v \<leftarrow> shl128 value shift;
       shr128 v shift
     }
   }"

text \<open>The bounds of the integers of a size; an \<open>i128\<close> is a word read by \<open>sint\<close>.\<close>

definition signed_int_min :: "Size \<Rightarrow> u128 option" where
  "signed_int_min self = do {
     bits \<leftarrow> size_bits self;
     n \<leftarrow> checked_sub_u64 bits 1;
     v \<leftarrow> shl128 1 n;
     size_sign_extend self v
   }"

definition signed_int_max :: "Size \<Rightarrow> u128 option" where
  "signed_int_max self = do {
     bits \<leftarrow> size_bits self;
     n \<leftarrow> checked_sub_u64 128 bits;
     sar128 (2 ^ 127 - 1) n
   }"

definition unsigned_int_max :: "Size \<Rightarrow> u128 option" where
  "unsigned_int_max self = do {
     bits \<leftarrow> size_bits self;
     n \<leftarrow> checked_sub_u64 128 bits;
     shr128 (- 1) n
   }"

definition size_add :: "Size \<Rightarrow> Size \<Rightarrow> Size option" where
  "size_add self other = map_option size_from_bytes (checked_add_u64 (raw self) (raw other))"

definition size_sub :: "Size \<Rightarrow> Size \<Rightarrow> Size option" where
  "size_sub self other = map_option size_from_bytes (checked_sub_u64 (raw self) (raw other))"

definition size_mul :: "Size \<Rightarrow> u64 \<Rightarrow> Size option" where
  "size_mul self count = map_option size_from_bytes (checked_mul_u64 (raw self) count)"

subsection \<open>Alignments\<close>

record Align =
  pow2 :: u8

datatype AlignFromBytesError = NotPowerOfTwo u64 | TooLarge u64

definition ONE :: Align where "ONE = \<lparr>pow2 = 0\<rparr>"
definition ALIGN_MAX :: Align where "ALIGN_MAX = \<lparr>pow2 = 29\<rparr>"

definition align_from_bytes :: "u64 \<Rightarrow> AlignFromBytesError + Align" where
  "align_from_bytes align =
     (if align = 0 then Inr ONE
      else
        let tz = trailing_zeros align in
        if align \<noteq> push_bit tz 1 then Inl (NotPowerOfTwo align)
        else
          let p = of_nat tz in
          if p > pow2 ALIGN_MAX then Inl (TooLarge align) else Inr \<lparr>pow2 = p\<rparr>)"

definition align_from_bits :: "u64 \<Rightarrow> AlignFromBytesError + Align" where
  "align_from_bits bits = align_from_bytes (raw (size_from_bits bits))"

definition align_bytes :: "Align \<Rightarrow> u64 option" where
  "align_bytes self = shl64 1 (unat (pow2 self))"

definition align_bits :: "Align \<Rightarrow> u64 option" where
  "align_bits self = do { b \<leftarrow> align_bytes self; checked_mul_u64 b 8 }"

definition align_min :: "Align \<Rightarrow> Align \<Rightarrow> Align" where
  "align_min self other = (if pow2 self \<le> pow2 other then self else other)"

definition align_max :: "Align \<Rightarrow> Align \<Rightarrow> Align" where
  "align_max self other = (if pow2 self \<le> pow2 other then other else self)"

definition max_for_offset :: "Size \<Rightarrow> Align" where
  "max_for_offset offset = \<lparr>pow2 = of_nat (trailing_zeros (raw offset))\<rparr>"

definition restrict_for_offset :: "Align \<Rightarrow> Size \<Rightarrow> Align" where
  "restrict_for_offset self offset = align_min self (max_for_offset offset)"

definition size_align_to :: "Size \<Rightarrow> Align \<Rightarrow> Size option" where
  "size_align_to self align = do {
     b \<leftarrow> align_bytes align;
     m \<leftarrow> checked_sub_u64 b 1;
     s \<leftarrow> checked_add_u64 (raw self) m;
     Some (size_from_bytes (s AND NOT m))
   }"

definition size_is_aligned :: "Size \<Rightarrow> Align \<Rightarrow> bool option" where
  "size_is_aligned self align = do {
     b \<leftarrow> align_bytes align;
     m \<leftarrow> checked_sub_u64 b 1;
     Some (raw self AND m = 0)
   }"

record AbiAndPrefAlign =
  abi :: Align
  pref :: Align

definition aap_new :: "Align \<Rightarrow> AbiAndPrefAlign" where
  "aap_new align = \<lparr>abi = align, pref = align\<rparr>"

definition aap_min :: "AbiAndPrefAlign \<Rightarrow> AbiAndPrefAlign \<Rightarrow> AbiAndPrefAlign" where
  "aap_min self other = \<lparr>abi = align_min (abi self) (abi other), pref = align_min (pref self) (pref other)\<rparr>"

definition aap_max :: "AbiAndPrefAlign \<Rightarrow> AbiAndPrefAlign \<Rightarrow> AbiAndPrefAlign" where
  "aap_max self other = \<lparr>abi = align_max (abi self) (abi other), pref = align_max (pref self) (pref other)\<rparr>"

subsection \<open>Alignment arithmetic\<close>

lemma unat_add_u64: "checked_add_u64 a b = Some c \<longleftrightarrow> unat a + unat b < 2 ^ 64 \<and> unat c = unat a + unat b"
  by (auto simp: checked_add_u64_def unat_word_ariths intro: word_unat_eq_iff [THEN iffD2])

lemma unat_mul_u64: "checked_mul_u64 a b = Some c \<longleftrightarrow> unat a * unat b < 2 ^ 64 \<and> unat c = unat a * unat b"
  by (auto simp: checked_mul_u64_def unat_word_ariths intro: word_unat_eq_iff [THEN iffD2])

lemma unat_sub_u64: "checked_sub_u64 a b = Some c \<longleftrightarrow> unat b \<le> unat a \<and> unat c = unat a - unat b"
  by (auto simp: checked_sub_u64_def word_le_nat_alt unat_sub intro: word_unat_eq_iff [THEN iffD2])

lemma unat_power2_u64: "n < 64 \<Longrightarrow> unat ((2 :: u64) ^ n) = 2 ^ n"
  using unat_of_nat [where ?'a = 64, of "2 ^ n"] power_strict_increasing [of n 64 "2 :: nat"] by simp

definition align_ok :: "Align \<Rightarrow> bool" where
  "align_ok a \<longleftrightarrow> pow2 a \<le> pow2 ALIGN_MAX"

text \<open>The number of bytes, for the alignments \<open>from_bytes\<close> returns and the ones derived from them.\<close>

definition align_nat :: "Align \<Rightarrow> nat" where
  "align_nat a = 2 ^ unat (pow2 a)"

lemma align_ok_le: "align_ok a \<Longrightarrow> unat (pow2 a) \<le> 29"
  by (simp add: align_ok_def ALIGN_MAX_def word_le_nat_alt)

lemma align_bytes_ok:
  assumes "unat (pow2 a) < 64"
  shows "align_bytes a = Some (push_bit (unat (pow2 a)) 1)" and "unat (push_bit (unat (pow2 a)) (1 :: u64)) = align_nat a"
  using assms by (simp_all add: align_bytes_def shl64_def align_nat_def push_bit_eq_mult unat_power2_u64)

lemma align_mask: "n < 64 \<Longrightarrow> checked_sub_u64 (push_bit n 1) 1 = Some (mask n)"
  using unat_power2_u64 [of n] by (simp add: checked_sub_u64_def mask_eq_decr_exp push_bit_eq_mult word_le_nat_alt)

lemma unat_take_bit_u64: "unat (take_bit n (x :: u64)) = unat x mod 2 ^ n"
  unfolding unsigned_take_bit_eq by (rule take_bit_eq_mod)

lemma and_not_mask_unat:
  fixes x :: u64
  shows "unat (x AND NOT (mask n)) = unat x - unat x mod 2 ^ n"
proof -
  have "(x AND NOT (mask n)) + take_bit n x = x"
    by (subst disjunctive_add) (auto simp: bit_simps intro!: bit_eqI)
  moreover have "(x AND NOT (mask n)) = x - take_bit n x" using calculation by (metis add_diff_cancel_right')
  moreover have "take_bit n x \<le> x" by (metis take_bit_eq_mask word_and_le2)
  ultimately show ?thesis by (simp add: unat_sub unat_take_bit_u64 del: take_bit_eq_mod)
qed

lemma size_align_to_spec:
  assumes "unat (pow2 a) < 64"
  shows "if unat (raw x) + align_nat a \<le> 2 ^ 64
    then \<exists>s. size_align_to x a = Some s \<and> align_nat a dvd unat (raw s) \<and> unat (raw x) \<le> unat (raw s) \<and> unat (raw s) < unat (raw x) + align_nat a
    else size_align_to x a = None"
proof -
  let ?n = "unat (pow2 a)" and ?A = "align_nat a"
  have A: "0 < ?A" by (simp add: align_nat_def)
  have m: "unat (mask ?n :: u64) = ?A - 1"
    using unat_power2_u64 [OF assms] by (simp add: mask_eq_decr_exp align_nat_def unat_sub word_le_nat_alt)
  have eq: "size_align_to x a = map_option (\<lambda>s. \<lparr>raw = s AND NOT (mask ?n)\<rparr>) (checked_add_u64 (raw x) (mask ?n))"
    using align_bytes_ok [OF assms] align_mask [OF assms]
    by (cases "checked_add_u64 (raw x) (mask ?n)") (simp_all add: size_align_to_def size_from_bytes_def)
  show ?thesis
  proof (cases "unat (raw x) + ?A \<le> 2 ^ 64")
    case True
    have "checked_add_u64 (raw x) (mask ?n) = Some (raw x + mask ?n)" using True A by (simp add: checked_add_u64_def m)
    moreover then have sum: "unat (raw x + mask ?n) = unat (raw x) + ?A - 1" using A m by (simp add: unat_add_u64)
    define y where "y = unat (raw x) + ?A - 1"
    have "unat ((raw x + mask ?n) AND NOT (mask ?n)) = y - y mod ?A" unfolding and_not_mask_unat sum y_def align_nat_def ..
    moreover have "?A dvd y - y mod ?A" by (rule dvd_minus_mod)
    moreover have "unat (raw x) \<le> y - y mod ?A \<and> y - y mod ?A < unat (raw x) + ?A"
      using y_def A mod_less_divisor [OF A, of y] by linarith
    ultimately show ?thesis using True unfolding eq by simp
  next
    case False
    then show ?thesis using A by (simp add: eq checked_add_u64_def m)
  qed
qed

lemma size_is_aligned_spec:
  assumes "unat (pow2 a) < 64"
  shows "size_is_aligned x a = Some (align_nat a dvd unat (raw x))"
proof -
  have "raw x AND mask (unat (pow2 a)) = 0 \<longleftrightarrow> unat (take_bit (unat (pow2 a)) (raw x)) = 0"
    by (simp only: take_bit_eq_mask unat_eq_0)
  then have "raw x AND mask (unat (pow2 a)) = 0 \<longleftrightarrow> align_nat a dvd unat (raw x)"
    unfolding unat_take_bit_u64 align_nat_def dvd_eq_mod_eq_0 .
  then show ?thesis using align_bytes_ok [OF assms] align_mask [OF assms] by (simp add: size_is_aligned_def)
qed

lemma power2_tz:
  assumes "w \<noteq> 0"
  shows "w = push_bit (trailing_zeros w) 1 \<longleftrightarrow> (\<exists>p. unat w = 2 ^ p)" and "unat w = 2 ^ p \<Longrightarrow> trailing_zeros w = p"
proof -
  note tz = trailing_zeros [OF assms]
  have *: "trailing_zeros w = p" if "unat w = 2 ^ p" for p
  proof -
    have "(2 :: nat) ^ p < 2 ^ 64" using that unsigned_less [where ?'a = nat, of w] by simp
    then have "p < 64" by (rule power_less_imp_less_exp [rotated]) simp
    then have "w = push_bit p 1" using that unat_power2_u64 [of p] by (simp add: push_bit_eq_mult word_unat_eq_iff)
    then show ?thesis using tz(1) by (metis bit_1_iff bit_push_bit_iff le_antisym diff_is_0_eq)
  qed
  show "unat w = 2 ^ p \<Longrightarrow> trailing_zeros w = p" by (rule *)
  show "w = push_bit (trailing_zeros w) 1 \<longleftrightarrow> (\<exists>p. unat w = 2 ^ p)"
    using * unat_power2_u64 [OF tz(3)] by (auto simp: push_bit_eq_mult word_unat_eq_iff)
qed

lemma align_from_bytes_spec:
  "align_from_bytes w = Inr a \<Longrightarrow> align_ok a \<and> align_bytes a = Some (if w = 0 then 1 else w)"
  "(\<exists>a. align_from_bytes w = Inr a) \<longleftrightarrow> w = 0 \<or> (\<exists>p \<le> 29. unat w = 2 ^ p)"
  "align_from_bytes w = Inl (NotPowerOfTwo w) \<longleftrightarrow> w \<noteq> 0 \<and> (\<nexists>p. unat w = 2 ^ p)"
proof -
  have p: "(of_nat t :: u8) \<le> pow2 ALIGN_MAX \<longleftrightarrow> t \<le> 29" "unat (of_nat t :: u8) = t" if "t < 64" for t
    using that by (simp_all add: ALIGN_MAX_def word_le_nat_alt unat_of_nat)
  show "align_ok a \<and> align_bytes a = Some (if w = 0 then 1 else w)" if "align_from_bytes w = Inr a"
  proof (cases "w = 0")
    case True
    then show ?thesis using that by (auto simp: align_from_bytes_def ONE_def align_ok_def ALIGN_MAX_def align_bytes_def shl64_def)
  next
    case False
    then show ?thesis using that trailing_zeros(3) [OF False] p(2)
      by (auto simp: align_from_bytes_def Let_def align_ok_def align_bytes_def shl64_def split: if_splits)
  qed
  show "(\<exists>a. align_from_bytes w = Inr a) \<longleftrightarrow> w = 0 \<or> (\<exists>p \<le> 29. unat w = 2 ^ p)"
  proof (cases "w = 0")
    case False
    have "(\<exists>a. align_from_bytes w = Inr a) \<longleftrightarrow> (\<exists>p. unat w = 2 ^ p) \<and> trailing_zeros w \<le> 29"
      using False power2_tz(1) [OF False] p(1) [OF trailing_zeros(3) [OF False]] by (simp add: align_from_bytes_def Let_def linorder_not_le [symmetric])
    then show ?thesis using False power2_tz(2) [OF False] by blast
  qed (simp add: align_from_bytes_def)
  show "align_from_bytes w = Inl (NotPowerOfTwo w) \<longleftrightarrow> w \<noteq> 0 \<and> (\<nexists>p. unat w = 2 ^ p)"
    using power2_tz(1) [of w] by (auto simp: align_from_bytes_def Let_def)
qed

lemma power2_dvd_iff_tz:
  assumes "w \<noteq> (0 :: u64)"
  shows "2 ^ p dvd unat w \<longleftrightarrow> p \<le> trailing_zeros w"
proof -
  note tz = trailing_zeros [OF assms]
  have "2 ^ p dvd unat w \<longleftrightarrow> take_bit p w = 0"
    unfolding dvd_eq_mod_eq_0 unat_take_bit_u64 [symmetric] by (rule unat_eq_0)
  also have "\<dots> \<longleftrightarrow> (\<forall>i < p. \<not> bit w i)" using bit_imp_le_length [of w] by (auto simp: bit_eq_iff bit_take_bit_iff)
  also have "\<dots> \<longleftrightarrow> p \<le> trailing_zeros w" using tz(1,2) by (meson leI less_le_trans)
  finally show ?thesis .
qed

lemma restrict_for_offset_spec:
  assumes "align_ok a"
  shows "align_ok (restrict_for_offset a x) \<and> align_nat (restrict_for_offset a x) dvd unat (raw x) \<and>
    pow2 (restrict_for_offset a x) \<le> pow2 a \<and>
    (\<forall>b. align_ok b \<and> pow2 b \<le> pow2 a \<and> align_nat b dvd unat (raw x) \<longrightarrow> pow2 b \<le> pow2 (restrict_for_offset a x))"
proof (cases "raw x = 0")
  case True
  have "trailing_zeros (raw x) = 64"
    unfolding trailing_zeros_def True by (subst takeWhile_eq_all_conv [THEN iffD2]) simp_all
  then have "restrict_for_offset a x = a"
    using align_ok_le [OF assms] by (simp add: restrict_for_offset_def align_min_def max_for_offset_def word_le_nat_alt)
  then show ?thesis using True assms by simp
next
  case False
  let ?t = "trailing_zeros (raw x)"
  note tz = trailing_zeros [OF False]
  have t: "unat (of_nat ?t :: u8) = ?t" using tz(3) by (simp add: unat_of_nat)
  note dvd = power2_dvd_iff_tz [OF False]
  show ?thesis
    using assms t by (auto simp: restrict_for_offset_def align_min_def max_for_offset_def align_nat_def dvd word_le_nat_alt align_ok_def)
qed

subsection \<open>Truncation and sign extension\<close>

lemma bits_shift:
  assumes "0 < unat b" and "unat b \<le> 128"
  shows "checked_sub_u64 128 b = Some (128 - b)" and "unat (128 - b) = 128 - unat b" and "128 - b < 128"
  using assms by (simp_all add: checked_sub_u64_def word_le_nat_alt unat_sub word_less_nat_alt)

lemma size_truncate_take_bit:
  assumes "size_bits s = Some b" and "unat b \<le> 128"
  shows "size_truncate s v = Some (take_bit (unat b) v)"
proof (cases "b = 0")
  case False
  then have b: "0 < unat b" by (simp add: unat_gt_0)
  have "drop_bit (128 - unat b) (push_bit (128 - unat b) v) = take_bit (unat b) v"
    by (rule bit_eqI) (use b assms(2) in \<open>auto simp: bit_simps\<close>)
  then show ?thesis using bits_shift [OF b assms(2)] False assms(1) by (simp add: size_truncate_def shl128_def shr128_def)
qed (use assms in \<open>simp add: size_truncate_def\<close>)

lemma size_sign_extend_take_bit:
  assumes "size_bits s = Some b" and "0 < unat b" and "unat b \<le> 128"
  shows "size_sign_extend s v = Some (signed_take_bit (unat b - 1) v)"
proof -
  obtain k where k: "unat b = Suc k" "k < 128" using assms(2,3) by (cases "unat b") auto
  have "bit (signed_drop_bit (128 - Suc k) (push_bit (128 - Suc k) v)) n \<longleftrightarrow> bit (signed_take_bit k v) n" if "n < 128" for n
  proof (cases "n \<le> k")
    case True
    then show ?thesis using that k(2) by (auto simp: bit_simps min_def)
  next
    case False
    then show ?thesis using that k(2) by (auto simp: bit_simps min_def)
  qed
  then have "signed_drop_bit (128 - unat b) (push_bit (128 - unat b) v) = signed_take_bit (unat b - 1) v"
    unfolding k(1) by (intro bit_word_eqI) simp
  then show ?thesis
    using bits_shift [OF assms(2,3)] assms(1,2) by (auto simp: size_sign_extend_def shl128_def sar128_def)
qed

lemma sint_signed_take_bit: "n < 128 \<Longrightarrow> sint (signed_take_bit n (w :: u128)) = signed_take_bit n (sint w)"
  by (cases "n = 127"; rule bit_eqI) (auto simp: bit_simps min_def)

lemma sint_signed_take_bit_range:
  "n < 128 \<Longrightarrow> - (2 ^ n) \<le> sint (signed_take_bit n (w :: u128)) \<and> sint (signed_take_bit n w) < 2 ^ n"
  by (simp add: sint_signed_take_bit)

lemma sint_of_int_u128: "- (2 ^ 127) \<le> z \<Longrightarrow> z < 2 ^ 127 \<Longrightarrow> sint (word_of_int z :: u128) = z"
  by (simp add: sint_sbintrunc' signed_take_bit_int_eq_self)

lemma unat_mask_u128: "n \<le> 128 \<Longrightarrow> unat (mask n :: u128) = 2 ^ n - 1"
proof -
  assume "n \<le> 128"
  then have "(2 :: nat) ^ n - 1 < 2 ^ 128" using power_increasing [of n 128 "2 :: nat"] by simp
  then have "unat (of_nat (2 ^ n - 1) :: u128) = 2 ^ n - 1" unfolding unat_of_nat by (intro mod_less) simp
  moreover have "(mask n :: u128) = of_nat (2 ^ n - 1)" by (simp add: mask_eq_decr_exp of_nat_diff)
  ultimately show ?thesis by simp
qed

lemma int_bounds:
  assumes "size_bits s = Some b" and "0 < unat b" and "unat b \<le> 128"
  shows "signed_int_min s = Some (- (2 ^ (unat b - 1)))" and "signed_int_max s = Some (mask (unat b - 1))"
    and "unsigned_int_max s = Some (mask (unat b))"
proof -
  obtain k where k: "unat b = Suc k" "k < 128" using assms(2,3) by (cases "unat b") auto
  note sh = bits_shift [OF assms(2,3)]
  have "(2 :: u128) ^ 127 - 1 = mask 127" by (simp add: mask_eq_decr_exp)
  moreover have "signed_drop_bit (128 - Suc k) (mask 127 :: u128) = mask k"
    by (rule bit_word_eqI) (use k(2) in \<open>auto simp: bit_simps min_def\<close>)
  ultimately show "signed_int_max s = Some (mask (unat b - 1))"
    using sh assms(1) k by (simp add: signed_int_max_def sar128_def)
  have "drop_bit (128 - Suc k) (- 1 :: u128) = mask (Suc k)"
    by (rule bit_word_eqI) (use k(2) in \<open>auto simp: bit_simps\<close>)
  then show "unsigned_int_max s = Some (mask (unat b))"
    using sh assms(1) k by (simp add: unsigned_int_max_def shr128_def)
  have one: "checked_sub_u64 b 1 = Some (b - 1)" "unat (b - 1) = k"
    using k(1) by (simp_all add: checked_sub_u64_def word_le_nat_alt unat_sub)
  have "signed_take_bit k (push_bit k 1 :: u128) = - (2 ^ k)"
    unfolding minus_exp_eq_not_mask by (rule bit_word_eqI) (use k(2) in \<open>auto simp: bit_simps min_def\<close>)
  then show "signed_int_min s = Some (- (2 ^ (unat b - 1)))"
    using one k size_sign_extend_take_bit [OF assms] assms(1) by (simp add: signed_int_min_def shl128_def word_less_nat_alt)
qed

subsection \<open>Sizes and alignments together\<close>

text \<open>
  C3: alignment arithmetic. \<open>Align::from_bytes\<close> accepts zero, read as one, and the powers of
  two up to \<open>2\<^sup>2\<^sup>9\<close>, and nothing else. For an alignment it returns, \<open>align_to\<close> rounds a size up
  to the next multiple and panics exactly when the sum with the alignment leaves 64 bits;
  \<open>is_aligned\<close> decides divisibility; and \<open>restrict_for_offset\<close> returns the largest alignment
  up to the given one that divides the offset.
\<close>

theorem size_alignment:
  assumes "align_from_bytes w = Inr a" and "n = (if w = 0 then 1 else unat w)"
  shows "(\<forall>v. (\<exists>b. align_from_bytes v = Inr b) \<longleftrightarrow> v = 0 \<or> (\<exists>p \<le> 29. unat v = 2 ^ p)) \<and>
    (if unat (raw x) + n \<le> 2 ^ 64
     then \<exists>s. size_align_to x a = Some s \<and> n dvd unat (raw s) \<and> unat (raw x) \<le> unat (raw s) \<and> unat (raw s) < unat (raw x) + n
     else size_align_to x a = None) \<and>
    size_is_aligned x a = Some (n dvd unat (raw x)) \<and>
    (\<exists>c m. restrict_for_offset a x = c \<and> align_bytes c = Some m \<and> unat m dvd unat (raw x) \<and> unat m \<le> n \<and>
       (\<forall>p. 2 ^ p dvd unat (raw x) \<and> 2 ^ p \<le> n \<longrightarrow> 2 ^ p \<le> unat m))"
proof -
  have ok: "align_ok a" "align_bytes a = Some (if w = 0 then 1 else w)" using align_from_bytes_spec(1) [OF assms(1)] by auto
  then have lt: "unat (pow2 a) < 64" using align_ok_le by fastforce
  have n: "align_nat a = n" using align_bytes_ok [OF lt] ok(2) assms(2) by (auto split: if_splits)
  let ?c = "restrict_for_offset a x"
  have c: "align_ok ?c" "align_nat ?c dvd unat (raw x)" "pow2 ?c \<le> pow2 a"
    "\<And>b. align_ok b \<Longrightarrow> pow2 b \<le> pow2 a \<Longrightarrow> align_nat b dvd unat (raw x) \<Longrightarrow> pow2 b \<le> pow2 ?c"
    using restrict_for_offset_spec [OF ok(1), of x] by auto
  have clt: "unat (pow2 ?c) < 64" using align_ok_le [OF c(1)] by simp
  note m = align_bytes_ok [OF clt]
  have "2 ^ p \<le> align_nat ?c" if "2 ^ p dvd unat (raw x)" "2 ^ p \<le> n" for p
  proof -
    have le: "p \<le> unat (pow2 a)" using that(2) n by (auto simp: align_nat_def)
    then have p: "p \<le> 29" "unat (of_nat p :: u8) = p" using align_ok_le [OF ok(1)] by (simp_all add: unat_of_nat)
    show ?thesis
      using c(4) [of "\<lparr>pow2 = of_nat p\<rparr>"] that(1) le p by (simp add: align_ok_def ALIGN_MAX_def word_le_nat_alt align_nat_def)
  qed
  moreover have "align_nat ?c \<le> n" using c(3) n by (auto simp: align_nat_def word_le_nat_alt)
  ultimately show ?thesis
    using align_from_bytes_spec(2) size_align_to_spec [OF lt, of x] size_is_aligned_spec [OF lt, of x] m c(2) unfolding n by simp
qed

theorem size_alignment_witness:
  "size_align_to \<lparr>raw = 13\<rparr> \<lparr>pow2 = 3\<rparr> = Some \<lparr>raw = 16\<rparr>"
proof -
  have a: "align_from_bytes 8 = Inr \<lparr>pow2 = 3\<rparr>" by (simp add: align_from_bytes_def trailing_zeros_def upt_rec ALIGN_MAX_def)
  obtain s where s: "size_align_to \<lparr>raw = 13\<rparr> \<lparr>pow2 = 3\<rparr> = Some s" "8 dvd unat (raw s)" "13 \<le> unat (raw s)" "unat (raw s) < 21"
    using size_alignment [OF a refl, of "\<lparr>raw = 13\<rparr>"] by auto
  then obtain k where "unat (raw s) = 8 * k" by (elim dvdE)
  then have "unat (raw s) = 16" using s(3,4) by presburger
  then have "raw s = 16" by (simp add: word_unat_eq_iff)
  then show ?thesis using s(1) by (cases s) simp
qed

text \<open>
  Truncation and sign extension to a size of 1 to 128 bits. \<open>truncate\<close> is the value
  modulo the size; \<open>sign_extend\<close> lies between \<open>signed_int_min\<close> and \<open>signed_int_max\<close>, which
  are the bounds of two's complement, and truncates to the same value; extending a
  truncated value of that range gives the value back.
\<close>

theorem truncate_sign_extend:
  assumes "size_bits s = Some b" and "0 < unat b" and "unat b \<le> 128"
  shows "\<exists>t x lo hi top. size_truncate s v = Some t \<and> unat t = unat v mod 2 ^ unat b \<and>
    signed_int_min s = Some lo \<and> sint lo = - (2 ^ (unat b - 1)) \<and>
    signed_int_max s = Some hi \<and> sint hi = 2 ^ (unat b - 1) - 1 \<and>
    unsigned_int_max s = Some top \<and> unat top = 2 ^ unat b - 1 \<and>
    size_sign_extend s v = Some x \<and> sint lo \<le> sint x \<and> sint x \<le> sint hi \<and>
    size_truncate s x = Some t \<and> size_sign_extend s t = Some x \<and>
    (sint lo \<le> sint v \<and> sint v \<le> sint hi \<longrightarrow> x = v)"
proof -
  obtain k where k: "unat b = Suc k" "k < 128" using assms(2,3) by (cases "unat b") auto
  note tr = size_truncate_take_bit [OF assms(1,3)] and se = size_sign_extend_take_bit [OF assms]
  note bounds = int_bounds [OF assms, unfolded k(1) diff_Suc_1]
  have t: "unat (take_bit (Suc k) v) = unat v mod 2 ^ Suc k" unfolding unsigned_take_bit_eq by (rule take_bit_eq_mod)
  have pow: "(2 :: int) ^ k \<le> 2 ^ 127" using k(2) power_increasing [of k 127 "2 :: int"] by simp
  have "(mask k :: u128) = word_of_int (2 ^ k - 1)" "- (2 ^ k) = (word_of_int (- (2 ^ k)) :: u128)"
    by (simp_all add: mask_eq_decr_exp)
  moreover have "(1 :: int) \<le> 2 ^ k" by simp
  ultimately have hi: "sint (mask k :: u128) = 2 ^ k - 1" and lo: "sint (- (2 ^ k) :: u128) = - (2 ^ k)"
    using pow by (simp_all only:) (rule sint_of_int_u128; linarith)+
  have inv: "signed_take_bit k v = v" if "- (2 ^ k) \<le> sint v" "sint v \<le> 2 ^ k - 1"
    using that k(2) by (intro signed_word_eqI [where ?'a = int]) (simp add: sint_signed_take_bit signed_take_bit_int_eq_self)
  have "signed_take_bit k (take_bit (Suc k) v) = signed_take_bit k v" by (simp add: signed_take_bit_take_bit)
  then show ?thesis
    using tr [of v] tr [of "signed_take_bit k v"] se [of v] se [of "take_bit (Suc k) v"] bounds t unat_mask_u128 [of "Suc k"] k
      hi lo inv sint_signed_take_bit_range [of k v]
    by (simp add: take_bit_signed_take_bit)
qed

theorem truncate_sign_extend_witness:
  "\<exists>x. size_sign_extend \<lparr>raw = 1\<rparr> 0x1FF = Some x \<and> sint x \<le> 127"
proof -
  have "size_bits \<lparr>raw = 1\<rparr> = Some 8" by (simp add: size_bits_def checked_mul_u64_def)
  from truncate_sign_extend [OF this, of "0x1FF"] show ?thesis by auto
qed

end
