(* ===== verification/Abi_Types.thy ===== *)
theory Abi_Types
  imports Abi_Size
begin

text \<open>
  The primitive types of \<open>rustc_abi/src/lib.rs\<close> and the data layout of a target: integers,
  Galois fields, elliptic curves, primitives, the fixed sizes and alignments of each, and
  the sizes computed with the bound on objects of the target.
\<close>

subsection \<open>Integers and the data layout\<close>

datatype Integer = I8 | I16 | I32 | I64 | I128

datatype IntegerType = PointerSized bool | Fixed Integer bool

datatype Endian = Little | Big

type_synonym AddressSpace = "32 word"

definition DATA :: AddressSpace where "DATA = 0"

record TargetDataLayout =
  endian :: Endian
  i1_align :: AbiAndPrefAlign
  i8_align :: AbiAndPrefAlign
  i16_align :: AbiAndPrefAlign
  i32_align :: AbiAndPrefAlign
  i64_align :: AbiAndPrefAlign
  i128_align :: AbiAndPrefAlign
  f32_align :: AbiAndPrefAlign
  f64_align :: AbiAndPrefAlign
  pointer_size :: Size
  pointer_align :: AbiAndPrefAlign
  aggregate_align :: AbiAndPrefAlign
  vector_align :: "(Size \<times> AbiAndPrefAlign) list"
  instruction_address_space :: AddressSpace
  c_enum_min_size :: Integer

fun it_is_signed :: "IntegerType \<Rightarrow> bool" where
  "it_is_signed (PointerSized b) = b"
| "it_is_signed (Fixed x b) = b"

definition obj_size_bound :: "TargetDataLayout \<Rightarrow> u64 option" where
  "obj_size_bound dl = do {
     bits \<leftarrow> size_bits (pointer_size dl);
     if bits = 16 then Some (push_bit 15 1)
     else if bits = 32 then Some (push_bit 31 1)
     else if bits = 64 then Some (push_bit 47 1)
     else None
   }"

definition ptr_sized_integer :: "TargetDataLayout \<Rightarrow> Integer option" where
  "ptr_sized_integer dl = do {
     bits \<leftarrow> size_bits (pointer_size dl);
     if bits = 16 then Some I16
     else if bits = 32 then Some I32
     else if bits = 64 then Some I64
     else None
   }"

definition size_checked_add :: "Size \<Rightarrow> Size \<Rightarrow> TargetDataLayout \<Rightarrow> Size option option" where
  "size_checked_add self offset dl =
     (case checked_add_u64 (raw self) (raw offset) of
        None \<Rightarrow> Some None
      | Some bytes \<Rightarrow> do {
          bound \<leftarrow> obj_size_bound dl;
          Some (if bytes < bound then Some (size_from_bytes bytes) else None)
        })"

definition size_checked_mul :: "Size \<Rightarrow> u64 \<Rightarrow> TargetDataLayout \<Rightarrow> Size option option" where
  "size_checked_mul self count dl =
     (case checked_mul_u64 (raw self) count of
        None \<Rightarrow> Some None
      | Some bytes \<Rightarrow> do {
          bound \<leftarrow> obj_size_bound dl;
          Some (if bytes < bound then Some (size_from_bytes bytes) else None)
        })"

fun integer_size :: "Integer \<Rightarrow> Size" where
  "integer_size I8 = size_from_bytes 1"
| "integer_size I16 = size_from_bytes 2"
| "integer_size I32 = size_from_bytes 4"
| "integer_size I64 = size_from_bytes 8"
| "integer_size I128 = size_from_bytes 16"

fun from_attr :: "TargetDataLayout \<Rightarrow> IntegerType \<Rightarrow> Integer option" where
  "from_attr dl (PointerSized b) = ptr_sized_integer dl"
| "from_attr dl (Fixed x b) = Some x"

fun integer_align :: "Integer \<Rightarrow> TargetDataLayout \<Rightarrow> AbiAndPrefAlign" where
  "integer_align I8 dl = i8_align dl"
| "integer_align I16 dl = i16_align dl"
| "integer_align I32 dl = i32_align dl"
| "integer_align I64 dl = i64_align dl"
| "integer_align I128 dl = i128_align dl"

text \<open>An \<open>i128\<close> is an integer in its range here.\<close>

fun signed_max :: "Integer \<Rightarrow> int" where
  "signed_max I8 = 0x7F"
| "signed_max I16 = 0x7FFF"
| "signed_max I32 = 0x7FFFFFFF"
| "signed_max I64 = 0x7FFFFFFFFFFFFFFF"
| "signed_max I128 = 0x7FFFFFFFFFFFFFFFFFFFFFFFFFFFFFFF"

definition fit_signed :: "int \<Rightarrow> Integer" where
  "fit_signed x =
     (if - 0x80 \<le> x \<and> x \<le> 0x7f then I8
      else if - 0x8000 \<le> x \<and> x \<le> 0x7fff then I16
      else if - 0x80000000 \<le> x \<and> x \<le> 0x7fffffff then I32
      else if - 0x8000000000000000 \<le> x \<and> x \<le> 0x7fffffffffffffff then I64
      else I128)"

definition fit_unsigned :: "u128 \<Rightarrow> Integer" where
  "fit_unsigned x =
     (if x \<le> 0xff then I8
      else if x \<le> 0xffff then I16
      else if x \<le> 0xffffffff then I32
      else if x \<le> 0xffffffffffffffff then I64
      else I128)"

text \<open>\<open>iter().find\<close> and the \<open>for\<close> loop with \<open>return\<close>, for a condition that may panic.\<close>

fun find_opt :: "('a \<Rightarrow> bool option) \<Rightarrow> 'a list \<Rightarrow> 'a option option" where
  "find_opt p [] = Some None"
| "find_opt p (x # xs) = do { b \<leftarrow> p x; if b then Some (Some x) else find_opt p xs }"

definition for_align :: "TargetDataLayout \<Rightarrow> Align \<Rightarrow> Integer option option" where
  "for_align dl wanted =
     find_opt (\<lambda>candidate.
         if wanted = abi (integer_align candidate dl)
         then do { b \<leftarrow> align_bytes wanted; Some (b = raw (integer_size candidate)) }
         else Some False) [I8, I16, I32, I64, I128]"

definition approximate_align :: "TargetDataLayout \<Rightarrow> Align \<Rightarrow> Integer option" where
  "approximate_align dl wanted = do {
     found \<leftarrow> find_opt (\<lambda>candidate.
         if pow2 wanted \<ge> pow2 (abi (integer_align candidate dl))
         then do { b \<leftarrow> align_bytes wanted; Some (b \<ge> raw (integer_size candidate)) }
         else Some False) [I64, I32, I16];
     Some (case found of Some candidate \<Rightarrow> candidate | None \<Rightarrow> I8)
   }"

text \<open>The error is the number of bits that the message names.\<close>

definition integer_from_size :: "Size \<Rightarrow> (u64 + Integer) option" where
  "integer_from_size sz = do {
     bits \<leftarrow> size_bits sz;
     Some (if bits = 8 then Inr I8
           else if bits = 16 then Inr I16
           else if bits = 32 then Inr I32
           else if bits = 64 then Inr I64
           else if bits = 128 then Inr I128
           else Inl bits)
   }"

subsection \<open>Fields and curves\<close>

datatype Field =
    Bls12381Base | Bls12381Scalar | Curve25519Base | Curve25519Scalar | PallasBase | PallasScalar

datatype Curve = Bls12381 | Curve25519 | Pallas | Vesta

fun field_size :: "Field \<Rightarrow> Size" where
  "field_size Bls12381Base = size_from_bytes 48"
| "field_size Bls12381Scalar = size_from_bytes 32"
| "field_size Curve25519Base = size_from_bytes 32"
| "field_size Curve25519Scalar = size_from_bytes 32"
| "field_size PallasBase = size_from_bytes 32"
| "field_size PallasScalar = size_from_bytes 32"

fun field_real_bits :: "Field \<Rightarrow> u64" where
  "field_real_bits Bls12381Base = 381"
| "field_real_bits Bls12381Scalar = 255"
| "field_real_bits Curve25519Base = 255"
| "field_real_bits Curve25519Scalar = 253"
| "field_real_bits PallasBase = 255"
| "field_real_bits PallasScalar = 255"

text \<open>\<open>Align::from_bytes(0).unwrap()\<close>.\<close>

definition unwrap_align :: "AlignFromBytesError + Align \<Rightarrow> Align option" where
  "unwrap_align r = (case r of Inl e \<Rightarrow> None | Inr a \<Rightarrow> Some a)"

definition field_align :: "AbiAndPrefAlign option" where
  "field_align = map_option aap_new (unwrap_align (align_from_bytes 0))"

fun curve_size :: "Curve \<Rightarrow> Size option" where
  "curve_size Bls12381 = size_mul (field_size Bls12381Base) 2"
| "curve_size Curve25519 = size_mul (field_size Curve25519Base) 2"
| "curve_size Pallas = size_mul (field_size PallasBase) 2"
| "curve_size Vesta = size_mul (field_size PallasScalar) 2"

fun curve_real_bits :: "Curve \<Rightarrow> u64 option" where
  "curve_real_bits Bls12381 = checked_mul_u64 (field_real_bits Bls12381Base) 2"
| "curve_real_bits Curve25519 = checked_mul_u64 (field_real_bits Curve25519Base) 2"
| "curve_real_bits Pallas = checked_mul_u64 (field_real_bits PallasBase) 2"
| "curve_real_bits Vesta = checked_mul_u64 (field_real_bits PallasScalar) 2"

definition curve_align :: "AbiAndPrefAlign option" where
  "curve_align = map_option aap_new (unwrap_align (align_from_bytes 0))"

subsection \<open>Primitives and vectors\<close>

datatype Primitive = IntP Integer bool | F32 | F64 | Pointer AddressSpace

fun primitive_size :: "Primitive \<Rightarrow> TargetDataLayout \<Rightarrow> Size" where
  "primitive_size (IntP i s) dl = integer_size i"
| "primitive_size F32 dl = size_from_bits 32"
| "primitive_size F64 dl = size_from_bits 64"
| "primitive_size (Pointer a) dl = pointer_size dl"

fun primitive_align :: "Primitive \<Rightarrow> TargetDataLayout \<Rightarrow> AbiAndPrefAlign" where
  "primitive_align (IntP i s) dl = integer_align i dl"
| "primitive_align F32 dl = f32_align dl"
| "primitive_align F64 dl = f64_align dl"
| "primitive_align (Pointer a) dl = pointer_align dl"

text \<open>\<open>u64::next_power_of_two\<close>: a panic when the power does not fit.\<close>

definition next_power_of_two :: "u64 \<Rightarrow> u64 option" where
  "next_power_of_two w =
     (case find (\<lambda>p. unat w \<le> 2 ^ p) [0..<64] of None \<Rightarrow> None | Some p \<Rightarrow> Some (push_bit p 1))"

definition vector_align_of :: "TargetDataLayout \<Rightarrow> Size \<Rightarrow> AbiAndPrefAlign option" where
  "vector_align_of dl vec_size =
     (case find (\<lambda>(sz, align). sz = vec_size) (vector_align dl) of
        Some (sz, align) \<Rightarrow> Some align
      | None \<Rightarrow> do {
          n \<leftarrow> next_power_of_two (raw vec_size);
          a \<leftarrow> unwrap_align (align_from_bytes n);
          Some (aap_new a)
        })"

text \<open>\<open>TargetDataLayout::default\<close>.\<close>

definition dl_default :: "TargetDataLayout option" where
  "dl_default = do {
     let align = (\<lambda>bits. unwrap_align (align_from_bits bits));
     a0 \<leftarrow> align 0;
     a8 \<leftarrow> align 8;
     a16 \<leftarrow> align 16;
     a32 \<leftarrow> align 32;
     a64 \<leftarrow> align 64;
     a128 \<leftarrow> align 128;
     Some \<lparr>endian = Big, i1_align = aap_new a8, i8_align = aap_new a8, i16_align = aap_new a16, i32_align = aap_new a32,
       i64_align = \<lparr>abi = a32, pref = a64\<rparr>, i128_align = \<lparr>abi = a32, pref = a64\<rparr>, f32_align = aap_new a32, f64_align = aap_new a64,
       pointer_size = size_from_bits 64, pointer_align = aap_new a64, aggregate_align = \<lparr>abi = a0, pref = a64\<rparr>,
       vector_align = [(size_from_bits 64, aap_new a64), (size_from_bits 128, aap_new a128)],
       instruction_address_space = DATA, c_enum_min_size = I32\<rparr>
   }"

subsection \<open>Sizes of the types\<close>

lemma raw_size_from_bytes [simp]: "raw (size_from_bytes b) = b"
  by (simp add: size_from_bytes_def)

definition integer_bits :: "Integer \<Rightarrow> nat" where
  "integer_bits i = (case i of I8 \<Rightarrow> 8 | I16 \<Rightarrow> 16 | I32 \<Rightarrow> 32 | I64 \<Rightarrow> 64 | I128 \<Rightarrow> 128)"

lemma integer_size_bits: "size_bits (integer_size i) = Some (of_nat (integer_bits i))"
  by (cases i) (simp_all add: size_bits_def checked_mul_u64_def integer_bits_def)

lemma integer_from_size_inverse:
  "integer_from_size (integer_size i) = Some (Inr i)"
  "integer_from_size s = Some (Inr i) \<Longrightarrow> integer_size i = s"
proof -
  show "integer_from_size (integer_size i) = Some (Inr i)"
    unfolding integer_from_size_def integer_size_bits by (cases i) (simp_all add: integer_bits_def)
  assume a: "integer_from_size s = Some (Inr i)"
  then obtain b where b: "size_bits s = Some b" "b = of_nat (integer_bits i)"
    by (auto simp: integer_from_size_def integer_bits_def split: Option.bind_splits if_splits)
  have "unat (raw s) * 8 = unat b" using b(1) unat_mul_u64 [of "raw s" 8 b] by (simp add: size_bits_def)
  then have "unat (raw s) = unat (raw (integer_size i))" unfolding b(2) by (cases i) (simp_all add: integer_bits_def)
  then show "integer_size i = s" by (cases i; cases s) (simp_all add: word_unat_eq_iff size_from_bytes_def)
qed

text \<open>\<open>fit_signed\<close> and \<open>fit_unsigned\<close> return the smallest type that holds the value.\<close>

lemma fit_signed_smallest:
  assumes "- (2 ^ 127) \<le> x" and "x < 2 ^ 127"
  shows "- (2 ^ (integer_bits i - 1)) \<le> x \<and> x < 2 ^ (integer_bits i - 1) \<longleftrightarrow> integer_bits (fit_signed x) \<le> integer_bits i"
  using assms by (cases i) (auto simp: fit_signed_def integer_bits_def)

lemma fit_unsigned_smallest: "unat x < 2 ^ integer_bits i \<longleftrightarrow> integer_bits (fit_unsigned x) \<le> integer_bits i"
  using unsigned_less [where ?'a = nat, of x] by (cases i) (auto simp: fit_unsigned_def integer_bits_def word_le_nat_alt)

text \<open>The sizes of fields and curves are their bits rounded up to bytes.\<close>

lemma field_size_real_bits: "field_size f = size_from_bits (field_real_bits f)"
  by (cases f) (simp_all add: size_from_bits_def size_from_bytes_def)

lemma curve_size_real_bits: "\<exists>b. curve_real_bits c = Some b \<and> curve_size c = Some (size_from_bits b)"
  by (cases c) (simp_all add: checked_mul_u64_def size_mul_def size_from_bits_def size_from_bytes_def)

end
