(* ===== verification/Abi_Niche.thy ===== *)
theory Abi_Niche
  imports Abi_Types
begin

text \<open>
  Valid ranges and niches of \<open>rustc_abi/src/lib.rs\<close>: the wrapping ranges of values a scalar
  can have, and the reservation of values outside of them, with which enum variants are
  encoded. The ranges are compared with arcs on the circle of the values of the scalar.
\<close>

subsection \<open>Ranges and scalars\<close>

record WrappingRange =
  wr_start :: u128
  wr_end :: u128

definition wr_full :: "Size \<Rightarrow> WrappingRange option" where
  "wr_full sz = do { m \<leftarrow> unsigned_int_max sz; Some \<lparr>wr_start = 0, wr_end = m\<rparr> }"

definition wr_contains :: "WrappingRange \<Rightarrow> u128 \<Rightarrow> bool" where
  "wr_contains self v =
     (if wr_start self \<le> wr_end self then wr_start self \<le> v \<and> v \<le> wr_end self
      else wr_start self \<le> v \<or> v \<le> wr_end self)"

definition with_start :: "WrappingRange \<Rightarrow> u128 \<Rightarrow> WrappingRange" where
  "with_start self start = self\<lparr>wr_start := start\<rparr>"

definition with_end :: "WrappingRange \<Rightarrow> u128 \<Rightarrow> WrappingRange" where
  "with_end self end' = self\<lparr>wr_end := end'\<rparr>"

definition is_full_for :: "WrappingRange \<Rightarrow> Size \<Rightarrow> bool option" where
  "is_full_for self sz = do {
     max_value \<leftarrow> unsigned_int_max sz;
     rassert (wr_start self \<le> max_value \<and> wr_end self \<le> max_value);
     Some (wr_start self = ((wr_end self + 1) AND max_value))
   }"

datatype Scalar = Initialized Primitive WrappingRange | UnionScalar Primitive

fun scalar_is_bool :: "Scalar \<Rightarrow> bool" where
  "scalar_is_bool (Initialized value valid_range) \<longleftrightarrow> value = IntP I8 False \<and> valid_range = \<lparr>wr_start = 0, wr_end = 1\<rparr>"
| "scalar_is_bool (UnionScalar value) \<longleftrightarrow> False"

fun primitive_of :: "Scalar \<Rightarrow> Primitive" where
  "primitive_of (Initialized value valid_range) = value"
| "primitive_of (UnionScalar value) = value"

definition scalar_align :: "Scalar \<Rightarrow> TargetDataLayout \<Rightarrow> AbiAndPrefAlign" where
  "scalar_align self cx = primitive_align (primitive_of self) cx"

definition scalar_size :: "Scalar \<Rightarrow> TargetDataLayout \<Rightarrow> Size" where
  "scalar_size self cx = primitive_size (primitive_of self) cx"

definition scalar_to_union :: "Scalar \<Rightarrow> Scalar" where
  "scalar_to_union self = UnionScalar (primitive_of self)"

fun scalar_valid_range :: "Scalar \<Rightarrow> TargetDataLayout \<Rightarrow> WrappingRange option" where
  "scalar_valid_range (Initialized value valid_range) cx = Some valid_range"
| "scalar_valid_range (UnionScalar value) cx = wr_full (primitive_size value cx)"

fun valid_range_mut :: "Scalar \<Rightarrow> WrappingRange option" where
  "valid_range_mut (Initialized value valid_range) = Some valid_range"
| "valid_range_mut (UnionScalar value) = None"

fun is_always_valid :: "Scalar \<Rightarrow> TargetDataLayout \<Rightarrow> bool option" where
  "is_always_valid (Initialized value valid_range) cx = is_full_for valid_range (primitive_size value cx)"
| "is_always_valid (UnionScalar value) cx = Some True"

fun is_uninit_valid :: "Scalar \<Rightarrow> bool" where
  "is_uninit_valid (Initialized value valid_range) = False"
| "is_uninit_valid (UnionScalar value) = True"

subsection \<open>Niches\<close>

record Niche =
  niche_offset :: Size
  niche_value :: Primitive
  niche_valid_range :: WrappingRange

definition niche_available :: "Niche \<Rightarrow> TargetDataLayout \<Rightarrow> u128 option" where
  "niche_available self cx = do {
     let v = niche_valid_range self;
     let sz = primitive_size (niche_value self) cx;
     bits \<leftarrow> size_bits sz;
     rassert (bits \<le> 128);
     max_value \<leftarrow> unsigned_int_max sz;
     let niche_start = wr_end v + 1;
     let niche_end = wr_start v;
     Some ((niche_end - niche_start) AND max_value)
   }"

fun niche_from_scalar :: "TargetDataLayout \<Rightarrow> Size \<Rightarrow> Scalar \<Rightarrow> Niche option option" where
  "niche_from_scalar cx offset (Initialized value valid_range) = do {
     let niche = \<lparr>niche_offset = offset, niche_value = value, niche_valid_range = valid_range\<rparr>;
     available \<leftarrow> niche_available niche cx;
     Some (if available > 0 then Some niche else None)
   }"
| "niche_from_scalar cx offset (UnionScalar value) = Some None"

definition move_start :: "Primitive \<Rightarrow> u128 \<Rightarrow> u128 \<Rightarrow> WrappingRange \<Rightarrow> u128 \<times> Scalar" where
  "move_start value max_value count v =
     (let start = (wr_start v - count) AND max_value in (start, Initialized value (with_start v start)))"

definition move_end :: "Primitive \<Rightarrow> u128 \<Rightarrow> u128 \<Rightarrow> WrappingRange \<Rightarrow> u128 \<times> Scalar" where
  "move_end value max_value count v =
     (let start = (wr_end v + 1) AND max_value;
          end' = (wr_end v + count) AND max_value
      in (start, Initialized value (with_end v end')))"

definition niche_reserve :: "Niche \<Rightarrow> TargetDataLayout \<Rightarrow> u128 \<Rightarrow> (u128 \<times> Scalar) option option" where
  "niche_reserve self cx count = do {
     rassert (count > 0);
     let value = niche_value self;
     let v = niche_valid_range self;
     let sz = primitive_size value cx;
     bits \<leftarrow> size_bits sz;
     rassert (bits \<le> 128);
     max_value \<leftarrow> unsigned_int_max sz;
     let niche_start = wr_end v + 1;
     let niche_end = wr_start v;
     let available = (niche_end - niche_start) AND max_value;
     if count > available then Some None
     else do {
       rassert (wr_end v \<le> max_value);
       let distance_end_zero = max_value - wr_end v;
       Some (Some (
         if wr_start v > wr_end v then move_end value max_value count v
         else if wr_start v \<le> distance_end_zero then
           (if count \<le> wr_start v then move_start value max_value count v
            else move_end value max_value count v)
         else
           let end' = (wr_end v + count) AND max_value;
               overshot_zero = (1 \<le> end' \<and> end' \<le> wr_end v)
           in if overshot_zero then move_start value max_value count v
              else move_end value max_value count v))
     }
   }"

subsection \<open>Arcs\<close>

text \<open>The values from \<open>s\<close> round to \<open>e\<close>, on the circle of the numbers below \<open>N\<close>.\<close>

definition arc :: "int \<Rightarrow> int \<Rightarrow> int \<Rightarrow> int \<Rightarrow> bool" where
  "arc N s e x \<longleftrightarrow> (x - s) mod N \<le> (e - s) mod N"

lemma diff_mod_cases:
  fixes a b N :: int
  assumes "0 \<le> a" "a < N" "0 \<le> b" "b < N"
  shows "(a - b) mod N = (if b \<le> a then a - b else a - b + N)"
proof (cases "b \<le> a")
  case False
  have "(a - b) mod N = (a - b + N) mod N" by simp
  also have "\<dots> = a - b + N" using False assms by (intro mod_pos_pos_trivial) auto
  finally show ?thesis using False by simp
qed (use assms in \<open>simp add: mod_pos_pos_trivial\<close>)

lemma contains_arc:
  assumes "0 \<le> s" "s < N" "0 \<le> e" "e < N" "0 \<le> x" "x < N"
  shows "(if s \<le> e then s \<le> x \<and> x \<le> e else s \<le> x \<or> x \<le> e) \<longleftrightarrow> arc N s e x"
  using assms unfolding arc_def by (simp add: diff_mod_cases)

text \<open>Moving a bound by \<open>c\<close> adds the \<open>c\<close> values next to it, when there are as many outside.\<close>

lemma arc_add_mod:
  fixes c N :: int
  assumes "0 < N" "0 \<le> c" "(e - s) mod N + c < N"
  shows "(e + c - s) mod N = (e - s) mod N + c"
proof -
  have "(e + c - s) mod N = ((e - s) mod N + c) mod N" by (simp add: mod_simps algebra_simps)
  then show ?thesis using assms pos_mod_sign [OF assms(1), of "e - s"] by (simp add: mod_pos_pos_trivial)
qed

lemma arc_end_block:
  fixes N :: int
  assumes "0 < N" "(e - s) mod N + c < N" "0 \<le> i" "i < c"
  shows "((e + 1 + i) mod N - s) mod N = (e - s) mod N + 1 + i"
  using arc_add_mod [of N "1 + i" e s] assms by (simp add: mod_simps algebra_simps)

lemma arc_extend_end:
  assumes N: "0 < N" and c: "0 \<le> c" "(e - s) mod N + c < N" and x: "0 \<le> x" "x < N"
  shows "arc N s ((e + c) mod N) x \<longleftrightarrow> arc N s e x \<or> (\<exists>i. 0 \<le> i \<and> i < c \<and> x = (e + 1 + i) mod N)"
proof -
  let ?L = "(e - s) mod N" and ?d = "(x - s) mod N"
  have new: "arc N s ((e + c) mod N) x \<longleftrightarrow> ?d \<le> ?L + c"
    using arc_add_mod [OF N c] by (simp add: arc_def mod_simps)
  have "\<exists>i. 0 \<le> i \<and> i < c \<and> x = (e + 1 + i) mod N" if "?L < ?d" "?d \<le> ?L + c"
  proof (intro exI conjI)
    have "(e + 1 + (?d - ?L - 1)) mod N = (e + (x - s) - (e - s)) mod N" by (simp add: mod_simps algebra_simps)
    then show "x = (e + 1 + (?d - ?L - 1)) mod N" using x by (simp add: mod_pos_pos_trivial)
  qed (use that in auto)
  moreover have "?d \<le> ?L + c" if "x = (e + 1 + i) mod N" "0 \<le> i" "i < c" for i
    using arc_end_block [OF N c(2) that(2,3)] that by simp
  ultimately show ?thesis unfolding new using c(1) unfolding arc_def by fastforce
qed

lemma arc_extend_start:
  assumes N: "0 < N" and c: "0 \<le> c" "(e - s) mod N + c < N" and x: "0 \<le> x" "x < N"
  shows "arc N ((s - c) mod N) e x \<longleftrightarrow> arc N s e x \<or> (\<exists>i. 0 \<le> i \<and> i < c \<and> x = ((s - c) mod N + i) mod N)"
proof -
  let ?L = "(e - s) mod N" and ?d = "(x - s) mod N" and ?t = "(s - c) mod N"
  let ?d' = "(x - ?t) mod N"
  have L: "(e - ?t) mod N = ?L + c" using arc_add_mod [OF N c] by (simp add: mod_simps algebra_simps)
  have d': "0 \<le> ?d'" "?d' < N" using N by simp_all
  have "c \<le> N" using c(2) pos_mod_sign [OF N, of "e - s"] by linarith
  have d: "?d = (?d' - c) mod N" by (simp add: mod_simps algebra_simps)
  have small: "?d = ?d' - c + N" if "?d' < c"
  proof -
    have "(?d' - c) mod N = (?d' - c + N) mod N" by simp
    also have "\<dots> = ?d' - c + N" using that d' \<open>c \<le> N\<close> by (intro mod_pos_pos_trivial) linarith+
    finally show ?thesis using d by simp
  qed
  have big: "?d = ?d' - c" if "c \<le> ?d'" using that d' c(1) unfolding d by (intro mod_pos_pos_trivial) linarith+
  have "x = (?t + ?d') mod N" using x by (simp add: mod_simps mod_pos_pos_trivial)
  moreover have "?d' = i" if "x = (?t + i) mod N" "0 \<le> i" "i < c" for i
    using that \<open>c \<le> N\<close> by (simp add: mod_simps mod_pos_pos_trivial)
  ultimately have block: "(\<exists>i. 0 \<le> i \<and> i < c \<and> x = (?t + i) mod N) \<longleftrightarrow> ?d' < c" using d'(1) by metis
  have "0 \<le> ?L" using N by simp
  then show ?thesis unfolding block arc_def L using small big c d' by (cases "?d' < c") linarith+
qed

lemma arc_start_block:
  assumes N: "0 < N" and c: "(e - s) mod N + c < N" and i: "0 \<le> i" "i < c"
  shows "\<not> arc N s e (((s - c) mod N + i) mod N)"
proof -
  have "0 \<le> (e - s) mod N" using N by simp
  then have "(((s - c) mod N + i) mod N - s) mod N = (i - c + N) mod N" by (simp add: mod_simps)
  also have "\<dots> = i - c + N" using c i \<open>0 \<le> (e - s) mod N\<close> by (intro mod_pos_pos_trivial) linarith+
  finally show ?thesis using c i unfolding arc_def by linarith
qed

lemma arc_outside:
  fixes N :: int
  assumes "0 < N"
  shows "(s - (e + 1)) mod N = N - 1 - (e - s) mod N"
proof -
  have "(s - (e + 1)) mod N = (N - 1 - (e - s) mod N) mod N" by (simp add: mod_simps algebra_simps)
  also have "\<dots> = N - 1 - (e - s) mod N"
    using assms pos_mod_sign [OF assms, of "e - s"] pos_mod_bound [OF assms, of "e - s"] by (intro mod_pos_pos_trivial) linarith+
  finally show ?thesis .
qed

subsection \<open>Ranges as arcs\<close>

lemma uint_and_mask_u128: "uint (w AND mask n :: u128) = uint w mod 2 ^ n"
  unfolding take_bit_eq_mask [symmetric] unsigned_take_bit_eq by (rule take_bit_eq_mod)

lemma mod_mod_128: "n \<le> 128 \<Longrightarrow> z mod 2 ^ 128 mod 2 ^ n = z mod (2 ^ n :: int)"
  by (rule mod_mod_cancel) (rule le_imp_power_dvd)

lemma uint_add_mask: "n \<le> 128 \<Longrightarrow> uint ((a + b) AND mask n :: u128) = (uint a + uint b) mod 2 ^ n"
  unfolding uint_and_mask_u128 uint_word_ariths using mod_mod_128 [of n] by simp

lemma uint_diff_mask: "n \<le> 128 \<Longrightarrow> uint ((a - b) AND mask n :: u128) = (uint a - uint b) mod 2 ^ n"
  unfolding uint_and_mask_u128 uint_word_ariths using mod_mod_128 [of n] by simp

lemma le_mask_iff: "n \<le> 128 \<Longrightarrow> w \<le> (mask n :: u128) \<longleftrightarrow> uint w < 2 ^ n"
proof -
  assume n: "n \<le> 128"
  have "int (unat (mask n :: u128)) = 2 ^ n - 1" unfolding unat_mask_u128 [OF n] by (simp add: of_nat_diff)
  then have "uint (mask n :: u128) = 2 ^ n - 1" unfolding uint_nat .
  then show ?thesis unfolding word_le_def by linarith
qed

definition wr_ok :: "nat \<Rightarrow> WrappingRange \<Rightarrow> bool" where
  "wr_ok n v \<longleftrightarrow> wr_start v \<le> mask n \<and> wr_end v \<le> mask n"

lemma wr_contains_arc:
  assumes "n \<le> 128" and "wr_ok n v" and "x \<le> mask n"
  shows "wr_contains v x \<longleftrightarrow> arc (2 ^ n) (uint (wr_start v)) (uint (wr_end v)) (uint x)"
proof -
  have "uint (wr_start v) < 2 ^ n" "uint (wr_end v) < 2 ^ n" "uint x < 2 ^ n"
    using assms le_mask_iff [OF assms(1)] by (simp_all add: wr_ok_def)
  from contains_arc [OF _ this(1) _ this(2) _ this(3)] show ?thesis unfolding wr_contains_def word_le_def by simp
qed

text \<open>The number of values outside a range, and the values that follow its end.\<close>

definition outside :: "nat \<Rightarrow> WrappingRange \<Rightarrow> int" where
  "outside n v = 2 ^ n - 1 - (uint (wr_end v) - uint (wr_start v)) mod 2 ^ n"

lemma outside_word:
  assumes "n \<le> 128"
  shows "uint ((wr_start v - (wr_end v + 1)) AND mask n) = outside n v"
proof -
  have "uint ((wr_start v - (wr_end v + 1)) AND mask n) = (uint (wr_start v) - uint (wr_end v + 1)) mod 2 ^ n"
    by (rule uint_diff_mask [OF assms])
  also have "\<dots> = (uint (wr_start v) - (uint (wr_end v) + 1) mod 2 ^ 128 mod 2 ^ n) mod 2 ^ n"
    by (simp add: uint_word_ariths mod_simps)
  also have "\<dots> = (uint (wr_start v) - (uint (wr_end v) + 1)) mod 2 ^ n" unfolding mod_mod_128 [OF assms] by (rule mod_diff_right_eq)
  finally show ?thesis using arc_outside [of "2 ^ n"] by (simp add: outside_def)
qed

lemma outside_card:
  assumes n: "n \<le> 128" and v: "wr_ok n v"
  shows "int (card {x. x \<le> mask n \<and> \<not> wr_contains v x}) = outside n v"
proof -
  let ?N = "2 ^ n :: int" and ?s = "uint (wr_start v)" and ?e = "uint (wr_end v)"
  let ?f = "\<lambda>i. word_of_int ((?e + 1 + i) mod ?N) :: u128"
  have N: "0 < ?N" "?N \<le> 2 ^ 128" using n power_increasing [of n 128 "2 :: int"] by simp_all
  have f: "uint (?f i) = (?e + 1 + i) mod ?N" for i
  proof -
    have "(?e + 1 + i) mod ?N < 2 ^ 128" using N(2) pos_mod_bound [OF N(1), of "?e + 1 + i"] by linarith
    then show ?thesis unfolding uint_word_of_int using N(1) by (intro mod_pos_pos_trivial) simp_all
  qed
  have L: "(?e - ?s) mod ?N + outside n v < ?N" "0 \<le> outside n v"
    using pos_mod_bound [OF N(1), of "?e - ?s"] by (simp_all add: outside_def)
  have "{x. x \<le> mask n \<and> \<not> wr_contains v x} = ?f ` {0..<outside n v}"
  proof (intro equalityI subsetI)
    fix x assume "x \<in> {x. x \<le> mask n \<and> \<not> wr_contains v x}"
    then have x: "uint x < ?N" "\<not> arc ?N ?s ?e (uint x)" using wr_contains_arc [OF n v] le_mask_iff [OF n] by auto
    have "arc ?N ?s ((?e + outside n v) mod ?N) (uint x)"
      using arc_add_mod [OF N(1) L(2,1)] pos_mod_bound [OF N(1), of "uint x - ?s"] by (simp add: arc_def mod_simps outside_def)
    then obtain i where i: "0 \<le> i" "i < outside n v" "uint x = (?e + 1 + i) mod ?N"
      using arc_extend_end [OF N(1) L(2,1) _ x(1)] x(2) by auto
    have "x = ?f i" unfolding i(3) [symmetric] by simp
    then show "x \<in> ?f ` {0..<outside n v}" by (rule image_eqI) (use i in simp)
  next
    fix x assume "x \<in> ?f ` {0..<outside n v}"
    then obtain i where i: "0 \<le> i" "i < outside n v" "x = ?f i" by auto
    have "x \<le> mask n" using f [of i] N unfolding i(3) le_mask_iff [OF n] by simp
    moreover have "\<not> arc ?N ?s ?e (uint x)" using arc_end_block [OF N(1) L(1) i(1,2)] i unfolding i(3) f arc_def by simp
    ultimately show "x \<in> {x. x \<le> mask n \<and> \<not> wr_contains v x}" using wr_contains_arc [OF n v] by simp
  qed
  moreover have "inj_on ?f {0..<outside n v}"
  proof (rule inj_onI)
    fix i j assume ij: "i \<in> {0..<outside n v}" "j \<in> {0..<outside n v}" "?f i = ?f j"
    then have i: "0 \<le> i" "i < outside n v" and j: "0 \<le> j" "j < outside n v" by auto
    have "uint (?f i) = uint (?f j)" by (rule arg_cong [OF ij(3)])
    then have eq: "(?e + 1 + i) mod ?N = (?e + 1 + j) mod ?N" unfolding f .
    show "i = j" using arc_end_block [OF N(1) L(1) i] arc_end_block [OF N(1) L(1) j] unfolding eq by linarith
  qed
  ultimately show ?thesis using L(2) by (simp add: card_image)
qed

subsection \<open>Reserving values\<close>

text \<open>
  The range \<open>v'\<close> is \<open>v\<close> and a block of \<open>count\<close> values from \<open>start\<close> on, which lies outside of \<open>v\<close>.
\<close>

definition extends :: "nat \<Rightarrow> u128 \<Rightarrow> WrappingRange \<Rightarrow> u128 \<Rightarrow> WrappingRange \<Rightarrow> bool" where
  "extends n count v start v' \<longleftrightarrow> wr_ok n v' \<and> start \<le> mask n \<and> outside n v' = outside n v - uint count \<and>
     (\<forall>i < count. \<not> wr_contains v ((start + i) AND mask n)) \<and>
     (\<forall>x \<le> mask n. wr_contains v' x \<longleftrightarrow> wr_contains v x \<or> (\<exists>i < count. x = (start + i) AND mask n))"

text \<open>A bound of the indices, as words and as integers.\<close>

lemma ex_less_word: "(\<exists>i < (c :: u128). P (uint i)) \<longleftrightarrow> (\<exists>i. 0 \<le> i \<and> i < uint c \<and> P i)"
proof
  assume "\<exists>i. 0 \<le> i \<and> i < uint c \<and> P i"
  then obtain i where i: "0 \<le> i" "i < uint c" "P i" by blast
  have "i < 2 ^ 128" using i(2) uint_lt2p [of c] by simp
  then have "uint (word_of_int i :: u128) = i" unfolding uint_word_of_int using i(1) by (intro mod_pos_pos_trivial) simp_all
  then show "\<exists>i < c. P (uint i)" using i by (metis word_less_def)
qed (auto simp: word_less_def)

lemma block_eq:
  fixes x :: u128
  assumes "n \<le> 128" and "x \<le> mask n"
  shows "x = (start + i) AND mask n \<longleftrightarrow> uint x = (uint start + uint i) mod 2 ^ n"
  unfolding word_uint_eq_iff uint_add_mask [OF assms(1)] ..

lemma and_mask_le: "w AND mask n \<le> (mask n :: u128)"
  by (rule word_and_le1)

text \<open>The contract of both moves, from the facts on arcs.\<close>

lemma extendsI:
  assumes n: "n \<le> 128" and v: "wr_ok n v" and v': "wr_ok n v'" and start: "start \<le> mask n"
    and len: "(uint (wr_end v') - uint (wr_start v')) mod 2 ^ n = (uint (wr_end v) - uint (wr_start v)) mod 2 ^ n + uint count"
    and out: "\<And>i. 0 \<le> i \<Longrightarrow> i < uint count \<Longrightarrow> \<not> arc (2 ^ n) (uint (wr_start v)) (uint (wr_end v)) ((uint start + i) mod 2 ^ n)"
    and mem: "\<And>x. 0 \<le> x \<Longrightarrow> x < 2 ^ n \<Longrightarrow> arc (2 ^ n) (uint (wr_start v')) (uint (wr_end v')) x \<longleftrightarrow>
      arc (2 ^ n) (uint (wr_start v)) (uint (wr_end v)) x \<or> (\<exists>i. 0 \<le> i \<and> i < uint count \<and> x = (uint start + i) mod 2 ^ n)"
  shows "extends n count v start v'"
proof -
  have "\<not> wr_contains v ((start + i) AND mask n)" if "i < count" for i
    using out [of "uint i"] that wr_contains_arc [OF n v and_mask_le] by (simp add: uint_add_mask [OF n] word_less_def)
  moreover have "wr_contains v' x \<longleftrightarrow> wr_contains v x \<or> (\<exists>i < count. x = (start + i) AND mask n)" if x: "x \<le> mask n" for x
    using mem [of "uint x"] x
    unfolding wr_contains_arc [OF n v x] wr_contains_arc [OF n v' x] block_eq [OF n x] le_mask_iff [OF n]
      ex_less_word [of count "\<lambda>i. uint x = (uint start + i) mod 2 ^ n"] by simp
  ultimately show ?thesis using v' start len by (simp add: extends_def outside_def)
qed

lemma move_end_extends:
  assumes n: "n \<le> 128" and v: "wr_ok n v" and c: "uint count \<le> outside n v"
  shows "extends n count v ((wr_end v + 1) AND mask n) (with_end v ((wr_end v + count) AND mask n))"
proof -
  let ?N = "2 ^ n :: int" and ?s = "uint (wr_start v)" and ?e = "uint (wr_end v)" and ?c = "uint count"
  have N: "0 < ?N" by simp
  have L: "0 \<le> ?c" "(?e - ?s) mod ?N + ?c < ?N" using c by (simp_all add: outside_def)
  have e: "uint ((wr_end v + count) AND mask n) = (?e + ?c) mod ?N" "uint ((wr_end v + 1) AND mask n) = (?e + 1) mod ?N"
    by (simp_all add: uint_add_mask [OF n])
  have st: "((?e + 1) mod ?N + i) mod ?N = (?e + 1 + i) mod ?N" for i by (rule mod_add_left_eq)
  show ?thesis
  proof (rule extendsI [OF n v])
    show "wr_ok n (with_end v ((wr_end v + count) AND mask n))" using v and_mask_le by (simp add: wr_ok_def with_end_def)
  qed (use arc_add_mod [OF N L] arc_end_block [OF N L(2)] arc_extend_end [OF N L] and_mask_le in
    \<open>simp_all add: with_end_def e st mod_diff_left_eq arc_def [of ?N ?s ?e]\<close>)
qed

lemma move_start_extends:
  assumes n: "n \<le> 128" and v: "wr_ok n v" and c: "uint count \<le> outside n v"
  shows "extends n count v ((wr_start v - count) AND mask n) (with_start v ((wr_start v - count) AND mask n))"
proof -
  let ?N = "2 ^ n :: int" and ?s = "uint (wr_start v)" and ?e = "uint (wr_end v)" and ?c = "uint count"
  have N: "0 < ?N" by simp
  have L: "0 \<le> ?c" "(?e - ?s) mod ?N + ?c < ?N" using c by (simp_all add: outside_def)
  have s: "uint ((wr_start v - count) AND mask n) = (?s - ?c) mod ?N" by (rule uint_diff_mask [OF n])
  have "(?e - (?s - ?c) mod ?N) mod ?N = (?e + ?c - ?s) mod ?N" by (simp add: mod_simps algebra_simps)
  then have len: "(?e - (?s - ?c) mod ?N) mod ?N = (?e - ?s) mod ?N + ?c" using arc_add_mod [OF N L] by simp
  show ?thesis
  proof (rule extendsI [OF n v])
    show "wr_ok n (with_start v ((wr_start v - count) AND mask n))" using v and_mask_le by (simp add: wr_ok_def with_start_def)
  qed (use len arc_start_block [OF N L(2)] arc_extend_start [OF N L] and_mask_le in \<open>simp_all add: with_start_def s\<close>)
qed

lemma niche_max:
  assumes "size_bits (primitive_size p cx) = Some b" and "0 < unat b" and "unat b \<le> 128"
  shows "unsigned_int_max (primitive_size p cx) = Some (mask (unat b))" and "b \<le> 128"
  using int_bounds(3) [OF assms] assms(3) by (simp_all add: word_le_nat_alt)

lemma niche_available_outside:
  assumes "size_bits (primitive_size (niche_value niche) cx) = Some b" and "0 < unat b" and "unat b \<le> 128"
  shows "\<exists>av. niche_available niche cx = Some av \<and> uint av = outside (unat b) (niche_valid_range niche)"
  using niche_max [OF assms] assms(1) outside_word [OF assms(3)] by (simp add: niche_available_def Let_def)

lemma niche_reserve_cases:
  assumes "size_bits (primitive_size (niche_value niche) cx) = Some b" and "b \<le> 128"
    and "unsigned_int_max (primitive_size (niche_value niche) cx) = Some m"
    and "wr_end (niche_valid_range niche) \<le> m" and "0 < count" and "niche_available niche cx = Some av"
  shows "if count > av then niche_reserve niche cx count = Some None
    else niche_reserve niche cx count = Some (Some (move_start (niche_value niche) m count (niche_valid_range niche))) \<or>
      niche_reserve niche cx count = Some (Some (move_end (niche_value niche) m count (niche_valid_range niche)))"
proof -
  have t: "rassert (b \<le> 128) = Some ()" "rassert (0 < count) = Some ()" "rassert (wr_end (niche_valid_range niche) \<le> m) = Some ()"
    using assms(2,4,5) by simp_all
  have av: "(wr_start (niche_valid_range niche) - (wr_end (niche_valid_range niche) + 1)) AND m = av"
    using assms(6) unfolding niche_available_def Let_def assms(1,3) t Option.bind.bind_lunit by simp
  show ?thesis
    unfolding niche_reserve_def Let_def assms(1,3) t Option.bind.bind_lunit av
    by (cases "count > av") (simp_all only: if_True if_False option.inject simp_thms split: if_split)
qed

lemma niche_reserve_spec:
  assumes "size_bits (primitive_size (niche_value niche) cx) = Some b" and "0 < unat b" and "unat b \<le> 128"
    and "v = niche_valid_range niche" and "max_value = mask (unat b)"
    and "wr_start v \<le> max_value" and "wr_end v \<le> max_value" and "0 < count"
  shows "\<exists>av. niche_available niche cx = Some av \<and>
    unat av = card {x. x \<le> max_value \<and> \<not> wr_contains v x} \<and>
    (if count > av then niche_reserve niche cx count = Some None
     else \<exists>start v'. niche_reserve niche cx count = Some (Some (start, Initialized (niche_value niche) v')) \<and>
       wr_start v' \<le> max_value \<and> wr_end v' \<le> max_value \<and>
       (\<forall>i < count. \<not> wr_contains v ((start + i) AND max_value)) \<and>
       (\<forall>x \<le> max_value. wr_contains v' x \<longleftrightarrow> wr_contains v x \<or> (\<exists>i < count. x = (start + i) AND max_value)) \<and>
       niche_available (niche\<lparr>niche_valid_range := v'\<rparr>) cx = Some (av - count))"
proof -
  let ?n = "unat b" and ?p = "niche_value niche"
  note mx = niche_max [OF assms(1-3)]
  have ok: "wr_ok ?n v" using assms(5-7) by (simp add: wr_ok_def)
  obtain av where av: "niche_available niche cx = Some av" "uint av = outside ?n v"
    using niche_available_outside [OF assms(1-3)] assms(4) by blast
  have "int (unat av) = int (card {x. x \<le> max_value \<and> \<not> wr_contains v x})"
    unfolding uint_nat [symmetric] av(2) assms(5) by (rule outside_card [OF assms(3) ok, symmetric])
  then have card: "unat av = card {x. x \<le> max_value \<and> \<not> wr_contains v x}" by (rule of_nat_eq_iff [THEN iffD1])
  note cases = niche_reserve_cases [OF assms(1) mx(2,1) _ assms(8) av(1), folded assms(4,5), OF assms(7)]
  show ?thesis
  proof (cases "count > av")
    case True
    then show ?thesis using av(1) card cases by simp
  next
    case False
    then have c: "uint count \<le> outside ?n v" using av(2) by (simp add: word_less_def)
    obtain r where r: "niche_reserve niche cx count = Some (Some r)" "r = move_start ?p max_value count v \<or> r = move_end ?p max_value count v"
      using cases unfolding if_not_P [OF False] by blast
    then obtain start v' where ext: "r = (start, Initialized ?p v')" "extends ?n count v start v'"
      using move_start_extends [OF assms(3) ok c] move_end_extends [OF assms(3) ok c]
      by (auto simp: move_start_def move_end_def Let_def assms(5))
    obtain av' where av': "niche_available (niche\<lparr>niche_valid_range := v'\<rparr>) cx = Some av'" "uint av' = outside ?n v'"
      using niche_available_outside [of "niche\<lparr>niche_valid_range := v'\<rparr>" cx b] assms(1-3) by auto
    have "uint (av - count) = outside ?n v - uint count" using c av(2) uint_sub_lem [of count av] by simp
    then have "av' = av - count" using av'(2) ext(2) by (simp add: word_uint_eq_iff extends_def)
    then show ?thesis
      using False av(1) card r(1) ext av'(1) unfolding extends_def wr_ok_def assms(5) [symmetric] by auto
  qed
qed

text \<open>
  C17: reserving values in a niche. For a scalar of 1 to 128 bits with a valid range inside
  its values, \<open>available\<close> is the number of values outside the range. Reserving \<open>count\<close> of
  them fails exactly when there are fewer. Otherwise it returns a block of \<open>count\<close>
  consecutive values, wrapping around at the end, none of which was valid, and a scalar
  whose valid values are the old ones and the block; \<open>count\<close> values fewer are then
  available. The choice of the bound to move does not matter for this.
\<close>

theorem niche_reserve_exact:
  assumes "size_bits (primitive_size (niche_value niche) cx) = Some b" and "0 < unat b" and "unat b \<le> 128"
    and "v = niche_valid_range niche" and "max_value = mask (unat b)"
    and "wr_start v \<le> max_value" and "wr_end v \<le> max_value" and "0 < count"
  shows "\<exists>av. niche_available niche cx = Some av \<and>
    unat av = card {x. x \<le> max_value \<and> \<not> wr_contains v x} \<and>
    (if count > av then niche_reserve niche cx count = Some None
     else \<exists>start v'. niche_reserve niche cx count = Some (Some (start, Initialized (niche_value niche) v')) \<and>
       wr_start v' \<le> max_value \<and> wr_end v' \<le> max_value \<and>
       (\<forall>i < count. \<not> wr_contains v ((start + i) AND max_value)) \<and>
       (\<forall>x \<le> max_value. wr_contains v' x \<longleftrightarrow> wr_contains v x \<or> (\<exists>i < count. x = (start + i) AND max_value)) \<and>
       niche_available (niche\<lparr>niche_valid_range := v'\<rparr>) cx = Some (av - count))"
  by (rule niche_reserve_spec [OF assms])

theorem niche_reserve_exact_witness:
  "\<forall>cx. \<exists>start v'. niche_reserve \<lparr>niche_offset = ZERO, niche_value = IntP I8 False, niche_valid_range = \<lparr>wr_start = 0, wr_end = 1\<rparr>\<rparr> cx 2 =
      Some (Some (start, Initialized (IntP I8 False) v')) \<and> wr_contains v' 0 \<and> start \<noteq> 0"
proof
  fix cx
  let ?niche = "\<lparr>niche_offset = ZERO, niche_value = IntP I8 False, niche_valid_range = \<lparr>wr_start = 0, wr_end = 1\<rparr>\<rparr>"
  have b: "size_bits (size_from_bytes 1) = Some 8" by (simp add: size_bits_def checked_mul_u64_def)
  have m: "unsigned_int_max (size_from_bytes 1) = Some 0xFF" using int_bounds(3) [OF b] by (simp add: mask_eq_decr_exp)
  have av: "niche_available ?niche cx = Some 0xFE" by (simp add: niche_available_def Let_def b m)
  have b': "size_bits (primitive_size (niche_value ?niche) cx) = Some 8" by (simp add: b)
  have m': "(0xFF :: u128) = mask (unat (8 :: u64))" by (simp add: mask_eq_decr_exp)
  obtain start v' where r: "niche_reserve ?niche cx 2 = Some (Some (start, Initialized (IntP I8 False) v'))"
    and out: "\<forall>i < 2. \<not> wr_contains \<lparr>wr_start = 0, wr_end = 1\<rparr> ((start + i) AND 0xFF)"
    and mem: "\<forall>x \<le> 0xFF. wr_contains v' x \<longleftrightarrow> wr_contains \<lparr>wr_start = 0, wr_end = 1\<rparr> x \<or> (\<exists>i < 2. x = (start + i) AND 0xFF)"
    using niche_reserve_exact [OF b' _ _ refl m', of 2] av by auto
  have "wr_contains v' 0" using mem [rule_format, of 0] by (simp add: wr_contains_def)
  moreover have "start \<noteq> 0" using out [rule_format, of 0] by (auto simp: wr_contains_def)
  ultimately show "\<exists>start v'. niche_reserve ?niche cx 2 = Some (Some (start, Initialized (IntP I8 False) v')) \<and> wr_contains v' 0 \<and> start \<noteq> 0"
    using r by blast
qed

end
