(* ===== verification/Abi_Layout.thy ===== *)
theory Abi_Layout
  imports Abi_Niche Index_Vec
begin

text \<open>
  Shapes and ABI classes of \<open>rustc_abi/src/lib.rs\<close>: where the fields of a type lie, the order
  of the fields in memory, and the size and alignment that the class of a type mandates.
\<close>

subsection \<open>Fields\<close>

datatype FieldsShape =
    PrimitiveShape
  | UnionShape nat
  | ArrayShape Size u64
  | Arbitrary "Size list" "nat list"

fun fields_count :: "FieldsShape \<Rightarrow> nat" where
  "fields_count PrimitiveShape = 0"
| "fields_count (UnionShape count) = count"
| "fields_count (ArrayShape stride count) = unat count"
| "fields_count (Arbitrary offsets memory_index) = length offsets"

text \<open>\<open>FieldIdx::from_usize\<close>: the index newtypes leave room at the top of \<open>u32\<close>.\<close>

definition field_idx :: "nat \<Rightarrow> nat option" where
  "field_idx i = (if i \<le> 0xFFFFFF00 then Some i else None)"

fun fields_offset :: "FieldsShape \<Rightarrow> nat \<Rightarrow> Size option" where
  "fields_offset PrimitiveShape i = None"
| "fields_offset (UnionShape count) i = do { rassert (i < count); Some ZERO }"
| "fields_offset (ArrayShape stride count) i = do { rassert (i < unat count); size_mul stride (of_nat i) }"
| "fields_offset (Arbitrary offsets memory_index) i = do { i \<leftarrow> field_idx i; idx offsets i }"

fun memory_index_of :: "FieldsShape \<Rightarrow> nat \<Rightarrow> nat option" where
  "memory_index_of PrimitiveShape i = None"
| "memory_index_of (UnionShape count) i = Some i"
| "memory_index_of (ArrayShape stride count) i = Some i"
| "memory_index_of (Arbitrary offsets memory_index) i = do { i \<leftarrow> field_idx i; idx memory_index i }"

definition inverse_small :: "nat list \<Rightarrow> nat list option" where
  "inverse_small memory_index =
     for_loop (\<lambda>(field_idx, mem_idx) inverse. idx_set inverse mem_idx (field_idx mod 256)) (enumerate 0 memory_index) (replicate 64 0)"

text \<open>The items of the iterator.\<close>

definition index_by_increasing_offset :: "FieldsShape \<Rightarrow> nat list option" where
  "index_by_increasing_offset self =
     (let use_small = (fields_count self \<le> 64) in
      case self of
        Arbitrary offsets memory_index \<Rightarrow>
          if use_small then do {
            small \<leftarrow> inverse_small memory_index;
            those (map (idx small) [0..<fields_count self])
          }
          else do {
            big \<leftarrow> invert_bijective_mapping memory_index;
            those (map (idx big) [0..<fields_count self])
          }
      | _ \<Rightarrow> Some [0..<fields_count self])"

subsection \<open>ABI classes\<close>

datatype Abi =
    Uninhabited
  | AbiScalar Scalar
  | ScalarPair Scalar Scalar
  | Vector Scalar u64
  | Aggregate bool
  | AbiField Field
  | AbiCurve Curve

fun is_unsized :: "Abi \<Rightarrow> bool" where
  "is_unsized (Aggregate sized) = (\<not> sized)"
| "is_unsized _ = False"

definition is_sized :: "Abi \<Rightarrow> bool" where
  "is_sized self = (\<not> is_unsized self)"

fun abi_is_signed :: "Abi \<Rightarrow> bool option" where
  "abi_is_signed (AbiScalar scal) = Some (case primitive_of scal of IntP i sg \<Rightarrow> sg | _ \<Rightarrow> False)"
| "abi_is_signed _ = None"

fun is_uninhabited :: "Abi \<Rightarrow> bool" where
  "is_uninhabited Uninhabited = True"
| "is_uninhabited _ = False"

fun abi_is_scalar :: "Abi \<Rightarrow> bool" where
  "abi_is_scalar (AbiScalar s) = True"
| "abi_is_scalar _ = False"

fun is_field :: "Abi \<Rightarrow> bool" where
  "is_field (AbiField f) = True"
| "is_field _ = False"

fun is_curve :: "Abi \<Rightarrow> bool" where
  "is_curve (AbiCurve c) = True"
| "is_curve _ = False"

text \<open>The outer option is the panic, the inner one the result.\<close>

fun inherent_align :: "Abi \<Rightarrow> TargetDataLayout \<Rightarrow> AbiAndPrefAlign option option" where
  "inherent_align (AbiScalar s) cx = Some (Some (scalar_align s cx))"
| "inherent_align (ScalarPair s1 s2) cx = Some (Some (aap_max (scalar_align s1 cx) (scalar_align s2 cx)))"
| "inherent_align (AbiField f) cx = map_option Some field_align"
| "inherent_align (AbiCurve c) cx = map_option Some curve_align"
| "inherent_align (Vector elem count) cx = do {
     n \<leftarrow> size_mul (scalar_size elem cx) count;
     a \<leftarrow> vector_align_of cx n;
     Some (Some a)
   }"
| "inherent_align Uninhabited cx = Some None"
| "inherent_align (Aggregate sized) cx = Some None"

definition align_to_inherent :: "Abi \<Rightarrow> TargetDataLayout \<Rightarrow> Size \<Rightarrow> Size option option" where
  "align_to_inherent self cx n = do {
     a \<leftarrow> inherent_align self cx;
     case a of
       None \<Rightarrow> Some None
     | Some a \<Rightarrow> map_option Some (size_align_to n (abi a))
   }"

fun inherent_size :: "Abi \<Rightarrow> TargetDataLayout \<Rightarrow> Size option option" where
  "inherent_size (AbiScalar s) cx = Some (Some (scalar_size s cx))"
| "inherent_size (ScalarPair s1 s2) cx = do {
     field2_offset \<leftarrow> size_align_to (scalar_size s1 cx) (abi (scalar_align s2 cx));
     n \<leftarrow> size_add field2_offset (scalar_size s2 cx);
     align_to_inherent (ScalarPair s1 s2) cx n
   }"
| "inherent_size (AbiField f) cx = Some (Some (field_size f))"
| "inherent_size (AbiCurve c) cx = map_option Some (curve_size c)"
| "inherent_size (Vector elem count) cx = do {
     n \<leftarrow> size_mul (scalar_size elem cx) count;
     align_to_inherent (Vector elem count) cx n
   }"
| "inherent_size Uninhabited cx = Some None"
| "inherent_size (Aggregate sized) cx = Some None"

fun abi_to_union :: "Abi \<Rightarrow> Abi option" where
  "abi_to_union (AbiScalar s) = Some (AbiScalar (scalar_to_union s))"
| "abi_to_union (ScalarPair s1 s2) = Some (ScalarPair (scalar_to_union s1) (scalar_to_union s2))"
| "abi_to_union (AbiField f) = None"
| "abi_to_union (AbiCurve c) = None"
| "abi_to_union (Vector elem count) = Some (Vector (scalar_to_union elem) count)"
| "abi_to_union Uninhabited = Some (Aggregate True)"
| "abi_to_union (Aggregate sized) = Some (Aggregate True)"

subsection \<open>The order of the fields\<close>

lemma for_loop_cong: "(\<And>x s. x \<in> set xs \<Longrightarrow> f x s = g x s) \<Longrightarrow> for_loop f xs s = for_loop g xs s"
proof (induction xs arbitrary: s)
  case (Cons x xs)
  then show ?case by (cases "g x s") simp_all
qed simp

lemma those_idx: "m \<le> length xs \<Longrightarrow> those (map (idx xs) [0..<m]) = Some (take m xs)"
proof -
  assume m: "m \<le> length xs"
  then have "those (map (idx xs) [0..<m]) = Some (map ((!) xs) [0..<m])" by (intro those_map_Some) simp
  also have "map ((!) xs) [0..<m] = take m xs" using m by (intro nth_equalityI) simp_all
  finally show ?thesis .
qed

lemma index_by_increasing_offset_inverse:
  assumes "set memory_index = {..<length memory_index}" and "length offsets = length memory_index"
  shows "\<exists>w. index_by_increasing_offset (Arbitrary offsets memory_index) = Some w \<and> length w = length memory_index \<and>
    (\<forall>i < length memory_index. w ! (memory_index ! i) = i \<and> memory_index ! (w ! i) = i)"
proof (cases "length offsets \<le> 64")
  case False
  obtain w where "invert_bijective_mapping memory_index = Some w" "length w = length memory_index"
    "\<forall>x < length memory_index. w ! (memory_index ! x) = x \<and> memory_index ! (w ! x) = x"
    using invert_bijective [OF assms(1)] by blast
  then show ?thesis using False assms(2) those_idx [of "length memory_index" w] by (simp add: index_by_increasing_offset_def)
next
  case True
  let ?v = "memory_index"
  have len: "length ?v \<le> 64" using True assms(2) by simp
  have "inverse_small ?v = for_loop (\<lambda>(i1, i2) inverse. idx_set inverse i2 i1) (enumerate 0 ?v) (replicate 64 0)"
    unfolding inverse_small_def using len by (intro for_loop_cong) (auto simp: in_set_enumerate_eq)
  then obtain w where w: "inverse_small ?v = Some w" "length w = 64" "\<forall>x < length ?v. w ! (?v ! x) = x"
    using invert_loop [OF sum_list_permutation(1) [OF assms(1)], of 64] assms(1) len by auto
  have "?v ! (w ! y) = y" if "y < length ?v" for y
  proof -
    have "y \<in> set ?v" unfolding assms(1) using that by simp
    then obtain x where "x < length ?v" "?v ! x = y" unfolding in_set_conv_nth by blast
    then show ?thesis using w(3) by auto
  qed
  moreover have "?v ! x < length ?v" if "x < length ?v" for x using that nth_mem [OF that] unfolding assms(1) by simp
  ultimately show ?thesis
    using w len True assms(2) those_idx [of "length ?v" w] by (auto simp: index_by_increasing_offset_def)
qed

subsection \<open>Mandated sizes and alignments\<close>

definition aap_ok :: "AbiAndPrefAlign \<Rightarrow> bool" where
  "aap_ok a \<longleftrightarrow> align_ok (abi a) \<and> align_ok (pref a)"

definition dl_ok :: "TargetDataLayout \<Rightarrow> bool" where
  "dl_ok dl \<longleftrightarrow> (\<forall>a \<in> {i1_align dl, i8_align dl, i16_align dl, i32_align dl, i64_align dl, i128_align dl, f32_align dl, f64_align dl,
      pointer_align dl, aggregate_align dl} \<union> snd ` set (vector_align dl). aap_ok a)"

lemma dl_okD:
  assumes "dl_ok dl"
  shows "aap_ok (primitive_align p dl)" and "(n, a) \<in> set (vector_align dl) \<Longrightarrow> aap_ok a"
proof -
  show "aap_ok (primitive_align p dl)"
  proof (cases p)
    case (IntP i b)
    then show ?thesis using assms by (cases i) (simp_all add: dl_ok_def)
  qed (use assms in \<open>simp_all add: dl_ok_def\<close>)
  show "aap_ok a" if "(n, a) \<in> set (vector_align dl)" using assms that by (force simp: dl_ok_def)
qed

lemma pointer_size_cases:
  assumes "ptr_sized_integer dl = Some i"
  shows "unat (raw (pointer_size dl)) \<le> 8"
proof -
  obtain b where b: "size_bits (pointer_size dl) = Some b" "b \<in> {16, 32, 64}"
    using assms by (auto simp: ptr_sized_integer_def split: Option.bind_splits if_splits)
  then have "unat (raw (pointer_size dl)) * 8 = unat b" using unat_mul_u64 [of "raw (pointer_size dl)" 8 b] by (simp add: size_bits_def)
  then show ?thesis using b(2) by auto
qed

lemma primitive_size_le:
  assumes "ptr_sized_integer dl = Some i"
  shows "unat (raw (primitive_size p dl)) \<le> 16"
proof (cases p)
  case (IntP j b)
  then show ?thesis by (cases j) simp_all
qed (use pointer_size_cases [OF assms] in \<open>simp_all add: size_from_bits_def\<close>)

text \<open>Rounding a size that is far from the end of the address space.\<close>

lemma size_align_to_small:
  assumes "align_ok a" and "unat (raw x) \<le> 2 ^ 60"
  obtains s where "size_align_to x a = Some s" "align_nat a dvd unat (raw s)" "unat (raw x) \<le> unat (raw s)"
    "unat (raw s) < unat (raw x) + align_nat a"
proof -
  have lt: "unat (pow2 a) < 64" "align_nat a \<le> 2 ^ 29"
    using align_ok_le [OF assms(1)] power_increasing [of "unat (pow2 a)" 29 "2 :: nat"] by (simp_all add: align_nat_def)
  then show thesis using size_align_to_spec [OF lt(1), of x] assms(2) that by auto
qed

lemma align_nat_le: "align_ok a \<Longrightarrow> align_nat a \<le> 2 ^ 29"
  using align_ok_le [of a] power_increasing [of "unat (pow2 a)" 29 "2 :: nat"] by (simp add: align_nat_def)

lemma align_max_dvd:
  "align_nat a dvd align_nat (align_max a b)" "align_nat b dvd align_nat (align_max a b)"
  by (auto simp: align_max_def align_nat_def word_le_nat_alt intro: le_imp_power_dvd)

lemma vector_align_of_ok:
  assumes "dl_ok dl" and "unat (raw n) \<le> 2 ^ 29"
  shows "\<exists>a. vector_align_of dl n = Some a \<and> aap_ok a"
proof (cases "find (\<lambda>(sz, align). sz = n) (vector_align dl)")
  case (Some e)
  then have "e \<in> set (vector_align dl)" by (metis find_Some_iff nth_mem)
  moreover obtain k a where e: "e = (k, a)" by (cases e)
  ultimately have "aap_ok a" using dl_okD(2) [OF assms(1), of k a] by simp
  then show ?thesis using Some by (simp add: vector_align_of_def e)
next
  case None
  have "find (\<lambda>p. unat (raw n) \<le> 2 ^ p) [0..<64] \<noteq> None" using assms(2) by (auto simp: find_None_iff intro!: exI [of _ 29])
  then obtain p where p: "find (\<lambda>p. unat (raw n) \<le> 2 ^ p) [0..<64] = Some p" by auto
  then have "p < 64" "\<not> 29 < p" using assms(2) by (auto simp: find_Some_iff) 
  then have "unat (push_bit p 1 :: u64) = 2 ^ p" "p \<le> 29" by (simp_all add: push_bit_eq_mult unat_power2_u64)
  then obtain a where a: "align_from_bytes (push_bit p 1) = Inr a" using align_from_bytes_spec(2) by blast
  then show ?thesis
    using None p align_from_bytes_spec(1) [OF a]
    by (simp add: vector_align_of_def next_power_of_two_def unwrap_align_def aap_ok_def aap_new_def)
qed

lemma aap_max_ok: "aap_ok a \<Longrightarrow> aap_ok b \<Longrightarrow> aap_ok (aap_max a b)"
  by (simp add: aap_ok_def aap_max_def align_max_def)

lemma pair_layout:
  fixes s1 s2 :: Scalar
  assumes dl: "dl_ok cx" "ptr_sized_integer cx = Some i"
  defines "al \<equiv> aap_max (scalar_align s1 cx) (scalar_align s2 cx)"
  obtains off n where "size_align_to (scalar_size s1 cx) (abi (scalar_align s2 cx)) = Some off"
    "inherent_size (ScalarPair s1 s2) cx = Some (Some n)" "align_nat (abi (scalar_align s2 cx)) dvd unat (raw off)"
    "unat (raw (scalar_size s1 cx)) \<le> unat (raw off)" "unat (raw off) + unat (raw (scalar_size s2 cx)) \<le> unat (raw n)"
    "align_nat (abi al) dvd unat (raw n)"
proof -
  have ok: "align_ok (abi (scalar_align s2 cx))" "align_ok (abi al)"
    using dl_okD(1) [OF dl(1)] aap_max_ok unfolding al_def scalar_align_def by (auto simp: aap_ok_def)
  have sz: "unat (raw (scalar_size s cx)) \<le> 16" for s using primitive_size_le [OF dl(2)] by (simp add: scalar_size_def)
  have "unat (raw (scalar_size s1 cx)) \<le> 2 ^ 60" using sz [of s1] by simp
  then obtain off where off: "size_align_to (scalar_size s1 cx) (abi (scalar_align s2 cx)) = Some off"
    "align_nat (abi (scalar_align s2 cx)) dvd unat (raw off)" "unat (raw (scalar_size s1 cx)) \<le> unat (raw off)"
    "unat (raw off) < unat (raw (scalar_size s1 cx)) + align_nat (abi (scalar_align s2 cx))"
    by (rule size_align_to_small [OF ok(1)])
  have small: "unat (raw off) + unat (raw (scalar_size s2 cx)) \<le> 2 ^ 30"
    using off(4) sz [of s1] sz [of s2] align_nat_le [OF ok(1)] by simp
  obtain e where e: "size_add off (scalar_size s2 cx) = Some e" "unat (raw e) = unat (raw off) + unat (raw (scalar_size s2 cx))"
  proof -
    obtain c where c: "checked_add_u64 (raw off) (raw (scalar_size s2 cx)) = Some c" using small by (simp add: checked_add_u64_def)
    then have "unat c = unat (raw off) + unat (raw (scalar_size s2 cx))" by (simp add: unat_add_u64)
    then show thesis using that [of "size_from_bytes c"] c by (simp add: size_add_def)
  qed
  have "unat (raw e) \<le> 2 ^ 60" using small e(2) by simp
  then obtain n where n: "size_align_to e (abi al) = Some n" "align_nat (abi al) dvd unat (raw n)" "unat (raw e) \<le> unat (raw n)"
    "unat (raw n) < unat (raw e) + align_nat (abi al)" by (rule size_align_to_small [OF ok(2)])
  show thesis
    using that [OF off(1) _ off(2,3)] n e off(1) by (simp add: align_to_inherent_def al_def)
qed

lemma vector_layout:
  assumes dl: "dl_ok cx" and small: "unat (raw (scalar_size s cx)) * unat count \<le> 2 ^ 29"
  obtains al n where "inherent_align (Vector s count) cx = Some (Some al)" "inherent_size (Vector s count) cx = Some (Some n)"
    "align_nat (abi al) dvd unat (raw n)" "unat (raw (scalar_size s cx)) * unat count \<le> unat (raw n)"
proof -
  obtain m where m: "size_mul (scalar_size s cx) count = Some m" "unat (raw m) = unat (raw (scalar_size s cx)) * unat count"
  proof -
    obtain c where c: "checked_mul_u64 (raw (scalar_size s cx)) count = Some c" using small by (simp add: checked_mul_u64_def)
    then have "unat c = unat (raw (scalar_size s cx)) * unat count" by (simp add: unat_mul_u64)
    then show thesis using that [of "size_from_bytes c"] c by (simp add: size_mul_def)
  qed
  obtain al where al: "vector_align_of cx m = Some al" "aap_ok al" using vector_align_of_ok [OF dl, of m] small m(2) by auto
  have ok: "align_ok (abi al)" "unat (raw m) \<le> 2 ^ 60" using al(2) small m(2) by (simp_all add: aap_ok_def)
  obtain n where "size_align_to m (abi al) = Some n" "align_nat (abi al) dvd unat (raw n)" "unat (raw m) \<le> unat (raw n)"
    "unat (raw n) < unat (raw m) + align_nat (abi al)" by (rule size_align_to_small [OF ok])
  then show thesis using that [of al n] m al(1) by (simp add: align_to_inherent_def)
qed

lemma field_align_one: "field_align = Some (aap_new ONE)" "curve_align = Some (aap_new ONE)"
  by (simp_all add: field_align_def curve_align_def align_from_bytes_def unwrap_align_def)

text \<open>The default layout is valid.\<close>

lemma align_from_bits_pow:
  "align_from_bits 0 = Inr ONE" "align_from_bits 8 = Inr \<lparr>pow2 = 0\<rparr>" "align_from_bits 16 = Inr \<lparr>pow2 = 1\<rparr>"
  "align_from_bits 32 = Inr \<lparr>pow2 = 2\<rparr>" "align_from_bits 64 = Inr \<lparr>pow2 = 3\<rparr>" "align_from_bits 128 = Inr \<lparr>pow2 = 4\<rparr>"
  by (simp_all add: align_from_bits_def size_from_bits_def align_from_bytes_def ALIGN_MAX_def trailing_zeros_def upt_rec)

lemma default_layout: "\<exists>dl. dl_default = Some dl \<and> dl_ok dl \<and> c_enum_min_size dl = I32 \<and> ptr_sized_integer dl = Some I64"
  by (simp add: dl_default_def Let_def align_from_bits_pow unwrap_align_def dl_ok_def aap_ok_def aap_new_def align_ok_def
      ALIGN_MAX_def ONE_def ptr_sized_integer_def size_bits_def size_from_bits_def checked_mul_u64_def)

text \<open>
  The mandated layouts. On a target with valid alignments and pointers of 16, 32 or 64
  bits, the size of a pair of scalars is computed without a panic; the second scalar
  starts at a multiple of its alignment, after the first; both fit, and the size is a
  multiple of the alignments of both. A vector of at most \<open>2\<^sup>2\<^sup>9\<close> bytes has a size that holds
  its elements and is a multiple of its alignment. Fields and curves have the size of
  their bits, rounded up to bytes, and no alignment.
\<close>

theorem inherent_layouts:
  assumes "dl_ok cx" and "ptr_sized_integer cx = Some i"
  shows "(\<forall>s1 s2. \<exists>off n. size_align_to (scalar_size s1 cx) (abi (scalar_align s2 cx)) = Some off \<and>
      inherent_size (ScalarPair s1 s2) cx = Some (Some n) \<and>
      align_nat (abi (scalar_align s2 cx)) dvd unat (raw off) \<and> unat (raw (scalar_size s1 cx)) \<le> unat (raw off) \<and>
      unat (raw off) + unat (raw (scalar_size s2 cx)) \<le> unat (raw n) \<and>
      align_nat (abi (scalar_align s1 cx)) dvd unat (raw n) \<and> align_nat (abi (scalar_align s2 cx)) dvd unat (raw n)) \<and>
    (\<forall>s count. unat (raw (scalar_size s cx)) * unat count \<le> 2 ^ 29 \<longrightarrow>
      (\<exists>al n. inherent_align (Vector s count) cx = Some (Some al) \<and> inherent_size (Vector s count) cx = Some (Some n) \<and>
        align_nat (abi al) dvd unat (raw n) \<and> unat (raw (scalar_size s cx)) * unat count \<le> unat (raw n))) \<and>
    (\<forall>f. inherent_align (AbiField f) cx = Some (Some (aap_new ONE)) \<and>
      inherent_size (AbiField f) cx = Some (Some (size_from_bits (field_real_bits f)))) \<and>
    (\<forall>c. inherent_align (AbiCurve c) cx = Some (Some (aap_new ONE)) \<and>
      (\<exists>b. curve_real_bits c = Some b \<and> inherent_size (AbiCurve c) cx = Some (Some (size_from_bits b))))"
proof (intro conjI allI impI)
  fix s1 s2
  have max: "abi (aap_max a b) = align_max (abi a) (abi b)" for a b by (simp add: aap_max_def)
  show "\<exists>off n. size_align_to (scalar_size s1 cx) (abi (scalar_align s2 cx)) = Some off \<and>
      inherent_size (ScalarPair s1 s2) cx = Some (Some n) \<and>
      align_nat (abi (scalar_align s2 cx)) dvd unat (raw off) \<and> unat (raw (scalar_size s1 cx)) \<le> unat (raw off) \<and>
      unat (raw off) + unat (raw (scalar_size s2 cx)) \<le> unat (raw n) \<and>
      align_nat (abi (scalar_align s1 cx)) dvd unat (raw n) \<and> align_nat (abi (scalar_align s2 cx)) dvd unat (raw n)"
    by (rule pair_layout [OF assms, of s1 s2, unfolded max]) (meson align_max_dvd dvd_trans)
next
  fix s and count :: u64 assume "unat (raw (scalar_size s cx)) * unat count \<le> 2 ^ 29"
  then show "\<exists>al n. inherent_align (Vector s count) cx = Some (Some al) \<and> inherent_size (Vector s count) cx = Some (Some n) \<and>
        align_nat (abi al) dvd unat (raw n) \<and> unat (raw (scalar_size s cx)) * unat count \<le> unat (raw n)"
    by (rule vector_layout [OF assms(1)]) blast
next
  fix c
  show "\<exists>b. curve_real_bits c = Some b \<and> inherent_size (AbiCurve c) cx = Some (Some (size_from_bits b))"
    using curve_size_real_bits [of c] by auto
qed (simp_all add: field_align_one field_size_real_bits)

theorem inherent_layouts_witness:
  "\<exists>cx n. dl_default = Some cx \<and> inherent_size (ScalarPair (UnionScalar (IntP I8 False)) (UnionScalar (Pointer DATA))) cx = Some (Some n) \<and>
    9 \<le> unat (raw n)"
proof -
  obtain cx where cx: "dl_default = Some cx" "dl_ok cx" "ptr_sized_integer cx = Some I64" using default_layout by blast
  let ?s1 = "UnionScalar (IntP I8 False)" and ?s2 = "UnionScalar (Pointer DATA)"
  obtain off n :: Size where n: "inherent_size (ScalarPair ?s1 ?s2) cx = Some (Some n)" "unat (raw (scalar_size ?s1 cx)) \<le> unat (raw off)"
    "unat (raw off) + unat (raw (scalar_size ?s2 cx)) \<le> unat (raw n)"
    using inherent_layouts [OF cx(2,3), THEN conjunct1, THEN spec, THEN spec, of ?s1 ?s2] by blast
  have "raw (scalar_size ?s2 cx) = 8"
    using cx(1) by (auto simp: dl_default_def scalar_size_def size_from_bits_def Let_def split: Option.bind_splits)
  then have "9 \<le> unat (raw n)" using n(2,3) by (simp add: scalar_size_def)
  then show ?thesis using cx(1) n(1) by blast
qed

end
