(* ===== verification/Num_Parse.thy ===== *)
theory Num_Parse
  imports Prelude "HOL-Library.Word"
begin

text \<open>
  Parsing of unsigned decimal integers, \<open>from_str\<close> of \<open>library/core/src/num/mod.rs\<close>: the loop
  without overflow checks for short strings, the checked loop for the others. The result
  is a word of the type's width; the loops work on the bytes of the string, of which only
  ASCII ones are digits, and here on its characters.
\<close>

subsection \<open>The two loops\<close>

datatype IntErrorKind = Empty | InvalidDigit | PosOverflow | NegOverflow | Zero

definition to_digit10 :: "uchar \<Rightarrow> nat option" where
  "to_digit10 c = (if is_digit10 c then Some (c - ch CHR ''0'') else None)"

definition can_not_overflow :: "nat \<Rightarrow> uchar list \<Rightarrow> bool" where
  "can_not_overflow size_of digits \<longleftrightarrow> str_len digits \<le> size_of * 2"

fun unchecked_loop :: "uchar list \<Rightarrow> 'w::len word \<Rightarrow> IntErrorKind + 'w word" where
  "unchecked_loop [] result = Inr result"
| "unchecked_loop (c # cs) result =
     (let result = result * 10 in
      case to_digit10 c of
        None \<Rightarrow> Inl InvalidDigit
      | Some x \<Rightarrow> unchecked_loop cs (result + of_nat x))"

definition checked_mul10 :: "'w::len word \<Rightarrow> 'w word option" where
  "checked_mul10 a = (if unat a * 10 < 2 ^ LENGTH('w) then Some (a * 10) else None)"

definition checked_add_digit :: "'w::len word \<Rightarrow> nat \<Rightarrow> 'w word option" where
  "checked_add_digit a x = (if unat a + x < 2 ^ LENGTH('w) then Some (a + of_nat x) else None)"

fun checked_loop :: "uchar list \<Rightarrow> 'w::len word \<Rightarrow> IntErrorKind + 'w word" where
  "checked_loop [] result = Inr result"
| "checked_loop (c # cs) result =
     (let mul = checked_mul10 result in
      case to_digit10 c of
        None \<Rightarrow> Inl InvalidDigit
      | Some x \<Rightarrow> (case mul of
          None \<Rightarrow> Inl PosOverflow
        | Some result \<Rightarrow> (case checked_add_digit result x of
            None \<Rightarrow> Inl PosOverflow
          | Some result \<Rightarrow> checked_loop cs result)))"

definition from_str_radix10 :: "uchar list \<Rightarrow> IntErrorKind + 'w::len word" where
  "from_str_radix10 src =
     (case src of
        [] \<Rightarrow> Inl Empty
      | c # rest \<Rightarrow>
          if (c = ch CHR ''+'' \<or> c = ch CHR ''-'') \<and> rest = [] then Inl InvalidDigit
          else
            let digits = (if c = ch CHR ''+'' then rest else src) in
            if can_not_overflow (LENGTH('w) div 8) digits then unchecked_loop digits 0 else checked_loop digits 0)"

subsection \<open>The decimal value\<close>

definition dec_value :: "nat \<Rightarrow> uchar list \<Rightarrow> nat" where
  "dec_value = foldl (\<lambda>n c. 10 * n + (c - ch CHR ''0''))"

lemma dec_value_simps [simp]: "dec_value n [] = n" "dec_value n (c # cs) = dec_value (10 * n + (c - ch CHR ''0'')) cs"
  by (simp_all add: dec_value_def)

lemma dec_value_mono: "n \<le> dec_value n cs"
proof (induction cs arbitrary: n)
  case (Cons c cs)
  have "n \<le> 10 * n + (c - ch CHR ''0'')" by simp
  also have "\<dots> \<le> dec_value (10 * n + (c - ch CHR ''0'')) cs" by (rule Cons)
  finally show ?case by simp
qed simp

text \<open>One step of a loop, when the value fits.\<close>

lemma digit_step:
  fixes w :: "'w::len word"
  assumes "10 * unat w + x < 2 ^ LENGTH('w)"
  shows "unat (w * 10) = 10 * unat w" and "unat (w * 10 + of_nat x) = 10 * unat w + x"
proof -
  have "w * 10 = of_nat (10 * unat w)" "w * 10 + of_nat x = of_nat (10 * unat w + x)" by simp_all
  then show "unat (w * 10) = 10 * unat w" "unat (w * 10 + of_nat x) = 10 * unat w + x"
    using assms unat_of_nat [where ?'a = 'w, of "10 * unat w"] unat_of_nat [where ?'a = 'w, of "10 * unat w + x"] by (simp_all only: mod_less)
qed

text \<open>Both loops compute the decimal value, the unchecked one when it fits.\<close>

definition parsed :: "uchar list \<Rightarrow> nat \<Rightarrow> IntErrorKind + 'w::len word \<Rightarrow> bool" where
  "parsed cs n r \<longleftrightarrow> (case r of
       Inr w \<Rightarrow> list_all is_digit10 cs \<and> unat w = dec_value n cs
     | Inl e \<Rightarrow> e = InvalidDigit \<and> \<not> list_all is_digit10 cs \<or> e = PosOverflow \<and> 2 ^ LENGTH('w) \<le> dec_value n cs)"

lemma checked_loop_parsed: "parsed cs (unat w) (checked_loop cs (w :: 'w::len word))"
proof (induction cs arbitrary: w)
  case Nil
  then show ?case by (simp add: parsed_def)
next
  case (Cons c cs)
  show ?case
  proof (cases "is_digit10 c")
    case False
    then show ?thesis by (simp add: to_digit10_def parsed_def Let_def)
  next
    case True
    let ?x = "c - ch CHR ''0''"
    have big: "parsed (c # cs) (unat w) (Inl PosOverflow :: _ + 'w word)" if "2 ^ LENGTH('w) \<le> 10 * unat w + ?x"
      using that dec_value_mono [of "10 * unat w + ?x" cs] by (simp add: parsed_def)
    show ?thesis
    proof (cases "10 * unat w + ?x < 2 ^ LENGTH('w)")
      case lt: True
      note st = digit_step [OF lt]
      have "checked_mul10 w = Some (w * 10)" "checked_add_digit (w * 10) ?x = Some (w * 10 + of_nat ?x)"
        using lt st by (simp_all add: checked_mul10_def checked_add_digit_def)
      then show ?thesis using st(2) Cons [of "w * 10 + of_nat ?x"] True by (simp add: to_digit10_def parsed_def Let_def split: sum.splits)
    next
      case False
      have "checked_mul10 w = None \<or> checked_mul10 w = Some (w * 10) \<and> checked_add_digit (w * 10) ?x = None"
        using False digit_step(1) [of w 0] by (auto simp: checked_mul10_def checked_add_digit_def)
      then have "checked_loop (c # cs) w = Inl PosOverflow" using True by (auto simp: to_digit10_def Let_def)
      then show ?thesis using big False by simp
    qed
  qed
qed

lemma unchecked_loop_value:
  fixes w :: "'w::len word"
  assumes "(unat w + 1) * 10 ^ length cs \<le> 2 ^ LENGTH('w)"
  shows "case unchecked_loop cs w of Inr v \<Rightarrow> list_all is_digit10 cs \<and> unat v = dec_value (unat w) cs
    | Inl e \<Rightarrow> e = InvalidDigit \<and> \<not> list_all is_digit10 cs"
  using assms
proof (induction cs arbitrary: w)
  case (Cons c cs)
  show ?case
  proof (cases "is_digit10 c")
    case True
    let ?x = "c - ch CHR ''0''"
    have x: "?x \<le> 9" using True by (auto simp: is_digit10_def)
    have "10 * unat w + ?x + 1 \<le> (unat w + 1) * 10" using x by simp
    then have "(10 * unat w + ?x + 1) * 10 ^ length cs \<le> (unat w + 1) * 10 * 10 ^ length cs" by (rule mult_right_mono) simp
    then have le: "(10 * unat w + ?x + 1) * 10 ^ length cs \<le> (unat w + 1) * 10 ^ length (c # cs)"
      by (simp only: list.size(4) power_add One_nat_def power_Suc0_right mult.assoc mult.commute [of 10])
    moreover have "10 * unat w + ?x + 1 \<le> (10 * unat w + ?x + 1) * 10 ^ length cs"
      using mult_le_mono2 [of 1 "10 ^ length cs" "10 * unat w + ?x + 1"] by (simp only: mult_1_right one_le_power one_le_numeral)
    ultimately have lt: "10 * unat w + ?x < 2 ^ LENGTH('w)" using Cons.prems by linarith
    show ?thesis
      using Cons.IH [of "w * 10 + of_nat ?x"] le Cons.prems digit_step(2) [OF lt] True
      by (simp add: to_digit10_def Let_def split: sum.splits)
  qed (simp add: to_digit10_def Let_def)
qed simp

text \<open>
  The result of \<open>from_str\<close>: the value of the digits, after an optional plus sign, when it
  fits the type, and the reason otherwise.
\<close>

definition strip_plus :: "uchar list \<Rightarrow> uchar list" where
  "strip_plus s = (case s of c # rest \<Rightarrow> if c = ch CHR ''+'' then rest else s | [] \<Rightarrow> [])"

lemma from_str_parsed:
  assumes "8 dvd LENGTH('w)"
  shows "case (from_str_radix10 s :: IntErrorKind + 'w::len word) of
      Inr w \<Rightarrow> strip_plus s \<noteq> [] \<and> list_all is_digit10 (strip_plus s) \<and> unat w = dec_value 0 (strip_plus s)
    | Inl e \<Rightarrow> (s = [] \<and> e = Empty) \<or>
        (s \<noteq> [] \<and> (strip_plus s = [] \<or> \<not> list_all is_digit10 (strip_plus s)) \<and> e = InvalidDigit) \<or>
        (2 ^ LENGTH('w) \<le> dec_value 0 (strip_plus s) \<and> e = PosOverflow)"
proof (cases s)
  case (Cons c rest)
  let ?d = "strip_plus s" and ?r = "from_str_radix10 s :: IntErrorKind + 'w word"
  have nd: "\<not> is_digit10 (ch CHR ''-'')" by (simp add: is_digit10_def)
  have d: "?d = (if c = ch CHR ''+'' then rest else s)" by (simp add: strip_plus_def Cons)
  consider (sign) "(c = ch CHR ''+'' \<or> c = ch CHR ''-'') \<and> rest = []"
    | (short) "?r = unchecked_loop ?d 0" "str_len ?d \<le> LENGTH('w) div 8 * 2" "?d \<noteq> []" | (long) "?r = checked_loop ?d 0" "?d \<noteq> []"
  proof (cases "(c = ch CHR ''+'' \<or> c = ch CHR ''-'') \<and> rest = []")
    case False
    then have "?r = (if can_not_overflow (LENGTH('w) div 8) ?d then unchecked_loop ?d 0 else checked_loop ?d 0)"
      unfolding from_str_radix10_def Cons list.case d [unfolded Cons] Let_def by (simp only: if_False)
    moreover have "?d \<noteq> []" using False d Cons by auto
    ultimately show thesis using short long unfolding can_not_overflow_def by (cases "str_len ?d \<le> LENGTH('w) div 8 * 2") simp_all
  qed (rule sign)
  then show ?thesis
  proof cases
    case sign
    then show ?thesis using nd by (auto simp: from_str_radix10_def Cons strip_plus_def)
  next
    case short
    have "(10 :: nat) ^ length ?d \<le> 16 ^ length ?d" by (rule power_mono) simp_all
    also have "\<dots> \<le> 16 ^ (LENGTH('w) div 8 * 2)"
      using short(2) length_le_str_len [of ?d] by (intro power_increasing) simp_all
    also have "(16 :: nat) = 2 ^ 4" by simp
    also have "(2 ^ 4 :: nat) ^ (LENGTH('w) div 8 * 2) = 2 ^ (4 * (LENGTH('w) div 8 * 2))" by (rule power_mult [symmetric])
    also have "4 * (LENGTH('w) div 8 * 2) = LENGTH('w)" using assms by auto
    finally show ?thesis using unchecked_loop_value [of "0 :: 'w word" ?d] short by (simp add: Cons split: sum.splits)
  next
    case long
    then show ?thesis using checked_loop_parsed [of ?d "0 :: 'w word"] by (auto simp: parsed_def Cons split: sum.splits)
  qed
qed (simp add: from_str_radix10_def)

end
