(* ===== verification/Abi_Data_Layout.thy ===== *)
theory Abi_Data_Layout
  imports Abi_Layout Num_Parse
begin

text \<open>
  \<open>TargetDataLayout::parse_from_llvm_datalayout_string\<close> of \<open>rustc_abi/src/lib.rs\<close>: the parser of
  LLVM's data layout strings. A string is a list of characters. \<open>Inl\<close> is the error that is
  reported; the option around the result is the panic of the default layout.
\<close>

subsection \<open>Splitting and errors\<close>

text \<open>\<open>str::split\<close> with a character.\<close>

fun split_on :: "uchar \<Rightarrow> uchar list \<Rightarrow> uchar list list" where
  "split_on d [] = [[]]"
| "split_on d (c # cs) =
     (if c = d then [] # split_on d cs
      else case split_on d cs of p # ps \<Rightarrow> (c # p) # ps | [] \<Rightarrow> [[c]])"

datatype TargetDataLayoutErrors =
    InvalidAddressSpace "uchar list" "uchar list" IntErrorKind
  | InvalidBits "uchar list" "uchar list" "uchar list" IntErrorKind
  | MissingAlignment "uchar list"
  | InvalidAlignment "uchar list" AlignFromBytesError
  | InconsistentTargetArchitecture "uchar list" "uchar list"
  | InconsistentTargetPointerWidth u64 "32 word"
  | InvalidBitsSize "uchar list"

definition and_then :: "'e + 'a \<Rightarrow> ('a \<Rightarrow> 'e + 'b) \<Rightarrow> 'e + 'b" where
  "and_then r f = (case r of Inl e \<Rightarrow> Inl e | Inr x \<Rightarrow> f x)"

definition map_err :: "('e \<Rightarrow> 'f) \<Rightarrow> 'e + 'a \<Rightarrow> 'f + 'a" where
  "map_err f r = (case r of Inl e \<Rightarrow> Inl (f e) | Inr x \<Rightarrow> Inr x)"

definition parse_address_space :: "uchar list \<Rightarrow> uchar list \<Rightarrow> TargetDataLayoutErrors + AddressSpace" where
  "parse_address_space s cause = map_err (InvalidAddressSpace s cause) (from_str_radix10 s)"

definition parse_bits :: "uchar list \<Rightarrow> uchar list \<Rightarrow> uchar list \<Rightarrow> TargetDataLayoutErrors + u64" where
  "parse_bits s kind cause = map_err (InvalidBits kind s cause) (from_str_radix10 s)"

definition parse_size :: "uchar list \<Rightarrow> uchar list \<Rightarrow> TargetDataLayoutErrors + Size" where
  "parse_size s cause = and_then (parse_bits s (str ''size'') cause) (\<lambda>bits. Inr (size_from_bits bits))"

definition parse_align :: "uchar list list \<Rightarrow> uchar list \<Rightarrow> TargetDataLayoutErrors + AbiAndPrefAlign" where
  "parse_align s cause =
     (case s of
        [] \<Rightarrow> Inl (MissingAlignment cause)
      | s0 # rest \<Rightarrow>
          let align_from_bits' = (\<lambda>bits. map_err (InvalidAlignment cause) (align_from_bits bits)) in
          and_then (parse_bits s0 (str ''alignment'') cause) (\<lambda>abi_bits.
          and_then (case rest of [] \<Rightarrow> Inr abi_bits | s1 # _ \<Rightarrow> parse_bits s1 (str ''alignment'') cause) (\<lambda>pref_bits.
          and_then (align_from_bits' abi_bits) (\<lambda>a.
          and_then (align_from_bits' pref_bits) (\<lambda>p. Inr \<lparr>abi = a, pref = p\<rparr>)))))"

subsection \<open>The specifications\<close>

fun starts_with :: "char \<Rightarrow> uchar list \<Rightarrow> bool" where
  "starts_with c [] = False"
| "starts_with c (x # xs) = (x = ch c)"

definition set_int_align :: "u64 \<Rightarrow> AbiAndPrefAlign \<Rightarrow> TargetDataLayout \<Rightarrow> TargetDataLayout" where
  "set_int_align bits a dl =
     (if bits = 1 then dl\<lparr>i1_align := a\<rparr>
      else if bits = 8 then dl\<lparr>i8_align := a\<rparr>
      else if bits = 16 then dl\<lparr>i16_align := a\<rparr>
      else if bits = 32 then dl\<lparr>i32_align := a\<rparr>
      else if bits = 64 then dl\<lparr>i64_align := a\<rparr>
      else dl)"

definition int_spec :: "uchar list \<Rightarrow> uchar list list \<Rightarrow> TargetDataLayout \<times> u64 \<Rightarrow> TargetDataLayoutErrors + TargetDataLayout \<times> u64" where
  "int_spec s a state =
     (let (dl, i128_align_src) = state in
      case (from_str_radix10 (tl s) :: IntErrorKind + u64) of
        Inl e \<Rightarrow> and_then (parse_size (tl s) (str ''i'')) (\<lambda>_. Inr state)
      | Inr bits \<Rightarrow>
          and_then (parse_align a s) (\<lambda>a.
            let dl = set_int_align bits a dl in
            if bits \<ge> i128_align_src \<and> bits \<le> 128 then Inr (dl\<lparr>i128_align := a\<rparr>, bits)
            else Inr (dl, i128_align_src)))"

fun set_vector :: "Size \<Rightarrow> AbiAndPrefAlign \<Rightarrow> (Size \<times> AbiAndPrefAlign) list \<Rightarrow> (Size \<times> AbiAndPrefAlign) list" where
  "set_vector n a [] = [(n, a)]"
| "set_vector n a ((m, b) # vs) = (if m = n then (m, a) # vs else (m, b) # set_vector n a vs)"

definition vector_spec :: "uchar list \<Rightarrow> uchar list list \<Rightarrow> TargetDataLayout \<times> u64 \<Rightarrow> TargetDataLayoutErrors + TargetDataLayout \<times> u64" where
  "vector_spec s a state =
     (let (dl, src) = state in
      and_then (parse_size (tl s) (str ''v'')) (\<lambda>v_size.
      and_then (parse_align a s) (\<lambda>a.
        Inr (dl\<lparr>vector_align := set_vector v_size a (vector_align dl)\<rparr>, src))))"

definition pointer_spec :: "uchar list \<Rightarrow> uchar list \<Rightarrow> uchar list list \<Rightarrow> TargetDataLayout \<times> u64 \<Rightarrow> TargetDataLayoutErrors + TargetDataLayout \<times> u64" where
  "pointer_spec p s a state =
     (let (dl, src) = state in
      and_then (parse_size s p) (\<lambda>n.
      and_then (parse_align a p) (\<lambda>a. Inr (dl\<lparr>pointer_size := n, pointer_align := a\<rparr>, src))))"

definition parse_spec :: "uchar list list \<Rightarrow> TargetDataLayout \<times> u64 \<Rightarrow> TargetDataLayoutErrors + TargetDataLayout \<times> u64" where
  "parse_spec spec_parts state =
     (let (dl, src) = state in
      case spec_parts of
        [] \<Rightarrow> Inr state
      | s # a \<Rightarrow>
          if s = str ''e'' \<and> a = [] then Inr (dl\<lparr>endian := Little\<rparr>, src)
          else if s = str ''E'' \<and> a = [] then Inr (dl\<lparr>endian := Big\<rparr>, src)
          else if starts_with CHR ''P'' s \<and> a = [] then
            and_then (parse_address_space (tl s) (str ''P'')) (\<lambda>n. Inr (dl\<lparr>instruction_address_space := n\<rparr>, src))
          else if s = str ''a'' then and_then (parse_align a (str ''a'')) (\<lambda>al. Inr (dl\<lparr>aggregate_align := al\<rparr>, src))
          else if s = str ''f32'' then and_then (parse_align a (str ''f32'')) (\<lambda>al. Inr (dl\<lparr>f32_align := al\<rparr>, src))
          else if s = str ''f64'' then and_then (parse_align a (str ''f64'')) (\<lambda>al. Inr (dl\<lparr>f64_align := al\<rparr>, src))
          else if (s = str ''p'' \<or> s = str ''p0'') \<and> a \<noteq> [] then pointer_spec s (hd a) (tl a) state
          else if starts_with CHR ''i'' s then int_spec s a state
          else if starts_with CHR ''v'' s then vector_spec s a state
          else Inr state)"

fun parse_specs :: "uchar list list \<Rightarrow> TargetDataLayout \<times> u64 \<Rightarrow> TargetDataLayoutErrors + TargetDataLayout \<times> u64" where
  "parse_specs [] state = Inr state"
| "parse_specs (spec # specs) state = and_then (parse_spec (split_on (ch CHR '':'') spec) state) (parse_specs specs)"

definition parse_from_llvm_datalayout_string :: "uchar list \<Rightarrow> (TargetDataLayoutErrors + TargetDataLayout) option" where
  "parse_from_llvm_datalayout_string input = do {
     dl \<leftarrow> dl_default;
     Some (and_then (parse_specs (split_on (ch CHR ''-'') input) (dl, 64)) (\<lambda>(dl, src). Inr dl))
   }"

subsection \<open>Valid layouts\<close>

lemma and_then_Inr: "and_then r f = Inr y \<longleftrightarrow> (\<exists>x. r = Inr x \<and> f x = Inr y)"
  by (cases r) (simp_all add: and_then_def)

lemma map_err_Inr: "map_err f r = Inr x \<longleftrightarrow> r = Inr x"
  by (cases r) (simp_all add: map_err_def)

lemmas result_simps = and_then_Inr map_err_Inr

lemma align_from_bits_ok: "align_from_bits b = Inr a \<Longrightarrow> align_ok a"
  using align_from_bytes_spec(1) by (simp add: align_from_bits_def)

lemma parse_align_ok: "parse_align s cause = Inr a \<Longrightarrow> aap_ok a"
  by (cases s) (auto simp: parse_align_def Let_def result_simps aap_ok_def align_from_bits_ok)

lemma set_vector_mem: "x \<in> set (set_vector n a vs) \<Longrightarrow> snd x = a \<or> x \<in> set vs"
  by (induction n a vs rule: set_vector.induct) (auto split: if_splits)

definition good :: "TargetDataLayout \<Rightarrow> bool" where
  "good dl \<longleftrightarrow> dl_ok dl \<and> c_enum_min_size dl = I32"

lemma good_updates:
  assumes "good dl"
  shows "good (dl\<lparr>endian := e\<rparr>)" "good (dl\<lparr>instruction_address_space := n\<rparr>)"
    "aap_ok a \<Longrightarrow> good (dl\<lparr>aggregate_align := a\<rparr>)" "aap_ok a \<Longrightarrow> good (dl\<lparr>f32_align := a\<rparr>)" "aap_ok a \<Longrightarrow> good (dl\<lparr>f64_align := a\<rparr>)"
    "aap_ok a \<Longrightarrow> good (dl\<lparr>pointer_size := sz, pointer_align := a\<rparr>)" "aap_ok a \<Longrightarrow> good (dl\<lparr>i128_align := a\<rparr>)"
    "aap_ok a \<Longrightarrow> good (set_int_align b a dl)" "aap_ok a \<Longrightarrow> good (dl\<lparr>vector_align := set_vector v a (vector_align dl)\<rparr>)"
  using assms by (auto simp: good_def dl_ok_def set_int_align_def dest: set_vector_mem)

lemma parse_spec_good:
  assumes "parse_spec parts (dl, src) = Inr (dl', src')" and "good dl"
  shows "good dl'"
proof (cases parts)
  case Nil
  then show ?thesis using assms by (simp add: parse_spec_def)
next
  case (Cons s a)
  have "good dl'" if "int_spec s a (dl, src) = Inr (dl', src')"
    using that assms(2) good_updates parse_align_ok
    by (auto simp: int_spec_def Let_def result_simps split: sum.splits if_splits)
  moreover have "good dl'" if "vector_spec s a (dl, src) = Inr (dl', src')"
    using that assms(2) by (auto simp: vector_spec_def Let_def result_simps intro: good_updates parse_align_ok)
  moreover have "good dl'" if "pointer_spec s x b (dl, src) = Inr (dl', src')" for x b
    using that assms(2) by (auto simp: pointer_spec_def Let_def result_simps intro: good_updates parse_align_ok)
  ultimately show ?thesis
    using assms by (auto simp: Cons parse_spec_def Let_def result_simps split: if_splits intro: good_updates parse_align_ok)
qed

lemma parse_specs_good: "parse_specs specs (dl, src) = Inr (dl', src') \<Longrightarrow> good dl \<Longrightarrow> good dl'"
proof (induction specs arbitrary: dl src)
  case (Cons spec specs)
  then obtain dl1 src1 where "parse_spec (split_on (ch CHR '':'') spec) (dl, src) = Inr (dl1, src1)" "parse_specs specs (dl1, src1) = Inr (dl', src')"
    by (auto simp: result_simps)
  then show ?case using Cons.IH parse_spec_good Cons.prems(2) by blast
qed simp

subsection \<open>The alignment of 128-bit integers\<close>

text \<open>The integer specifications in the order of the string.\<close>

definition int_entry :: "uchar list \<Rightarrow> (u64 \<times> AbiAndPrefAlign) option" where
  "int_entry spec =
     (case split_on (ch CHR '':'') spec of
        s # a \<Rightarrow> (if starts_with CHR ''i'' s
          then (case (from_str_radix10 (tl s) :: IntErrorKind + u64) of
                  Inl e \<Rightarrow> None
                | Inr bits \<Rightarrow> (case parse_align a s of Inl e \<Rightarrow> None | Inr al \<Rightarrow> Some (bits, al)))
          else None)
      | [] \<Rightarrow> None)"

definition pick_i128 :: "u64 \<times> AbiAndPrefAlign \<Rightarrow> u64 \<times> AbiAndPrefAlign \<Rightarrow> u64 \<times> AbiAndPrefAlign" where
  "pick_i128 old entry = (if fst old \<le> fst entry \<and> fst entry \<le> 128 then entry else old)"

lemma i128_set_int_align [simp]: "i128_align (set_int_align b a dl) = i128_align dl"
  by (simp add: set_int_align_def)

lemma parse_spec_choose:
  assumes "parse_spec (split_on (ch CHR '':'') spec) (dl, src) = Inr (dl', src')"
  shows "(src', i128_align dl') = (case int_entry spec of None \<Rightarrow> (src, i128_align dl) | Some e \<Rightarrow> pick_i128 (src, i128_align dl) e)"
proof (cases "split_on (ch CHR '':'') spec")
  case Nil
  then show ?thesis using assms by (simp add: parse_spec_def int_entry_def)
next
  case (Cons s a)
  show ?thesis
  proof (cases "starts_with CHR ''i'' s")
    case True
    then have "parse_spec (s # a) (dl, src) = int_spec s a (dl, src)"
      by (cases s) (auto simp: parse_spec_def str_def)
    then show ?thesis
      using assms True unfolding int_entry_def Cons
      by (auto simp: int_spec_def Let_def result_simps pick_i128_def parse_size_def parse_bits_def map_err_def and_then_def split: sum.splits if_splits)
  next
    case False
    have "int_entry spec = None" unfolding int_entry_def Cons using False by simp
    moreover have "(src', i128_align dl') = (src, i128_align dl)"
      using assms False unfolding Cons
      by (auto simp: parse_spec_def vector_spec_def pointer_spec_def Let_def result_simps split: if_splits)
    ultimately show ?thesis by simp
  qed
qed

lemma parse_specs_pick:
  "parse_specs specs (dl, src) = Inr (dl', src') \<Longrightarrow>
    (src', i128_align dl') = foldl pick_i128 (src, i128_align dl) (List.map_filter int_entry specs)"
proof (induction specs arbitrary: dl src)
  case (Cons spec specs)
  then obtain dl1 src1 where 1: "parse_spec (split_on (ch CHR '':'') spec) (dl, src) = Inr (dl1, src1)" "parse_specs specs (dl1, src1) = Inr (dl', src')"
    by (auto simp: result_simps)
  show ?case using Cons.IH [OF 1(2)] parse_spec_choose [OF 1(1)] by (simp add: List.map_filter_simps split: option.splits)
qed (simp add: List.map_filter_simps)

text \<open>The entry picked: the last one of the largest width up to 128.\<close>

lemma pick_le: "fst p \<le> m \<Longrightarrow> \<forall>e \<in> set es. fst e \<le> 128 \<longrightarrow> fst e \<le> m \<Longrightarrow> fst (foldl pick_i128 p es) \<le> m"
proof (induction es arbitrary: p)
  case (Cons e es)
  have "fst (pick_i128 p e) \<le> m" using Cons.prems by (auto simp: pick_i128_def)
  then show ?case using Cons.IH [of "pick_i128 p e"] Cons.prems(2) by simp
qed simp

lemma pick_none: "\<forall>e \<in> set es. fst e \<le> 128 \<longrightarrow> fst e < fst p \<Longrightarrow> foldl pick_i128 p es = p"
  by (induction es) (auto simp: pick_i128_def)

lemma pick_last:
  assumes "fst p \<le> fst e" and "fst e \<le> 128"
    and "\<forall>e' \<in> set xs. fst e' \<le> 128 \<longrightarrow> fst e' \<le> fst e" and "\<forall>e' \<in> set ys. fst e' \<le> 128 \<longrightarrow> fst e' < fst e"
  shows "foldl pick_i128 p (xs @ e # ys) = e"
proof -
  have "fst (foldl pick_i128 p xs) \<le> fst e" using assms(1,3) by (rule pick_le)
  then have "foldl pick_i128 p (xs @ [e]) = e" using assms(2) by (simp add: pick_i128_def)
  then show ?thesis using pick_none [OF assms(4)] by simp
qed

text \<open>
  C14: the parser of data layouts returns a layout or one of its errors on every string,
  and never panics. Every alignment of a layout it returns is a valid alignment, of which
  \<open>bytes\<close> does not overflow, and the smallest enum size is the default. The alignment of
  128-bit integers is that of the last of the widest integer specifications of 64 to 128
  bits, and the default's when there is none.
\<close>

theorem parse_layout_valid:
  "\<exists>r default. parse_from_llvm_datalayout_string input = Some r \<and> dl_default = Some default \<and>
    (\<forall>dl entries. r = Inr dl \<and> entries = List.map_filter int_entry (split_on (ch CHR ''-'') input) \<longrightarrow>
      dl_ok dl \<and> c_enum_min_size dl = I32 \<and>
      ((\<forall>e \<in> set entries. fst e \<le> 128 \<longrightarrow> fst e < 64) \<longrightarrow> i128_align dl = i128_align default) \<and>
      (\<forall>xs b a ys. entries = xs @ (b, a) # ys \<and> 64 \<le> b \<and> b \<le> 128 \<and>
         (\<forall>e \<in> set xs. fst e \<le> 128 \<longrightarrow> fst e \<le> b) \<and> (\<forall>e \<in> set ys. fst e \<le> 128 \<longrightarrow> fst e < b) \<longrightarrow> i128_align dl = a))"
proof -
  obtain d where d: "dl_default = Some d" "good d" using default_layout unfolding good_def by blast
  let ?specs = "split_on (ch CHR ''-'') input"
  let ?r = "and_then (parse_specs ?specs (d, 64)) (\<lambda>(dl, src). Inr dl)"
  have r: "parse_from_llvm_datalayout_string input = Some ?r" by (simp add: parse_from_llvm_datalayout_string_def d(1))
  show ?thesis
  proof (intro exI conjI allI impI; (elim conjE)?)
    show "parse_from_llvm_datalayout_string input = Some ?r" by (rule r)
    show "dl_default = Some d" by (rule d(1))
    fix dl entries assume "?r = Inr dl" and entries: "entries = List.map_filter int_entry ?specs"
    then obtain src where dl: "parse_specs ?specs (d, 64) = Inr (dl, src)" by (auto simp: and_then_Inr)
    show "dl_ok dl" "c_enum_min_size dl = I32" using parse_specs_good [OF dl d(2)] by (simp_all add: good_def)
    have pick: "(src, i128_align dl) = foldl pick_i128 (64, i128_align d) entries" using parse_specs_pick [OF dl] entries by simp
    show "i128_align dl = i128_align d" if "\<forall>e \<in> set entries. fst e \<le> 128 \<longrightarrow> fst e < 64"
      using pick pick_none [of entries "(64, i128_align d)"] that by simp
    show "i128_align dl = a" if "entries = xs @ (b, a) # ys" "64 \<le> b" "b \<le> 128"
      "\<forall>e \<in> set xs. fst e \<le> 128 \<longrightarrow> fst e \<le> b" "\<forall>e \<in> set ys. fst e \<le> 128 \<longrightarrow> fst e < b" for xs b a ys
      using pick pick_last [of "(64, i128_align d)" "(b, a)" xs ys] that by simp
  qed
qed

lemmas layout_eval = from_str_radix10_def can_not_overflow_def str_len_def len_utf8_def to_digit10_def is_digit10_def
  parse_align_def parse_bits_def map_err_def and_then_def align_from_bits_pow aap_new_def Let_def

theorem parse_layout_valid_witness:
  "\<exists>dl. parse_from_llvm_datalayout_string (str ''e-i128:128-i64:64'') = Some (Inr dl) \<and> dl_ok dl \<and> i128_align dl = aap_new \<lparr>pow2 = 4\<rparr>"
proof -
  have entries: "List.map_filter int_entry (split_on (ch CHR ''-'') (str ''e-i128:128-i64:64'')) =
      [] @ (128, aap_new \<lparr>pow2 = 4\<rparr>) # [(64, aap_new \<lparr>pow2 = 3\<rparr>)]"
    by (simp add: str_def int_entry_def List.map_filter_simps layout_eval)
  obtain d where d: "dl_default = Some d" using default_layout by blast
  obtain dl where dl: "parse_from_llvm_datalayout_string (str ''e-i128:128-i64:64'') = Some (Inr dl)"
    unfolding parse_from_llvm_datalayout_string_def d by (simp add: parse_spec_def int_spec_def str_def layout_eval)
  obtain r default where r: "parse_from_llvm_datalayout_string (str ''e-i128:128-i64:64'') = Some r" and "dl_default = Some default"
    and valid: "\<forall>dl entries. r = Inr dl \<and> entries = List.map_filter int_entry (split_on (ch CHR ''-'') (str ''e-i128:128-i64:64'')) \<longrightarrow>
      dl_ok dl \<and> c_enum_min_size dl = I32 \<and>
      ((\<forall>e \<in> set entries. fst e \<le> 128 \<longrightarrow> fst e < 64) \<longrightarrow> i128_align dl = i128_align default) \<and>
      (\<forall>xs b a ys. entries = xs @ (b, a) # ys \<and> 64 \<le> b \<and> b \<le> 128 \<and>
         (\<forall>e \<in> set xs. fst e \<le> 128 \<longrightarrow> fst e \<le> b) \<and> (\<forall>e \<in> set ys. fst e \<le> 128 \<longrightarrow> fst e < b) \<longrightarrow> i128_align dl = a)"
    using parse_layout_valid [of "str ''e-i128:128-i64:64''"] by (elim exE conjE) (rule that)
  have "r = Inr dl" using r dl by simp
  note all = valid [THEN spec, THEN spec, THEN mp, OF conjI, OF this entries [symmetric]]
  then have "i128_align dl = aap_new \<lparr>pow2 = 4\<rparr>"
    by (elim conjE allE [of _ "[]"] allE [of _ 128] allE [of _ "aap_new \<lparr>pow2 = 4\<rparr>"] allE [of _ "[(64, aap_new \<lparr>pow2 = 3\<rparr>)]"]) simp
  then show ?thesis using dl all by blast
qed

end
