(* ===== verification/Layout_Types.thy ===== *)
theory Layout_Types
  imports Abi_Layout "HOL-Library.Multiset" "HOL-Library.Product_Lexorder"
begin

text \<open>
  The layouts of \<open>rustc_abi\<close>: representation options, the layout of a type with its
  variants, the layouts of scalars, fields and curves, and the pair of two scalars of
  \<open>rustc_abi/src/layout.rs\<close>.

  The crates the layout code calls are an argument of type \<open>externs\<close>: the two tests of the
  \<open>bitflags\<close> macro, the cargo feature \<open>randomize\<close> and the shuffle of \<open>rand\<close> with its seed.
\<close>

subsection \<open>Representation options\<close>

record externs =
  flags_contain :: "u8 \<Rightarrow> u8 \<Rightarrow> bool"
  flags_intersect :: "u8 \<Rightarrow> u8 \<Rightarrow> bool"
  feature_randomize :: bool
  shuffle :: "u64 \<Rightarrow> nat list \<Rightarrow> nat list"

definition IS_C :: u8 where "IS_C = push_bit 0 1"
definition IS_SIMD :: u8 where "IS_SIMD = push_bit 1 1"
definition IS_TRANSPARENT :: u8 where "IS_TRANSPARENT = push_bit 2 1"
definition IS_LINEAR :: u8 where "IS_LINEAR = push_bit 3 1"
definition RANDOMIZE_LAYOUT :: u8 where "RANDOMIZE_LAYOUT = push_bit 4 1"
definition IS_UNOPTIMISABLE :: u8 where "IS_UNOPTIMISABLE = IS_C OR IS_SIMD OR IS_LINEAR"

record ReprOptions =
  repr_int :: "IntegerType option"
  repr_align :: "Align option"
  repr_pack :: "Align option"
  repr_flags :: u8
  field_shuffle_seed :: u64

definition repr_simd :: "externs \<Rightarrow> ReprOptions \<Rightarrow> bool" where
  "repr_simd ex self = flags_contain ex (repr_flags self) IS_SIMD"

definition repr_c :: "externs \<Rightarrow> ReprOptions \<Rightarrow> bool" where
  "repr_c ex self = flags_contain ex (repr_flags self) IS_C"

definition repr_packed :: "ReprOptions \<Rightarrow> bool" where
  "repr_packed self = (repr_pack self \<noteq> None)"

definition repr_transparent :: "externs \<Rightarrow> ReprOptions \<Rightarrow> bool" where
  "repr_transparent ex self = flags_contain ex (repr_flags self) IS_TRANSPARENT"

definition repr_linear :: "externs \<Rightarrow> ReprOptions \<Rightarrow> bool" where
  "repr_linear ex self = flags_contain ex (repr_flags self) IS_LINEAR"

definition discr_type :: "ReprOptions \<Rightarrow> IntegerType" where
  "discr_type self = (case repr_int self of Some i \<Rightarrow> i | None \<Rightarrow> PointerSized True)"

definition inhibit_enum_layout_opt :: "externs \<Rightarrow> ReprOptions \<Rightarrow> bool" where
  "inhibit_enum_layout_opt ex self \<longleftrightarrow> repr_c ex self \<or> repr_int self \<noteq> None"

definition inhibit_struct_field_reordering_opt :: "externs \<Rightarrow> ReprOptions \<Rightarrow> bool option" where
  "inhibit_struct_field_reordering_opt ex self = do {
     packed1 \<leftarrow> (case repr_pack self of
         None \<Rightarrow> Some False
       | Some pack \<Rightarrow> do { b \<leftarrow> align_bytes pack; Some (b = 1) });
     Some (packed1 \<or> flags_intersect ex (repr_flags self) IS_UNOPTIMISABLE \<or> repr_int self \<noteq> None)
   }"

definition can_randomize_type_layout :: "externs \<Rightarrow> ReprOptions \<Rightarrow> bool option" where
  "can_randomize_type_layout ex self = do {
     inhibit \<leftarrow> inhibit_struct_field_reordering_opt ex self;
     Some (\<not> inhibit \<and> flags_contain ex (repr_flags self) RANDOMIZE_LAYOUT)
   }"

definition inhibit_union_abi_opt :: "externs \<Rightarrow> ReprOptions \<Rightarrow> bool" where
  "inhibit_union_abi_opt ex self = repr_c ex self"

subsection \<open>Layouts\<close>

text \<open>A range of variants is its first and its last index.\<close>

datatype TagEncoding = Direct | NicheEncoding nat "nat \<times> nat" u128

datatype LayoutS =
    LayoutS (lfields: FieldsShape) (lvariants: Variants) (labi: Abi) (largest_niche: "Niche option")
      (lalign: AbiAndPrefAlign) (lsize: Size) (max_repr_align: "Align option") (unadjusted_abi_align: Align)
and Variants =
    Single nat
  | Multiple Scalar TagEncoding nat "LayoutS list"

definition FIRST_VARIANT :: nat where "FIRST_VARIANT = 0"

text \<open>The assignments to the fields of a layout.\<close>

fun set_variants :: "Variants \<Rightarrow> LayoutS \<Rightarrow> LayoutS" where
  "set_variants v (LayoutS f v0 a n al s m u) = LayoutS f v a n al s m u"

fun set_fields :: "FieldsShape \<Rightarrow> LayoutS \<Rightarrow> LayoutS" where
  "set_fields f (LayoutS f0 v a n al s m u) = LayoutS f v a n al s m u"

fun set_abi :: "Abi \<Rightarrow> LayoutS \<Rightarrow> LayoutS" where
  "set_abi a (LayoutS f v a0 n al s m u) = LayoutS f v a n al s m u"

fun set_largest_niche :: "Niche option \<Rightarrow> LayoutS \<Rightarrow> LayoutS" where
  "set_largest_niche n (LayoutS f v a n0 al s m u) = LayoutS f v a n al s m u"

fun set_align :: "AbiAndPrefAlign \<Rightarrow> LayoutS \<Rightarrow> LayoutS" where
  "set_align al (LayoutS f v a n al0 s m u) = LayoutS f v a n al s m u"

fun set_size :: "Size \<Rightarrow> LayoutS \<Rightarrow> LayoutS" where
  "set_size s (LayoutS f v a n al s0 m u) = LayoutS f v a n al s m u"

fun is_zst_abi :: "Abi \<Rightarrow> Size \<Rightarrow> bool" where
  "is_zst_abi (AbiScalar s) n = False"
| "is_zst_abi (ScalarPair s1 s2) n = False"
| "is_zst_abi (Vector e c) n = False"
| "is_zst_abi (AbiField f) n = False"
| "is_zst_abi (AbiCurve c) n = False"
| "is_zst_abi Uninhabited n = (raw n = 0)"
| "is_zst_abi (Aggregate sized) n = (sized \<and> raw n = 0)"

definition is_zst :: "LayoutS \<Rightarrow> bool" where
  "is_zst self = is_zst_abi (labi self) (lsize self)"

definition is_pointer_like :: "LayoutS \<Rightarrow> TargetDataLayout \<Rightarrow> bool" where
  "is_pointer_like self data_layout \<longleftrightarrow>
     lsize self = pointer_size data_layout \<and> abi (lalign self) = abi (pointer_align data_layout) \<and> abi_is_scalar (labi self)"

definition layout_scalar :: "TargetDataLayout \<Rightarrow> Scalar \<Rightarrow> LayoutS option" where
  "layout_scalar cx scalar = do {
     niche \<leftarrow> niche_from_scalar cx ZERO scalar;
     let al = scalar_align scalar cx;
     Some (LayoutS PrimitiveShape (Single FIRST_VARIANT) (AbiScalar scalar) niche al (scalar_size scalar cx) None (abi al))
   }"

definition layout_field :: "Field \<Rightarrow> LayoutS option" where
  "layout_field field = do {
     al \<leftarrow> field_align;
     Some (LayoutS PrimitiveShape (Single FIRST_VARIANT) (AbiField field) None al (field_size field) None (abi al))
   }"

definition layout_curve :: "Curve \<Rightarrow> LayoutS option" where
  "layout_curve curve = do {
     sz \<leftarrow> curve_size curve;
     al \<leftarrow> curve_align;
     Some (LayoutS PrimitiveShape (Single FIRST_VARIANT) (AbiCurve curve) None al sz None (abi al))
   }"

datatype StructKind = AlwaysSized | MaybeUnsized | Prefixed Size Align

subsection \<open>Iterators\<close>

text \<open>\<open>Iterator::max_by_key\<close> returns the last of the elements with the greatest key.\<close>

definition max_by_key :: "('a \<Rightarrow> 'k :: linorder option) \<Rightarrow> 'a list \<Rightarrow> 'a option option" where
  "max_by_key key xs = do {
     ks \<leftarrow> those (map key xs);
     Some (case zip ks xs of
             [] \<Rightarrow> None
           | p # ps \<Rightarrow> Some (snd (fold (\<lambda>y x. if fst x \<le> fst y then y else x) ps p)))
   }"

definition iter_max :: "'k :: linorder list \<Rightarrow> 'k option" where
  "iter_max ks = (case ks of [] \<Rightarrow> None | k # ks \<Rightarrow> Some (fold max ks k))"

text \<open>
  \<open>slice::sort_by_key\<close>, a stable sort. The key of every element is computed when there are two
  elements or more.
\<close>

definition sort_by_key :: "('a \<Rightarrow> 'k :: linorder option) \<Rightarrow> 'a list \<Rightarrow> 'a list option" where
  "sort_by_key key xs =
     (if length xs < 2 then Some xs
      else do { ks \<leftarrow> those (map key xs); Some (map snd (sort_key fst (zip ks xs))) })"

subsection \<open>Pairs of scalars\<close>

definition scalar_pair :: "TargetDataLayout \<Rightarrow> Scalar \<Rightarrow> Scalar \<Rightarrow> LayoutS option" where
  "scalar_pair dl a b = do {
     let b_align = scalar_align b dl;
     let align = aap_max (aap_max (scalar_align a dl) b_align) (aggregate_align dl);
     b_offset \<leftarrow> size_align_to (scalar_size a dl) (abi b_align);
     s \<leftarrow> size_add b_offset (scalar_size b dl);
     size \<leftarrow> size_align_to s (abi align);
     nb \<leftarrow> niche_from_scalar dl b_offset b;
     na \<leftarrow> niche_from_scalar dl ZERO a;
     niche \<leftarrow> max_by_key (\<lambda>niche. niche_available niche dl) (case_option [] (\<lambda>n. [n]) nb @ case_option [] (\<lambda>n. [n]) na);
     Some (LayoutS (Arbitrary [ZERO, b_offset] [0, 1]) (Single FIRST_VARIANT) (ScalarPair a b) niche align size None (abi align))
   }"

end
