(* ===== verification/Layout_Univariant.thy ===== *)
theory Layout_Univariant
  imports Layout_Types
begin

text \<open>
  The layout of one variant (\<open>rustc_abi/src/layout.rs\<close>, the function and the method
  \<open>univariant\<close>): the order of the fields, their offsets, the largest niche, and the class
  of the result. The outer option of a result is a panic, the inner one the \<open>None\<close> the code
  returns when the size is out of bounds.

  The data layout is the one of the calculator. The method \<open>delay_bug\<close> of the calculator has
  no result; the loop over the fields records its calls, and nothing else depends on them.
\<close>

datatype NicheBias = BiasStart | BiasEnd

subsection \<open>The order of the fields\<close>

definition niche_size_of :: "TargetDataLayout \<Rightarrow> LayoutS \<Rightarrow> u128 option" where
  "niche_size_of dl layout = (case largest_niche layout of None \<Rightarrow> Some 0 | Some n \<Rightarrow> niche_available n dl)"

definition alignment_group_key ::
    "TargetDataLayout \<Rightarrow> Align option \<Rightarrow> NicheBias \<Rightarrow> u64 \<Rightarrow> u128 \<Rightarrow> LayoutS \<Rightarrow> u64 option" where
  "alignment_group_key dl pack niche_bias max_field_align largest_niche_size layout =
     (case pack of
        Some pack \<Rightarrow> align_bytes (align_min (abi (lalign layout)) pack)
      | None \<Rightarrow> do {
          align \<leftarrow> align_bytes (abi (lalign layout));
          let size = raw (lsize layout);
          niche_size \<leftarrow> niche_size_of dl layout;
          let size_as_align = trailing_zeros (max align size);
          let size_as_align =
            (if largest_niche_size > 0 then
               (case niche_bias of
                  BiasStart \<Rightarrow> min (trailing_zeros max_field_align) size_as_align
                | BiasEnd \<Rightarrow> if niche_size = largest_niche_size then trailing_zeros align else size_as_align)
             else size_as_align);
          Some (of_nat size_as_align)
        })"

text \<open>
  The sort keys. \<open>cmp::Reverse\<close> is the negated number; the first component of the key of a
  sized or unsizable struct is false for zero-sized fields.
\<close>

definition struct_sort_key ::
    "TargetDataLayout \<Rightarrow> (LayoutS \<Rightarrow> u64 option) \<Rightarrow> NicheBias \<Rightarrow> LayoutS \<Rightarrow> (bool \<times> int \<times> u128 \<times> u64) option" where
  "struct_sort_key dl group_key niche_bias f = do {
     let field_size = raw (lsize f);
     niche_size \<leftarrow> niche_size_of dl f;
     let niche_size_key = (case niche_bias of BiasStart \<Rightarrow> NOT niche_size | BiasEnd \<Rightarrow> niche_size);
     inner_niche_offset_key \<leftarrow> (case niche_bias of
         BiasStart \<Rightarrow> Some (case largest_niche f of None \<Rightarrow> 0 | Some n \<Rightarrow> raw (niche_offset n))
       | BiasEnd \<Rightarrow> (case largest_niche f of
             None \<Rightarrow> Some 0
           | Some n \<Rightarrow> do {
               d \<leftarrow> checked_sub_u64 field_size (raw (primitive_size (niche_value n) dl));
               d \<leftarrow> checked_sub_u64 d (raw (niche_offset n));
               Some (NOT d)
             }));
     k \<leftarrow> group_key f;
     Some (\<not> is_zst f, - uint k, niche_size_key, inner_niche_offset_key)
   }"

definition prefixed_sort_key :: "TargetDataLayout \<Rightarrow> (LayoutS \<Rightarrow> u64 option) \<Rightarrow> LayoutS \<Rightarrow> (u64 \<times> u128) option" where
  "prefixed_sort_key dl group_key f = do {
     niche_size \<leftarrow> niche_size_of dl f;
     k \<leftarrow> group_key f;
     Some (k, niche_size)
   }"

definition optimize_order ::
    "TargetDataLayout \<Rightarrow> LayoutS list \<Rightarrow> Align option \<Rightarrow> StructKind \<Rightarrow> NicheBias \<Rightarrow> nat list \<Rightarrow> LayoutS list \<Rightarrow> nat list option" where
  "optimize_order dl flds pack kind niche_bias optimizing fields_excluding_tail = do {
     aligns \<leftarrow> those (map (\<lambda>f. align_bytes (abi (lalign f))) fields_excluding_tail);
     let max_field_align = (case iter_max aligns of Some a \<Rightarrow> a | None \<Rightarrow> 1);
     niches \<leftarrow> those (map (\<lambda>n. niche_available n dl) (List.map_filter largest_niche fields_excluding_tail));
     let largest_niche_size = (case iter_max niches of Some a \<Rightarrow> a | None \<Rightarrow> 0);
     let group_key = alignment_group_key dl pack niche_bias max_field_align largest_niche_size;
     case kind of
       Prefixed _ _ \<Rightarrow> sort_by_key (\<lambda>x. do { f \<leftarrow> idx flds x; prefixed_sort_key dl group_key f }) optimizing
     | _ \<Rightarrow> sort_by_key (\<lambda>x. do { f \<leftarrow> idx flds x; struct_sort_key dl group_key niche_bias f }) optimizing
   }"

text \<open>The indices of the fields by increasing offset.\<close>

definition univariant_order ::
    "externs \<Rightarrow> TargetDataLayout \<Rightarrow> LayoutS list \<Rightarrow> ReprOptions \<Rightarrow> StructKind \<Rightarrow> NicheBias \<Rightarrow> nat list option" where
  "univariant_order ex dl flds repr kind niche_bias = do {
     inverse_memory_index \<leftarrow> those (map field_idx [0..<length flds]);
     inhibit \<leftarrow> inhibit_struct_field_reordering_opt ex repr;
     if \<not> inhibit \<and> length flds > 1 then do {
       let end' = (case kind of MaybeUnsized \<Rightarrow> length flds - 1 | _ \<Rightarrow> length flds);
       let optimizing = take end' inverse_memory_index;
       let fields_excluding_tail = take end' flds;
       randomize \<leftarrow> can_randomize_type_layout ex repr;
       optimized \<leftarrow> (if randomize \<and> feature_randomize ex then Some (shuffle ex (field_shuffle_seed repr) optimizing)
                     else optimize_order dl flds (repr_pack repr) kind niche_bias optimizing fields_excluding_tail);
       Some (optimized @ drop end' inverse_memory_index)
     }
     else Some inverse_memory_index
   }"

subsection \<open>The offsets\<close>

record Placement =
  pl_sized :: bool
  pl_offsets :: "Size list"
  pl_offset :: Size
  pl_align :: AbiAndPrefAlign
  pl_max_repr_align :: "Align option"
  pl_niche :: "Niche option"
  pl_available :: u128
  pl_delayed_bugs :: nat

definition max_align_option :: "Align option \<Rightarrow> Align option \<Rightarrow> Align option" where
  "max_align_option a b =
     (case a of None \<Rightarrow> b | Some x \<Rightarrow> (case b of None \<Rightarrow> a | Some y \<Rightarrow> Some (align_max x y)))"

definition packed_align :: "Align option \<Rightarrow> LayoutS \<Rightarrow> AbiAndPrefAlign" where
  "packed_align pack field =
     (case pack of Some pack \<Rightarrow> aap_min (lalign field) (aap_new pack) | None \<Rightarrow> lalign field)"

definition place_field ::
    "TargetDataLayout \<Rightarrow> LayoutS list \<Rightarrow> Align option \<Rightarrow> NicheBias \<Rightarrow> nat \<Rightarrow> Placement \<Rightarrow> Placement option option" where
  "place_field dl flds pack niche_bias i st = do {
     field \<leftarrow> idx flds i;
     let bugs = (if \<not> pl_sized st then pl_delayed_bugs st + 1 else pl_delayed_bugs st);
     let sized = (if is_unsized (labi field) then False else pl_sized st);
     let field_align = packed_align pack field;
     offset \<leftarrow> size_align_to (pl_offset st) (abi field_align);
     let align = aap_max (pl_align st) field_align;
     let repr_align = max_align_option (pl_max_repr_align st) (max_repr_align field);
     offsets \<leftarrow> idx_set (pl_offsets st) i offset;
     (niche, available) \<leftarrow> (case largest_niche field of
         None \<Rightarrow> Some (pl_niche st, pl_available st)
       | Some niche \<Rightarrow> do {
           available \<leftarrow> niche_available niche dl;
           let prefer_new_niche = (case niche_bias of
               BiasStart \<Rightarrow> available > pl_available st
             | BiasEnd \<Rightarrow> available \<ge> pl_available st);
           if prefer_new_niche then do {
             off \<leftarrow> size_add (niche_offset niche) offset;
             Some (Some (niche\<lparr>niche_offset := off\<rparr>), available)
           }
           else Some (pl_niche st, pl_available st)
         });
     r \<leftarrow> size_checked_add offset (lsize field) dl;
     Some (case r of
         None \<Rightarrow> None
       | Some offset \<Rightarrow> Some \<lparr>pl_sized = sized, pl_offsets = offsets, pl_offset = offset, pl_align = align,
           pl_max_repr_align = repr_align, pl_niche = niche, pl_available = available, pl_delayed_bugs = bugs\<rparr>)
   }"

fun place_fields ::
    "TargetDataLayout \<Rightarrow> LayoutS list \<Rightarrow> Align option \<Rightarrow> NicheBias \<Rightarrow> nat list \<Rightarrow> Placement \<Rightarrow> Placement option option" where
  "place_fields dl flds pack niche_bias [] st = Some (Some st)"
| "place_fields dl flds pack niche_bias (i # is) st = do {
     r \<leftarrow> place_field dl flds pack niche_bias i st;
     case r of
       None \<Rightarrow> Some None
     | Some st \<Rightarrow> place_fields dl flds pack niche_bias is st
   }"

definition initial_placement :: "TargetDataLayout \<Rightarrow> LayoutS list \<Rightarrow> ReprOptions \<Rightarrow> StructKind \<Rightarrow> Placement option" where
  "initial_placement dl flds repr kind = do {
     let align = (if repr_pack repr \<noteq> None then i8_align dl else aggregate_align dl);
     let st = \<lparr>pl_sized = True, pl_offsets = replicate (length flds) ZERO, pl_offset = ZERO, pl_align = align,
       pl_max_repr_align = repr_align repr, pl_niche = None, pl_available = 0, pl_delayed_bugs = 0\<rparr>;
     case kind of
       Prefixed prefix_size prefix_align \<Rightarrow> do {
         let prefix_align = (case repr_pack repr of Some pack \<Rightarrow> align_min prefix_align pack | None \<Rightarrow> prefix_align);
         offset \<leftarrow> size_align_to prefix_size prefix_align;
         Some (st\<lparr>pl_align := aap_max align (aap_new prefix_align), pl_offset := offset\<rparr>)
       }
     | _ \<Rightarrow> Some st
   }"

subsection \<open>The class of the layout\<close>

definition non_zst_fields :: "LayoutS list \<Rightarrow> (nat \<times> LayoutS) list" where
  "non_zst_fields flds = filter (\<lambda>(i, f). \<not> is_zst f) (enumerate 0 flds)"

definition newtype_abi :: "bool \<Rightarrow> Abi \<Rightarrow> Abi \<Rightarrow> Abi" where
  "newtype_abi optimize field_abi aggr =
     (case field_abi of
        AbiScalar _ \<Rightarrow> if optimize then field_abi else aggr
      | Vector _ _ \<Rightarrow> if optimize then field_abi else aggr
      | ScalarPair _ _ \<Rightarrow> field_abi
      | AbiField _ \<Rightarrow> field_abi
      | AbiCurve _ \<Rightarrow> field_abi
      | _ \<Rightarrow> aggr)"

definition pair_abi ::
    "TargetDataLayout \<Rightarrow> Size list \<Rightarrow> AbiAndPrefAlign \<Rightarrow> Size \<Rightarrow> nat \<times> Scalar \<Rightarrow> nat \<times> Scalar \<Rightarrow> Abi \<Rightarrow> Abi option" where
  "pair_abi dl offsets align sz ia jb aggr = do {
     let (i, a) = ia;
     let (j, b) = jb;
     oi \<leftarrow> idx offsets i;
     oj \<leftarrow> idx offsets j;
     let ((i, oi, a), (j, oj, b)) = (if raw oi < raw oj then ((i, oi, a), (j, oj, b)) else ((j, oj, b), (i, oi, a)));
     pair \<leftarrow> scalar_pair dl a b;
     case lfields pair of
       Arbitrary pair_offsets memory_index \<Rightarrow> do {
         rassert (memory_index = [0, 1]);
         p0 \<leftarrow> idx pair_offsets 0;
         p1 \<leftarrow> idx pair_offsets 1;
         Some (if oi = p0 \<and> oj = p1 \<and> align = lalign pair \<and> sz = lsize pair then labi pair else aggr)
       }
     | _ \<Rightarrow> None
   }"

text \<open>The class, and the layout of the only field that has a size, when it is looked for.\<close>

definition univariant_abi ::
    "TargetDataLayout \<Rightarrow> LayoutS list \<Rightarrow> bool \<Rightarrow> bool \<Rightarrow> Size list \<Rightarrow> AbiAndPrefAlign \<Rightarrow> Size \<Rightarrow> (Abi \<times> LayoutS option) option" where
  "univariant_abi dl flds optimize sized offsets align sz = do {
     (class, single) \<leftarrow>
       (if sized \<and> raw sz > 0 then
          (case non_zst_fields flds of
             [(i, field)] \<Rightarrow> do {
               oi \<leftarrow> idx offsets i;
               Some (if raw oi = 0 \<and> abi align = abi (lalign field) \<and> sz = lsize field
                     then newtype_abi optimize (labi field) (Aggregate sized) else Aggregate sized, Some field)
             }
           | [(i, a), (j, b)] \<Rightarrow>
               (case (labi a, labi b) of
                  (AbiScalar sa, AbiScalar sb) \<Rightarrow> do {
                    class \<leftarrow> pair_abi dl offsets align sz (i, sa) (j, sb) (Aggregate sized);
                    Some (class, None)
                  }
                | _ \<Rightarrow> Some (Aggregate sized, None))
           | _ \<Rightarrow> Some (Aggregate sized, None))
        else Some (Aggregate sized, None));
     Some (if \<exists>f \<in> set flds. is_uninhabited (labi f) then Uninhabited else class, single)
   }"

subsection \<open>The layout\<close>

definition univariant_biased ::
    "externs \<Rightarrow> TargetDataLayout \<Rightarrow> LayoutS list \<Rightarrow> ReprOptions \<Rightarrow> StructKind \<Rightarrow> NicheBias \<Rightarrow> LayoutS option option" where
  "univariant_biased ex dl flds repr kind niche_bias = do {
     inhibit \<leftarrow> inhibit_struct_field_reordering_opt ex repr;
     let optimize = (\<not> inhibit);
     inverse_memory_index \<leftarrow> univariant_order ex dl flds repr kind niche_bias;
     st \<leftarrow> initial_placement dl flds repr kind;
     placed \<leftarrow> place_fields dl flds (repr_pack repr) niche_bias inverse_memory_index st;
     case placed of
       None \<Rightarrow> Some None
     | Some st \<Rightarrow> do {
         let unadjusted = abi (pl_align st);
         let align = (case repr_align repr of Some a \<Rightarrow> aap_max (pl_align st) (aap_new a) | None \<Rightarrow> pl_align st);
         memory_index \<leftarrow>
           (if optimize then invert_bijective_mapping inverse_memory_index
            else do { rassert (inverse_memory_index = [0..<length flds]); Some inverse_memory_index });
         sz \<leftarrow> size_align_to (pl_offset st) (abi align);
         (class, single) \<leftarrow> univariant_abi dl flds optimize (pl_sized st) (pl_offsets st) align sz;
         let unadjusted =
           (if repr_transparent ex repr then (case single of Some l \<Rightarrow> unadjusted_abi_align l | None \<Rightarrow> abi align)
            else unadjusted);
         Some (Some (LayoutS (Arbitrary (pl_offsets st) memory_index) (Single FIRST_VARIANT) class (pl_niche st) align sz
           (pl_max_repr_align st) unadjusted))
       }
   }"

text \<open>The space before the niche of a layout, and the space after it.\<close>

definition niche_spaces :: "TargetDataLayout \<Rightarrow> LayoutS \<Rightarrow> Niche \<Rightarrow> (u64 \<times> u64) option" where
  "niche_spaces dl layout niche = do {
     let head_space = raw (niche_offset niche);
     let niche_length = raw (primitive_size (niche_value niche) dl);
     t \<leftarrow> checked_sub_u64 (raw (lsize layout)) head_space;
     tail_space \<leftarrow> checked_sub_u64 t niche_length;
     Some (head_space, tail_space)
   }"

definition univariant ::
    "externs \<Rightarrow> TargetDataLayout \<Rightarrow> LayoutS list \<Rightarrow> ReprOptions \<Rightarrow> StructKind \<Rightarrow> LayoutS option option" where
  "univariant ex dl flds repr kind = do {
     layout \<leftarrow> univariant_biased ex dl flds repr kind BiasStart;
     case layout of
       None \<Rightarrow> Some None
     | Some l \<Rightarrow>
         if kind \<noteq> MaybeUnsized then
           (case largest_niche l of
              None \<Rightarrow> Some layout
            | Some niche \<Rightarrow> do {
                (head_space, tail_space) \<leftarrow> niche_spaces dl l niche;
                if length flds > 1 \<and> head_space \<noteq> 0 \<and> tail_space > 0 then do {
                  alt \<leftarrow> univariant_biased ex dl flds repr kind BiasEnd;
                  alt_layout \<leftarrow> alt;
                  alt_niche \<leftarrow> largest_niche alt_layout;
                  (alt_head_space, alt_tail_space) \<leftarrow> niche_spaces dl alt_layout alt_niche;
                  rassert (raw (lsize l) = raw (lsize alt_layout));
                  if alt_head_space > head_space \<and> alt_head_space > tail_space then Some (Some alt_layout) else Some layout
                }
                else Some layout
              })
         else Some layout
   }"

end
