(* ===== verification/Layout_Offsets.thy ===== *)
theory Layout_Offsets
  imports Layout_Univariant
begin

text \<open>
  Offsets as natural numbers: the end of a sequence of aligned blocks, and the orders of the
  blocks for which the end does not depend on the order. They are the reason why the two
  field orders that \<open>univariant\<close> compares have the same size.
\<close>

subsection \<open>Rounding\<close>

definition round_up :: "nat \<Rightarrow> nat \<Rightarrow> nat" where
  "round_up A n = (n + A - 1) div A * A"

lemma round_up_props:
  assumes "0 < A"
  shows "A dvd round_up A n" and "n \<le> round_up A n" and "round_up A n < n + A"
proof -
  have "(n + A - 1) div A * A + (n + A - 1) mod A = n + A - 1" by simp
  moreover have "(n + A - 1) mod A < A" using assms by simp
  ultimately show "n \<le> round_up A n" "round_up A n < n + A" using assms unfolding round_up_def by linarith+
qed (simp add: round_up_def)

lemma round_up_unique:
  assumes "A dvd s" and "n \<le> s" and "s < n + A"
  shows "s = round_up A n"
proof -
  have A: "0 < A" using assms by linarith
  obtain k where k: "s = A * k" using assms(1) ..
  obtain l where l: "round_up A n = A * l" using round_up_props(1) [OF A] ..
  have "A * k < A * (l + 1)" "A * l < A * (k + 1)"
    using assms(2,3) k l round_up_props(2,3) [OF A, of n] by auto
  then have "k < l + 1" "l < k + 1" unfolding mult_less_cancel1 by simp_all
  then show ?thesis using k l by simp
qed

lemma round_up_dvd: "0 < A \<Longrightarrow> A dvd n \<Longrightarrow> round_up A n = n"
  using round_up_unique [of A n n] by simp

lemma round_up_add: "0 < A \<Longrightarrow> A dvd m \<Longrightarrow> round_up A (n + m) = round_up A n + m"
  using round_up_props [of A n] round_up_unique [of A "round_up A n + m" "n + m"] by simp

lemma round_up_coarser:
  assumes "0 < A" and "0 < B" and "A dvd B"
  shows "round_up B (round_up A n) = round_up B n"
proof (rule round_up_unique [symmetric])
  note b = round_up_props [OF assms(2), of n]
  have A: "A dvd round_up B n" using assms(3) b(1) by (rule dvd_trans)
  show "B dvd round_up B n" by (rule b)
  show "round_up A n \<le> round_up B n"
  proof -
    obtain k where k: "round_up B n = A * k" using A ..
    obtain l where l: "round_up A n = A * l" using round_up_props(1) [OF assms(1)] ..
    have "A * l < A * (k + 1)" using round_up_props(3) [OF assms(1), of n] b(2) k l by simp
    then have "l \<le> k" unfolding mult_less_cancel1 by simp
    then show ?thesis using k l by simp
  qed
  show "round_up B n < round_up A n + B" using round_up_props(2) [OF assms(1), of n] b(3) by linarith
qed

lemma size_align_to_round_up:
  assumes "align_ok a" and "unat (raw x) \<le> 2 ^ 60"
  obtains s where "size_align_to x a = Some s" "unat (raw s) = round_up (align_nat a) (unat (raw x))"
  by (rule size_align_to_small [OF assms]) (use round_up_unique that in blast)

subsection \<open>The end of a sequence of blocks\<close>

text \<open>A block is its alignment and its size.\<close>

fun advance :: "nat \<Rightarrow> (nat \<times> nat) list \<Rightarrow> nat" where
  "advance n [] = n"
| "advance n ((A, s) # xs) = advance (round_up A n + s) xs"

lemma advance_mono: "\<forall>(A, s) \<in> set xs. 0 < A \<Longrightarrow> n \<le> advance n xs"
proof (induction n xs rule: advance.induct)
  case (2 n A s xs)
  then show ?case using round_up_props(2) [of A n] by fastforce
qed simp

text \<open>Blocks in decreasing order of alignment have no padding between them.\<close>

lemma advance_decreasing:
  assumes "sorted_wrt (\<lambda>x y. fst y dvd snd x) xs" and "\<forall>(A, s) \<in> set xs. 0 < A \<and> A dvd n"
  shows "advance n xs = n + sum_list (map snd xs)"
  using assms
proof (induction xs arbitrary: n)
  case (Cons x xs)
  obtain A s where x: "x = (A, s)" by (cases x)
  have "\<forall>(B, t) \<in> set xs. 0 < B \<and> B dvd n + s" using Cons.prems unfolding x by fastforce
  then have "advance (n + s) xs = n + s + sum_list (map snd xs)" using Cons by simp
  then show ?case using Cons.prems(2) by (simp add: x round_up_dvd)
qed simp

text \<open>
  In increasing order of alignment, a block may be moved behind a block with a size that its
  alignment divides. Hence all such orders end at the same offset, the one of the sorted blocks.
\<close>

lemma advance_swap:
  assumes "0 < A" "0 < B" "A dvd t" "B dvd s" "A dvd B \<or> B dvd A"
  shows "advance n ((A, s) # (B, t) # xs) = advance n ((B, t) # (A, s) # xs)"
proof -
  have "round_up B (round_up A n + s) = round_up B (round_up A n) + s" "round_up A (round_up B n + t) = round_up A (round_up B n) + t"
    using assms by (simp_all add: round_up_add)
  moreover have "round_up B (round_up A n) = round_up A (round_up B n)"
    using assms(5)
  proof
    assume "A dvd B"
    then have "A dvd round_up B n" using round_up_props(1) [OF assms(2), of n] dvd_trans by blast
    then show ?thesis using assms \<open>A dvd B\<close> by (simp add: round_up_coarser round_up_dvd)
  next
    assume "B dvd A"
    then have "B dvd round_up A n" using round_up_props(1) [OF assms(1), of n] dvd_trans by blast
    then show ?thesis using assms \<open>B dvd A\<close> by (simp add: round_up_coarser round_up_dvd)
  qed
  ultimately show ?thesis by (simp add: algebra_simps)
qed

definition block_ok :: "nat \<times> nat \<Rightarrow> bool" where
  "block_ok x \<longleftrightarrow> (\<exists>p. fst x = 2 ^ p) \<and> fst x dvd snd x"

lemma power2_dvd_cases: "\<exists>p. A = 2 ^ p \<Longrightarrow> \<exists>p. B = 2 ^ p \<Longrightarrow> A \<le> B \<longleftrightarrow> A dvd (B :: nat)"
  by (auto simp: le_imp_power_dvd power_le_imp_le_exp dvd_imp_le)

lemma advance_insort:
  assumes "block_ok x" and "\<forall>y \<in> set ys. block_ok y \<and> fst x dvd snd y"
  shows "advance n (insort x ys) = advance n (x # ys)"
  using assms(2)
proof (induction ys arbitrary: n)
  case (Cons y ys)
  show ?case
  proof (cases "x \<le> y")
    case False
    obtain A s B t where xy: "x = (A, s)" "y = (B, t)" by (cases x, cases y)
    have "B \<le> A" using False unfolding xy by (auto simp: less_eq_prod_def)
    moreover have p: "\<exists>p. A = 2 ^ p" "\<exists>p. B = 2 ^ p" "A dvd s" "B dvd t" "A dvd t"
      using assms(1) Cons.prems unfolding xy by (simp_all add: block_ok_def)
    ultimately have "B dvd A" "B dvd s" "0 < A" "0 < B" using power2_dvd_cases [of B A] dvd_trans by (blast, blast, auto)
    then have "advance n (y # x # ys) = advance n (x # y # ys)" using advance_swap [of B A s t] p(5) unfolding xy by simp
    moreover have "advance n (y # insort x ys) = advance n (y # x # ys)" using Cons by (cases y) simp
    ultimately show ?thesis using False by simp
  qed simp
qed simp

lemma advance_sort:
  assumes "sorted_wrt (\<lambda>x y. fst x dvd snd y) xs" and "\<forall>x \<in> set xs. block_ok x"
  shows "advance n xs = advance n (sort xs)"
  using assms
proof (induction xs arbitrary: n)
  case (Cons x xs)
  have "advance n (insort x (sort xs)) = advance n (x # sort xs)" using Cons.prems by (intro advance_insort) auto
  then show ?case using Cons by (cases x) simp
qed simp

lemma advance_order:
  assumes "sorted_wrt (\<lambda>x y. fst x dvd snd y) xs" and "sorted_wrt (\<lambda>x y. fst x dvd snd y) ys"
    and "\<forall>x \<in> set xs. block_ok x" and "mset xs = mset ys"
  shows "advance n xs = advance n ys"
proof -
  have "sort xs = sort ys" using assms(4) by (metis properties_for_sort mset_sort sorted_sort)
  then show ?thesis using advance_sort [OF assms(1,3)] advance_sort [OF assms(2)] assms(3,4) by (metis mset_eq_setD)
qed

end
