(* ===== verification/Layout_Univariant_Props.thy ===== *)
theory Layout_Univariant_Props
  imports Layout_Offsets
begin

text \<open>
  Correctness of the layout of one variant: \<open>univariant\<close> does not panic on well-formed fields,
  and when the size is within bounds the fields are aligned, do not overlap, lie inside the
  layout, and the niche of the layout is the one of a field.
\<close>

subsection \<open>Well-formed layouts and targets\<close>

definition target_ok :: "TargetDataLayout \<Rightarrow> bool" where
  "target_ok dl \<longleftrightarrow> dl_ok dl \<and> ptr_sized_integer dl \<noteq> None"

definition niche_inside :: "TargetDataLayout \<Rightarrow> Niche \<Rightarrow> nat \<Rightarrow> bool" where
  "niche_inside dl n m \<longleftrightarrow> unat (raw (niche_offset n)) + unat (raw (primitive_size (niche_value n) dl)) \<le> m"

definition layout_ok :: "TargetDataLayout \<Rightarrow> LayoutS \<Rightarrow> bool" where
  "layout_ok dl l \<longleftrightarrow> aap_ok (lalign l) \<and> align_nat (abi (lalign l)) dvd unat (raw (lsize l)) \<and> unat (raw (lsize l)) \<le> 2 ^ 61 \<and>
     (case largest_niche l of None \<Rightarrow> True | Some n \<Rightarrow> niche_inside dl n (unat (raw (lsize l))))"

definition repr_ok :: "ReprOptions \<Rightarrow> bool" where
  "repr_ok repr \<longleftrightarrow> (case repr_align repr of None \<Rightarrow> True | Some a \<Rightarrow> align_ok a) \<and>
     (case repr_pack repr of None \<Rightarrow> True | Some a \<Rightarrow> align_ok a)"

text \<open>\<open>SliceRandom::shuffle\<close> permutes the slice.\<close>

definition shuffle_ok :: "externs \<Rightarrow> bool" where
  "shuffle_ok ex \<longleftrightarrow> (\<forall>seed xs. mset (shuffle ex seed xs) = mset xs)"

fun kind_ok :: "StructKind \<Rightarrow> bool" where
  "kind_ok (Prefixed s a) \<longleftrightarrow> align_ok a \<and> unat (raw s) \<le> 2 ^ 47"
| "kind_ok _ \<longleftrightarrow> True"

lemma primitive_bits:
  assumes "target_ok dl"
  obtains b where "size_bits (primitive_size p dl) = Some b" "0 < unat b" "unat b \<le> 128"
proof -
  obtain i where i: "ptr_sized_integer dl = Some i" using assms by (auto simp: target_ok_def)
  have "\<exists>b. size_bits (primitive_size p dl) = Some b \<and> 0 < unat b \<and> unat b \<le> 128"
  proof (cases p)
    case (IntP j s)
    then show ?thesis by (cases j) (simp_all add: size_bits_def checked_mul_u64_def)
  next
    case (Pointer a)
    obtain b where "size_bits (pointer_size dl) = Some b" "b \<in> {16, 32, 64}"
      using i by (auto simp: ptr_sized_integer_def split: Option.bind_splits if_splits)
    then show ?thesis using Pointer by auto
  qed (simp_all add: size_bits_def checked_mul_u64_def size_from_bits_def)
  then show thesis using that by blast
qed

lemma niche_available_total:
  assumes "target_ok dl"
  obtains av where "niche_available n dl = Some av"
  by (rule primitive_bits [OF assms, of "niche_value n"]) (use niche_available_outside that in blast)

lemma niche_from_scalar_total:
  assumes "target_ok dl"
  obtains r where "niche_from_scalar dl off s = Some r"
proof (cases s)
  case (Initialized v r)
  show ?thesis
    by (rule niche_available_total [OF assms, of "\<lparr>niche_offset = off, niche_value = v, niche_valid_range = r\<rparr>"])
      (use that Initialized in simp)
qed (use that in simp)

lemma niche_size_of_total:
  assumes "target_ok dl"
  obtains av where "niche_size_of dl l = Some av"
  by (cases "largest_niche l"; rule niche_available_total [OF assms, of "the (largest_niche l)"])
    (use that in \<open>simp_all add: niche_size_of_def\<close>)

lemma max_by_key_total:
  assumes "\<And>x. x \<in> set xs \<Longrightarrow> key x \<noteq> None"
  obtains r where "max_by_key key xs = Some r"
proof -
  have "those (map key xs) = Some (map (the \<circ> key) xs)" using assms by (intro those_map_Some) auto
  then show thesis using that by (simp add: max_by_key_def)
qed

subsection \<open>Alignments\<close>

lemma align_nat_pos [simp]: "0 < align_nat a" "align_nat a \<noteq> 0"
  by (simp_all add: align_nat_def)

lemma align_bytes_nat:
  assumes "align_ok a"
  obtains b where "align_bytes a = Some b" "unat b = align_nat a"
  using align_bytes_ok [of a] align_ok_le [OF assms] that by auto

lemma align_min_ok: "align_ok a \<Longrightarrow> align_ok b \<Longrightarrow> align_ok (align_min a b)"
  by (simp add: align_min_def)

lemma align_min_dvd: "align_nat (align_min a b) dvd align_nat a"
  by (auto simp: align_min_def align_nat_def word_le_nat_alt intro: le_imp_power_dvd)

definition pack_ok :: "Align option \<Rightarrow> bool" where
  "pack_ok pack \<longleftrightarrow> (case pack of None \<Rightarrow> True | Some a \<Rightarrow> align_ok a)"

definition falign :: "Align option \<Rightarrow> LayoutS \<Rightarrow> nat" where
  "falign pack f = align_nat (abi (packed_align pack f))"

definition fsize :: "LayoutS \<Rightarrow> nat" where
  "fsize f = unat (raw (lsize f))"

definition block :: "Align option \<Rightarrow> LayoutS \<Rightarrow> nat \<times> nat" where
  "block pack f = (falign pack f, fsize f)"

lemma packed_align_ok: "aap_ok (lalign f) \<Longrightarrow> pack_ok pack \<Longrightarrow> aap_ok (packed_align pack f)"
  by (cases pack) (simp_all add: packed_align_def aap_ok_def aap_min_def aap_new_def align_min_ok pack_ok_def)

lemma packed_align_dvd: "falign pack f dvd align_nat (abi (lalign f))"
  by (cases pack) (simp_all add: falign_def packed_align_def aap_min_def aap_new_def align_min_dvd)

lemma block_field_ok: "layout_ok dl f \<Longrightarrow> block_ok (block pack f)"
  using packed_align_dvd [of pack f] dvd_trans
  by (auto simp: block_ok_def block_def layout_ok_def fsize_def falign_def align_nat_def)

subsection \<open>The sort keys\<close>

text \<open>The number that a group key stands for: it is between the alignment and the size.\<close>

definition key_div :: "Align option \<Rightarrow> u64 \<Rightarrow> nat" where
  "key_div pack k = (case pack of None \<Rightarrow> 2 ^ unat k | Some p \<Rightarrow> unat k)"

definition key_ok :: "Align option \<Rightarrow> LayoutS \<Rightarrow> u64 \<Rightarrow> bool" where
  "key_ok pack f k \<longleftrightarrow> falign pack f dvd key_div pack k \<and> key_div pack k dvd fsize f \<and> (\<exists>p. key_div pack k = 2 ^ p)"

lemma key_le_dvd: "key_ok pack f k \<Longrightarrow> key_ok pack g l \<Longrightarrow> k \<le> l \<Longrightarrow> key_div pack k dvd key_div pack l"
  using power2_dvd_cases [of "key_div pack k" "key_div pack l"]
  by (cases pack) (auto simp: key_ok_def key_div_def word_le_nat_alt le_imp_power_dvd)

lemma tz_of_align: "unat w = 2 ^ p \<Longrightarrow> trailing_zeros (w :: u64) = p"
  using power2_tz(2) [of w p] by fastforce

lemma group_key_None:
  assumes dl: "target_ok dl" and f: "layout_ok dl f" and mx: "unat mx = 2 ^ m" "align_nat (abi (lalign f)) \<le> 2 ^ m"
  shows "\<exists>k. alignment_group_key dl None bias mx ln f = Some k \<and> key_ok None f k"
proof -
  let ?a = "abi (lalign f)" and ?s = "raw (lsize f)"
  have ok: "align_ok ?a" "align_nat ?a dvd unat ?s" using f by (simp_all add: layout_ok_def aap_ok_def)
  obtain b where b: "align_bytes ?a = Some b" "unat b = align_nat ?a" using align_bytes_nat [OF ok(1)] .
  obtain av where av: "niche_size_of dl f = Some av" using niche_size_of_total [OF dl] .
  define p where "p = unat (pow2 ?a)"
  have p: "align_nat ?a = 2 ^ p" "trailing_zeros b = p" "p < 64"
    using tz_of_align [of b p] b(2) align_ok_le [OF ok(1)] by (simp_all add: p_def align_nat_def)
  have m: "trailing_zeros mx = m" "p \<le> m" using tz_of_align [OF mx(1)] mx(2) by (simp_all add: p(1))
  let ?t = "trailing_zeros (max b ?s)"
  have t: "p \<le> ?t" "2 ^ ?t dvd unat ?s" "?t < 64"
  proof -
    have bs: "max b ?s = (if ?s = 0 then b else ?s)"
      using ok(2) b(2) dvd_imp_le [of "align_nat ?a" "unat ?s"] by (auto simp: max_def word_le_nat_alt unat_gt_0)
    show "p \<le> ?t" "2 ^ ?t dvd unat ?s" "?t < 64"
      using ok(2) p power2_dvd_iff_tz [of ?s] trailing_zeros(3) [of ?s] unfolding bs by auto
  qed
  have "\<exists>k. alignment_group_key dl None bias mx ln f = Some (of_nat k) \<and> p \<le> k \<and> k \<le> ?t"
    using t m av b(1) p(2) by (cases bias) (auto simp: alignment_group_key_def Let_def)
  then obtain k where k: "alignment_group_key dl None bias mx ln f = Some (of_nat k)" "p \<le> k" "k \<le> ?t" by blast
  have "unat (of_nat k :: u64) = k" using k(3) t(3) by (simp add: unat_of_nat)
  moreover have "2 ^ k dvd unat ?s" using k(3) t(2) by (meson dvd_trans le_imp_power_dvd)
  ultimately show ?thesis
    using k p(1) by (auto simp: key_ok_def key_div_def falign_def packed_align_def fsize_def le_imp_power_dvd)
qed

lemma group_key_Some:
  assumes "layout_ok dl f" and "align_ok q"
  shows "\<exists>k. alignment_group_key dl (Some q) bias mx ln f = Some k \<and> key_ok (Some q) f k"
proof -
  have ok: "align_ok (align_min (abi (lalign f)) q)" using assms by (intro align_min_ok) (simp_all add: layout_ok_def aap_ok_def)
  obtain k where k: "align_bytes (align_min (abi (lalign f)) q) = Some k" "unat k = align_nat (align_min (abi (lalign f)) q)"
    using align_bytes_nat [OF ok] .
  have "falign (Some q) f = unat k" using k(2) by (simp add: falign_def packed_align_def aap_min_def aap_new_def)
  then show ?thesis
    using k block_field_ok [OF assms(1), of "Some q"]
    by (auto simp: alignment_group_key_def key_ok_def key_div_def block_ok_def block_def)
qed

lemma iter_max_props:
  assumes "iter_max ks = Some m"
  shows "m \<in> set ks" and "k \<in> set ks \<Longrightarrow> k \<le> m"
proof -
  obtain x xs where ks: "ks = x # xs" "m = fold max xs x" using assms by (cases ks) (auto simp: iter_max_def)
  have "fold max xs x = Max (set (x # xs))" using Max.set_eq_fold [of x xs] by simp
  then show "m \<in> set ks" "k \<in> set ks \<Longrightarrow> k \<le> m" unfolding ks by (auto simp del: List.set_simps intro: Max_in)
qed

subsection \<open>The order of the fields\<close>

lemma sort_by_key_spec:
  assumes "\<And>x. x \<in> set xs \<Longrightarrow> key x = Some (k x)"
  shows "\<exists>ys. sort_by_key key xs = Some ys \<and> mset ys = mset xs \<and> sorted (map k ys)"
proof (cases "length xs < 2")
  case True
  then show ?thesis by (cases xs) (auto simp: sort_by_key_def)
next
  case False
  have ks: "those (map key xs) = Some (map k xs)" using assms by (intro those_map_Some) simp
  define zs where "zs = sort_key fst (zip (map k xs) xs)"
  have zs: "zip (map k xs) xs = map (\<lambda>x. (k x, x)) xs" by (simp add: zip_map1 zip_same_conv_map)
  have set_zs: "set zs = (\<lambda>x. (k x, x)) ` set xs" unfolding zs_def zs by simp
  have fst_zs: "map k (map snd zs) = map fst zs" using set_zs by auto
  show ?thesis
  proof (intro exI conjI)
    show "sort_by_key key xs = Some (map snd zs)" using False ks by (simp add: sort_by_key_def zs_def)
    show "mset (map snd zs) = mset xs" by (simp add: zs_def zs multiset.map_comp comp_def)
    show "sorted (map k (map snd zs))" unfolding fst_zs unfolding zs_def by (rule sorted_sort_key)
  qed
qed

lemma sort_by_key_order:
  assumes "\<And>x. x \<in> set xs \<Longrightarrow> key x = Some (k x)" and "\<And>x y. x \<in> set xs \<Longrightarrow> y \<in> set xs \<Longrightarrow> k x \<le> k y \<Longrightarrow> R x y"
  shows "\<exists>ys. sort_by_key key xs = Some ys \<and> mset ys = mset xs \<and> sorted_wrt R ys"
proof -
  obtain ys where ys: "sort_by_key key xs = Some ys" "mset ys = mset xs" "sorted (map k ys)" using sort_by_key_spec [of xs key k] assms(1) by blast
  have "set ys = set xs" using ys(2) by (rule mset_eq_setD)
  then have "sorted_wrt R ys" using ys(3) assms(2) unfolding sorted_map by (intro sorted_wrt_mono_rel [of ys _ R]) auto
  then show ?thesis using ys by blast
qed

lemma group_keys:
  assumes dl: "target_ok dl" and pack: "pack_ok pack" and fs: "\<forall>f \<in> set fs. layout_ok dl f"
  obtains aligns niches where "those (map (\<lambda>f. align_bytes (abi (lalign f))) fs) = Some aligns"
    "those (map (\<lambda>n. niche_available n dl) (List.map_filter largest_niche fs)) = Some niches"
    "\<forall>f \<in> set fs. \<forall>ln.
       \<exists>k. alignment_group_key dl pack bias (case iter_max aligns of Some a \<Rightarrow> a | None \<Rightarrow> 1) ln f = Some k \<and> key_ok pack f k"
proof -
  let ?b = "\<lambda>f. the (align_bytes (abi (lalign f)))"
  have b: "align_bytes (abi (lalign f)) = Some (?b f)" "unat (?b f) = align_nat (abi (lalign f))" if "f \<in> set fs" for f
    using fs that align_bytes_nat [of "abi (lalign f)"] by (force simp: layout_ok_def aap_ok_def)+
  have aligns: "those (map (\<lambda>f. align_bytes (abi (lalign f))) fs) = Some (map ?b fs)" using b(1) by (intro those_map_Some) simp
  obtain niches where niches: "those (map (\<lambda>n. niche_available n dl) (List.map_filter largest_niche fs)) = Some niches"
    using those_map_Some [of "List.map_filter largest_niche fs" "\<lambda>n. niche_available n dl" "\<lambda>n. the (niche_available n dl)"]
      niche_available_total [OF dl] by (metis option.sel)
  have "\<exists>k. alignment_group_key dl pack bias (case iter_max (map ?b fs) of Some a \<Rightarrow> a | None \<Rightarrow> 1) ln f = Some k \<and> key_ok pack f k"
    if f: "f \<in> set fs" for f ln
  proof (cases pack)
    case None
    obtain m where m: "iter_max (map ?b fs) = Some m" using f by (cases fs) (auto simp: iter_max_def)
    obtain g where g: "g \<in> set fs" "m = ?b g" using iter_max_props(1) [OF m] by auto
    have "?b f \<le> m" using iter_max_props(2) [OF m, of "?b f"] f by simp
    then have "align_nat (abi (lalign f)) \<le> unat m" using b(2) [OF f] by (simp add: word_le_nat_alt)
    moreover have "unat m = 2 ^ unat (pow2 (abi (lalign g)))" using b(2) [OF g(1)] g(2) by (simp add: align_nat_def)
    ultimately show ?thesis using group_key_None [OF dl, of f m] fs f m None by auto
  next
    case (Some q)
    then show ?thesis using group_key_Some [of dl f q] fs f pack by (simp add: pack_ok_def)
  qed
  then show thesis using that [OF aligns niches] by blast
qed

definition order_ok :: "StructKind \<Rightarrow> Align option \<Rightarrow> LayoutS list \<Rightarrow> nat list \<Rightarrow> bool" where
  "order_ok kind pack flds ord =
     (case kind of
        Prefixed _ _ \<Rightarrow> sorted_wrt (\<lambda>x y. falign pack (flds ! x) dvd fsize (flds ! y)) ord
      | _ \<Rightarrow> sorted_wrt (\<lambda>x y. falign pack (flds ! y) dvd fsize (flds ! x)) ord)"

lemma key_size_dvd:
  assumes "key_ok pack f k" and "key_ok pack g l" and "k \<le> l"
  shows "falign pack f dvd fsize g"
  using key_le_dvd [OF assms] assms(1,2) dvd_trans unfolding key_ok_def by blast

lemma is_zst_size: "is_zst f \<Longrightarrow> fsize f = 0"
  by (cases "labi f") (auto simp: is_zst_def fsize_def)

text \<open>
  The key of a field in a struct; the parts behind the group key matter only for the place of
  the niche.
\<close>

lemma struct_sort_key_total:
  assumes "target_ok dl" and "layout_ok dl f" and "gk f = Some k"
  shows "\<exists>r. struct_sort_key dl gk bias f = Some (\<not> is_zst f, - uint k, r)"
proof -
  obtain av where av: "niche_size_of dl f = Some av" using niche_size_of_total [OF assms(1)] .
  have "raw (primitive_size (niche_value n) dl) \<le> raw (lsize f) \<and> raw (niche_offset n) \<le> raw (lsize f) - raw (primitive_size (niche_value n) dl)"
    if "largest_niche f = Some n" for n
    using assms(2) that by (auto simp: layout_ok_def niche_inside_def word_le_nat_alt unat_sub)
  then show ?thesis
    using av assms(3) by (cases bias; cases "largest_niche f") (auto simp: struct_sort_key_def Let_def checked_sub_u64_def)
qed

lemma struct_order:
  assumes dl: "target_ok dl"
    and x: "\<And>x. x \<in> set opt \<Longrightarrow> x < length flds \<and> layout_ok dl (flds ! x) \<and> (\<exists>k. gk (flds ! x) = Some k \<and> key_ok pack (flds ! x) k)"
  shows "\<exists>ord. sort_by_key (\<lambda>x. do { f \<leftarrow> idx flds x; struct_sort_key dl gk bias f }) opt = Some ord \<and> mset ord = mset opt \<and>
    sorted_wrt (\<lambda>x y. falign pack (flds ! y) dvd fsize (flds ! x)) ord"
proof (rule sort_by_key_order [where k = "\<lambda>x. the (struct_sort_key dl gk bias (flds ! x))"])
  have key: "\<exists>k r. gk (flds ! x) = Some k \<and> key_ok pack (flds ! x) k \<and>
      struct_sort_key dl gk bias (flds ! x) = Some (\<not> is_zst (flds ! x), - uint k, r)" if "x \<in> set opt" for x
    using x [OF that] struct_sort_key_total [OF dl, of "flds ! x" gk _ bias] by blast
  show "do { f \<leftarrow> idx flds x; struct_sort_key dl gk bias f } = Some (the (struct_sort_key dl gk bias (flds ! x)))" if "x \<in> set opt" for x
    using x [OF that] key [OF that] by auto
  show "falign pack (flds ! y) dvd fsize (flds ! x)"
    if xy: "x \<in> set opt" "y \<in> set opt" "the (struct_sort_key dl gk bias (flds ! x)) \<le> the (struct_sort_key dl gk bias (flds ! y))" for x y
  proof (cases "is_zst (flds ! x)")
    case False
    obtain k l where kl: "key_ok pack (flds ! x) k" "key_ok pack (flds ! y) l" "l \<le> k"
      using xy(3) key [OF xy(1)] key [OF xy(2)] False by (auto simp: less_eq_prod_def word_le_def word_less_def)
    show ?thesis by (rule key_size_dvd [OF kl(2,1,3)])
  qed (simp add: is_zst_size)
qed

lemma prefixed_order:
  assumes dl: "target_ok dl"
    and x: "\<And>x. x \<in> set opt \<Longrightarrow> x < length flds \<and> layout_ok dl (flds ! x) \<and> (\<exists>k. gk (flds ! x) = Some k \<and> key_ok pack (flds ! x) k)"
  shows "\<exists>ord. sort_by_key (\<lambda>x. do { f \<leftarrow> idx flds x; prefixed_sort_key dl gk f }) opt = Some ord \<and> mset ord = mset opt \<and>
    sorted_wrt (\<lambda>x y. falign pack (flds ! x) dvd fsize (flds ! y)) ord"
proof (rule sort_by_key_order [where k = "\<lambda>x. the (prefixed_sort_key dl gk (flds ! x))"])
  have key: "\<exists>k r. key_ok pack (flds ! x) k \<and> prefixed_sort_key dl gk (flds ! x) = Some (k, r)" if "x \<in> set opt" for x
    by (rule niche_size_of_total [OF dl, of "flds ! x"]) (use x [OF that] in \<open>auto simp: prefixed_sort_key_def\<close>)
  show "do { f \<leftarrow> idx flds x; prefixed_sort_key dl gk f } = Some (the (prefixed_sort_key dl gk (flds ! x)))" if "x \<in> set opt" for x
    using x [OF that] key [OF that] by auto
  show "falign pack (flds ! x) dvd fsize (flds ! y)"
    if xy: "x \<in> set opt" "y \<in> set opt" "the (prefixed_sort_key dl gk (flds ! x)) \<le> the (prefixed_sort_key dl gk (flds ! y))" for x y
  proof -
    obtain k l where kl: "key_ok pack (flds ! x) k" "key_ok pack (flds ! y) l" "k \<le> l"
      using xy(3) key [OF xy(1)] key [OF xy(2)] by (auto simp: less_eq_prod_def)
    show ?thesis by (rule key_size_dvd [OF kl])
  qed
qed

lemma optimize_order_spec:
  assumes dl: "target_ok dl" and pack: "pack_ok pack" and fs: "\<forall>f \<in> set flds. layout_ok dl f"
    and e: "e \<le> length flds" and opt: "set opt \<subseteq> {..<e}"
  shows "\<exists>ord. optimize_order dl flds pack kind bias opt (take e flds) = Some ord \<and> mset ord = mset opt \<and> order_ok kind pack flds ord"
proof -
  have "\<forall>f \<in> set (take e flds). layout_ok dl f" using fs by (meson in_set_takeD)
  from group_keys [OF dl pack this, where bias = bias]
  obtain aligns niches where a: "those (map (\<lambda>f. align_bytes (abi (lalign f))) (take e flds)) = Some aligns"
    and n: "those (map (\<lambda>n. niche_available n dl) (List.map_filter largest_niche (take e flds))) = Some niches"
    and keys: "\<forall>f \<in> set (take e flds). \<forall>ln.
      \<exists>k. alignment_group_key dl pack bias (case iter_max aligns of Some a \<Rightarrow> a | None \<Rightarrow> 1) ln f = Some k \<and> key_ok pack f k" .
  define gk where "gk = alignment_group_key dl pack bias (case iter_max aligns of Some a \<Rightarrow> a | None \<Rightarrow> 1)
      (case iter_max niches of Some a \<Rightarrow> a | None \<Rightarrow> 0)"
  have x: "x < length flds \<and> layout_ok dl (flds ! x) \<and> (\<exists>k. gk (flds ! x) = Some k \<and> key_ok pack (flds ! x) k)" if "x \<in> set opt" for x
  proof -
    have x: "x < e" "x < length flds" using that opt e by auto
    then have "flds ! x \<in> set (take e flds)" by (metis in_set_conv_nth length_take min_less_iff_conj nth_take)
    then show ?thesis using keys x fs unfolding gk_def by fastforce
  qed
  note unf = optimize_order_def a n Option.bind.bind_lunit Let_def gk_def [symmetric]
  show ?thesis unfolding unf using struct_order [OF dl, of opt flds gk pack bias] prefixed_order [OF dl, of opt flds gk pack] x
    by (cases kind) (simp_all add: order_ok_def)
qed

end
