(* ===== verification/Layout_Placement.thy ===== *)
theory Layout_Placement
  imports Layout_Univariant_Props
begin

text \<open>
  The order and the offsets of the fields that \<open>univariant\<close> computes: the order is a permutation,
  the loop over the fields places them one behind the other, and the sizes of the layouts with
  the two niche biases agree.
\<close>

subsection \<open>The order\<close>

lemma inhibit_total:
  assumes "repr_ok repr"
  obtains b where "inhibit_struct_field_reordering_opt ex repr = Some b"
proof (cases "repr_pack repr")
  case None
  then show ?thesis using that by (simp add: inhibit_struct_field_reordering_opt_def)
next
  case (Some p)
  obtain b where "align_bytes p = Some b" using assms Some align_bytes_nat [of p] by (auto simp: repr_ok_def)
  then show ?thesis using that Some by (simp add: inhibit_struct_field_reordering_opt_def)
qed

definition tail_start :: "StructKind \<Rightarrow> nat \<Rightarrow> nat" where
  "tail_start kind n = (case kind of MaybeUnsized \<Rightarrow> n - 1 | _ \<Rightarrow> n)"

lemma field_indices: "n \<le> 0xFFFFFF01 \<Longrightarrow> those (map field_idx [0..<n]) = Some [0..<n]"
  using those_map_Some [of "[0..<n]" field_idx id] by (simp add: field_idx_def)

lemma univariant_order_eq:
  assumes "length flds \<le> 0xFFFFFF01" and "inhibit_struct_field_reordering_opt ex repr = Some inhibit"
  shows "univariant_order ex dl flds repr kind bias =
    (let n = length flds; e = tail_start kind n in
     if inhibit \<or> n \<le> 1 then Some [0..<n]
     else if flags_contain ex (repr_flags repr) RANDOMIZE_LAYOUT \<and> feature_randomize ex
     then Some (shuffle ex (field_shuffle_seed repr) [0..<e] @ [e..<n])
     else map_option (\<lambda>ord. ord @ [e..<n]) (optimize_order dl flds (repr_pack repr) kind bias [0..<e] (take e flds)))"
proof -
  have "tail_start kind (length flds) \<le> length flds" by (simp add: tail_start_def split: StructKind.split)
  then have e: "take (tail_start kind (length flds)) [0..<length flds] = [0..<tail_start kind (length flds)]"
    "drop (tail_start kind (length flds)) [0..<length flds] = [tail_start kind (length flds)..<length flds]" by (simp_all add: take_upt)
  show ?thesis
    unfolding univariant_order_def field_indices [OF assms(1)] assms(2) can_randomize_type_layout_def Option.bind.bind_lunit Let_def
      tail_start_def [symmetric] e
    by (auto simp: map_conv_bind_option comp_def)
qed

lemma upt_below: "set [0..<m] \<subseteq> {..<m}"
  by auto

lemma univariant_order_spec:
  assumes dl: "target_ok dl" and repr: "repr_ok repr" and ex: "shuffle_ok ex" and fs: "\<forall>f \<in> set flds. layout_ok dl f"
    and n: "length flds \<le> 0xFFFFFF01" and inh: "inhibit_struct_field_reordering_opt ex repr = Some inhibit"
  shows "\<exists>ord. univariant_order ex dl flds repr kind bias = Some ord \<and> mset ord = mset [0..<length flds] \<and>
    (inhibit \<longrightarrow> ord = [0..<length flds])"
proof -
  let ?n = "length flds" and ?e = "tail_start kind (length flds)"
  have e: "?e \<le> ?n" by (simp add: tail_start_def split: StructKind.split)
  then have split: "mset [0..<?n] = mset [0..<?e] + mset [?e..<?n]" by (metis mset_append upt_add_eq_append le_add_diff_inverse zero_le)
  have pack: "pack_ok (repr_pack repr)" using repr by (simp add: repr_ok_def pack_ok_def)
  obtain ord where "optimize_order dl flds (repr_pack repr) kind bias [0..<?e] (take ?e flds) = Some ord" "mset ord = mset [0..<?e]"
    using optimize_order_spec [OF dl pack fs e upt_below, of kind bias] by blast
  moreover have "mset (shuffle ex seed [0..<?e]) = mset [0..<?e]" for seed using ex by (simp add: shuffle_ok_def)
  ultimately show ?thesis unfolding univariant_order_eq [OF n inh] Let_def by (auto simp: split simp del: mset_upt)
qed

text \<open>The two biases have the same order, or sort the fields by group keys.\<close>

lemma univariant_order_bias:
  assumes dl: "target_ok dl" and repr: "repr_ok repr" and fs: "\<forall>f \<in> set flds. layout_ok dl f"
    and n: "length flds \<le> 0xFFFFFF01" and kind: "kind \<noteq> MaybeUnsized"
    and ord: "univariant_order ex dl flds repr kind BiasStart = Some ord" "univariant_order ex dl flds repr kind BiasEnd = Some ord'"
  shows "ord = ord' \<or> order_ok kind (repr_pack repr) flds ord \<and> order_ok kind (repr_pack repr) flds ord'"
proof -
  obtain inhibit where inh: "inhibit_struct_field_reordering_opt ex repr = Some inhibit" using inhibit_total [OF repr] .
  have e: "tail_start kind (length flds) = length flds" using kind by (cases kind) (simp_all add: tail_start_def)
  have pack: "pack_ok (repr_pack repr)" using repr by (simp add: repr_ok_def pack_ok_def)
  have opt: "order_ok kind (repr_pack repr) flds o'"
    if "optimize_order dl flds (repr_pack repr) kind bias [0..<length flds] flds = Some o'" for bias o'
    using optimize_order_spec [OF dl pack fs order_refl upt_below, of kind bias] that by auto
  show ?thesis using ord unfolding univariant_order_eq [OF n inh] Let_def e by (auto split: if_splits dest: opt)
qed

subsection \<open>One field\<close>

text \<open>The bound on the size of objects.\<close>

lemma size_bound:
  assumes "target_ok dl"
  obtains B where "obj_size_bound dl = Some B" "0 < unat B" "unat B \<le> 2 ^ 47"
proof -
  obtain b where "size_bits (pointer_size dl) = Some b" "b \<in> {16, 32, 64}"
    using assms by (auto simp: target_ok_def ptr_sized_integer_def split: Option.bind_splits if_splits)
  then show thesis using that by (auto simp: obj_size_bound_def push_bit_eq_mult)
qed

definition bound_nat :: "TargetDataLayout \<Rightarrow> nat" where
  "bound_nat dl = (case obj_size_bound dl of Some B \<Rightarrow> unat B | None \<Rightarrow> 0)"

lemma bound_nat_le: "target_ok dl \<Longrightarrow> bound_nat dl \<le> 2 ^ 47"
  by (metis bound_nat_def option.simps(5) size_bound)

lemma size_checked_add_spec:
  assumes "target_ok dl"
  shows "\<exists>r. size_checked_add a b dl = Some r \<and>
    (if unat (raw a) + unat (raw b) < bound_nat dl then \<exists>s. r = Some s \<and> unat (raw s) = unat (raw a) + unat (raw b) else r = None)"
proof -
  obtain B where B: "obj_size_bound dl = Some B" "0 < unat B" "unat B \<le> 2 ^ 47" using size_bound [OF assms] .
  then have bn: "bound_nat dl = unat B" by (simp add: bound_nat_def)
  show ?thesis
  proof (cases "checked_add_u64 (raw a) (raw b)")
    case None
    then have "2 ^ 64 \<le> unat (raw a) + unat (raw b)" by (auto simp: checked_add_u64_def split: if_splits)
    then show ?thesis using None B(3) bn by (simp add: size_checked_add_def)
  next
    case (Some c)
    then have "unat c = unat (raw a) + unat (raw b)" by (simp add: unat_add_u64)
    then show ?thesis using Some B(1) bn by (simp add: size_checked_add_def word_less_nat_alt)
  qed
qed

lemma size_add_small:
  assumes "unat (raw a) + unat (raw b) < 2 ^ 64"
  obtains s where "size_add a b = Some s" "unat (raw s) = unat (raw a) + unat (raw b)"
proof -
  obtain c where c: "checked_add_u64 (raw a) (raw b) = Some c" using assms by (simp add: checked_add_u64_def)
  then have "unat c = unat (raw a) + unat (raw b)" by (simp add: unat_add_u64)
  then show thesis using that [of "size_from_bytes c"] c by (simp add: size_add_def)
qed


text \<open>What a step of the loop over the fields changes, for a field at the offset \<open>u\<close>.\<close>

definition niche_step :: "NicheBias \<Rightarrow> LayoutS \<Rightarrow> nat \<Rightarrow> Placement \<Rightarrow> Placement \<Rightarrow> bool" where
  "niche_step bias f u st st' \<longleftrightarrow>
     pl_niche st' = pl_niche st \<and> pl_available st' = pl_available st \<and>
       (bias = BiasEnd \<and> largest_niche f \<noteq> None \<longrightarrow> 0 < pl_available st) \<or>
     (\<exists>n off. largest_niche f = Some n \<and> pl_niche st' = Some (n\<lparr>niche_offset := off\<rparr>) \<and> unat (raw off) = unat (raw (niche_offset n)) + u)"

definition placed :: "Align option \<Rightarrow> NicheBias \<Rightarrow> LayoutS \<Rightarrow> nat \<Rightarrow> nat \<Rightarrow> Placement \<Rightarrow> Placement \<Rightarrow> bool" where
  "placed pack bias f i u st st' \<longleftrightarrow>
     unat (raw (pl_offset st')) = u + fsize f \<and> u < 2 ^ 64 \<and> pl_offsets st' = (pl_offsets st)[i := \<lparr>raw = of_nat u\<rparr>] \<and>
     pl_align st' = aap_max (pl_align st) (packed_align pack f) \<and> niche_step bias f u st st' \<and>
     pl_sized st' = (pl_sized st \<and> \<not> is_unsized (labi f))"

lemma round_up_small: "align_ok a \<Longrightarrow> n \<le> 2 ^ 60 \<Longrightarrow> round_up (align_nat a) n \<le> 2 ^ 61"
  using round_up_props(3) [of "align_nat a" n] align_nat_le [of a] by simp

lemma size_of_nat: "unat (raw (s :: Size)) = u \<Longrightarrow> s = \<lparr>raw = of_nat u\<rparr>"
  by (cases s) auto

lemma place_field_spec:
  assumes dl: "target_ok dl" and pack: "pack_ok pack" and i: "i < length flds" and f: "layout_ok dl (flds ! i)"
    and len: "length (pl_offsets st) = length flds" and off: "unat (raw (pl_offset st)) \<le> 2 ^ 60"
    and u: "u = round_up (falign pack (flds ! i)) (unat (raw (pl_offset st)))"
  shows "\<exists>r. place_field dl flds pack bias i st = Some r \<and>
    (if u + fsize (flds ! i) < bound_nat dl then \<exists>st'. r = Some st' \<and> placed pack bias (flds ! i) i u st st' else r = None)"
proof -
  let ?f = "flds ! i"
  have al: "align_ok (abi (packed_align pack ?f))" using packed_align_ok [OF _ pack] f by (simp add: layout_ok_def aap_ok_def)
  obtain o' where o': "size_align_to (pl_offset st) (abi (packed_align pack ?f)) = Some o'" "unat (raw o') = u"
    using size_align_to_round_up [OF al off] u unfolding falign_def by metis
  have u61: "u \<le> 2 ^ 61" using round_up_small [OF al off] u by (simp add: falign_def)
  obtain r where r: "size_checked_add o' (lsize ?f) dl = Some r"
    "if u + fsize ?f < bound_nat dl then \<exists>s. r = Some s \<and> unat (raw s) = u + fsize ?f else r = None"
    using size_checked_add_spec [OF dl, of o' "lsize ?f"] o'(2) by (auto simp: fsize_def)
  let ?step = "case largest_niche ?f of
         None \<Rightarrow> Some (pl_niche st, pl_available st)
       | Some niche \<Rightarrow> do {
           available \<leftarrow> niche_available niche dl;
           let prefer_new_niche = (case bias of
               BiasStart \<Rightarrow> available > pl_available st
             | BiasEnd \<Rightarrow> available \<ge> pl_available st);
           if prefer_new_niche then do {
             off \<leftarrow> size_add (niche_offset niche) o';
             Some (Some (niche\<lparr>niche_offset := off\<rparr>), available)
           }
           else Some (pl_niche st, pl_available st)
         }"
  have "\<exists>n av. ?step = Some (n, av) \<and> (\<forall>st'. pl_niche st' = n \<and> pl_available st' = av \<longrightarrow> niche_step bias ?f u st st')"
  proof (cases "largest_niche ?f")
    case None
    then show ?thesis by (auto simp: niche_step_def)
  next
    case (Some n)
    obtain av where av: "niche_available n dl = Some av" using niche_available_total [OF dl] .
    have "unat (raw (niche_offset n)) + u < 2 ^ 64" using f Some u61 by (simp add: layout_ok_def niche_inside_def)
    then obtain s where s: "size_add (niche_offset n) o' = Some s" "unat (raw s) = unat (raw (niche_offset n)) + u"
      using size_add_small [of "niche_offset n" o'] o'(2) by auto
    have "0 < x" if "\<not> x \<le> av" for x using that by (metis le_less_trans linorder_not_le word_zero_le)
    then show ?thesis using Some av s by (cases bias) (auto simp: niche_step_def Let_def)
  qed
  then obtain n av where n: "?step = Some (n, av)" "\<And>st'. pl_niche st' = n \<Longrightarrow> pl_available st' = av \<Longrightarrow> niche_step bias ?f u st st'" by blast
  define new where "new = (\<lambda>offset. \<lparr>pl_sized = pl_sized st \<and> \<not> is_unsized (labi ?f),
        pl_offsets = (pl_offsets st)[i := o'], pl_offset = offset, pl_align = aap_max (pl_align st) (packed_align pack ?f),
        pl_max_repr_align = max_align_option (pl_max_repr_align st) (max_repr_align ?f), pl_niche = n, pl_available = av,
        pl_delayed_bugs = (if \<not> pl_sized st then pl_delayed_bugs st + 1 else pl_delayed_bugs st)\<rparr>)"
  have "place_field dl flds pack bias i st = Some (map_option new r)"
    using i o'(1) len r(1) n(1) unfolding place_field_def Let_def new_def by (cases r) simp_all
  moreover have "placed pack bias ?f i u st (new s)" if "unat (raw s) = u + fsize ?f" for s :: Size
    using n(2) [of "new s"] that u61 size_of_nat [OF o'(2)] by (simp add: placed_def new_def)
  ultimately show ?thesis using r(2) by auto
qed

subsection \<open>All fields\<close>

definition off :: "Placement \<Rightarrow> nat \<Rightarrow> nat" where
  "off st i = unat (raw (pl_offsets st ! i))"

definition niche_of :: "LayoutS \<Rightarrow> nat \<Rightarrow> Niche \<Rightarrow> bool" where
  "niche_of f u niche \<longleftrightarrow> (\<exists>n o'. largest_niche f = Some n \<and> niche = n\<lparr>niche_offset := o'\<rparr> \<and> unat (raw o') = unat (raw (niche_offset n)) + u)"

definition blocks :: "Align option \<Rightarrow> LayoutS list \<Rightarrow> nat list \<Rightarrow> (nat \<times> nat) list" where
  "blocks pack flds is = map (\<lambda>i. block pack (flds ! i)) is"

definition laid :: "Align option \<Rightarrow> NicheBias \<Rightarrow> LayoutS list \<Rightarrow> nat list \<Rightarrow> Placement \<Rightarrow> Placement \<Rightarrow> bool" where
  "laid pack bias flds is st st' \<longleftrightarrow>
     unat (raw (pl_offset st')) = advance (unat (raw (pl_offset st))) (blocks pack flds is) \<and>
     length (pl_offsets st') = length flds \<and> (\<forall>j. j \<notin> set is \<longrightarrow> pl_offsets st' ! j = pl_offsets st ! j) \<and>
     (\<forall>i \<in> set is. falign pack (flds ! i) dvd off st' i \<and> unat (raw (pl_offset st)) \<le> off st' i \<and>
        off st' i + fsize (flds ! i) \<le> unat (raw (pl_offset st'))) \<and>
     sorted_wrt (\<lambda>i j. off st' i + fsize (flds ! i) \<le> off st' j) is \<and>
     pl_align st' = fold (\<lambda>i a. aap_max a (packed_align pack (flds ! i))) is (pl_align st) \<and>
     pl_sized st' = (pl_sized st \<and> (\<forall>i \<in> set is. \<not> is_unsized (labi (flds ! i)))) \<and>
     (pl_niche st' = pl_niche st \<or> (\<exists>i \<in> set is. \<exists>n. pl_niche st' = Some n \<and> niche_of (flds ! i) (off st' i) n)) \<and>
     (pl_niche st = None \<longrightarrow> pl_available st = 0 \<longrightarrow> bias = BiasEnd \<longrightarrow> (\<exists>i \<in> set is. largest_niche (flds ! i) \<noteq> None) \<longrightarrow> pl_niche st' \<noteq> None)"

lemma laid_Nil: "length (pl_offsets st) = length flds \<Longrightarrow> laid pack bias flds [] st st"
  by (simp add: laid_def blocks_def)

lemma laid_niche_keep:
  assumes "laid pack bias flds is st st'" and "pl_niche st \<noteq> None"
  shows "pl_niche st' \<noteq> None"
  using assms by (auto simp: laid_def)

lemma laid_Cons:
  assumes p: "placed pack bias (flds ! i) i u st s1" and u: "u = round_up (falign pack (flds ! i)) (unat (raw (pl_offset st)))"
    and l: "laid pack bias flds is s1 st'" and i: "i < length flds" "i \<notin> set is" and len: "length (pl_offsets st) = length flds"
  shows "laid pack bias flds (i # is) st st'"
proof -
  let ?f = "flds ! i"
  have A: "0 < falign pack ?f" by (simp add: falign_def)
  have o1: "unat (raw (pl_offset s1)) = u + fsize ?f" "off s1 i = u" "\<And>j. j \<noteq> i \<Longrightarrow> pl_offsets s1 ! j = pl_offsets st ! j"
    "pl_align s1 = aap_max (pl_align st) (packed_align pack ?f)" "pl_sized s1 = (pl_sized st \<and> \<not> is_unsized (labi ?f))"
    using p i(1) len by (auto simp: placed_def off_def unat_of_nat)
  have l': "length (pl_offsets st') = length flds" "\<And>j. j \<notin> set is \<Longrightarrow> pl_offsets st' ! j = pl_offsets s1 ! j"
    "unat (raw (pl_offset st')) = advance (u + fsize ?f) (blocks pack flds is)"
    "\<And>j. j \<in> set is \<Longrightarrow> falign pack (flds ! j) dvd off st' j \<and> u + fsize ?f \<le> off st' j \<and> off st' j + fsize (flds ! j) \<le> unat (raw (pl_offset st'))"
    "sorted_wrt (\<lambda>i j. off st' i + fsize (flds ! i) \<le> off st' j) is"
    using l o1(1) unfolding laid_def by auto
  have oi: "off st' i = u" using l'(2) [OF i(2)] o1(2) by (simp add: off_def)
  have end1: "u + fsize ?f \<le> unat (raw (pl_offset st'))"
    unfolding l'(3) by (rule advance_mono) (auto simp: blocks_def block_def falign_def)
  have niche: "pl_niche st' = pl_niche st \<or> (\<exists>j \<in> set (i # is). \<exists>n. pl_niche st' = Some n \<and> niche_of (flds ! j) (off st' j) n)"
  proof -
    have "pl_niche s1 = pl_niche st \<or> (\<exists>n. pl_niche s1 = Some n \<and> niche_of ?f (off st' i) n)"
      using p unfolding placed_def niche_step_def niche_of_def oi by blast
    moreover have "pl_niche st' = pl_niche s1 \<or> (\<exists>j \<in> set is. \<exists>n. pl_niche st' = Some n \<and> niche_of (flds ! j) (off st' j) n)"
      using l unfolding laid_def by blast
    ultimately show ?thesis by (metis list.set_intros(1,2))
  qed
  have bias: "pl_niche st' \<noteq> None"
    if "pl_niche st = None" "pl_available st = 0" "bias = BiasEnd" "\<exists>i \<in> set (i # is). largest_niche (flds ! i) \<noteq> None"
  proof (cases "pl_niche s1")
    case None
    then have "pl_available s1 = 0" "largest_niche ?f = None" using p that unfolding placed_def niche_step_def by auto
    then show ?thesis using l that(3,4) None unfolding laid_def by auto
  qed (use laid_niche_keep [OF l] in simp)
  have u': "unat (raw (pl_offset st)) \<le> u" "falign pack ?f dvd u" using round_up_props [OF A] u by simp_all
  have each: "falign pack (flds ! j) dvd off st' j \<and> unat (raw (pl_offset st)) \<le> off st' j \<and> off st' j + fsize (flds ! j) \<le> unat (raw (pl_offset st'))"
    if "j \<in> set (i # is)" for j
    using that l'(4) [of j] u' end1 oi by (cases "j = i") auto
  show ?thesis
    unfolding laid_def
  proof (intro conjI ballI)
    show "unat (raw (pl_offset st')) = advance (unat (raw (pl_offset st))) (blocks pack flds (i # is))"
      using l'(3) u by (simp add: blocks_def block_def)
    show "\<forall>j. j \<notin> set (i # is) \<longrightarrow> pl_offsets st' ! j = pl_offsets st ! j" using l'(2) o1(3) by simp
    show "sorted_wrt (\<lambda>i j. off st' i + fsize (flds ! i) \<le> off st' j) (i # is)" using l'(4,5) oi by simp
    show "pl_align st' = fold (\<lambda>i a. aap_max a (packed_align pack (flds ! i))) (i # is) (pl_align st)"
      "pl_sized st' = (pl_sized st \<and> (\<forall>i \<in> set (i # is). \<not> is_unsized (labi (flds ! i))))"
      using l o1(4,5) by (simp_all add: laid_def)
  qed (use each niche bias l'(1) in blast)+
qed

lemma place_fields_spec:
  assumes dl: "target_ok dl" and pack: "pack_ok pack" and fs: "\<forall>f \<in> set flds. layout_ok dl f"
    and order: "distinct is" "set is \<subseteq> {..<length flds}" and len: "length (pl_offsets st) = length flds"
    and o': "unat (raw (pl_offset st)) \<le> 2 ^ 60"
  shows "\<exists>r. place_fields dl flds pack bias is st = Some r \<and>
    (if is = [] \<or> advance (unat (raw (pl_offset st))) (blocks pack flds is) < bound_nat dl
     then \<exists>st'. r = Some st' \<and> laid pack bias flds is st st' else r = None)"
  using order len o'
proof (induction "is" arbitrary: st)
  case (Cons i "is")
  define u where "u = round_up (falign pack (flds ! i)) (unat (raw (pl_offset st)))"
  have i: "i < length flds" "layout_ok dl (flds ! i)" using Cons.prems(2) fs by simp_all
  have adv: "advance (unat (raw (pl_offset st))) (blocks pack flds (i # is)) = advance (u + fsize (flds ! i)) (blocks pack flds is)"
    by (simp add: blocks_def block_def u_def)
  have mono: "u + fsize (flds ! i) \<le> advance (u + fsize (flds ! i)) (blocks pack flds is)"
    by (rule advance_mono) (auto simp: blocks_def block_def falign_def)
  obtain r where r: "place_field dl flds pack bias i st = Some r"
    "if u + fsize (flds ! i) < bound_nat dl then \<exists>st'. r = Some st' \<and> placed pack bias (flds ! i) i u st st' else r = None"
    using place_field_spec [OF dl pack i Cons.prems(3,4) u_def, of bias] by blast
  show ?case
  proof (cases "u + fsize (flds ! i) < bound_nat dl")
    case False
    then show ?thesis using r adv mono by simp
  next
    case True
    then obtain s1 where s1: "r = Some s1" "placed pack bias (flds ! i) i u st s1" using r(2) by auto
    have o1: "unat (raw (pl_offset s1)) = u + fsize (flds ! i)" "length (pl_offsets s1) = length flds"
      using s1(2) Cons.prems(3) by (auto simp: placed_def)
    have "unat (raw (pl_offset s1)) \<le> 2 ^ 60" using o1(1) True bound_nat_le [OF dl] by simp
    then obtain r' where r': "place_fields dl flds pack bias is s1 = Some r'"
      "if is = [] \<or> advance (u + fsize (flds ! i)) (blocks pack flds is) < bound_nat dl then \<exists>st'. r' = Some st' \<and> laid pack bias flds is s1 st' else r' = None"
      using Cons.IH [of s1] Cons.prems(1,2) o1 by auto
    have "laid pack bias flds (i # is) st st'" if "laid pack bias flds is s1 st'" for st'
      using laid_Cons [OF s1(2) u_def that i(1) _ Cons.prems(3)] Cons.prems(1) by simp
    then show ?thesis using r(1) s1(1) r' adv True by (auto simp: blocks_def split: if_splits)
  qed
qed (simp add: laid_Nil)

end
