(* ===== verification/Layout_Struct.thy ===== *)
theory Layout_Struct
  imports Layout_Placement
begin

text \<open>
  The layout of one variant, put together: the specification \<open>struct_layout\<close> of a struct with the
  given fields, and that both \<open>univariant\<close> functions return layouts that satisfy it.
\<close>

subsection \<open>Specification\<close>

definition prefix_start :: "Align option \<Rightarrow> StructKind \<Rightarrow> nat" where
  "prefix_start pack kind =
     (case kind of
        Prefixed s a \<Rightarrow> round_up (align_nat (case pack of Some p \<Rightarrow> align_min a p | None \<Rightarrow> a)) (unat (raw s))
      | _ \<Rightarrow> 0)"

text \<open>
  The fields are aligned, lie behind the prefix and inside of the size, in the order of their
  memory index and without overlap; the alignment of the struct is a multiple of the one of
  every field; the niche is the niche of one of the fields.
\<close>

definition struct_layout :: "TargetDataLayout \<Rightarrow> Align option \<Rightarrow> nat \<Rightarrow> LayoutS list \<Rightarrow> LayoutS \<Rightarrow> bool" where
  "struct_layout dl pack start flds l \<longleftrightarrow> layout_ok dl l \<and>
     (\<exists>offs mi. lfields l = Arbitrary offs mi \<and> length offs = length flds \<and> length mi = length flds \<and> set mi = {..<length flds} \<and>
        (\<forall>i < length flds. falign pack (flds ! i) dvd unat (raw (offs ! i)) \<and> start \<le> unat (raw (offs ! i)) \<and>
           unat (raw (offs ! i)) + fsize (flds ! i) \<le> unat (raw (lsize l)) \<and>
           falign pack (flds ! i) dvd align_nat (abi (lalign l))) \<and>
        (\<forall>i < length flds. \<forall>j < length flds. mi ! i < mi ! j \<longrightarrow> unat (raw (offs ! i)) + fsize (flds ! i) \<le> unat (raw (offs ! j))) \<and>
        (\<forall>n. largest_niche l = Some n \<longrightarrow> (\<exists>i < length flds. niche_of (flds ! i) (unat (raw (offs ! i))) n)))"

definition layout_input :: "externs \<Rightarrow> TargetDataLayout \<Rightarrow> LayoutS list \<Rightarrow> ReprOptions \<Rightarrow> StructKind \<Rightarrow> bool" where
  "layout_input ex dl flds repr kind \<longleftrightarrow> target_ok dl \<and> repr_ok repr \<and> shuffle_ok ex \<and> (\<forall>f \<in> set flds. layout_ok dl f) \<and>
     length flds \<le> 0xFFFFFF01 \<and> kind_ok kind"

lemma layout_inputD:
  assumes "layout_input ex dl flds repr kind"
  shows "target_ok dl" "repr_ok repr" "shuffle_ok ex" "\<forall>f \<in> set flds. layout_ok dl f" "length flds \<le> 0xFFFFFF01" "kind_ok kind"
    "pack_ok (repr_pack repr)"
  using assms by (simp_all add: layout_input_def repr_ok_def pack_ok_def)

subsection \<open>The parts\<close>

lemma initial_placement_spec:
  assumes "layout_input ex dl flds repr kind"
  shows "\<exists>st. initial_placement dl flds repr kind = Some st \<and> unat (raw (pl_offset st)) = prefix_start (repr_pack repr) kind \<and>
    pl_offsets st = replicate (length flds) ZERO \<and> pl_niche st = None \<and> pl_available st = 0 \<and> aap_ok (pl_align st) \<and>
    unat (raw (pl_offset st)) \<le> 2 ^ 48"
proof -
  note wf = layout_inputD [OF assms]
  have dl: "aap_ok (if repr_pack repr \<noteq> None then i8_align dl else aggregate_align dl)"
    using wf(1) by (simp add: target_ok_def dl_ok_def)
  show ?thesis
  proof (cases kind)
    case (Prefixed s a)
    let ?p = "case repr_pack repr of Some p \<Rightarrow> align_min a p | None \<Rightarrow> a"
    have p: "align_ok ?p" using wf(6,7) Prefixed by (cases "repr_pack repr") (simp_all add: pack_ok_def align_min_ok)
    have s: "unat (raw s) \<le> 2 ^ 47" using wf(6) Prefixed by simp
    then obtain o' where o': "size_align_to s ?p = Some o'" "unat (raw o') = round_up (align_nat ?p) (unat (raw s))"
      using size_align_to_round_up [OF p, of s] by auto
    moreover have "round_up (align_nat ?p) (unat (raw s)) \<le> 2 ^ 48"
      using round_up_props(3) [of "align_nat ?p" "unat (raw s)"] align_nat_le [OF p] s by simp
    ultimately show ?thesis
      using Prefixed dl p by (simp add: initial_placement_def Let_def prefix_start_def aap_ok_def aap_max_def aap_new_def align_max_def)
  qed (use dl in \<open>simp_all add: initial_placement_def prefix_start_def ZERO_def\<close>)
qed

lemma scalar_pair_total:
  assumes dl: "target_ok dl"
  obtains off pair where "scalar_pair dl a b = Some pair" "lfields pair = Arbitrary [ZERO, off] [0, 1]"
proof -
  have ok: "align_ok (abi (scalar_align s dl))" "align_ok (abi (aggregate_align dl))" for s
    using dl dl_okD(1) [of dl] by (simp_all add: scalar_align_def target_ok_def aap_ok_def dl_ok_def)
  then have al: "align_ok (abi (aap_max (aap_max (scalar_align a dl) (scalar_align b dl)) (aggregate_align dl)))"
    by (simp add: aap_max_def align_max_def)
  have sz: "unat (raw (scalar_size s dl)) \<le> 16" for s
    using primitive_size_le dl by (auto simp: scalar_size_def target_ok_def)
  have "unat (raw (scalar_size a dl)) \<le> 2 ^ 60" using sz [of a] by simp
  then obtain off where off: "size_align_to (scalar_size a dl) (abi (scalar_align b dl)) = Some off"
    "unat (raw off) = round_up (align_nat (abi (scalar_align b dl))) (unat (raw (scalar_size a dl)))"
    using size_align_to_round_up [OF ok(1)] by blast
  have o': "unat (raw off) \<le> 2 ^ 30"
    using round_up_props(3) [of "align_nat (abi (scalar_align b dl))" "unat (raw (scalar_size a dl))"] off(2) align_nat_le [OF ok(1) [of b]]
      sz [of a] by simp
  have "unat (raw off) + unat (raw (scalar_size b dl)) < 2 ^ 64" using o' sz [of b] by simp
  then obtain s where s: "size_add off (scalar_size b dl) = Some s" "unat (raw s) = unat (raw off) + unat (raw (scalar_size b dl))"
    by (rule size_add_small)
  have s': "unat (raw s) \<le> 2 ^ 60" using s(2) o' sz [of b] by simp
  obtain t where t: "size_align_to s (abi (aap_max (aap_max (scalar_align a dl) (scalar_align b dl)) (aggregate_align dl))) = Some t"
    using size_align_to_round_up [OF al s'] by blast
  obtain nb where nb: "niche_from_scalar dl off b = Some nb" using niche_from_scalar_total [OF dl] .
  obtain na where na: "niche_from_scalar dl ZERO a = Some na" using niche_from_scalar_total [OF dl] .
  have av: "niche_available n dl \<noteq> None" for n by (rule niche_available_total [OF dl, of n]) simp
  obtain r where r: "max_by_key (\<lambda>niche. niche_available niche dl) (case_option [] (\<lambda>n. [n]) nb @ case_option [] (\<lambda>n. [n]) na) = Some r"
    by (rule max_by_key_total [OF av])
  have "\<exists>pair. scalar_pair dl a b = Some pair \<and> lfields pair = Arbitrary [ZERO, off] [0, 1]"
    using off(1) s(1) t nb na r by (simp add: scalar_pair_def Let_def)
  then show thesis using that by blast
qed

lemma pair_abi_total:
  assumes "target_ok dl" and "i < length offs" and "j < length offs"
  shows "\<exists>c. pair_abi dl offs align sz (i, a) (j, b) aggr = Some c"
proof -
  have "\<exists>off pair. scalar_pair dl x y = Some pair \<and> lfields pair = Arbitrary [ZERO, off] [0, 1]" for x y
    using scalar_pair_total [OF assms(1)] by blast
  then obtain p q where p: "\<And>x y. scalar_pair dl x y = Some (p x y)" "\<And>x y. lfields (p x y) = Arbitrary [ZERO, q x y] [0, 1]" by metis
  show ?thesis using assms(2,3) p by (simp add: pair_abi_def Let_def split: prod.split if_split)
qed

lemma univariant_abi_total:
  assumes "target_ok dl" and "length offs = length flds"
  shows "\<exists>c. univariant_abi dl flds opt sized offs align sz = Some c"
proof -
  have nz: "i < length flds" if "(i, f) \<in> set (non_zst_fields flds)" for i f
    using that by (auto simp: non_zst_fields_def in_set_enumerate_eq)
  note pair = pair_abi_total [OF assms(1), where offs = offs]
  show ?thesis
  proof (cases "non_zst_fields flds")
    case (Cons x xs)
    then have x: "fst x < length offs" using nz [of "fst x" "snd x"] assms(2) by simp
    show ?thesis
    proof (cases xs)
      case Nil
      then show ?thesis using Cons x by (cases x) (simp add: univariant_abi_def)
    next
      case (Cons y ys)
      then have y: "fst y < length offs" using nz [of "fst y" "snd y"] \<open>non_zst_fields flds = x # xs\<close> assms(2) by simp
      obtain i a j b where xy: "x = (i, a)" "y = (j, b)" by (cases x, cases y)
      have c: "pair_abi dl offs align sz (i, sa) (j, sb) g = None \<longleftrightarrow> False" for sa sb g
        using pair [of i j align sz sa sb g] x y unfolding xy by auto
      show ?thesis
        using Cons \<open>non_zst_fields flds = x # xs\<close> unfolding xy univariant_abi_def
        by (cases ys; cases "labi a"; cases "labi b") (simp_all add: c split: Option.bind_split)
    qed
  qed (simp add: univariant_abi_def)
qed

text \<open>The permutation and its inverse.\<close>

lemma memory_index_spec:
  assumes ord: "mset ord = mset [0..<n]" and inh: "inhibit \<longrightarrow> ord = [0..<n]"
  shows "\<exists>mi. (if \<not> inhibit then invert_bijective_mapping ord else do { rassert (ord = [0..<n]); Some ord }) = Some mi \<and>
    length mi = n \<and> set mi = {..<n} \<and> (\<forall>x < n. mi ! x < n \<and> ord ! (mi ! x) = x)"
proof -
  have len: "length ord = n" using arg_cong [OF ord, of size] by simp
  have set: "set ord = {..<n}" using mset_eq_setD [OF ord] by (simp only: set_upt atLeast0LessThan)
  show ?thesis
  proof (cases inhibit)
    case True
    then show ?thesis using inh by auto
  next
    case False
    obtain w where "invert_bijective_mapping ord = Some w" "length w = n" "set w = {..<n}" "\<forall>x < n. ord ! (w ! x) = x"
      using invert_bijective [of ord] set len by auto
    then show ?thesis using False nth_mem [of _ w] by auto
  qed
qed


subsection \<open>The layout with a bias\<close>

definition struct_align :: "ReprOptions \<Rightarrow> AbiAndPrefAlign \<Rightarrow> AbiAndPrefAlign" where
  "struct_align repr a = (case repr_align repr of Some r \<Rightarrow> aap_max a (aap_new r) | None \<Rightarrow> a)"

text \<open>The alignment does not depend on the order of the fields.\<close>

lemma pow2_aap_max: "pow2 (abi (aap_max a b)) = max (pow2 (abi a)) (pow2 (abi b))"
  by (simp add: aap_max_def align_max_def max_def)

lemma pow2_fold_aap_max:
  "pow2 (abi (fold (\<lambda>i a. aap_max a (g i)) is a)) = Max (insert (pow2 (abi a)) ((\<lambda>i. pow2 (abi (g i))) ` set is))"
proof (induction "is" arbitrary: a)
  case (Cons i "is")
  show ?case
    unfolding fold_simps Cons by (cases "is") (simp_all add: pow2_aap_max max.assoc max.left_commute)
qed simp

lemma fold_aap_max_ok:
  "aap_ok a \<Longrightarrow> (\<And>i. i \<in> set is \<Longrightarrow> aap_ok (g i)) \<Longrightarrow> aap_ok (fold (\<lambda>i a. aap_max a (g i)) is a)"
  by (induction "is" arbitrary: a) (simp_all add: aap_max_ok)

lemma align_nat_dvd: "pow2 a \<le> pow2 b \<Longrightarrow> align_nat a dvd align_nat b"
  by (simp add: align_nat_def word_le_nat_alt le_imp_power_dvd)

lemma struct_align_props:
  assumes "repr_ok repr" and "aap_ok a"
  shows "aap_ok (struct_align repr a)" and "pow2 (abi a) \<le> pow2 (abi (struct_align repr a))"
  using assms aap_max_ok [of a "aap_new r" for r]
  by (auto simp: struct_align_def repr_ok_def aap_ok_def aap_new_def pow2_aap_max split: option.splits)

text \<open>The result of the function, in terms of the loop.\<close>

definition biased_result ::
    "externs \<Rightarrow> TargetDataLayout \<Rightarrow> LayoutS list \<Rightarrow> ReprOptions \<Rightarrow> StructKind \<Rightarrow> NicheBias \<Rightarrow> nat list \<Rightarrow> Placement \<Rightarrow>
     Placement option \<Rightarrow> bool" where
  "biased_result ex dl flds repr kind bias ord st r =
    (case r of
       None \<Rightarrow> univariant_biased ex dl flds repr kind bias = Some None \<and> flds \<noteq> [] \<and>
         bound_nat dl \<le> advance (prefix_start (repr_pack repr) kind) (blocks (repr_pack repr) flds ord)
     | Some st' \<Rightarrow> laid (repr_pack repr) bias flds ord st st' \<and>
         (flds = [] \<or> advance (prefix_start (repr_pack repr) kind) (blocks (repr_pack repr) flds ord) < bound_nat dl) \<and>
         (\<exists>sz c mi u. univariant_biased ex dl flds repr kind bias =
            Some (Some (LayoutS (Arbitrary (pl_offsets st') mi) (Single FIRST_VARIANT) c (pl_niche st') (struct_align repr (pl_align st')) sz
              (pl_max_repr_align st') u)) \<and>
          unat (raw sz) = round_up (align_nat (abi (struct_align repr (pl_align st')))) (unat (raw (pl_offset st'))) \<and>
          length mi = length flds \<and> set mi = {..<length flds} \<and> (\<forall>x < length flds. mi ! x < length flds \<and> ord ! (mi ! x) = x)))"

lemma univariant_biased_eq:
  assumes inp: "layout_input ex dl flds repr kind"
  obtains ord st r where "univariant_order ex dl flds repr kind bias = Some ord" "mset ord = mset [0..<length flds]"
    "initial_placement dl flds repr kind = Some st" "place_fields dl flds (repr_pack repr) bias ord st = Some r"
    "biased_result ex dl flds repr kind bias ord st r"
proof -
  note wf = layout_inputD [OF inp]
  obtain inhibit where inh: "inhibit_struct_field_reordering_opt ex repr = Some inhibit" using inhibit_total [OF wf(2)] .
  obtain ord where ord: "univariant_order ex dl flds repr kind bias = Some ord" "mset ord = mset [0..<length flds]"
    "inhibit \<longrightarrow> ord = [0..<length flds]"
    using univariant_order_spec [OF wf(1-5) inh] by blast
  obtain st where st: "initial_placement dl flds repr kind = Some st" "unat (raw (pl_offset st)) = prefix_start (repr_pack repr) kind"
    "pl_offsets st = replicate (length flds) ZERO" "aap_ok (pl_align st)" "unat (raw (pl_offset st)) \<le> 2 ^ 48"
    using initial_placement_spec [OF inp] by blast
  have set: "set ord = {..<length flds}" using mset_eq_setD [OF ord(2)] by (simp only: set_upt atLeast0LessThan)
  have dist: "distinct ord" using mset_eq_imp_distinct_iff [OF ord(2)] by simp
  have nil: "ord = [] \<longleftrightarrow> flds = []" using arg_cong [OF ord(2), of size] by auto
  have len: "length (pl_offsets st) = length flds" "unat (raw (pl_offset st)) \<le> 2 ^ 60" using st(3,5) by simp_all
  obtain r where r: "place_fields dl flds (repr_pack repr) bias ord st = Some r"
    "if ord = [] \<or> advance (unat (raw (pl_offset st))) (blocks (repr_pack repr) flds ord) < bound_nat dl
     then \<exists>st'. r = Some st' \<and> laid (repr_pack repr) bias flds ord st st' else r = None"
    using place_fields_spec [OF wf(1,7,4) dist _ len] set by blast
  show thesis
  proof (cases r)
    case None
    then have "univariant_biased ex dl flds repr kind bias = Some None"
      using inh ord(1) st(1) r(1) by (simp add: univariant_biased_def Let_def)
    then show ?thesis using that [OF ord(1,2) st(1) r(1)] None r(2) nil st(2) by (auto simp: biased_result_def split: if_splits)
  next
    case (Some st')
    have l: "laid (repr_pack repr) bias flds ord st st'"
      "flds = [] \<or> advance (prefix_start (repr_pack repr) kind) (blocks (repr_pack repr) flds ord) < bound_nat dl"
      using r(2) Some nil st(2) by (auto split: if_splits)
    have o': "unat (raw (pl_offset st')) \<le> 2 ^ 60"
      using l st(2,5) bound_nat_le [OF wf(1)] nil unfolding laid_def by (auto simp: blocks_def)
    have "aap_ok (packed_align (repr_pack repr) (flds ! i))" if "i \<in> set ord" for i
      using that set wf(4,7) packed_align_ok by (simp add: layout_ok_def)
    then have "aap_ok (fold (\<lambda>i a. aap_max a (packed_align (repr_pack repr) (flds ! i))) ord (pl_align st))" by (rule fold_aap_max_ok [OF st(4)])
    then have "aap_ok (pl_align st')" using l(1) by (simp add: laid_def)
    then have "align_ok (abi (struct_align repr (pl_align st')))" using struct_align_props [OF wf(2)] by (simp add: aap_ok_def)
    then obtain sz where sz: "size_align_to (pl_offset st') (abi (struct_align repr (pl_align st'))) = Some sz"
      "unat (raw sz) = round_up (align_nat (abi (struct_align repr (pl_align st')))) (unat (raw (pl_offset st')))"
      using o' by (rule size_align_to_round_up)
    obtain mi where mi: "(if \<not> inhibit then invert_bijective_mapping ord else do { rassert (ord = [0..<length flds]); Some ord }) = Some mi"
      "length mi = length flds" "set mi = {..<length flds}" "\<forall>x < length flds. mi ! x < length flds \<and> ord ! (mi ! x) = x"
      using memory_index_spec [OF ord(2,3)] by blast
    obtain c s where c: "univariant_abi dl flds (\<not> inhibit) (pl_sized st') (pl_offsets st') (struct_align repr (pl_align st')) sz = Some (c, s)"
    proof -
      have "length (pl_offsets st') = length flds" using l(1) by (simp add: laid_def)
      from univariant_abi_total [OF wf(1) this] show ?thesis using that by (metis surj_pair)
    qed
    have "univariant_biased ex dl flds repr kind bias =
       Some (Some (LayoutS (Arbitrary (pl_offsets st') mi) (Single FIRST_VARIANT) c (pl_niche st') (struct_align repr (pl_align st')) sz
         (pl_max_repr_align st') (if repr_transparent ex repr then (case s of Some l \<Rightarrow> unadjusted_abi_align l | None \<Rightarrow> abi (struct_align repr (pl_align st')))
            else abi (pl_align st'))))"
      using inh ord(1) st(1) r(1) Some mi(1) sz(1) c
      by (simp add: univariant_biased_def Let_def struct_align_def [symmetric])
    then show ?thesis using that [OF ord(1,2) st(1) r(1)] Some l sz(2) mi(2-4) by (auto simp: biased_result_def)
  qed
qed


lemma niche_of_inside:
  assumes "niche_of f u n" and "layout_ok dl f" and "u + fsize f \<le> m"
  shows "niche_inside dl n m"
  using assms by (auto simp: niche_of_def niche_inside_def layout_ok_def fsize_def)

lemma laid_struct_layout:
  assumes inp: "layout_input ex dl flds repr kind" and ord: "mset ord = mset [0..<length flds]"
    and st: "initial_placement dl flds repr kind = Some st" and l: "laid (repr_pack repr) bias flds ord st st'"
    and le: "unat (raw (pl_offset st')) \<le> 2 ^ 60"
    and sz: "unat (raw sz) = round_up (align_nat (abi (struct_align repr (pl_align st')))) (unat (raw (pl_offset st')))"
    and mi: "length mi = length flds" "set mi = {..<length flds}" "\<forall>x < length flds. mi ! x < length flds \<and> ord ! (mi ! x) = x"
  shows "struct_layout dl (repr_pack repr) (prefix_start (repr_pack repr) kind) flds
    (LayoutS (Arbitrary (pl_offsets st') mi) v c (pl_niche st') (struct_align repr (pl_align st')) sz m u)"
proof -
  let ?p = "repr_pack repr" and ?al = "abi (struct_align repr (pl_align st'))"
  note wf = layout_inputD [OF inp]
  have init: "unat (raw (pl_offset st)) = prefix_start ?p kind" "pl_niche st = None" "aap_ok (pl_align st)"
    using initial_placement_spec [OF inp] st by auto
  have set: "set ord = {..<length flds}" and len: "length ord = length flds"
    using mset_eq_setD [OF ord] arg_cong [OF ord, of size] by (simp_all only: set_upt atLeast0LessThan size_mset length_upt minus_nat.diff_0)
  have f: "layout_ok dl (flds ! i)" "aap_ok (packed_align ?p (flds ! i))" if "i < length flds" for i
    using that wf(4,7) packed_align_ok by (simp_all add: layout_ok_def)
  have al: "pl_align st' = fold (\<lambda>i a. aap_max a (packed_align ?p (flds ! i))) ord (pl_align st)" using l by (simp add: laid_def)
  have alok: "aap_ok (pl_align st')" unfolding al by (rule fold_aap_max_ok [OF init(3)]) (use set f in simp)
  note sa = struct_align_props [OF wf(2) alok]
  have size: "align_nat ?al dvd unat (raw sz)" "unat (raw (pl_offset st')) \<le> unat (raw sz)" "unat (raw sz) \<le> 2 ^ 61"
    using sz round_up_props [of "align_nat ?al"] round_up_small [OF _ le] sa(1) by (auto simp: aap_ok_def)
  have each: "falign ?p (flds ! i) dvd off st' i" "prefix_start ?p kind \<le> off st' i" "off st' i + fsize (flds ! i) \<le> unat (raw sz)"
    "falign ?p (flds ! i) dvd align_nat ?al" if i: "i < length flds" for i
  proof -
    have i': "i \<in> set ord" using i set by simp
    then show "falign ?p (flds ! i) dvd off st' i" "prefix_start ?p kind \<le> off st' i" "off st' i + fsize (flds ! i) \<le> unat (raw sz)"
      using l size(2) init(1) unfolding laid_def by fastforce+
    have "pow2 (abi (packed_align ?p (flds ! i))) \<le> pow2 (abi (pl_align st'))"
      unfolding al pow2_fold_aap_max by (rule Max_ge) (use i' in auto)
    then show "falign ?p (flds ! i) dvd align_nat ?al" unfolding falign_def using sa(2) by (intro align_nat_dvd) simp
  qed
  have sep: "off st' i + fsize (flds ! i) \<le> off st' j" if "i < length flds" "j < length flds" "mi ! i < mi ! j" for i j
  proof -
    have "sorted_wrt (\<lambda>i j. off st' i + fsize (flds ! i) \<le> off st' j) ord" using l by (simp add: laid_def)
    from sorted_wrt_nth_less [OF this that(3)] show ?thesis using mi(3) that len by auto
  qed
  have niche: "\<exists>i < length flds. niche_of (flds ! i) (off st' i) n" if "pl_niche st' = Some n" for n
    using l init(2) that set unfolding laid_def by auto
  have "niche_inside dl n (unat (raw sz))" if "pl_niche st' = Some n" for n
    using niche [OF that] niche_of_inside [OF _ f(1)] each(3) by blast
  then have "layout_ok dl (LayoutS (Arbitrary (pl_offsets st') mi) v c (pl_niche st') (struct_align repr (pl_align st')) sz m u)"
    using size sa(1) by (simp add: layout_ok_def split: option.split)
  moreover have "length (pl_offsets st') = length flds" using l by (simp add: laid_def)
  ultimately show ?thesis
    unfolding struct_layout_def using mi(1,2) each sep niche by (simp add: off_def)
qed

lemma biased_struct_layout:
  assumes inp: "layout_input ex dl flds repr kind" and l: "univariant_biased ex dl flds repr kind bias = Some (Some l)"
  shows "struct_layout dl (repr_pack repr) (prefix_start (repr_pack repr) kind) flds l"
proof (rule univariant_biased_eq [OF inp, of bias])
  fix ord st r
  assume ord: "mset ord = mset [0..<length flds]" and st: "initial_placement dl flds repr kind = Some st"
    and r: "biased_result ex dl flds repr kind bias ord st r"
  obtain st' where st': "r = Some st'" using r l by (cases r) (auto simp: biased_result_def)
  obtain st0 where st0: "initial_placement dl flds repr kind = Some st0" "unat (raw (pl_offset st0)) = prefix_start (repr_pack repr) kind"
    "unat (raw (pl_offset st0)) \<le> 2 ^ 48" using initial_placement_spec [OF inp] by blast
  have nil: "flds = [] \<Longrightarrow> ord = []" using arg_cong [OF ord, of size] by simp
  have "unat (raw (pl_offset st')) \<le> 2 ^ 60"
    using r st' st0 st bound_nat_le [OF layout_inputD(1) [OF inp]] nil by (auto simp: biased_result_def laid_def blocks_def)
  then show ?thesis using laid_struct_layout [OF inp ord st] r l unfolding st' by (auto simp: biased_result_def)
qed

end
