(* ===== verification/Layout_Struct_Props.thy ===== *)
theory Layout_Struct_Props
  imports Layout_Struct
begin

text \<open>
  The properties of the layout of structs: \<open>univariant\<close> returns for all well-formed fields, its
  layouts satisfy \<open>struct_layout\<close>, and the optimised order of a struct leaves no padding
  between the fields.
\<close>

text \<open>
  An instance of the parameters, for examples: the flags are the bits of a word, and the feature
  that randomizes layouts is on, as it is by default, with a shuffle that reverses the fields; and the representation of a type without \<open>repr\<close> attribute.
\<close>

abbreviation plain_externs :: externs where
  "plain_externs \<equiv> \<lparr>flags_contain = (\<lambda>a b. a AND b = b), flags_intersect = (\<lambda>a b. a AND b \<noteq> 0),
       feature_randomize = True,
       shuffle = (\<lambda>seed xs. rev xs)\<rparr>"

abbreviation repr_rust :: ReprOptions where
  "repr_rust \<equiv> \<lparr>repr_int = None, repr_align = None, repr_pack = None, repr_flags = 0, field_shuffle_seed = 0\<rparr>"

subsection \<open>Both biases\<close>

lemma blocks_mset: "mset ord = mset ord' \<Longrightarrow> mset (blocks pack flds ord) = mset (blocks pack flds ord')"
  by (simp add: blocks_def)

lemma blocks_sum: "mset ord = mset [0..<length flds] \<Longrightarrow> sum_list (map snd (blocks pack flds ord)) = sum_list (map fsize flds)"
proof -
  assume m: "mset ord = mset [0..<length flds]"
  have "sum_list (map (\<lambda>i. fsize (flds ! i)) ord) = sum_list (map (\<lambda>i. fsize (flds ! i)) [0..<length flds])"
    using arg_cong [OF m, of "\<lambda>m. sum_mset (image_mset (\<lambda>i. fsize (flds ! i)) m)"] by (simp only: mset_map [symmetric] sum_mset_sum_list)
  also have "map (\<lambda>i. fsize (flds ! i)) [0..<length flds] = map fsize flds" by (rule nth_equalityI) simp_all
  finally show ?thesis by (simp add: blocks_def block_def comp_def)
qed

lemma advance_optimized:
  assumes "order_ok AlwaysSized pack flds ord"
  shows "advance 0 (blocks pack flds ord) = sum_list (map snd (blocks pack flds ord))"
  using advance_decreasing [of "blocks pack flds ord" 0] assms
  by (auto simp: order_ok_def blocks_def block_def sorted_wrt_map falign_def)

lemma advance_biases:
  assumes inp: "layout_input ex dl flds repr kind" and kind: "kind \<noteq> MaybeUnsized"
    and ord: "univariant_order ex dl flds repr kind BiasStart = Some ord" "mset ord = mset [0..<length flds]"
    and ord': "univariant_order ex dl flds repr kind BiasEnd = Some ord'" "mset ord' = mset [0..<length flds]"
  shows "advance (prefix_start (repr_pack repr) kind) (blocks (repr_pack repr) flds ord) =
    advance (prefix_start (repr_pack repr) kind) (blocks (repr_pack repr) flds ord')"
proof -
  let ?p = "repr_pack repr"
  note wf = layout_inputD [OF inp]
  consider "ord = ord'" | "order_ok kind ?p flds ord" "order_ok kind ?p flds ord'"
    using univariant_order_bias [OF wf(1,2,4,5) kind ord(1) ord'(1)] by blast
  then show ?thesis
  proof cases
    case 2
    show ?thesis
    proof (cases kind)
      case AlwaysSized
      have "prefix_start ?p kind = 0" by (simp add: AlwaysSized prefix_start_def)
      then show ?thesis
        using advance_optimized [of ?p flds] 2 unfolding AlwaysSized
        by (simp add: blocks_sum [OF ord(2)] blocks_sum [OF ord'(2)])
    next
      case (Prefixed s a)
      have "set ord = {..<length flds}" using mset_eq_setD [OF ord(2)] by (simp only: set_upt atLeast0LessThan)
      then have "\<forall>x \<in> set (blocks ?p flds ord). block_ok x" using wf(4) by (auto simp: blocks_def intro!: block_field_ok [of dl])
      moreover have "mset (blocks ?p flds ord) = mset (blocks ?p flds ord')" using ord(2) ord'(2) by (intro blocks_mset) simp
      ultimately show ?thesis
        using 2 Prefixed by (intro advance_order) (simp_all add: order_ok_def blocks_def block_def sorted_wrt_map)
    qed (use kind in simp)
  qed simp
qed

lemma struct_align_cong: "pow2 (abi a) = pow2 (abi b) \<Longrightarrow> align_nat (abi (struct_align repr a)) = align_nat (abi (struct_align repr b))"
  by (cases "repr_align repr") (simp_all add: struct_align_def align_nat_def pow2_aap_max)

lemma laid_align_eq:
  assumes "laid pack b1 flds ord st s1" and "laid pack b2 flds ord' st s2" and "set ord = set ord'"
  shows "pow2 (abi (pl_align s1)) = pow2 (abi (pl_align s2))"
proof -
  have "pl_align s1 = fold (\<lambda>i a. aap_max a (packed_align pack (flds ! i))) ord (pl_align st)"
    "pl_align s2 = fold (\<lambda>i a. aap_max a (packed_align pack (flds ! i))) ord' (pl_align st)"
    using assms(1,2) by (simp_all add: laid_def)
  then show ?thesis using assms(3) by (simp add: pow2_fold_aap_max)
qed

text \<open>The layout with the other bias exists, has the same size, and has a niche as well.\<close>

lemma biases_agree:
  assumes inp: "layout_input ex dl flds repr kind" and kind: "kind \<noteq> MaybeUnsized"
    and l: "univariant_biased ex dl flds repr kind BiasStart = Some (Some l)"
  obtains l' where "univariant_biased ex dl flds repr kind BiasEnd = Some (Some l')" "lsize l' = lsize l"
    "largest_niche l \<noteq> None \<longrightarrow> largest_niche l' \<noteq> None"
proof -
  obtain ord st r where s: "univariant_order ex dl flds repr kind BiasStart = Some ord" "mset ord = mset [0..<length flds]"
    "initial_placement dl flds repr kind = Some st" "biased_result ex dl flds repr kind BiasStart ord st r"
    using univariant_biased_eq [OF inp, of BiasStart] by metis
  obtain ord' r' where e: "univariant_order ex dl flds repr kind BiasEnd = Some ord'" "mset ord' = mset [0..<length flds]"
    "biased_result ex dl flds repr kind BiasEnd ord' st r'"
    using univariant_biased_eq [OF inp, of BiasEnd] s(3) by (metis option.inject)
  note adv = advance_biases [OF inp kind s(1,2) e(1,2)]
  obtain s1 where s1: "r = Some s1" using s(4) l by (cases r) (auto simp: biased_result_def)
  obtain s2 where s2: "r' = Some s2" using s(4) e(3) adv s1 by (cases r') (auto simp: biased_result_def)
  have laid: "laid (repr_pack repr) BiasStart flds ord st s1" "laid (repr_pack repr) BiasEnd flds ord' st s2"
    using s(4) e(3) s1 s2 by (simp_all add: biased_result_def)
  have set: "set ord = set ord'" using s(2) e(2) by (metis mset_eq_setD)
  have init: "unat (raw (pl_offset st)) = prefix_start (repr_pack repr) kind" "pl_niche st = None" "pl_available st = 0"
    using initial_placement_spec [OF inp] s(3) by auto
  have off: "unat (raw (pl_offset s1)) = unat (raw (pl_offset s2))" using laid adv init(1) by (simp add: laid_def)
  have al: "align_nat (abi (struct_align repr (pl_align s1))) = align_nat (abi (struct_align repr (pl_align s2)))"
    by (rule struct_align_cong [OF laid_align_eq [OF laid set]])
  obtain l' where l': "univariant_biased ex dl flds repr kind BiasEnd = Some (Some l')" "largest_niche l' = pl_niche s2"
    "unat (raw (lsize l')) = round_up (align_nat (abi (struct_align repr (pl_align s2)))) (unat (raw (pl_offset s2)))"
    using e(3) s2 by (auto simp: biased_result_def)
  have l0: "largest_niche l = pl_niche s1" "unat (raw (lsize l)) = round_up (align_nat (abi (struct_align repr (pl_align s1)))) (unat (raw (pl_offset s1)))"
    using s(4) s1 l by (auto simp: biased_result_def)
  have "lsize l' = lsize l" using l'(3) l0(2) off al size_of_nat [of "lsize l'"] size_of_nat [of "lsize l"] by simp
  moreover have "largest_niche l' \<noteq> None" if "largest_niche l \<noteq> None"
  proof -
    have "\<exists>i \<in> set ord. largest_niche (flds ! i) \<noteq> None"
      using laid(1) init(2) that l0(1) by (auto simp: laid_def niche_of_def)
    then show ?thesis using laid(2) init(2,3) set l'(2) by (auto simp: laid_def)
  qed
  ultimately show thesis using that l'(1) by blast
qed

subsection \<open>The method\<close>

lemma niche_spaces_total:
  assumes "niche_inside dl n (unat (raw (lsize l)))"
  shows "\<exists>t. niche_spaces dl l n = Some (raw (niche_offset n), t)"
  using assms by (auto simp: niche_spaces_def niche_inside_def Let_def checked_sub_u64_def word_le_nat_alt unat_sub)

lemma struct_niche_inside: "struct_layout dl pack start flds l \<Longrightarrow> largest_niche l = Some n \<Longrightarrow> niche_inside dl n (unat (raw (lsize l)))"
  by (simp add: struct_layout_def layout_ok_def)

text \<open>The method returns the layout of one of the biases.\<close>

lemma univariant_choice:
  assumes inp: "layout_input ex dl flds repr kind"
  obtains r where "univariant_biased ex dl flds repr kind BiasStart = Some r"
    "univariant ex dl flds repr kind = Some r \<or>
     (r \<noteq> None \<and> (\<exists>l'. univariant_biased ex dl flds repr kind BiasEnd = Some (Some l') \<and> univariant ex dl flds repr kind = Some (Some l') \<and>
       lsize l' = lsize (the r)))"
proof -
  obtain r where r: "univariant_biased ex dl flds repr kind BiasStart = Some r"
    by (rule univariant_biased_eq [OF inp, of BiasStart]) (auto simp: biased_result_def split: option.splits intro: that)
  show thesis
  proof (cases "\<exists>l n. r = Some l \<and> largest_niche l = Some n \<and> kind \<noteq> MaybeUnsized")
    case False
    then have "univariant ex dl flds repr kind = Some r"
      using r by (auto simp: univariant_def split: option.splits)
    then show ?thesis using that r by blast
  next
    case True
    then obtain l n where l: "r = Some l" "largest_niche l = Some n" "kind \<noteq> MaybeUnsized" by blast
    obtain l' where l': "univariant_biased ex dl flds repr kind BiasEnd = Some (Some l')" "lsize l' = lsize l" "largest_niche l' \<noteq> None"
      using biases_agree [OF inp l(3)] r l(1,2) by (metis option.distinct(1))
    obtain n' where n': "largest_niche l' = Some n'" using l'(3) by blast
    have inside: "niche_inside dl n (unat (raw (lsize l)))" "niche_inside dl n' (unat (raw (lsize l')))"
      using struct_niche_inside [OF biased_struct_layout [OF inp]] r l(1,2) l'(1) n' by auto
    obtain t where t: "niche_spaces dl l n = Some (raw (niche_offset n), t)" using niche_spaces_total [OF inside(1)] by blast
    obtain t' where t': "niche_spaces dl l' n' = Some (raw (niche_offset n'), t')" using niche_spaces_total [OF inside(2)] by blast
    have "univariant ex dl flds repr kind = Some (Some l) \<or> univariant ex dl flds repr kind = Some (Some l')"
      using r l l' n' t t' by (auto simp: univariant_def)
    then show ?thesis using that [OF r] l(1) l'(1,2) by auto
  qed
qed


lemma advance_le: "\<forall>(A, s) \<in> set xs. 0 < A \<Longrightarrow> advance n xs \<le> n + sum_list (map (\<lambda>(A, s). A + s) xs)"
proof (induction n xs rule: advance.induct)
  case (2 n A s xs)
  then show ?case using round_up_props(3) [of A n] by fastforce
qed simp

lemma blocks_bound:
  assumes "mset ord = mset [0..<length flds]"
  shows "advance n (blocks pack flds ord) \<le> n + (\<Sum>f \<leftarrow> flds. falign pack f + fsize f)"
proof -
  have "sum_list (map (\<lambda>i. falign pack (flds ! i) + fsize (flds ! i)) ord) = sum_list (map (\<lambda>i. falign pack (flds ! i) + fsize (flds ! i)) [0..<length flds])"
    using arg_cong [OF assms, of "\<lambda>m. sum_mset (image_mset (\<lambda>i. falign pack (flds ! i) + fsize (flds ! i)) m)"]
    by (simp only: mset_map [symmetric] sum_mset_sum_list)
  also have "map (\<lambda>i. falign pack (flds ! i) + fsize (flds ! i)) [0..<length flds] = map (\<lambda>f. falign pack f + fsize f) flds"
    by (rule nth_equalityI) simp_all
  finally have "sum_list (map (\<lambda>(A, s). A + s) (blocks pack flds ord)) = (\<Sum>f \<leftarrow> flds. falign pack f + fsize f)"
    by (simp add: blocks_def block_def comp_def)
  then show ?thesis using advance_le [of "blocks pack flds ord" n] by (auto simp: blocks_def block_def falign_def)
qed

lemma biased_returns:
  assumes inp: "layout_input ex dl flds repr kind"
    and small: "prefix_start (repr_pack repr) kind + (\<Sum>f \<leftarrow> flds. falign (repr_pack repr) f + fsize f) < bound_nat dl"
  shows "\<exists>l. univariant_biased ex dl flds repr kind bias = Some (Some l)"
proof (rule univariant_biased_eq [OF inp, of bias])
  fix ord st r assume ord: "mset ord = mset [0..<length flds]" and r: "biased_result ex dl flds repr kind bias ord st r"
  have "advance (prefix_start (repr_pack repr) kind) (blocks (repr_pack repr) flds ord) < bound_nat dl"
    using blocks_bound [OF ord] small by (rule le_less_trans)
  then show ?thesis using r by (cases r) (auto simp: biased_result_def)
qed

lemma layout_field_ok: "layout_field f = Some l \<Longrightarrow> layout_ok dl l \<and> lsize l = field_size f \<and> abi (lalign l) = ONE"
  by (cases f) (auto simp: layout_field_def field_align_one layout_ok_def aap_ok_def aap_new_def align_ok_def ALIGN_MAX_def ONE_def align_nat_def)

lemma struct_layout_fields_inside:
  "struct_layout dl pack start flds l \<Longrightarrow> f \<in> set flds \<Longrightarrow> fsize f \<le> unat (raw (lsize l))"
  by (fastforce simp: struct_layout_def in_set_conv_nth)

text \<open>Two elements of the base field of Pallas, on the default target.\<close>

lemma two_fields_input:
  "\<exists>dl f. dl_default = Some dl \<and> layout_field PallasBase = Some f \<and> layout_input plain_externs dl [f, f] repr_rust AlwaysSized \<and>
    (\<Sum>f \<leftarrow> [f, f]. falign None f + fsize f) < bound_nat dl"
proof -
  obtain dl where dl: "dl_default = Some dl" "dl_ok dl" "ptr_sized_integer dl = Some I64" using default_layout by blast
  obtain f where f: "layout_field PallasBase = Some f" by (simp add: layout_field_def field_align_one)
  note ok = layout_field_ok [OF f, of dl]
  have "size_bits (pointer_size dl) = Some 64" using dl(3) by (auto simp: ptr_sized_integer_def split: Option.bind_splits if_splits)
  then have "bound_nat dl = 2 ^ 47" by (simp add: bound_nat_def obj_size_bound_def push_bit_eq_mult)
  moreover have "falign None f = 1" "fsize f = 32" using ok by (simp_all add: falign_def packed_align_def align_nat_def ONE_def fsize_def)
  moreover have "layout_input plain_externs dl [f, f] repr_rust AlwaysSized" using ok dl(2,3) by (simp add: layout_input_def target_ok_def repr_ok_def shuffle_ok_def)
  ultimately show ?thesis using dl(1) f by auto
qed

subsection \<open>Properties\<close>

text \<open>
  C5: the layout of the fields of a struct or variant. For well-formed layouts of the fields,
  \<open>univariant\<close> does not panic: its expectations on the layout with the other niche bias and
  all arithmetic hold. When the object is small enough it returns a layout, and every layout
  it returns places each field at a multiple of its alignment (of the packed one, when the
  type is packed), behind the prefix and inside of the size, with no two fields overlapping
  and the memory index increasing with the offset; the alignment is a multiple of the one of
  every field, the size is a multiple of the alignment, and the niche of the layout is the
  niche of one of the fields, moved by its offset.
\<close>

theorem univariant_correct:
  assumes "layout_input ex dl flds repr kind"
  shows "\<exists>r. univariant ex dl flds repr kind = Some r \<and>
    (\<forall>l. r = Some l \<longrightarrow> struct_layout dl (repr_pack repr) (prefix_start (repr_pack repr) kind) flds l) \<and>
    (prefix_start (repr_pack repr) kind + (\<Sum>f \<leftarrow> flds. falign (repr_pack repr) f + fsize f) < bound_nat dl \<longrightarrow> r \<noteq> None)"
proof -
  note sound = biased_struct_layout [OF assms] and returns = biased_returns [OF assms]
  show ?thesis
    by (rule univariant_choice [OF assms]) (use sound returns [of BiasStart] in auto)
qed

theorem univariant_correct_witness:
  "\<exists>dl f l. dl_default = Some dl \<and> layout_field PallasBase = Some f \<and>
     univariant plain_externs
       dl [f, f] repr_rust AlwaysSized = Some (Some l) \<and>
     32 \<le> unat (raw (lsize l))"
proof -
  obtain dl f where dl: "dl_default = Some dl" and f: "layout_field PallasBase = Some f" and inp: "layout_input plain_externs dl [f, f] repr_rust AlwaysSized"
    and small: "(\<Sum>f \<leftarrow> [f, f]. falign None f + fsize f) < bound_nat dl"
    using two_fields_input by blast
  obtain l where l: "univariant plain_externs dl [f, f] repr_rust AlwaysSized = Some (Some l)" "struct_layout dl None 0 [f, f] l"
    using univariant_correct [OF inp] small by (auto simp: prefix_start_def)
  have "fsize f = 32" using layout_field_ok [OF f, of dl] by (simp add: fsize_def)
  then have "32 \<le> unat (raw (lsize l))" using struct_layout_fields_inside [OF l(2), of f] by simp
  then show ?thesis using dl f l(1) by blast
qed

text \<open>
  C12: the order of the fields of a sized struct. When the representation allows to reorder the
  fields and the order is not shuffled (the flag \<open>RANDOMIZE_LAYOUT\<close> is not set for the type, or the
  feature \<open>randomize\<close> is off), the struct has no padding between its fields: its
  size is the sum of the sizes of the fields, rounded up to its alignment.
\<close>

theorem univariant_no_padding:
  assumes inp: "layout_input ex dl flds repr AlwaysSized" and inh: "inhibit_struct_field_reordering_opt ex repr = Some False"
    and rand: "\<not> (flags_contain ex (repr_flags repr) RANDOMIZE_LAYOUT \<and> feature_randomize ex)"
    and l: "univariant ex dl flds repr AlwaysSized = Some (Some l)"
  shows "unat (raw (lsize l)) = round_up (align_nat (abi (lalign l))) (\<Sum>f \<leftarrow> flds. fsize f)"
proof -
  let ?p = "repr_pack repr"
  note wf = layout_inputD [OF inp]
  obtain bias where b: "univariant_biased ex dl flds repr AlwaysSized bias = Some (Some l)"
    by (rule univariant_choice [OF inp]) (use l that in auto)
  obtain ord st r where s: "univariant_order ex dl flds repr AlwaysSized bias = Some ord" "mset ord = mset [0..<length flds]"
    "initial_placement dl flds repr AlwaysSized = Some st" "biased_result ex dl flds repr AlwaysSized bias ord st r"
    by (rule univariant_biased_eq [OF inp, of bias])
  have "advance 0 (blocks ?p flds ord) = sum_list (map snd (blocks ?p flds ord))"
  proof (cases "length flds \<le> 1")
    case True
    then have "ord = [0..<length flds]" using s(1) univariant_order_eq [OF wf(5) inh] by (simp add: Let_def)
    then show ?thesis using True by (cases flds) (auto simp: blocks_def block_def round_up_dvd falign_def)
  next
    case False
    have "optimize_order dl flds ?p AlwaysSized bias [0..<length flds] flds = Some ord"
      using s(1) univariant_order_eq [OF wf(5) inh] False rand by (auto simp: Let_def tail_start_def)
    then have "order_ok AlwaysSized ?p flds ord"
      using optimize_order_spec [OF wf(1,7,4) order_refl upt_below, of AlwaysSized bias] by auto
    then show ?thesis by (rule advance_optimized)
  qed
  then have adv: "advance 0 (blocks ?p flds ord) = (\<Sum>f \<leftarrow> flds. fsize f)" using blocks_sum [OF s(2)] by simp
  have init: "unat (raw (pl_offset st)) = 0" using initial_placement_spec [OF inp] s(3) by (auto simp: prefix_start_def)
  show ?thesis using s(4) b adv init by (cases r) (auto simp: biased_result_def laid_def)
qed


theorem univariant_no_padding_witness:
  "\<exists>dl f l. dl_default = Some dl \<and> layout_field PallasBase = Some f \<and>
     univariant plain_externs
       dl [f, f] repr_rust AlwaysSized = Some (Some l) \<and>
     unat (raw (lsize l)) = round_up (align_nat (abi (lalign l))) 64"
proof -
  obtain dl f where dl: "dl_default = Some dl" and f: "layout_field PallasBase = Some f" and inp: "layout_input plain_externs dl [f, f] repr_rust AlwaysSized"
    and small: "(\<Sum>f \<leftarrow> [f, f]. falign None f + fsize f) < bound_nat dl"
    using two_fields_input by blast
  obtain l where l: "univariant plain_externs dl [f, f] repr_rust AlwaysSized = Some (Some l)"
  proof (rule univariant_choice [OF inp])
    fix r
    assume "univariant_biased plain_externs dl [f, f] repr_rust AlwaysSized BiasStart = Some r"
      "univariant plain_externs dl [f, f] repr_rust AlwaysSized = Some r \<or>
       (r \<noteq> None \<and> (\<exists>l'. univariant_biased plain_externs dl [f, f] repr_rust AlwaysSized BiasEnd = Some (Some l') \<and>
         univariant plain_externs dl [f, f] repr_rust AlwaysSized = Some (Some l') \<and> lsize l' = lsize (the r)))"
    then show thesis using biased_returns [OF inp, of BiasStart] small that by (auto simp: prefix_start_def)
  qed
  have "inhibit_struct_field_reordering_opt plain_externs repr_rust = Some False" by (simp add: inhibit_struct_field_reordering_opt_def)
  from univariant_no_padding [OF inp this _ l] have "unat (raw (lsize l)) = round_up (align_nat (abi (lalign l))) (\<Sum>f \<leftarrow> [f, f]. fsize f)" by (simp add: RANDOMIZE_LAYOUT_def)
  moreover have "fsize f = 32" using layout_field_ok [OF f, of dl] by (simp add: fsize_def)
  ultimately show ?thesis using dl f l by auto
qed

end
