(* ===== verification/Layout_Union.thy ===== *)
theory Layout_Union
  imports Layout_Struct_Props
begin

text \<open>
  The layout of a union (\<open>layout_of_union\<close> of \<open>rustc_abi/src/layout.rs\<close>): all fields at offset
  zero, the largest size and alignment, and the class that the sized fields have in common.
\<close>

subsection \<open>Definitions\<close>

datatype AbiMismatch = AbiMismatch

record UnionState =
  un_align :: AbiAndPrefAlign
  un_max_repr_align :: "Align option"
  un_size :: Size
  un_common :: "AbiMismatch + (Abi \<times> Align) option"
  un_delayed_bugs :: nat

fun is_aggregate :: "Abi \<Rightarrow> bool" where
  "is_aggregate (Aggregate sized) = True"
| "is_aggregate _ = False"

definition max_size :: "Size \<Rightarrow> Size \<Rightarrow> Size" where
  "max_size a b = (if raw a \<le> raw b then b else a)"

text \<open>The common class and alignment, after a field that has a size.\<close>

definition union_common :: "LayoutS \<Rightarrow> AbiMismatch + (Abi \<times> Align) option \<Rightarrow> (AbiMismatch + (Abi \<times> Align) option) option" where
  "union_common field common =
     (case common of
        Inl e \<Rightarrow> Some (Inl e)
      | Inr common' \<Rightarrow> do {
          field_abi \<leftarrow> abi_to_union (labi field);
          case common' of
            Some (common_abi, common_align) \<Rightarrow>
              if common_abi \<noteq> field_abi then Some (Inl AbiMismatch)
              else do {
                rassert (is_aggregate common_abi \<or> common_align = abi (lalign field));
                Some common
              }
          | None \<Rightarrow> Some (Inr (Some (field_abi, abi (lalign field))))
        })"

definition union_field :: "LayoutS \<Rightarrow> UnionState \<Rightarrow> UnionState option" where
  "union_field field st = do {
     let st = \<lparr>un_align = aap_max (un_align st) (lalign field),
       un_max_repr_align = max_align_option (un_max_repr_align st) (max_repr_align field),
       un_size = max_size (un_size st) (lsize field),
       un_common = un_common st,
       un_delayed_bugs = (if is_unsized (labi field) then un_delayed_bugs st + 1 else un_delayed_bugs st)\<rparr>;
     if is_zst field then Some st
     else do {
       common \<leftarrow> union_common field (un_common st);
       Some (st\<lparr>un_common := common\<rparr>)
     }
   }"

definition union_abi :: "TargetDataLayout \<Rightarrow> AbiAndPrefAlign \<Rightarrow> AbiMismatch + (Abi \<times> Align) option \<Rightarrow> Abi option" where
  "union_abi dl align common =
     (case common of
        Inl e \<Rightarrow> Some (Aggregate True)
      | Inr None \<Rightarrow> Some (Aggregate True)
      | Inr (Some (class, a)) \<Rightarrow> do {
          inherent \<leftarrow> inherent_align class dl;
          Some (if map_option abi inherent \<noteq> Some (abi align) then Aggregate True else class)
        })"

definition layout_of_union :: "externs \<Rightarrow> TargetDataLayout \<Rightarrow> ReprOptions \<Rightarrow> LayoutS list list \<Rightarrow> LayoutS option option" where
  "layout_of_union ex dl repr variants = do {
     let st = \<lparr>un_align = (if repr_pack repr \<noteq> None then i8_align dl else aggregate_align dl), un_max_repr_align = repr_align repr,
       un_size = ZERO, un_common = (if inhibit_union_abi_opt ex repr then Inl AbiMismatch else Inr None), un_delayed_bugs = 0\<rparr>;
     only_variant \<leftarrow> idx variants FIRST_VARIANT;
     st \<leftarrow> for_loop union_field only_variant st;
     let align = (case repr_pack repr of Some pack \<Rightarrow> aap_min (un_align st) (aap_new pack) | None \<Rightarrow> un_align st);
     let unadjusted = abi align;
     let align = (case repr_align repr of Some a \<Rightarrow> aap_max align (aap_new a) | None \<Rightarrow> align);
     class \<leftarrow> union_abi dl align (un_common st);
     if length only_variant = 0 then Some None
     else do {
       sz \<leftarrow> size_align_to (un_size st) (abi align);
       Some (Some (LayoutS (UnionShape (length only_variant)) (Single FIRST_VARIANT) class None align sz (un_max_repr_align st) unadjusted))
     }
   }"


subsection \<open>The loop over the fields\<close>

lemma union_field_step:
  assumes "union_field f st = Some st'"
  shows "un_align st' = aap_max (un_align st) (lalign f)" and "un_size st' = max_size (un_size st) (lsize f)"
  using assms by (auto simp: union_field_def Let_def split: if_splits Option.bind_splits)

lemma union_fields:
  assumes "for_loop union_field fs st = Some st'"
  shows "un_align st' = fold (\<lambda>f a. aap_max a (lalign f)) fs (un_align st) \<and> unat (raw (un_size st)) \<le> unat (raw (un_size st')) \<and>
    (\<forall>f \<in> set fs. fsize f \<le> unat (raw (un_size st'))) \<and> (un_size st' = un_size st \<or> (\<exists>f \<in> set fs. un_size st' = lsize f))"
  using assms
proof (induction fs arbitrary: st)
  case (Cons f fs)
  obtain s1 where s1: "union_field f st = Some s1" "for_loop union_field fs s1 = Some st'"
    using Cons.prems by (auto split: Option.bind_splits)
  then show ?case using union_field_step [OF s1(1)] Cons.IH [OF s1(2)]
    by (auto simp: max_size_def word_le_nat_alt fsize_def split: if_splits)
qed simp

lemma layout_of_unionE:
  assumes "layout_of_union ex dl repr [fs] = Some (Some l)"
  obtains st st' sz cls where
    "for_loop union_field fs st = Some st'"
    "un_align st = (if repr_pack repr \<noteq> None then i8_align dl else aggregate_align dl)" "un_size st = ZERO" "fs \<noteq> []"
    "lfields l = UnionShape (length fs)" "largest_niche l = None" "labi l = cls"
    "lalign l = struct_align repr (case repr_pack repr of Some p \<Rightarrow> aap_min (un_align st') (aap_new p) | None \<Rightarrow> un_align st')"
    "size_align_to (un_size st') (abi (lalign l)) = Some (lsize l)" "union_abi dl (lalign l) (un_common st') = Some cls"
  using assms
  by (auto simp: layout_of_union_def Let_def FIRST_VARIANT_def struct_align_def split: Option.bind_splits if_splits intro: that)

text \<open>
  C28: the layout of a union. For well-formed layouts of the fields, a layout that is returned
  is well-formed, holds every field at offset zero and, unless the union is packed, has an
  alignment that is a multiple of the one of every field.
\<close>

theorem union_holds_fields:
  assumes dl: "target_ok dl" and repr: "repr_ok repr" and fs: "\<forall>f \<in> set fs. layout_ok dl f"
    and l: "layout_of_union ex dl repr [fs] = Some (Some l)"
  shows "layout_ok dl l \<and> lfields l = UnionShape (length fs) \<and>
    (\<forall>f \<in> set fs. fsize f \<le> unat (raw (lsize l)) \<and> (repr_pack repr = None \<longrightarrow> align_nat (abi (lalign f)) dvd align_nat (abi (lalign l))))"
proof (rule layout_of_unionE [OF l])
  fix st st' cls
  assume loop: "for_loop union_field fs st = Some st'"
    and st: "un_align st = (if repr_pack repr \<noteq> None then i8_align dl else aggregate_align dl)" "un_size st = ZERO"
    and al: "lalign l = struct_align repr (case repr_pack repr of Some p \<Rightarrow> aap_min (un_align st') (aap_new p) | None \<Rightarrow> un_align st')"
    and sz: "size_align_to (un_size st') (abi (lalign l)) = Some (lsize l)"
    and shape: "lfields l = UnionShape (length fs)" "largest_niche l = None"
  note u = union_fields [OF loop, THEN conjunct1] union_fields [OF loop, THEN conjunct2, THEN conjunct1]
    union_fields [OF loop, THEN conjunct2, THEN conjunct2, THEN conjunct1] union_fields [OF loop, THEN conjunct2, THEN conjunct2, THEN conjunct2]
  have "aap_ok (un_align st)" using dl st(1) by (simp add: target_ok_def dl_ok_def)
  then have a1: "aap_ok (un_align st')" unfolding u(1) by (rule fold_aap_max_ok) (use fs in \<open>simp add: layout_ok_def\<close>)
  then have a2: "aap_ok (case repr_pack repr of Some p \<Rightarrow> aap_min (un_align st') (aap_new p) | None \<Rightarrow> un_align st')"
    using repr by (auto simp: repr_ok_def aap_ok_def aap_min_def aap_new_def align_min_ok split: option.split)
  note sa = struct_align_props [OF repr a2, folded al]
  have le: "unat (raw (un_size st')) \<le> 2 ^ 61" using u(4) st(2) fs by (auto simp: ZERO_def layout_ok_def)
  have "unat (pow2 (abi (lalign l))) < 64" using align_ok_le [of "abi (lalign l)"] sa(1) by (simp add: aap_ok_def)
  from size_align_to_spec [OF this, of "un_size st'"] sz
  have sz': "align_nat (abi (lalign l)) dvd unat (raw (lsize l))" "unat (raw (un_size st')) \<le> unat (raw (lsize l))"
    "unat (raw (lsize l)) < unat (raw (un_size st')) + align_nat (abi (lalign l))" by (auto split: if_splits)
  have "unat (raw (lsize l)) \<le> 2 ^ 61"
  proof -
    have "align_nat (abi (lalign l)) dvd 2 ^ 61"
      unfolding align_nat_def using align_ok_le [of "abi (lalign l)"] sa(1) by (intro le_imp_power_dvd) (simp add: aap_ok_def)
    then have "round_up (align_nat (abi (lalign l))) (2 ^ 61) = 2 ^ 61" by (simp add: round_up_dvd)
    moreover have "unat (raw (lsize l)) = round_up (align_nat (abi (lalign l))) (unat (raw (un_size st')))"
      using sz' by (rule round_up_unique)
    moreover have "round_up (align_nat (abi (lalign l))) (unat (raw (un_size st'))) \<le> round_up (align_nat (abi (lalign l))) (2 ^ 61)"
      unfolding round_up_def by (rule mult_le_mono1, rule div_le_mono) (use le in simp)
    ultimately show ?thesis by simp
  qed
  moreover have "align_nat (abi (lalign f)) dvd align_nat (abi (lalign l))" if "f \<in> set fs" "repr_pack repr = None" for f
  proof (rule align_nat_dvd)
    have "pow2 (abi (lalign f)) \<le> pow2 (abi (un_align st'))" unfolding u(1) pow2_fold_aap_max by (rule Max_ge) (use that in auto)
    then show "pow2 (abi (lalign f)) \<le> pow2 (abi (lalign l))" using sa(2) that(2) by simp
  qed
  ultimately show ?thesis using sz' sa(1) shape u(3) by (auto simp: layout_ok_def intro: le_trans)
qed

theorem union_holds_fields_witness:
  "\<exists>dl f l. dl_default = Some dl \<and> layout_field PallasBase = Some f \<and>
     layout_of_union plain_externs
       dl \<lparr>repr_int = None, repr_align = None, repr_pack = None, repr_flags = 1, field_shuffle_seed = 0\<rparr> [[f]] = Some (Some l) \<and>
     32 \<le> unat (raw (lsize l))"
proof -
  obtain dl where dl: "dl_default = Some dl" "dl_ok dl" "ptr_sized_integer dl = Some I64" using default_layout by blast
  obtain f where f: "layout_field PallasBase = Some f" by (simp add: layout_field_def field_align_one)
  note ok = layout_field_ok [OF f, of dl]
  have f': "labi f = AbiField PallasBase" using f by (auto simp: layout_field_def field_align_one)
  have al: "align_ok (abi (aap_max (aggregate_align dl) (lalign f)))"
  proof -
    have "aap_ok (aggregate_align dl)" "aap_ok (lalign f)" using dl(2) ok by (simp_all add: dl_ok_def layout_ok_def)
    from aap_max_ok [OF this] show ?thesis by (simp add: aap_ok_def)
  qed
  have sz: "unat (raw (max_size ZERO (lsize f))) \<le> 2 ^ 60" using ok by (simp add: max_size_def ZERO_def)
  obtain s where s: "size_align_to (max_size ZERO (lsize f)) (abi (aap_max (aggregate_align dl) (lalign f))) = Some s"
    by (rule size_align_to_round_up [OF al sz])
  have "\<exists>l. layout_of_union plain_externs dl \<lparr>repr_int = None, repr_align = None, repr_pack = None, repr_flags = 1, field_shuffle_seed = 0\<rparr> [[f]] = Some (Some l)"
    using s by (simp add: layout_of_union_def FIRST_VARIANT_def union_field_def Let_def is_zst_def f' union_common_def
        inhibit_union_abi_opt_def repr_c_def IS_C_def union_abi_def)
  then obtain l where l: "layout_of_union plain_externs dl \<lparr>repr_int = None, repr_align = None, repr_pack = None, repr_flags = 1, field_shuffle_seed = 0\<rparr> [[f]] = Some (Some l)" ..
  have "fsize f \<le> unat (raw (lsize l))"
    using union_holds_fields [OF _ _ _ l] ok dl(2,3) by (simp add: target_ok_def repr_ok_def)
  then show ?thesis using dl(1) f l ok by (auto simp: fsize_def)
qed

text \<open>
  C15: unions of fields and curves. Computing the layout of a union whose first sized field is
  an element of a Galois field or a curve panics, unless the union is \<open>repr(C)\<close>.
\<close>

theorem union_of_field_panics:
  assumes "\<not> repr_c ex repr" and "\<forall>f \<in> set before. is_zst f" and "is_field (labi f) \<or> is_curve (labi f)"
  shows "layout_of_union ex dl repr [before @ f # after] = None"
proof -
  have zst: "un_common st = Inr None \<Longrightarrow> \<exists>st'. for_loop union_field before st = Some st' \<and> un_common st' = Inr None" for st
    using assms(2)
  proof (induction before arbitrary: st)
    case (Cons z zs)
    then show ?case by (simp add: union_field_def Let_def)
  qed simp
  have f: "\<not> is_zst f" "abi_to_union (labi f) = None" using assms(3) by (cases "labi f"; simp add: is_zst_def)+
  then have "union_field f st = None" if "un_common st = Inr None" for st using that by (simp add: union_field_def Let_def union_common_def)
  then have loop: "for_loop union_field (before @ f # after) st = None" if "un_common st = Inr None" for st
    using zst [OF that] by (auto simp: for_loop_append)
  show ?thesis
    using assms(1) by (simp add: layout_of_union_def Let_def FIRST_VARIANT_def inhibit_union_abi_opt_def loop)
qed


theorem union_of_field_panics_witness:
  "\<forall>dl. \<exists>f. layout_field Curve25519Scalar = Some f \<and>
     layout_of_union plain_externs
       dl repr_rust [[f]] = None"
proof
  fix dl
  obtain f where f: "layout_field Curve25519Scalar = Some f" "is_field (labi f)" by (auto simp: layout_field_def field_align_one)
  then have "layout_of_union plain_externs
       dl repr_rust [[] @ f # []] = None"
    by (intro union_of_field_panics) (simp_all add: repr_c_def IS_C_def)
  then show "\<exists>f. layout_field Curve25519Scalar = Some f \<and>
     layout_of_union plain_externs
       dl repr_rust [[f]] = None"
    using f(1) by auto
qed

end
