(* ===== verification/Layout_Enum.thy ===== *)
theory Layout_Enum
  imports Layout_Union
begin

text \<open>
  The layout of structs and enums (\<open>layout_of_struct_or_enum\<close> of \<open>rustc_abi/src/layout.rs\<close>) and
  the choice of the discriminant type (\<open>repr_discr\<close> of \<open>rustc_middle/src/ty/layout.rs\<close>).
  An \<open>i128\<close> that is computed with is an integer, a discriminant in memory is a word.
\<close>

subsection \<open>Discriminant types\<close>

text \<open>The derived order on \<open>Integer\<close> is the one of the sizes.\<close>

definition integer_less :: "Integer \<Rightarrow> Integer \<Rightarrow> bool" where
  "integer_less a b \<longleftrightarrow> integer_bits a < integer_bits b"

definition integer_max :: "Integer \<Rightarrow> Integer \<Rightarrow> Integer" where
  "integer_max a b = (if integer_less b a then a else b)"

definition repr_discr :: "externs \<Rightarrow> TargetDataLayout \<Rightarrow> ReprOptions \<Rightarrow> int \<Rightarrow> int \<Rightarrow> (Integer \<times> bool) option" where
  "repr_discr ex dl repr mn mx = do {
     let unsigned_fit = fit_unsigned (max (word_of_int mn) (word_of_int mx));
     let signed_fit = integer_max (fit_signed mn) (fit_signed mx);
     case repr_int repr of
       Some ity \<Rightarrow> do {
         discr \<leftarrow> from_attr dl ity;
         let fit = (if it_is_signed ity then signed_fit else unsigned_fit);
         rassert (\<not> integer_less discr fit);
         Some (discr, it_is_signed ity)
       }
     | None \<Rightarrow> do {
         let at_least = (if repr_c ex repr then c_enum_min_size dl else I8);
         Some (if mn \<ge> 0 then (integer_max unsigned_fit at_least, False) else (integer_max signed_fit at_least, True))
       }
   }"

subsection \<open>Structs\<close>

definition scalar_unit :: "TargetDataLayout \<Rightarrow> Primitive \<Rightarrow> Scalar option" where
  "scalar_unit dl value = do {
     let sz = primitive_size value dl;
     bits \<leftarrow> size_bits sz;
     rassert (bits \<le> 128);
     v \<leftarrow> wr_full sz;
     Some (Initialized value v)
   }"

definition absent :: "LayoutS list \<Rightarrow> bool" where
  "absent flds \<longleftrightarrow> (\<exists>f \<in> set flds. is_uninhabited (labi f)) \<and> (\<forall>f \<in> set flds. is_zst f)"

definition present_variants :: "LayoutS list list \<Rightarrow> nat list" where
  "present_variants variants = map fst (filter (\<lambda>(i, v). \<not> absent v) (enumerate 0 variants))"

definition layout_of_never_type :: "TargetDataLayout \<Rightarrow> LayoutS" where
  "layout_of_never_type dl =
     LayoutS PrimitiveShape (Single FIRST_VARIANT) Uninhabited None (i8_align dl) ZERO None (abi (i8_align dl))"

datatype Bound = Included u128 | Excluded u128 | Unbounded

fun hide_niches :: "TargetDataLayout \<Rightarrow> Scalar \<Rightarrow> Scalar option" where
  "hide_niches dl (Initialized value valid_range) = map_option (Initialized value) (wr_full (primitive_size value dl))"
| "hide_niches dl (UnionScalar value) = Some (UnionScalar value)"

fun unsafe_cell_abi :: "TargetDataLayout \<Rightarrow> Abi \<Rightarrow> Abi option" where
  "unsafe_cell_abi dl Uninhabited = Some Uninhabited"
| "unsafe_cell_abi dl (AbiScalar scalar) = map_option AbiScalar (hide_niches dl scalar)"
| "unsafe_cell_abi dl (ScalarPair a b) = do { a \<leftarrow> hide_niches dl a; b \<leftarrow> hide_niches dl b; Some (ScalarPair a b) }"
| "unsafe_cell_abi dl (Vector elem cnt) = do { elem \<leftarrow> hide_niches dl elem; Some (Vector elem cnt) }"
| "unsafe_cell_abi dl (Aggregate sized) = Some (Aggregate sized)"
| "unsafe_cell_abi dl (AbiField f) = None"
| "unsafe_cell_abi dl (AbiCurve c) = None"

text \<open>The assignment of a bound through \<open>valid_range_mut\<close>.\<close>

fun set_valid_range :: "Scalar \<Rightarrow> WrappingRange \<Rightarrow> Scalar option" where
  "set_valid_range (Initialized value old) v = Some (Initialized value v)"
| "set_valid_range (UnionScalar value) v = None"

definition restrict_scalar :: "TargetDataLayout \<Rightarrow> Bound \<times> Bound \<Rightarrow> Scalar \<Rightarrow> Scalar option" where
  "restrict_scalar dl bounds scalar = do {
     let (start, end') = bounds;
     max_value \<leftarrow> unsigned_int_max (scalar_size scalar dl);
     scalar \<leftarrow> (case start of
         Included s \<Rightarrow> do {
           rassert (s \<le> max_value);
           v \<leftarrow> valid_range_mut scalar;
           set_valid_range scalar (v\<lparr>wr_start := s\<rparr>)
         }
       | _ \<Rightarrow> Some scalar);
     case end' of
       Included e \<Rightarrow> do {
         rassert (e \<le> max_value);
         v \<leftarrow> valid_range_mut scalar;
         set_valid_range scalar (v\<lparr>wr_end := e\<rparr>)
       }
     | _ \<Rightarrow> Some scalar
   }"

definition update_niche :: "TargetDataLayout \<Rightarrow> Scalar \<Rightarrow> LayoutS \<Rightarrow> LayoutS option" where
  "update_niche dl scalar st = do {
     niche \<leftarrow> niche_from_scalar dl ZERO scalar;
     case niche of
       None \<Rightarrow> Some st
     | Some niche \<Rightarrow> (case largest_niche st of
           Some largest \<Rightarrow> do {
             la \<leftarrow> niche_available largest dl;
             na \<leftarrow> niche_available niche dl;
             Some (if la \<le> na then set_largest_niche (Some niche) st else st)
           }
         | None \<Rightarrow> Some (set_largest_niche (Some niche) st))
   }"

definition restrict_valid_range :: "TargetDataLayout \<Rightarrow> Bound \<times> Bound \<Rightarrow> LayoutS \<Rightarrow> LayoutS option" where
  "restrict_valid_range dl bounds st =
     (case labi st of
        AbiScalar scalar \<Rightarrow> do {
          scalar \<leftarrow> restrict_scalar dl bounds scalar;
          update_niche dl scalar (set_abi (AbiScalar scalar) st)
        }
      | ScalarPair scalar b \<Rightarrow> do {
          scalar \<leftarrow> restrict_scalar dl bounds scalar;
          update_niche dl scalar (set_abi (ScalarPair scalar b) st)
        }
      | _ \<Rightarrow> do { rassert (bounds = (Unbounded, Unbounded)); Some st })"

definition layout_of_struct ::
    "externs \<Rightarrow> TargetDataLayout \<Rightarrow> ReprOptions \<Rightarrow> LayoutS list list \<Rightarrow> bool \<Rightarrow> bool \<Rightarrow> Bound \<times> Bound \<Rightarrow> bool \<Rightarrow> nat \<Rightarrow> LayoutS option option" where
  "layout_of_struct ex dl repr variants is_enum is_unsafe_cell valid_range always_sized v = do {
     flds \<leftarrow> idx variants v;
     let kind = (if is_enum \<or> flds = [] \<or> always_sized then AlwaysSized else MaybeUnsized);
     r \<leftarrow> univariant ex dl flds repr kind;
     case r of
       None \<Rightarrow> Some None
     | Some st \<Rightarrow> do {
         let st = set_variants (Single v) st;
         if is_unsafe_cell then do {
           class \<leftarrow> unsafe_cell_abi dl (labi st);
           Some (Some (set_largest_niche None (set_abi class st)))
         }
         else map_option Some (restrict_valid_range dl valid_range st)
       }
   }"

subsection \<open>Niche filling\<close>

record TmpLayout =
  tmp_layout :: LayoutS
  tmp_variants :: "LayoutS list"

record VariantsAlign =
  va_align :: AbiAndPrefAlign
  va_max_repr_align :: "Align option"
  va_unadjusted :: Align

definition va_add :: "LayoutS \<Rightarrow> VariantsAlign \<Rightarrow> VariantsAlign" where
  "va_add st va =
     \<lparr>va_align = aap_max (va_align va) (lalign st), va_max_repr_align = max_align_option (va_max_repr_align va) (max_repr_align st),
      va_unadjusted = align_max (va_unadjusted va) (unadjusted_abi_align st)\<rparr>"

fun niche_variant_layouts ::
    "externs \<Rightarrow> TargetDataLayout \<Rightarrow> ReprOptions \<Rightarrow> (nat \<times> LayoutS list) list \<Rightarrow> VariantsAlign \<Rightarrow> (VariantsAlign \<times> LayoutS list) option option" where
  "niche_variant_layouts ex dl repr [] va = Some (Some (va, []))"
| "niche_variant_layouts ex dl repr ((j, v) # vs) va = do {
     r \<leftarrow> univariant ex dl v repr AlwaysSized;
     case r of
       None \<Rightarrow> Some None
     | Some st \<Rightarrow> do {
         let st = set_variants (Single j) st;
         rest \<leftarrow> niche_variant_layouts ex dl repr vs (va_add st va);
         Some (map_option (\<lambda>(va, ls). (va, st # ls)) rest)
       }
   }"

definition needs_disc :: "LayoutS list list \<Rightarrow> nat \<Rightarrow> nat \<Rightarrow> bool" where
  "needs_disc variants largest i \<longleftrightarrow> i \<noteq> largest \<and> \<not> absent (variants ! i)"

text \<open>The first and the last variant that need a value of the niche.\<close>

definition niche_variants :: "LayoutS list list \<Rightarrow> nat \<Rightarrow> (nat \<times> nat) option" where
  "niche_variants variants largest = do {
     first \<leftarrow> find (needs_disc variants largest) [0..<length variants];
     last' \<leftarrow> find (needs_disc variants largest) (rev [0..<length variants]);
     Some (first, last')
   }"

text \<open>The field with the largest niche, and the reservation in it.\<close>

definition find_niche :: "TargetDataLayout \<Rightarrow> LayoutS list \<Rightarrow> u128 \<Rightarrow> (nat \<times> Niche \<times> u128 \<times> Scalar) option option" where
  "find_niche dl flds cnt = do {
     best \<leftarrow> max_by_key (\<lambda>(j, niche). niche_available niche dl)
       (List.map_filter (\<lambda>(j, field). map_option (Pair j) (largest_niche field)) (enumerate 0 flds));
     case best of
       None \<Rightarrow> Some None
     | Some (j, niche) \<Rightarrow> do {
         r \<leftarrow> niche_reserve niche dl cnt;
         Some (map_option (\<lambda>(start, scalar). (j, niche, start, scalar)) r)
       }
   }"

text \<open>The layout of another variant, moved behind the niche when it does not end before it.\<close>

definition move_fields :: "LayoutS list \<Rightarrow> Size \<Rightarrow> Size list \<Rightarrow> Size list option" where
  "move_fields flds this_offset offsets =
     those (map (\<lambda>(j, offset). do { f \<leftarrow> idx flds j; if \<not> is_zst f then size_add offset this_offset else Some offset })
       (enumerate 0 offsets))"

definition fit_variant :: "LayoutS list \<Rightarrow> Size \<Rightarrow> Size \<Rightarrow> Size \<Rightarrow> LayoutS \<Rightarrow> LayoutS option option" where
  "fit_variant flds niche_off niche_size tot layout = do {
     let layout = set_largest_niche None layout;
     if raw (lsize layout) \<le> raw niche_off then Some (Some layout)
     else do {
       e \<leftarrow> size_add niche_off niche_size;
       this_offset \<leftarrow> size_align_to e (abi (lalign layout));
       n \<leftarrow> size_add this_offset (lsize layout);
       if raw n > raw tot then Some None
       else (case lfields layout of
           Arbitrary offsets memory_index \<Rightarrow> do {
             offsets \<leftarrow> move_fields flds this_offset offsets;
             let layout = set_fields (Arbitrary offsets memory_index) layout;
             let layout = (if \<not> is_uninhabited (labi layout) then set_abi (Aggregate True) layout else layout);
             n \<leftarrow> size_add (lsize layout) this_offset;
             Some (Some (set_size n layout))
           }
         | _ \<Rightarrow> None)
     }
   }"

fun fit_variants ::
    "LayoutS list list \<Rightarrow> nat \<Rightarrow> Size \<Rightarrow> Size \<Rightarrow> Size \<Rightarrow> (nat \<times> LayoutS) list \<Rightarrow> LayoutS list option option" where
  "fit_variants variants largest niche_off niche_size tot [] = Some (Some [])"
| "fit_variants variants largest niche_off niche_size tot ((i, layout) # ls) = do {
     r \<leftarrow> (if i = largest then Some (Some layout)
           else do { flds \<leftarrow> idx variants i; fit_variant flds niche_off niche_size tot layout });
     case r of
       None \<Rightarrow> Some None
     | Some layout \<Rightarrow> do {
         rest \<leftarrow> fit_variants variants largest niche_off niche_size tot ls;
         Some (map_option (Cons layout) rest)
       }
   }"

definition niche_filling_abi :: "LayoutS list \<Rightarrow> nat \<Rightarrow> LayoutS \<Rightarrow> Size \<Rightarrow> AbiAndPrefAlign \<Rightarrow> Size \<Rightarrow> Scalar \<Rightarrow> Abi" where
  "niche_filling_abi variant_layouts largest_index largest tot align niche_off niche_scalar =
     (let others_zst = (\<forall>(i, layout) \<in> set (enumerate 0 variant_layouts). i = largest_index \<or> lsize layout = ZERO);
          same_size = (tot = lsize largest);
          same_align = (align = lalign largest)
      in if \<forall>v \<in> set variant_layouts. is_uninhabited (labi v) then Uninhabited
         else if same_size \<and> same_align \<and> others_zst then
           (case labi largest of
              AbiScalar _ \<Rightarrow> AbiScalar niche_scalar
            | ScalarPair first second \<Rightarrow>
                if niche_off = ZERO then ScalarPair niche_scalar (scalar_to_union second)
                else ScalarPair (scalar_to_union first) niche_scalar
            | _ \<Rightarrow> Aggregate True)
         else Aggregate True)"

definition calculate_niche_filling_layout ::
    "externs \<Rightarrow> TargetDataLayout \<Rightarrow> ReprOptions \<Rightarrow> LayoutS list list \<Rightarrow> bool \<Rightarrow> TmpLayout option option" where
  "calculate_niche_filling_layout ex dl repr variants dont_niche_optimize_enum =
     (if dont_niche_optimize_enum then Some None
      else if length variants < 2 then Some None
      else do {
        let va = \<lparr>va_align = aggregate_align dl, va_max_repr_align = repr_align repr, va_unadjusted = abi (aggregate_align dl)\<rparr>;
        r \<leftarrow> niche_variant_layouts ex dl repr (enumerate 0 variants) va;
        case r of
          None \<Rightarrow> Some None
        | Some (va, variant_layouts) \<Rightarrow> do {
            best \<leftarrow> max_by_key (\<lambda>(i, layout). Some (raw (lsize layout))) (enumerate 0 variant_layouts);
            case best of
              None \<Rightarrow> Some None
            | Some (largest_index, _) \<Rightarrow> do {
                range \<leftarrow> niche_variants variants largest_index;
                let cnt = of_nat (snd range - fst range + 1);
                largest_fields \<leftarrow> idx variants largest_index;
                found \<leftarrow> find_niche dl largest_fields cnt;
                case found of
                  None \<Rightarrow> Some None
                | Some (field_index, niche, niche_start, niche_scalar) \<Rightarrow> do {
                    largest \<leftarrow> idx variant_layouts largest_index;
                    field_offset \<leftarrow> fields_offset (lfields largest) field_index;
                    niche_off \<leftarrow> size_add (niche_offset niche) field_offset;
                    let niche_size = primitive_size (niche_value niche) dl;
                    tot \<leftarrow> size_align_to (lsize largest) (abi (va_align va));
                    fit \<leftarrow> fit_variants variants largest_index niche_off niche_size tot (enumerate 0 variant_layouts);
                    case fit of
                      None \<Rightarrow> Some None
                    | Some variant_layouts \<Rightarrow> do {
                        new_niche \<leftarrow> niche_from_scalar dl niche_off niche_scalar;
                        let class = niche_filling_abi variant_layouts largest_index largest tot (va_align va) niche_off niche_scalar;
                        let layout = LayoutS (Arbitrary [niche_off] [0])
                          (Multiple niche_scalar (NicheEncoding largest_index range niche_start) 0 [])
                          class new_niche (va_align va) tot (va_max_repr_align va) (va_unadjusted va);
                        Some (Some \<lparr>tmp_layout = layout, tmp_variants = variant_layouts\<rparr>)
                      }
                  }
              }
          }
      })"


subsection \<open>Tagged layouts\<close>

definition I128_MAX :: int where "I128_MAX = 2 ^ 127 - 1"
definition I128_MIN :: int where "I128_MIN = - (2 ^ 127)"

text \<open>The range of the discriminants of the variants without uninhabited fields.\<close>

definition discr_step :: "bool \<Rightarrow> u64 \<Rightarrow> LayoutS list list \<Rightarrow> nat \<times> u128 \<Rightarrow> int \<times> int \<Rightarrow> (int \<times> int) option" where
  "discr_step is_signed bits variants discr mm = do {
     let (i, val) = discr;
     let (mn, mx) = mm;
     v \<leftarrow> idx variants i;
     if \<exists>f \<in> set v. is_uninhabited (labi f) then Some (mn, mx)
     else do {
       val \<leftarrow> (if is_signed then do { n \<leftarrow> checked_sub_u64 128 bits; x \<leftarrow> shl128 val n; sar128 x n } else Some val);
       Some (if sint val < mn then sint val else mn, if sint val > mx then sint val else mx)
     }
   }"

definition discr_range :: "TargetDataLayout \<Rightarrow> ReprOptions \<Rightarrow> LayoutS list list \<Rightarrow> (nat \<times> u128) list \<Rightarrow> (int \<times> int) option" where
  "discr_range dl repr variants discriminants = do {
     ity \<leftarrow> from_attr dl (discr_type repr);
     bits \<leftarrow> size_bits (integer_size ity);
     (mn, mx) \<leftarrow> for_loop (discr_step (it_is_signed (discr_type repr)) bits variants) discriminants (I128_MAX, I128_MIN);
     let (mn, mx) = (if (mn, mx) = (I128_MAX, I128_MIN) then (0, 0) else (mn, mx));
     rassert (mn \<le> mx);
     Some (mn, mx)
   }"

record TagState =
  ts_va :: VariantsAlign
  ts_size :: Size
  ts_start_align :: Align

text \<open>The alignment of the first field that cannot be moved to make room for a larger tag.\<close>

fun first_fixed_align :: "LayoutS list \<Rightarrow> nat list \<Rightarrow> Align \<Rightarrow> Align option" where
  "first_fixed_align flds [] start_align = Some start_align"
| "first_fixed_align flds (i # is) start_align = do {
     i \<leftarrow> field_idx i;
     field \<leftarrow> idx flds i;
     fixed \<leftarrow> (if \<not> is_zst field then Some True else do { b \<leftarrow> align_bytes (abi (lalign field)); Some (b \<noteq> 1) });
     if fixed then Some (align_min start_align (abi (lalign field))) else first_fixed_align flds is start_align
   }"

fun tagged_variant_layouts ::
    "externs \<Rightarrow> TargetDataLayout \<Rightarrow> ReprOptions \<Rightarrow> StructKind \<Rightarrow> (nat \<times> LayoutS list) list \<Rightarrow> TagState \<Rightarrow> (TagState \<times> LayoutS list) option option" where
  "tagged_variant_layouts ex dl repr kind [] ts = Some (Some (ts, []))"
| "tagged_variant_layouts ex dl repr kind ((i, flds) # vs) ts = do {
     r \<leftarrow> univariant ex dl flds repr kind;
     case r of
       None \<Rightarrow> Some None
     | Some st \<Rightarrow> do {
         let st = set_variants (Single i) st;
         ord \<leftarrow> index_by_increasing_offset (lfields st);
         start_align \<leftarrow> first_fixed_align flds ord (ts_start_align ts);
         let ts = \<lparr>ts_va = va_add st (ts_va ts), ts_size = max_size (ts_size ts) (lsize st), ts_start_align = start_align\<rparr>;
         rest \<leftarrow> tagged_variant_layouts ex dl repr kind vs ts;
         Some (map_option (\<lambda>(ts, ls). (ts, st # ls)) rest)
       }
   }"

definition prefix_align_of :: "externs \<Rightarrow> TargetDataLayout \<Rightarrow> ReprOptions \<Rightarrow> LayoutS list list \<Rightarrow> Integer \<Rightarrow> Align" where
  "prefix_align_of ex dl repr variants min_ity =
     (let prefix_align = abi (integer_align min_ity dl) in
      if repr_c ex repr then fold (\<lambda>field a. align_max a (abi (lalign field))) (concat variants) prefix_align else prefix_align)"

text \<open>The fields at the end of the old tag start behind the larger one.\<close>

definition patch_offset :: "Size \<Rightarrow> Size \<Rightarrow> Size \<Rightarrow> Size option" where
  "patch_offset old_size new_size offset =
     (if raw offset \<le> raw old_size then do { rassert (offset = old_size); Some new_size } else Some offset)"

definition patch_variant :: "Size \<Rightarrow> Size \<Rightarrow> LayoutS \<Rightarrow> LayoutS option" where
  "patch_variant old_size new_size variant =
     (case lfields variant of
        Arbitrary offsets memory_index \<Rightarrow> do {
          offsets \<leftarrow> those (map (patch_offset old_size new_size) offsets);
          let variant = set_fields (Arbitrary offsets memory_index) variant;
          Some (if raw (lsize variant) \<le> raw old_size then set_size new_size variant else variant)
        }
      | _ \<Rightarrow> None)"

text \<open>The loop that looks for a primitive and an offset that all variants have in common.\<close>

fun common_prim_loop ::
    "(LayoutS list \<times> LayoutS) list \<Rightarrow> (Primitive \<times> Size) option \<Rightarrow> bool \<Rightarrow> ((Primitive \<times> Size) option \<times> bool) option" where
  "common_prim_loop [] common init = Some (common, init)"
| "common_prim_loop ((field_layouts, layout_variant) # vs) common init =
     (case lfields layout_variant of
        Arbitrary offsets memory_index \<Rightarrow>
          (case filter (\<lambda>p. \<not> is_zst (fst p)) (zip field_layouts offsets) of
             [] \<Rightarrow> common_prim_loop vs common False
           | [(field, offset)] \<Rightarrow>
               (case labi field of
                  AbiScalar scalar \<Rightarrow>
                    let init = (init \<and> \<not> is_uninit_valid scalar);
                        prim = primitive_of scalar
                    in (case common of
                          Some pair \<Rightarrow> if pair \<noteq> (prim, offset) then Some (None, init) else common_prim_loop vs common init
                        | None \<Rightarrow> common_prim_loop vs (Some (prim, offset)) init)
                | _ \<Rightarrow> Some (None, init))
           | _ \<Rightarrow> Some (None, init))
      | _ \<Rightarrow> None)"

definition tagged_abi ::
    "TargetDataLayout \<Rightarrow> LayoutS list list \<Rightarrow> LayoutS list \<Rightarrow> Scalar \<Rightarrow> AbiAndPrefAlign \<Rightarrow> Size \<Rightarrow> Abi option" where
  "tagged_abi dl variants layout_variants tag align tot =
     (if \<forall>v \<in> set layout_variants. is_uninhabited (labi v) then Some Uninhabited
      else if scalar_size tag dl = tot then Some (AbiScalar tag)
      else do {
        (common, init) \<leftarrow> common_prim_loop (zip variants layout_variants) None True;
        case common of
          None \<Rightarrow> Some (Aggregate True)
        | Some (prim, offset) \<Rightarrow> do {
            prim_scalar \<leftarrow> (if init then scalar_unit dl prim else Some (UnionScalar prim));
            pair \<leftarrow> scalar_pair dl tag prim_scalar;
            case lfields pair of
              Arbitrary pair_offsets memory_index \<Rightarrow> do {
                rassert (memory_index = [0, 1]);
                p0 \<leftarrow> idx pair_offsets 0;
                p1 \<leftarrow> idx pair_offsets 1;
                Some (if p0 = ZERO \<and> p1 = offset \<and> align = lalign pair \<and> tot = lsize pair then labi pair else Aggregate True)
              }
            | _ \<Rightarrow> None
          }
      })"

fun is_by_value :: "Abi \<Rightarrow> bool" where
  "is_by_value (AbiScalar s) = True"
| "is_by_value (ScalarPair a b) = True"
| "is_by_value _ = False"

definition adjust_variant :: "Abi \<Rightarrow> AbiAndPrefAlign \<Rightarrow> Size \<Rightarrow> LayoutS \<Rightarrow> LayoutS" where
  "adjust_variant class align tot variant =
     (if fields_count (lfields variant) > 0 \<and> is_aggregate (labi variant) then
        set_align ((lalign variant)\<lparr>abi := align_max (abi (lalign variant)) (abi align)\<rparr>)
          (set_size (max_size (lsize variant) tot) (set_abi class variant))
      else variant)"

text \<open>The integer type of the tag, from the smallest that holds the discriminants.\<close>

definition tag_integer :: "externs \<Rightarrow> TargetDataLayout \<Rightarrow> ReprOptions \<Rightarrow> Integer \<Rightarrow> Align \<Rightarrow> Integer option" where
  "tag_integer ex dl repr min_ity start_align = do {
     ity \<leftarrow> (if repr_c ex repr \<or> repr_int repr \<noteq> None then Some min_ity
            else do { i \<leftarrow> for_align dl start_align; Some (case i of Some i \<Rightarrow> i | None \<Rightarrow> min_ity) });
     Some (if \<not> integer_less min_ity ity then min_ity else ity)
   }"

definition tagged_layout ::
    "externs \<Rightarrow> TargetDataLayout \<Rightarrow> ReprOptions \<Rightarrow> LayoutS list list \<Rightarrow> (int \<Rightarrow> int \<Rightarrow> (Integer \<times> bool) option) \<Rightarrow> (nat \<times> u128) list \<Rightarrow>
     TmpLayout option option" where
  "tagged_layout ex dl repr variants discr_range_of_repr discriminants = do {
     (mn, mx) \<leftarrow> discr_range dl repr variants discriminants;
     (min_ity, is_signed) \<leftarrow> discr_range_of_repr mn mx;
     start_align \<leftarrow> unwrap_align (align_from_bytes 256);
     none \<leftarrow> for_align dl start_align;
     rassert (none = None);
     let ts = \<lparr>ts_va = \<lparr>va_align = aggregate_align dl, va_max_repr_align = repr_align repr, va_unadjusted = abi (aggregate_align dl)\<rparr>,
       ts_size = ZERO, ts_start_align = start_align\<rparr>;
     let kind = Prefixed (integer_size min_ity) (prefix_align_of ex dl repr variants min_ity);
     r \<leftarrow> tagged_variant_layouts ex dl repr kind (enumerate 0 variants) ts;
     case r of
       None \<Rightarrow> Some None
     | Some (ts, layout_variants) \<Rightarrow> do {
         let align = va_align (ts_va ts);
         tot \<leftarrow> size_align_to (ts_size ts) (abi align);
         bound \<leftarrow> obj_size_bound dl;
         if raw tot \<ge> bound then Some None
         else do {
           typeck_ity \<leftarrow> from_attr dl (discr_type repr);
           rassert (\<not> integer_less typeck_ity min_ity);
           ity \<leftarrow> tag_integer ex dl repr min_ity (ts_start_align ts);
           layout_variants \<leftarrow> (if ity = min_ity then Some layout_variants
             else those (map (patch_variant (integer_size min_ity) (integer_size ity)) layout_variants));
           tag_mask \<leftarrow> unsigned_int_max (integer_size ity);
           let tag = Initialized (IntP ity is_signed)
             \<lparr>wr_start = word_of_int mn AND tag_mask, wr_end = word_of_int mx AND tag_mask\<rparr>;
           class \<leftarrow> tagged_abi dl variants layout_variants tag align tot;
           let layout_variants = (if is_by_value class then map (adjust_variant class align tot) layout_variants else layout_variants);
           niche \<leftarrow> niche_from_scalar dl ZERO tag;
           let layout = LayoutS (Arbitrary [ZERO] [0]) (Multiple tag Direct 0 []) class niche align tot
             (va_max_repr_align (ts_va ts)) (va_unadjusted (ts_va ts));
           Some (Some \<lparr>tmp_layout = layout, tmp_variants = layout_variants\<rparr>)
         }
       }
   }"

subsection \<open>The choice\<close>

definition tmp_niche_size :: "TargetDataLayout \<Rightarrow> TmpLayout \<Rightarrow> u128 option" where
  "tmp_niche_size dl tmp_l = (case largest_niche (tmp_layout tmp_l) of None \<Rightarrow> Some 0 | Some n \<Rightarrow> niche_available n dl)"

definition best_layout :: "TargetDataLayout \<Rightarrow> TmpLayout \<Rightarrow> TmpLayout option \<Rightarrow> TmpLayout option" where
  "best_layout dl tgl nl =
     (case nl of
        None \<Rightarrow> Some tgl
      | Some nl \<Rightarrow> do {
          tn \<leftarrow> tmp_niche_size dl tgl;
          nn \<leftarrow> tmp_niche_size dl nl;
          let ts = raw (lsize (tmp_layout tgl));
          let ns = raw (lsize (tmp_layout nl));
          Some (if ts > ns then nl else if ts = ns \<and> tn < nn then nl else tgl)
        })"

definition intern_variants :: "TmpLayout \<Rightarrow> LayoutS option" where
  "intern_variants best =
     (case lvariants (tmp_layout best) of
        Multiple tag tag_encoding tag_field _ \<Rightarrow>
          Some (set_variants (Multiple tag tag_encoding tag_field (tmp_variants best)) (tmp_layout best))
      | _ \<Rightarrow> None)"

definition layout_of_enum ::
    "externs \<Rightarrow> TargetDataLayout \<Rightarrow> ReprOptions \<Rightarrow> LayoutS list list \<Rightarrow> (int \<Rightarrow> int \<Rightarrow> (Integer \<times> bool) option) \<Rightarrow> (nat \<times> u128) list \<Rightarrow>
     bool \<Rightarrow> LayoutS option option" where
  "layout_of_enum ex dl repr variants discr_range_of_repr discriminants dont_niche_optimize_enum = do {
     nl \<leftarrow> calculate_niche_filling_layout ex dl repr variants dont_niche_optimize_enum;
     tgl \<leftarrow> tagged_layout ex dl repr variants discr_range_of_repr discriminants;
     case tgl of
       None \<Rightarrow> Some None
     | Some tgl \<Rightarrow> do {
         best \<leftarrow> best_layout dl tgl nl;
         map_option Some (intern_variants best)
       }
   }"

definition layout_of_struct_or_enum ::
    "externs \<Rightarrow> TargetDataLayout \<Rightarrow> ReprOptions \<Rightarrow> LayoutS list list \<Rightarrow> bool \<Rightarrow> bool \<Rightarrow> Bound \<times> Bound \<Rightarrow>
     (int \<Rightarrow> int \<Rightarrow> (Integer \<times> bool) option) \<Rightarrow> (nat \<times> u128) list \<Rightarrow> bool \<Rightarrow> bool \<Rightarrow> LayoutS option option" where
  "layout_of_struct_or_enum ex dl repr variants is_enum is_unsafe_cell valid_range discr_range_of_repr discriminants
     dont_niche_optimize_enum always_sized =
     (let present = present_variants variants;
          is_struct = (\<not> is_enum \<or> (length present < 2 \<and> \<not> inhibit_enum_layout_opt ex repr))
      in if present = [] \<and> is_enum then Some (Some (layout_of_never_type dl))
         else if is_struct then
           layout_of_struct ex dl repr variants is_enum is_unsafe_cell valid_range always_sized
             (case present of [] \<Rightarrow> FIRST_VARIANT | v # _ \<Rightarrow> v)
         else layout_of_enum ex dl repr variants discr_range_of_repr discriminants dont_niche_optimize_enum)"

end
