(* ===== verification/Layout_Niche_Props.thy ===== *)
theory Layout_Niche_Props
  imports Layout_Enum
begin

text \<open>
  Enums with a niche: the tag is stored in a niche of a field of the largest variant, and the
  fields of the other variants lie before or behind it.
\<close>

subsection \<open>Updates of a layout\<close>

lemma layout_updates [simp]:
  "lfields (set_variants v l) = lfields l" "labi (set_variants v l) = labi l" "largest_niche (set_variants v l) = largest_niche l"
  "lalign (set_variants v l) = lalign l" "lsize (set_variants v l) = lsize l" "lvariants (set_variants v l) = v"
  "lfields (set_largest_niche n l) = lfields l" "labi (set_largest_niche n l) = labi l" "largest_niche (set_largest_niche n l) = n"
  "lalign (set_largest_niche n l) = lalign l" "lsize (set_largest_niche n l) = lsize l"
  "lfields (set_abi a l) = lfields l" "labi (set_abi a l) = a" "lalign (set_abi a l) = lalign l" "lsize (set_abi a l) = lsize l"
  "lfields (set_fields f l) = f" "lalign (set_fields f l) = lalign l" "lsize (set_fields f l) = lsize l" "labi (set_fields f l) = labi l"
  "lfields (set_size s l) = lfields l" "lsize (set_size s l) = s" "lalign (set_size s l) = lalign l" "labi (set_size s l) = labi l"
  "lfields (set_align al l) = lfields l" "lsize (set_align al l) = lsize l" "lalign (set_align al l) = al"
  by (cases l; simp)+

lemma struct_layout_set_variants [simp]: "struct_layout dl pack start flds (set_variants v l) = struct_layout dl pack start flds l"
  unfolding struct_layout_def layout_ok_def layout_updates ..

subsection \<open>The steps of the calculation\<close>

lemma fold_pick_in: "fold (\<lambda>y x. if P x y then y else x) qs q \<in> set (q # qs)"
proof (induction qs arbitrary: q)
  case (Cons a qs)
  show ?case using Cons.IH [of "if P q a then a else q"] by (auto split: if_splits)
qed simp

lemma max_by_key_in:
  assumes "max_by_key key xs = Some (Some x)"
  shows "x \<in> set xs"
proof -
  obtain ks where ks: "those (map key xs) = Some ks" and x: "(case zip ks xs of [] \<Rightarrow> None
      | p # ps \<Rightarrow> Some (snd (fold (\<lambda>y x. if fst x \<le> fst y then y else x) ps p))) = Some x"
    using assms by (auto simp: max_by_key_def split: Option.bind_splits)
  obtain p ps where z: "zip ks xs = p # ps" using x by (cases "zip ks xs") auto
  have "fold (\<lambda>y x. if fst x \<le> fst y then y else x) ps p \<in> set (zip ks xs)" unfolding z by (rule fold_pick_in)
  moreover have "x = snd (fold (\<lambda>y x. if fst x \<le> fst y then y else x) ps p)" using x unfolding z by simp
  moreover have "q \<in> set (zip ks xs) \<Longrightarrow> snd q \<in> set xs" for q by (cases q) (simp add: set_zip_rightD)
  ultimately show ?thesis by simp
qed

lemma niche_variant_layouts_spec:
  assumes "niche_variant_layouts ex dl repr vs va = Some (Some (va', ls))"
  shows "length ls = length vs \<and> va_align va' = fold (\<lambda>l a. aap_max a (lalign l)) ls (va_align va) \<and>
    (\<forall>k < length vs. \<exists>l. univariant ex dl (snd (vs ! k)) repr AlwaysSized = Some (Some l) \<and> ls ! k = set_variants (Single (fst (vs ! k))) l)"
  using assms
proof (induction vs arbitrary: va ls)
  case (Cons v vs)
  obtain j flds where v: "v = (j, flds)" by (cases v)
  obtain st ls' where st: "univariant ex dl flds repr AlwaysSized = Some (Some st)" "ls = set_variants (Single j) st # ls'"
    "niche_variant_layouts ex dl repr vs (va_add (set_variants (Single j) st) va) = Some (Some (va', ls'))"
    using Cons.prems unfolding v by (auto simp: Let_def split: Option.bind_splits option.splits)
  from Cons.IH [OF st(3)] st(1,2) show ?case unfolding v by (auto simp: va_add_def nth_Cons split: nat.split)
qed simp

lemma fit_variants_spec:
  assumes "fit_variants variants largest noff nsize tot ls = Some (Some ls')"
  shows "length ls' = length ls \<and> (\<forall>k < length ls. if fst (ls ! k) = largest then ls' ! k = snd (ls ! k)
    else \<exists>flds. idx variants (fst (ls ! k)) = Some flds \<and> fit_variant flds noff nsize tot (snd (ls ! k)) = Some (Some (ls' ! k)))"
  using assms
proof (induction ls arbitrary: ls')
  case (Cons l ls)
  obtain i layout where l: "l = (i, layout)" by (cases l)
  obtain x ls1 where x: "(if i = largest then Some (Some layout)
      else do { flds \<leftarrow> idx variants i; fit_variant flds noff nsize tot layout }) = Some (Some x)"
    "fit_variants variants largest noff nsize tot ls = Some (Some ls1)" "ls' = x # ls1"
    using Cons.prems unfolding l by (auto split: Option.bind_splits option.splits)
  from Cons.IH [OF x(2)] x(1,3) show ?case unfolding l by (auto simp: nth_Cons split: nat.split Option.bind_splits if_splits)
qed simp

text \<open>The fields of a variant that have a size are clear of the bytes from \<open>a\<close> to \<open>b\<close> and end before \<open>e\<close>.\<close>

definition fields_clear :: "LayoutS list \<Rightarrow> Align option \<Rightarrow> nat \<Rightarrow> nat \<Rightarrow> nat \<Rightarrow> LayoutS \<Rightarrow> bool" where
  "fields_clear flds pack a b e l \<longleftrightarrow> (\<exists>offs mi. lfields l = Arbitrary offs mi \<and> length offs = length flds \<and>
     (\<forall>j < length flds. \<not> is_zst (flds ! j) \<longrightarrow> falign pack (flds ! j) dvd unat (raw (offs ! j)) \<and>
        (unat (raw (offs ! j)) + fsize (flds ! j) \<le> a \<or> b \<le> unat (raw (offs ! j))) \<and> unat (raw (offs ! j)) + fsize (flds ! j) \<le> e))"

lemma size_addD: "size_add a b = Some c \<Longrightarrow> unat (raw c) = unat (raw a) + unat (raw b)"
  by (auto simp: size_add_def unat_add_u64)

lemma those_map_nth:
  assumes "those (map f xs) = Some ys"
  shows "length ys = length xs" and "\<And>k. k < length xs \<Longrightarrow> f (xs ! k) = Some (ys ! k)"
proof -
  have "length ys = length xs \<and> (\<forall>k < length xs. f (xs ! k) = Some (ys ! k))"
    using assms
  proof (induction xs arbitrary: ys)
    case (Cons x xs)
    then show ?case by (auto simp: nth_Cons split: option.splits nat.split)
  qed simp
  then show "length ys = length xs" "\<And>k. k < length xs \<Longrightarrow> f (xs ! k) = Some (ys ! k)" by simp_all
qed

lemma move_fields_spec:
  assumes "move_fields flds d offs = Some offs'" and "length offs = length flds"
  shows "length offs' = length flds \<and> (\<forall>j < length flds. \<not> is_zst (flds ! j) \<longrightarrow> unat (raw (offs' ! j)) = unat (raw (offs ! j)) + unat (raw d))"
proof -
  note m = those_map_nth [OF assms(1) [unfolded move_fields_def]]
  have "unat (raw (offs' ! j)) = unat (raw (offs ! j)) + unat (raw d)" if "j < length flds" "\<not> is_zst (flds ! j)" for j
    using m(2) [of j] that assms(2) by (auto simp: nth_enumerate_eq dest: size_addD)
  then show ?thesis using m(1) assms(2) by simp
qed

lemma fit_variant_clear:
  assumes l: "struct_layout dl pack 0 flds layout" and fit: "fit_variant flds noff nsize tot layout = Some (Some l')"
    and inside: "unat (raw noff) \<le> unat (raw tot)"
  shows "fields_clear flds pack (unat (raw noff)) (unat (raw noff) + unat (raw nsize)) (unat (raw tot)) l'"
proof -
  obtain offs mi where o: "lfields layout = Arbitrary offs mi" "length offs = length flds"
    and f: "\<And>j. j < length flds \<Longrightarrow> falign pack (flds ! j) dvd unat (raw (offs ! j)) \<and>
      unat (raw (offs ! j)) + fsize (flds ! j) \<le> unat (raw (lsize layout)) \<and> falign pack (flds ! j) dvd align_nat (abi (lalign layout))"
    using l unfolding struct_layout_def by blast
  show ?thesis
  proof (cases "raw (lsize layout) \<le> raw noff")
    case True
    then have "l' = set_largest_niche None layout" using fit by (simp add: fit_variant_def Let_def)
    moreover have "unat (raw (lsize layout)) \<le> unat (raw noff)" using True by (simp add: word_le_nat_alt)
    ultimately show ?thesis using o f inside unfolding fields_clear_def by (fastforce dest: le_trans)
  next
    case False
    obtain e off n offs' where e: "size_add noff nsize = Some e" "size_align_to e (abi (lalign layout)) = Some off"
      "size_add off (lsize layout) = Some n" "\<not> raw n > raw tot" "move_fields flds off offs = Some offs'" "lfields l' = Arbitrary offs' mi"
      using fit False o(1) by (auto simp: fit_variant_def Let_def split: Option.bind_splits if_splits)
    have al: "align_ok (abi (lalign layout))" using l by (simp add: struct_layout_def layout_ok_def aap_ok_def)
    then have "unat (pow2 (abi (lalign layout))) < 64" using align_ok_le [OF al] by simp
    from size_align_to_spec [OF this, of e] e(2)
    have off: "align_nat (abi (lalign layout)) dvd unat (raw off)" "unat (raw e) \<le> unat (raw off)" by (auto split: if_splits)
    note m = move_fields_spec [OF e(5) o(2)]
    have n: "unat (raw off) + unat (raw (lsize layout)) \<le> unat (raw tot)" using size_addD [OF e(3)] e(4) by (simp add: word_less_nat_alt)
    have "falign pack (flds ! j) dvd unat (raw (offs' ! j)) \<and> unat (raw noff) + unat (raw nsize) \<le> unat (raw (offs' ! j)) \<and>
        unat (raw (offs' ! j)) + fsize (flds ! j) \<le> unat (raw tot)" if j: "j < length flds" "\<not> is_zst (flds ! j)" for j
    proof -
      have "falign pack (flds ! j) dvd unat (raw off)" using f [OF j(1)] off(1) dvd_trans by blast
      then show ?thesis using m j f [OF j(1)] off(2) n size_addD [OF e(1)] by auto
    qed
    then show ?thesis using e(6) m unfolding fields_clear_def by blast
  qed
qed


subsection \<open>The layout\<close>

text \<open>The parts of a layout that was calculated.\<close>

lemma niche_filling_parts:
  assumes "calculate_niche_filling_layout ex dl repr variants dont = Some (Some t)"
  obtains va ls u range flds j niche start tag largest foff noff tot ls' where
    "niche_variant_layouts ex dl repr (enumerate 0 variants)
       \<lparr>va_align = aggregate_align dl, va_max_repr_align = repr_align repr, va_unadjusted = abi (aggregate_align dl)\<rparr> = Some (Some (va, ls))"
    "max_by_key (\<lambda>(i, layout). Some (raw (lsize layout))) (enumerate 0 ls) = Some (Some (u, largest))"
    "niche_variants variants u = Some range" "idx variants u = Some flds"
    "find_niche dl flds (of_nat (snd range - fst range + 1)) = Some (Some (j, niche, start, tag))"
    "fields_offset (lfields largest) j = Some foff" "size_add (niche_offset niche) foff = Some noff"
    "size_align_to (lsize largest) (abi (va_align va)) = Some tot"
    "fit_variants variants u noff (primitive_size (niche_value niche) dl) tot (enumerate 0 ls) = Some (Some ls')"
    "tmp_variants t = ls'" "lfields (tmp_layout t) = Arbitrary [noff] [0]"
    "lvariants (tmp_layout t) = Multiple tag (NicheEncoding u range start) 0 []" "lsize (tmp_layout t) = tot" "lalign (tmp_layout t) = va_align va"
    "dont = False" "2 \<le> length variants"
proof -
  have d: "\<not> dont" "\<not> length variants < 2" using assms by (auto simp: calculate_niche_filling_layout_def split: if_splits)
  let ?va = "\<lparr>va_align = aggregate_align dl, va_max_repr_align = repr_align repr, va_unadjusted = abi (aggregate_align dl)\<rparr>"
  note calc = assms [unfolded calculate_niche_filling_layout_def if_not_P [OF d(1)] if_not_P [OF d(2)] Let_def]
  obtain va ls where vl: "niche_variant_layouts ex dl repr (enumerate 0 variants) ?va = Some (Some (va, ls))"
    using calc by (auto split: Option.bind_splits option.splits)
  note calc = calc [unfolded vl, simplified]
  obtain u l0 where mx: "max_by_key (\<lambda>(i, layout). Some (raw (lsize layout))) (enumerate 0 ls) = Some (Some (u, l0))"
    using calc by (auto split: Option.bind_splits option.splits)
  have "(u, l0) \<in> set (enumerate 0 ls)" by (rule max_by_key_in [OF mx])
  then have u: "idx ls u = Some l0" by (auto simp: in_set_enumerate_eq)
  note calc = calc [unfolded mx, simplified, unfolded u, simplified]
  obtain range where rg: "niche_variants variants u = Some range" using calc by (auto split: Option.bind_splits)
  obtain flds where fl: "idx variants u = Some flds" using calc by (auto split: Option.bind_splits)
  note calc = calc [unfolded rg fl, simplified]
  obtain j niche start tag where fn: "find_niche dl flds (of_nat (snd range - fst range + 1)) = Some (Some (j, niche, start, tag))"
    using calc by (auto split: Option.bind_splits option.splits)
  note calc = calc [unfolded fn [simplified], simplified]
  obtain foff noff tot ls' where rest: "fields_offset (lfields l0) j = Some foff" "size_add (niche_offset niche) foff = Some noff"
    "size_align_to (lsize l0) (abi (va_align va)) = Some tot"
    "fit_variants variants u noff (primitive_size (niche_value niche) dl) tot (enumerate 0 ls) = Some (Some ls')"
    using calc by (auto split: Option.bind_splits option.splits)
  have "\<exists>n c. t = \<lparr>tmp_layout = LayoutS (Arbitrary [noff] [0]) (Multiple tag (NicheEncoding u range start) 0 []) c n (va_align va) tot
      (va_max_repr_align va) (va_unadjusted va), tmp_variants = ls'\<rparr>"
    using calc by (auto simp: rest split: Option.bind_splits)
  then show thesis using that [OF vl mx rg fl fn rest] d by (auto simp: not_less)
qed


lemma find_niche_spec:
  assumes "find_niche dl flds cnt = Some (Some (j, niche, start, tag))"
  shows "j < length flds \<and> largest_niche (flds ! j) = Some niche \<and> niche_reserve niche dl cnt = Some (Some (start, tag))"
proof -
  let ?xs = "List.map_filter (\<lambda>(j, field). map_option (Pair j) (largest_niche field)) (enumerate 0 flds)"
  obtain best where best: "max_by_key (\<lambda>(j, niche). niche_available niche dl) ?xs = Some (Some best)"
    using assms unfolding find_niche_def by (auto split: Option.bind_splits option.splits)
  have r: "best = (j, niche)" "niche_reserve niche dl cnt = Some (Some (start, tag))"
    using assms unfolding find_niche_def best by (cases best; auto split: Option.bind_splits option.splits)+
  have "(j, niche) \<in> set ?xs" using max_by_key_in [OF best] unfolding r(1) .
  then obtain k f where "(k, f) \<in> set (enumerate 0 flds)" "map_option (Pair k) (largest_niche f) = Some (j, niche)"
    by (auto simp: List.map_filter_def)
  then show ?thesis using r(2) by (auto simp: in_set_enumerate_eq)
qed

lemma niche_variants_spec:
  assumes "niche_variants variants u = Some rg"
  shows "fst rg \<le> snd rg \<and> snd rg < length variants \<and>
    (\<forall>i < length variants. i \<noteq> u \<and> \<not> absent (variants ! i) \<longrightarrow> fst rg \<le> i \<and> i \<le> snd rg)"
proof -
  let ?P = "needs_disc variants u" and ?n = "length variants"
  obtain lo hi where r: "rg = (lo, hi)" "find ?P [0..<?n] = Some lo" "find ?P (rev [0..<?n]) = Some hi"
    using assms by (auto simp: niche_variants_def split: Option.bind_splits)
  obtain k where k: "k < ?n" "?P k" "lo = k" "\<forall>i < k. \<not> ?P i" using r(2) by (auto simp: find_Some_iff)
  obtain k' where k': "k' < ?n" "hi = ?n - Suc k'" "?P hi" "\<forall>i < k'. \<not> ?P (?n - Suc i)" using r(3) by (auto simp: find_Some_iff rev_nth)
  have "i \<le> hi" if "i < ?n" "?P i" for i
  proof (rule ccontr)
    assume "\<not> i \<le> hi"
    then have "?n - Suc i < k'" "?n - Suc (?n - Suc i) = i" using that(1) k'(1,2) by simp_all
    then show False using k'(4) that(2) by metis
  qed
  moreover have "lo \<le> i" if "?P i" for i using k(3,4) that by (meson not_le)
  moreover have "lo \<le> hi" using calculation(2) [OF k'(3)] .
  ultimately show ?thesis using k k' unfolding r(1) by (simp add: needs_disc_def)
qed

text \<open>The value of the niche that stands for variant \<open>i\<close>.\<close>

definition niche_value_of :: "u64 \<Rightarrow> u128 \<Rightarrow> nat \<Rightarrow> nat \<Rightarrow> u128" where
  "niche_value_of bits start lo i = (start + of_nat (i - lo)) AND mask (unat bits)"

definition niche_range_ok :: "TargetDataLayout \<Rightarrow> LayoutS \<Rightarrow> bool" where
  "niche_range_ok dl f \<longleftrightarrow> (\<forall>n b. largest_niche f = Some n \<and> size_bits (primitive_size (niche_value n) dl) = Some b \<longrightarrow>
     wr_start (niche_valid_range n) \<le> mask (unat b) \<and> wr_end (niche_valid_range n) \<le> mask (unat b))"

text \<open>
  The encoding of the variants \<open>lo\<close> to \<open>hi\<close> in a niche: different values, that the niche's owner
  does not have, and that the tag allows.
\<close>

definition niche_encodes :: "TargetDataLayout \<Rightarrow> Niche \<Rightarrow> u128 \<Rightarrow> Scalar \<Rightarrow> nat \<Rightarrow> nat \<Rightarrow> bool" where
  "niche_encodes dl niche start tag lo hi \<longleftrightarrow> (\<exists>b v'. size_bits (primitive_size (niche_value niche) dl) = Some b \<and>
     tag = Initialized (niche_value niche) v' \<and> inj_on (niche_value_of b start lo) {lo..hi} \<and>
     (\<forall>i \<in> {lo..hi}. \<not> wr_contains (niche_valid_range niche) (niche_value_of b start lo i) \<and> wr_contains v' (niche_value_of b start lo i)))"

lemma niche_reserve_someE:
  fixes niche :: Niche
  assumes b: "size_bits (primitive_size (niche_value niche) cx) = Some b" "0 < unat b" "unat b \<le> 128"
    and ok: "wr_start (niche_valid_range niche) \<le> mask (unat b)" "wr_end (niche_valid_range niche) \<le> mask (unat b)"
    and c: "0 < cnt" and r: "niche_reserve niche cx cnt = Some (Some (start, tag))"
  obtains av v' where "unat av = card {x. x \<le> mask (unat b) \<and> \<not> wr_contains (niche_valid_range niche) x}" "cnt \<le> av"
    "tag = Initialized (niche_value niche) v'" "\<forall>i < cnt. \<not> wr_contains (niche_valid_range niche) ((start + i) AND mask (unat b))"
    "\<forall>x \<le> mask (unat b). wr_contains v' x \<longleftrightarrow> wr_contains (niche_valid_range niche) x \<or> (\<exists>i < cnt. x = (start + i) AND mask (unat b))"
proof -
  from niche_reserve_spec [OF b refl refl ok c] obtain av
    where av: "unat av = card {x. x \<le> mask (unat b) \<and> \<not> wr_contains (niche_valid_range niche) x}"
    and cases: "if cnt > av then niche_reserve niche cx cnt = Some None
     else \<exists>start v'. niche_reserve niche cx cnt = Some (Some (start, Initialized (niche_value niche) v')) \<and>
       wr_start v' \<le> mask (unat b) \<and> wr_end v' \<le> mask (unat b) \<and>
       (\<forall>i < cnt. \<not> wr_contains (niche_valid_range niche) ((start + i) AND mask (unat b))) \<and>
       (\<forall>x \<le> mask (unat b). wr_contains v' x \<longleftrightarrow> wr_contains (niche_valid_range niche) x \<or> (\<exists>i < cnt. x = (start + i) AND mask (unat b))) \<and>
       niche_available (niche\<lparr>niche_valid_range := v'\<rparr>) cx = Some (av - cnt)"
    by blast
  have le: "\<not> cnt > av" using cases r by (auto split: if_splits)
  show thesis
  proof (use cases [unfolded if_not_P [OF le] r option.inject prod.inject] in \<open>elim exE conjE\<close>)
    fix start' v'
    assume "start = start'" "tag = Initialized (niche_value niche) v'"
      "\<forall>i < cnt. \<not> wr_contains (niche_valid_range niche) ((start' + i) AND mask (unat b))"
      "\<forall>x \<le> mask (unat b). wr_contains v' x \<longleftrightarrow> wr_contains (niche_valid_range niche) x \<or> (\<exists>i < cnt. x = (start' + i) AND mask (unat b))"
    then show thesis using le by (intro that [OF av]) (simp_all only: linorder_not_less)
  qed
qed

lemma niche_encodes_reserve:
  assumes dl: "target_ok dl" and f: "niche_range_ok dl f" "largest_niche f = Some niche"
    and r: "niche_reserve niche dl (of_nat (hi - lo + 1)) = Some (Some (start, tag))" and c: "hi - lo + 1 < 2 ^ 128"
  shows "niche_encodes dl niche start tag lo hi"
proof -
  let ?c = "of_nat (hi - lo + 1) :: u128" and ?v = "niche_valid_range niche"
  obtain b where b: "size_bits (primitive_size (niche_value niche) dl) = Some b" "0 < unat b" "unat b \<le> 128" using primitive_bits [OF dl] .
  have ok: "wr_start ?v \<le> mask (unat b)" "wr_end ?v \<le> mask (unat b)" using f b(1) by (auto simp: niche_range_ok_def)
  have c': "unat ?c = hi - lo + 1" using c by (simp add: unat_of_nat del: of_nat_add of_nat_Suc)
  then have "0 < ?c" by (metis add_is_0 one_neq_zero unat_0 word_gt_0)
  then obtain av v' where av: "unat av = card {x. x \<le> mask (unat b) \<and> \<not> wr_contains ?v x}" and le: "?c \<le> av"
    and tag: "tag = Initialized (niche_value niche) v'"
    and out: "\<forall>i < ?c. \<not> wr_contains ?v ((start + i) AND mask (unat b))"
    and mem: "\<forall>x \<le> mask (unat b). wr_contains v' x \<longleftrightarrow> wr_contains ?v x \<or> (\<exists>i < ?c. x = (start + i) AND mask (unat b))"
    by (rule niche_reserve_someE [OF b ok _ r])
  have lt: "unat (of_nat (i - lo) :: u128) = i - lo" "of_nat (i - lo) < ?c" if "i \<in> {lo..hi}" for i
  proof -
    show *: "unat (of_nat (i - lo) :: u128) = i - lo" unfolding unat_of_nat using that c by (intro mod_less) auto
    show "of_nat (i - lo) < ?c" unfolding word_less_nat_alt * c' using that by auto
  qed
  have "card {x :: u128. x \<le> mask (unat b) \<and> \<not> wr_contains ?v x} \<le> 2 ^ unat b"
  proof -
    have "int (card {x. x \<le> mask (unat b) \<and> \<not> wr_contains ?v x}) = outside (unat b) ?v"
      using ok b(3) by (intro outside_card) (simp_all add: wr_ok_def)
    moreover have "outside (unat b) ?v < 2 ^ unat b"
    proof -
      have "0 \<le> (uint (wr_end ?v) - uint (wr_start ?v)) mod 2 ^ unat b" by simp
      then show ?thesis unfolding outside_def by linarith
    qed
    ultimately show ?thesis by (simp add: of_nat_less_iff [where 'a = int, symmetric] less_imp_le del: of_nat_less_iff)
  qed
  then have small: "hi - lo + 1 \<le> 2 ^ unat b" using le av c' by (simp add: word_le_nat_alt)
  have "inj_on (niche_value_of b start lo) {lo..hi}"
  proof (rule inj_onI)
    fix i k assume i: "i \<in> {lo..hi}" and k: "k \<in> {lo..hi}" and eq: "niche_value_of b start lo i = niche_value_of b start lo k"
    let ?i = "of_nat (i - lo) :: u128" and ?k = "of_nat (k - lo) :: u128"
    have "(uint start + uint ?i) mod 2 ^ unat b = (uint start + uint ?k) mod 2 ^ unat b"
      using arg_cong [OF eq, of uint] by (simp only: niche_value_of_def uint_add_mask [OF b(3)])
    then have "(uint start + uint ?i - uint start) mod 2 ^ unat b = (uint start + uint ?k - uint start) mod 2 ^ unat b" by (rule mod_diff_cong) simp
    then have "uint ?i mod 2 ^ unat b = uint ?k mod 2 ^ unat b" by simp
    moreover have "uint ?i = int (i - lo)" "uint ?k = int (k - lo)" using lt(1) [OF i] lt(1) [OF k] by (simp_all only: uint_nat)
    moreover have "int (i - lo) < 2 ^ unat b" "int (k - lo) < 2 ^ unat b"
    proof -
      have "i - lo < 2 ^ unat b" "k - lo < 2 ^ unat b" using i k small by auto
      then show "int (i - lo) < 2 ^ unat b" "int (k - lo) < 2 ^ unat b" by (simp_all only: of_nat_less_iff [where 'a = int, symmetric] of_nat_power of_nat_numeral)
    qed
    ultimately have "int (i - lo) = int (k - lo)" using mod_pos_pos_trivial [of "int (i - lo)"] mod_pos_pos_trivial [of "int (k - lo)"]
      by (simp only: of_nat_0_le_iff simp_thms)
    then have "i - lo = k - lo" by (simp only: of_nat_eq_iff)
    then show "i = k" using i k by (metis atLeastAtMost_iff eq_diff_iff)
  qed
  moreover have "\<not> wr_contains ?v (niche_value_of b start lo i) \<and> wr_contains v' (niche_value_of b start lo i)" if "i \<in> {lo..hi}" for i
    using out mem lt(2) [OF that] and_mask_le unfolding niche_value_of_def by blast
  ultimately show ?thesis using b(1) tag unfolding niche_encodes_def by blast
qed


text \<open>
  The specification of a layout with a niche: the tag lies in the niche of a field of the
  untagged variant, the fields of the other variants are clear of it, and every other variant
  that can be present has a value of its own that the untagged variant does not have.
\<close>

definition niche_layout :: "TargetDataLayout \<Rightarrow> Align option \<Rightarrow> LayoutS list list \<Rightarrow> TmpLayout \<Rightarrow> bool" where
  "niche_layout dl pack variants t \<longleftrightarrow> (\<exists>tag u lo hi start noff j niche offs mi.
     lvariants (tmp_layout t) = Multiple tag (NicheEncoding u (lo, hi) start) 0 [] \<and> lfields (tmp_layout t) = Arbitrary [noff] [0] \<and>
     length (tmp_variants t) = length variants \<and> u < length variants \<and> struct_layout dl pack 0 (variants ! u) (tmp_variants t ! u) \<and>
     lfields (tmp_variants t ! u) = Arbitrary offs mi \<and> j < length (variants ! u) \<and> largest_niche (variants ! u ! j) = Some niche \<and>
     unat (raw noff) = unat (raw (offs ! j)) + unat (raw (niche_offset niche)) \<and>
     unat (raw noff) + unat (raw (primitive_size (niche_value niche) dl)) \<le> unat (raw (lsize (tmp_layout t))) \<and>
     unat (raw (lsize (tmp_variants t ! u))) \<le> unat (raw (lsize (tmp_layout t))) \<and>
     (\<forall>i < length variants. i \<noteq> u \<longrightarrow> fields_clear (variants ! i) pack (unat (raw noff))
        (unat (raw noff) + unat (raw (primitive_size (niche_value niche) dl))) (unat (raw (lsize (tmp_layout t)))) (tmp_variants t ! i)) \<and>
     (\<forall>i < length variants. i \<noteq> u \<and> \<not> absent (variants ! i) \<longrightarrow> i \<in> {lo..hi}) \<and> niche_encodes dl niche start tag lo hi)"

lemma univariant_struct_layout:
  assumes "layout_input ex dl flds repr kind" and "univariant ex dl flds repr kind = Some (Some l)"
  shows "struct_layout dl (repr_pack repr) (prefix_start (repr_pack repr) kind) flds l"
  by (rule univariant_choice [OF assms(1)]) (use biased_struct_layout [OF assms(1)] assms(2) in auto)

lemma niche_filling_layout_spec:
  assumes inp: "\<forall>v \<in> set variants. layout_input ex dl v repr AlwaysSized" and len: "length variants \<le> 0xFFFFFF01"
    and rng: "\<forall>v \<in> set variants. \<forall>f \<in> set v. niche_range_ok dl f"
    and t: "calculate_niche_filling_layout ex dl repr variants dont = Some (Some t)"
  shows "niche_layout dl (repr_pack repr) variants t"
proof (rule niche_filling_parts [OF t])
  fix va ls u rg flds j niche start tag largest foff noff tot ls'
  assume vl: "niche_variant_layouts ex dl repr (enumerate 0 variants)
       \<lparr>va_align = aggregate_align dl, va_max_repr_align = repr_align repr, va_unadjusted = abi (aggregate_align dl)\<rparr> = Some (Some (va, ls))"
    and mx: "max_by_key (\<lambda>(i, layout). Some (raw (lsize layout))) (enumerate 0 ls) = Some (Some (u, largest))"
    and rg: "niche_variants variants u = Some rg" and fl: "idx variants u = Some flds"
    and fn: "find_niche dl flds (of_nat (snd rg - fst rg + 1)) = Some (Some (j, niche, start, tag))"
    and foff: "fields_offset (lfields largest) j = Some foff" and noff: "size_add (niche_offset niche) foff = Some noff"
    and tot: "size_align_to (lsize largest) (abi (va_align va)) = Some tot"
    and fit: "fit_variants variants u noff (primitive_size (niche_value niche) dl) tot (enumerate 0 ls) = Some (Some ls')"
    and res: "tmp_variants t = ls'" "lfields (tmp_layout t) = Arbitrary [noff] [0]"
      "lvariants (tmp_layout t) = Multiple tag (NicheEncoding u rg start) 0 []" "lsize (tmp_layout t) = tot"
  let ?p = "repr_pack repr" and ?ns = "primitive_size (niche_value niche) dl"
  note vs = niche_variant_layouts_spec [OF vl] and fs = fit_variants_spec [OF fit]
  have u: "u < length variants" "flds = variants ! u" using fl by (auto simp: idx_def split: if_splits)
  have sl: "struct_layout dl ?p 0 (variants ! k) (ls ! k)" if k: "k < length variants" for k
  proof -
    obtain l where "univariant ex dl (variants ! k) repr AlwaysSized = Some (Some l)" "ls ! k = set_variants (Single k) l"
      using vs k by (auto simp: nth_enumerate_eq)
    then show ?thesis using univariant_struct_layout [of ex dl "variants ! k" repr AlwaysSized l] inp k by (simp add: prefix_start_def)
  qed
  have "(u, largest) \<in> set (enumerate 0 ls)" by (rule max_by_key_in [OF mx])
  then have lg: "largest = ls ! u" by (auto simp: in_set_enumerate_eq)
  have len': "length ls = length variants" "length ls' = length variants" using vs fs by simp_all
  have lsu: "ls' ! u = ls ! u" using fs u(1) len'(1) by (auto simp: nth_enumerate_eq)
  note nich = find_niche_spec [OF fn]
  obtain offs mi where o: "lfields (ls ! u) = Arbitrary offs mi" "length offs = length flds"
    and f: "\<And>j. j < length flds \<Longrightarrow> unat (raw (offs ! j)) + fsize (flds ! j) \<le> unat (raw (lsize (ls ! u)))"
    using sl [OF u(1)] unfolding struct_layout_def u(2) by blast
  have foff': "foff = offs ! j" using foff o nich unfolding lg by (auto simp: field_idx_def idx_def split: if_splits Option.bind_splits)
  have "layout_input ex dl (variants ! u) repr AlwaysSized" using inp u(1) nth_mem by blast
  then have dl: "target_ok dl" "layout_ok dl (flds ! j)" using u(2) nich by (simp_all add: layout_input_def)
  have al: "align_ok (abi (va_align va))"
  proof -
    have "aap_ok (fold (\<lambda>l a. aap_max a (lalign l)) ls (aggregate_align dl))"
    proof (rule fold_aap_max_ok)
      fix l assume "l \<in> set ls"
      then obtain k where "k < length variants" "l = ls ! k" using len'(1) by (auto simp: in_set_conv_nth)
      then show "aap_ok (lalign l)" using sl by (simp add: struct_layout_def layout_ok_def)
    qed (use dl(1) in \<open>simp add: target_ok_def dl_ok_def\<close>)
    then show ?thesis using vs by (simp add: aap_ok_def)
  qed
  then have "unat (pow2 (abi (va_align va))) < 64" using align_ok_le [OF al] by simp
  from size_align_to_spec [OF this, of "lsize largest"] tot have tot': "unat (raw (lsize (ls ! u))) \<le> unat (raw tot)"
    unfolding lg by (auto split: if_splits)
  have noff': "unat (raw noff) = unat (raw (offs ! j)) + unat (raw (niche_offset niche))" using size_addD [OF noff] foff' by simp
  have inside: "unat (raw noff) + unat (raw ?ns) \<le> unat (raw tot)"
    using dl(2) nich f [of j] noff' tot' by (auto simp: layout_ok_def niche_inside_def fsize_def)
  have clear: "fields_clear (variants ! i) ?p (unat (raw noff)) (unat (raw noff) + unat (raw ?ns)) (unat (raw tot)) (ls' ! i)"
    if i: "i < length variants" "i \<noteq> u" for i
  proof -
    have "fit_variant (variants ! i) noff ?ns tot (ls ! i) = Some (Some (ls' ! i))"
      using fs i len'(1) by (auto simp: nth_enumerate_eq)
    then show ?thesis using sl [OF i(1)] inside by (intro fit_variant_clear) simp_all
  qed
  note vr = niche_variants_spec [OF rg]
  have "niche_encodes dl niche start tag (fst rg) (snd rg)"
  proof (rule niche_encodes_reserve [OF dl(1)])
    have "variants ! u \<in> set variants" "flds ! j \<in> set (variants ! u)" using u nich by simp_all
    then show "niche_range_ok dl (flds ! j)" using rng by simp
    have "snd rg - fst rg + 1 \<le> 0xFFFFFF01" using vr len by linarith
    then show "snd rg - fst rg + 1 < 2 ^ 128" by (rule le_less_trans) simp
  qed (use nich in simp_all)
  then show ?thesis
    unfolding niche_layout_def using res u lsu sl [OF u(1)] o(1) nich noff' inside tot' clear vr len'(2)
    by (intro exI [of _ tag] exI [of _ u] exI [of _ "fst rg"] exI [of _ "snd rg"] exI [of _ start] exI [of _ noff] exI [of _ j]
        exI [of _ niche] exI [of _ offs] exI [of _ mi]) simp
qed

end
