(* ===== verification/Layout_Tagged_Props.thy ===== *)
theory Layout_Tagged_Props
  imports Layout_Niche_Props
begin

text \<open>
  Enums with a tag of their own: the tag lies at the start, the fields of all variants lie
  behind it, and the tag can hold every discriminant.
\<close>

subsection \<open>The alignment of the first fixed field\<close>

definition fixed_field :: "LayoutS \<Rightarrow> bool" where
  "fixed_field f \<longleftrightarrow> \<not> is_zst f \<or> align_bytes (abi (lalign f)) \<noteq> Some 1"

lemma first_fixed_align_spec:
  assumes "first_fixed_align flds ord sa = Some sa'"
  shows "(\<forall>p < length ord. fixed_field (flds ! (ord ! p)) \<longrightarrow>
      (\<exists>q \<le> p. sa' = align_min sa (abi (lalign (flds ! (ord ! q)))))) \<and>
    (sa' = sa \<or> (\<exists>q < length ord. ord ! q < length flds \<and> sa' = align_min sa (abi (lalign (flds ! (ord ! q))))))"
  using assms
proof (induction ord)
  case (Cons i ord)
  obtain fixed where i: "i < length flds" and fixed: "(if \<not> is_zst (flds ! i) then Some True
      else do { b \<leftarrow> align_bytes (abi (lalign (flds ! i))); Some (b \<noteq> 1) }) = Some fixed"
    and rest: "(if fixed then Some (align_min sa (abi (lalign (flds ! i)))) else first_fixed_align flds ord sa) = Some sa'"
    using Cons.prems by (auto simp: field_idx_def idx_def split: if_splits Option.bind_splits)
  show ?case
  proof (cases fixed)
    case True
    then have "sa' = align_min sa (abi (lalign (flds ! i)))" using rest by simp
    then show ?thesis using i by (intro conjI allI impI disjI2 exI [of _ 0]) simp_all
  next
    case False
    then have "\<not> fixed_field (flds ! i)" using fixed by (auto simp: fixed_field_def split: if_splits Option.bind_splits)
    moreover have "first_fixed_align flds ord sa = Some sa'" using rest False by simp
    note IH = Cons.IH [OF this]
    have "\<exists>q \<le> p. sa' = align_min sa (abi (lalign (flds ! ((i # ord) ! q))))"
      if p: "p < length (i # ord)" "fixed_field (flds ! ((i # ord) ! p))" for p
    proof -
      obtain p' where p': "p = Suc p'" using p calculation by (cases p) auto
      then obtain q where "q \<le> p'" "sa' = align_min sa (abi (lalign (flds ! (ord ! q))))" using IH p by auto
      then show ?thesis using p' by (intro exI [of _ "Suc q"]) simp
    qed
    moreover have "sa' = sa \<or> (\<exists>q < length (i # ord). (i # ord) ! q < length flds \<and> sa' = align_min sa (abi (lalign (flds ! ((i # ord) ! q)))))"
      using IH by (metis Suc_less_eq length_Cons nth_Cons_Suc)
    ultimately show ?thesis by blast
  qed
qed simp

subsection \<open>The variants\<close>

text \<open>What the loop over the variants establishes for variant \<open>k\<close>.\<close>

definition variant_result :: "externs \<Rightarrow> TargetDataLayout \<Rightarrow> ReprOptions \<Rightarrow> StructKind \<Rightarrow> LayoutS list \<Rightarrow> TagState \<Rightarrow> LayoutS \<Rightarrow> bool" where
  "variant_result ex dl repr kind flds ts l \<longleftrightarrow> (\<exists>l0 v ord sa sa'. univariant ex dl flds repr kind = Some (Some l0) \<and> l = set_variants v l0 \<and>
     index_by_increasing_offset (lfields l) = Some ord \<and> first_fixed_align flds ord sa = Some sa' \<and> pow2 (ts_start_align ts) \<le> pow2 sa' \<and>
     raw (lsize l) \<le> raw (ts_size ts) \<and> pow2 (abi (lalign l)) \<le> pow2 (abi (va_align (ts_va ts))))"

lemma align_min_le: "pow2 (align_min a b) \<le> pow2 a" "pow2 (align_min a b) \<le> pow2 b"
  by (auto simp: align_min_def)

lemma first_fixed_align_le: "first_fixed_align flds ord sa = Some sa' \<Longrightarrow> pow2 sa' \<le> pow2 sa"
  using first_fixed_align_spec [of flds ord sa sa'] align_min_le by auto

lemma max_size_le: "raw a \<le> raw (max_size a b)" "raw b \<le> raw (max_size a b)"
  by (auto simp: max_size_def)

lemma tagged_variant_layouts_spec:
  assumes "tagged_variant_layouts ex dl repr kind vs ts = Some (Some (ts', ls))"
  shows "length ls = length vs \<and> (\<forall>k < length vs. variant_result ex dl repr kind (snd (vs ! k)) ts' (ls ! k)) \<and>
    pow2 (ts_start_align ts') \<le> pow2 (ts_start_align ts) \<and> raw (ts_size ts) \<le> raw (ts_size ts') \<and>
    va_align (ts_va ts') = fold (\<lambda>l a. aap_max a (lalign l)) ls (va_align (ts_va ts)) \<and>
    (ts_start_align ts' = ts_start_align ts \<or> (\<exists>k < length vs. \<exists>f \<in> set (snd (vs ! k)). ts_start_align ts' = abi (lalign f)))"
  using assms
proof (induction vs arbitrary: ts ls)
  case (Cons v vs)
  obtain i flds where v: "v = (i, flds)" by (cases v)
  obtain st ord sa ls' where st: "univariant ex dl flds repr kind = Some (Some st)"
    and ord: "index_by_increasing_offset (lfields st) = Some ord" "first_fixed_align flds ord (ts_start_align ts) = Some sa"
    and rest: "tagged_variant_layouts ex dl repr kind vs \<lparr>ts_va = va_add (set_variants (Single i) st) (ts_va ts),
      ts_size = max_size (ts_size ts) (lsize st), ts_start_align = sa\<rparr> = Some (Some (ts', ls'))" and ls: "ls = set_variants (Single i) st # ls'"
    using Cons.prems unfolding v by (auto simp: Let_def split: Option.bind_splits option.splits)
  note IH = Cons.IH [OF rest, simplified]
  have mono: "pow2 (ts_start_align ts') \<le> pow2 sa" "raw (max_size (ts_size ts) (lsize st)) \<le> raw (ts_size ts')" using IH by simp_all
  have al: "va_align (ts_va ts') = fold (\<lambda>l a. aap_max a (lalign l)) ls' (aap_max (va_align (ts_va ts)) (lalign st))"
    using IH by (simp add: va_add_def)
  have "pow2 (abi (aap_max (va_align (ts_va ts)) (lalign st))) \<le> pow2 (abi (va_align (ts_va ts')))"
    unfolding al pow2_fold_aap_max by (rule Max_ge) simp_all
  then have "pow2 (abi (lalign st)) \<le> pow2 (abi (va_align (ts_va ts')))" by (simp add: pow2_aap_max)
  moreover have "raw (lsize st) \<le> raw (ts_size ts')" "raw (ts_size ts) \<le> raw (ts_size ts')"
    using mono(2) max_size_le order_trans by blast+
  ultimately have vr: "variant_result ex dl repr kind flds ts' (set_variants (Single i) st)"
    unfolding variant_result_def using st ord mono(1) by (intro exI [of _ st] exI [of _ "Single i"] exI [of _ ord]) auto
  have start: "ts_start_align ts' = ts_start_align ts \<or> (\<exists>k < length (v # vs). \<exists>f \<in> set (snd ((v # vs) ! k)). ts_start_align ts' = abi (lalign f))"
  proof (cases "ts_start_align ts' = sa")
    case True
    have "sa = ts_start_align ts \<or> (\<exists>q < length ord. ord ! q < length flds \<and> sa = align_min (ts_start_align ts) (abi (lalign (flds ! (ord ! q)))))"
      using first_fixed_align_spec [OF ord(2)] by blast
    then have "sa = ts_start_align ts \<or> (\<exists>f \<in> set flds. sa = abi (lalign f))"
      unfolding align_min_def by (metis (full_types) nth_mem)
    then have "ts_start_align ts' = ts_start_align ts \<or> (\<exists>f \<in> set (snd ((v # vs) ! 0)). ts_start_align ts' = abi (lalign f))"
      using True unfolding v by simp
    then show ?thesis by blast
  next
    case False
    then have "\<exists>k < length vs. \<exists>f \<in> set (snd (vs ! k)). ts_start_align ts' = abi (lalign f)" using IH by simp
    then show ?thesis by (metis Suc_less_eq length_Cons nth_Cons_Suc)
  qed
  show ?case
    unfolding ls v using IH vr start first_fixed_align_le [OF ord(2)] mono al \<open>raw (ts_size ts) \<le> raw (ts_size ts')\<close>
    by (auto simp: v nth_Cons split: nat.split intro: order_trans)
qed simp


lemma univariant_size_prefix:
  assumes inp: "layout_input ex dl flds repr kind" and l: "univariant ex dl flds repr kind = Some (Some l)"
  shows "prefix_start (repr_pack repr) kind \<le> unat (raw (lsize l))"
proof -
  have *: "prefix_start (repr_pack repr) kind \<le> unat (raw (lsize l'))" if b: "univariant_biased ex dl flds repr kind bias = Some (Some l')" for bias l'
  proof (rule univariant_biased_eq [OF inp, of bias])
    fix ord st r
    assume st: "initial_placement dl flds repr kind = Some st" and r: "biased_result ex dl flds repr kind bias ord st r"
    have init: "unat (raw (pl_offset st)) = prefix_start (repr_pack repr) kind" using initial_placement_spec [OF inp] st by auto
    obtain st' where rs: "r = Some st'" using r b by (cases r) (simp_all add: biased_result_def)
    note laid = r [unfolded biased_result_def rs option.case]
    have p1: "unat (raw (pl_offset st')) = advance (prefix_start (repr_pack repr) kind) (blocks (repr_pack repr) flds ord)"
      using laid init by (simp add: laid_def)
    have p2: "unat (raw (lsize l')) = round_up (align_nat (abi (struct_align repr (pl_align st')))) (unat (raw (pl_offset st')))"
      using laid [THEN conjunct2, THEN conjunct2] b by (elim exE conjE) clarsimp
    have "prefix_start (repr_pack repr) kind \<le> advance (prefix_start (repr_pack repr) kind) (blocks (repr_pack repr) flds ord)"
      by (rule advance_mono) (auto simp: blocks_def block_def falign_def)
    then show ?thesis using p1 p2 round_up_props(2) [of "align_nat (abi (struct_align repr (pl_align st')))" "unat (raw (pl_offset st'))"] by simp
  qed
  show ?thesis by (rule univariant_choice [OF inp]) (use * l in auto)
qed

text \<open>A field that has a size starts behind a tag with the size of the common alignment.\<close>

lemma variant_field_behind:
  assumes inp: "layout_input ex dl flds repr kind" and pack: "repr_pack repr = None" and pre: "0 < prefix_start None kind"
    and vr: "variant_result ex dl repr kind flds ts l" and j: "j < length flds" "\<not> is_zst (flds ! j)"
    and o: "lfields l = Arbitrary offs mi"
  shows "align_nat (ts_start_align ts) \<le> unat (raw (offs ! j))"
proof -
  obtain l0 v ord sa sa' where l0: "univariant ex dl flds repr kind = Some (Some l0)" "l = set_variants v l0"
    and ord: "index_by_increasing_offset (lfields l) = Some ord" "first_fixed_align flds ord sa = Some sa'" "pow2 (ts_start_align ts) \<le> pow2 sa'"
    using vr unfolding variant_result_def by blast
  have sl: "struct_layout dl None (prefix_start None kind) flds l0" using univariant_struct_layout [OF inp l0(1)] pack by simp
  have lf: "lfields l0 = Arbitrary offs mi" using o l0(2) by simp
  have s: "length offs = length flds" "length mi = length flds" "set mi = {..<length flds}"
    "\<And>i. i < length flds \<Longrightarrow> falign None (flds ! i) dvd unat (raw (offs ! i)) \<and> prefix_start None kind \<le> unat (raw (offs ! i))"
    "\<And>i j. i < length flds \<Longrightarrow> j < length flds \<Longrightarrow> mi ! i < mi ! j \<Longrightarrow> unat (raw (offs ! i)) + fsize (flds ! i) \<le> unat (raw (offs ! j))"
    using sl lf unfolding struct_layout_def by auto
  obtain w where w: "index_by_increasing_offset (Arbitrary offs mi) = Some w" "length w = length mi"
    "\<forall>i < length mi. w ! (mi ! i) = i \<and> mi ! (w ! i) = i"
    using index_by_increasing_offset_inverse [of mi offs] s(1-3) by auto
  have ww: "ord = w" using ord(1) w(1) o by simp
  let ?p = "mi ! j"
  have p: "?p < length ord" "ord ! ?p = j" using w(2,3) s(2,3) j(1) nth_mem [of j mi] unfolding ww by auto
  have "fixed_field (flds ! (ord ! ?p))" using j(2) p(2) by (simp add: fixed_field_def)
  then obtain q where q: "q \<le> ?p" "sa' = align_min sa (abi (lalign (flds ! (ord ! q))))" using first_fixed_align_spec [OF ord(2)] p(1) by blast
  let ?i = "ord ! q"
  have q': "q < length mi" "mi ! ?i = q" using q(1) p(1) w(2,3) unfolding ww by auto
  have i: "?i < length flds"
  proof -
    have "q \<in> set mi" using q'(1) s(2,3) by simp
    then obtain i' where "i' < length mi" "mi ! i' = q" unfolding in_set_conv_nth by blast
    then show ?thesis using w(3) s(2) unfolding ww by auto
  qed
  have "pow2 (ts_start_align ts) \<le> pow2 (abi (lalign (flds ! ?i)))" using ord(3) q(2) align_min_le(2) order_trans by blast
  then have "align_nat (ts_start_align ts) dvd falign None (flds ! ?i)" unfolding falign_def packed_align_def by (simp add: align_nat_dvd)
  then have "align_nat (ts_start_align ts) dvd unat (raw (offs ! ?i))" using s(4) [OF i] dvd_trans by blast
  then have le: "align_nat (ts_start_align ts) \<le> unat (raw (offs ! ?i))" using s(4) [OF i] pre by (auto intro: dvd_imp_le)
  show ?thesis
  proof (cases "q = ?p")
    case True
    then show ?thesis using le p(2) by simp
  next
    case False
    then have "mi ! ?i < mi ! j" using q(1) q'(2) by simp
    then show ?thesis using s(5) [OF i j(1)] le by simp
  qed
qed

lemma integer_size_pos: "0 < unat (raw (integer_size i))"
  by (cases i) simp_all

lemma integer_size_less: "integer_less a b \<Longrightarrow> unat (raw (integer_size a)) < unat (raw (integer_size b))"
  by (cases a; cases b) (simp_all add: integer_less_def integer_bits_def)

lemma find_opt_Some: "find_opt p xs = Some (Some x) \<Longrightarrow> p x = Some True"
  by (induction p xs rule: find_opt.induct) (auto split: Option.bind_splits if_splits)

lemma for_align_spec:
  assumes "for_align dl a = Some (Some i)" and "align_ok a"
  shows "unat (raw (integer_size i)) = align_nat a"
proof -
  obtain b where b: "align_bytes a = Some b" "unat b = align_nat a" using align_bytes_nat [OF assms(2)] .
  show ?thesis using find_opt_Some [OF assms(1) [unfolded for_align_def]] b by (auto split: if_splits)
qed

lemma patch_offset_behind: "patch_offset old new d = Some d' \<Longrightarrow> raw old < raw d \<Longrightarrow> d' = d"
  by (auto simp: patch_offset_def split: if_splits)


subsection \<open>The enum\<close>

lemma tagged_layout_parts:
  assumes "tagged_layout ex dl repr variants dr ds = Some (Some t)"
  obtains mn mx min_ity sg ts ls tot ity ls' c tm where
    "discr_range dl repr variants ds = Some (mn, mx)" "dr mn mx = Some (min_ity, sg)" "for_align dl \<lparr>pow2 = 8\<rparr> = Some None"
    "tagged_variant_layouts ex dl repr (Prefixed (integer_size min_ity) (prefix_align_of ex dl repr variants min_ity)) (enumerate 0 variants)
       \<lparr>ts_va = \<lparr>va_align = aggregate_align dl, va_max_repr_align = repr_align repr, va_unadjusted = abi (aggregate_align dl)\<rparr>,
        ts_size = ZERO, ts_start_align = \<lparr>pow2 = 8\<rparr>\<rparr> = Some (Some (ts, ls))"
    "size_align_to (ts_size ts) (abi (va_align (ts_va ts))) = Some tot" "tag_integer ex dl repr min_ity (ts_start_align ts) = Some ity"
    "(if ity = min_ity then Some ls else those (map (patch_variant (integer_size min_ity) (integer_size ity)) ls)) = Some ls'"
    "unsigned_int_max (integer_size ity) = Some tm"
    "tmp_variants t = (if is_by_value c then map (adjust_variant c (va_align (ts_va ts)) tot) ls' else ls')"
    "lfields (tmp_layout t) = Arbitrary [ZERO] [0]" "lsize (tmp_layout t) = tot" "lalign (tmp_layout t) = va_align (ts_va ts)"
    "lvariants (tmp_layout t) = Multiple (Initialized (IntP ity sg) \<lparr>wr_start = word_of_int mn AND tm, wr_end = word_of_int mx AND tm\<rparr>) Direct 0 []"
proof -
  have al: "unwrap_align (align_from_bytes 256) = Some \<lparr>pow2 = 8\<rparr>" by code_simp
  note calc = assms [unfolded tagged_layout_def Let_def al, simplified]
  obtain mn mx where mm: "discr_range dl repr variants ds = Some (mn, mx)" using calc by (auto split: Option.bind_splits)
  note calc = calc [unfolded mm, simplified]
  obtain min_ity sg where ity: "dr mn mx = Some (min_ity, sg)" using calc by (auto split: Option.bind_splits)
  note calc = calc [unfolded ity, simplified]
  have none: "for_align dl \<lparr>pow2 = 8\<rparr> = Some None" using calc by (auto simp: rassert_def split: Option.bind_splits if_splits)
  note calc = calc [unfolded none, simplified]
  obtain ts ls where vl: "tagged_variant_layouts ex dl repr (Prefixed (integer_size min_ity) (prefix_align_of ex dl repr variants min_ity))
      (enumerate 0 variants) \<lparr>ts_va = \<lparr>va_align = aggregate_align dl, va_max_repr_align = repr_align repr, va_unadjusted = abi (aggregate_align dl)\<rparr>,
        ts_size = ZERO, ts_start_align = \<lparr>pow2 = 8\<rparr>\<rparr> = Some (Some (ts, ls))"
    using calc by (auto split: Option.bind_splits option.splits)
  note calc = calc [unfolded vl, simplified]
  obtain tot where tot: "size_align_to (ts_size ts) (abi (va_align (ts_va ts))) = Some tot" using calc by (auto split: Option.bind_splits)
  note calc = calc [unfolded tot, simplified]
  obtain bd ti where bd: "obj_size_bound dl = Some bd" "\<not> bd \<le> raw tot" "from_attr dl (discr_type repr) = Some ti" "\<not> integer_less ti min_ity"
    using calc by (auto simp: rassert_def split: Option.bind_splits if_splits)
  note calc = calc [simplified bd if_False Option.bind.bind_lunit not_False_eq_True rassert_simps]
  obtain i where i: "tag_integer ex dl repr min_ity (ts_start_align ts) = Some i" using calc by (auto split: Option.bind_splits if_splits)
  note calc = calc [simplified i Option.bind.bind_lunit]
  obtain ls' where ls': "(if i = min_ity then Some ls else those (map (patch_variant (integer_size min_ity) (integer_size i)) ls)) = Some ls'"
    using calc by (auto split: Option.bind_splits if_splits)
  note calc = calc [simplified ls' Option.bind.bind_lunit]
  obtain tm where tm: "unsigned_int_max (integer_size i) = Some tm" using calc by (auto split: Option.bind_splits if_splits)
  note calc = calc [simplified tm Option.bind.bind_lunit]
  have "\<exists>c n. t = \<lparr>tmp_layout = LayoutS (Arbitrary [ZERO] [0])
      (Multiple (Initialized (IntP i sg) \<lparr>wr_start = word_of_int mn AND tm, wr_end = word_of_int mx AND tm\<rparr>) Direct 0 []) c n
      (va_align (ts_va ts)) tot (va_max_repr_align (ts_va ts)) (va_unadjusted (ts_va ts)),
      tmp_variants = (if is_by_value c then map (adjust_variant c (va_align (ts_va ts)) tot) ls' else ls')\<rparr>"
    using calc by (fastforce split: Option.bind_splits if_splits)
  then show thesis using that [OF mm ity none vl tot i ls' tm] by (elim exE) simp
qed

lemma prefix_align_of_ok:
  assumes "target_ok dl" and "\<forall>v \<in> set variants. \<forall>f \<in> set v. layout_ok dl f"
  shows "align_ok (prefix_align_of ex dl repr variants i)"
proof -
  have i: "align_ok (abi (integer_align i dl))" using assms(1) by (cases i) (simp_all add: target_ok_def dl_ok_def aap_ok_def)
  have "align_ok (fold (\<lambda>field a. align_max a (abi (lalign field))) fs a)" if "align_ok a" "\<forall>f \<in> set fs. layout_ok dl f" for fs a
    using that by (induction fs arbitrary: a) (simp_all add: align_max_def layout_ok_def aap_ok_def)
  then show ?thesis using i assms(2) by (auto simp: prefix_align_of_def Let_def)
qed


lemma tag_integer_cases:
  assumes "tag_integer ex dl repr mi sa = Some i"
  shows "i = mi \<or> (for_align dl sa = Some (Some i) \<and> integer_less mi i)"
  using assms by (auto simp: tag_integer_def split: if_splits Option.bind_splits option.splits)

text \<open>
  The specification of a variant: its fields with a size lie behind the tag of \<open>b\<close> bytes, are
  aligned, end before \<open>e\<close>, and do not overlap.
\<close>

definition tagged_variant :: "LayoutS list \<Rightarrow> nat \<Rightarrow> nat \<Rightarrow> LayoutS \<Rightarrow> bool" where
  "tagged_variant flds b e l \<longleftrightarrow> (\<exists>offs mi. lfields l = Arbitrary offs mi \<and> length offs = length flds \<and>
     length mi = length flds \<and> set mi = {..<length flds} \<and>
     (\<forall>j < length flds. \<not> is_zst (flds ! j) \<longrightarrow> falign None (flds ! j) dvd unat (raw (offs ! j)) \<and> b \<le> unat (raw (offs ! j)) \<and>
        unat (raw (offs ! j)) + fsize (flds ! j) \<le> e) \<and>
     (\<forall>j < length flds. \<forall>k < length flds. \<not> is_zst (flds ! j) \<longrightarrow> \<not> is_zst (flds ! k) \<longrightarrow> mi ! j < mi ! k \<longrightarrow>
        unat (raw (offs ! j)) + fsize (flds ! j) \<le> unat (raw (offs ! k))))"

lemma tagged_variant_mono: "tagged_variant flds b e l \<Longrightarrow> b' \<le> b \<Longrightarrow> tagged_variant flds b' e l"
  unfolding tagged_variant_def by (meson le_trans)

lemma lfields_adjust_variant [simp]: "lfields (adjust_variant c a n l) = lfields l"
  by (simp add: adjust_variant_def)

lemma patch_variant_tagged:
  assumes "tagged_variant flds b e l" and "patch_variant old new l = Some l'" and "unat (raw old) < b"
  shows "tagged_variant flds b e l'"
proof -
  obtain offs mi where o: "lfields l = Arbitrary offs mi" "length offs = length flds" "length mi = length flds" "set mi = {..<length flds}"
    and f: "\<forall>j < length flds. \<not> is_zst (flds ! j) \<longrightarrow> falign None (flds ! j) dvd unat (raw (offs ! j)) \<and> b \<le> unat (raw (offs ! j)) \<and>
        unat (raw (offs ! j)) + fsize (flds ! j) \<le> e"
    and g: "\<forall>j < length flds. \<forall>k < length flds. \<not> is_zst (flds ! j) \<longrightarrow> \<not> is_zst (flds ! k) \<longrightarrow> mi ! j < mi ! k \<longrightarrow>
        unat (raw (offs ! j)) + fsize (flds ! j) \<le> unat (raw (offs ! k))"
    using assms(1) unfolding tagged_variant_def by blast
  obtain offs' where o': "those (map (patch_offset old new) offs) = Some offs'" "lfields l' = Arbitrary offs' mi"
    using assms(2) o(1) by (auto simp: patch_variant_def Let_def split: Option.bind_splits if_splits)
  note m = those_map_nth [OF o'(1)]
  have eq: "offs' ! j = offs ! j" if j: "j < length flds" "\<not> is_zst (flds ! j)" for j
  proof (rule patch_offset_behind)
    show "patch_offset old new (offs ! j) = Some (offs' ! j)" using m(2) j(1) o(2) by simp
    show "raw old < raw (offs ! j)" using f j assms(3) by (force simp: word_less_nat_alt)
  qed
  show ?thesis unfolding tagged_variant_def
    using o'(2) m(1) o(2-4) f g eq by (intro exI [of _ offs'] exI [of _ mi]) simp
qed

lemma variant_result_tagged:
  assumes inp: "layout_input ex dl flds repr kind" and pack: "repr_pack repr = None" and pre: "0 < prefix_start None kind"
    and vr: "variant_result ex dl repr kind flds ts l" and e: "unat (raw (ts_size ts)) \<le> e"
  shows "tagged_variant flds (prefix_start None kind) e l" "tagged_variant flds (align_nat (ts_start_align ts)) e l"
    "prefix_start None kind \<le> e" "pow2 (abi (lalign l)) \<le> pow2 (abi (va_align (ts_va ts)))"
    "\<forall>f \<in> set flds. align_nat (abi (lalign f)) dvd align_nat (abi (lalign l))"
proof -
  obtain l0 v where l0: "univariant ex dl flds repr kind = Some (Some l0)" "l = set_variants v l0"
    and sz: "raw (lsize l) \<le> raw (ts_size ts)" "pow2 (abi (lalign l)) \<le> pow2 (abi (va_align (ts_va ts)))"
    using vr unfolding variant_result_def by blast
  have sl: "struct_layout dl None (prefix_start None kind) flds l0" using univariant_struct_layout [OF inp l0(1)] pack by simp
  then obtain offs mi where o: "lfields l = Arbitrary offs mi" "length offs = length flds" "length mi = length flds" "set mi = {..<length flds}"
    and f: "\<And>j. j < length flds \<Longrightarrow> falign None (flds ! j) dvd unat (raw (offs ! j)) \<and> prefix_start None kind \<le> unat (raw (offs ! j)) \<and>
      unat (raw (offs ! j)) + fsize (flds ! j) \<le> unat (raw (lsize l)) \<and> falign None (flds ! j) dvd align_nat (abi (lalign l))"
    and g: "\<forall>i < length flds. \<forall>j < length flds. mi ! i < mi ! j \<longrightarrow> unat (raw (offs ! i)) + fsize (flds ! i) \<le> unat (raw (offs ! j))"
    unfolding struct_layout_def l0(2) by auto
  have le: "unat (raw (lsize l)) \<le> e" using sz(1) e by (simp add: word_le_nat_alt)
  have f': "falign None (flds ! j) dvd unat (raw (offs ! j)) \<and> prefix_start None kind \<le> unat (raw (offs ! j)) \<and>
      unat (raw (offs ! j)) + fsize (flds ! j) \<le> e" if "j < length flds" for j
    using f [OF that] le by simp
  show "tagged_variant flds (prefix_start None kind) e l"
    unfolding tagged_variant_def using o f' g by (intro exI [of _ offs] exI [of _ mi]) simp
  show "tagged_variant flds (align_nat (ts_start_align ts)) e l"
    unfolding tagged_variant_def using o f' g variant_field_behind [OF inp pack pre vr _ _ o(1)] by (intro exI [of _ offs] exI [of _ mi]) simp
  show "prefix_start None kind \<le> e" using univariant_size_prefix [OF inp l0(1)] pack le l0(2) by simp
  show "\<forall>f \<in> set flds. align_nat (abi (lalign f)) dvd align_nat (abi (lalign l))"
    using f by (auto simp: in_set_conv_nth falign_def packed_align_def)
qed (use vr in \<open>auto simp: variant_result_def\<close>)

text \<open>The specification of the enum: a tag at the start, and the variants behind it.\<close>

definition tagged_enum :: "LayoutS list list \<Rightarrow> Integer \<Rightarrow> TmpLayout \<Rightarrow> bool" where
  "tagged_enum variants ity t \<longleftrightarrow> lfields (tmp_layout t) = Arbitrary [ZERO] [0] \<and>
     unat (raw (integer_size ity)) \<le> unat (raw (lsize (tmp_layout t))) \<and> length (tmp_variants t) = length variants \<and>
     (\<forall>i < length variants. tagged_variant (variants ! i) (unat (raw (integer_size ity))) (unat (raw (lsize (tmp_layout t)))) (tmp_variants t ! i))"

lemma tagged_layout_spec:
  assumes inp: "\<forall>v \<in> set variants. layout_input ex dl v repr AlwaysSized" and ne: "variants \<noteq> []" and pack: "repr_pack repr = None"
    and t: "tagged_layout ex dl repr variants dr ds = Some (Some t)"
  shows "\<exists>ity sg v. lvariants (tmp_layout t) = Multiple (Initialized (IntP ity sg) v) Direct 0 [] \<and> tagged_enum variants ity t"
proof (rule tagged_layout_parts [OF t])
  fix mn mx min_ity sg ts ls tot ity ls' c tm
  let ?kind = "Prefixed (integer_size min_ity) (prefix_align_of ex dl repr variants min_ity)"
  assume none: "for_align dl \<lparr>pow2 = 8\<rparr> = Some None"
    and vl: "tagged_variant_layouts ex dl repr ?kind (enumerate 0 variants)
       \<lparr>ts_va = \<lparr>va_align = aggregate_align dl, va_max_repr_align = repr_align repr, va_unadjusted = abi (aggregate_align dl)\<rparr>,
        ts_size = ZERO, ts_start_align = \<lparr>pow2 = 8\<rparr>\<rparr> = Some (Some (ts, ls))"
    and tot: "size_align_to (ts_size ts) (abi (va_align (ts_va ts))) = Some tot"
    and ity: "tag_integer ex dl repr min_ity (ts_start_align ts) = Some ity"
    and ls': "(if ity = min_ity then Some ls else those (map (patch_variant (integer_size min_ity) (integer_size ity)) ls)) = Some ls'"
    and res: "tmp_variants t = (if is_by_value c then map (adjust_variant c (va_align (ts_va ts)) tot) ls' else ls')"
      "lfields (tmp_layout t) = Arbitrary [ZERO] [0]" "lsize (tmp_layout t) = tot"
      "lvariants (tmp_layout t) = Multiple (Initialized (IntP ity sg) \<lparr>wr_start = word_of_int mn AND tm, wr_end = word_of_int mx AND tm\<rparr>) Direct 0 []"
  note vs = tagged_variant_layouts_spec [OF vl]
  have dl: "target_ok dl" "\<forall>v \<in> set variants. \<forall>f \<in> set v. layout_ok dl f" using inp ne by (auto simp: layout_input_def neq_Nil_conv)
  have ki: "kind_ok ?kind" using prefix_align_of_ok [OF dl] by (cases min_ity) simp_all
  have inp': "layout_input ex dl v repr ?kind" if "v \<in> set variants" for v using inp that ki by (simp add: layout_input_def)
  have pa: "0 < align_nat (prefix_align_of ex dl repr variants min_ity)" by (simp add: align_nat_def)
  have pre: "unat (raw (integer_size min_ity)) \<le> prefix_start None ?kind"
    using round_up_props(2) [OF pa] by (simp add: prefix_start_def)
  then have pre0: "0 < prefix_start None ?kind" using integer_size_pos [of min_ity] by linarith
  have len: "length ls = length variants" using vs by simp
  have vr: "variant_result ex dl repr ?kind (variants ! k) ts (ls ! k)" if "k < length variants" for k
    using vs that by (simp add: nth_enumerate_eq)
  have al: "align_ok (abi (va_align (ts_va ts)))"
  proof -
    have "aap_ok (lalign (ls ! k))" if k: "k < length variants" for k
      using vr [OF k] univariant_struct_layout [OF inp' [OF nth_mem [OF k]]]
      by (auto simp: variant_result_def struct_layout_def layout_ok_def)
    then have "aap_ok (fold (\<lambda>l a. aap_max a (lalign l)) ls (aggregate_align dl))"
      using dl(1) len by (intro fold_aap_max_ok) (auto simp: in_set_conv_nth target_ok_def dl_ok_def)
    then show ?thesis using vs by (simp add: aap_ok_def)
  qed
  have tot': "align_nat (abi (va_align (ts_va ts))) dvd unat (raw tot)" "unat (raw (ts_size ts)) \<le> unat (raw tot)"
    using size_align_to_spec [of "abi (va_align (ts_va ts))" "ts_size ts"] align_ok_le [OF al] tot by (auto split: if_splits)
  note tv = variant_result_tagged [OF inp' pack pre0 _ tot'(2)]
  have *: "unat (raw (integer_size ity)) \<le> unat (raw tot) \<and> length ls' = length variants \<and>
    (\<forall>k < length variants. tagged_variant (variants ! k) (unat (raw (integer_size ity))) (unat (raw tot)) (ls' ! k))"
  proof (cases "ity = min_ity")
    case True
    have "unat (raw (integer_size ity)) \<le> unat (raw tot)" using tv(3) [OF nth_mem vr, of 0] pre ne True by simp
    moreover have "tagged_variant (variants ! k) (unat (raw (integer_size ity))) (unat (raw tot)) (ls ! k)" if k: "k < length variants" for k
      using tagged_variant_mono [OF tv(1) [OF nth_mem [OF k] vr [OF k]] pre] True by simp
    ultimately show ?thesis using ls' len True by simp
  next
    case False
    let ?sa = "ts_start_align ts"
    have fa: "for_align dl ?sa = Some (Some ity)" "integer_less min_ity ity" using tag_integer_cases [OF ity] False by auto
    have p: "those (map (patch_variant (integer_size min_ity) (integer_size ity)) ls) = Some ls'" using ls' False by simp
    have "?sa \<noteq> \<lparr>pow2 = 8\<rparr>" using fa(1) none by auto
    then obtain k f where k: "k < length variants" "f \<in> set (variants ! k)" "?sa = abi (lalign f)" using vs by (auto simp: nth_enumerate_eq)
    have "align_ok ?sa" using dl(2) nth_mem [OF k(1)] k(2) unfolding k(3) by (auto simp: layout_ok_def aap_ok_def)
    note sz = for_align_spec [OF fa(1) this]
    have "align_nat ?sa dvd align_nat (abi (lalign (ls ! k)))" unfolding k(3) using tv(5) [OF nth_mem [OF k(1)] vr [OF k(1)]] k(2) by blast
    moreover have "align_nat (abi (lalign (ls ! k))) dvd align_nat (abi (va_align (ts_va ts)))"
      by (rule align_nat_dvd [OF tv(4) [OF nth_mem [OF k(1)] vr [OF k(1)]]])
    ultimately have "align_nat ?sa dvd unat (raw tot)" using tot'(1) dvd_trans by blast
    moreover have "0 < unat (raw tot)" using tv(3) [OF nth_mem [OF k(1)] vr [OF k(1)]] pre0 by linarith
    ultimately have "unat (raw (integer_size ity)) \<le> unat (raw tot)" unfolding sz by (rule dvd_imp_le)
    moreover have "tagged_variant (variants ! k) (unat (raw (integer_size ity))) (unat (raw tot)) (ls' ! k)" if k: "k < length variants" for k
    proof (rule patch_variant_tagged)
      show "tagged_variant (variants ! k) (unat (raw (integer_size ity))) (unat (raw tot)) (ls ! k)"
        unfolding sz by (rule tv(2) [OF nth_mem [OF k] vr [OF k]])
      show "patch_variant (integer_size min_ity) (integer_size ity) (ls ! k) = Some (ls' ! k)"
        using those_map_nth(2) [OF p, of k] k len by simp
      show "unat (raw (integer_size min_ity)) < unat (raw (integer_size ity))" by (rule integer_size_less [OF fa(2)])
    qed
    ultimately show ?thesis using those_map_nth(1) [OF p] len by simp
  qed
  show ?thesis using * res by (auto simp: tagged_enum_def tagged_variant_def)
qed

end
