(* ===== verification/Layout_Discr_Props.thy ===== *)
theory Layout_Discr_Props
  imports Layout_Tagged_Props
begin

text \<open>
  The tag of an enum can hold the discriminants: the type that \<open>repr_discr\<close> chooses tells them
  apart, and all of them lie in the valid range of the tag.
\<close>

subsection \<open>The range of the discriminants\<close>

text \<open>The value that the bits \<open>val\<close> of a discriminant stand for, as an \<open>i128\<close>.\<close>

definition discr_int :: "bool \<Rightarrow> nat \<Rightarrow> u128 \<Rightarrow> int" where
  "discr_int sg n val = (if sg then signed_take_bit (n - 1) (sint val) else sint val)"

definition inhabited_variant :: "LayoutS list list \<Rightarrow> nat \<Rightarrow> bool" where
  "inhabited_variant variants i \<longleftrightarrow> i < length variants \<and> (\<forall>f \<in> set (variants ! i). \<not> is_uninhabited (labi f))"

lemma sint_u128_range: "I128_MIN \<le> sint (w :: u128)" "sint (w :: u128) \<le> I128_MAX"
  using sint_range_size [of w] by (simp_all add: I128_MIN_def I128_MAX_def word_size)

lemma discr_step_eq:
  assumes i: "i < length variants"
  shows "discr_step sg (of_nat (integer_bits ti)) variants (i, val) (mn, mx) =
    Some (if inhabited_variant variants i
          then (min mn (discr_int sg (integer_bits ti) val), max mx (discr_int sg (integer_bits ti) val)) else (mn, mx))"
proof -
  let ?b = "of_nat (integer_bits ti) :: u64" and ?n = "integer_bits ti"
  have n: "0 < ?n" "?n \<le> 128" "unat ?b = ?n" "?b \<noteq> 0" by (cases ti; simp add: integer_bits_def)+
  have "size_sign_extend (integer_size ti) val = Some (signed_take_bit (?n - 1) val)"
    using size_sign_extend_take_bit [OF integer_size_bits [of ti]] n by simp
  then have ext: "do { n \<leftarrow> checked_sub_u64 128 ?b; x \<leftarrow> shl128 val n; sar128 x n } = Some (signed_take_bit (?n - 1) val)"
    using n(4) by (simp add: size_sign_extend_def integer_size_bits)
  have "(if sg then do { n \<leftarrow> checked_sub_u64 128 ?b; x \<leftarrow> shl128 val n; sar128 x n } else Some val) =
      Some (if sg then signed_take_bit (?n - 1) val else val)" using ext by simp
  moreover have "sint (if sg then signed_take_bit (?n - 1) val else val) = discr_int sg ?n val"
    using n(1,2) by (simp add: discr_int_def sint_signed_take_bit)
  moreover have "(if d < mn then d else mn) = min mn d" "(if mx < d then d else mx) = max mx d" for d :: int by auto
  ultimately show ?thesis using i by (simp add: discr_step_def inhabited_variant_def)
qed

lemma discr_step_range: "discr_step sg b variants d mm = Some mm' \<Longrightarrow> fst d < length variants"
  by (auto simp: discr_step_def idx_def split: if_splits prod.splits)

lemma discr_loop_spec:
  assumes "for_loop (discr_step sg (of_nat (integer_bits ti)) variants) ds (a, b) = Some (mn, mx)"
    and "I128_MIN \<le> a" "b \<le> I128_MAX"
  shows "I128_MIN \<le> mn \<and> mx \<le> I128_MAX \<and> mn \<le> a \<and> b \<le> mx \<and>
    (\<forall>(i, val) \<in> set ds. inhabited_variant variants i \<longrightarrow> mn \<le> discr_int sg (integer_bits ti) val \<and> discr_int sg (integer_bits ti) val \<le> mx)"
  using assms
proof (induction ds arbitrary: a b)
  case (Cons d ds)
  obtain i val where d: "d = (i, val)" by (cases d)
  let ?d = "discr_int sg (integer_bits ti) val"
  have i: "i < length variants" using Cons.prems(1) discr_step_range unfolding d by (fastforce split: Option.bind_splits)
  have r: "I128_MIN \<le> ?d" "?d \<le> I128_MAX"
  proof -
    have "integer_bits ti - 1 < 128" by (cases ti) (simp_all add: integer_bits_def)
    then have "?d = sint (if sg then signed_take_bit (integer_bits ti - 1) val else val)" by (simp add: discr_int_def sint_signed_take_bit)
    then show "I128_MIN \<le> ?d" "?d \<le> I128_MAX" by (simp_all only: sint_u128_range)
  qed
  show ?case
  proof (cases "inhabited_variant variants i")
    case True
    then have "for_loop (discr_step sg (of_nat (integer_bits ti)) variants) ds (min a ?d, max b ?d) = Some (mn, mx)"
      using Cons.prems(1) unfolding d by (simp add: discr_step_eq [OF i])
    from Cons.IH [OF this] Cons.prems(2,3) r show ?thesis unfolding d by auto
  next
    case False
    then have "for_loop (discr_step sg (of_nat (integer_bits ti)) variants) ds (a, b) = Some (mn, mx)"
      using Cons.prems(1) unfolding d by (simp add: discr_step_eq [OF i])
    from Cons.IH [OF this Cons.prems(2,3)] False show ?thesis unfolding d by auto
  qed
qed simp

lemma discr_range_spec:
  assumes "discr_range dl repr variants ds = Some (mn, mx)"
  obtains ti where "from_attr dl (discr_type repr) = Some ti" "mn \<le> mx" "I128_MIN \<le> mn" "mx \<le> I128_MAX"
    "\<forall>(i, val) \<in> set ds. inhabited_variant variants i \<longrightarrow>
       mn \<le> discr_int (it_is_signed (discr_type repr)) (integer_bits ti) val \<and>
       discr_int (it_is_signed (discr_type repr)) (integer_bits ti) val \<le> mx"
proof -
  obtain ti a b where ti: "from_attr dl (discr_type repr) = Some ti"
    and loop: "for_loop (discr_step (it_is_signed (discr_type repr)) (of_nat (integer_bits ti)) variants) ds (I128_MAX, I128_MIN) = Some (a, b)"
    and mm: "(mn, mx) = (if (a, b) = (I128_MAX, I128_MIN) then (0, 0) else (a, b))" "mn \<le> mx"
    using assms by (auto simp: discr_range_def Let_def integer_size_bits rassert_def split: Option.bind_splits if_splits)
  have M: "I128_MIN < 0" "0 < I128_MAX" by (simp_all add: I128_MIN_def I128_MAX_def)
  note l = discr_loop_spec [OF loop order_less_imp_le order_less_imp_le]
  show thesis
  proof (rule that [OF ti mm(2)])
    show "I128_MIN \<le> mn" "mx \<le> I128_MAX" using l M mm(1) by (auto split: if_splits)
    show "\<forall>(i, val) \<in> set ds. inhabited_variant variants i \<longrightarrow>
       mn \<le> discr_int (it_is_signed (discr_type repr)) (integer_bits ti) val \<and>
       discr_int (it_is_signed (discr_type repr)) (integer_bits ti) val \<le> mx"
      using l M mm(1) by (fastforce split: if_splits)
  qed
qed


subsection \<open>The type of the tag\<close>

lemma i128_range: "I128_MIN \<le> z \<and> z \<le> I128_MAX \<longleftrightarrow> - (2 ^ 127) \<le> z \<and> z < 2 ^ 127"
  by (auto simp: I128_MIN_def I128_MAX_def)

lemma fit_unsigned_range:
  assumes "integer_bits (fit_unsigned (max (word_of_int mn) (word_of_int mx))) \<le> integer_bits i"
    and "mn \<le> mx" "I128_MIN \<le> mn" "mx \<le> I128_MAX"
  shows "mx - mn < 2 ^ integer_bits i"
proof -
  have "unat (max (word_of_int mn) (word_of_int mx :: u128)) < 2 ^ integer_bits i" using assms(1) fit_unsigned_smallest by blast
  then have u: "unat (word_of_int mn :: u128) < 2 ^ integer_bits i" "unat (word_of_int mx :: u128) < 2 ^ integer_bits i"
    by (auto simp: max_def word_le_nat_alt split: if_splits)
  have U: "uint (word_of_int z :: u128) < 2 ^ integer_bits i" if "unat (word_of_int z :: u128) < 2 ^ integer_bits i" for z
    unfolding uint_nat using that by (simp only: of_nat_less_iff [where 'a = int, symmetric] of_nat_power of_nat_numeral)
  have r: "- (2 ^ 127) \<le> mn" "mx < 2 ^ 127" using assms(3,4) by (simp_all add: I128_MIN_def I128_MAX_def)
  show ?thesis
  proof (cases "0 \<le> mn")
    case True
    then have "uint (word_of_int mx :: u128) = mx" using r assms(2) by (simp add: uint_word_of_int)
    then show ?thesis using U [OF u(2)] True by linarith
  next
    case False
    have "(mn + 2 ^ 128) mod 2 ^ 128 = mn + 2 ^ 128" using False r by (intro mod_pos_pos_trivial) simp_all
    then have "mn + 2 ^ 128 < 2 ^ integer_bits i" using U [OF u(1)] by (simp add: uint_word_of_int)
    then have "i = I128" using r by (cases i) (simp_all add: integer_bits_def)
    then show ?thesis using r by (simp add: integer_bits_def)
  qed
qed

lemma repr_discr_spec:
  assumes "repr_discr ex dl repr mn mx = Some (i, sg)" and r: "mn \<le> mx" "I128_MIN \<le> mn" "mx \<le> I128_MAX"
  shows "mx - mn < 2 ^ integer_bits i \<and> (sg \<longrightarrow> - (2 ^ (integer_bits i - 1)) \<le> mn \<and> mx < 2 ^ (integer_bits i - 1))"
proof -
  let ?u = "fit_unsigned (max (word_of_int mn) (word_of_int mx))" and ?s = "integer_max (fit_signed mn) (fit_signed mx)"
  have fit: "integer_bits (if sg then ?s else ?u) \<le> integer_bits i"
    using assms(1) by (auto simp: repr_discr_def Let_def integer_max_def integer_less_def rassert_def split: option.splits Option.bind_splits if_splits)
  show ?thesis
  proof (cases sg)
    case True
    then have "integer_bits (fit_signed mn) \<le> integer_bits i" "integer_bits (fit_signed mx) \<le> integer_bits i"
      using fit by (auto simp: integer_max_def integer_less_def split: if_splits)
    moreover have "- (2 ^ 127) \<le> mn" "mn < 2 ^ 127" "- (2 ^ 127) \<le> mx" "mx < 2 ^ 127" using r by (simp_all add: I128_MIN_def I128_MAX_def)
    ultimately have *: "- (2 ^ (integer_bits i - 1)) \<le> mn" "mx < 2 ^ (integer_bits i - 1)"
      using fit_signed_smallest by blast+
    moreover have "(2 :: int) ^ integer_bits i = 2 ^ (integer_bits i - 1) + 2 ^ (integer_bits i - 1)" by (cases i) (simp_all add: integer_bits_def)
    ultimately show ?thesis by linarith
  next
    case False
    then show ?thesis using fit_unsigned_range [OF _ r] fit by simp
  qed
qed

text \<open>The bits of the value \<open>d\<close> in a tag.\<close>

definition tag_bits :: "Integer \<Rightarrow> int \<Rightarrow> u128" where
  "tag_bits i d = word_of_int d AND mask (integer_bits i)"

lemma tag_bits_mod: "uint (tag_bits i d) = d mod 2 ^ integer_bits i"
proof -
  have "integer_bits i \<le> 128" by (cases i) (simp_all add: integer_bits_def)
  then show ?thesis unfolding tag_bits_def uint_and_mask_u128 uint_word_of_int using mod_mod_128 [of "integer_bits i" d] by simp
qed

lemma tag_bits_range:
  assumes "mx - mn < 2 ^ integer_bits i" and d: "mn \<le> d" "d \<le> mx"
  shows "wr_contains \<lparr>wr_start = tag_bits i mn, wr_end = tag_bits i mx\<rparr> (tag_bits i d)"
proof -
  have n: "integer_bits i \<le> 128" by (cases i) (simp_all add: integer_bits_def)
  have m: "tag_bits i z \<le> mask (integer_bits i)" for z unfolding tag_bits_def by (rule and_mask_le)
  have "(x - mn) mod 2 ^ integer_bits i = x - mn" if "mn \<le> x" "x \<le> mx" for x
    using that assms(1) by (intro mod_pos_pos_trivial) simp_all
  then have "arc (2 ^ integer_bits i) (mn mod 2 ^ integer_bits i) (mx mod 2 ^ integer_bits i) (d mod 2 ^ integer_bits i)"
    unfolding arc_def mod_diff_eq using d by simp
  then show ?thesis using wr_contains_arc [OF n _ m] m by (simp add: wr_ok_def tag_bits_mod)
qed

lemma tag_bits_inj:
  assumes "mx - mn < 2 ^ integer_bits i" and "mn \<le> d" "d \<le> mx" "mn \<le> d'" "d' \<le> mx" and "tag_bits i d = tag_bits i d'"
  shows "d = d'"
proof -
  have "d mod 2 ^ integer_bits i = d' mod 2 ^ integer_bits i" using arg_cong [OF assms(6), of uint] by (simp only: tag_bits_mod)
  then have "(d - mn) mod 2 ^ integer_bits i = (d' - mn) mod 2 ^ integer_bits i" by (rule mod_diff_cong) simp
  then show ?thesis using assms(1-5) by (simp add: mod_pos_pos_trivial)
qed

lemma tagged_discriminants_spec:
  assumes t: "tagged_layout ex dl repr variants (repr_discr ex dl repr) ds = Some (Some t)"
  shows "\<exists>ti ity sg v. from_attr dl (discr_type repr) = Some ti \<and>
    lvariants (tmp_layout t) = Multiple (Initialized (IntP ity sg) v) Direct 0 [] \<and>
    (let value = \<lambda>val. discr_int (it_is_signed (discr_type repr)) (integer_bits ti) val in
     (\<forall>(i, val) \<in> set ds. inhabited_variant variants i \<longrightarrow> wr_contains v (tag_bits ity (value val))) \<and>
     (\<forall>(i, val) \<in> set ds. \<forall>(i', val') \<in> set ds. inhabited_variant variants i \<and> inhabited_variant variants i' \<and> value val \<noteq> value val' \<longrightarrow>
        tag_bits ity (value val) \<noteq> tag_bits ity (value val')))"
proof (rule tagged_layout_parts [OF t])
  fix mn mx min_ity sg ts ls tot ity ls' c tm
  assume mm: "discr_range dl repr variants ds = Some (mn, mx)" and rd: "repr_discr ex dl repr mn mx = Some (min_ity, sg)"
    and ity: "tag_integer ex dl repr min_ity (ts_start_align ts) = Some ity" and tm: "unsigned_int_max (integer_size ity) = Some tm"
    and lv: "lvariants (tmp_layout t) = Multiple (Initialized (IntP ity sg) \<lparr>wr_start = word_of_int mn AND tm, wr_end = word_of_int mx AND tm\<rparr>) Direct 0 []"
  obtain ti where ti: "from_attr dl (discr_type repr) = Some ti" and r: "mn \<le> mx" "I128_MIN \<le> mn" "mx \<le> I128_MAX"
    and ds: "\<forall>(i, val) \<in> set ds. inhabited_variant variants i \<longrightarrow>
       mn \<le> discr_int (it_is_signed (discr_type repr)) (integer_bits ti) val \<and>
       discr_int (it_is_signed (discr_type repr)) (integer_bits ti) val \<le> mx"
    by (rule discr_range_spec [OF mm])
  have "(2 :: int) ^ integer_bits min_ity \<le> 2 ^ integer_bits ity"
    using tag_integer_cases [OF ity] by (intro power_increasing) (auto simp: integer_less_def)
  then have w: "mx - mn < 2 ^ integer_bits ity" using repr_discr_spec [OF rd r] by linarith
  have "0 < integer_bits ity" "integer_bits ity \<le> 128" "unat (of_nat (integer_bits ity) :: u64) = integer_bits ity"
    by (cases ity; simp add: integer_bits_def)+
  then have tm': "tm = mask (integer_bits ity)" using int_bounds(3) [OF integer_size_bits [of ity]] tm by simp
  let ?val = "\<lambda>val. discr_int (it_is_signed (discr_type repr)) (integer_bits ti) val"
  have in_range: "mn \<le> ?val val" "?val val \<le> mx" if "(i, val) \<in> set ds" "inhabited_variant variants i" for i val
    using ds that by auto
  have mem: "wr_contains \<lparr>wr_start = tag_bits ity mn, wr_end = tag_bits ity mx\<rparr> (tag_bits ity (?val val))"
    if "(i, val) \<in> set ds" "inhabited_variant variants i" for i val
    by (rule tag_bits_range [OF w in_range [OF that]])
  have inj: "?val val = ?val val'" if "(i, val) \<in> set ds" "inhabited_variant variants i" "(i', val') \<in> set ds" "inhabited_variant variants i'"
      "tag_bits ity (?val val) = tag_bits ity (?val val')" for i val i' val'
    by (rule tag_bits_inj [OF w in_range [OF that(1,2)] in_range [OF that(3,4)] that(5)])
  have "lvariants (tmp_layout t) = Multiple (Initialized (IntP ity sg) \<lparr>wr_start = tag_bits ity mn, wr_end = tag_bits ity mx\<rparr>) Direct 0 []"
    unfolding lv tm' tag_bits_def ..
  moreover have "\<forall>(i, val) \<in> set ds. inhabited_variant variants i \<longrightarrow>
      wr_contains \<lparr>wr_start = tag_bits ity mn, wr_end = tag_bits ity mx\<rparr> (tag_bits ity (?val val))"
    using mem by blast
  moreover have "\<forall>(i, val) \<in> set ds. \<forall>(i', val') \<in> set ds. inhabited_variant variants i \<and> inhabited_variant variants i' \<and> ?val val \<noteq> ?val val' \<longrightarrow>
      tag_bits ity (?val val) \<noteq> tag_bits ity (?val val')"
    using inj by blast
  ultimately show ?thesis unfolding Let_def using ti by blast
qed

end
