(* ===== verification/Layout_Examples.thy ===== *)
theory Layout_Examples
  imports Layout_Discr_Props
begin

text \<open>
  Layouts computed by the model: an enum with a niche, and an enum whose tag is made larger.
  The values are computed by rewriting with the definitions.
\<close>

named_theorems eval_layout "definitions for the computation of layouts"

text \<open>The value of \<open>dl_default\<close>.\<close>

definition default_target :: TargetDataLayout where
  "default_target = \<lparr>endian = Big, i1_align = aap_new \<lparr>pow2 = 0\<rparr>, i8_align = aap_new \<lparr>pow2 = 0\<rparr>, i16_align = aap_new \<lparr>pow2 = 1\<rparr>,
     i32_align = aap_new \<lparr>pow2 = 2\<rparr>, i64_align = \<lparr>abi = \<lparr>pow2 = 2\<rparr>, pref = \<lparr>pow2 = 3\<rparr>\<rparr>, i128_align = \<lparr>abi = \<lparr>pow2 = 2\<rparr>, pref = \<lparr>pow2 = 3\<rparr>\<rparr>,
     f32_align = aap_new \<lparr>pow2 = 2\<rparr>, f64_align = aap_new \<lparr>pow2 = 3\<rparr>, pointer_size = \<lparr>raw = 8\<rparr>, pointer_align = aap_new \<lparr>pow2 = 3\<rparr>,
     aggregate_align = \<lparr>abi = \<lparr>pow2 = 0\<rparr>, pref = \<lparr>pow2 = 3\<rparr>\<rparr>,
     vector_align = [(\<lparr>raw = 8\<rparr>, aap_new \<lparr>pow2 = 3\<rparr>), (\<lparr>raw = 16\<rparr>, aap_new \<lparr>pow2 = 4\<rparr>)],
     instruction_address_space = DATA, c_enum_min_size = I32\<rparr>"

lemma dl_default_eq: "dl_default = Some default_target"
  by (simp add: dl_default_def default_target_def Let_def align_from_bits_pow unwrap_align_def aap_new_def ONE_def size_from_bits_def)

definition bool_layout :: LayoutS where
  "bool_layout = LayoutS PrimitiveShape (Single 0) (AbiScalar (Initialized (IntP I8 False) \<lparr>wr_start = 0, wr_end = 1\<rparr>))
     (Some \<lparr>niche_offset = \<lparr>raw = 0\<rparr>, niche_value = IntP I8 False, niche_valid_range = \<lparr>wr_start = 0, wr_end = 1\<rparr>\<rparr>)
     (aap_new \<lparr>pow2 = 0\<rparr>) \<lparr>raw = 1\<rparr> None \<lparr>pow2 = 0\<rparr>"

definition u32_layout :: LayoutS where
  "u32_layout = LayoutS PrimitiveShape (Single 0) (AbiScalar (Initialized (IntP I32 False) \<lparr>wr_start = 0, wr_end = 0xFFFFFFFF\<rparr>))
     None (aap_new \<lparr>pow2 = 2\<rparr>) \<lparr>raw = 4\<rparr> None \<lparr>pow2 = 2\<rparr>"

lemma unsigned_int_max_integer: "unsigned_int_max (integer_size i) = Some (mask (integer_bits i))"
proof -
  have "0 < integer_bits i" "integer_bits i \<le> 128" "unat (of_nat (integer_bits i) :: u64) = integer_bits i"
    by (cases i; simp add: integer_bits_def)+
  then show ?thesis using int_bounds(3) [OF integer_size_bits [of i]] by simp
qed

lemma int_max_values [eval_layout]:
  "unsigned_int_max \<lparr>raw = 1\<rparr> = Some 0xFF" "unsigned_int_max \<lparr>raw = 4\<rparr> = Some 0xFFFFFFFF"
  using unsigned_int_max_integer [of I8] unsigned_int_max_integer [of I32]
  by (simp_all add: integer_bits_def size_from_bytes_def mask_eq_decr_exp)

lemmas eval_sizes [eval_layout] = default_target_def bool_layout_def u32_layout_def niche_available_def Let_def aap_new_def size_from_bytes_def
  ZERO_def scalar_align_def scalar_size_def FIRST_VARIANT_def packed_align_def align_min_def align_max_def aap_max_def max_align_option_def
  size_align_to_def size_add_def align_bytes_def obj_size_bound_def size_bits_def checked_mul_u64_def shl64_def checked_sub_u64_def
  checked_add_u64_def idx_def idx_set_def rassert_def size_checked_add_def field_idx_def max_size_def

lemmas eval_univariant [eval_layout] = univariant_def univariant_biased_def univariant_order_def initial_placement_def place_field_def
  univariant_abi_def inhibit_struct_field_reordering_opt_def can_randomize_type_layout_def non_zst_fields_def newtype_abi_def is_zst_def
  invert_bijective_mapping_def niche_spaces_def repr_transparent_def IS_TRANSPARENT_def IS_UNOPTIMISABLE_def IS_C_def IS_SIMD_def IS_LINEAR_def
  repr_c_def

lemmas eval_niche [eval_layout] = calculate_niche_filling_layout_def va_add_def max_by_key_def niche_variants_def needs_disc_def absent_def
  find_niche_def niche_reserve_def move_end_def with_end_def fit_variant_def niche_filling_abi_def

lemmas eval_tagged [eval_layout] = tagged_layout_def discr_range_def discr_type_def ptr_sized_integer_def repr_discr_def tag_integer_def
  for_align_def prefix_align_of_def patch_variant_def patch_offset_def tagged_abi_def scalar_pair_def adjust_variant_def integer_max_def
  integer_less_def integer_bits_def fit_signed_def fit_unsigned_def I128_MAX_def I128_MIN_def inhabited_variant_def discr_int_def

lemma layout_of_bool: "layout_scalar default_target (Initialized (IntP I8 False) \<lparr>wr_start = 0, wr_end = 1\<rparr>) = Some bool_layout"
  by (simp add: layout_scalar_def eval_layout)

lemma layout_of_u32: "layout_scalar default_target (Initialized (IntP I32 False) \<lparr>wr_start = 0, wr_end = 0xFFFFFFFF\<rparr>) = Some u32_layout"
  by (simp add: layout_scalar_def eval_layout)

lemma discr_step_64 [eval_layout]:
  "i < length variants \<Longrightarrow> discr_step sg 64 variants (i, val) (mn, mx) =
     Some (if inhabited_variant variants i then (min mn (discr_int sg 64 val), max mx (discr_int sg 64 val)) else (mn, mx))"
  using discr_step_eq [of i variants sg I64 val mn mx] by (simp add: integer_bits_def)

lemma align_256 [eval_layout]: "unwrap_align (align_from_bytes 256) = Some \<lparr>pow2 = 8\<rparr>"
  by code_simp

lemma small_words [eval_layout]: "\<not> (8 :: u64) \<le> 1" "\<not> (4 :: u64) \<le> 1"
  by (simp_all add: word_le_nat_alt)

lemma offset_order [eval_layout]:
  "index_by_increasing_offset (Arbitrary [] []) = Some []" "index_by_increasing_offset (Arbitrary [x] [0]) = Some [0]"
  by (simp_all add: index_by_increasing_offset_def inverse_small_def idx_def idx_set_def)

text \<open>\<open>Option<bool>\<close> has one byte: \<open>None\<close> is the value 2 of the \<open>bool\<close>.\<close>

lemma option_bool:
  "\<exists>t. calculate_niche_filling_layout plain_externs default_target repr_rust [[], [bool_layout]] False = Some (Some t) \<and>
     lsize (tmp_layout t) = \<lparr>raw = 1\<rparr> \<and>
     lvariants (tmp_layout t) = Multiple (Initialized (IntP I8 False) \<lparr>wr_start = 0, wr_end = 2\<rparr>) (NicheEncoding 1 (0, 0) 2) 0 []"
  by (simp add: eval_layout)

text \<open>\<open>Option<u32>\<close> has a tag of four bytes.\<close>

lemma option_u32:
  "\<exists>t. tagged_layout plain_externs default_target repr_rust [[], [u32_layout]] (repr_discr plain_externs default_target repr_rust) [(0, 0), (1, 1)] =
     Some (Some t) \<and> lsize (tmp_layout t) = \<lparr>raw = 8\<rparr> \<and>
     lvariants (tmp_layout t) = Multiple (Initialized (IntP I32 False) \<lparr>wr_start = 0, wr_end = 1\<rparr>) Direct 0 []"
  by (simp add: eval_layout)

end
