(* ===== verification/Layout_Enum_Props.thy ===== *)
theory Layout_Enum_Props
  imports Layout_Examples
begin

text \<open>
  The properties of the layout of enums: the layout that \<open>layout_of_enum\<close> returns is one of the
  two candidates, each satisfies its specification, and no candidate is smaller; the tag of an
  enum tells the discriminants apart.
\<close>

subsection \<open>Both candidates\<close>

text \<open>The layout \<open>l\<close> is made of the candidate \<open>t\<close>.\<close>

definition made_of :: "TmpLayout \<Rightarrow> Scalar \<Rightarrow> TagEncoding \<Rightarrow> LayoutS \<Rightarrow> bool" where
  "made_of t tag enc l \<longleftrightarrow> lvariants (tmp_layout t) = Multiple tag enc 0 [] \<and>
     l = set_variants (Multiple tag enc 0 (tmp_variants t)) (tmp_layout t)"

lemma layout_of_enum_parts:
  assumes "layout_of_enum ex dl repr variants dr ds dont = Some (Some l)"
  obtains tgl nl best where "tagged_layout ex dl repr variants dr ds = Some (Some tgl)"
    "calculate_niche_filling_layout ex dl repr variants dont = Some nl" "best = tgl \<or> nl = Some best"
    "intern_variants best = Some l" "raw (lsize (tmp_layout best)) \<le> raw (lsize (tmp_layout tgl))"
    "\<forall>n. nl = Some n \<longrightarrow> raw (lsize (tmp_layout best)) \<le> raw (lsize (tmp_layout n))"
proof -
  obtain nl tgl best where t: "calculate_niche_filling_layout ex dl repr variants dont = Some nl"
    "tagged_layout ex dl repr variants dr ds = Some (Some tgl)" "best_layout dl tgl nl = Some best" "intern_variants best = Some l"
    using assms by (auto simp: layout_of_enum_def split: Option.bind_splits option.splits)
  have "(best = tgl \<or> nl = Some best) \<and> raw (lsize (tmp_layout best)) \<le> raw (lsize (tmp_layout tgl)) \<and>
    (\<forall>n. nl = Some n \<longrightarrow> raw (lsize (tmp_layout best)) \<le> raw (lsize (tmp_layout n)))"
    using t(3) by (auto simp: best_layout_def Let_def split: option.splits Option.bind_splits if_splits)
  then show thesis using that t by blast
qed

lemma intern_variants_made_of:
  "intern_variants t = Some l \<Longrightarrow> lvariants (tmp_layout t) = Multiple tag enc 0 [] \<Longrightarrow> made_of t tag enc l"
  by (simp add: intern_variants_def made_of_def)

text \<open>
  C13: the layout of an enum. The layout of an enum with several variants comes from one of two
  candidates. Either it has a tag at the start, of an integer type, and the fields of every
  variant that have a size lie behind the tag, aligned, inside of the enum and without overlap;
  or the tag lies in the niche of a field of the largest variant, the fields of the other variants
  are aligned, inside of the enum and clear of the niche, and every other variant that can be
  present has a value of its own in the niche, which is not a valid value of the field. The
  layout is as small as the smaller one of the candidates.
\<close>

theorem layout_of_enum_correct:
  assumes inp: "\<forall>v \<in> set variants. layout_input ex dl v repr AlwaysSized" and len: "length variants \<le> 0xFFFFFF01" and ne: "variants \<noteq> []"
    and rng: "\<forall>v \<in> set variants. \<forall>f \<in> set v. niche_range_ok dl f" and pack: "repr_pack repr = None"
    and l: "layout_of_enum ex dl repr variants dr ds dont = Some (Some l)"
  shows "\<exists>t tag enc tgl. made_of t tag enc l \<and>
    (enc \<noteq> Direct \<and> niche_layout dl None variants t \<or>
     enc = Direct \<and> (\<exists>ity sg v. tag = Initialized (IntP ity sg) v \<and> tagged_enum variants ity t)) \<and>
    tagged_layout ex dl repr variants dr ds = Some (Some tgl) \<and> raw (lsize l) \<le> raw (lsize (tmp_layout tgl)) \<and>
    (\<forall>nl. calculate_niche_filling_layout ex dl repr variants dont = Some (Some nl) \<longrightarrow> raw (lsize l) \<le> raw (lsize (tmp_layout nl)))"
proof -
  obtain tgl nl best where p: "tagged_layout ex dl repr variants dr ds = Some (Some tgl)"
    "calculate_niche_filling_layout ex dl repr variants dont = Some nl" "best = tgl \<or> nl = Some best"
    "intern_variants best = Some l" "raw (lsize (tmp_layout best)) \<le> raw (lsize (tmp_layout tgl))"
    "\<forall>n. nl = Some n \<longrightarrow> raw (lsize (tmp_layout best)) \<le> raw (lsize (tmp_layout n))"
    by (rule layout_of_enum_parts [OF l])
  have "\<exists>tag enc. made_of best tag enc l \<and>
    (enc \<noteq> Direct \<and> niche_layout dl None variants best \<or>
     enc = Direct \<and> (\<exists>ity sg v. tag = Initialized (IntP ity sg) v \<and> tagged_enum variants ity best))"
  proof (cases "best = tgl")
    case True
    then obtain ity sg v where "lvariants (tmp_layout best) = Multiple (Initialized (IntP ity sg) v) Direct 0 []" "tagged_enum variants ity best"
      using tagged_layout_spec [OF inp ne pack p(1)] by blast
    then show ?thesis using intern_variants_made_of [OF p(4)] by blast
  next
    case False
    then have "niche_layout dl None variants best" using niche_filling_layout_spec [OF inp len rng] p(2,3) pack by auto
    moreover from this obtain tag u lo hi start where "lvariants (tmp_layout best) = Multiple tag (NicheEncoding u (lo, hi) start) 0 []"
      unfolding niche_layout_def by blast
    ultimately show ?thesis using intern_variants_made_of [OF p(4)] by blast
  qed
  then obtain tag enc where m: "made_of best tag enc l" "enc \<noteq> Direct \<and> niche_layout dl None variants best \<or>
     enc = Direct \<and> (\<exists>ity sg v. tag = Initialized (IntP ity sg) v \<and> tagged_enum variants ity best)" by blast
  have "lsize l = lsize (tmp_layout best)" using m(1) by (simp add: made_of_def)
  then show ?thesis using m p by (intro exI [of _ best] exI [of _ tag] exI [of _ enc] exI [of _ tgl]) simp
qed

lemma bool_field_ok: "layout_ok default_target bool_layout" "niche_range_ok default_target bool_layout"
  by (simp_all add: layout_ok_def bool_layout_def aap_ok_def aap_new_def align_ok_def ALIGN_MAX_def align_nat_def niche_inside_def
      niche_range_ok_def size_bits_def checked_mul_u64_def mask_eq_decr_exp)

lemma default_target_ok: "target_ok default_target"
  using default_layout by (auto simp: target_ok_def dl_default_eq)

lemma option_bool_layout:
  "\<exists>l. layout_of_enum plain_externs default_target repr_rust [[], [bool_layout]] (repr_discr plain_externs default_target repr_rust) [(0, 0), (1, 1)] False =
     Some (Some l) \<and> lsize l = \<lparr>raw = 1\<rparr>"
  by (simp add: layout_of_enum_def best_layout_def tmp_niche_size_def intern_variants_def eval_layout)

theorem layout_of_enum_correct_witness:
  "\<exists>l t tag enc. layout_of_enum plain_externs default_target repr_rust [[], [bool_layout]] (repr_discr plain_externs default_target repr_rust)
       [(0, 0), (1, 1)] False = Some (Some l) \<and> lsize l = \<lparr>raw = 1\<rparr> \<and> made_of t tag enc l \<and>
     (enc \<noteq> Direct \<and> niche_layout default_target None [[], [bool_layout]] t \<or>
      enc = Direct \<and> (\<exists>ity sg v. tag = Initialized (IntP ity sg) v \<and> tagged_enum [[], [bool_layout]] ity t))"
proof -
  obtain l where l: "layout_of_enum plain_externs default_target repr_rust [[], [bool_layout]] (repr_discr plain_externs default_target repr_rust)
       [(0, 0), (1, 1)] False = Some (Some l)" "lsize l = \<lparr>raw = 1\<rparr>" using option_bool_layout by blast
  have inp: "\<forall>v \<in> set [[], [bool_layout]]. layout_input plain_externs default_target v repr_rust AlwaysSized"
    using bool_field_ok(1) default_target_ok by (simp add: layout_input_def repr_ok_def shuffle_ok_def)
  have rng: "\<forall>v \<in> set [[], [bool_layout]]. \<forall>f \<in> set v. niche_range_ok default_target f" using bool_field_ok(2) by simp
  have c: "length [[], [bool_layout]] \<le> 0xFFFFFF01" "[[], [bool_layout]] \<noteq> []" "repr_pack repr_rust = None" by simp_all
  show ?thesis using layout_of_enum_correct [OF inp c(1,2) rng c(3) l(1)] l by blast
qed

text \<open>
  C31: the tag of an enum. With the type that \<open>repr_discr\<close> chooses, the tag of an enum can hold
  the discriminants: for every variant without uninhabited fields, the bits of the discriminant
  lie in the valid range of the tag, and different discriminants have different bits.
\<close>

theorem tag_holds_discriminants:
  assumes "tagged_layout ex dl repr variants (repr_discr ex dl repr) ds = Some (Some t)"
  shows "\<exists>ti ity sg v. from_attr dl (discr_type repr) = Some ti \<and>
    lvariants (tmp_layout t) = Multiple (Initialized (IntP ity sg) v) Direct 0 [] \<and>
    (let value = \<lambda>val. discr_int (it_is_signed (discr_type repr)) (integer_bits ti) val in
     (\<forall>(i, val) \<in> set ds. inhabited_variant variants i \<longrightarrow> wr_contains v (tag_bits ity (value val))) \<and>
     (\<forall>(i, val) \<in> set ds. \<forall>(i', val') \<in> set ds. inhabited_variant variants i \<and> inhabited_variant variants i' \<and> value val \<noteq> value val' \<longrightarrow>
        tag_bits ity (value val) \<noteq> tag_bits ity (value val')))"
  by (rule tagged_discriminants_spec [OF assms])

theorem tag_holds_discriminants_witness:
  "\<exists>t ity sg v. tagged_layout plain_externs default_target repr_rust [[], [u32_layout]] (repr_discr plain_externs default_target repr_rust)
       [(0, 0), (1, 1)] = Some (Some t) \<and> lvariants (tmp_layout t) = Multiple (Initialized (IntP ity sg) v) Direct 0 [] \<and>
     wr_contains v (tag_bits ity (discr_int True 64 1))"
proof -
  obtain t where t: "tagged_layout plain_externs default_target repr_rust [[], [u32_layout]] (repr_discr plain_externs default_target repr_rust)
       [(0, 0), (1, 1)] = Some (Some t)" using option_u32 by blast
  have "from_attr default_target (discr_type repr_rust) = Some I64" "it_is_signed (discr_type repr_rust)"
    "inhabited_variant [[], [u32_layout]] 1" by (simp_all add: eval_layout)
  then show ?thesis using tag_holds_discriminants [OF t] t by (auto simp: integer_bits_def Let_def)
qed

end
