(* ===== verification/Graph.thy ===== *)
theory Graph
  imports Bit_Set_Props "HOL-Library.Product_Lexorder"
begin

text \<open>
  The graphs of \<open>rustc_data_structures/src/graph\<close>: the traits of \<open>mod.rs\<close> as a record of
  operations, the vector graph of \<open>vec_graph/mod.rs\<close>, the traversals of \<open>iterate/mod.rs\<close>, and
  the work queue of \<open>work_queue.rs\<close>. Nodes are indices. A \<open>Vec\<close> used as a stack is a list whose
  last element is the top.
\<close>

subsection \<open>The interface\<close>

text \<open>The traits \<open>WithNumNodes\<close> and \<open>WithSuccessors\<close>: an index out of range may panic.\<close>

record graph =
  num_nodes :: nat
  successors :: "nat \<Rightarrow> nat list option"

text \<open>\<open>Vec::pop\<close>.\<close>

definition vec_pop :: "'a list \<Rightarrow> ('a \<times> 'a list) option" where
  "vec_pop xs = (if xs = [] then None else Some (last xs, butlast xs))"

subsection \<open>Vector graphs\<close>

record vec_graph =
  node_starts :: "nat list"
  edge_targets :: "nat list"

text \<open>The loop \<open>while node_starts.len() <= limit { node_starts.push(index) }\<close>.\<close>

function push_starts :: "nat list \<Rightarrow> nat \<Rightarrow> nat \<Rightarrow> nat list" where
  "push_starts starts limit index = (if length starts \<le> limit then push_starts (starts @ [index]) limit index else starts)"
  by auto

termination
  by (relation "measure (\<lambda>(starts, limit, index). Suc limit - length starts)") auto

declare push_starts.simps [simp del]

definition vg_new :: "nat \<Rightarrow> (nat \<times> nat) list \<Rightarrow> vec_graph option" where
  "vg_new n edge_pairs = do {
     let edge_pairs = sort edge_pairs;
     let targets = map snd edge_pairs;
     let starts = fold (\<lambda>(index, e) starts. push_starts starts (fst e) index) (enumerate 0 edge_pairs) [];
     let starts = push_starts starts n (length targets);
     rassert (length starts = n + 1);
     Some \<lparr>node_starts = starts, edge_targets = targets\<rparr>
   }"

definition vg_successors :: "vec_graph \<Rightarrow> nat \<Rightarrow> nat list option" where
  "vg_successors self source = do {
     start_index \<leftarrow> idx (node_starts self) source;
     end_index \<leftarrow> idx (node_starts self) (source + 1);
     slice_of (edge_targets self) start_index end_index
   }"

definition vg_num_nodes :: "vec_graph \<Rightarrow> nat option" where
  "vg_num_nodes self = checked_sub (length (node_starts self)) 1"

definition vg_num_edges :: "vec_graph \<Rightarrow> nat" where
  "vg_num_edges self = length (edge_targets self)"

text \<open>A vector graph through the traits.\<close>

definition vg_graph :: "vec_graph \<Rightarrow> graph option" where
  "vg_graph self = do { n \<leftarrow> vg_num_nodes self; Some \<lparr>num_nodes = n, successors = vg_successors self\<rparr> }"

subsection \<open>Post order\<close>

text \<open>The loop over the rest of an iterator that looks for a successor not visited yet.\<close>

fun next_unvisited :: "bool list \<Rightarrow> nat list \<Rightarrow> (nat \<times> nat list) option option" where
  "next_unvisited visited [] = Some None"
| "next_unvisited visited (successor # rest) = do {
     v \<leftarrow> idx visited successor;
     if \<not> v then Some (Some (successor, rest)) else next_unvisited visited rest
   }"

text \<open>The loop of \<open>post_order_walk\<close>; a frame is a node with the rest of its iterator.\<close>

partial_function (option) post_order_loop :: "graph \<Rightarrow> (nat \<times> nat list) list \<Rightarrow> nat list \<Rightarrow> bool list \<Rightarrow> (nat list \<times> bool list) option" where
  "post_order_loop g stack result visited =
     (case vec_pop stack of
        None \<Rightarrow> Some (result, visited)
      | Some ((node, it), stack) \<Rightarrow>
          Option.bind (idx_set visited node True) (\<lambda>visited.
          Option.bind (next_unvisited visited it) (\<lambda>r.
            case r of
              Some (successor, it) \<Rightarrow>
                Option.bind (successors g successor) (\<lambda>succs.
                  post_order_loop g (stack @ [(node, it), (successor, succs)]) result visited)
            | None \<Rightarrow> post_order_loop g stack (result @ [node]) visited)))"

declare post_order_loop.simps [code]

definition post_order_walk :: "graph \<Rightarrow> nat \<Rightarrow> nat list \<Rightarrow> bool list \<Rightarrow> (nat list \<times> bool list) option" where
  "post_order_walk g node result visited = do {
     v \<leftarrow> idx visited node;
     if v then Some (result, visited)
     else do {
       succs \<leftarrow> successors g node;
       post_order_loop g [(node, succs)] result visited
     }
   }"

definition post_order_from_to :: "graph \<Rightarrow> nat \<Rightarrow> nat option \<Rightarrow> nat list option" where
  "post_order_from_to g start_node end_node = do {
     let visited = replicate (num_nodes g) False;
     visited \<leftarrow> (case end_node of Some e \<Rightarrow> idx_set visited e True | None \<Rightarrow> Some visited);
     (result, visited) \<leftarrow> post_order_walk g start_node [] visited;
     Some result
   }"

definition post_order_from :: "graph \<Rightarrow> nat \<Rightarrow> nat list option" where
  "post_order_from g start_node = post_order_from_to g start_node None"

definition reverse_post_order :: "graph \<Rightarrow> nat \<Rightarrow> nat list option" where
  "reverse_post_order g start_node = map_option rev (post_order_from g start_node)"

subsection \<open>Depth-first search\<close>

record depth_first_search =
  dfs_stack :: "nat list"
  dfs_visited :: bit_set

definition dfs_new :: "graph \<Rightarrow> depth_first_search" where
  "dfs_new g = \<lparr>dfs_stack = [], dfs_visited = new_empty (num_nodes g)\<rparr>"

definition push_start_node :: "depth_first_search \<Rightarrow> nat \<Rightarrow> depth_first_search option" where
  "push_start_node self start_node = do {
     (visited, new) \<leftarrow> insert_elem (dfs_visited self) start_node;
     Some \<lparr>dfs_stack = (if new then dfs_stack self @ [start_node] else dfs_stack self), dfs_visited = visited\<rparr>
   }"

definition with_start_node :: "depth_first_search \<Rightarrow> nat \<Rightarrow> depth_first_search option" where
  "with_start_node self start_node = push_start_node self start_node"

text \<open>\<open>depth_first_search\<close> of the trait \<open>WithSuccessors\<close>.\<close>

definition depth_first_search_from :: "graph \<Rightarrow> nat \<Rightarrow> depth_first_search option" where
  "depth_first_search_from g from' = with_start_node (dfs_new g) from'"

text \<open>The items of \<open>filter(|&m| visited.insert(m))\<close>, and the set after them.\<close>

fun insert_filter :: "nat list \<Rightarrow> bit_set \<Rightarrow> (nat list \<times> bit_set) option" where
  "insert_filter [] visited = Some ([], visited)"
| "insert_filter (m # ms) visited = do {
     (visited, new) \<leftarrow> insert_elem visited m;
     (rest, visited) \<leftarrow> insert_filter ms visited;
     Some (if new then m # rest else rest, visited)
   }"

definition dfs_next :: "graph \<Rightarrow> depth_first_search \<Rightarrow> (nat option \<times> depth_first_search) option" where
  "dfs_next g self =
     (case vec_pop (dfs_stack self) of
        None \<Rightarrow> Some (None, self)
      | Some (n, stack) \<Rightarrow> do {
          succs \<leftarrow> successors g n;
          (new, visited) \<leftarrow> insert_filter succs (dfs_visited self);
          Some (Some n, \<lparr>dfs_stack = stack @ new, dfs_visited = visited\<rparr>)
        })"

text \<open>The items of the iterator until it is drained, and the search after them.\<close>

partial_function (option) dfs_collect :: "graph \<Rightarrow> depth_first_search \<Rightarrow> (nat list \<times> depth_first_search) option" where
  "dfs_collect g self =
     Option.bind (dfs_next g self) (\<lambda>(item, self).
       case item of
         None \<Rightarrow> Some ([], self)
       | Some n \<Rightarrow> Option.bind (dfs_collect g self) (\<lambda>(items, self). Some (n # items, self)))"

declare dfs_collect.simps [code]

definition complete_search :: "graph \<Rightarrow> depth_first_search \<Rightarrow> depth_first_search option" where
  "complete_search g self = map_option snd (dfs_collect g self)"

definition dfs_is_visited :: "depth_first_search \<Rightarrow> nat \<Rightarrow> bool option" where
  "dfs_is_visited self node = contains (dfs_visited self) node"

subsection \<open>The search with three colours\<close>

datatype NodeStatus = Visited | Settled

datatype 'b ControlFlow = Continue | Break 'b

record event =
  ev_node :: nat
  ev_becomes :: NodeStatus

text \<open>A visitor with its state, which its methods update.\<close>

record ('s, 'b) visitor =
  node_examined :: "'s \<Rightarrow> nat \<Rightarrow> NodeStatus option \<Rightarrow> 'b ControlFlow \<times> 's"
  node_settled :: "'s \<Rightarrow> nat \<Rightarrow> 'b ControlFlow \<times> 's"
  ignore_edge :: "'s \<Rightarrow> nat \<Rightarrow> nat \<Rightarrow> bool \<times> 's"

record tri_color_search =
  tri_stack :: "event list"
  tri_visited :: bit_set
  tri_settled :: bit_set

definition tri_new :: "graph \<Rightarrow> tri_color_search" where
  "tri_new g = \<lparr>tri_stack = [], tri_visited = new_empty (num_nodes g), tri_settled = new_empty (num_nodes g)\<rparr>"

text \<open>The events for the successors, in the order in which they are pushed.\<close>

fun push_successors :: "('s, 'b) visitor \<Rightarrow> 's \<Rightarrow> nat \<Rightarrow> nat list \<Rightarrow> event list \<times> 's" where
  "push_successors v s node [] = ([], s)"
| "push_successors v s node (succ # succs) =
     (let (ign, s) = ignore_edge v s node succ;
          (events, s) = push_successors v s node succs
      in (if \<not> ign then \<lparr>ev_node = succ, ev_becomes = Visited\<rparr> # events else events, s))"

partial_function (option) tri_loop :: "graph \<Rightarrow> ('s, 'b) visitor \<Rightarrow> 's \<Rightarrow> tri_color_search \<Rightarrow> ('b option \<times> 's) option" where
  "tri_loop g v s self =
     (case vec_pop (tri_stack self) of
        None \<Rightarrow> Some (None, s)
      | Some (event, stack) \<Rightarrow>
          (case ev_becomes event of
             Settled \<Rightarrow>
               Option.bind (insert_elem (tri_settled self) (ev_node event)) (\<lambda>(settled, not_previously_settled).
               Option.bind (rassert not_previously_settled) (\<lambda>_.
                 case node_settled v s (ev_node event) of
                   (Break val, s) \<Rightarrow> Some (Some val, s)
                 | (Continue, s) \<Rightarrow> tri_loop g v s (self\<lparr>tri_stack := stack, tri_settled := settled\<rparr>)))
           | Visited \<Rightarrow>
               Option.bind (insert_elem (tri_visited self) (ev_node event)) (\<lambda>(visited, not_previously_visited).
               Option.bind (if not_previously_visited then Some None
                            else map_option (\<lambda>c. Some (if c then Settled else Visited)) (contains (tri_settled self) (ev_node event)))
                 (\<lambda>prior_status.
                 case node_examined v s (ev_node event) prior_status of
                   (Break val, s) \<Rightarrow> Some (Some val, s)
                 | (Continue, s) \<Rightarrow>
                     if prior_status \<noteq> None then tri_loop g v s (self\<lparr>tri_stack := stack, tri_visited := visited\<rparr>)
                     else
                       Option.bind (successors g (ev_node event)) (\<lambda>succs.
                         case push_successors v s (ev_node event) succs of
                           (events, s) \<Rightarrow>
                             tri_loop g v s (self\<lparr>tri_stack := stack @ \<lparr>ev_node = ev_node event, ev_becomes = Settled\<rparr> # events,
                               tri_visited := visited\<rparr>))))))"

declare tri_loop.simps [code]

definition run_from :: "graph \<Rightarrow> ('s, 'b) visitor \<Rightarrow> 's \<Rightarrow> tri_color_search \<Rightarrow> nat \<Rightarrow> ('b option \<times> 's) option" where
  "run_from g v s self root =
     tri_loop g v s (self\<lparr>tri_stack := tri_stack self @ [\<lparr>ev_node = root, ev_becomes = Visited\<rparr>]\<rparr>)"

definition CycleDetector :: "(unit, unit) visitor" where
  "CycleDetector =
     \<lparr>node_examined = (\<lambda>s node prior_status. (if prior_status = Some Visited then Break () else Continue, s)),
      node_settled = (\<lambda>s node. (Continue, s)),
      ignore_edge = (\<lambda>s source target. (False, s))\<rparr>"

text \<open>The start node of the graph is an argument.\<close>

definition is_cyclic :: "graph \<Rightarrow> nat \<Rightarrow> bool option" where
  "is_cyclic g start_node = do {
     (r, _) \<leftarrow> run_from g CycleDetector () (tri_new g) start_node;
     Some (r \<noteq> None)
   }"

subsection \<open>Work queues\<close>

record work_queue =
  wq_deque :: "nat list"
  wq_set :: bit_set

definition wq_with_none :: "nat \<Rightarrow> work_queue" where
  "wq_with_none len = \<lparr>wq_deque = [], wq_set = new_empty len\<rparr>"

definition wq_insert :: "work_queue \<Rightarrow> nat \<Rightarrow> (work_queue \<times> bool) option" where
  "wq_insert self element = do {
     (s, new) \<leftarrow> insert_elem (wq_set self) element;
     Some (if new then (\<lparr>wq_deque = wq_deque self @ [element], wq_set = s\<rparr>, True) else (self\<lparr>wq_set := s\<rparr>, False))
   }"

definition wq_pop :: "work_queue \<Rightarrow> (work_queue \<times> nat option) option" where
  "wq_pop self =
     (case wq_deque self of
        element # rest \<Rightarrow> do {
          (s, _) \<leftarrow> remove (wq_set self) element;
          Some (\<lparr>wq_deque = rest, wq_set = s\<rparr>, Some element)
        }
      | [] \<Rightarrow> Some (self, None))"

end
