(* ===== verification/Graph_Props.thy ===== *)
theory Graph_Props
  imports Graph
begin

text \<open>
  Vector graphs: the successors of a node are the targets of its edges. The contract of the
  traits is the predicate \<open>graph_ok\<close>; the locale \<open>successor_graph\<close> is what an implementation
  promises, and vector graphs interpret it.
\<close>

subsection \<open>The contract of a graph\<close>

definition edges :: "graph \<Rightarrow> (nat \<times> nat) set" where
  "edges g = {(u, v). \<exists>vs. successors g u = Some vs \<and> v \<in> set vs}"

definition graph_ok :: "graph \<Rightarrow> bool" where
  "graph_ok g \<longleftrightarrow> num_nodes g < 2 ^ 64 \<and>
     (\<forall>u < num_nodes g. \<exists>vs. successors g u = Some vs \<and> set vs \<subseteq> {..<num_nodes g})"

lemma graph_okE:
  assumes "graph_ok g" and "u < num_nodes g"
  obtains vs where "successors g u = Some vs" "set vs \<subseteq> {..<num_nodes g}" "edges g `` {u} = set vs"
  using assms by (auto simp: graph_ok_def edges_def)

locale successor_graph =
  fixes view :: "'g \<Rightarrow> graph" and ok :: "'g \<Rightarrow> bool"
  assumes view_nodes: "ok x \<Longrightarrow> num_nodes (view x) < 2 ^ 64"
    and view_successors: "ok x \<Longrightarrow> u < num_nodes (view x) \<Longrightarrow>
      \<exists>vs. successors (view x) u = Some vs \<and> set vs \<subseteq> {..<num_nodes (view x)}"
begin

lemma view_graph_ok: "ok x \<Longrightarrow> graph_ok (view x)"
  unfolding graph_ok_def using view_nodes view_successors by blast

end

subsection \<open>Vector graphs\<close>

lemma push_starts_eq: "push_starts starts limit index = starts @ replicate (Suc limit - length starts) index"
proof (induction starts limit index rule: push_starts.induct)
  case (1 starts limit index)
  show ?case
  proof (cases "length starts \<le> limit")
    case True
    then have "Suc limit - length starts = Suc (Suc limit - length (starts @ [index]))" by simp
    then show ?thesis using 1 True by (simp add: push_starts.simps [of starts])
  qed (simp add: push_starts.simps [of starts])
qed

text \<open>The number of edges with a smaller source.\<close>

definition edges_below :: "(nat \<times> nat) list \<Rightarrow> nat \<Rightarrow> nat" where
  "edges_below es v = length (filter (\<lambda>e. fst e < v) es)"

definition starts_ok :: "(nat \<times> nat) list \<Rightarrow> nat list \<Rightarrow> bool" where
  "starts_ok es starts \<longleftrightarrow> (\<forall>v < length starts. starts ! v = edges_below es v)"

text \<open>The entries that are pushed for the edge after \<open>before\<close>.\<close>

lemma edges_below_prefix:
  assumes "\<forall>e \<in> set before. fst e < v" and "\<forall>e \<in> set after. v \<le> fst e"
  shows "edges_below (before @ after) v = length before"
proof -
  have "filter (\<lambda>e. fst e < v) before = before" using assms(1) by (simp add: filter_id_conv)
  moreover have "filter (\<lambda>e. fst e < v) after = []" using assms(2) by (auto simp: filter_empty_conv)
  ultimately show ?thesis by (simp add: edges_below_def)
qed

lemma starts_ok_push:
  assumes "starts_ok es starts" and "\<And>v. length starts \<le> v \<Longrightarrow> v \<le> limit \<Longrightarrow> edges_below es v = index"
  shows "starts_ok es (push_starts starts limit index)"
  using assms by (auto simp: starts_ok_def push_starts_eq nth_append)

lemma starts_loop:
  assumes es: "es = before @ after" and sorted: "sorted (map fst es)" and ok: "starts_ok es starts"
    and len: "\<forall>e \<in> set before. fst e < length starts" "\<forall>e \<in> set after. length starts \<le> Suc (fst e)"
  shows "let starts' = fold (\<lambda>(index, e) starts. push_starts starts (fst e) index) (enumerate (length before) after) starts in
    starts_ok es starts' \<and> (\<forall>e \<in> set es. fst e < length starts') \<and> (length starts' = length starts \<or> (\<exists>e \<in> set after. length starts' = Suc (fst e)))"
  using assms
proof (induction after arbitrary: before starts)
  case (Cons e after)
  let ?s = "push_starts starts (fst e) (length before)"
  have e: "\<forall>x \<in> set after. fst e \<le> fst x" using Cons.prems(1,2) by (simp add: sorted_append)
  have s: "length ?s = max (length starts) (Suc (fst e))" by (simp add: push_starts_eq)
  have ok': "starts_ok es ?s"
  proof (rule starts_ok_push [OF Cons.prems(3)])
    fix v assume "length starts \<le> v" "v \<le> fst e"
    then show "edges_below es v = length before"
      unfolding Cons.prems(1) using Cons.prems(4) e by (intro edges_below_prefix) (auto intro: less_le_trans le_trans)
  qed
  have "let starts' = fold (\<lambda>(index, e) starts. push_starts starts (fst e) index) (enumerate (length (before @ [e])) after) ?s in
    starts_ok es starts' \<and> (\<forall>e \<in> set es. fst e < length starts') \<and> (length starts' = length ?s \<or> (\<exists>e \<in> set after. length starts' = Suc (fst e)))"
    by (rule Cons.IH) (use Cons.prems ok' s e in \<open>auto simp: max_def\<close>)
  then show ?case using s Cons.prems(5) by (auto simp: Let_def max_def)
qed simp

lemma sorted_split:
  assumes "sorted (map fst es)"
  shows "es = filter (\<lambda>e. fst e < v) es @ filter (\<lambda>e. v \<le> fst e) es"
  using assms
proof (induction es)
  case (Cons e es)
  show ?case
  proof (cases "fst e < v")
    case False
    then have "filter (\<lambda>e. fst e < v) es = []" "filter (\<lambda>e. v \<le> fst e) es = es"
      using Cons.prems by (auto simp: filter_empty_conv filter_id_conv intro: less_le_trans)
    then show ?thesis using False by simp
  qed (use Cons in simp)
qed simp

lemma sorted_slice:
  assumes "sorted (map fst es)"
  shows "take (edges_below es (Suc v) - edges_below es v) (drop (edges_below es v) es) = filter (\<lambda>e. fst e = v) es"
proof -
  let ?lt = "filter (\<lambda>e. fst e < v) es" and ?ge = "filter (\<lambda>e. v \<le> fst e) es"
  have "sorted (map fst ?ge)" using assms by (rule sorted_filter)
  from sorted_split [OF this, of "Suc v"]
  have "?ge = filter (\<lambda>e. fst e < Suc v) ?ge @ filter (\<lambda>e. Suc v \<le> fst e) ?ge" .
  moreover have eq: "filter (\<lambda>e. fst e < Suc v) ?ge = filter (\<lambda>e. fst e = v) es" by (auto intro: filter_cong)
  ultimately obtain rest where ge: "?ge = filter (\<lambda>e. fst e = v) es @ rest" by metis
  have "edges_below es (Suc v) = edges_below es v + length (filter (\<lambda>e. fst e = v) es)"
  proof -
    have "edges_below es (Suc v) = length (filter (\<lambda>e. fst e < Suc v) ?lt) + length (filter (\<lambda>e. fst e < Suc v) ?ge)"
      unfolding edges_below_def by (subst sorted_split [OF assms, of v]) (simp only: filter_append length_append)
    moreover have "filter (\<lambda>e. fst e < Suc v) ?lt = ?lt" by (auto intro: filter_cong)
    ultimately show ?thesis using eq by (simp add: edges_below_def)
  qed
  moreover have "drop (edges_below es v) es = ?ge"
    unfolding edges_below_def by (subst (2) sorted_split [OF assms, of v]) simp
  ultimately show ?thesis using ge by simp
qed

lemma sorted_sources: "sorted (map fst (sort (es :: (nat \<times> nat) list)))"
proof -
  have "sorted_wrt (\<lambda>x y. fst x \<le> fst y) (sort es)"
    by (rule sorted_wrt_mono_rel [OF _ sorted_sort]) (auto simp: less_eq_prod_def)
  then show ?thesis by (simp add: sorted_map)
qed

lemma edges_below_le: "edges_below es v \<le> edges_below es (Suc v)" "edges_below es v \<le> length es"
proof -
  have "filter (\<lambda>e. fst e < v) es = filter (\<lambda>e. fst e < v) (filter (\<lambda>e. fst e < Suc v) es)" by (auto intro: filter_cong)
  then show "edges_below es v \<le> edges_below es (Suc v)" unfolding edges_below_def by (metis length_filter_le)
qed (simp add: edges_below_def)

text \<open>What \<open>new\<close> returns.\<close>

lemma vg_new_spec:
  assumes "\<forall>e \<in> set es. fst e < n"
  obtains g where "vg_new n es = Some g" "edge_targets g = map snd (sort es)" "length (node_starts g) = n + 1"
    "\<And>v. v \<le> n \<Longrightarrow> node_starts g ! v = edges_below (sort es) v"
proof -
  let ?es = "sort es"
  let ?loop = "fold (\<lambda>(index, e) starts. push_starts starts (fst e) index) (enumerate 0 ?es) []"
  have l: "starts_ok ?es ?loop" "\<forall>e \<in> set ?es. fst e < length ?loop" "length ?loop \<le> n"
    using starts_loop [of ?es "[]" ?es "[]"] sorted_sources assms by (auto simp: Let_def starts_ok_def)
  let ?starts = "push_starts ?loop n (length ?es)"
  have "starts_ok ?es ?starts"
  proof (rule starts_ok_push [OF l(1)])
    fix v assume "length ?loop \<le> v" "v \<le> n"
    then show "edges_below ?es v = length ?es" using edges_below_prefix [of ?es v "[]"] l(2) by (auto intro: less_le_trans)
  qed
  moreover have len: "length ?starts = n + 1" using l(3) by (simp add: push_starts_eq)
  ultimately show thesis using that [of "\<lparr>node_starts = ?starts, edge_targets = map snd ?es\<rparr>"]
    by (simp add: vg_new_def Let_def starts_ok_def)
qed

lemma vg_successors_spec:
  assumes "edge_targets g = map snd (sort es)" and "length (node_starts g) = n + 1"
    and "\<And>v. v \<le> n \<Longrightarrow> node_starts g ! v = edges_below (sort es) v" and "v < n"
  shows "vg_successors g v = Some (map snd (filter (\<lambda>e. fst e = v) (sort es)))"
proof -
  have "take (edges_below (sort es) (Suc v) - edges_below (sort es) v) (drop (edges_below (sort es) v) (sort es)) = filter (\<lambda>e. fst e = v) (sort es)"
    by (rule sorted_slice [OF sorted_sources])
  then show ?thesis using assms edges_below_le(1) [of "sort es" v] edges_below_le(2) [of "sort es" "Suc v"]
    by (simp add: vg_successors_def take_map drop_map)
qed

text \<open>The vector graphs that \<open>new\<close> makes of edges between nodes.\<close>

definition vg_ok :: "vec_graph \<Rightarrow> bool" where
  "vg_ok g \<longleftrightarrow> (\<exists>n es. n < 2 ^ 64 \<and> (\<forall>e \<in> set es. fst e < n \<and> snd e < n) \<and> vg_new n es = Some g)"

definition vg_view :: "vec_graph \<Rightarrow> graph" where
  "vg_view g = \<lparr>num_nodes = length (node_starts g) - 1, successors = vg_successors g\<rparr>"

lemma vg_new_view:
  assumes "\<forall>e \<in> set es. fst e < n \<and> snd e < n" and new: "vg_new n es = Some vg"
  shows "vg_graph vg = Some (vg_view vg)" "num_nodes (vg_view vg) = n" "vg_num_edges vg = length es" "edges (vg_view vg) = set es"
    "v < n \<Longrightarrow> successors (vg_view vg) v = Some (map snd (filter (\<lambda>e. fst e = v) (sort es)))"
proof -
  obtain g where g: "vg_new n es = Some g" "edge_targets g = map snd (sort es)" "length (node_starts g) = n + 1"
    "\<And>v. v \<le> n \<Longrightarrow> node_starts g ! v = edges_below (sort es) v"
    by (rule vg_new_spec [of es n]) (use assms(1) in auto)
  have vg: "vg = g" using g(1) new by simp
  show succ: "successors (vg_view vg) v = Some (map snd (filter (\<lambda>e. fst e = v) (sort es)))" if "v < n" for v
    using vg_successors_spec [OF g(2-4) that] by (simp add: vg vg_view_def)
  show "vg_graph vg = Some (vg_view vg)" "num_nodes (vg_view vg) = n" "vg_num_edges vg = length es"
    using g(2,3) by (simp_all add: vg vg_graph_def vg_num_nodes_def vg_view_def vg_num_edges_def)
  have out: "successors (vg_view vg) v = None" if "\<not> v < n" for v
    using g(3) that by (auto simp: vg vg_view_def vg_successors_def idx_def split: Option.bind_splits)
  have "(u, v) \<in> edges (vg_view vg) \<longleftrightarrow> (u, v) \<in> set es" for u v
    using succ [of u] out [of u] assms(1) by (cases "u < n") (force simp: edges_def)+
  then show "edges (vg_view vg) = set es" by auto
qed

interpretation vg: successor_graph vg_view vg_ok
proof unfold_locales
  fix x u
  assume "vg_ok x"
  then obtain n es where n: "n < 2 ^ 64" "\<forall>e \<in> set es. fst e < n \<and> snd e < n" "vg_new n es = Some x" unfolding vg_ok_def by blast
  note v = vg_new_view [OF n(2,3)]
  show "num_nodes (vg_view x) < 2 ^ 64" using v(2) n(1) by simp
  assume "u < num_nodes (vg_view x)"
  then show "\<exists>vs. successors (vg_view x) u = Some vs \<and> set vs \<subseteq> {..<num_nodes (vg_view x)}"
    using v(2) v(5) [of u] n(2) by auto
qed

lemma vg_new_graph:
  assumes "n < 2 ^ 64" and es: "\<forall>e \<in> set es. fst e < n \<and> snd e < n"
  obtains vg where "vg_new n es = Some vg" "vg_graph vg = Some (vg_view vg)" "num_nodes (vg_view vg) = n" "graph_ok (vg_view vg)"
    "edges (vg_view vg) = set es"
proof -
  obtain vg where vg: "vg_new n es = Some vg" using vg_new_spec [of es n] es by blast
  then have "vg_ok vg" unfolding vg_ok_def using assms by blast
  then show thesis using that vg vg_new_view [OF es vg] vg.view_graph_ok by blast
qed

lemma vg_new_panics: "\<exists>e \<in> set es. n < fst e \<Longrightarrow> vg_new n es = None"
proof -
  assume "\<exists>e \<in> set es. n < fst e"
  then obtain e where e: "e \<in> set (sort es)" "n < fst e" by auto
  let ?loop = "fold (\<lambda>(index, e) starts. push_starts starts (fst e) index) (enumerate 0 (sort es)) []"
  have "fst e < length ?loop"
    using starts_loop [of "sort es" "[]" "sort es" "[]"] sorted_sources e(1) by (auto simp: Let_def starts_ok_def)
  then have "length (push_starts ?loop n (length es)) \<noteq> n + 1" using e(2) by (simp add: push_starts_eq)
  then show ?thesis by (simp add: vg_new_def Let_def)
qed

text \<open>
  C30: vector graphs. From a number of nodes and a list of edges between them in any order,
  \<open>VecGraph::new\<close> makes a graph with these nodes and exactly these edges; the successors of a
  node are the targets of its edges in increasing order, with duplicates. When the source of
  an edge is larger than the number of nodes, \<open>new\<close> panics.
\<close>

theorem vec_graph_edges:
  assumes "n < 2 ^ 64" and "\<forall>e \<in> set es. snd e < n"
  shows "((\<exists>e \<in> set es. n < fst e) \<longrightarrow> vg_new n es = None) \<and>
    ((\<forall>e \<in> set es. fst e < n) \<longrightarrow> (\<exists>vg g. vg_new n es = Some vg \<and> vg_graph vg = Some g \<and> num_nodes g = n \<and> graph_ok g \<and>
       vg_num_edges vg = length es \<and> edges g = set es \<and>
       (\<forall>v < n. successors g v = Some (map snd (filter (\<lambda>e. fst e = v) (sort es))))))"
proof (intro conjI impI)
  assume src: "\<forall>e \<in> set es. fst e < n"
  then have ok: "\<forall>e \<in> set es. fst e < n \<and> snd e < n" using assms(2) by blast
  obtain vg where new: "vg_new n es = Some vg" "graph_ok (vg_view vg)" by (rule vg_new_graph [OF assms(1) ok])
  show "\<exists>vg g. vg_new n es = Some vg \<and> vg_graph vg = Some g \<and> num_nodes g = n \<and> graph_ok g \<and>
       vg_num_edges vg = length es \<and> edges g = set es \<and>
       (\<forall>v < n. successors g v = Some (map snd (filter (\<lambda>e. fst e = v) (sort es))))"
    using new vg_new_view [OF ok new(1)] by blast
qed (rule vg_new_panics)

theorem vec_graph_edges_witness:
  "\<exists>vg g. vg_new 3 [(2, 0), (0, 1), (0, 2)] = Some vg \<and> vg_graph vg = Some g \<and> edges g = {(0, 1), (0, 2), (2, 0)}"
proof -
  have "\<exists>vg g. vg_new 3 [(2, 0), (0, 1), (0, 2)] = Some vg \<and> vg_graph vg = Some g \<and> edges g = set [(2, 0), (0, 1), (0, 2)]"
    using vec_graph_edges [of 3 "[(2, 0), (0, 1), (0, 2)]"] by auto
  then show ?thesis by (simp add: insert_commute)
qed

end
