(* ===== verification/Graph_Search.thy ===== *)
theory Graph_Search
  imports Graph_Props
begin

text \<open>
  The depth-first search yields the nodes reachable from its start nodes, each once; the work
  queue is a queue without duplicates.
\<close>

lemma vec_pop_simps [simp]: "vec_pop [] = None" "vec_pop (xs @ [x]) = Some (x, xs)"
  by (simp_all add: vec_pop_def)

subsection \<open>Depth-first search\<close>

lemma insert_filter_spec:
  assumes "bs_ok s" and "set ms \<subseteq> {..<domain_size s}"
  shows "\<exists>new s'. insert_filter ms s = Some (new, s') \<and> bs_ok s' \<and> domain_size s' = domain_size s \<and>
    bs_elems s' = bs_elems s \<union> set ms \<and> distinct new \<and> set new = set ms - bs_elems s"
  using assms
proof (induction ms arbitrary: s)
  case (Cons m ms)
  then have "m < domain_size s" by simp
  then obtain s1 where s1: "insert_elem s m = Some (s1, m \<notin> bs_elems s)" "bs_ok s1" "domain_size s1 = domain_size s"
    "bs_elems s1 = insert m (bs_elems s)"
    using returnsE [OF bs_insert_elem [OF Cons.prems(1)]] by metis
  obtain new s' where "insert_filter ms s1 = Some (new, s')" "bs_ok s'" "domain_size s' = domain_size s1"
    "bs_elems s' = bs_elems s1 \<union> set ms" "distinct new" "set new = set ms - bs_elems s1"
    using Cons.IH [OF s1(2)] Cons.prems(2) s1(3) by auto
  then show ?case using s1 by auto
qed simp

text \<open>
  The invariant: the stack has visited nodes, each once, and every visited node that is not on
  the stack has its successors visited. The nodes visited before lie in \<open>D\<close>.
\<close>

definition dfs_inv :: "graph \<Rightarrow> depth_first_search \<Rightarrow> bool" where
  "dfs_inv g d \<longleftrightarrow> bs_ok (dfs_visited d) \<and> domain_size (dfs_visited d) = num_nodes g \<and> distinct (dfs_stack d) \<and>
     set (dfs_stack d) \<subseteq> bs_elems (dfs_visited d) \<and>
     (\<forall>u \<in> bs_elems (dfs_visited d) - set (dfs_stack d). \<forall>v. (u, v) \<in> edges g \<longrightarrow> v \<in> bs_elems (dfs_visited d))"

lemma dfs_inv_new: "graph_ok g \<Longrightarrow> dfs_inv g (dfs_new g)" "bs_elems (dfs_visited (dfs_new g)) = {}"
  using bs_new_empty [of "num_nodes g"] by (auto simp: graph_ok_def dfs_inv_def dfs_new_def new_empty_def bs_elems_def)

lemma dfs_visited_nodes: "dfs_inv g d \<Longrightarrow> bs_elems (dfs_visited d) \<subseteq> {..<num_nodes g}"
  using bs.elems_in_domain [of "dfs_visited d"] by (simp add: dfs_inv_def)

lemma push_start_node_spec:
  assumes d: "dfs_inv g d" and n: "n < num_nodes g"
  shows "\<exists>d'. push_start_node d n = Some d' \<and> dfs_inv g d' \<and> bs_elems (dfs_visited d') = insert n (bs_elems (dfs_visited d)) \<and>
    dfs_stack d' = (if n \<in> bs_elems (dfs_visited d) then dfs_stack d else dfs_stack d @ [n])"
proof -
  have n': "bs_ok (dfs_visited d)" "n < domain_size (dfs_visited d)" using d n by (simp_all add: dfs_inv_def)
  obtain s' where "insert_elem (dfs_visited d) n = Some (s', n \<notin> bs_elems (dfs_visited d))" "bs_ok s'"
    "domain_size s' = domain_size (dfs_visited d)" "bs_elems s' = insert n (bs_elems (dfs_visited d))"
    using returnsE [OF bs_insert_elem [OF n']] by metis
  then show ?thesis using d by (auto simp: push_start_node_def dfs_inv_def)
qed

text \<open>One step: a node leaves the stack, and its new successors are pushed.\<close>

lemma dfs_next_spec:
  assumes g: "graph_ok g" and d: "dfs_inv g d" and st: "dfs_stack d = st @ [n]"
  shows "\<exists>d' new. dfs_next g d = Some (Some n, d') \<and> dfs_inv g d' \<and> dfs_stack d' = st @ new \<and> distinct new \<and>
    set new = edges g `` {n} - bs_elems (dfs_visited d) \<and> bs_elems (dfs_visited d') = bs_elems (dfs_visited d) \<union> edges g `` {n}"
proof -
  let ?V = "bs_elems (dfs_visited d)"
  have n: "n < num_nodes g" "n \<in> ?V" using dfs_visited_nodes [OF d] d st by (auto simp: dfs_inv_def)
  obtain vs where vs: "successors g n = Some vs" "set vs \<subseteq> {..<num_nodes g}" "edges g `` {n} = set vs"
    by (rule graph_okE [OF g n(1)])
  obtain new s' where f: "insert_filter vs (dfs_visited d) = Some (new, s')" "bs_ok s'" "domain_size s' = num_nodes g"
    "bs_elems s' = ?V \<union> set vs" "distinct new" "set new = set vs - ?V"
    using insert_filter_spec [of "dfs_visited d" vs] d vs(2) by (auto simp: dfs_inv_def)
  have "dfs_inv g \<lparr>dfs_stack = st @ new, dfs_visited = s'\<rparr>"
  proof -
    have V: "distinct (st @ [n])" "set st \<subseteq> ?V" "\<forall>u \<in> ?V - set (st @ [n]). \<forall>v. (u, v) \<in> edges g \<longrightarrow> v \<in> ?V"
      using d st by (auto simp: dfs_inv_def)
    have "v \<in> ?V \<union> set vs" if "u \<in> ?V \<union> set vs - set (st @ new)" "(u, v) \<in> edges g" for u v
    proof (cases "u = n")
      case True
      then show ?thesis using that(2) vs(3) by auto
    next
      case False
      then have "u \<in> ?V - set (st @ [n])" using that(1) f(6) by auto
      then show ?thesis using V(3) that(2) by blast
    qed
    moreover have "distinct (st @ new)" using V(1,2) f(5,6) by auto
    moreover have "set (st @ new) \<subseteq> ?V \<union> set vs" using V(2) f(6) by auto
    ultimately show ?thesis using f(2-4) unfolding dfs_inv_def by simp
  qed
  then show ?thesis using f st vs(1,3) by (auto simp: dfs_next_def)
qed

text \<open>The whole search.\<close>

lemma dfs_collect_spec:
  assumes "graph_ok g" and "dfs_inv g d"
  shows "\<exists>items d'. dfs_collect g d = Some (items, d') \<and> dfs_inv g d' \<and> dfs_stack d' = [] \<and> distinct items \<and>
    set items = set (dfs_stack d) \<union> (bs_elems (dfs_visited d') - bs_elems (dfs_visited d)) \<and>
    bs_elems (dfs_visited d) \<subseteq> bs_elems (dfs_visited d') \<and>
    bs_elems (dfs_visited d') \<subseteq> bs_elems (dfs_visited d) \<union> (edges g)\<^sup>* `` set (dfs_stack d)"
  using assms(2)
proof (induction "num_nodes g - card (bs_elems (dfs_visited d)) + length (dfs_stack d)" arbitrary: d rule: less_induct)
  case less
  let ?V = "bs_elems (dfs_visited d)" and ?E = "edges g"
  show ?case
  proof (cases "dfs_stack d" rule: rev_cases)
    case Nil
    then show ?thesis using less.prems by (subst dfs_collect.simps) (simp add: dfs_next_def)
  next
    case (snoc st n)
    obtain d1 new where d1: "dfs_next g d = Some (Some n, d1)" "dfs_inv g d1" "dfs_stack d1 = st @ new" "distinct new"
      "set new = ?E `` {n} - ?V" "bs_elems (dfs_visited d1) = ?V \<union> ?E `` {n}"
      using dfs_next_spec [OF assms(1) less.prems snoc] by blast
    let ?V1 = "bs_elems (dfs_visited d1)"
    have V: "?V1 = ?V \<union> set new" "?V \<inter> set new = {}" "finite ?V1"
      using d1(5,6) dfs_visited_nodes [OF d1(2)] finite_subset by auto
    then have "card ?V1 = card ?V + length new" using card_Un_disjoint [of ?V "set new"] distinct_card [OF d1(4)] by simp
    moreover have "card ?V1 \<le> num_nodes g" using card_mono [OF _ dfs_visited_nodes [OF d1(2)]] by simp
    ultimately have "num_nodes g - card ?V1 + length (dfs_stack d1) < num_nodes g - card ?V + length (dfs_stack d)"
      using d1(3) snoc by simp
    from less.hyps [OF this d1(2)] obtain items d' where IH: "dfs_collect g d1 = Some (items, d')" "dfs_inv g d'" "dfs_stack d' = []"
      "distinct items" "set items = set (dfs_stack d1) \<union> (bs_elems (dfs_visited d') - ?V1)" "?V1 \<subseteq> bs_elems (dfs_visited d')"
      "bs_elems (dfs_visited d') \<subseteq> ?V1 \<union> ?E\<^sup>* `` set (dfs_stack d1)"
      by blast
    have st: "distinct (st @ [n])" "set (st @ [n]) \<subseteq> ?V" using less.prems snoc by (simp_all add: dfs_inv_def)
    have "dfs_collect g d = Some (n # items, d')" by (subst dfs_collect.simps) (simp add: d1(1) IH(1))
    moreover have "distinct (n # items)" using IH(4,5) d1(3,5) st V(1) by auto
    moreover have "set (n # items) = set (dfs_stack d) \<union> (bs_elems (dfs_visited d') - ?V)"
      using IH(5,6) d1(3) snoc V(1,2) by auto
    moreover have "?V1 \<union> ?E\<^sup>* `` set (dfs_stack d1) \<subseteq> ?V \<union> ?E\<^sup>* `` set (dfs_stack d)"
    proof -
      have "new' \<in> ?E\<^sup>* `` set (dfs_stack d)" if "new' \<in> ?E\<^sup>* `` set new" for new'
        using that d1(5) snoc by (auto intro: converse_rtrancl_into_rtrancl)
      moreover have "set new \<subseteq> ?E\<^sup>* `` set new" by auto
      ultimately show ?thesis using V(1) d1(3) snoc by auto
    qed
    moreover have "?V \<subseteq> bs_elems (dfs_visited d')" using IH(6) V(1) by simp
    ultimately show ?thesis using IH(2,3) order_trans [OF IH(7)] by (intro exI [of _ "n # items"] exI [of _ d'] conjI) simp_all
  qed
qed

lemma push_start_nodes_spec:
  assumes "dfs_inv g d" and "set ns \<subseteq> {..<num_nodes g}"
  shows "\<exists>d'. for_loop (\<lambda>n d. push_start_node d n) ns d = Some d' \<and> dfs_inv g d' \<and>
    bs_elems (dfs_visited d') = bs_elems (dfs_visited d) \<union> set ns \<and> set (dfs_stack d') = set (dfs_stack d) \<union> (set ns - bs_elems (dfs_visited d))"
  using assms
proof (induction ns arbitrary: d)
  case (Cons n ns)
  then have "n < num_nodes g" by simp
  from push_start_node_spec [OF Cons.prems(1) this] obtain d1 where d1: "push_start_node d n = Some d1" "dfs_inv g d1"
    "bs_elems (dfs_visited d1) = insert n (bs_elems (dfs_visited d))"
    "dfs_stack d1 = (if n \<in> bs_elems (dfs_visited d) then dfs_stack d else dfs_stack d @ [n])" by blast
  with Cons.IH [OF d1(2)] Cons.prems(2) show ?case by (auto split: if_splits)
qed simp

lemma closed_rtrancl: "\<forall>u \<in> X. \<forall>v. (u, v) \<in> R \<longrightarrow> v \<in> X \<Longrightarrow> A \<subseteq> X \<Longrightarrow> R\<^sup>* `` A \<subseteq> X"
proof
  fix y assume c: "\<forall>u \<in> X. \<forall>v. (u, v) \<in> R \<longrightarrow> v \<in> X" and "A \<subseteq> X" "y \<in> R\<^sup>* `` A"
  then obtain x where "(x, y) \<in> R\<^sup>*" "x \<in> X" by auto
  then show "y \<in> X" by (induction rule: rtrancl_induct) (use c in auto)
qed

text \<open>
  C20: the depth-first search. From any start nodes pushed onto a new search, the iterator
  returns, and yields every node that is reachable from one of them, each exactly once; after
  that, \<open>visited\<close> says which nodes are reachable.
\<close>

theorem dfs_reachable:
  assumes "graph_ok g" and "set ns \<subseteq> {..<num_nodes g}"
  shows "\<exists>d items d'. for_loop (\<lambda>n d. push_start_node d n) ns (dfs_new g) = Some d \<and> dfs_collect g d = Some (items, d') \<and>
    distinct items \<and> set items = (edges g)\<^sup>* `` set ns \<and> complete_search g d = Some d' \<and>
    (\<forall>v < num_nodes g. dfs_is_visited d' v = Some (v \<in> (edges g)\<^sup>* `` set ns))"
proof -
  note new = dfs_inv_new(1) [OF assms(1)]
  obtain d where d: "for_loop (\<lambda>n d. push_start_node d n) ns (dfs_new g) = Some d" "dfs_inv g d" "bs_elems (dfs_visited d) = set ns"
    "set (dfs_stack d) = set ns"
    using push_start_nodes_spec [OF new assms(2)] dfs_inv_new(2) [of g] by (auto simp: dfs_new_def)
  obtain items d' where c: "dfs_collect g d = Some (items, d')" "dfs_inv g d'" "dfs_stack d' = []" "distinct items"
    "set items = set ns \<union> (bs_elems (dfs_visited d') - set ns)" "set ns \<subseteq> bs_elems (dfs_visited d')"
    "bs_elems (dfs_visited d') \<subseteq> set ns \<union> (edges g)\<^sup>* `` set ns"
    using dfs_collect_spec [OF assms(1) d(2)] d(3,4) by auto
  have "(edges g)\<^sup>* `` set ns \<subseteq> bs_elems (dfs_visited d')" by (rule closed_rtrancl [OF _ c(6)]) (use c(2,3) in \<open>auto simp: dfs_inv_def\<close>)
  then have V: "bs_elems (dfs_visited d') = (edges g)\<^sup>* `` set ns" using c(7) by auto
  moreover have "dfs_is_visited d' v = Some (v \<in> bs_elems (dfs_visited d'))" if "v < num_nodes g" for v
    using that c(2) bs_contains.contains_elem by (simp add: dfs_is_visited_def dfs_inv_def)
  ultimately show ?thesis using d(1) c(1,4,5,6) by (auto simp: complete_search_def)
qed

theorem dfs_reachable_witness:
  "\<exists>vg g d items. vg_new 3 [(0, 1), (1, 0)] = Some vg \<and> vg_graph vg = Some g \<and> depth_first_search_from g 0 = Some d \<and>
     map_option fst (dfs_collect g d) = Some items \<and> set items = {(0, 1), (1, 0)}\<^sup>* `` {0}"
proof -
  let ?es = "[(0, 1), (1, 0)] :: (nat \<times> nat) list"
  obtain vg where vg: "vg_new 3 ?es = Some vg" "vg_graph vg = Some (vg_view vg)" "num_nodes (vg_view vg) = 3" "graph_ok (vg_view vg)"
    "edges (vg_view vg) = set ?es"
    by (rule vg_new_graph [of 3 ?es]) simp_all
  show ?thesis using dfs_reachable [of "vg_view vg" "[0]"] vg
    by (auto simp: depth_first_search_from_def with_start_node_def)
qed

subsection \<open>Work queues\<close>

definition wq_ok :: "work_queue \<Rightarrow> bool" where
  "wq_ok q \<longleftrightarrow> bs_ok (wq_set q) \<and> distinct (wq_deque q) \<and> set (wq_deque q) = bs_elems (wq_set q)"

lemma wq_operations:
  assumes q: "wq_ok q"
  shows "e < domain_size (wq_set q) \<Longrightarrow> \<exists>q'. wq_insert q e = Some (q', e \<notin> set (wq_deque q)) \<and> wq_ok q' \<and>
      wq_deque q' = (if e \<in> set (wq_deque q) then wq_deque q else wq_deque q @ [e])"
    and "wq_deque q = [] \<Longrightarrow> wq_pop q = Some (q, None)"
    and "wq_deque q = x # xs \<Longrightarrow> \<exists>q'. wq_pop q = Some (q', Some x) \<and> wq_ok q' \<and> wq_deque q' = xs"
proof -
  assume e: "e < domain_size (wq_set q)"
  obtain s' where "insert_elem (wq_set q) e = Some (s', e \<notin> bs_elems (wq_set q))" "bs_ok s'" "bs_elems s' = insert e (bs_elems (wq_set q))"
    using returnsE [OF bs_insert_elem [OF _ e]] q by (metis wq_ok_def)
  then show "\<exists>q'. wq_insert q e = Some (q', e \<notin> set (wq_deque q)) \<and> wq_ok q' \<and>
      wq_deque q' = (if e \<in> set (wq_deque q) then wq_deque q else wq_deque q @ [e])"
    using q by (auto simp: wq_insert_def wq_ok_def)
next
  assume x: "wq_deque q = x # xs"
  have "x < domain_size (wq_set q)" using q x bs.elems_in_domain [of "wq_set q"] by (auto simp: wq_ok_def)
  then obtain s' where "remove (wq_set q) x = Some (s', x \<in> bs_elems (wq_set q))" "bs_ok s'" "bs_elems s' = bs_elems (wq_set q) - {x}"
    using returnsE [OF bs_remove_elem] q by (metis wq_ok_def)
  then show "\<exists>q'. wq_pop q = Some (q', Some x) \<and> wq_ok q' \<and> wq_deque q' = xs"
    using q x by (auto simp: wq_pop_def wq_ok_def)
qed (simp add: wq_pop_def)

end
