(* ===== verification/Graph_Cycles.thy ===== *)
theory Graph_Cycles
  imports Graph_Search
begin

text \<open>
  The search with three colours finds a back edge exactly when a cycle is reachable: the
  \<open>Settled\<close> events on the stack are the nodes in progress, and a node in progress reaches every
  node above it.
\<close>

definition in_progress :: "event list \<Rightarrow> nat list" where
  "in_progress S = map ev_node (filter (\<lambda>e. ev_becomes e = Settled) S)"

lemma in_progress_simps [simp]:
  "in_progress [] = []" "in_progress (A @ B) = in_progress A @ in_progress B"
  "in_progress (e # S) = (if ev_becomes e = Settled then ev_node e # in_progress S else in_progress S)"
  by (simp_all add: in_progress_def)

text \<open>The successors of a node in progress are settled or have an event above it.\<close>

definition pending :: "(nat \<times> nat) set \<Rightarrow> nat set \<Rightarrow> event list \<Rightarrow> bool" where
  "pending E X S \<longleftrightarrow> (\<forall>A e B. S = A @ e # B \<longrightarrow> ev_becomes e = Settled \<longrightarrow> E `` {ev_node e} \<subseteq> X \<union> ev_node ` set B)"

definition reaches_above :: "(nat \<times> nat) set \<Rightarrow> event list \<Rightarrow> bool" where
  "reaches_above E S \<longleftrightarrow> sorted_wrt (\<lambda>a b. ev_becomes a = Settled \<longrightarrow> (ev_node a, ev_node b) \<in> E\<^sup>+) S"

definition acyclic_closed :: "(nat \<times> nat) set \<Rightarrow> nat set \<Rightarrow> bool" where
  "acyclic_closed E X \<longleftrightarrow> (\<forall>x \<in> X. E `` {x} \<subseteq> X \<and> (x, x) \<notin> E\<^sup>+)"

definition tri_inv :: "graph \<Rightarrow> nat \<Rightarrow> tri_color_search \<Rightarrow> bool" where
  "tri_inv g root t \<longleftrightarrow>
     bs_ok (tri_visited t) \<and> bs_ok (tri_settled t) \<and> domain_size (tri_visited t) = num_nodes g \<and> domain_size (tri_settled t) = num_nodes g \<and>
     bs_elems (tri_settled t) \<subseteq> bs_elems (tri_visited t) \<and>
     distinct (in_progress (tri_stack t)) \<and> set (in_progress (tri_stack t)) = bs_elems (tri_visited t) - bs_elems (tri_settled t) \<and>
     reaches_above (edges g) (tri_stack t) \<and> pending (edges g) (bs_elems (tri_settled t)) (tri_stack t) \<and>
     acyclic_closed (edges g) (bs_elems (tri_settled t)) \<and>
     (\<forall>e \<in> set (tri_stack t). ev_node e < num_nodes g \<and> (root, ev_node e) \<in> (edges g)\<^sup>*) \<and>
     root \<in> bs_elems (tri_settled t) \<union> ev_node ` set (tri_stack t)"

subsection \<open>The parts of the invariant\<close>

lemma acyclic_closed_insert:
  assumes "acyclic_closed E X" and "E `` {n} \<subseteq> X" and "n \<notin> X"
  shows "acyclic_closed E (insert n X)"
proof -
  have "(n, n) \<notin> E\<^sup>+"
  proof
    assume "(n, n) \<in> E\<^sup>+"
    then obtain y where "(n, y) \<in> E" "(y, n) \<in> E\<^sup>*" by (meson tranclD)
    then have "n \<in> E\<^sup>* `` X" using assms(2) by auto
    moreover have "E\<^sup>* `` X \<subseteq> X" by (rule closed_rtrancl) (use assms(1) in \<open>auto simp: acyclic_closed_def\<close>)
    ultimately show False using assms(3) by blast
  qed
  then show ?thesis using assms by (auto simp: acyclic_closed_def)
qed

lemma pending_last: "pending E X (S @ [e]) \<Longrightarrow> ev_becomes e = Settled \<Longrightarrow> E `` {ev_node e} \<subseteq> X"
  unfolding pending_def by (drule spec [of _ S], drule spec [of _ e], drule spec [of _ "[]"]) simp

text \<open>The last event is replaced by events that stand for its node.\<close>

lemma pending_replace:
  assumes p: "pending E X (S @ [e])" and X: "X \<subseteq> X'" and e: "ev_node e \<in> X' \<union> ev_node ` set new"
    and new: "pending E X' new"
  shows "pending E X' (S @ new)"
  unfolding pending_def
proof (intro allI impI)
  fix A a B
  assume S: "S @ new = A @ a # B" and a: "ev_becomes a = Settled"
  consider (old) B' where "S = A @ a # B'" "B = B' @ new" | (new) A' where "new = A' @ a # B"
  proof -
    from S obtain us where "S = A @ us \<and> us @ new = a # B \<or> S @ us = A \<and> new = us @ a # B" unfolding append_eq_append_conv2 by blast
    then show thesis
    proof (elim disjE conjE)
      assume "S = A @ us" "us @ new = a # B"
      then show thesis using old new [of "[]"] by (cases us) auto
    qed (rule new)
  qed
  then show "E `` {ev_node a} \<subseteq> X' \<union> ev_node ` set B"
  proof cases
    case old
    then have "S @ [e] = A @ a # (B' @ [e])" by simp
    then have "E `` {ev_node a} \<subseteq> X \<union> ev_node ` set (B' @ [e])" using p a unfolding pending_def by blast
    then show ?thesis using X e old(2) by auto
  next
    case (new A')
    then show ?thesis using assms(4) a unfolding pending_def by blast
  qed
qed

lemma pending_pop: "pending E X (S @ [e]) \<Longrightarrow> X \<subseteq> X' \<Longrightarrow> ev_node e \<in> X' \<Longrightarrow> pending E X' S"
  using pending_replace [of E X S e X' "[]"] by (simp add: pending_def)

lemma pending_Visited: "\<forall>e \<in> set S. ev_becomes e = Visited \<Longrightarrow> pending E X S"
  by (auto simp: pending_def)

lemma pending_node:
  "E `` {n} \<subseteq> set ms \<Longrightarrow> pending E X (\<lparr>ev_node = n, ev_becomes = Settled\<rparr> # map (\<lambda>m. \<lparr>ev_node = m, ev_becomes = Visited\<rparr>) ms)"
proof -
  let ?vs = "map (\<lambda>m. \<lparr>ev_node = m, ev_becomes = Visited\<rparr>) ms"
  assume E: "E `` {n} \<subseteq> set ms"
  show ?thesis unfolding pending_def
  proof (intro allI impI)
    fix A e B
    assume S: "\<lparr>ev_node = n, ev_becomes = Settled\<rparr> # ?vs = A @ e # B" and e: "ev_becomes e = Settled"
    show "E `` {ev_node e} \<subseteq> X \<union> ev_node ` set B"
    proof (cases A)
      case Nil
      then have "e = \<lparr>ev_node = n, ev_becomes = Settled\<rparr>" "B = ?vs" using S by simp_all
      then show ?thesis using E by (auto simp: image_image)
    next
      case (Cons a A')
      then have "e \<in> set ?vs" using S by simp
      then show ?thesis using e by auto
    qed
  qed
qed

lemma reaches_above_node:
  assumes r: "reaches_above E (S @ [e])" and e: "ev_node e = n" and E: "set ms \<subseteq> E `` {n}"
  shows "reaches_above E (S @ \<lparr>ev_node = n, ev_becomes = Settled\<rparr> # map (\<lambda>m. \<lparr>ev_node = m, ev_becomes = Visited\<rparr>) ms)"
proof -
  have "(ev_node a, m) \<in> E\<^sup>+" if "a \<in> set S" "ev_becomes a = Settled" "m \<in> set ms" for a m
  proof -
    have "(ev_node a, n) \<in> E\<^sup>+" using r e that(1,2) by (auto simp: reaches_above_def sorted_wrt_append)
    moreover have "(n, m) \<in> E" using E that(3) by auto
    ultimately show ?thesis by (rule trancl_into_trancl)
  qed
  moreover have "sorted_wrt (\<lambda>a b. ev_becomes a = Settled \<longrightarrow> (ev_node a, ev_node b) \<in> E\<^sup>+) (map (\<lambda>m. \<lparr>ev_node = m, ev_becomes = Visited\<rparr>) ms)"
    by (simp add: sorted_wrt_map)
  ultimately show ?thesis using r e E by (auto simp: reaches_above_def sorted_wrt_append)
qed

lemma cycle_detector:
  "node_examined CycleDetector s n p = (if p = Some Visited then Break () else Continue, s)" "node_settled CycleDetector s n = (Continue, s)"
  "ignore_edge CycleDetector s n m = (False, s)"
  by (simp_all add: CycleDetector_def)

lemma push_successors_cycle:
  "push_successors CycleDetector s n ms = (map (\<lambda>m. \<lparr>ev_node = m, ev_becomes = Visited\<rparr>) ms, s)"
  by (induction ms) (simp_all add: cycle_detector)

lemma tri_inv_new: "graph_ok g \<Longrightarrow> root < num_nodes g \<Longrightarrow> tri_inv g root ((tri_new g)\<lparr>tri_stack := [\<lparr>ev_node = root, ev_becomes = Visited\<rparr>]\<rparr>)"
  using bs_new_empty [of "num_nodes g"]
  by (auto simp: tri_inv_def tri_new_def graph_ok_def new_empty_def reaches_above_def acyclic_closed_def intro: pending_Visited)

subsection \<open>The steps\<close>

text \<open>What the search decides.\<close>

definition reachable_cycle :: "(nat \<times> nat) set \<Rightarrow> nat \<Rightarrow> bool" where
  "reachable_cycle E root \<longleftrightarrow> (\<exists>v. (root, v) \<in> E\<^sup>* \<and> (v, v) \<in> E\<^sup>+)"

lemma tri_done:
  assumes "tri_inv g root t" and "tri_stack t = []"
  shows "\<not> reachable_cycle (edges g) root"
proof -
  let ?X = "bs_elems (tri_settled t)"
  have X: "acyclic_closed (edges g) ?X" "root \<in> ?X" using assms by (auto simp: tri_inv_def)
  have "(edges g)\<^sup>* `` {root} \<subseteq> ?X" by (rule closed_rtrancl) (use X in \<open>auto simp: acyclic_closed_def\<close>)
  then show ?thesis using X(1) by (auto simp: reachable_cycle_def acyclic_closed_def)
qed

lemma tri_settle:
  assumes t: "tri_inv g root t" and st: "tri_stack t = st @ [e]" and e: "ev_becomes e = Settled"
  shows "\<exists>s'. insert_elem (tri_settled t) (ev_node e) = Some (s', True) \<and> tri_inv g root (t\<lparr>tri_stack := st, tri_settled := s'\<rparr>)"
proof -
  let ?n = "ev_node e" and ?X = "bs_elems (tri_settled t)" and ?E = "edges g"
  have n: "?n < num_nodes g" "?n \<in> bs_elems (tri_visited t)" "?n \<notin> ?X" using t st e by (auto simp: tri_inv_def)
  obtain s' where s': "insert_elem (tri_settled t) ?n = Some (s', True)" "bs_ok s'" "domain_size s' = num_nodes g" "bs_elems s' = insert ?n ?X"
    using returnsE [OF bs_insert_elem [of "tri_settled t" ?n]] t n(1,3) by (auto simp: tri_inv_def)
  have succ: "?E `` {?n} \<subseteq> ?X" using pending_last [of ?E ?X st e] t st e by (simp add: tri_inv_def)
  have "acyclic_closed ?E (insert ?n ?X)" by (rule acyclic_closed_insert) (use t succ n(3) in \<open>simp_all add: tri_inv_def\<close>)
  moreover have "pending ?E (insert ?n ?X) st" using pending_pop [of ?E ?X st e "insert ?n ?X"] t st by (auto simp: tri_inv_def)
  moreover have "reaches_above ?E st" using t st by (simp add: tri_inv_def reaches_above_def sorted_wrt_append)
  moreover have "distinct (in_progress st)" "set (in_progress st) = bs_elems (tri_visited t) - insert ?n ?X"
    using t st e by (auto simp: tri_inv_def)
  ultimately have "tri_inv g root (t\<lparr>tri_stack := st, tri_settled := s'\<rparr>)" using t st s' n(2) by (auto simp: tri_inv_def)
  then show ?thesis using s'(1) by blast
qed

text \<open>An event for a node that has been visited: a back edge, or a node that is settled.\<close>

lemma tri_visited_again:
  assumes t: "tri_inv g root t" and st: "tri_stack t = st @ [e]" and e: "ev_becomes e = Visited" and v: "ev_node e \<in> bs_elems (tri_visited t)"
  shows "ev_node e \<notin> bs_elems (tri_settled t) \<Longrightarrow> reachable_cycle (edges g) root"
    and "ev_node e \<in> bs_elems (tri_settled t) \<Longrightarrow> bs_ok s' \<Longrightarrow> domain_size s' = num_nodes g \<Longrightarrow> bs_elems s' = bs_elems (tri_visited t) \<Longrightarrow>
      tri_inv g root (t\<lparr>tri_stack := st, tri_visited := s'\<rparr>)"
proof -
  let ?n = "ev_node e" and ?X = "bs_elems (tri_settled t)" and ?E = "edges g"
  assume "?n \<notin> ?X"
  then have "?n \<in> set (in_progress st)" using t st e v by (auto simp: tri_inv_def)
  then obtain a where a: "a \<in> set st" "ev_becomes a = Settled" "ev_node a = ?n" by (auto simp: in_progress_def)
  then have "(?n, ?n) \<in> ?E\<^sup>+" using t st by (auto simp: tri_inv_def reaches_above_def sorted_wrt_append)
  moreover have "(root, ?n) \<in> ?E\<^sup>*" using t st by (simp add: tri_inv_def)
  ultimately show "reachable_cycle ?E root" unfolding reachable_cycle_def by blast
next
  let ?n = "ev_node e" and ?X = "bs_elems (tri_settled t)" and ?E = "edges g"
  assume X: "?n \<in> ?X" and s': "bs_ok s'" "domain_size s' = num_nodes g" "bs_elems s' = bs_elems (tri_visited t)"
  have "pending ?E ?X st" using pending_pop [of ?E ?X st e ?X] t st X by (simp add: tri_inv_def)
  moreover have "reaches_above ?E st" using t st by (simp add: tri_inv_def reaches_above_def sorted_wrt_append)
  ultimately show "tri_inv g root (t\<lparr>tri_stack := st, tri_visited := s'\<rparr>)" using t st e X s' by (auto simp: tri_inv_def)
qed

lemma tri_visit:
  assumes g: "graph_ok g" and t: "tri_inv g root t" and st: "tri_stack t = st @ [e]" and e: "ev_becomes e = Visited"
    and v: "ev_node e \<notin> bs_elems (tri_visited t)" and s': "bs_ok s'" "domain_size s' = num_nodes g" "bs_elems s' = insert (ev_node e) (bs_elems (tri_visited t))"
    and vs: "edges g `` {ev_node e} = set vs" "set vs \<subseteq> {..<num_nodes g}"
  shows "tri_inv g root (t\<lparr>tri_stack := st @ \<lparr>ev_node = ev_node e, ev_becomes = Settled\<rparr> # map (\<lambda>m. \<lparr>ev_node = m, ev_becomes = Visited\<rparr>) vs,
     tri_visited := s'\<rparr>)"
proof -
  let ?n = "ev_node e" and ?X = "bs_elems (tri_settled t)" and ?E = "edges g"
  let ?new = "\<lparr>ev_node = ?n, ev_becomes = Settled\<rparr> # map (\<lambda>m. \<lparr>ev_node = m, ev_becomes = Visited\<rparr>) vs"
  have n: "?n < num_nodes g" "(root, ?n) \<in> ?E\<^sup>*" "?n \<notin> ?X" using t st v by (auto simp: tri_inv_def)
  have "in_progress (map (\<lambda>m. \<lparr>ev_node = m, ev_becomes = Visited\<rparr>) vs) = []" by (simp add: in_progress_def)
  then have ip: "in_progress (st @ ?new) = in_progress (tri_stack t) @ [?n]" using st e by simp
  have "pending ?E ?X (st @ ?new)"
    using pending_replace [of ?E ?X st e ?X ?new] pending_node [of ?E ?n vs ?X] t st vs(1) by (simp add: tri_inv_def)
  moreover have "reaches_above ?E (st @ ?new)" by (rule reaches_above_node) (use t st vs(1) in \<open>auto simp: tri_inv_def\<close>)
  moreover have "\<forall>a \<in> set (st @ ?new). ev_node a < num_nodes g \<and> (root, ev_node a) \<in> ?E\<^sup>*"
    using t st n(1,2) vs by (auto simp: tri_inv_def intro: rtrancl_into_rtrancl)
  moreover have "distinct (in_progress (st @ ?new))" "set (in_progress (st @ ?new)) = bs_elems s' - ?X"
    unfolding ip using t v n(3) s'(3) by (auto simp: tri_inv_def)
  ultimately show ?thesis using t st s' by (auto simp: tri_inv_def)
qed

subsection \<open>The loop\<close>

lemma tri_loop_cycle:
  assumes g: "graph_ok g" and "tri_inv g root t"
  shows "\<exists>r. tri_loop g CycleDetector () t = Some (r, ()) \<and> (r \<noteq> None \<longleftrightarrow> reachable_cycle (edges g) root)"
  using assms(2)
proof (induction t rule: wf_induct_rule [OF wf_measures [of "[\<lambda>t. num_nodes g - card (bs_elems (tri_visited t)), \<lambda>t. length (tri_stack t)]"]])
  case (1 t)
  note t = 1(2) and IH = 1(1)
  let ?V = "bs_elems (tri_visited t)" and ?X = "bs_elems (tri_settled t)"
  show ?case
  proof (cases "tri_stack t" rule: rev_cases)
    case Nil
    then show ?thesis using tri_done [OF t] by (subst tri_loop.simps) simp
  next
    case (snoc st e)
    have n: "ev_node e < num_nodes g" using t snoc by (simp add: tri_inv_def)
    show ?thesis
    proof (cases "ev_becomes e")
      case Settled
      obtain s' where s': "insert_elem (tri_settled t) (ev_node e) = Some (s', True)" "tri_inv g root (t\<lparr>tri_stack := st, tri_settled := s'\<rparr>)"
        using tri_settle [OF t snoc Settled] by blast
      have "tri_loop g CycleDetector () t = tri_loop g CycleDetector () (t\<lparr>tri_stack := st, tri_settled := s'\<rparr>)"
        by (subst tri_loop.simps) (simp add: snoc Settled s'(1) cycle_detector)
      then show ?thesis using IH [OF _ s'(2)] snoc by simp
    next
      case Visited
      obtain s' where s': "insert_elem (tri_visited t) (ev_node e) = Some (s', ev_node e \<notin> ?V)" "bs_ok s'" "domain_size s' = num_nodes g"
        "bs_elems s' = insert (ev_node e) ?V"
        using returnsE [OF bs_insert_elem [of "tri_visited t" "ev_node e"]] t n by (auto simp: tri_inv_def)
      have c: "contains (tri_settled t) (ev_node e) = Some (ev_node e \<in> ?X)"
        using bs_contains.contains_elem t n by (simp add: tri_inv_def)
      note step = tri_loop.simps [of g CycleDetector "()" t, simplified snoc vec_pop_simps]
      consider (again) "ev_node e \<in> ?V" "ev_node e \<notin> ?X" | (settled) "ev_node e \<in> ?V" "ev_node e \<in> ?X" | (new) "ev_node e \<notin> ?V" by blast
      then show ?thesis
      proof cases
        case again
        then show ?thesis using tri_visited_again(1) [OF t snoc Visited] by (simp add: step Visited s'(1) c cycle_detector)
      next
        case settled
        then have "tri_inv g root (t\<lparr>tri_stack := st, tri_visited := s'\<rparr>)"
          using tri_visited_again(2) [OF t snoc Visited settled(1,2) s'(2,3)] s'(4) by (simp add: insert_absorb)
        moreover have "tri_loop g CycleDetector () t = tri_loop g CycleDetector () (t\<lparr>tri_stack := st, tri_visited := s'\<rparr>)"
          using settled by (simp add: step Visited s'(1) c cycle_detector)
        ultimately show ?thesis using IH [of "t\<lparr>tri_stack := st, tri_visited := s'\<rparr>"] snoc s'(4) settled(1) by (simp add: insert_absorb)
      next
        case new
        obtain vs where vs: "successors g (ev_node e) = Some vs" "set vs \<subseteq> {..<num_nodes g}" "edges g `` {ev_node e} = set vs"
          by (rule graph_okE [OF g n])
        let ?t = "t\<lparr>tri_stack := st @ \<lparr>ev_node = ev_node e, ev_becomes = Settled\<rparr> # map (\<lambda>m. \<lparr>ev_node = m, ev_becomes = Visited\<rparr>) vs, tri_visited := s'\<rparr>"
        have inv: "tri_inv g root ?t" by (rule tri_visit [OF g t snoc Visited new s'(2-4) vs(3,2)])
        have "bs_elems s' \<subseteq> {..<num_nodes g}" using bs.elems_in_domain [OF s'(2)] s'(3) by simp
        then have "card (bs_elems s') \<le> num_nodes g" "finite ?V" using card_mono [of "{..<num_nodes g}"] s'(4) finite_subset by auto
        then have "num_nodes g - card (bs_elems s') < num_nodes g - card ?V" using new s'(4) by simp
        moreover have "tri_loop g CycleDetector () t = tri_loop g CycleDetector () ?t"
          using new by (simp add: step Visited s'(1) vs(1) push_successors_cycle cycle_detector)
        ultimately show ?thesis using IH [of ?t] inv by simp
      qed
    qed
  qed
qed

text \<open>
  C22: cycle detection. On every graph, \<open>is_cyclic\<close> returns, no assertion of the search fails,
  and it returns \<open>true\<close> exactly when a node that is reachable from the start node lies on a cycle.
\<close>

theorem is_cyclic_correct:
  assumes "graph_ok g" and "start < num_nodes g"
  shows "is_cyclic g start = Some (\<exists>v. (start, v) \<in> (edges g)\<^sup>* \<and> (v, v) \<in> (edges g)\<^sup>+)"
proof -
  obtain r where "tri_loop g CycleDetector () ((tri_new g)\<lparr>tri_stack := [\<lparr>ev_node = start, ev_becomes = Visited\<rparr>]\<rparr>) = Some (r, ())"
    "r \<noteq> None \<longleftrightarrow> reachable_cycle (edges g) start"
    using tri_loop_cycle [OF assms(1) tri_inv_new [OF assms]] by blast
  then show ?thesis by (simp add: is_cyclic_def run_from_def tri_new_def reachable_cycle_def)
qed

theorem is_cyclic_correct_witness:
  "\<exists>vg g. vg_new 3 [(0, 1), (1, 2), (2, 1)] = Some vg \<and> vg_graph vg = Some g \<and> is_cyclic g 0 = Some True"
proof -
  let ?es = "[(0, 1), (1, 2), (2, 1)] :: (nat \<times> nat) list"
  obtain vg where vg: "vg_new 3 ?es = Some vg" "vg_graph vg = Some (vg_view vg)" "num_nodes (vg_view vg) = 3" "graph_ok (vg_view vg)"
    "edges (vg_view vg) = set ?es"
    by (rule vg_new_graph [of 3 ?es]) simp_all
  have "is_cyclic (vg_view vg) 0 = Some (\<exists>x. (0, x) \<in> (edges (vg_view vg))\<^sup>* \<and> (x, x) \<in> (edges (vg_view vg))\<^sup>+)"
    by (rule is_cyclic_correct) (use vg in simp_all)
  moreover have "(0, 1) \<in> (set ?es)\<^sup>*" "(1, 1) \<in> (set ?es)\<^sup>+" by (rule r_into_rtrancl, simp) (rule trancl_into_trancl [of _ 2], auto)
  ultimately show ?thesis using vg by auto
qed

end
