(* ===== verification/Graph_Post_Order.thy ===== *)
theory Graph_Post_Order
  imports Graph_Search
begin

text \<open>
  The post order of a graph: the nodes that are reachable without passing the end node, each once,
  and a node after its successors, unless they reach it again. The order of an acyclic graph,
  reversed, is topological.
\<close>

subsection \<open>The invariant\<close>

definition marked :: "bool list \<Rightarrow> nat set" where
  "marked visited = {i. i < length visited \<and> visited ! i}"

lemma marked_update: "n < length visited \<Longrightarrow> marked (visited[n := True]) = insert n (marked visited)"
  by (auto simp: marked_def nth_list_update)

lemma marked_replicate: "marked (replicate n False) = {}"
  by (auto simp: marked_def)

lemma next_unvisited_spec:
  assumes "set it \<subseteq> {..<length visited}"
  shows "next_unvisited visited it = Some None \<and> set it \<subseteq> marked visited \<or>
    (\<exists>skipped s rest. next_unvisited visited it = Some (Some (s, rest)) \<and> it = skipped @ s # rest \<and> set skipped \<subseteq> marked visited \<and> s \<notin> marked visited)"
  using assms
proof (induction it)
  case (Cons a it)
  show ?case
  proof (cases "visited ! a")
    case True
    then have a: "a \<in> marked visited" "next_unvisited visited (a # it) = next_unvisited visited it" using Cons.prems by (simp_all add: marked_def)
    consider "next_unvisited visited it = Some None \<and> set it \<subseteq> marked visited"
      | skipped s rest where "next_unvisited visited it = Some (Some (s, rest))" "it = skipped @ s # rest" "set skipped \<subseteq> marked visited" "s \<notin> marked visited"
      using Cons.IH Cons.prems by auto
    then show ?thesis
    proof cases
      case 2
      then show ?thesis using a by (intro disjI2 exI [of _ "a # skipped"] exI [of _ s] exI [of _ rest]) simp
    qed (use a in simp)
  next
    case False
    then show ?thesis using Cons.prems by (intro disjI2 exI [of _ "[]"] exI [of _ a] exI [of _ it]) (simp add: marked_def)
  qed
qed simp

text \<open>The edges that do not lead to a node of \<open>B\<close>.\<close>

definition avoiding :: "(nat \<times> nat) set \<Rightarrow> nat set \<Rightarrow> (nat \<times> nat) set" where
  "avoiding E B = {(u, v) \<in> E. v \<notin> B}"

text \<open>Every node of the order comes after its successors, or a successor reaches it.\<close>

definition after_successors :: "(nat \<times> nat) set \<Rightarrow> nat set \<Rightarrow> nat list \<Rightarrow> bool" where
  "after_successors E B r \<longleftrightarrow> (\<forall>i < length r. \<forall>v. (r ! i, v) \<in> E \<longrightarrow> v \<in> B \<or> v \<in> set (take i r) \<or> (v, r ! i) \<in> E\<^sup>+)"

definition post_inv :: "graph \<Rightarrow> nat set \<Rightarrow> nat \<Rightarrow> (nat \<times> nat list) list \<Rightarrow> nat list \<Rightarrow> bool list \<Rightarrow> bool" where
  "post_inv g B start stack result visited \<longleftrightarrow> (let F = map fst stack; E = edges g in
     length visited = num_nodes g \<and>
     B \<union> set result \<union> set (butlast F) \<subseteq> marked visited \<and> marked visited \<subseteq> B \<union> set result \<union> set F \<and>
     distinct (F @ result) \<and> set (F @ result) \<inter> B = {} \<and> set F \<subseteq> {..<num_nodes g} \<and> sorted_wrt (\<lambda>a b. (a, b) \<in> E\<^sup>+) F \<and>
     (\<forall>(n, it) \<in> set stack. set it \<subseteq> E `` {n} \<and> E `` {n} \<subseteq> set it \<union> (B \<union> set result \<union> set F)) \<and>
     (\<forall>r \<in> set result. E `` {r} \<subseteq> B \<union> set result \<union> set F) \<and> after_successors E B result \<and>
     (\<forall>n \<in> set (F @ result). (start, n) \<in> (avoiding E B)\<^sup>*) \<and> hd (F @ rev result) = start \<and> F @ result \<noteq> [])"

lemma post_invD:
  assumes "post_inv g B start stack result visited"
  shows "length visited = num_nodes g" "B \<union> set result \<union> set (butlast (map fst stack)) \<subseteq> marked visited"
    "marked visited \<subseteq> B \<union> set result \<union> set (map fst stack)" "distinct (map fst stack @ result)" "set (map fst stack @ result) \<inter> B = {}"
    "set (map fst stack) \<subseteq> {..<num_nodes g}" "sorted_wrt (\<lambda>a b. (a, b) \<in> (edges g)\<^sup>+) (map fst stack)"
    "\<forall>(n, it) \<in> set stack. set it \<subseteq> edges g `` {n} \<and> edges g `` {n} \<subseteq> set it \<union> (B \<union> set result \<union> set (map fst stack))"
    "\<forall>r \<in> set result. edges g `` {r} \<subseteq> B \<union> set result \<union> set (map fst stack)" "after_successors (edges g) B result"
    "\<forall>n \<in> set (map fst stack @ result). (start, n) \<in> (avoiding (edges g) B)\<^sup>*"
    "hd (map fst stack @ rev result) = start" "map fst stack @ result \<noteq> []"
  using assms by (simp_all add: post_inv_def Let_def)

lemma post_invI:
  assumes "length visited = num_nodes g" "B \<union> set result \<union> set (butlast (map fst stack)) \<subseteq> marked visited"
    "marked visited \<subseteq> B \<union> set result \<union> set (map fst stack)" "distinct (map fst stack @ result)" "set (map fst stack @ result) \<inter> B = {}"
    "set (map fst stack) \<subseteq> {..<num_nodes g}" "sorted_wrt (\<lambda>a b. (a, b) \<in> (edges g)\<^sup>+) (map fst stack)"
    "\<forall>(n, it) \<in> set stack. set it \<subseteq> edges g `` {n} \<and> edges g `` {n} \<subseteq> set it \<union> (B \<union> set result \<union> set (map fst stack))"
    "\<forall>r \<in> set result. edges g `` {r} \<subseteq> B \<union> set result \<union> set (map fst stack)" "after_successors (edges g) B result"
    "\<forall>n \<in> set (map fst stack @ result). (start, n) \<in> (avoiding (edges g) B)\<^sup>*"
    "hd (map fst stack @ rev result) = start" "map fst stack @ result \<noteq> []"
  shows "post_inv g B start stack result visited"
  using assms by (simp add: post_inv_def Let_def)

text \<open>After the node on top is marked, the marked nodes are known.\<close>

lemma post_inv_marked:
  assumes "post_inv g B start (st @ [(n, it)]) result visited"
  shows "n < length visited" "marked (visited[n := True]) = B \<union> set result \<union> insert n (set (map fst st))"
proof -
  note inv = post_invD [OF assms]
  show n: "n < length visited" using inv(1,6) by simp
  show "marked (visited[n := True]) = B \<union> set result \<union> insert n (set (map fst st))"
    using inv(2,3) unfolding marked_update [OF n] by auto
qed

subsection \<open>The steps\<close>

lemma after_successors_snoc:
  assumes "after_successors E B r" and "\<And>v. (n, v) \<in> E \<Longrightarrow> v \<in> B \<or> v \<in> set r \<or> (v, n) \<in> E\<^sup>+"
  shows "after_successors E B (r @ [n])"
  using assms by (auto simp: after_successors_def nth_append less_Suc_eq)

lemma post_inv_finish:
  assumes inv: "post_inv g B start (st @ [(n, it)]) result visited" and all: "set it \<subseteq> marked (visited[n := True])"
  shows "post_inv g B start st (result @ [n]) (visited[n := True])"
proof -
  note I = post_invD [OF inv] and M = post_inv_marked [OF inv]
  let ?E = "edges g"
  have succ: "?E `` {n} \<subseteq> B \<union> set result \<union> insert n (set (map fst st))" using I(8) all M(2) by auto
  have n: "(a, n) \<in> ?E\<^sup>+" if "a \<in> set (map fst st)" for a using I(7) that by (auto simp: sorted_wrt_append)
  have "v \<in> B \<or> v \<in> set result \<or> (v, n) \<in> ?E\<^sup>+" if "(n, v) \<in> ?E" for v
    using succ that n by auto
  then have ord: "after_successors ?E B (result @ [n])" by (rule after_successors_snoc [OF I(10)])
  have eq: "B \<union> set (result @ [n]) \<union> set (map fst st) = B \<union> set result \<union> set (map fst (st @ [(n, it)]))" by auto
  show ?thesis
  proof (rule post_invI)
    show "B \<union> set (result @ [n]) \<union> set (butlast (map fst st)) \<subseteq> marked (visited[n := True])"
      unfolding M(2) by (auto dest: in_set_butlastD)
    show "marked (visited[n := True]) \<subseteq> B \<union> set (result @ [n]) \<union> set (map fst st)" unfolding M(2) by auto
    show "\<forall>(k, it) \<in> set st. set it \<subseteq> ?E `` {k} \<and> ?E `` {k} \<subseteq> set it \<union> (B \<union> set (result @ [n]) \<union> set (map fst st))"
      unfolding eq using I(8) by auto
    show "\<forall>r \<in> set (result @ [n]). ?E `` {r} \<subseteq> B \<union> set (result @ [n]) \<union> set (map fst st)"
      unfolding eq using I(9) succ by auto
    show "hd (map fst st @ rev (result @ [n])) = start" using I(12) by (cases st) auto
  qed (use I ord in \<open>auto simp: sorted_wrt_append\<close>)
qed

lemma post_inv_push:
  assumes inv: "post_inv g B start (st @ [(n, it)]) result visited" and it: "it = skipped @ s # rest"
    and sk: "set skipped \<subseteq> marked (visited[n := True])" and s: "s \<notin> marked (visited[n := True])" "s < num_nodes g"
    and vs: "edges g `` {s} = set vs"
  shows "post_inv g B start (st @ [(n, rest), (s, vs)]) result (visited[n := True])"
proof -
  note I = post_invD [OF inv] and M = post_inv_marked [OF inv]
  let ?E = "edges g" and ?F = "map fst st @ [n]"
  have s': "s \<notin> B" "s \<notin> set result" "s \<notin> set ?F" using s(1) M(2) by auto
  have e: "(n, s) \<in> ?E" using I(8) it by auto
  have path: "(a, s) \<in> ?E\<^sup>+" if "a \<in> set ?F" for a
    using that I(7) e by (auto simp: sorted_wrt_append intro: trancl_into_trancl)
  have reach: "(start, s) \<in> (avoiding ?E B)\<^sup>*"
    using I(11) e s'(1) by (auto simp: avoiding_def intro: rtrancl_into_rtrancl)
  let ?S = "st @ [(n, rest), (s, vs)]"
  have F: "map fst ?S = ?F @ [s]" by simp
  show ?thesis
  proof (rule post_invI)
    show "B \<union> set result \<union> set (butlast (map fst ?S)) \<subseteq> marked (visited[n := True])" unfolding M(2) F by (auto simp: butlast_append)
    show "marked (visited[n := True]) \<subseteq> B \<union> set result \<union> set (map fst ?S)" unfolding M(2) F by auto
    show "sorted_wrt (\<lambda>a b. (a, b) \<in> ?E\<^sup>+) (map fst ?S)" unfolding F using I(7) path by (auto simp: sorted_wrt_append)
    let ?K = "B \<union> set result \<union> set (map fst ?S)"
    let ?P = "\<lambda>(k, it). set it \<subseteq> ?E `` {k} \<and> ?E `` {k} \<subseteq> set it \<union> ?K"
    have K: "B \<union> set result \<union> set (map fst (st @ [(n, it)])) \<subseteq> ?K" "set it \<subseteq> set rest \<union> ?K" unfolding it using sk M(2) by auto
    have "?P p" if "p \<in> set st" for p
    proof -
      obtain k j where p: "p = (k, j)" by (cases p)
      have "(k, j) \<in> set (st @ [(n, it)])" using that p by simp
      from bspec [OF I(8) this] have "set j \<subseteq> ?E `` {k}" "?E `` {k} \<subseteq> set j \<union> (B \<union> set result \<union> set (map fst (st @ [(n, it)])))" by simp_all
      then have "set j \<subseteq> ?E `` {k}" "?E `` {k} \<subseteq> set j \<union> ?K" using K(1) by (simp, blast)
      then show ?thesis unfolding p by (simp only: case_prod_conv conj_absorb)
    qed
    moreover have "?P (n, rest)"
    proof -
      have "set it \<subseteq> ?E `` {n}" "?E `` {n} \<subseteq> set it \<union> (B \<union> set result \<union> set (map fst (st @ [(n, it)])))" using I(8) by simp_all
      then have "set rest \<subseteq> ?E `` {n}" "?E `` {n} \<subseteq> set rest \<union> ?K" using K unfolding it by (simp, blast)
      then show ?thesis by (simp only: case_prod_conv conj_absorb)
    qed
    moreover have "?P (s, vs)" using vs by auto
    ultimately show "\<forall>p \<in> set ?S. ?P p" by (simp only: set_append ball_Un) simp
    show "hd (map fst ?S @ rev result) = start" using I(12) by (cases st) auto
  qed (use I s' s(2) reach in auto)
qed

subsection \<open>The loop\<close>

text \<open>What a post order is.\<close>

definition post_order :: "(nat \<times> nat) set \<Rightarrow> nat set \<Rightarrow> nat \<Rightarrow> nat list \<Rightarrow> bool" where
  "post_order E B start r \<longleftrightarrow> distinct r \<and> r \<noteq> [] \<and> last r = start \<and> set r = (avoiding E B)\<^sup>* `` {start} \<and> after_successors E B r"

lemma post_inv_done:
  assumes "post_inv g B start [] result visited"
  shows "post_order (edges g) B start result"
proof -
  note I = post_invD [OF assms]
  have "(avoiding (edges g) B)\<^sup>* `` {start} \<subseteq> set result"
    by (rule closed_rtrancl) (use I in \<open>auto simp: avoiding_def hd_rev\<close>)
  then show ?thesis using I by (auto simp: post_order_def hd_rev)
qed

lemma post_order_loop_spec:
  assumes g: "graph_ok g" and "post_inv g B start stack result visited"
  shows "\<exists>r visited'. post_order_loop g stack result visited = Some (r, visited') \<and> post_order (edges g) B start r"
  using assms(2)
proof (induction "(stack, result, visited)" arbitrary: stack result visited
    rule: wf_induct_rule [OF wf_measures [of "[\<lambda>(stack, result, visited). num_nodes g - card (set (map fst stack) \<union> set result), \<lambda>(stack, result, visited). length stack]"]])
  case (1 stack result visited)
  note inv = 1(2) and IH = 1(1)
  show ?case
  proof (cases stack rule: rev_cases)
    case Nil
    then show ?thesis using post_inv_done inv by (subst post_order_loop.simps) simp
  next
    case (snoc st f)
    obtain n it where f: "f = (n, it)" by (cases f)
    note inv = inv [unfolded snoc f] and step = post_order_loop.simps [of g stack result visited, simplified snoc f vec_pop_simps]
    note I = post_invD [OF inv] and M = post_inv_marked [OF inv]
    let ?v = "visited[n := True]"
    have nodes: "v < num_nodes g" if "(u, v) \<in> edges g" "u < num_nodes g" for u v
      by (rule graph_okE [OF g that(2)]) (use that(1) in auto)
    have "set it \<subseteq> edges g `` {n}" "n < num_nodes g" using I(6,8) by auto
    then have it: "set it \<subseteq> {..<length ?v}" using nodes I(1) by auto
    consider (none) "next_unvisited ?v it = Some None" "set it \<subseteq> marked ?v"
      | (some) skipped s rest where "next_unvisited ?v it = Some (Some (s, rest))" "it = skipped @ s # rest" "set skipped \<subseteq> marked ?v" "s \<notin> marked ?v"
      using next_unvisited_spec [OF it] by blast
    then show ?thesis
    proof cases
      case none
      have "set (map fst st) \<union> set (result @ [n]) = set (map fst (st @ [(n, it)])) \<union> set result" by auto
      then show ?thesis using IH [OF _ post_inv_finish [OF inv none(2)]] snoc f M(1) none(1) by (simp add: step)
    next
      case some
      have s: "s < num_nodes g" using it some(2) I(1) by simp
      obtain vs where vs: "successors g s = Some vs" "edges g `` {s} = set vs" by (rule graph_okE [OF g s])
      have inv': "post_inv g B start (st @ [(n, rest), (s, vs)]) result ?v" by (rule post_inv_push [OF inv some(2-4) s vs(2)])
      let ?old = "set (map fst (st @ [(n, it)])) \<union> set result" and ?new = "set (map fst (st @ [(n, rest), (s, vs)])) \<union> set result"
      have "?new = insert s ?old" "s \<notin> ?old" using some(4) M(2) by auto
      moreover have "?new \<subseteq> {..<num_nodes g}"
      proof -
        have "set result \<subseteq> marked visited" using I(2) by auto
        then have "set result \<subseteq> {..<num_nodes g}" using I(1) by (auto simp: marked_def)
        then show ?thesis using I(6) s by auto
      qed
      ultimately have "num_nodes g - card ?new < num_nodes g - card ?old"
        using card_mono [of "{..<num_nodes g}" ?new] by simp
      then show ?thesis using IH [OF _ inv'] snoc f M(1) some(1) vs(1) by (simp add: step)
    qed
  qed
qed

lemma post_order_from_to_spec:
  assumes g: "graph_ok g" and start: "start < num_nodes g" and e: "set_option end_node \<subseteq> {..<num_nodes g}"
  shows "if end_node = Some start then post_order_from_to g start end_node = Some []
    else \<exists>r. post_order_from_to g start end_node = Some r \<and> post_order (edges g) (set_option end_node) start r"
proof -
  obtain v0 where v0: "(case end_node of Some e \<Rightarrow> idx_set (replicate (num_nodes g) False) e True | None \<Rightarrow> Some (replicate (num_nodes g) False)) = Some v0"
    "length v0 = num_nodes g" "marked v0 = set_option end_node"
    using e marked_replicate by (cases end_node) (auto simp: marked_update)
  show ?thesis
  proof (cases "end_node = Some start")
    case True
    then show ?thesis using v0 start by (auto simp: post_order_from_to_def post_order_walk_def marked_def)
  next
    case False
    then have "\<not> v0 ! start" using v0(2,3) start by (auto simp: marked_def)
    obtain vs where vs: "successors g start = Some vs" "edges g `` {start} = set vs" by (rule graph_okE [OF g start])
    have "post_inv g (set_option end_node) start [(start, vs)] [] v0"
      by (rule post_invI) (use v0 start vs False in \<open>auto simp: after_successors_def\<close>)
    from post_order_loop_spec [OF g this] show ?thesis
      using False v0 start vs(1) \<open>\<not> v0 ! start\<close> by (auto simp: post_order_from_to_def post_order_walk_def)
  qed
qed

text \<open>
  C36: post orders. From a start node, and an end node at which the walk stops, \<open>post_order_from_to\<close>
  returns; its result has every node that is reachable without passing the end node exactly
  once, the start node last, and every node after its successors, except for those that reach
  it again (and the end node). When both nodes are the same, the result is empty.
\<close>

theorem post_order_correct:
  assumes "graph_ok g" and "start < num_nodes g" and "set_option end_node \<subseteq> {..<num_nodes g}"
  shows "if end_node = Some start then post_order_from_to g start end_node = Some []
    else \<exists>r. post_order_from_to g start end_node = Some r \<and> post_order (edges g) (set_option end_node) start r"
  by (rule post_order_from_to_spec [OF assms])

theorem post_order_correct_witness:
  "\<exists>vg g r. vg_new 3 [(0, 1), (1, 2), (0, 2)] = Some vg \<and> vg_graph vg = Some g \<and> post_order_from_to g 0 None = Some r \<and> last r = 0"
proof -
  let ?es = "[(0, 1), (1, 2), (0, 2)] :: (nat \<times> nat) list"
  obtain vg where vg: "vg_new 3 ?es = Some vg" "vg_graph vg = Some (vg_view vg)" "num_nodes (vg_view vg) = 3" "graph_ok (vg_view vg)"
    "edges (vg_view vg) = set ?es"
    by (rule vg_new_graph [of 3 ?es]) simp_all
  show ?thesis using post_order_correct [of "vg_view vg" 0 None] vg by (auto simp: post_order_def)
qed

text \<open>On an acyclic graph the reversed order is topological.\<close>

lemma reverse_post_order_topological:
  assumes "graph_ok g" and "start < num_nodes g" and "\<And>v. (v, v) \<notin> (edges g)\<^sup>+"
  shows "\<exists>r. reverse_post_order g start = Some r \<and> distinct r \<and> set r = (edges g)\<^sup>* `` {start} \<and> hd r = start \<and>
    (\<forall>i < length r. \<forall>v. (r ! i, v) \<in> edges g \<longrightarrow> v \<in> set (drop (Suc i) r))"
proof -
  obtain r where r: "post_order_from_to g start None = Some r" "post_order (edges g) {} start r"
    using post_order_from_to_spec [OF assms(1,2), of None] by auto
  have E: "avoiding (edges g) {} = edges g" by (auto simp: avoiding_def)
  have "v \<in> set (drop (Suc i) (rev r))" if i: "i < length r" "(rev r ! i, v) \<in> edges g" for i v
  proof -
    let ?j = "length r - Suc i"
    have "(r ! ?j, v) \<in> edges g" using i by (simp add: rev_nth)
    moreover from this have "(v, r ! ?j) \<notin> (edges g)\<^sup>+" using assms(3) trancl_into_trancl2 by metis
    moreover have "?j < length r" using i(1) by simp
    moreover have "after_successors (edges g) {} r" using r(2) by (simp add: post_order_def)
    ultimately have "v \<in> set (take ?j r)" unfolding after_successors_def by blast
    then show ?thesis using i by (simp add: drop_rev)
  qed
  then show ?thesis using r E by (auto simp: reverse_post_order_def post_order_from_def post_order_def hd_rev)
qed

end
