(* ===== verification/Spec2Isabelle.thy ===== *)
theory Spec2Isabelle
  imports Lexer_Comments Lexer_Literals Unescape_Props Hybrid_Ranges Growable_Bit_Set Bit_Matrix
    Sparse_Bit_Matrix Finite_Bit_Set Interval_Matrix Serialize_Values Span_Encoding Sorted_Map_Props
    Transitive_Bounds Abi_Data_Layout Layout_Enum_Props Graph_Cycles Graph_Post_Order
begin

text \<open>
  This library verifies the foundation crates of the compiler in this repository, a Rust
  compiler whose language has field literals: the lexer, the unescaping of literals, the
  index sets of the dataflow analyses, the serialization of metadata, the encoding of spans,
  the sorted map, transitive relation and graphs of the shared data structures, and the
  computation of layouts, with the field and curve types. The paths below are relative to \<open>src/compiler\<close>.

  \<^bold>\<open>Conventions.\<close> A Rust function is a HOL function of the same name, prefixed where two
  types have a method of the same name. An operation on \<open>&mut self\<close> returns the new state.
  An operation that can panic returns an option, and \<open>None\<close> is the panic; where the source
  uses unchecked accesses, \<open>None\<close> is also an access outside the allocation or to a byte
  never written, so that a theorem that rules out \<open>None\<close> is a safety theorem for the unsafe
  code. Panics are those of a build with debug assertions and overflow checks: an addition or
  subtraction that overflows is \<open>None\<close>, as in \<open>align_to\<close> of sizes and \<open>set_range\<close> of finite sets. Two
  places differ: positions and hash counters of the lexer wrap at 32 bits, and the theorems that
  need it bound the text; and the file encoder of whole values leaves out the debug assertion of
  \<open>IntEncodedWithFixedSize\<close>, which can fail. A \<open>usize\<close> is a natural number, with its 64 bits where it is encoded or
  overflows for inputs that fit in memory; words and the casts
  \<open>as u32\<close> and \<open>as u16\<close> are kept at their width where the code wraps or shifts. Theory
  \<^theory_text>\<open>Prelude\<close> has the characters and strings, \<^theory_text>\<open>Index_Base\<close> the panics, indexing and loops.

  \<^bold>\<open>The lexer\<close>, \<open>rustc_lexer/src/cursor.rs\<close> and \<open>lib.rs\<close>. \<^theory_text>\<open>Lexer_Cursor\<close> is the cursor,
  \<^theory_text>\<open>Lexer\<close> every routine below \<open>advance_token\<close>, with the debug assertions recorded in a flag
  of the cursor, \<^theory_text>\<open>Lexer_Tokenize\<close> the entry points. Every routine only moves the cursor
  forward, from which the loops terminate and the tokens partition the input (C1); the
  assertions hold (C2); literal suffixes lie in their token; whitespace tokens are
  maximal; \<open>is_ident\<close> agrees with the tokenizer. \<^theory_text>\<open>Lexer_Comments\<close> compares the
  nesting counter of block comments with a grammar (C6), \<^theory_text>\<open>Lexer_Literals\<close> the raw string
  loop with the first terminator in the text (C7), and covers field literals (C8) and the
  shebang. The Unicode tables of the crates \<open>unicode_xid\<close> and
  \<open>unicode_properties\<close> are a parameter of every routine that asks them.

  \<^bold>\<open>Unescaping\<close>, \<open>rustc_lexer/src/unescape.rs\<close>. \<^theory_text>\<open>Unescape\<close> has the scanners, with every error
  of \<open>EscapeError\<close>; the callback is the list of its calls, each with its byte range.
  \<^theory_text>\<open>Escape\<close> has \<open>escape_default\<close> of \<open>library/core\<close> and the round trips of strings (C11) and characters.
  \<^theory_text>\<open>Unescape_Props\<close> shows that ranges lie in the source, byte values fit a byte
  and raw literals are passed through exactly.

  \<^bold>\<open>Index sets\<close>, \<open>rustc_index/src/bit_set.rs\<close>. The locales of \<^theory_text>\<open>Set_Interface\<close> say what an
  implementation of a set promises: representation invariant, abstraction to a set of
  indices, and the laws of the operations; every representation interprets them.
  \<^theory_text>\<open>Bit_Words\<close> has the word arithmetic, \<^theory_text>\<open>Bit_Set\<close> and \<^theory_text>\<open>Bit_Set_Props\<close> the dense sets (C16), \<^theory_text>\<open>Chunked_Bit_Set\<close>, \<^theory_text>\<open>Chunked_Props\<close> and \<^theory_text>\<open>Chunked_Iter\<close> the chunked sets with their
  counts and both iterators (C19, C21), \<^theory_text>\<open>Hybrid_Bit_Set\<close>, \<^theory_text>\<open>Hybrid_Props\<close> and
  \<^theory_text>\<open>Hybrid_Ranges\<close> the sparse and hybrid sets and the relations between all
  representations (C23, C24), the inputs for which the relations panic (C25) and the effect
  of ranges without end, which differs between the representations (C27).
  \<^theory_text>\<open>Growable_Bit_Set\<close> (C29), \<^theory_text>\<open>Bit_Matrix\<close>, \<^theory_text>\<open>Sparse_Bit_Matrix\<close> (C32, over the
  vectors of optional rows of \<^theory_text>\<open>Index_Vec\<close>, from \<open>vec.rs\<close> and \<open>slice.rs\<close>) and
  \<^theory_text>\<open>Finite_Bit_Set\<close> (C33) are the other types of the file.

  \<^bold>\<open>Intervals\<close>, \<open>rustc_index/src/interval.rs\<close>. \<^theory_text>\<open>Interval_Set\<close> has the sorted vectors of
  intervals with \<open>u32\<close> bounds, \<^theory_text>\<open>Interval_Props\<close> the effect of \<open>insert_range\<close> with its merging of
  neighbours (C34) and the queries (C35), \<^theory_text>\<open>Interval_Relations\<close> union and the one-pass
  \<open>superset\<close>, \<^theory_text>\<open>Interval_Matrix\<close> the matrix (C37), over the locale of \<^theory_text>\<open>Index_Vec\<close>.

  \<^bold>\<open>Serialization\<close>, \<open>rustc_serialize/src\<close>. \<^theory_text>\<open>Mem_Decoder\<close> and \<^theory_text>\<open>File_Encoder\<close> are the two ends
  of \<open>opaque.rs\<close>, \<^theory_text>\<open>Leb128\<close> and \<^theory_text>\<open>Leb128_Signed\<close> the integer encodings of \<open>leb128.rs\<close>, over
  words of any number of bytes and against base-128 digits (C38, C39). The file is its
  bytes and a finite list of outcomes of the coming writes, after which writes succeed;
  so the flush loops terminate, which an endless run of interruptions would prevent.
  \<^theory_text>\<open>File_Encoder_Props\<close> shows that the file and the buffer together are the emitted bytes
  until an error is recorded. \<^theory_text>\<open>Serialize\<close> has the traits of \<open>serialize.rs\<close>; the locale of
  \<^theory_text>\<open>Serialize_Codec\<close> is the contract of a type's pair of impls, interpreted for every
  primitive type and carried through the type constructors; \<^theory_text>\<open>Serialize_Values\<close> concludes
  with the round trip of any value through a file (C40).

  \<^bold>\<open>Spans\<close>, \<open>rustc_span/src/span_encoding.rs\<close>. \<^theory_text>\<open>Span_Encoding\<close> has the compression of a span
  to eight bytes in its four formats and the recovery of its data, context and parent
  (C4). The index set of the interner is a parameter with the laws of the crate
  \<open>indexmap\<close>; the round trip is for interners of fewer than \<open>2\<^sup>3\<^sup>2\<close> entries, which is what
  the code's own conversion to \<open>u32\<close> needs.

  \<^bold>\<open>Sorted maps\<close>, \<open>rustc_data_structures/src/sorted_map.rs\<close>. \<^theory_text>\<open>Sorted_Map\<close> has the vector of
  pairs and every operation, over the binary search of \<open>library/core\<close>; \<^theory_text>\<open>Sorted_Map_Props\<close>
  compares them with finite maps: the search stays in bounds, single insertions, removals
  and lookups (C10), ranges and the insertion of presorted runs.

  \<^bold>\<open>Transitive relations\<close>, \<open>rustc_data_structures/src/transitive_relation.rs\<close>.
  \<^theory_text>\<open>Transitive_Relation\<close> has the builder, the closure as a \<^theory_text>\<open>Bit_Matrix\<close> and the queries; the
  index set and the hash set are a record of operations with laws. \<^theory_text>\<open>Transitive_Props\<close> reads
  matrices as relations, shows that the passes of \<open>freeze\<close> grow to the transitive closure
  and stop, and relates indices to elements. \<^theory_text>\<open>Transitive_Bounds\<close> concludes with the closure
  (C18), the minimal upper bounds and parents (C9) and the postdominators (C26), and has
  the effect of \<open>maybe_map\<close>.

  \<^bold>\<open>Graphs\<close>, \<open>rustc_data_structures/src/graph\<close> and \<open>work_queue.rs\<close>. In \<^theory_text>\<open>Graph\<close> a graph is the
  record of the trait operations \<open>num_nodes\<close> and \<open>successors\<close>, and the theory has the graph of edge
  vectors, the post order and depth first walks, the three-colour search for cycles and
  the work queue. The locale of \<^theory_text>\<open>Graph_Props\<close> is the contract of an implementation of the
  traits: the lookup of a node's successors does not panic and gives nodes. Vector graphs
  interpret it, because the one pass that fills \<open>node_starts\<close> gives every node exactly its
  edges (C30). \<^theory_text>\<open>Graph_Search\<close> shows that the depth first search returns and yields every
  reachable node once (C20), and that the work queue holds no element twice. \<^theory_text>\<open>Graph_Cycles\<close>
  shows that \<open>is_cyclic\<close> decides whether a cycle is reachable from the start node (C22),
  \<^theory_text>\<open>Graph_Post_Order\<close> that a post order lists the reachable nodes, each after its
  successors that do not lead back to it (C36), so that the reverse order of an acyclic graph is topological.

  \<^bold>\<open>Layout\<close>, \<open>rustc_abi/src/lib.rs\<close>. \<^theory_text>\<open>Abi_Size\<close> has sizes and alignments on 64-bit words: the
  alignment arithmetic (C3), truncation and sign extension to a size. \<^theory_text>\<open>Abi_Types\<close> has
  the integers, fields, curves, primitives and the data layout of a target; \<^theory_text>\<open>Abi_Niche\<close> the
  wrapping ranges of valid values, read as arcs on a circle, and the reservation of niches
  (C17); \<^theory_text>\<open>Abi_Layout\<close> the order of fields and the sizes that an ABI class mandates;
  \<^theory_text>\<open>Abi_Data_Layout\<close> the parser of LLVM's data layout strings (C14), over the integer parser of
  \<open>library/core\<close> in \<^theory_text>\<open>Num_Parse\<close>.

  \<^bold>\<open>The layout calculator\<close>, \<open>rustc_abi/src/layout.rs\<close>. \<^theory_text>\<open>Layout_Types\<close> has the representation
  options and the layouts; the record \<open>externs\<close> stands for what the code takes from other
  crates: the flag sets of \<open>bitflags\<close>, the shuffle of \<open>rand\<close> and the feature that enables it.
  The theorems assume of it only that a shuffle is a permutation. The outer option of a
  result is the panic, the inner one the \<open>None\<close> of the code, a size out of bounds.
  \<^theory_text>\<open>Layout_Univariant\<close> has the layout of one variant: the order of the fields by the sort keys,
  the loop that places them, the class of the result, and the second run that moves the niche
  to the end. \<^theory_text>\<open>Layout_Offsets\<close> has the arithmetic of blocks with alignments,
  \<^theory_text>\<open>Layout_Univariant_Props\<close> the sort keys, \<^theory_text>\<open>Layout_Placement\<close> the loop, \<^theory_text>\<open>Layout_Struct\<close> the
  specification of a struct's layout; \<^theory_text>\<open>Layout_Struct_Props\<close> shows that \<open>univariant\<close> returns,
  that its layouts satisfy the specification (C5), and that the order of the fields leaves
  no padding between them (C12). \<^theory_text>\<open>Layout_Union\<close> has the unions, which hold all their fields (C28)
  and panic for field elements and curves (C15). \<^theory_text>\<open>Layout_Enum\<close> has structs with restricted
  ranges, the niche-filling and the tagged layout of an enum and the choice between them, with
  the type of the tag from \<open>rustc_middle/src/ty/layout.rs\<close>. \<^theory_text>\<open>Layout_Niche_Props\<close> shows that
  niche filling keeps the fields clear of the niche and gives every variant a value of its
  own, \<^theory_text>\<open>Layout_Tagged_Props\<close> that the fields lie behind the tag, also when the tag is made
  larger, \<^theory_text>\<open>Layout_Discr_Props\<close> that the tag holds the discriminants; \<^theory_text>\<open>Layout_Examples\<close> computes
  the layouts of two enums, and \<^theory_text>\<open>Layout_Enum_Props\<close> has the result for enums (C13) and for
  their discriminants (C31). The discriminants come from the caller, and the calls of
  \<open>delay_bug\<close>, which only reports, are counted. Not modelled is the debug output.

  \<^bold>\<open>Termination.\<close> No definition uses fuel: most loops are structural or come with a measure,
  the characters left for the lexer, the free part of a buffer for the encoders, the bytes
  left for the decoders, the bits left for the iterators. Three loops of the transitive
  relation are partial functions, whose result is \<open>None\<close> when they do not return; they are
  shown to return, by the pairs missing from the matrix (C18), the candidates left (C9)
  and the multiset of what lies above the points (C26). So are the loops of the three graph
  walks, shown to return by the nodes not yet visited and the length of the stack (C20, C22, C36).

  \<^bold>\<open>Not modelled.\<close> The parser and everything behind it, which work on interned syntax and the
  query system; code generation, which calls LLVM; the driver, diagnostics and tools, which
  are input and output; the library crates, apart from the functions the modelled code
  calls. Of the modelled crates: \<open>Debug\<close> output, hashing, the source map and the symbols of
  \<open>rustc_span\<close>, the other graph algorithms (dominators, strongly connected components, linked
  graphs) and the concurrent containers of \<open>rustc_data_structures\<close>, the collections of
  \<open>collection_impls.rs\<close>, and the forwarding wrappers of \<open>vec.rs\<close> and \<open>slice.rs\<close>.
\<close>

end
